(* ===== verification/Prelude.thy ===== *)
theory Prelude
  imports Complex_Main "HOL-Library.Word" "HOL-Library.Log_Nat"
begin

unbundle bit_operations_syntax

text \<open>
  What the components share: Rust's machine integers and the operations on them the miner
  uses, byte strings and their big- and little-endian readings, and time.
\<close>

section \<open>Machine integers\<close>

named_theorems bytes_simps \<open>lengths and values of byte strings\<close>
named_theorems rust_simps \<open>saturating, overflowing and clamping arithmetic, read as naturals\<close>

type_synonym u8 = "8 word"
type_synonym u32 = "32 word"
type_synonym u64 = "64 word"
type_synonym u128 = "128 word"
type_synonym bytes = "u8 list"

definition sat_add :: "'a::len word \<Rightarrow> 'a word \<Rightarrow> 'a word" where
  "sat_add a b = (if unat a + unat b < 2 ^ LENGTH('a) then a + b else - 1)"

definition sat_sub :: "'a::len word \<Rightarrow> 'a word \<Rightarrow> 'a word" where
  "sat_sub a b = (if b \<le> a then a - b else 0)"

definition sat_mul :: "'a::len word \<Rightarrow> 'a word \<Rightarrow> 'a word" where
  "sat_mul a b = (if unat a * unat b < 2 ^ LENGTH('a) then a * b else - 1)"

definition checked_mul :: "'a::len word \<Rightarrow> 'a word \<Rightarrow> 'a word option" where
  "checked_mul a b = (if unat a * unat b < 2 ^ LENGTH('a) then Some (a * b) else None)"

definition checked_add :: "'a::len word \<Rightarrow> 'a word \<Rightarrow> 'a word option" where
  "checked_add a b = (if unat a + unat b < 2 ^ LENGTH('a) then Some (a + b) else None)"

definition overflowing_add :: "'a::len word \<Rightarrow> 'a word \<Rightarrow> 'a word \<times> bool" where
  "overflowing_add a b = (a + b, 2 ^ LENGTH('a) \<le> unat a + unat b)"

text \<open>\<open>Ord::clamp\<close>; Rust panics when \<open>hi < lo\<close>, which no caller in the miner can reach.\<close>

definition clamp :: "'a::linorder \<Rightarrow> 'a \<Rightarrow> 'a \<Rightarrow> 'a" where
  "clamp lo hi x = (if x < lo then lo else if hi < x then hi else x)"

lemma unat_add_no_overflow [rust_simps]:
  fixes a b :: "'a::len word"
  assumes "unat a + unat b < 2 ^ LENGTH('a)"
  shows "unat (a + b) = unat a + unat b"
  using assms by (simp add: unat_word_ariths)

lemma unat_mul_no_overflow [rust_simps]:
  fixes a b :: "'a::len word"
  assumes "unat a * unat b < 2 ^ LENGTH('a)"
  shows "unat (a * b) = unat a * unat b"
  using assms by (simp add: unat_word_ariths)

lemma unat_max_word: "unat (- 1 :: 'a::len word) = 2 ^ LENGTH('a) - 1"
  by (simp add: unsigned_minus_1_eq_mask mask_eq_exp_minus_1)

lemma unat_sat_add [rust_simps]:
  fixes a b :: "'a::len word"
  shows "unat (sat_add a b) = min (unat a + unat b) (2 ^ LENGTH('a) - 1)"
  by (auto simp: sat_add_def unat_add_no_overflow unat_max_word min_def)

lemma unat_sat_sub [rust_simps]: "unat (sat_sub a b) = unat a - unat b"
proof (cases "b \<le> a")
  case True
  then show ?thesis by (simp add: sat_sub_def unat_sub)
next
  case False
  then have "unat a < unat b" by (simp add: word_less_nat_alt not_le)
  with False show ?thesis by (simp add: sat_sub_def)
qed

lemma unat_sat_mul [rust_simps]:
  fixes a b :: "'a::len word"
  shows "unat (sat_mul a b) = min (unat a * unat b) (2 ^ LENGTH('a) - 1)"
proof (cases "unat a * unat b < 2 ^ LENGTH('a)")
  case True
  then show ?thesis by (simp only: sat_mul_def if_True unat_mul_no_overflow)
next
  case False
  then show ?thesis by (simp only: sat_mul_def if_False unat_max_word)
qed

lemma checked_mul_Some_iff [rust_simps]:
  fixes a b :: "'a::len word"
  shows "checked_mul a b = Some c \<longleftrightarrow> unat c = unat a * unat b"
proof
  assume "checked_mul a b = Some c"
  then show "unat c = unat a * unat b"
    by (auto simp: checked_mul_def unat_mul_no_overflow split: if_splits)
next
  assume c: "unat c = unat a * unat b"
  then have "unat a * unat b < 2 ^ LENGTH('a)"
    using unsigned_less [of c, where 'a = nat] by simp
  moreover from this have "a * b = c"
    using c by (simp add: unat_mul_no_overflow word_unat_eq_iff)
  ultimately show "checked_mul a b = Some c" by (simp add: checked_mul_def)
qed

lemma unat_min [rust_simps]: "unat (min a b) = min (unat a) (unat b)"
  by (simp add: min_def word_le_nat_alt)

lemma unat_max [rust_simps]: "unat (max a b) = max (unat a) (unat b)"
  by (simp add: max_def word_le_nat_alt)

lemma clamp_bounds: "lo \<le> hi \<Longrightarrow> lo \<le> clamp lo hi x \<and> clamp lo hi x \<le> hi"
  by (auto simp: clamp_def)

lemma clamp_id: "lo \<le> x \<Longrightarrow> x \<le> hi \<Longrightarrow> clamp lo hi x = x"
  by (auto simp: clamp_def)

section \<open>Byte strings\<close>

text \<open>A byte string read as a number: the most significant byte first, or last.\<close>

definition be_val :: "bytes \<Rightarrow> nat" where
  "be_val bs = foldl (\<lambda>acc b. acc * 256 + unat b) 0 bs"

definition le_val :: "bytes \<Rightarrow> nat" where
  "le_val bs = be_val (rev bs)"

text \<open>\<open>to_le_bytes\<close> and \<open>to_be_bytes\<close> of a word of \<open>n\<close> bytes.\<close>

definition to_le_bytes :: "nat \<Rightarrow> 'a::len word \<Rightarrow> bytes" where
  "to_le_bytes n w = map (\<lambda>i. ucast (drop_bit (8 * i) w)) [0..<n]"

definition to_be_bytes :: "nat \<Rightarrow> 'a::len word \<Rightarrow> bytes" where
  "to_be_bytes n w = rev (to_le_bytes n w)"

text \<open>\<open>out[pos..pos + n].copy_from_slice(src)\<close>, with \<open>n\<close> the length of \<open>src\<close>.\<close>

definition copy_at :: "nat \<Rightarrow> 'a list \<Rightarrow> 'a list \<Rightarrow> 'a list" where
  "copy_at pos src out = take pos out @ src @ drop (pos + length src) out"

text \<open>\<open>xs.get(i)\<close> and \<open>xs.get(i..j)\<close>.\<close>

definition list_get :: "'a list \<Rightarrow> nat \<Rightarrow> 'a option" where
  "list_get xs i = (if i < length xs then Some (xs ! i) else None)"

definition list_get_range :: "'a list \<Rightarrow> nat \<Rightarrow> nat \<Rightarrow> 'a list option" where
  "list_get_range xs i j =
     (if i \<le> j \<and> j \<le> length xs then Some (take (j - i) (drop i xs)) else None)"

lemma length_to_le_bytes [simp, bytes_simps]: "length (to_le_bytes n w) = n"
  by (simp add: to_le_bytes_def)

lemma length_to_be_bytes [simp, bytes_simps]: "length (to_be_bytes n w) = n"
  by (simp add: to_be_bytes_def)

lemma length_copy_at [simp, bytes_simps]:
  "pos + length src \<le> length out \<Longrightarrow> length (copy_at pos src out) = length out"
  by (simp add: copy_at_def)

lemma nth_copy_at:
  "pos + length src \<le> length out \<Longrightarrow> i < length out \<Longrightarrow>
   copy_at pos src out ! i =
     (if pos \<le> i \<and> i < pos + length src then src ! (i - pos) else out ! i)"
  by (auto simp: copy_at_def nth_append min_def)

lemma be_val_foldl: "foldl (\<lambda>acc b. acc * 256 + unat b) n bs = n * 256 ^ length bs + be_val bs"
proof (induction bs arbitrary: n rule: rev_induct)
  case Nil
  then show ?case by (simp add: be_val_def)
next
  case (snoc b bs)
  have "be_val (bs @ [b]) = be_val bs * 256 + unat b" by (simp add: be_val_def)
  with snoc show ?case by (simp add: algebra_simps)
qed

lemma be_val_Nil [simp]: "be_val [] = 0"
  by (simp add: be_val_def)

lemma be_val_Cons [bytes_simps]: "be_val (b # bs) = unat b * 256 ^ length bs + be_val bs"
  using be_val_foldl [of "unat b" bs] by (simp add: be_val_def)

lemma be_val_snoc [bytes_simps]: "be_val (bs @ [b]) = be_val bs * 256 + unat b"
  by (simp add: be_val_def)

lemma be_val_append [bytes_simps]: "be_val (xs @ ys) = be_val xs * 256 ^ length ys + be_val ys"
  using be_val_foldl [of "be_val xs" ys] by (simp add: be_val_def)

lemma be_val_replicate_zero [simp]: "be_val (replicate n 0) = 0"
  by (induction n) (simp_all add: be_val_Cons)

lemma be_val_bound: "be_val bs < 256 ^ length bs"
proof (induction bs)
  case Nil
  then show ?case by simp
next
  case (Cons b bs)
  have "unat b < 256" using unsigned_less [of b, where 'a = nat] by simp
  then have "unat b + 1 \<le> 256" by simp
  then have "(unat b + 1) * 256 ^ length bs \<le> 256 * 256 ^ length bs"
    by (rule mult_le_mono1)
  with Cons have "unat b * 256 ^ length bs + be_val bs < 256 * 256 ^ length bs"
    by (simp only: distrib_right mult_1)
  then show ?case by (simp add: be_val_Cons)
qed

lemma digit_split:
  fixes a b x y :: nat
  assumes "x < 256" and "y < 256" and eq: "a * 256 + x = b * 256 + y"
  shows "a = b \<and> x = y"
proof -
  have "a = (a * 256 + x) div 256" using assms(1) by simp
  also have "\<dots> = b" using assms(2) by (simp add: eq)
  finally show ?thesis using eq by simp
qed

lemma be_val_inj: "length xs = length ys \<Longrightarrow> be_val xs = be_val ys \<Longrightarrow> xs = ys"
proof (induction xs ys rule: rev_induct2)
  case (4 x xs y ys)
  have "unat x < 256" "unat y < 256" using unsigned_less [of x, where 'a = nat] unsigned_less [of y, where 'a = nat] by simp_all
  moreover from 4(3) have "be_val xs * 256 + unat x = be_val ys * 256 + unat y"
    by (simp only: be_val_snoc)
  ultimately have "be_val xs = be_val ys \<and> unat x = unat y" by (intro digit_split)
  with 4 show ?case by (simp add: word_unat_eq_iff)
qed simp_all

lemma le_val_Nil [simp]: "le_val [] = 0"
  by (simp add: le_val_def)

lemma le_val_Cons [bytes_simps]: "le_val (b # bs) = unat b + 256 * le_val bs"
  by (simp add: le_val_def be_val_snoc)

lemma le_val_append [bytes_simps]: "le_val (xs @ ys) = le_val xs + 256 ^ length xs * le_val ys"
  by (simp add: le_val_def be_val_append)

lemma le_val_bound: "le_val bs < 256 ^ length bs"
  using be_val_bound [of "rev bs"] by (simp add: le_val_def)

lemma le_val_inj: "length xs = length ys \<Longrightarrow> le_val xs = le_val ys \<Longrightarrow> xs = ys"
  using be_val_inj [of "rev xs" "rev ys"] by (simp add: le_val_def)

lemma le_val_to_le_bytes:
  fixes w :: "'a::len word"
  shows "le_val (to_le_bytes n w) = unat w mod 256 ^ n"
proof (induction n)
  case 0
  then show ?case by (simp add: to_le_bytes_def)
next
  case (Suc n)
  have "unat (ucast (drop_bit (8 * n) w) :: u8) = unat w div 256 ^ n mod 256"
    by (simp add: unsigned_ucast_eq unat_drop_bit_eq drop_bit_eq_div [where 'a = nat] take_bit_eq_mod power_mult)
  moreover have "to_le_bytes (Suc n) w = to_le_bytes n w @ [ucast (drop_bit (8 * n) w)]"
    by (simp add: to_le_bytes_def)
  ultimately have "le_val (to_le_bytes (Suc n) w)
      = unat w mod 256 ^ n + 256 ^ n * (unat w div 256 ^ n mod 256)"
    using Suc by (simp add: le_val_append le_val_Cons)
  also have "\<dots> = unat w mod (256 ^ n * 256)"
    by (simp add: mod_mult2_eq)
  finally show ?case by (simp add: mult.commute)
qed

lemma be_val_to_be_bytes: "be_val (to_be_bytes n w) = unat w mod 256 ^ n"
  using le_val_to_le_bytes [of n w] by (simp add: to_be_bytes_def le_val_def)

lemma to_le_bytes_inj_u32: "to_le_bytes 4 (x :: u32) = to_le_bytes 4 y \<Longrightarrow> x = y"
  using le_val_to_le_bytes [of 4 x] le_val_to_le_bytes [of 4 y] unsigned_less [of x, where 'a = nat] unsigned_less [of y, where 'a = nat]
  by (simp add: word_unat_eq_iff)

subsection \<open>Intervals as lists\<close>

lemma map_plus_upt: "map (\<lambda>x. k + x) [a..<b] = [k + a..<k + (b :: nat)]"
  by (intro nth_equalityI) simp_all

lemma upt_split: "i \<le> j \<Longrightarrow> j \<le> k \<Longrightarrow> [i..<j] @ [j..<k] = [i..<k]"
  by (metis le_add_diff_inverse upt_add_eq_append)

section \<open>Time\<close>

text \<open>
  A \<open>Duration\<close> is a number of nanoseconds; an \<open>Instant\<close> the nanoseconds of the monotonic
  clock since some origin. \<open>duration_since\<close> saturates at zero, as it does since Rust 1.60.
\<close>

type_synonym duration = nat
type_synonym instant = nat

definition from_secs :: "nat \<Rightarrow> duration" where
  "from_secs s = s * 1000000000"

definition from_millis :: "nat \<Rightarrow> duration" where
  "from_millis ms = ms * 1000000"

definition as_secs :: "duration \<Rightarrow> nat" where
  "as_secs d = d div 1000000000"

definition as_micros :: "duration \<Rightarrow> nat" where
  "as_micros d = d div 1000"

definition duration_since :: "instant \<Rightarrow> instant \<Rightarrow> duration" where
  "duration_since now t = now - t"

text \<open>A part of a concatenation of parts of one length.\<close>

lemma take_drop_concat:
  "\<forall>p\<in>set ps. length p = k \<Longrightarrow> j < length ps \<Longrightarrow> take k (drop (j * k) (concat ps)) = ps ! j"
proof (induction ps arbitrary: j)
  case (Cons p ps)
  then show ?case by (cases j) (simp_all add: add.commute)
qed simp

end
