(* ===== verification/F64.thy ===== *)
theory F64
  imports Prelude
begin

text \<open>
  Rust's \<open>f64\<close>: IEEE binary64 with round-to-nearest, ties to even. A finite value is the
  rational number it stands for; \<open>f64_round\<close> is the rounding every arithmetic operation
  ends with. The two zeros are one value here: no operation the miner uses tells them apart
  (it never divides by a zero of unknown sign and never prints one).
\<close>

section \<open>Values and rounding\<close>

datatype f64 = F_NaN | F_Inf bool | F_Fin rat

text \<open>\<open>F_Inf True\<close> is negative infinity.\<close>

definition pow2 :: "int \<Rightarrow> rat" where
  "pow2 e = (if 0 \<le> e then 2 ^ nat e else 1 / 2 ^ nat (- e))"

definition flog2 :: "rat \<Rightarrow> int" where
  "flog2 x = (let (n, d) = quotient_of x; k = bitlen n - bitlen d
              in if pow2 k \<le> x then k else k - 1)"

definition round_half_even :: "rat \<Rightarrow> int" where
  "round_half_even x =
     (let f = \<lfloor>x\<rfloor>; r = x - of_int f
      in if r < 1 / 2 then f else if 1 / 2 < r then f + 1 else if even f then f else f + 1)"

definition f64_ulp_exp :: "rat \<Rightarrow> int" where
  "f64_ulp_exp x = max (flog2 \<bar>x\<bar> - 52) (- 1074)"

definition f64_round :: "rat \<Rightarrow> f64" where
  "f64_round x =
     (if x = 0 then F_Fin 0
      else let e = f64_ulp_exp x; y = of_int (round_half_even (x / pow2 e)) * pow2 e
           in if 2 ^ 1024 \<le> \<bar>y\<bar> then F_Inf (y < 0) else F_Fin y)"

text \<open>A rational that is an \<open>f64\<close>: rounding leaves it alone.\<close>

definition f64_repr :: "rat \<Rightarrow> bool" where
  "f64_repr q \<longleftrightarrow> f64_round q = F_Fin q"

section \<open>Operations\<close>

fun f64_mul :: "f64 \<Rightarrow> f64 \<Rightarrow> f64" where
  "f64_mul (F_Fin a) (F_Fin b) = f64_round (a * b)"
| "f64_mul (F_Inf s) (F_Inf t) = F_Inf (s \<noteq> t)"
| "f64_mul (F_Inf s) (F_Fin b) = (if b = 0 then F_NaN else F_Inf (s \<noteq> (b < 0)))"
| "f64_mul (F_Fin a) (F_Inf t) = (if a = 0 then F_NaN else F_Inf (t \<noteq> (a < 0)))"
| "f64_mul _ _ = F_NaN"

fun f64_add :: "f64 \<Rightarrow> f64 \<Rightarrow> f64" where
  "f64_add (F_Fin a) (F_Fin b) = f64_round (a + b)"
| "f64_add (F_Inf s) (F_Inf t) = (if s = t then F_Inf s else F_NaN)"
| "f64_add (F_Inf s) (F_Fin b) = F_Inf s"
| "f64_add (F_Fin a) (F_Inf t) = F_Inf t"
| "f64_add _ _ = F_NaN"

fun f64_neg :: "f64 \<Rightarrow> f64" where
  "f64_neg (F_Fin a) = F_Fin (- a)"
| "f64_neg (F_Inf s) = F_Inf (\<not> s)"
| "f64_neg F_NaN = F_NaN"

definition f64_sub :: "f64 \<Rightarrow> f64 \<Rightarrow> f64" where
  "f64_sub a b = f64_add a (f64_neg b)"

text \<open>
  Division. A finite value over zero is an infinity with the sign of the dividend: every
  zero divisor the miner can meet is a positive one.
\<close>

fun f64_div :: "f64 \<Rightarrow> f64 \<Rightarrow> f64" where
  "f64_div (F_Fin a) (F_Fin b) =
     (if b = 0 then (if a = 0 then F_NaN else F_Inf (a < 0)) else f64_round (a / b))"
| "f64_div (F_Inf s) (F_Fin b) = F_Inf (s \<noteq> (b < 0))"
| "f64_div (F_Fin a) (F_Inf t) = F_Fin 0"
| "f64_div _ _ = F_NaN"

fun f64_abs :: "f64 \<Rightarrow> f64" where
  "f64_abs (F_Fin a) = F_Fin \<bar>a\<bar>"
| "f64_abs (F_Inf s) = F_Inf False"
| "f64_abs F_NaN = F_NaN"

text \<open>Comparisons: every one with a NaN is false.\<close>

fun f64_lt :: "f64 \<Rightarrow> f64 \<Rightarrow> bool" where
  "f64_lt (F_Fin a) (F_Fin b) \<longleftrightarrow> a < b"
| "f64_lt (F_Inf s) (F_Inf t) \<longleftrightarrow> s \<and> \<not> t"
| "f64_lt (F_Inf s) (F_Fin b) \<longleftrightarrow> s"
| "f64_lt (F_Fin a) (F_Inf t) \<longleftrightarrow> \<not> t"
| "f64_lt _ _ \<longleftrightarrow> False"

fun f64_eq :: "f64 \<Rightarrow> f64 \<Rightarrow> bool" where
  "f64_eq F_NaN _ \<longleftrightarrow> False"
| "f64_eq a b \<longleftrightarrow> a = b"

definition f64_le :: "f64 \<Rightarrow> f64 \<Rightarrow> bool" where
  "f64_le a b \<longleftrightarrow> f64_lt a b \<or> f64_eq a b"

text \<open>\<open>f64::max\<close> and \<open>f64::min\<close> return the other operand when one is a NaN.\<close>

definition f64_max :: "f64 \<Rightarrow> f64 \<Rightarrow> f64" where
  "f64_max a b = (if a = F_NaN then b else if b = F_NaN then a else if f64_lt a b then b else a)"

definition f64_min :: "f64 \<Rightarrow> f64 \<Rightarrow> f64" where
  "f64_min a b = (if a = F_NaN then b else if b = F_NaN then a else if f64_lt b a then b else a)"

fun f64_is_finite :: "f64 \<Rightarrow> bool" where
  "f64_is_finite (F_Fin _) \<longleftrightarrow> True"
| "f64_is_finite _ \<longleftrightarrow> False"

text \<open>\<open>as f64\<close> from an integer, and \<open>as uN\<close> from an \<open>f64\<close>: truncation, saturating, NaN to 0.\<close>

definition f64_of_nat :: "nat \<Rightarrow> f64" where
  "f64_of_nat n = f64_round (of_nat n)"

fun f64_to_uint :: "nat \<Rightarrow> f64 \<Rightarrow> nat" where
  "f64_to_uint w (F_Fin a) = (if a < 0 then 0 else min (nat \<lfloor>a\<rfloor>) (2 ^ w - 1))"
| "f64_to_uint w (F_Inf s) = (if s then 0 else 2 ^ w - 1)"
| "f64_to_uint w F_NaN = 0"

text \<open>\<open>f64::round\<close>: to the nearest integer, halves away from zero.\<close>

fun f64_round_int :: "f64 \<Rightarrow> f64" where
  "f64_round_int (F_Fin a) =
     F_Fin (of_int (if a < 0 then - \<lfloor>\<bar>a\<bar> + 1 / 2\<rfloor> else \<lfloor>a + 1 / 2\<rfloor>))"
| "f64_round_int x = x"

text \<open>\<open>Duration::as_secs_f64\<close> and \<open>Duration::mul_f64\<close> (rounded to whole nanoseconds).\<close>

definition as_secs_f64 :: "duration \<Rightarrow> f64" where
  "as_secs_f64 d = f64_add (f64_of_nat (d div 1000000000))
     (f64_div (f64_of_nat (d mod 1000000000)) (F_Fin 1000000000))"

text \<open>\<open>mul_f64\<close> panics on a result that is negative or not finite, which no caller reaches.\<close>

definition mul_f64 :: "duration \<Rightarrow> f64 \<Rightarrow> duration" where
  "mul_f64 d r =
     (case f64_mul r (as_secs_f64 d) of
        F_Fin a \<Rightarrow> nat (round_half_even (a * 1000000000))
      | _ \<Rightarrow> 0)"

section \<open>Exactness\<close>

lemma pow2_pos [simp]: "0 < pow2 e"
  by (simp add: pow2_def)

lemma pow2_nonzero [simp]: "pow2 e \<noteq> 0"
  using pow2_pos [of e] by linarith

lemma pow2_nat: "pow2 (int n) = 2 ^ n"
  by (simp add: pow2_def)

lemma pow2_Suc: "pow2 (e + 1) = 2 * pow2 e"
proof -
  consider "0 \<le> e" | "e = - 1" | "e < - 1" by linarith
  then show ?thesis
  proof cases
    case 1
    then show ?thesis by (simp add: pow2_def nat_add_distrib)
  next
    case 2
    then show ?thesis by (simp add: pow2_def)
  next
    case 3
    then have "nat (- e) = Suc (nat (- (e + 1)))" by simp
    with 3 show ?thesis by (simp add: pow2_def)
  qed
qed

lemma pow2_add_nat: "pow2 (e + int n) = pow2 e * 2 ^ n"
proof (induction n)
  case (Suc n)
  have "pow2 (e + int (Suc n)) = pow2 ((e + int n) + 1)" by (simp add: algebra_simps)
  with Suc show ?case by (simp add: pow2_Suc)
qed simp

lemma pow2_add: "pow2 (a + b) = pow2 a * pow2 b"
proof (cases "0 \<le> b")
  case True
  then show ?thesis using pow2_add_nat [of a "nat b"] by (simp add: pow2_def)
next
  case False
  have "pow2 a = pow2 ((a + b) + int (nat (- b)))" using False by simp
  also have "\<dots> = pow2 (a + b) * 2 ^ nat (- b)" by (rule pow2_add_nat)
  finally show ?thesis using False by (simp add: pow2_def)
qed

lemma pow2_mono: "a \<le> b \<Longrightarrow> pow2 a \<le> pow2 b"
proof -
  assume "a \<le> b"
  then have "pow2 b = pow2 a * 2 ^ nat (b - a)" using pow2_add_nat [of a "nat (b - a)"] by simp
  then show ?thesis by simp
qed

lemma pow2_less_iff: "pow2 a < pow2 b \<longleftrightarrow> a < b"
proof
  assume "pow2 a < pow2 b"
  then show "a < b" using pow2_mono [of b a] by linarith
next
  assume "a < b"
  then have "pow2 (a + 1) \<le> pow2 b" by (intro pow2_mono) simp
  then have "2 * pow2 a \<le> pow2 b" by (simp only: pow2_Suc)
  then show "pow2 a < pow2 b" using pow2_pos [of a] by linarith
qed

lemma pow2_le_of_int: "0 \<le> e \<Longrightarrow> 2 ^ nat e \<le> n \<Longrightarrow> pow2 e \<le> of_int n"
proof -
  assume "0 \<le> e" and "2 ^ nat e \<le> n"
  then have "(of_int (2 ^ nat e) :: rat) \<le> of_int n" by (simp only: of_int_le_iff)
  with \<open>0 \<le> e\<close> show ?thesis by (simp add: pow2_def)
qed

lemma of_int_less_pow2: "0 \<le> e \<Longrightarrow> n < 2 ^ nat e \<Longrightarrow> of_int n < pow2 e"
proof -
  assume "0 \<le> e" and "n < 2 ^ nat e"
  then have "(of_int n :: rat) < of_int (2 ^ nat e)" by (simp only: of_int_less_iff)
  with \<open>0 \<le> e\<close> show ?thesis by (simp add: pow2_def)
qed

lemma pow2_abs [simp]: "\<bar>pow2 e\<bar> = pow2 e"
  by (simp add: less_imp_le)

lemma flog2_bounds:
  assumes "0 < x"
  shows "pow2 (flog2 x) \<le> x \<and> x < pow2 (flog2 x + 1)"
proof -
  obtain n d where q: "quotient_of x = (n, d)" by fastforce
  from q have x: "x = of_int n / of_int d" and d: "0 < d"
    by (simp_all add: quotient_of_div quotient_of_denom_pos)
  from assms x d have n: "0 < n" by (simp add: zero_less_divide_iff)
  define a b where "a = bitlen n" and "b = bitlen d"
  have a1: "1 \<le> a" and b1: "1 \<le> b"
    using n d by (simp_all add: a_def b_def bitlen_alt_def)
  have nb: "2 ^ nat (a - 1) \<le> n \<and> n < 2 ^ nat a" and db: "2 ^ nat (b - 1) \<le> d \<and> d < 2 ^ nat b"
    using bitlen_bounds [OF n] bitlen_bounds [OF d] by (simp_all add: a_def b_def)
  have n1: "pow2 (a - 1) \<le> of_int n" and n2: "of_int n < pow2 a"
    using nb a1 by (auto intro: pow2_le_of_int of_int_less_pow2)
  have d1: "pow2 (b - 1) \<le> of_int d" and d2: "of_int d < pow2 b"
    using db b1 by (auto intro: pow2_le_of_int of_int_less_pow2)
  have dpos: "0 < (of_int d :: rat)" using d by simp
  have lower: "pow2 (a - b - 1) \<le> x"
  proof -
    have "pow2 (a - b - 1) * of_int d \<le> pow2 (a - b - 1) * pow2 b"
      using d2 by (intro mult_left_mono) (simp_all add: less_imp_le)
    also have "\<dots> = pow2 (a - 1)" by (simp add: pow2_add [symmetric])
    also have "\<dots> \<le> of_int n" by (rule n1)
    finally show ?thesis using dpos by (simp add: x pos_le_divide_eq)
  qed
  have upper: "x < pow2 (a - b + 1)"
  proof -
    have "of_int n < pow2 a" by (rule n2)
    also have "pow2 a = pow2 (a - b + 1) * pow2 (b - 1)" by (simp add: pow2_add [symmetric])
    also have "\<dots> \<le> pow2 (a - b + 1) * of_int d"
      using d1 by (intro mult_left_mono) (simp_all add: less_imp_le)
    finally show ?thesis using dpos by (simp add: x pos_divide_less_eq)
  qed
  show ?thesis
    using lower upper by (auto simp: flog2_def q Let_def a_def [symmetric] b_def [symmetric] not_le)
qed

lemma flog2_unique:
  assumes "pow2 k \<le> x" and "x < pow2 (k + 1)"
  shows "flog2 x = k"
proof -
  have "0 < x" using assms(1) pow2_pos [of k] by linarith
  from flog2_bounds [OF this] assms have "pow2 (flog2 x) < pow2 (k + 1)" "pow2 k < pow2 (flog2 x + 1)"
    by linarith+
  then show ?thesis by (simp add: pow2_less_iff)
qed

lemma flog2_scale:
  assumes "0 < x"
  shows "flog2 (x * 2 ^ k) = flog2 x + int k"
proof (rule flog2_unique)
  note b = flog2_bounds [OF assms]
  show "pow2 (flog2 x + int k) \<le> x * 2 ^ k"
    using b by (simp add: pow2_add_nat)
  have "pow2 (flog2 x + int k + 1) = pow2 (flog2 x + 1) * 2 ^ k"
    using pow2_add_nat [of "flog2 x + 1" k] by (simp add: algebra_simps)
  then show "x * 2 ^ k < pow2 (flog2 x + int k + 1)"
    using b by simp
qed

lemma round_half_even_int [simp]: "round_half_even (of_int m) = m"
  by (simp add: round_half_even_def)

lemma f64_round_0 [simp]: "f64_round 0 = F_Fin 0"
  by (simp add: f64_round_def)

text \<open>Every \<open>m * 2 ^ e\<close> with at most 53 bits of \<open>m\<close> and \<open>e\<close> in range is exact.\<close>

lemma f64_ulp_exp_le:
  assumes "x = of_int m * pow2 e" and "x \<noteq> 0" and "\<bar>m\<bar> < 2 ^ 53" and "- 1074 \<le> e"
  shows "f64_ulp_exp x \<le> e"
proof -
  have pos: "0 < \<bar>x\<bar>" using assms(2) by simp
  have "\<bar>x\<bar> = of_int \<bar>m\<bar> * pow2 e" by (simp add: assms(1) abs_mult)
  also have "\<dots> < pow2 53 * pow2 e"
  proof (intro mult_strict_right_mono)
    have "(of_int \<bar>m\<bar> :: rat) < of_int (2 ^ 53)" using assms(3) by (simp only: of_int_less_iff)
    then show "(of_int \<bar>m\<bar> :: rat) < pow2 53" by (simp add: pow2_def)
  qed simp
  also have "\<dots> = pow2 (e + 53)" by (simp add: pow2_add)
  finally have "\<bar>x\<bar> < pow2 (e + 53)" .
  with flog2_bounds [OF pos] have "pow2 (flog2 \<bar>x\<bar>) < pow2 (e + 53)" by linarith
  then have "flog2 \<bar>x\<bar> < e + 53" by (simp only: pow2_less_iff)
  with assms(4) show ?thesis by (simp add: f64_ulp_exp_def)
qed

lemma f64_round_exact:
  assumes x: "x = of_int m * pow2 e" and m: "\<bar>m\<bar> < 2 ^ 53" and e: "- 1074 \<le> e"
    and big: "\<bar>x\<bar> < 2 ^ 1024"
  shows "f64_round x = F_Fin x"
proof (cases "x = 0")
  case False
  define u where "u = f64_ulp_exp x"
  have "u \<le> e" using f64_ulp_exp_le [OF x False m e] by (simp add: u_def)
  then have "pow2 e = pow2 u * 2 ^ nat (e - u)" using pow2_add_nat [of u "nat (e - u)"] by simp
  then have "x / pow2 u = of_int (m * 2 ^ nat (e - u))" by (simp add: x)
  then have "of_int (round_half_even (x / pow2 u)) * pow2 u = x"
    by (simp only: round_half_even_int) (simp add: x \<open>pow2 e = _\<close>)
  with False big show ?thesis by (simp add: f64_round_def u_def [symmetric])
qed simp

lemma f64_repr_form:
  assumes "f64_repr x" and "x \<noteq> 0"
  shows "x = of_int (round_half_even (x / pow2 (f64_ulp_exp x))) * pow2 (f64_ulp_exp x)"
  using assms by (simp add: f64_repr_def f64_round_def Let_def split: if_splits)

lemma f64_repr_bound: "f64_repr x \<Longrightarrow> \<bar>x\<bar> < 2 ^ 1024"
  by (cases "x = 0") (auto simp: f64_repr_def f64_round_def Let_def split: if_splits)

text \<open>Scaling up by a power of two is exact until it overflows.\<close>

theorem f64_scale:
  assumes "f64_repr x"
  shows "f64_round (x * 2 ^ k) =
    (if 2 ^ 1024 \<le> \<bar>x * 2 ^ k\<bar> then F_Inf (x < 0) else F_Fin (x * 2 ^ k))"
proof (cases "x = 0")
  case False
  define u m where "u = f64_ulp_exp x" and "m = round_half_even (x / pow2 u)"
  have xm: "x = of_int m * pow2 u"
    using f64_repr_form [OF assms False] by (simp add: u_def m_def)
  define v where "v = f64_ulp_exp (x * 2 ^ k)"
  have pos: "0 < \<bar>x\<bar>" using False by simp
  have "flog2 (\<bar>x\<bar> * 2 ^ k) = flog2 \<bar>x\<bar> + int k"
    by (rule flog2_scale [OF pos])
  then have vu: "v \<le> u + int k" by (simp add: v_def u_def f64_ulp_exp_def abs_mult)
  have "pow2 (u + int k) = pow2 v * 2 ^ nat (u + int k - v)"
    using pow2_add_nat [of v "nat (u + int k - v)"] vu by simp
  moreover have "x * 2 ^ k = of_int m * pow2 (u + int k)"
    by (simp add: xm pow2_add_nat)
  ultimately have "x * 2 ^ k / pow2 v = of_int (m * 2 ^ nat (u + int k - v))" by simp
  then have "of_int (round_half_even (x * 2 ^ k / pow2 v)) * pow2 v = x * 2 ^ k"
    by (metis nonzero_divide_eq_eq pow2_nonzero round_half_even_int)
  with False show ?thesis
    by (simp add: f64_round_def v_def [symmetric] mult_less_0_iff)
qed simp

lemma f64_of_nat_exact: "n < 2 ^ 53 \<Longrightarrow> f64_of_nat n = F_Fin (of_nat n)"
proof -
  assume n: "n < 2 ^ 53"
  have "(of_nat n :: rat) < of_nat (2 ^ 53)" using n by (simp only: of_nat_less_iff)
  then have "(of_nat n :: rat) < 2 ^ 1024"
    by (rule less_le_trans) simp
  with n show ?thesis
    unfolding f64_of_nat_def
    by (intro f64_round_exact [where m = "int n" and e = 0])
      (simp_all add: pow2_def)
qed

end
