(* ===== verification/Text.thy ===== *)
theory Text
  imports F64
begin

text \<open>
  Rust's \<open>format!\<close> for what the miner prints: decimal and hexadecimal integers, \<open>{:.p}\<close> and
  \<open>{:.pe}\<close> of an \<open>f64\<close>, and the decimal and hexadecimal parsers.
\<close>

section \<open>Definitions\<close>

definition digit_char :: "nat \<Rightarrow> char" where
  "digit_char d = char_of (if d < 10 then 48 + d else 87 + d)"

text \<open>Digits of \<open>n\<close> in base \<open>b\<close>, most significant first.\<close>

function digits_of :: "nat \<Rightarrow> nat \<Rightarrow> string" where
  "digits_of b n = (if n < b \<or> b < 2 then [digit_char n] else digits_of b (n div b) @ [digit_char (n mod b)])"
  by auto
termination
  by (relation "measure snd") (auto intro!: div_less_dividend)

declare digits_of.simps [simp del]

abbreviation dec :: "nat \<Rightarrow> string" where
  "dec \<equiv> digits_of 10"

text \<open>\<open>{:0wx}\<close>.\<close>

definition hex_pad :: "nat \<Rightarrow> nat \<Rightarrow> string" where
  "hex_pad w n = (let s = digits_of 16 n in replicate (w - length s) CHR ''0'' @ s)"

definition dec_int :: "int \<Rightarrow> string" where
  "dec_int i = (if i < 0 then ''-'' else '''') @ dec (nat \<bar>i\<bar>)"

text \<open>A decimal point \<open>p\<close> digits from the right, with leading zeros as needed.\<close>

definition with_point :: "nat \<Rightarrow> nat \<Rightarrow> string" where
  "with_point p m =
     (let s = dec m; s = replicate (p + 1 - length s) CHR ''0'' @ s
      in if p = 0 then s else take (length s - p) s @ ''.'' @ drop (length s - p) s)"

fun fmt_fixed :: "nat \<Rightarrow> f64 \<Rightarrow> string" where
  "fmt_fixed p F_NaN = ''NaN''"
| "fmt_fixed p (F_Inf s) = (if s then ''-inf'' else ''inf'')"
| "fmt_fixed p (F_Fin a) =
     (if a < 0 then ''-'' else '''') @ with_point p (nat (round_half_even (\<bar>a\<bar> * 10 ^ p)))"

definition pow10 :: "int \<Rightarrow> rat" where
  "pow10 e = (if 0 \<le> e then 10 ^ nat e else 1 / 10 ^ nat (- e))"

definition flog10 :: "rat \<Rightarrow> int" where
  "flog10 x = (let (n, d) = quotient_of x; k = int (length (dec (nat n))) - int (length (dec (nat d)))
               in if pow10 k \<le> x then k else k - 1)"

fun fmt_exp :: "nat \<Rightarrow> f64 \<Rightarrow> string" where
  "fmt_exp p F_NaN = ''NaN''"
| "fmt_exp p (F_Inf s) = (if s then ''-inf'' else ''inf'')"
| "fmt_exp p (F_Fin a) =
     (if a = 0 then with_point p 0 @ ''e0''
      else let e = flog10 \<bar>a\<bar>;
               m = nat (round_half_even (\<bar>a\<bar> / pow10 (e - int p)));
               (m, e) = (if m = 10 ^ (p + 1) then (10 ^ p, e + 1) else (m, e))
           in (if a < 0 then ''-'' else '''') @ with_point p m @ ''e'' @ dec_int e)"

text \<open>\<open>s.join(sep)\<close>.\<close>

fun join :: "string \<Rightarrow> string list \<Rightarrow> string" where
  "join sep [] = ''''"
| "join sep [x] = x"
| "join sep (x # y # xs) = x @ sep @ join sep (y # xs)"

text \<open>\<open>char::to_digit\<close> and \<open>u32::from_str_radix\<close>: an optional plus sign, then one digit or more.\<close>

definition to_digit :: "nat \<Rightarrow> char \<Rightarrow> nat option" where
  "to_digit b c =
     (let n = of_char c;
          d = (if 48 \<le> n \<and> n \<le> 57 then Some (n - 48)
               else if 97 \<le> n \<and> n \<le> 122 then Some (n - 87)
               else if 65 \<le> n \<and> n \<le> 90 then Some (n - 55) else None)
      in case d of None \<Rightarrow> None | Some v \<Rightarrow> if v < b then Some v else None)"

fun digits_val :: "nat \<Rightarrow> nat \<Rightarrow> string \<Rightarrow> nat option" where
  "digits_val b acc [] = Some acc"
| "digits_val b acc (c # cs) =
     (case to_digit b c of None \<Rightarrow> None | Some d \<Rightarrow> digits_val b (acc * b + d) cs)"

definition from_str_radix :: "nat \<Rightarrow> nat \<Rightarrow> string \<Rightarrow> nat option" where
  "from_str_radix w b s =
     (let ds = (case s of [] \<Rightarrow> [] | c # cs \<Rightarrow> if c = CHR ''+'' then cs else s)
      in if ds = [] then None
         else case digits_val b 0 ds of
                None \<Rightarrow> None
              | Some v \<Rightarrow> if v < 2 ^ w then Some v else None)"

section \<open>Lemmas\<close>

lemma to_digit_digit_char:
  assumes "d < b" and "b \<le> 16"
  shows "to_digit b (digit_char d) = Some d"
proof -
  have "d < 16" using assms by simp
  then have "of_char (digit_char d) = (if d < 10 then 48 + d else 87 + d)"
    by (simp add: digit_char_def of_char_of take_bit_nat_eq_self)
  then show ?thesis using \<open>d < 16\<close> assms(1) by (simp add: to_digit_def Let_def)
qed

lemma digits_val_append:
  "digits_val b acc (xs @ ys) = Option.bind (digits_val b acc xs) (\<lambda>a. digits_val b a ys)"
  by (induction xs arbitrary: acc) (auto split: option.splits)

lemma digits_val_digits_of:
  assumes "2 \<le> b" and "b \<le> 16"
  shows "digits_val b 0 (digits_of b n) = Some n"
proof (induction n rule: less_induct)
  case (less n)
  show ?case
  proof (cases "n < b")
    case True
    then show ?thesis using assms by (subst digits_of.simps) (simp add: to_digit_digit_char)
  next
    case False
    then have "n div b < n" using assms by simp
    then have "digits_val b 0 (digits_of b (n div b)) = Some (n div b)" by (rule less.IH)
    moreover have "to_digit b (digit_char (n mod b)) = Some (n mod b)"
      using assms by (intro to_digit_digit_char) simp_all
    ultimately show ?thesis
      using False assms by (subst digits_of.simps) (simp add: digits_val_append)
  qed
qed

lemma digits_of_not_Nil [simp]: "digits_of b n \<noteq> []"
  by (subst digits_of.simps) simp

lemma to_digit_hd_digits_of:
  assumes "2 \<le> b" and "b \<le> 16"
  shows "to_digit b (hd (digits_of b n)) \<noteq> None"
  using digits_val_digits_of [OF assms, of n] by (cases "digits_of b n") (auto split: option.splits)

lemma digits_val_zeros: "0 < b \<Longrightarrow> digits_val b 0 (replicate k CHR ''0'' @ xs) = digits_val b 0 xs"
  by (induction k) (simp_all add: to_digit_def Let_def)

text \<open>What \<open>{:08x}\<close> prints, \<open>from_str_radix\<close> reads back.\<close>

lemma from_str_radix_hex_pad:
  assumes "n < 2 ^ w"
  shows "from_str_radix w 16 (hex_pad k n) = Some n"
proof -
  have val: "digits_val 16 0 (hex_pad k n) = Some n"
    by (simp add: hex_pad_def Let_def digits_val_zeros digits_val_digits_of)
  moreover have "hex_pad k n \<noteq> []" by (simp add: hex_pad_def Let_def)
  moreover have "hd (hex_pad k n) \<noteq> CHR ''+''"
  proof
    assume h: "hd (hex_pad k n) = CHR ''+''"
    with \<open>hex_pad k n \<noteq> []\<close> val show False
      by (cases "hex_pad k n") (auto simp: to_digit_def split: option.splits)
  qed
  ultimately show ?thesis
    using assms by (cases "hex_pad k n") (auto simp: from_str_radix_def)
qed

end
