(* ===== verification/Bc3_Crate.thy ===== *)
theory Bc3_Crate
  imports Text
begin

text \<open>
  \<open>bc3hash/src/lib.rs\<close>, the crate around the node's own BC3Hash: its tables are built and the build is
  checked against the node's vectors once, by whoever hashes first; the tables of the GPU kernel are
  built row by row on several threads. The node's code behind the C interface is an argument.
\<close>

section \<open>Definitions\<close>

text \<open>
  The C interface. A call that writes through a pointer takes what is there and gives its return code with
  what is there after it.
\<close>

record Bc3Core =
  co_initialize :: "bool \<Rightarrow> int"
  co_hash :: "bytes \<Rightarrow> int \<times> bytes"
  co_mix :: "bytes \<Rightarrow> int \<times> bytes"
  co_table_bytes :: nat
  co_part_u64 :: "u32 \<Rightarrow> nat \<Rightarrow> nat"
  co_table_part :: "u32 \<Rightarrow> nat \<Rightarrow> u64 list \<Rightarrow> int \<times> u64 list"
  co_rows :: "u32 \<Rightarrow> u32"
  co_row_u64 :: "u32 \<Rightarrow> nat"
  co_curve_row :: "u32 \<Rightarrow> nat \<Rightarrow> nat \<Rightarrow> u64 list \<Rightarrow> int \<times> u64 list"
  co_point :: "int \<Rightarrow> u32 \<Rightarrow> u64 \<Rightarrow> u64 list \<Rightarrow> int \<times> u64 list"

subsection \<open>The tables of the GPU kernel\<close>

text \<open>
  A thread of the build: at the head of its loop, with an item it has taken, or past the loop. The items are
  numbered in the order of the buffer, the power tables first, and each has the slice of the buffer with its
  number.
\<close>

datatype BuildThread = Looping | Building nat | Finished

record TableBuild =
  tb_queue :: "nat list"
  tb_slices :: "u64 list list"
  tb_failed :: bool
  tb_threads :: "BuildThread list"

definition build_item :: "Bc3Core \<Rightarrow> u32 \<Rightarrow> nat \<Rightarrow> nat \<Rightarrow> u64 list \<Rightarrow> int \<times> u64 list" where
  "build_item core window rows item buf =
     (if item = 0 then co_table_part core window 0 buf
      else co_curve_row core window ((item - 1) div rows) ((item - 1) mod rows) buf)"

text \<open>One turn of thread \<open>i\<close>: it takes the last item of the queue, or builds the one it has.\<close>

definition build_turn :: "Bc3Core \<Rightarrow> u32 \<Rightarrow> nat \<Rightarrow> nat \<Rightarrow> TableBuild \<Rightarrow> TableBuild" where
  "build_turn core window rows i s =
     (if length (tb_threads s) \<le> i then s
      else case tb_threads s ! i of
        Looping \<Rightarrow>
          if tb_queue s = [] then s\<lparr>tb_threads := (tb_threads s)[i := Finished]\<rparr>
          else s\<lparr>tb_queue := butlast (tb_queue s), tb_threads := (tb_threads s)[i := Building (last (tb_queue s))]\<rparr>
      | Building item \<Rightarrow>
          (case build_item core window rows item (tb_slices s ! item) of
             (rc, out) \<Rightarrow> s\<lparr>tb_slices := (tb_slices s)[item := out], tb_failed := (tb_failed s \<or> rc \<noteq> 0),
                              tb_threads := (tb_threads s)[i := Looping]\<rparr>)
      | Finished \<Rightarrow> s)"

definition build_threads :: "nat option \<Rightarrow> nat" where
  "build_threads cores = min 64 (max 1 (case cores of Some n \<Rightarrow> n | None \<Rightarrow> 4))"

definition build_start :: "Bc3Core \<Rightarrow> u32 \<Rightarrow> nat option \<Rightarrow> TableBuild" where
  "build_start core window cores =
     (let rows = unat (co_rows core window)
      in \<lparr>tb_queue = rev [0..<1 + 4 * rows],
          tb_slices = replicate (co_part_u64 core window 0) 0 # replicate (4 * rows) (replicate (co_row_u64 core window) 0),
          tb_failed = False, tb_threads = replicate (build_threads cores) Looping\<rparr>)"

text \<open>
  The threads take their turns in the order of \<open>turns\<close>; None when not all of them are past their loop by
  the end of it. Rows of no words make \<open>chunks_mut\<close> panic.
\<close>

definition gpu_tables :: "Bc3Core \<Rightarrow> nat option \<Rightarrow> nat list \<Rightarrow> u32 \<Rightarrow> (string + u64 list) option" where
  "gpu_tables core cores turns window =
     (if \<not> (2 \<le> window \<and> window \<le> 20) then Some (Inl (''no GPU tables for a window of '' @ dec (unat window) @ '' bits''))
      else if co_row_u64 core window = 0 then Some (Inl ''chunk size must be non-zero'')
      else let s = fold (build_turn core window (unat (co_rows core window))) turns (build_start core window cores)
           in if set (tb_threads s) \<subseteq> {Finished}
              then Some (if tb_failed s then Inl (''building the BC3Hash GPU tables (window '' @ dec (unat window) @ '') failed'')
                         else Inr (concat (tb_slices s)))
              else None)"

definition gpu_power_tables :: "Bc3Core \<Rightarrow> string + u64 list" where
  "gpu_power_tables core =
     (case co_table_part core 16 0 (replicate (co_part_u64 core 16 0) 0) of
        (rc, out) \<Rightarrow> if rc = 0 then Inr out else Inl (''building the BC3Hash power tables failed ('' @ dec_int rc @ '')''))"

definition gpu_point :: "Bc3Core \<Rightarrow> nat \<Rightarrow> u32 \<Rightarrow> u64 \<Rightarrow> string + u64 list" where
  "gpu_point core curve pos b =
     (let curve_arg = (if curve < 2 ^ 31 then int curve else - 1)
      in case co_point core curve_arg pos b (replicate 8 0) of
           (rc, out) \<Rightarrow>
             if rc = 0 then Inr out
             else Inl (''no point '' @ dec (unat b) @ '' * 2^'' @ dec (unat pos) @ '' on curve '' @ dec curve @ '' ('' @ dec_int rc @ '')''))"

subsection \<open>The vectors\<close>

definition to_hex :: "bytes \<Rightarrow> string" where
  "to_hex bs = concat (map (\<lambda>b. hex_pad 2 (unat b)) bs)"

text \<open>None where it panics.\<close>

fun from_hex :: "string \<Rightarrow> bytes option" where
  "from_hex [] = Some []"
| "from_hex (c # d # cs) =
     (case from_str_radix 8 16 [c, d] of
        None \<Rightarrow> None
      | Some v \<Rightarrow> map_option (\<lambda>bs. word_of_nat v # bs) (from_hex cs))"
| "from_hex [c] = None"

definition SELF_TEST :: "(string \<times> string) list" where
  "SELF_TEST =
     [(''00080020000102030405060708090a0b0c0d0e0f101112131415161718191a1b1c1d1e1f'' @
       ''202122232425262728292a2b2c2d2e2f303132333435363738393a3b3c3d3e3f00d2496bffff7f202a000000'',
       ''eef9a6934aa1719f19bdea11824927d4cd58b0995033b99edb4bf2370d77160e''),
      (''00180020000102030405060708090a0b0c0d0e0f101112131415161718191a1b1c1d1e1f'' @
       ''202122232425262728292a2b2c2d2e2f303132333435363738393a3b3c3d3e3f00d2496bffff7f202a000000'',
       ''102b13f7ba825a57fdd460fc6a7caaa473ea2cd7e312f5988d8d5c41438d3975''),
      ('''', ''069fcba272f2d061b70b0ab121e40d289c0fe8e277ac453450bf6090ad1795a4''),
      (''616263'', ''72e6793f4631eabb8755e35cd41706c245f56ed64d4a17d4ecc2769a93e419a1'')]"

definition header_vectors :: "(bytes option \<times> bytes option) list" where
  "header_vectors = map (\<lambda>(input, digest). (from_hex input, from_hex digest)) (filter (\<lambda>(input, _). length input = 160) SELF_TEST)"

subsection \<open>Building and checking, once\<close>

datatype InitError = TablesError bool | WrongResult string string string

definition init_error_text :: "InitError \<Rightarrow> string" where
  "init_error_text e =
     (case e of
        TablesError fast \<Rightarrow>
          let (mode, size) = (if fast then (''fast'', ''~256 MiB'') else (''compact'', ''~7 MiB''))
          in ''could not build the BC3Hash '' @ mode @ '' tables ('' @ size @ '') - out of memory?''
      | WrongResult input got expected \<Rightarrow>
          let input = (if 24 < length input then take 24 input @ ''...'' else input)
          in ''this build computes BC3Hash incorrectly - report it. The node'' @ [CHR 0x27] @ ''s test vector for input '' @ input @
             '' gave '' @ got @ '', expected '' @ expected)"

text \<open>
  The mode chosen, the outcome once there is one, how often the exit handler has been registered, and whether
  it has run: from then on the lock is held for writing and a hash waits for the end of the process.
\<close>

record Bc3State =
  bs_fast :: bool
  bs_ready :: "(InitError + unit) option"
  bs_handlers :: nat
  bs_stopped :: bool

definition bc3_fresh :: Bc3State where
  "bc3_fresh = \<lparr>bs_fast = False, bs_ready = None, bs_handlers = 0, bs_stopped = False\<rparr>"

datatype 'a outcome = Returns 'a | Panics string | Waits

definition raw_hash :: "Bc3Core \<Rightarrow> Bc3State \<Rightarrow> bytes \<Rightarrow> bytes outcome" where
  "raw_hash core s data =
     (if bs_stopped s then Waits
      else case co_hash core data of (rc, out) \<Rightarrow> if rc = 0 then Returns out else Panics ''BC3Hash threw an exception'')"

fun check_vectors :: "Bc3Core \<Rightarrow> Bc3State \<Rightarrow> (string \<times> string) list \<Rightarrow> (InitError + unit) outcome" where
  "check_vectors core s [] = Returns (Inr ())"
| "check_vectors core s ((input, expected) # vs) =
     (case from_hex input of
        None \<Rightarrow> Panics ''vector hex''
      | Some data \<Rightarrow>
          (case raw_hash core s data of
             Returns out \<Rightarrow>
               let got = to_hex out
               in if got \<noteq> expected then Returns (Inl (WrongResult (if input = '''' then ''(empty)'' else input) got expected))
                  else check_vectors core s vs
           | Panics p \<Rightarrow> Panics p
           | Waits \<Rightarrow> Waits))"

definition build_and_check :: "Bc3Core \<Rightarrow> Bc3State \<Rightarrow> (InitError + unit) outcome \<times> Bc3State" where
  "build_and_check core s =
     (if co_initialize core (bs_fast s) \<noteq> 0 then (Returns (Inl (TablesError (bs_fast s))), s)
      else case check_vectors core s SELF_TEST of
             Returns (Inr _) \<Rightarrow> (Returns (Inr ()), s\<lparr>bs_handlers := bs_handlers s + 1\<rparr>)
           | r \<Rightarrow> (r, s))"

text \<open>\<open>get_or_init\<close>: a panic leaves the cell empty.\<close>

definition bc3_initialize :: "Bc3Core \<Rightarrow> Bc3State \<Rightarrow> (InitError + unit) outcome \<times> Bc3State" where
  "bc3_initialize core s =
     (case bs_ready s of
        Some r \<Rightarrow> (Returns r, s)
      | None \<Rightarrow>
          (case build_and_check core s of
             (Returns r, s) \<Rightarrow> (Returns r, s\<lparr>bs_ready := Some r\<rparr>)
           | (p, s) \<Rightarrow> (p, s)))"

definition bc3_configure :: "bool \<Rightarrow> Bc3State \<Rightarrow> Bc3State" where
  "bc3_configure fast s = s\<lparr>bs_fast := fast\<rparr>"

definition bc3_table_bytes :: "Bc3Core \<Rightarrow> nat" where
  "bc3_table_bytes core = co_table_bytes core"

definition bc3_status :: "Bc3State \<Rightarrow> (InitError + unit) option" where
  "bc3_status s = bs_ready s"

definition bc3hash :: "Bc3Core \<Rightarrow> Bc3State \<Rightarrow> bytes \<Rightarrow> bytes outcome \<times> Bc3State" where
  "bc3hash core s data =
     (case bc3_initialize core s of
        (Returns (Inl e), s) \<Rightarrow> (Panics (init_error_text e), s)
      | (Returns (Inr _), s) \<Rightarrow> (raw_hash core s data, s)
      | (Panics p, s) \<Rightarrow> (Panics p, s)
      | (Waits, s) \<Rightarrow> (Waits, s))"

definition bc3mix :: "Bc3Core \<Rightarrow> Bc3State \<Rightarrow> bytes \<Rightarrow> bytes outcome \<times> Bc3State" where
  "bc3mix core s data =
     (case bc3_initialize core s of
        (Returns (Inl e), s) \<Rightarrow> (Panics (init_error_text e), s)
      | (Returns (Inr _), s) \<Rightarrow>
          (if bs_stopped s then (Waits, s)
           else case co_mix core data of
                  (rc, out) \<Rightarrow> (if rc = 0 then Returns out else Panics ''BC3Mix threw an exception'', s))
      | (Panics p, s) \<Rightarrow> (Panics p, s)
      | (Waits, s) \<Rightarrow> (Waits, s))"

text \<open>The process exits: the handler runs if it has been registered.\<close>

definition stop_hashing :: "Bc3State \<Rightarrow> Bc3State" where
  "stop_hashing s = s\<lparr>bs_stopped := (bs_stopped s \<or> 0 < bs_handlers s)\<rparr>"

section \<open>Lemmas\<close>

subsection \<open>The build\<close>

text \<open>What each item comes to by itself, built once on zeros.\<close>

definition zero_slices :: "Bc3Core \<Rightarrow> u32 \<Rightarrow> u64 list list" where
  "zero_slices core window =
     replicate (co_part_u64 core window 0) 0 # replicate (4 * unat (co_rows core window)) (replicate (co_row_u64 core window) 0)"

definition item_result :: "Bc3Core \<Rightarrow> u32 \<Rightarrow> nat \<Rightarrow> int \<times> u64 list" where
  "item_result core window item =
     build_item core window (unat (co_rows core window)) item (zero_slices core window ! item)"

abbreviation item_count :: "Bc3Core \<Rightarrow> u32 \<Rightarrow> nat" where
  "item_count core window \<equiv> 1 + 4 * unat (co_rows core window)"

definition building :: "BuildThread list \<Rightarrow> nat set" where
  "building ts = {item. \<exists>j<length ts. ts ! j = Building item}"

definition open_items :: "TableBuild \<Rightarrow> nat set" where
  "open_items s = set (tb_queue s) \<union> building (tb_threads s)"

text \<open>
  Every item is waiting, being built by one thread, or built; \<open>tb_failed\<close> says whether one of those built
  failed.
\<close>

definition one_builder :: "BuildThread list \<Rightarrow> bool" where
  "one_builder ts \<longleftrightarrow> (\<forall>i<length ts. \<forall>j<length ts. \<forall>item. ts ! i = Building item \<longrightarrow> ts ! j = Building item \<longrightarrow> i = j)"

definition build_inv :: "Bc3Core \<Rightarrow> u32 \<Rightarrow> TableBuild \<Rightarrow> bool" where
  "build_inv core window s \<longleftrightarrow>
     length (tb_slices s) = item_count core window \<and> distinct (tb_queue s) \<and> open_items s \<subseteq> {..<item_count core window} \<and>
     set (tb_queue s) \<inter> building (tb_threads s) = {} \<and> one_builder (tb_threads s) \<and>
     (\<forall>item<item_count core window. tb_slices s ! item =
        (if item \<in> open_items s then zero_slices core window ! item else snd (item_result core window item))) \<and>
     (tb_failed s \<longleftrightarrow> (\<exists>item<item_count core window. item \<notin> open_items s \<and> fst (item_result core window item) \<noteq> 0)) \<and>
     (Finished \<in> set (tb_threads s) \<longrightarrow> tb_queue s = [])"

lemma building_update:
  assumes "i < length ts"
  shows "building (ts[i := x]) = {item. x = Building item} \<union> {item. \<exists>j<length ts. j \<noteq> i \<and> ts ! j = Building item}"
  using assms by (auto simp: building_def nth_list_update split: if_splits)

lemma building_idle:
  assumes "i < length ts" and "\<And>item. ts ! i \<noteq> Building item"
  shows "{item. \<exists>j<length ts. j \<noteq> i \<and> ts ! j = Building item} = building ts"
  using assms by (auto simp: building_def)

lemma building_rest:
  assumes "i < length ts" and "ts ! i = Building item" and "one_builder ts"
  shows "{item. \<exists>j<length ts. j \<noteq> i \<and> ts ! j = Building item} = building ts - {item}"
proof -
  have "j = i" if "j < length ts" "ts ! j = Building item" for j using assms that unfolding one_builder_def by blast
  then show ?thesis
    unfolding building_def set_eq_iff mem_Collect_eq Diff_iff singleton_iff using assms(1,2) by (metis BuildThread.inject)
qed

lemma one_builder_update:
  assumes "one_builder ts" and "i < length ts" and "\<And>item. x = Building item \<Longrightarrow> item \<notin> building ts"
  shows "one_builder (ts[i := x])"
  using assms unfolding one_builder_def building_def by (auto simp: nth_list_update)

lemma build_start_inv: "build_inv core window (build_start core window cores)"
proof -
  have "building (replicate n Looping) = {}" for n by (auto simp: building_def)
  moreover have "one_builder (replicate n Looping)" for n by (simp add: one_builder_def)
  moreover have "{0..<1 + 4 * unat (co_rows core window)} = {..<item_count core window}" by auto
  ultimately show ?thesis
    by (auto simp: build_inv_def build_start_def Let_def open_items_def zero_slices_def simp del: upt_Suc)
qed

lemma build_turn_inv:
  assumes inv: "build_inv core window s"
  shows "build_inv core window (build_turn core window (unat (co_rows core window)) i s)"
proof (cases "i < length (tb_threads s)")
  case False
  then show ?thesis using inv by (simp add: build_turn_def)
next
  case i: True
  show ?thesis
  proof (cases "tb_threads s ! i")
    case Finished
    then show ?thesis using inv i by (simp add: build_turn_def)
  next
    case Looping
    then have b: "building ((tb_threads s)[i := x]) = {item. x = Building item} \<union> building (tb_threads s)" for x
      using building_update [OF i] building_idle [OF i] by simp
    show ?thesis
    proof (cases "tb_queue s" rule: rev_cases)
      case Nil
      have "one_builder ((tb_threads s)[i := Finished])" using inv i by (intro one_builder_update) (auto simp: build_inv_def)
      then show ?thesis using inv i Looping Nil b [of Finished] by (simp add: build_turn_def build_inv_def open_items_def)
    next
      case (snoc q item)
      have ib: "item \<notin> building (tb_threads s)" "item \<notin> set q" using inv snoc by (auto simp: build_inv_def)
      then have "one_builder ((tb_threads s)[i := Building item])" using inv i by (intro one_builder_update) (auto simp: build_inv_def)
      moreover have "Finished \<notin> set (tb_threads s)" using inv snoc by (auto simp: build_inv_def)
      then have "Finished \<notin> set ((tb_threads s)[i := Building item])" using set_update_subset_insert [of "tb_threads s" i "Building item"] by auto
      moreover have bi: "building ((tb_threads s)[i := Building item]) = insert item (building (tb_threads s))" using b [of "Building item"] by auto
      moreover have "open_items (s\<lparr>tb_queue := q, tb_threads := (tb_threads s)[i := Building item]\<rparr>) = open_items s"
        using snoc bi by (simp add: open_items_def)
      ultimately show ?thesis using inv i Looping snoc ib by (simp add: build_turn_def build_inv_def)
    qed
  next
    case (Building item)
    obtain rc out where r: "build_item core window (unat (co_rows core window)) item (tb_slices s ! item) = (rc, out)" by fastforce
    let ?t = "s\<lparr>tb_slices := (tb_slices s)[item := out], tb_failed := (tb_failed s \<or> rc \<noteq> 0), tb_threads := (tb_threads s)[i := Looping]\<rparr>"
    have item: "item \<in> building (tb_threads s)" using i Building by (auto simp: building_def)
    then have n: "item < item_count core window" "item \<notin> set (tb_queue s)" "item \<in> open_items s"
      using inv by (auto simp: build_inv_def open_items_def)
    have "tb_slices s ! item = zero_slices core window ! item" using inv n unfolding build_inv_def by simp
    then have res: "item_result core window item = (rc, out)" using r by (simp add: item_result_def)
    have bi: "building ((tb_threads s)[i := Looping]) = building (tb_threads s) - {item}"
      using building_update [OF i] building_rest [OF i Building] inv by (simp add: build_inv_def)
    have op: "open_items ?t = open_items s - {item}" using n(2) bi by (auto simp: open_items_def)
    have one: "one_builder ((tb_threads s)[i := Looping])" using inv i by (intro one_builder_update) (auto simp: build_inv_def)
    have fin: "Finished \<in> set ((tb_threads s)[i := Looping]) \<longrightarrow> tb_queue s = []"
      using inv set_update_subset_insert [of "tb_threads s" i Looping] by (auto simp: build_inv_def)
    have slices: "\<forall>j<item_count core window. (tb_slices s)[item := out] ! j =
        (if j \<in> open_items s - {item} then zero_slices core window ! j else snd (item_result core window j))"
      using inv n(1) res unfolding build_inv_def by (auto simp: nth_list_update)
    have failed: "(tb_failed s \<or> rc \<noteq> 0) \<longleftrightarrow>
        (\<exists>j<item_count core window. j \<notin> open_items s - {item} \<and> fst (item_result core window j) \<noteq> 0)"
    proof -
      have "tb_failed s \<longleftrightarrow> (\<exists>j<item_count core window. j \<notin> open_items s \<and> fst (item_result core window j) \<noteq> 0)"
        using inv by (simp add: build_inv_def)
      moreover have "fst (item_result core window item) \<noteq> 0 \<longleftrightarrow> rc \<noteq> 0" by (simp add: res)
      ultimately show ?thesis using n(1,3) by blast
    qed
    have "build_inv core window ?t"
      unfolding build_inv_def op
    proof (intro conjI)
      show "length (tb_slices ?t) = item_count core window" "distinct (tb_queue ?t)" using inv by (simp_all add: build_inv_def)
      show "open_items s - {item} \<subseteq> {..<item_count core window}" using inv unfolding build_inv_def by blast
      show "set (tb_queue ?t) \<inter> building (tb_threads ?t) = {}" using inv bi by (auto simp: build_inv_def)
      show "one_builder (tb_threads ?t)" using one by simp
      show "\<forall>j<item_count core window. tb_slices ?t ! j =
          (if j \<in> open_items s - {item} then zero_slices core window ! j else snd (item_result core window j))" using slices by simp
      show "tb_failed ?t \<longleftrightarrow> (\<exists>j<item_count core window. j \<notin> open_items s - {item} \<and> fst (item_result core window j) \<noteq> 0)"
        using failed by simp
      show "Finished \<in> set (tb_threads ?t) \<longrightarrow> tb_queue ?t = []" using fin by simp
    qed
    then show ?thesis using i Building r by (simp add: build_turn_def)
  qed
qed

lemma build_inv_fold:
  "build_inv core window s \<Longrightarrow> build_inv core window (fold (build_turn core window (unat (co_rows core window))) turns s)"
  by (induction turns arbitrary: s) (auto intro: build_turn_inv)

lemma build_turn_threads [simp]: "length (tb_threads (build_turn core window rows i s)) = length (tb_threads s)"
  by (auto simp: build_turn_def split: BuildThread.split prod.split)

lemma fold_build_threads [simp]: "length (tb_threads (fold (build_turn core window rows) turns s)) = length (tb_threads s)"
  by (induction turns arbitrary: s) simp_all

lemma build_over:
  assumes "build_inv core window s" and "set (tb_threads s) \<subseteq> {Finished}" and "tb_threads s \<noteq> []"
  shows "tb_slices s = map (\<lambda>item. snd (item_result core window item)) [0..<item_count core window] \<and>
    (tb_failed s \<longleftrightarrow> (\<exists>item<item_count core window. fst (item_result core window item) \<noteq> 0))"
proof -
  have "Finished \<in> set (tb_threads s)" using assms(2,3) by (cases "tb_threads s") auto
  then have "tb_queue s = []" using assms(1) by (simp add: build_inv_def)
  moreover have "building (tb_threads s) = {}" using assms(2) nth_mem unfolding building_def by fastforce
  ultimately have "open_items s = {}" by (simp add: open_items_def)
  then show ?thesis using assms(1) unfolding build_inv_def by (auto intro!: nth_equalityI simp del: upt_Suc)
qed

text \<open>Every turn of a thread that is not past its loop brings the end nearer.\<close>

fun thread_left :: "BuildThread \<Rightarrow> nat" where
  "thread_left Looping = 1"
| "thread_left (Building item) = 2"
| "thread_left Finished = 0"

definition build_left :: "TableBuild \<Rightarrow> nat" where
  "build_left s = 2 * length (tb_queue s) + sum_list (map thread_left (tb_threads s))"

lemma thread_left_update:
  "i < length ts \<Longrightarrow> sum_list (map thread_left (ts[i := x])) + thread_left (ts ! i) = sum_list (map thread_left ts) + thread_left x"
  by (induction ts arbitrary: i) (auto split: nat.split simp: less_Suc_eq_0_disj)

lemma build_turn_left:
  assumes "i < length (tb_threads s)" and "tb_threads s ! i \<noteq> Finished"
  shows "build_left (build_turn core window rows i s) < build_left s"
proof (cases "tb_threads s ! i")
  case Looping
  have u: "sum_list (map thread_left ((tb_threads s)[i := x])) + 1 = sum_list (map thread_left (tb_threads s)) + thread_left x" for x
    using thread_left_update [OF assms(1), of x] Looping by simp
  show ?thesis using assms(1) Looping u [of Finished] u [of "Building item" for item]
    by (cases "tb_queue s" rule: rev_cases) (auto simp: build_turn_def build_left_def)
next
  case (Building item)
  have "sum_list (map thread_left ((tb_threads s)[i := Looping])) + 2 = sum_list (map thread_left (tb_threads s)) + 1"
    using thread_left_update [OF assms(1), of Looping] Building by simp
  then show ?thesis using assms(1) Building by (simp add: build_turn_def build_left_def split: prod.split)
qed (use assms in simp)

lemma build_turn_left_le: "build_left (build_turn core window rows i s) \<le> build_left s"
  using build_turn_left [of i s core window rows]
  by (cases "i < length (tb_threads s) \<and> tb_threads s ! i \<noteq> Finished") (auto simp: build_turn_def)

lemma fold_left_le: "build_left (fold (build_turn core window rows) turns s) \<le> build_left s"
  by (induction turns arbitrary: s) (auto intro: order_trans [OF _ build_turn_left_le])

text \<open>A round in which every thread has a turn, while one of them is not past its loop.\<close>

lemma build_round:
  assumes "j < length (tb_threads s)" and "tb_threads s ! j \<noteq> Finished" and "j \<in> set turns"
  shows "build_left (fold (build_turn core window rows) turns s) < build_left s"
  using assms
proof (induction turns arbitrary: s)
  case (Cons i turns)
  let ?s = "build_turn core window rows i s"
  show ?case
  proof (cases "i < length (tb_threads s) \<and> tb_threads s ! i \<noteq> Finished")
    case True
    then show ?thesis using build_turn_left [of i s core window rows] fold_left_le [of core window rows turns ?s] by simp
  next
    case False
    then have "?s = s" by (auto simp: build_turn_def)
    then show ?thesis using Cons False by auto
  qed
qed simp

lemma build_rounds:
  assumes "\<forall>turns\<in>set rounds. {..<length (tb_threads s)} \<subseteq> set turns" and "build_left s \<le> length rounds"
  shows "set (tb_threads (fold (build_turn core window rows) (concat rounds) s)) \<subseteq> {Finished}"
  using assms
proof (induction rounds arbitrary: s)
  case Nil
  have "thread_left t = 0" if "t \<in> set (tb_threads s)" for t
    using Nil that by (auto simp: build_left_def)
  then have "t = Finished" if "t \<in> set (tb_threads s)" for t using that by (cases t) force+
  then show ?case by auto
next
  case (Cons turns rounds)
  let ?s = "fold (build_turn core window rows) turns s"
  show ?case
  proof (cases "set (tb_threads s) \<subseteq> {Finished}")
    case True
    have stop: "fold (build_turn core window rows) ts s = s" for ts
    proof (induction ts)
      case (Cons i ts)
      have "i < length (tb_threads s) \<Longrightarrow> tb_threads s ! i = Finished" using True nth_mem [of i "tb_threads s"] by blast
      then have "build_turn core window rows i s = s" by (simp add: build_turn_def)
      then show ?case using Cons by simp
    qed simp
    show ?thesis using True by (simp add: stop)
  next
    case False
    then obtain t where "t \<in> set (tb_threads s)" "t \<noteq> Finished" by blast
    then obtain j where j: "j < length (tb_threads s)" "tb_threads s ! j \<noteq> Finished" by (auto simp: in_set_conv_nth)
    moreover have "j \<in> set turns" using Cons.prems(1) j(1) by auto
    ultimately have "build_left ?s < build_left s" by (rule build_round)
    then have "set (tb_threads (fold (build_turn core window rows) (concat rounds) ?s)) \<subseteq> {Finished}"
      using Cons.prems by (intro Cons.IH) auto
    then show ?thesis by simp
  qed
qed

lemma build_start_left: "build_left (build_start core window cores) = 2 * item_count core window + build_threads cores"
  by (simp add: build_left_def build_start_def Let_def sum_list_replicate del: upt_Suc)

lemma build_start_threads: "length (tb_threads (build_start core window cores)) = build_threads cores"
  by (simp add: build_start_def Let_def)

lemma build_threads_bounds: "1 \<le> build_threads cores" "build_threads cores \<le> 64"
  by (auto simp: build_threads_def split: option.split)

text \<open>One item after another.\<close>

definition gpu_tables_in_order :: "Bc3Core \<Rightarrow> u32 \<Rightarrow> string + u64 list" where
  "gpu_tables_in_order core window =
     (let results = map (item_result core window) [0..<item_count core window]
      in if list_all (\<lambda>(rc, _). rc = 0) results then Inr (concat (map snd results))
         else Inl (''building the BC3Hash GPU tables (window '' @ dec (unat window) @ '') failed''))"

lemma gpu_tables_over:
  assumes w: "2 \<le> window" "window \<le> 20" "co_row_u64 core window \<noteq> 0"
    and over: "set (tb_threads (fold (build_turn core window (unat (co_rows core window))) turns (build_start core window cores))) \<subseteq> {Finished}"
  shows "gpu_tables core cores turns window = Some (gpu_tables_in_order core window)"
proof -
  let ?s = "fold (build_turn core window (unat (co_rows core window))) turns (build_start core window cores)"
  have "length (tb_threads ?s) = build_threads cores" by (simp add: build_start_threads)
  then have "tb_threads ?s \<noteq> []" using build_threads_bounds(1) [of cores] by (metis list.size(3) not_one_le_zero)
  from build_over [OF build_inv_fold [OF build_start_inv] over this]
  have s: "tb_slices ?s = map snd (map (item_result core window) [0..<item_count core window])"
    "tb_failed ?s \<longleftrightarrow> (\<exists>item<item_count core window. fst (item_result core window item) \<noteq> 0)"
    by (simp_all del: upt_Suc)
  have "list_all (\<lambda>(rc, _). rc = 0) (map (item_result core window) [0..<item_count core window]) \<longleftrightarrow> \<not> tb_failed ?s"
    by (auto simp: s(2) list_all_iff split_def simp del: upt_Suc)
  then show ?thesis using w over by (simp add: gpu_tables_def gpu_tables_in_order_def s(1) Let_def)
qed

text \<open>The calls write their slice and nothing else.\<close>

definition writes_slices :: "Bc3Core \<Rightarrow> bool" where
  "writes_slices core \<longleftrightarrow>
     (\<forall>window part buf. length (snd (co_table_part core window part buf)) = length buf) \<and>
     (\<forall>window curve row buf. length (snd (co_curve_row core window curve row buf)) = length buf)"

lemma length_concat_same: "\<forall>p\<in>set ps. length p = k \<Longrightarrow> length (concat ps) = length ps * k"
  by (induction ps) auto

lemma tables_layout:
  assumes "writes_slices core" and "gpu_tables_in_order core window = Inr tables"
    and "curve < 4" and "row < unat (co_rows core window)"
  shows "length tables = co_part_u64 core window 0 + 4 * unat (co_rows core window) * co_row_u64 core window"
    "take (co_row_u64 core window)
        (drop (co_part_u64 core window 0 + (curve * unat (co_rows core window) + row) * co_row_u64 core window) tables) =
      snd (co_curve_row core window curve row (replicate (co_row_u64 core window) 0))"
proof -
  let ?rows = "unat (co_rows core window)" and ?len = "co_row_u64 core window" and ?pow = "co_part_u64 core window 0"
  let ?row = "\<lambda>j. snd (item_result core window (Suc j))"
  let ?item = "curve * ?rows + row"
  have tables: "tables = snd (item_result core window 0) @ concat (map ?row [0..<4 * ?rows])"
  proof -
    have "[0..<item_count core window] = 0 # map Suc [0..<4 * ?rows]" by (simp add: upt_conv_Cons map_Suc_upt del: upt_Suc)
    then show ?thesis using assms(2) by (simp add: gpu_tables_in_order_def Let_def comp_def split: if_splits)
  qed
  have pow: "length (snd (item_result core window 0)) = ?pow"
    using assms(1) by (simp add: item_result_def build_item_def zero_slices_def writes_slices_def)
  have each: "?row j = snd (co_curve_row core window (j div ?rows) (j mod ?rows) (replicate ?len 0))" if "j < 4 * ?rows" for j
    using that by (simp add: item_result_def build_item_def zero_slices_def)
  then have len: "\<forall>p\<in>set (map ?row [0..<4 * ?rows]). length p = ?len" using assms(1) by (auto simp: writes_slices_def)
  then have "length (concat (map ?row [0..<4 * ?rows])) = 4 * ?rows * ?len" using length_concat_same by fastforce
  then show "length tables = ?pow + 4 * ?rows * ?len" by (simp add: tables pow)
  have "?item < 4 * ?rows"
  proof -
    have "?item < curve * ?rows + ?rows" using assms(4) by simp
    also have "\<dots> = (curve + 1) * ?rows" by simp
    also have "\<dots> \<le> 4 * ?rows" using assms(3) by (intro mult_right_mono) simp_all
    finally show ?thesis .
  qed
  then have "take ?len (drop (?item * ?len) (concat (map ?row [0..<4 * ?rows]))) = ?row ?item"
    using take_drop_concat [OF len, of ?item] by simp
  moreover have "?item div ?rows = curve" "?item mod ?rows = row" using assms(4) by simp_all
  ultimately show "take ?len (drop (?pow + ?item * ?len) tables) = snd (co_curve_row core window curve row (replicate ?len 0))"
    using each [OF \<open>?item < 4 * ?rows\<close>] by (simp add: tables pow)
qed

subsection \<open>Hex\<close>

lemma hex_pad_byte: "n < 256 \<Longrightarrow> \<exists>c d. hex_pad 2 n = [c, d]"
proof -
  assume n: "n < 256"
  have "digits_of 16 n = (if n < 16 then [digit_char n] else [digit_char (n div 16), digit_char (n mod 16)])"
    using n less_mult_imp_div_less [of n 16 16] by (subst digits_of.simps, subst digits_of.simps) simp
  then show ?thesis by (simp add: hex_pad_def Let_def)
qed

lemma from_hex_to_hex: "from_hex (to_hex bs) = Some bs"
proof (induction bs)
  case (Cons b bs)
  have b: "unat b < 256" using unsigned_less [of b, where 'a = nat] by simp
  then obtain c d where cd: "hex_pad 2 (unat b) = [c, d]" using hex_pad_byte by blast
  then have "from_str_radix 8 16 [c, d] = Some (unat b)" using from_str_radix_hex_pad [of "unat b" 8 2] b by simp
  then show ?case using Cons cd by (simp add: to_hex_def)
qed (simp add: to_hex_def)

subsection \<open>Checked once\<close>

definition vectors_pass :: "Bc3Core \<Rightarrow> bool" where
  "vectors_pass core \<longleftrightarrow> (\<forall>(input, expected)\<in>set SELF_TEST.
     \<exists>data out. from_hex input = Some data \<and> co_hash core data = (0, out) \<and> to_hex out = expected)"

lemma check_vectors_pass:
  "check_vectors core s vs = Returns (Inr ()) \<Longrightarrow> \<forall>(input, expected)\<in>set vs.
     \<exists>data out. from_hex input = Some data \<and> co_hash core data = (0, out) \<and> to_hex out = expected"
  by (induction core s vs rule: check_vectors.induct)
    (auto simp: Let_def raw_hash_def split: option.splits outcome.splits if_splits prod.splits)

text \<open>What is asked of the crate, in any order, by any thread, and what it answers.\<close>

datatype Bc3Call = Call_configure bool | Call_initialize | Call_status | Call_hash bytes | Call_mix bytes | Call_exit

datatype Bc3Answer = Told_nothing | Told_status "(InitError + unit) option" | Told_result "(InitError + unit) outcome" | Told_digest "bytes outcome"

fun bc3_call :: "Bc3Core \<Rightarrow> Bc3Call \<Rightarrow> Bc3State \<Rightarrow> Bc3Answer \<times> Bc3State" where
  "bc3_call core (Call_configure fast) s = (Told_nothing, bc3_configure fast s)"
| "bc3_call core Call_initialize s = (case bc3_initialize core s of (r, s) \<Rightarrow> (Told_result r, s))"
| "bc3_call core Call_status s = (Told_status (bc3_status s), s)"
| "bc3_call core (Call_hash data) s = (case bc3hash core s data of (r, s) \<Rightarrow> (Told_digest r, s))"
| "bc3_call core (Call_mix data) s = (case bc3mix core s data of (r, s) \<Rightarrow> (Told_digest r, s))"
| "bc3_call core Call_exit s = (Told_nothing, stop_hashing s)"

fun bc3_calls :: "Bc3Core \<Rightarrow> Bc3Call list \<Rightarrow> Bc3State \<Rightarrow> (Bc3Call \<times> Bc3Answer) list \<times> Bc3State" where
  "bc3_calls core [] s = ([], s)"
| "bc3_calls core (c # cs) s =
     (case bc3_call core c s of (a, s) \<Rightarrow> case bc3_calls core cs s of (as, s) \<Rightarrow> ((c, a) # as, s))"

text \<open>The handler has been registered if and only if the check has passed, and then once.\<close>

definition crate_ok :: "Bc3Core \<Rightarrow> Bc3State \<Rightarrow> bool" where
  "crate_ok core s \<longleftrightarrow>
     (if bs_ready s = Some (Inr ()) then bs_handlers s = 1 \<and> vectors_pass core \<and> (\<exists>fast. co_initialize core fast = 0)
      else bs_handlers s = 0 \<and> \<not> bs_stopped s)"

text \<open>An answer that fits the outcome \<open>r\<close>, which may still be open.\<close>

fun answer_ok :: "Bc3Core \<Rightarrow> (InitError + unit) option \<Rightarrow> Bc3Call \<times> Bc3Answer \<Rightarrow> bool" where
  "answer_ok core r (Call_hash data, Told_digest (Returns out)) \<longleftrightarrow> r = Some (Inr ()) \<and> co_hash core data = (0, out)"
| "answer_ok core r (Call_mix data, Told_digest (Returns out)) \<longleftrightarrow> r = Some (Inr ()) \<and> co_mix core data = (0, out)"
| "answer_ok core r (c, Told_result (Returns x)) \<longleftrightarrow> r = Some x"
| "answer_ok core r (c, Told_status (Some x)) \<longleftrightarrow> r = Some x"
| "answer_ok core r (c, a) \<longleftrightarrow> True"

lemma initialize_ok:
  assumes "crate_ok core s" and "bc3_initialize core s = (r, t)"
  shows "crate_ok core t \<and> (bs_ready s \<noteq> None \<longrightarrow> t = s) \<and> (\<forall>x. r = Returns x \<longrightarrow> bs_ready t = Some x) \<and> bs_fast t = bs_fast s"
proof (cases "bs_ready s")
  case (Some x)
  then show ?thesis using assms by (auto simp: bc3_initialize_def)
next
  case None
  then have s: "bs_handlers s = 0" "\<not> bs_stopped s" using assms(1) by (simp_all add: crate_ok_def)
  obtain o' u where b: "build_and_check core s = (o', u)" by fastforce
  show ?thesis
  proof (cases "o' = Returns (Inr ())")
    case True
    then have c: "co_initialize core (bs_fast s) = 0" "check_vectors core s SELF_TEST = Returns (Inr ())" "u = s\<lparr>bs_handlers := bs_handlers s + 1\<rparr>"
      using b by (auto simp: build_and_check_def split: if_splits outcome.splits sum.splits)
    have "vectors_pass core" using check_vectors_pass [OF c(2)] by (simp add: vectors_pass_def)
    then show ?thesis using assms(2) b True None c s by (auto simp: bc3_initialize_def crate_ok_def)
  next
    case False
    then have "u = s" using b by (auto simp: build_and_check_def split: if_splits outcome.splits sum.splits)
    then show ?thesis using assms(2) b False None s by (auto simp: bc3_initialize_def crate_ok_def split: outcome.splits)
  qed
qed

lemma call_ok:
  assumes "crate_ok core s" and "bc3_call core c s = (a, t)"
  shows "crate_ok core t \<and> (bs_ready s \<noteq> None \<longrightarrow> bs_ready t = bs_ready s) \<and> answer_ok core (bs_ready t) (c, a)"
proof (cases c)
  case (Call_configure fast)
  then show ?thesis using assms by (auto simp: bc3_configure_def crate_ok_def)
next
  case Call_initialize
  obtain r u where i: "bc3_initialize core s = (r, u)" by fastforce
  show ?thesis using initialize_ok [OF assms(1) i] assms(2) Call_initialize i by (cases r) auto
next
  case Call_status
  then show ?thesis using assms by (cases "bs_ready s") (auto simp: bc3_status_def)
next
  case (Call_hash data)
  obtain r u where i: "bc3_initialize core s = (r, u)" by fastforce
  show ?thesis using initialize_ok [OF assms(1) i] assms(2) Call_hash i
    by (auto simp: bc3hash_def raw_hash_def split: outcome.splits sum.splits prod.splits if_splits)
next
  case (Call_mix data)
  obtain r u where i: "bc3_initialize core s = (r, u)" by fastforce
  show ?thesis using initialize_ok [OF assms(1) i] assms(2) Call_mix i
    by (auto simp: bc3mix_def split: outcome.splits sum.splits prod.splits if_splits)
next
  case Call_exit
  then show ?thesis using assms by (auto simp: stop_hashing_def crate_ok_def)
qed

lemma calls_ok:
  "crate_ok core s \<Longrightarrow> bc3_calls core cs s = (as, t) \<Longrightarrow>
   crate_ok core t \<and> (bs_ready s \<noteq> None \<longrightarrow> bs_ready t = bs_ready s) \<and> (\<forall>x\<in>set as. answer_ok core (bs_ready t) x)"
proof (induction cs arbitrary: s as)
  case (Cons c cs)
  obtain a u where c: "bc3_call core c s = (a, u)" by fastforce
  obtain as' where as: "bc3_calls core cs u = (as', t)" "as = (c, a) # as'" using Cons.prems(2) c by (auto split: prod.splits)
  note one = call_ok [OF Cons.prems(1) c]
  then have rest: "crate_ok core t \<and> (bs_ready u \<noteq> None \<longrightarrow> bs_ready t = bs_ready u) \<and> (\<forall>x\<in>set as'. answer_ok core (bs_ready t) x)"
    using Cons.IH as(1) by blast
  have "answer_ok core (bs_ready u) (c, a) \<Longrightarrow> bs_ready u \<noteq> None \<longrightarrow> bs_ready t = bs_ready u \<Longrightarrow> answer_ok core (bs_ready t) (c, a)"
    by (cases "(core, bs_ready u, c, a)" rule: answer_ok.cases) auto
  then show ?case using one rest as(2) by auto
qed simp

section \<open>Properties\<close>

text \<open>
  C8. However the threads that build the tables of the GPU kernel take their turns - which takes which
  item, which of them finishes first - what comes out is what building one item after another gives:
  the power tables and then every row of every curve at its place, or the error if any of them
  failed. Once every thread has had its turn often enough, it does come out.
\<close>

theorem gpu_tables_any_schedule:
  assumes "2 \<le> window" and "window \<le> 20" and "co_row_u64 core window \<noteq> 0"
  shows "gpu_tables core cores turns window \<in> {None, Some (gpu_tables_in_order core window)} \<and>
    (\<forall>rounds. 2 * item_count core window + build_threads cores \<le> length rounds \<longrightarrow>
       (\<forall>turns\<in>set rounds. {..<build_threads cores} \<subseteq> set turns) \<longrightarrow>
       gpu_tables core cores (concat rounds) window = Some (gpu_tables_in_order core window)) \<and>
    (\<forall>tables curve row. writes_slices core \<longrightarrow> gpu_tables_in_order core window = Inr tables \<longrightarrow>
       curve < 4 \<longrightarrow> row < unat (co_rows core window) \<longrightarrow>
       take (co_row_u64 core window)
         (drop (co_part_u64 core window 0 + (curve * unat (co_rows core window) + row) * co_row_u64 core window) tables) =
       snd (co_curve_row core window curve row (replicate (co_row_u64 core window) 0)))"
proof (intro conjI allI impI)
  show "gpu_tables core cores turns window \<in> {None, Some (gpu_tables_in_order core window)}"
    using gpu_tables_over [OF assms, of turns cores] assms by (auto simp: gpu_tables_def Let_def)
  show "gpu_tables core cores (concat rounds) window = Some (gpu_tables_in_order core window)"
    if "2 * item_count core window + build_threads cores \<le> length rounds" "\<forall>turns\<in>set rounds. {..<build_threads cores} \<subseteq> set turns" for rounds
    by (rule gpu_tables_over [OF assms build_rounds]) (use that in \<open>simp_all only: build_start_threads build_start_left\<close>)
qed (rule tables_layout(2))

text \<open>A core that passes: the vectors and their digests, as bytes.\<close>

definition demo_digest_0 :: bytes where
  "demo_digest_0 =
     [238, 249, 166, 147, 74, 161, 113, 159, 25, 189, 234, 17, 130, 73, 39, 212, 205, 88, 176, 153, 80, 51, 185, 158, 219, 75, 242, 55, 13, 119, 22, 14]"

definition demo_digest_1 :: bytes where
  "demo_digest_1 =
     [16, 43, 19, 247, 186, 130, 90, 87, 253, 212, 96, 252, 106, 124, 170, 164, 115, 234, 44, 215, 227, 18, 245, 152, 141, 141, 92, 65, 67, 141, 57, 117]"

definition demo_digest_2 :: bytes where
  "demo_digest_2 =
     [6, 159, 203, 162, 114, 242, 208, 97, 183, 11, 10, 177, 33, 228, 13, 40, 156, 15, 232, 226, 119, 172, 69, 52, 80, 191, 96, 144, 173, 23, 149, 164]"

definition demo_digest_3 :: bytes where
  "demo_digest_3 =
     [114, 230, 121, 63, 70, 49, 234, 187, 135, 85, 227, 92, 212, 23, 6, 194, 69, 245, 110, 214, 77, 74, 23, 212, 236, 194, 118, 154, 147, 228, 25, 161]"

definition demo_core :: Bc3Core where
  "demo_core = \<lparr>co_initialize = \<lambda>_. 0,
     co_hash = \<lambda>data. (0,
       if take 2 data = [0, 8] then demo_digest_0
       else if take 2 data = [0, 24] then demo_digest_1
       else if data = [] then demo_digest_2
       else if data = [97, 98, 99] then demo_digest_3
       else replicate 32 7),
     co_mix = \<lambda>_. (0, replicate 32 0), co_table_bytes = 0, co_part_u64 = \<lambda>_ _. 2, co_table_part = \<lambda>_ _ buf. (0, map (\<lambda>_. 9) buf),
     co_rows = \<lambda>_. 2, co_row_u64 = \<lambda>_. 1, co_curve_row = \<lambda>_ curve row buf. (0, map (\<lambda>_. word_of_nat (10 * curve + row)) buf),
     co_point = \<lambda>_ _ _ out. (0, out)\<rparr>"

theorem gpu_tables_any_schedule_witness:
  "gpu_tables demo_core (Some 2) (concat (replicate 20 [1, 0])) 16 = Some (Inr [9, 9, 0, 1, 10, 11, 20, 21, 30, 31])"
proof -
  have w: "(2 :: u32) \<le> 16" "(16 :: u32) \<le> 20" "co_row_u64 demo_core 16 \<noteq> 0" by (simp_all add: demo_core_def)
  have "2 * item_count demo_core 16 + build_threads (Some 2) \<le> length (replicate 20 [1 :: nat, 0])"
    "\<forall>turns\<in>set (replicate 20 [1 :: nat, 0]). {..<build_threads (Some 2)} \<subseteq> set turns"
    by (auto simp: demo_core_def build_threads_def)
  with gpu_tables_any_schedule [OF w, of "Some 2" "[]"]
  have "gpu_tables demo_core (Some 2) (concat (replicate 20 [1, 0])) 16 = Some (gpu_tables_in_order demo_core 16)" by blast
  moreover have "gpu_tables_in_order demo_core 16 = Inr [9, 9, 0, 1, 10, 11, 20, 21, 30, 31]" by code_simp
  ultimately show ?thesis by simp
qed

text \<open>
  C3. Whatever is asked of the hash in whatever order - the mode chosen late, hashes before and after the
  first check, after the process began to exit - a digest is only ever handed out by a build whose own
  hash gives every vector of the node, and is what that hash gives; the outcome of the check, once there
  is one, is what every later caller is told; and the exit handler is registered once at most.
\<close>

theorem bc3_digests_are_checked:
  assumes "bc3_calls core cs bc3_fresh = (as, t)"
  shows "(\<forall>data out. (Call_hash data, Told_digest (Returns out)) \<in> set as \<longrightarrow> co_hash core data = (0, out) \<and> vectors_pass core) \<and>
    (\<forall>r r' c c'. (c, Told_result (Returns r)) \<in> set as \<longrightarrow>
       (c', Told_result (Returns r')) \<in> set as \<or> (c', Told_status (Some r')) \<in> set as \<longrightarrow> r = r') \<and>
    bs_handlers t \<le> 1"
proof -
  have "crate_ok core bc3_fresh" by (simp add: crate_ok_def bc3_fresh_def)
  from calls_ok [OF this assms] have t: "crate_ok core t" and a: "\<forall>x\<in>set as. answer_ok core (bs_ready t) x" by blast+
  have told: "(c, Told_result (Returns r)) \<in> set as \<Longrightarrow> bs_ready t = Some r" for c r using a by (cases c) fastforce+
  moreover have "(c, Told_status (Some r)) \<in> set as \<Longrightarrow> bs_ready t = Some r" for c r using a by (cases c) fastforce+
  moreover have "(Call_hash data, Told_digest (Returns out)) \<in> set as \<Longrightarrow> co_hash core data = (0, out) \<and> vectors_pass core" for data out
    using a t by (fastforce simp: crate_ok_def)
  moreover have "bs_handlers t \<le> 1" using t by (simp add: crate_ok_def split: if_splits)
  ultimately show ?thesis by (metis option.inject)
qed

lemma demo_digest_0_hex: "to_hex demo_digest_0 = ''eef9a6934aa1719f19bdea11824927d4cd58b0995033b99edb4bf2370d77160e''"
  by (simp add: to_hex_def demo_digest_0_def hex_pad_def digits_of.simps digit_char_def char_of_def bit_Suc_0_iff)

lemma demo_digest_1_hex: "to_hex demo_digest_1 = ''102b13f7ba825a57fdd460fc6a7caaa473ea2cd7e312f5988d8d5c41438d3975''"
  by (simp add: to_hex_def demo_digest_1_def hex_pad_def digits_of.simps digit_char_def char_of_def bit_Suc_0_iff)

lemma demo_digest_2_hex: "to_hex demo_digest_2 = ''069fcba272f2d061b70b0ab121e40d289c0fe8e277ac453450bf6090ad1795a4''"
  by (simp add: to_hex_def demo_digest_2_def hex_pad_def digits_of.simps digit_char_def char_of_def bit_Suc_0_iff)

lemma demo_digest_3_hex: "to_hex demo_digest_3 = ''72e6793f4631eabb8755e35cd41706c245f56ed64d4a17d4ecc2769a93e419a1''"
  by (simp add: to_hex_def demo_digest_3_def hex_pad_def digits_of.simps digit_char_def char_of_def bit_Suc_0_iff)

lemma vector_0_bytes: "\<exists>rest. from_hex ''00080020000102030405060708090a0b0c0d0e0f101112131415161718191a1b1c1d1e1f202122232425262728292a2b2c2d2e2f303132333435363738393a3b3c3d3e3f00d2496bffff7f202a000000'' = Some (0 # 8 # rest)"
proof -
  have "from_hex ''00080020000102030405060708090a0b0c0d0e0f101112131415161718191a1b1c1d1e1f202122232425262728292a2b2c2d2e2f303132333435363738393a3b3c3d3e3f00d2496bffff7f202a000000'' =
    Some [0, 8, 0, 32, 0, 1, 2, 3, 4, 5, 6, 7, 8, 9, 10, 11, 12, 13, 14, 15, 16, 17, 18, 19, 20, 21, 22, 23, 24, 25, 26, 27, 28, 29, 30, 31, 32, 33, 34, 35, 36, 37, 38, 39, 40, 41, 42, 43, 44, 45, 46, 47, 48, 49, 50, 51, 52, 53, 54, 55, 56, 57, 58, 59, 60, 61, 62, 63, 0, 210, 73, 107, 255, 255, 127, 32, 42, 0, 0, 0]"
    by code_simp
  then show ?thesis by simp
qed

lemma vector_1_bytes: "\<exists>rest. from_hex ''00180020000102030405060708090a0b0c0d0e0f101112131415161718191a1b1c1d1e1f202122232425262728292a2b2c2d2e2f303132333435363738393a3b3c3d3e3f00d2496bffff7f202a000000'' = Some (0 # 24 # rest)"
proof -
  have "from_hex ''00180020000102030405060708090a0b0c0d0e0f101112131415161718191a1b1c1d1e1f202122232425262728292a2b2c2d2e2f303132333435363738393a3b3c3d3e3f00d2496bffff7f202a000000'' =
    Some [0, 24, 0, 32, 0, 1, 2, 3, 4, 5, 6, 7, 8, 9, 10, 11, 12, 13, 14, 15, 16, 17, 18, 19, 20, 21, 22, 23, 24, 25, 26, 27, 28, 29, 30, 31, 32, 33, 34, 35, 36, 37, 38, 39, 40, 41, 42, 43, 44, 45, 46, 47, 48, 49, 50, 51, 52, 53, 54, 55, 56, 57, 58, 59, 60, 61, 62, 63, 0, 210, 73, 107, 255, 255, 127, 32, 42, 0, 0, 0]"
    by code_simp
  then show ?thesis by simp
qed

lemma vector_3_bytes: "from_hex ''616263'' = Some [97, 98, 99]" by code_simp

lemma demo_core_passes: "\<not> bs_stopped s \<Longrightarrow> check_vectors demo_core s SELF_TEST = Returns (Inr ())"
proof -
  assume r: "\<not> bs_stopped s"
  obtain a b where v: "from_hex (fst (SELF_TEST ! 0)) = Some (0 # 8 # a)" "from_hex (fst (SELF_TEST ! 1)) = Some (0 # 24 # b)"
    using vector_0_bytes vector_1_bytes by (auto simp: SELF_TEST_def)
  show ?thesis
    using r v vector_3_bytes demo_digest_0_hex demo_digest_1_hex demo_digest_2_hex demo_digest_3_hex
    by (simp add: SELF_TEST_def raw_hash_def demo_core_def del: from_hex.simps(2))
qed

theorem bc3_digests_are_checked_witness:
  "\<exists>as t. bc3_calls demo_core [Call_hash [1], Call_configure True, Call_initialize, Call_exit, Call_hash [2]] bc3_fresh = (as, t) \<and>
     (Call_hash [1], Told_digest (Returns (replicate 32 7))) \<in> set as \<and> (Call_hash [2], Told_digest Waits) \<in> set as \<and> vectors_pass demo_core"
proof -
  let ?cs = "[Call_hash [1], Call_configure True, Call_initialize, Call_exit, Call_hash [2]]"
  let ?as = "[(Call_hash [1], Told_digest (Returns (replicate 32 7))), (Call_configure True, Told_nothing),
    (Call_initialize, Told_result (Returns (Inr ()))), (Call_exit, Told_nothing), (Call_hash [2], Told_digest Waits)]"
  have "co_initialize demo_core fast = 0" "co_hash demo_core [1] = (0, replicate 32 7)" for fast by (simp_all add: demo_core_def)
  then have "fst (bc3_calls demo_core ?cs bc3_fresh) = ?as"
    by (simp add: bc3hash_def bc3_initialize_def build_and_check_def demo_core_passes raw_hash_def bc3_fresh_def bc3_configure_def stop_hashing_def
        del: check_vectors.simps)
  then obtain t where r: "bc3_calls demo_core ?cs bc3_fresh = (?as, t)" by (metis prod.collapse)
  have "(Call_hash [1], Told_digest (Returns (replicate 32 7))) \<in> set ?as" "(Call_hash [2], Told_digest Waits) \<in> set ?as" by simp_all
  with bc3_digests_are_checked [OF r] r show ?thesis by blast
qed

text \<open>
  What \<open>to_hex\<close> writes \<open>from_hex\<close> reads back; the header vectors handed to the self-tests of the GPU
  kernels are two headers of 80 bytes with digests of 32.
\<close>

theorem hex_round_trip:
  "from_hex (to_hex bs) = Some bs \<and>
   map (\<lambda>(h, d). (map_option length h, map_option length d)) header_vectors = [(Some 80, Some 32), (Some 80, Some 32)]"
proof
  show "from_hex (to_hex bs) = Some bs" by (rule from_hex_to_hex)
  show "map (\<lambda>(h, d). (map_option length h, map_option length d)) header_vectors = [(Some 80, Some 32), (Some 80, Some 32)]" by code_simp
qed

end
