(* ===== verification/Wasm_Malloc.thy ===== *)
theory Wasm_Malloc
  imports Prelude
begin

text \<open>
  \<open>bc3hash/src/wasm_malloc.rs\<close>: malloc, calloc, realloc, aligned_alloc and free for the C++ of the browser
  build, on Rust's allocator. A \<open>usize\<close> and an address are numbers below \<open>2 ^ 32\<close>; Rust's allocator is an
  argument.
\<close>

section \<open>Definitions\<close>

subsection \<open>Rust's allocator\<close>

record Layout =
  l_size :: nat
  l_align :: nat

definition is_power_of_two :: "nat \<Rightarrow> bool" where
  "is_power_of_two n \<longleftrightarrow> n \<in> set (map (\<lambda>k. 2 ^ k) [0..<32])"

text \<open>\<open>Layout::from_size_align\<close>: the size rounded up to the alignment is at most \<open>isize::MAX\<close>.\<close>

definition from_size_align :: "nat \<Rightarrow> nat \<Rightarrow> Layout option" where
  "from_size_align sz align =
     (if is_power_of_two align \<and> sz \<le> 2 ^ 31 - align then Some \<lparr>l_size = sz, l_align = align\<rparr> else None)"

text \<open>
  The linear memory, the allocations not given back, and whether one was given back that was not there or
  not with the layout it was made with, which is undefined behaviour.
\<close>

record Heap =
  hp_mem :: "nat \<Rightarrow> u8"
  hp_live :: "(nat \<times> Layout) list"
  hp_bad :: bool

text \<open>Where the allocator places an allocation (0: nowhere), and what it leaves in memory that is no one's.\<close>

record Allocator =
  al_place :: "Heap \<Rightarrow> Layout \<Rightarrow> nat"
  al_left :: "Heap \<Rightarrow> nat \<Rightarrow> u8"

definition span :: "nat \<times> Layout \<Rightarrow> nat set" where
  "span a = {fst a..<fst a + l_size (snd a)}"

definition in_span :: "nat \<Rightarrow> nat \<times> Layout \<Rightarrow> bool" where
  "in_span x a \<longleftrightarrow> fst a \<le> x \<and> x < fst a + l_size (snd a)"

definition rust_alloc :: "Allocator \<Rightarrow> bool \<Rightarrow> Layout \<Rightarrow> Heap \<Rightarrow> nat \<times> Heap" where
  "rust_alloc al zeroed l h =
     (let base = al_place al h l
      in if base = 0 then (0, h)
         else (base, h\<lparr>hp_mem := (\<lambda>x. if list_ex (in_span x) (hp_live h) then hp_mem h x
                                      else if zeroed \<and> in_span x (base, l) then 0 else al_left al h x),
                       hp_live := (base, l) # hp_live h\<rparr>))"

definition rust_dealloc :: "Allocator \<Rightarrow> nat \<Rightarrow> Layout \<Rightarrow> Heap \<Rightarrow> Heap" where
  "rust_dealloc al base l h =
     (if (base, l) \<in> set (hp_live h)
      then let live = remove1 (base, l) (hp_live h)
           in h\<lparr>hp_mem := (\<lambda>x. if list_ex (in_span x) live then hp_mem h x else al_left al h x), hp_live := live\<rparr>
      else h\<lparr>hp_bad := True\<rparr>)"

text \<open>What Rust promises of it: aligned, apart from every other allocation, and not around the end of memory.\<close>

definition honest_allocator :: "Allocator \<Rightarrow> bool" where
  "honest_allocator al \<longleftrightarrow> (\<forall>h l. al_place al h l \<noteq> 0 \<longrightarrow>
     l_align l dvd al_place al h l \<and> al_place al h l + l_size l < 2 ^ 32 \<and>
     (\<forall>a\<in>set (hp_live h). span (al_place al h l, l) \<inter> span a = {}))"

subsection \<open>Memory\<close>

definition read_usize :: "(nat \<Rightarrow> u8) \<Rightarrow> nat \<Rightarrow> nat" where
  "read_usize m p = le_val (map m [p..<p + 4])"

definition write_usize :: "nat \<Rightarrow> nat \<Rightarrow> (nat \<Rightarrow> u8) \<Rightarrow> nat \<Rightarrow> u8" where
  "write_usize p v m x = (if p \<le> x \<and> x < p + 4 then to_le_bytes 4 (word_of_nat v :: u32) ! (x - p) else m x)"

definition copy_mem :: "nat \<Rightarrow> nat \<Rightarrow> nat \<Rightarrow> (nat \<Rightarrow> u8) \<Rightarrow> nat \<Rightarrow> u8" where
  "copy_mem src dst n m x = (if dst \<le> x \<and> x < dst + n then m (src + (x - dst)) else m x)"

subsection \<open>The C library's functions\<close>

definition HEADER :: nat where
  "HEADER = 16"

definition block_layout :: "nat \<Rightarrow> nat \<Rightarrow> (Layout \<times> nat) option" where
  "block_layout sz align =
     (let offset = max align HEADER
      in if 2 ^ 32 \<le> sz + offset then None
         else map_option (\<lambda>l. (l, offset)) (from_size_align (sz + offset) offset))"

definition allocate :: "Allocator \<Rightarrow> nat \<Rightarrow> nat \<Rightarrow> bool \<Rightarrow> Heap \<Rightarrow> nat \<times> Heap" where
  "allocate al sz align zeroed h =
     (case block_layout sz align of
        None \<Rightarrow> (0, h)
      | Some (l, offset) \<Rightarrow>
          (case rust_alloc al zeroed l h of (base, h) \<Rightarrow>
             if base = 0 then (base, h)
             else let ptr = base + offset; hdr = ptr - HEADER
                  in (ptr, h\<lparr>hp_mem := write_usize (hdr + 4) align (write_usize hdr sz (hp_mem h))\<rparr>)))"

definition block_header :: "nat \<Rightarrow> Heap \<Rightarrow> nat \<times> nat" where
  "block_header ptr h = (let hdr = ptr - HEADER in (read_usize (hp_mem h) hdr, read_usize (hp_mem h) (hdr + 4)))"

definition malloc :: "Allocator \<Rightarrow> nat \<Rightarrow> Heap \<Rightarrow> nat \<times> Heap" where
  "malloc al sz h = allocate al sz HEADER False h"

definition calloc :: "Allocator \<Rightarrow> nat \<Rightarrow> nat \<Rightarrow> Heap \<Rightarrow> nat \<times> Heap" where
  "calloc al num sz h = (if num * sz < 2 ^ 32 then allocate al (num * sz) HEADER True h else (0, h))"

definition aligned_alloc :: "Allocator \<Rightarrow> nat \<Rightarrow> nat \<Rightarrow> Heap \<Rightarrow> nat \<times> Heap" where
  "aligned_alloc al align sz h = (if \<not> is_power_of_two align then (0, h) else allocate al sz align False h)"

text \<open>None: the panic of \<open>expect\<close>.\<close>

definition free_block :: "Allocator \<Rightarrow> nat \<Rightarrow> Heap \<Rightarrow> Heap option" where
  "free_block al ptr h =
     (if ptr = 0 then Some h
      else case block_header ptr h of (sz, align) \<Rightarrow>
        (case block_layout sz align of
           None \<Rightarrow> None
         | Some (l, offset) \<Rightarrow> Some (rust_dealloc al (ptr - offset) l h)))"

definition realloc :: "Allocator \<Rightarrow> nat \<Rightarrow> nat \<Rightarrow> Heap \<Rightarrow> (nat \<times> Heap) option" where
  "realloc al ptr sz h =
     (if ptr = 0 then Some (malloc al sz h)
      else case block_header ptr h of (old, align) \<Rightarrow>
        (case allocate al sz align False h of (new, h) \<Rightarrow>
           if new = 0 then Some (new, h)
           else map_option (\<lambda>h. (new, h)) (free_block al ptr (h\<lparr>hp_mem := copy_mem ptr new (min old sz) (hp_mem h)\<rparr>))))"

subsection \<open>The program that uses them\<close>

text \<open>
  What the C++ may do: call the five functions, and write to its own blocks. A block is its address, its
  size and the alignment asked for.
\<close>

datatype Mop = Malloc nat | Calloc nat nat | Aligned nat nat | Free nat | Realloc nat nat | Poke nat u8

type_synonym block = "nat \<times> nat \<times> nat"

definition pointers :: "block list \<Rightarrow> nat set" where
  "pointers bs = set (map fst bs)"

fun legal :: "block list \<Rightarrow> Mop \<Rightarrow> bool" where
  "legal bs (Free p) \<longleftrightarrow> p = 0 \<or> p \<in> pointers bs"
| "legal bs (Realloc p n) \<longleftrightarrow> p = 0 \<or> p \<in> pointers bs"
| "legal bs (Poke x v) \<longleftrightarrow> list_ex (\<lambda>(p, n, a). p \<le> x \<and> x < p + n) bs"
| "legal bs _ \<longleftrightarrow> True"

fun perform :: "Allocator \<Rightarrow> Mop \<Rightarrow> Heap \<Rightarrow> (nat \<times> Heap) option" where
  "perform al (Malloc n) h = Some (malloc al n h)"
| "perform al (Calloc c n) h = Some (calloc al c n h)"
| "perform al (Aligned a n) h = Some (aligned_alloc al a n h)"
| "perform al (Free p) h = map_option (\<lambda>h. (0, h)) (free_block al p h)"
| "perform al (Realloc p n) h = realloc al p n h"
| "perform al (Poke x v) h = Some (0, h\<lparr>hp_mem := (hp_mem h)(x := v)\<rparr>)"

definition align_of :: "block list \<Rightarrow> nat \<Rightarrow> nat" where
  "align_of bs p = (case filter (\<lambda>b. fst b = p) bs of [] \<Rightarrow> HEADER | (_, _, a) # _ \<Rightarrow> a)"

fun track :: "Mop \<Rightarrow> nat \<Rightarrow> block list \<Rightarrow> block list" where
  "track (Malloc n) r bs = (if r = 0 then bs else (r, n, HEADER) # bs)"
| "track (Calloc c n) r bs = (if r = 0 then bs else (r, c * n, HEADER) # bs)"
| "track (Aligned a n) r bs = (if r = 0 then bs else (r, n, a) # bs)"
| "track (Free p) r bs = filter (\<lambda>b. fst b \<noteq> p) bs"
| "track (Realloc p n) r bs = (if r = 0 then bs else (r, n, align_of bs p) # filter (\<lambda>b. fst b \<noteq> p) bs)"
| "track (Poke x v) r bs = bs"

definition fresh_heap :: "(nat \<Rightarrow> u8) \<Rightarrow> Heap" where
  "fresh_heap m = \<lparr>hp_mem = m, hp_live = [], hp_bad = False\<rparr>"

inductive running :: "Allocator \<Rightarrow> Heap \<Rightarrow> block list \<Rightarrow> bool" for al where
  start_up: "running al (fresh_heap m) []"
| use: "running al h bs \<Longrightarrow> legal bs op \<Longrightarrow> perform al op h = Some (r, h') \<Longrightarrow> running al h' (track op r bs)"

section \<open>Lemmas\<close>

subsection \<open>Words in memory\<close>

lemma read_usize_cong: "(\<And>x. p \<le> x \<Longrightarrow> x < p + 4 \<Longrightarrow> m x = m' x) \<Longrightarrow> read_usize m p = read_usize m' p"
  unfolding read_usize_def by (rule arg_cong [where f = le_val], rule map_cong) auto

lemma read_write_usize: "v < 2 ^ 32 \<Longrightarrow> read_usize (write_usize p v m) p = v"
proof -
  assume v: "v < 2 ^ 32"
  have "map (write_usize p v m) [p..<p + 4] = to_le_bytes 4 (word_of_nat v :: u32)"
    by (rule nth_equalityI) (simp_all add: write_usize_def)
  then show ?thesis
    using v by (simp add: read_usize_def le_val_to_le_bytes unsigned_of_nat take_bit_eq_mod)
qed

lemma write_usize_other: "x < p \<or> p + 4 \<le> x \<Longrightarrow> write_usize p v m x = m x"
  by (auto simp: write_usize_def)

subsection \<open>Blocks and their allocations\<close>

lemma power_of_two_dvd: "is_power_of_two a \<Longrightarrow> is_power_of_two b \<Longrightarrow> a \<le> b \<Longrightarrow> a dvd b"
  by (auto simp: is_power_of_two_def intro!: le_imp_power_dvd)

lemma power_of_two_HEADER: "is_power_of_two HEADER"
  by (auto simp: is_power_of_two_def HEADER_def intro!: image_eqI [of _ _ 4])

definition offset_of :: "nat \<Rightarrow> nat" where
  "offset_of a = max a HEADER"

lemma offset_of_facts:
  assumes "is_power_of_two a"
  shows "is_power_of_two (offset_of a)" "a dvd offset_of a" "HEADER dvd offset_of a" "HEADER \<le> offset_of a"
  using assms power_of_two_HEADER power_of_two_dvd [OF assms] power_of_two_dvd [of HEADER "offset_of a"]
  by (auto simp: offset_of_def max_def)

definition block_alloc :: "block \<Rightarrow> nat \<times> Layout" where
  "block_alloc b = (case b of (p, n, a) \<Rightarrow> (p - offset_of a, \<lparr>l_size = n + offset_of a, l_align = offset_of a\<rparr>))"

definition block_ok :: "block \<Rightarrow> bool" where
  "block_ok b \<longleftrightarrow> (case b of (p, n, a) \<Rightarrow>
     is_power_of_two a \<and> n + offset_of a \<le> 2 ^ 31 - offset_of a \<and> offset_of a < p \<and> offset_of a dvd p \<and> p + n < 2 ^ 32)"

text \<open>
  The allocations that are live are those behind the blocks, each block's size and alignment are in its
  header, and no two allocations overlap.
\<close>

definition heap_inv :: "Heap \<Rightarrow> block list \<Rightarrow> bool" where
  "heap_inv h bs \<longleftrightarrow> hp_live h = map block_alloc bs \<and> \<not> hp_bad h \<and>
     (\<forall>b\<in>set bs. block_ok b \<and> block_header (fst b) h = snd b) \<and>
     sorted_wrt (\<lambda>b c. span (block_alloc b) \<inter> span (block_alloc c) = {}) bs"

lemma block_layout_ok: "block_ok (p, n, a) \<Longrightarrow> block_layout n a = Some (snd (block_alloc (p, n, a)), offset_of a)"
  using offset_of_facts(1) [of a] by (auto simp: block_ok_def block_layout_def from_size_align_def block_alloc_def Let_def offset_of_def)

lemma block_layout_Some:
  "block_layout n a = Some (l, off) \<Longrightarrow>
   off = offset_of a \<and> l = \<lparr>l_size = n + offset_of a, l_align = offset_of a\<rparr> \<and> n + offset_of a \<le> 2 ^ 31 - offset_of a"
  by (auto simp: block_layout_def from_size_align_def offset_of_def Let_def split: if_splits)

lemma span_block: "block_ok (p, n, a) \<Longrightarrow> span (block_alloc (p, n, a)) = {p - offset_of a..<p + n}"
  by (simp add: block_ok_def block_alloc_def span_def)

lemma in_span_iff: "in_span x a \<longleftrightarrow> x \<in> span a"
  by (simp add: in_span_def span_def)

lemma sorted_wrt_apart:
  assumes "sorted_wrt (\<lambda>b c. f b \<inter> f c = {}) bs" and "b \<in> set bs" and "c \<in> set bs" and "b \<noteq> c"
  shows "f b \<inter> f c = {}"
  using assms by (induction bs) auto

lemma blocks_apart:
  "heap_inv h bs \<Longrightarrow> b \<in> set bs \<Longrightarrow> c \<in> set bs \<Longrightarrow> b \<noteq> c \<Longrightarrow> span (block_alloc b) \<inter> span (block_alloc c) = {}"
  unfolding heap_inv_def by (auto dest: sorted_wrt_apart)

lemma HEADER_pos [simp]: "0 < HEADER"
  by (simp add: HEADER_def)

lemma below_pointer:
  assumes "block_ok b" and "x < fst b" and "fst b \<le> x + HEADER"
  shows "x \<in> span (block_alloc b)"
proof -
  obtain p n a where b: "b = (p, n, a)" by (rule prod_cases3)
  have "HEADER \<le> offset_of a" "offset_of a < p" using assms(1) by (simp_all add: b block_ok_def offset_of_def)
  then show ?thesis using assms by (simp add: b span_block)
qed

lemma blocks_distinct:
  assumes "heap_inv h bs"
  shows "distinct (map fst bs)"
proof -
  have "\<forall>b\<in>set bs. block_ok b" "sorted_wrt (\<lambda>b c. span (block_alloc b) \<inter> span (block_alloc c) = {}) bs"
    using assms by (simp_all add: heap_inv_def)
  then show ?thesis
  proof (induction bs)
    case (Cons b bs)
    have "fst b \<noteq> fst c" if c: "c \<in> set bs" for c
    proof
      assume same: "fst b = fst c"
      have pos: "0 < fst b" using Cons.prems(1) by (cases b) (auto simp: block_ok_def)
      have "fst b - 1 \<in> span (block_alloc b)" "fst b - 1 \<in> span (block_alloc c)"
        using Cons.prems(1) c same pos by (auto intro!: below_pointer simp: HEADER_def)
      then show False using Cons.prems(2) c by auto
    qed
    then show ?case using Cons by auto
  qed simp
qed

text \<open>The header of a block is its own: what changes outside and inside the blocks leaves it.\<close>

lemma header_cong:
  assumes "block_ok b" and "\<And>x. x < fst b \<Longrightarrow> fst b \<le> x + HEADER \<Longrightarrow> hp_mem h' x = hp_mem h x"
  shows "block_header (fst b) h' = block_header (fst b) h"
proof -
  have "HEADER < fst b" using assms(1) by (cases b) (auto simp: block_ok_def offset_of_def)
  then have "read_usize (hp_mem h') (fst b - HEADER) = read_usize (hp_mem h) (fst b - HEADER)"
    "read_usize (hp_mem h') (fst b - HEADER + 4) = read_usize (hp_mem h) (fst b - HEADER + 4)"
    by (auto intro!: read_usize_cong assms(2) simp: HEADER_def)
  then show ?thesis by (simp add: block_header_def Let_def)
qed

lemma heap_inv_poke:
  assumes inv: "heap_inv h bs"
    and m: "\<And>x. m x \<noteq> hp_mem h x \<Longrightarrow> \<exists>(p, n, a)\<in>set bs. p \<le> x \<and> x < p + n"
  shows "heap_inv (h\<lparr>hp_mem := m\<rparr>) bs"
proof -
  have "block_header (fst b) (h\<lparr>hp_mem := m\<rparr>) = block_header (fst b) h" if b: "b \<in> set bs" for b
  proof (rule header_cong)
    show ok: "block_ok b" using inv b by (simp add: heap_inv_def)
    fix x assume x: "x < fst b" "fst b \<le> x + HEADER"
    show "hp_mem (h\<lparr>hp_mem := m\<rparr>) x = hp_mem h x"
    proof (rule ccontr)
      assume "\<not> ?thesis"
      then obtain p n a where c: "(p, n, a) \<in> set bs" "p \<le> x" "x < p + n" using m by fastforce
      have "block_ok (p, n, a)" using inv c by (simp add: heap_inv_def)
      then have "x \<in> span (block_alloc (p, n, a))" using c by (simp add: span_block)
      moreover have "x \<in> span (block_alloc b)" using below_pointer [OF ok x] .
      moreover have "b \<noteq> (p, n, a)" using c x by auto
      ultimately show False using blocks_apart [OF inv b c(1)] by blast
    qed
  qed
  then show ?thesis using inv by (simp add: heap_inv_def)
qed

subsection \<open>The functions\<close>

lemma allocate_inv:
  assumes al: "honest_allocator al" and inv: "heap_inv h bs" and a: "is_power_of_two a" and r: "allocate al n a z h = (r, h')"
  shows "(r = 0 \<longrightarrow> h' = h) \<and> (r \<noteq> 0 \<longrightarrow> heap_inv h' ((r, n, a) # bs) \<and>
    (\<forall>b\<in>set bs. \<forall>x\<in>span (block_alloc b). hp_mem h' x = hp_mem h x) \<and> (z \<longrightarrow> (\<forall>x. r \<le> x \<and> x < r + n \<longrightarrow> hp_mem h' x = 0)))"
proof (cases "block_layout n a")
  case None
  then show ?thesis using r by (simp add: allocate_def)
next
  case (Some lo)
  then obtain l off where lo: "block_layout n a = Some (l, off)" by (cases lo) simp
  note l = block_layout_Some [OF lo]
  let ?base = "al_place al h l"
  show ?thesis
  proof (cases "?base = 0")
    case True
    then show ?thesis using r lo by (simp add: allocate_def rust_alloc_def Let_def)
  next
    case False
    let ?g = "snd (rust_alloc al z l h)"
    have g: "rust_alloc al z l h = (?base, ?g)" using False by (simp add: rust_alloc_def Let_def)
    have "allocate al n a z h =
      (?base + off, ?g\<lparr>hp_mem := write_usize (?base + off - HEADER + 4) a (write_usize (?base + off - HEADER) n (hp_mem ?g))\<rparr>)"
      unfolding allocate_def lo option.case prod.case Let_def by (subst g) (simp add: False)
    then have rr: "r = ?base + offset_of a" and h': "h' = ?g\<lparr>hp_mem := write_usize (r - HEADER + 4) a (write_usize (r - HEADER) n (hp_mem ?g))\<rparr>"
      using r l by simp_all
    have hon: "offset_of a dvd ?base" "?base + (n + offset_of a) < 2 ^ 32" "\<forall>c\<in>set (hp_live h). span (?base, l) \<inter> span c = {}"
      using al False l unfolding honest_allocator_def by fastforce+
    have ok: "block_ok (r, n, a)" using a l hon False by (simp add: block_ok_def rr)
    have ba: "block_alloc (r, n, a) = (?base, l)" using l by (simp add: block_alloc_def rr)
    have off: "HEADER \<le> offset_of a" by (simp add: offset_of_def)
    have mem: "hp_mem h' x = hp_mem ?g x" if "x < r - HEADER \<or> r - HEADER + 8 \<le> x" for x
      using that by (auto simp: h' write_usize_def)
    have keep: "hp_mem h' x = hp_mem h x" if b: "b \<in> set bs" "x \<in> span (block_alloc b)" for b x
    proof -
      have live: "block_alloc b \<in> set (hp_live h)" using inv b(1) by (simp add: heap_inv_def)
      then have "x \<notin> span (?base, l)" using hon(3) b(2) by blast
      then have "x < r - HEADER \<or> r - HEADER + 8 \<le> x" using l off by (auto simp: span_def rr HEADER_def)
      moreover have "hp_mem ?g x = hp_mem h x"
        using live b(2) False by (auto simp: rust_alloc_def Let_def list_ex_iff in_span_iff)
      ultimately show ?thesis using mem by simp
    qed
    have hdr: "block_header r h' = (n, a)"
    proof -
      have "n < 2 ^ 32" "a < 2 ^ 32" using l a hon(2) by (auto simp: offset_of_def)
      moreover have "read_usize (hp_mem h') (r - HEADER) = read_usize (write_usize (r - HEADER) n (hp_mem ?g)) (r - HEADER)"
        by (rule read_usize_cong) (simp add: h' write_usize_other)
      ultimately show ?thesis using read_write_usize by (simp add: block_header_def Let_def h')
    qed
    have "heap_inv h' ((r, n, a) # bs)"
      unfolding heap_inv_def
    proof (intro conjI ballI)
      show "hp_live h' = map block_alloc ((r, n, a) # bs)" "\<not> hp_bad h'"
        using inv False ba by (simp_all add: h' rust_alloc_def Let_def heap_inv_def)
      fix b assume b: "b \<in> set ((r, n, a) # bs)"
      show "block_ok b" using b ok inv by (auto simp: heap_inv_def)
      show "block_header (fst b) h' = snd b"
      proof (cases "b \<in> set bs")
        case True
        then have "block_ok b" "block_header (fst b) h = snd b" using inv by (simp_all add: heap_inv_def)
        moreover have "block_header (fst b) h' = block_header (fst b) h"
          by (rule header_cong [OF \<open>block_ok b\<close>]) (intro keep [OF True] below_pointer [OF \<open>block_ok b\<close>])
        ultimately show ?thesis by simp
      next
        case False
        then show ?thesis using b hdr by simp
      qed
    next
      show "sorted_wrt (\<lambda>b c. span (block_alloc b) \<inter> span (block_alloc c) = {}) ((r, n, a) # bs)"
        using inv hon(3) ba by (simp add: heap_inv_def)
    qed
    moreover have "hp_mem h' x = 0" if z: z and x: "r \<le> x" "x < r + n" for x
    proof -
      have "in_span x (?base, l)" using l x by (simp add: in_span_def rr)
      moreover have "\<not> list_ex (in_span x) (hp_live h)"
        using hon(3) \<open>in_span x (?base, l)\<close> by (auto simp: list_ex_iff in_span_iff)
      ultimately have "hp_mem ?g x = 0" using False z by (simp add: rust_alloc_def Let_def)
      moreover have "r - HEADER + 8 \<le> x" using x off by (simp add: rr HEADER_def)
      ultimately show ?thesis using mem by simp
    qed
    ultimately show ?thesis using keep False rr by auto
  qed
qed

lemma free_inv:
  assumes inv: "heap_inv h bs" and b: "(p, n, a) \<in> set bs"
  obtains h' where "free_block al p h = Some h'" "heap_inv h' (filter (\<lambda>b. fst b \<noteq> p) bs)"
    "\<forall>c\<in>set bs. fst c \<noteq> p \<longrightarrow> (\<forall>x\<in>span (block_alloc c). hp_mem h' x = hp_mem h x)"
proof -
  have ok: "block_ok (p, n, a)" and hdr: "block_header p h = (n, a)" using inv b by (auto simp: heap_inv_def)
  let ?a = "block_alloc (p, n, a)"
  let ?h = "rust_dealloc al (p - offset_of a) (snd ?a) h"
  let ?bs = "filter (\<lambda>b. fst b \<noteq> p) bs"
  have base: "(p - offset_of a, snd ?a) = ?a" by (simp add: block_alloc_def)
  have live: "?a \<in> set (hp_live h)" using inv b by (auto simp: heap_inv_def)
  have f: "free_block al p h = Some ?h"
    using ok block_layout_ok [OF ok] hdr by (auto simp: free_block_def block_ok_def)
  have rest: "remove1 ?a (hp_live h) = map block_alloc ?bs"
  proof -
    have "sorted_wrt (\<lambda>b c. span (block_alloc b) \<inter> span (block_alloc c) = {}) bs" "\<forall>b\<in>set bs. block_ok b" "distinct (map fst bs)"
      using inv blocks_distinct [OF inv] by (simp_all add: heap_inv_def)
    then have "remove1 ?a (map block_alloc bs) = map block_alloc ?bs" using b
    proof (induction bs)
      case (Cons c bs)
      show ?case
      proof (cases "fst c = p")
        case True
        then have "c = (p, n, a)" "filter (\<lambda>b. fst b \<noteq> p) bs = bs"
          using Cons.prems(3,4) by (auto simp: filter_id_conv rev_image_eqI)
        then show ?thesis by simp
      next
        case False
        then have in_bs: "(p, n, a) \<in> set bs" using Cons.prems(4) by auto
        have "block_ok c" using Cons.prems(2) by simp
        then have "fst c - 1 \<in> span (block_alloc c)"
          by (intro below_pointer) (cases c; auto simp: block_ok_def HEADER_def)+
        moreover have "span (block_alloc c) \<inter> span ?a = {}" using Cons.prems(1) in_bs by auto
        ultimately have "block_alloc c \<noteq> ?a" by auto
        then show ?thesis using Cons False in_bs by simp
      qed
    qed simp
    then show ?thesis using inv by (simp add: heap_inv_def)
  qed
  have keep: "hp_mem ?h x = hp_mem h x" if c: "c \<in> set bs" "fst c \<noteq> p" "x \<in> span (block_alloc c)" for c x
  proof -
    have "c \<in> set ?bs" using c by simp
    then have "\<exists>d\<in>set ?bs. in_span x (block_alloc d)" using c(3) in_span_iff by blast
    then have "list_ex (in_span x) (map block_alloc ?bs)" by (simp add: list_ex_iff)
    then show ?thesis using live unfolding rust_dealloc_def base Let_def rest [symmetric] by simp
  qed
  have "heap_inv ?h ?bs"
    unfolding heap_inv_def
  proof (intro conjI ballI)
    show "hp_live ?h = map block_alloc ?bs" "\<not> hp_bad ?h"
      using live rest inv unfolding rust_dealloc_def base Let_def by (simp_all add: heap_inv_def)
    fix c assume c: "c \<in> set ?bs"
    then show okc: "block_ok c" using inv by (simp add: heap_inv_def)
    have "block_header (fst c) ?h = block_header (fst c) h"
    proof (rule header_cong [OF okc])
      fix x assume "x < fst c" "fst c \<le> x + HEADER"
      then show "hp_mem ?h x = hp_mem h x" using c keep [of c x] below_pointer [OF okc] by simp
    qed
    then show "block_header (fst c) ?h = snd c" using c inv by (simp add: heap_inv_def)
  next
    show "sorted_wrt (\<lambda>b c. span (block_alloc b) \<inter> span (block_alloc c) = {}) ?bs"
      using inv by (simp add: heap_inv_def sorted_wrt_filter)
  qed
  with f keep that show ?thesis by blast
qed

lemma align_of_block: "heap_inv h bs \<Longrightarrow> (p, n, a) \<in> set bs \<Longrightarrow> align_of bs p = a"
proof -
  assume inv: "heap_inv h bs" and b: "(p, n, a) \<in> set bs"
  have "filter (\<lambda>b. fst b = p) bs = [(p, n, a)]"
    using blocks_distinct [OF inv] b by (induction bs) (auto simp: filter_empty_conv rev_image_eqI)
  then show ?thesis by (simp add: align_of_def)
qed

text \<open>What a call leaves alone: the blocks it is not about.\<close>

definition untouched :: "block list \<Rightarrow> Heap \<Rightarrow> Heap \<Rightarrow> bool" where
  "untouched bs h h' \<longleftrightarrow> (\<forall>b\<in>set bs. \<forall>x\<in>span (block_alloc b). hp_mem h' x = hp_mem h x)"

lemma realloc_inv:
  assumes al: "honest_allocator al" and inv: "heap_inv h bs" and b: "(p, old, a) \<in> set bs"
  obtains r h' where "realloc al p n h = Some (r, h')" "heap_inv h' (track (Realloc p n) r bs)"
    "untouched (filter (\<lambda>b. fst b \<noteq> p) bs) h h'" "r = 0 \<longrightarrow> h' = h"
    "r \<noteq> 0 \<longrightarrow> (\<forall>i<min old n. hp_mem h' (r + i) = hp_mem h (p + i))"
proof -
  have ok: "block_ok (p, old, a)" and hdr: "block_header p h = (old, a)" using inv b by (auto simp: heap_inv_def)
  then have p: "p \<noteq> 0" "is_power_of_two a" by (auto simp: block_ok_def)
  obtain r g where g: "allocate al n a False h = (r, g)" by fastforce
  note new = allocate_inv [OF al inv p(2) g]
  show ?thesis
  proof (cases "r = 0")
    case True
    then have "realloc al p n h = Some (r, h)" using p hdr g new by (simp add: realloc_def)
    then show ?thesis by (rule that) (use True inv in \<open>simp_all add: untouched_def\<close>)
  next
    case False
    with new have gi: "heap_inv g ((r, n, a) # bs)"
      and "\<forall>b\<in>set bs. \<forall>x\<in>span (block_alloc b). hp_mem g x = hp_mem h x" by simp_all
    then have gf: "\<And>c x. c \<in> set bs \<Longrightarrow> x \<in> span (block_alloc c) \<Longrightarrow> hp_mem g x = hp_mem h x" by blast
    have okr: "block_ok (r, n, a)" using gi by (simp add: heap_inv_def)
    let ?m = "copy_mem p r (min old n) (hp_mem g)"
    let ?k = "g\<lparr>hp_mem := ?m\<rparr>"
    have k: "heap_inv ?k ((r, n, a) # bs)"
    proof (rule heap_inv_poke [OF gi])
      fix x assume "?m x \<noteq> hp_mem g x"
      then have "r \<le> x \<and> x < r + n" unfolding copy_mem_def by (simp split: if_splits)
      then show "\<exists>(p, n, a)\<in>set ((r, n, a) # bs). p \<le> x \<and> x < p + n" by simp
    qed
    have "(p, old, a) \<in> set ((r, n, a) # bs)" using b by simp
    from free_inv [OF k this] obtain h' where f: "free_block al p ?k = Some h'"
      "heap_inv h' (filter (\<lambda>b. fst b \<noteq> p) ((r, n, a) # bs))"
      "\<forall>c\<in>set ((r, n, a) # bs). fst c \<noteq> p \<longrightarrow> (\<forall>x\<in>span (block_alloc c). hp_mem h' x = hp_mem ?k x)" by blast
    have rp: "r \<noteq> p" and rbs: "(r, n, a) \<notin> set bs" using blocks_distinct [OF gi] b by (auto simp: image_iff)
    have fin: "heap_inv h' (track (Realloc p n) r bs)" using f(2) rp False align_of_block [OF inv b] by simp
    have out: "hp_mem ?k x = hp_mem g x" if "c \<in> set bs" "x \<in> span (block_alloc c)" for c x
    proof -
      have "c \<noteq> (r, n, a)" using rbs that(1) by auto
      then have "x \<notin> span (block_alloc (r, n, a))" using blocks_apart [OF gi, of c "(r, n, a)"] that by auto
      then show ?thesis using okr by (auto simp: span_block copy_mem_def)
    qed
    have "untouched (filter (\<lambda>b. fst b \<noteq> p) bs) h h'"
      using f(3) out gf by (auto simp: untouched_def)
    moreover have "hp_mem h' (r + i) = hp_mem h (p + i)" if i: "i < min old n" for i
    proof -
      have "r + i \<in> span (block_alloc (r, n, a))" "p + i \<in> span (block_alloc (p, old, a))"
        using okr ok i by (simp_all add: span_block)
      then have "hp_mem h' (r + i) = hp_mem ?k (r + i)" "hp_mem g (p + i) = hp_mem h (p + i)" using f(3) rp gf [OF b] by auto
      then show ?thesis using i by (simp add: copy_mem_def)
    qed
    moreover have "realloc al p n h = Some (r, h')" using p hdr g False f(1) by (simp add: realloc_def)
    ultimately show ?thesis using that fin False by blast
  qed
qed

text \<open>One call, whatever it is.\<close>

definition touches :: "Mop \<Rightarrow> nat \<Rightarrow> bool" where
  "touches op p \<longleftrightarrow> (case op of Free q \<Rightarrow> q = p | Realloc q n \<Rightarrow> q = p | _ \<Rightarrow> False)"

definition outcome_ok :: "Mop \<Rightarrow> nat \<Rightarrow> block list \<Rightarrow> Heap \<Rightarrow> Heap \<Rightarrow> bool" where
  "outcome_ok op r bs h h' \<longleftrightarrow>
     (case op of
        Poke x v \<Rightarrow> hp_mem h' = (hp_mem h)(x := v)
      | Calloc c n \<Rightarrow> untouched bs h h' \<and> (r \<noteq> 0 \<longrightarrow> (\<forall>i<c * n. hp_mem h' (r + i) = 0))
      | Realloc p n \<Rightarrow> untouched (filter (\<lambda>b. fst b \<noteq> p) bs) h h' \<and> (r = 0 \<longrightarrow> h' = h) \<and>
          (\<forall>old a. r \<noteq> 0 \<longrightarrow> (p, old, a) \<in> set bs \<longrightarrow> (\<forall>i<min old n. hp_mem h' (r + i) = hp_mem h (p + i)))
      | Free p \<Rightarrow> untouched (filter (\<lambda>b. fst b \<noteq> p) bs) h h'
      | _ \<Rightarrow> untouched bs h h')"

lemma untouched_same [simp]: "untouched bs h h"
  by (simp add: untouched_def)

lemma allocate_step:
  assumes "honest_allocator al" and "heap_inv h bs" and "is_power_of_two a" and "allocate al n a z h = (r, h')"
  shows "heap_inv h' (if r = 0 then bs else (r, n, a) # bs) \<and> untouched bs h h' \<and> (r = 0 \<longrightarrow> h' = h) \<and>
    (z \<longrightarrow> r \<noteq> 0 \<longrightarrow> (\<forall>i<n. hp_mem h' (r + i) = 0))"
  using allocate_inv [OF assms] assms(2) by (auto simp: untouched_def)

lemma no_pointer_0: "heap_inv h bs \<Longrightarrow> b \<in> set bs \<Longrightarrow> fst b \<noteq> 0"
  by (cases b) (auto simp: heap_inv_def block_ok_def)

lemma perform_ok:
  assumes al: "honest_allocator al" and inv: "heap_inv h bs" and l: "legal bs op"
  obtains r h' where "perform al op h = Some (r, h')" "heap_inv h' (track op r bs)" "outcome_ok op r bs h h'"
proof (cases op)
  case (Malloc n)
  obtain r h' where a: "allocate al n HEADER False h = (r, h')" by fastforce
  show ?thesis using that [of r h'] allocate_step [OF al inv power_of_two_HEADER a] a Malloc
    by (auto simp: malloc_def outcome_ok_def)
next
  case (Calloc c n)
  show ?thesis
  proof (cases "c * n < 2 ^ 32")
    case True
    obtain r h' where a: "allocate al (c * n) HEADER True h = (r, h')" by fastforce
    show ?thesis using that [of r h'] allocate_step [OF al inv power_of_two_HEADER a] a Calloc True
      by (auto simp: calloc_def outcome_ok_def)
  next
    case False
    then show ?thesis using that [of 0 h] inv Calloc by (simp add: calloc_def outcome_ok_def)
  qed
next
  case (Aligned a n)
  show ?thesis
  proof (cases "is_power_of_two a")
    case True
    obtain r h' where x: "allocate al n a False h = (r, h')" by fastforce
    show ?thesis using that [of r h'] allocate_step [OF al inv True x] x Aligned True
      by (auto simp: aligned_alloc_def outcome_ok_def)
  next
    case False
    then show ?thesis using that [of 0 h] inv Aligned by (simp add: aligned_alloc_def outcome_ok_def)
  qed
next
  case (Free p)
  show ?thesis
  proof (cases "p = 0")
    case True
    have "filter (\<lambda>b. fst b \<noteq> 0) bs = bs" using no_pointer_0 [OF inv] by (auto simp: filter_id_conv)
    then show ?thesis using that [of 0 h] inv Free True by (simp add: free_block_def outcome_ok_def)
  next
    case False
    then obtain n a where b: "(p, n, a) \<in> set bs" using l Free by (auto simp: pointers_def)
    from free_inv [OF inv b] obtain h' where f: "free_block al p h = Some h'" "heap_inv h' (filter (\<lambda>b. fst b \<noteq> p) bs)"
      "\<forall>c\<in>set bs. fst c \<noteq> p \<longrightarrow> (\<forall>x\<in>span (block_alloc c). hp_mem h' x = hp_mem h x)" by blast
    then have "untouched (filter (\<lambda>b. fst b \<noteq> p) bs) h h'" unfolding untouched_def set_filter by blast
    then show ?thesis using that [of 0 h'] f(1,2) Free by (simp add: outcome_ok_def)
  qed
next
  case (Realloc p n)
  show ?thesis
  proof (cases "p = 0")
    case True
    obtain r h' where a: "allocate al n HEADER False h = (r, h')" by fastforce
    have "(0, x) \<notin> set bs" for x using no_pointer_0 [OF inv, of "(0, x)"] by auto
    moreover have "filter (\<lambda>b. fst b \<noteq> 0) bs = bs" "filter (\<lambda>b. fst b = 0) bs = []"
      using no_pointer_0 [OF inv] unfolding filter_id_conv filter_empty_conv by blast+
    ultimately have none: "filter (\<lambda>b. fst b \<noteq> 0) bs = bs" "filter (\<lambda>b. fst b = 0) bs = []" "\<And>x. (0, x) \<notin> set bs" by blast+
    note s = allocate_step [OF al inv power_of_two_HEADER a]
    have "align_of bs 0 = HEADER" unfolding align_of_def none(2) by simp
    then have "heap_inv h' (track op r bs)" using s Realloc True none(1) by (cases "r = 0") auto
    moreover have "outcome_ok op r bs h h'" unfolding outcome_ok_def Realloc True Mop.case none(1) using s none(3) by simp
    moreover have "perform al op h = Some (r, h')" using a Realloc True by (simp add: realloc_def malloc_def)
    ultimately show ?thesis using that by blast
  next
    case False
    then obtain old a where b: "(p, old, a) \<in> set bs" using l Realloc by (auto simp: pointers_def)
    from realloc_inv [OF al inv b, of n] obtain r h' where f: "realloc al p n h = Some (r, h')" "heap_inv h' (track (Realloc p n) r bs)"
      "untouched (filter (\<lambda>b. fst b \<noteq> p) bs) h h'" "r = 0 \<longrightarrow> h' = h" "r \<noteq> 0 \<longrightarrow> (\<forall>i<min old n. hp_mem h' (r + i) = hp_mem h (p + i))" by blast
    have "o' = old" if "(p, o', a') \<in> set bs" for o' a'
      using blocks_distinct [OF inv] b that by (metis eq_key_imp_eq_value prod.inject)
    then show ?thesis using that [of r h'] f Realloc by (simp add: outcome_ok_def) blast
  qed
next
  case (Poke x v)
  let ?h = "h\<lparr>hp_mem := (hp_mem h)(x := v)\<rparr>"
  have "heap_inv ?h bs" by (rule heap_inv_poke [OF inv]) (use l Poke in \<open>auto simp: list_ex_iff split: if_splits\<close>)
  then show ?thesis using that [of 0 ?h] Poke by (simp add: outcome_ok_def)
qed

lemma running_inv: "running al h bs \<Longrightarrow> honest_allocator al \<Longrightarrow> heap_inv h bs"
proof (induction rule: running.induct)
  case (start_up m)
  show ?case by (simp add: heap_inv_def fresh_heap_def)
next
  case (use h bs op r h')
  from perform_ok [OF use.prems use.IH [OF use.prems] use.hyps(2)] use.hyps(3) show ?case by fastforce
qed

definition block_bytes :: "Heap \<Rightarrow> nat \<Rightarrow> nat \<Rightarrow> bytes" where
  "block_bytes h p n = map (hp_mem h) [p..<p + n]"

lemma block_bytes_cong: "(\<And>i. i < n \<Longrightarrow> hp_mem h' (q + i) = hp_mem h (p + i)) \<Longrightarrow> block_bytes h' q n = block_bytes h p n"
  by (simp add: block_bytes_def list_eq_iff_nth_eq)

lemma take_block_bytes: "take k (block_bytes h p n) = block_bytes h p (min k n)"
  by (simp add: block_bytes_def take_map take_upt min_def)

lemma untouched_bytes:
  assumes "heap_inv h bs" and "untouched cs h h'" and "(q, m, b) \<in> set cs" and "set cs \<subseteq> set bs"
  shows "block_bytes h' q m = block_bytes h q m"
proof (rule block_bytes_cong)
  fix i assume "i < m"
  moreover have "block_ok (q, m, b)" using assms by (auto simp: heap_inv_def)
  ultimately have "q + i \<in> span (block_alloc (q, m, b))" by (simp add: span_block)
  then show "hp_mem h' (q + i) = hp_mem h (q + i)" using assms(2,3) unfolding untouched_def by blast
qed

section \<open>Properties\<close>

text \<open>
  C39. Whatever a C++ program that keeps to C's rules asks for, and wherever Rust's allocator
  places it: no call panics, every allocation is given back with the layout it was made with and at
  most once, there is one allocation for every block not freed, and the blocks are not null, aligned
  as asked and to 16 bytes, within memory, and apart from each other.
\<close>

theorem wasm_blocks_are_sound:
  assumes "honest_allocator al" and "running al h bs"
  shows "(\<forall>op. legal bs op \<longrightarrow> perform al op h \<noteq> None) \<and> \<not> hp_bad h \<and> length (hp_live h) = length bs \<and>
    distinct (map fst bs) \<and>
    (\<forall>(p, n, a)\<in>set bs. p \<noteq> 0 \<and> a dvd p \<and> HEADER dvd p \<and> p + n < 2 ^ 32) \<and>
    (\<forall>(p, n, a)\<in>set bs. \<forall>(q, m, b)\<in>set bs. p \<noteq> q \<longrightarrow> {p..<p + n} \<inter> {q..<q + m} = {})"
proof -
  have inv: "heap_inv h bs" using running_inv [OF assms(2,1)] .
  have "perform al op h \<noteq> None" if "legal bs op" for op
    using perform_ok [OF assms(1) inv that] by (metis option.distinct(1))
  moreover have "p \<noteq> 0 \<and> a dvd p \<and> HEADER dvd p \<and> p + n < 2 ^ 32" if "(p, n, a) \<in> set bs" for p n a
  proof -
    have "block_ok (p, n, a)" using inv that by (simp add: heap_inv_def)
    then show ?thesis using offset_of_facts(2,3) [of a] by (auto simp: block_ok_def intro: dvd_trans)
  qed
  moreover have "{p..<p + n} \<inter> {q..<q + m} = {}" if "(p, n, a) \<in> set bs" "(q, m, b) \<in> set bs" "p \<noteq> q" for p n a q m b
  proof -
    have "block_ok (p, n, a)" "block_ok (q, m, b)" using inv that by (simp_all add: heap_inv_def)
    then show ?thesis using blocks_apart [OF inv that(1,2)] that(3) by (auto simp: span_block)
  qed
  moreover have "\<not> hp_bad h" "length (hp_live h) = length bs" using inv by (simp_all add: heap_inv_def)
  ultimately show ?thesis using blocks_distinct [OF inv] by blast
qed

text \<open>An allocator that places everything behind what is there.\<close>

definition next_place :: "Allocator" where
  "next_place = \<lparr>al_place = (\<lambda>h l. let m = foldr (\<lambda>(p, l) k. max (p + l_size l) k) (hp_live h) 0;
                                       p = (m div l_align l + 1) * l_align l
                                   in if p + l_size l < 2 ^ 32 then p else 0),
                 al_left = (\<lambda>h x. 170)\<rparr>"

lemma next_place_honest: "honest_allocator next_place"
proof -
  have le: "p + l_size l \<le> foldr (\<lambda>(p, l) k. max (p + l_size l) k) live 0" if "(p, l) \<in> set live" for p l live
    using that by (induction live) auto
  have up: "0 < a \<Longrightarrow> m \<le> (m div a + 1) * a" for m a :: nat
    using dividend_less_times_div [of a m] by (simp add: algebra_simps less_imp_le)
  have "span (p, l) \<inter> span c = {}" if "p = al_place next_place h l" "p \<noteq> 0" "c \<in> set (hp_live h)" for p l c h
  proof -
    obtain q k where c: "c = (q, k)" by (cases c)
    have "l_align l \<noteq> 0" by (rule notI) (use that(1,2) in \<open>simp add: next_place_def Let_def split: if_splits\<close>)
    then have "0 < l_align l" by simp
    then have "q + l_size k \<le> p"
      using le [of q k "hp_live h"] up [of "l_align l" "foldr (\<lambda>(p, l) k. max (p + l_size l) k) (hp_live h) 0"] that c
      by (auto simp: next_place_def Let_def split: if_splits)
    then show ?thesis by (auto simp: span_def c)
  qed
  moreover have "al_place next_place h l \<noteq> 0 \<Longrightarrow> l_align l dvd al_place next_place h l \<and> al_place next_place h l + l_size l < 2 ^ 32" for h l
    by (auto simp: next_place_def Let_def split: if_splits)
  ultimately show ?thesis unfolding honest_allocator_def by blast
qed

definition demo_heap :: Heap where
  "demo_heap = snd (malloc next_place 5 (fresh_heap (\<lambda>x. 0)))"

lemma demo_layouts:
  "block_layout 5 16 = Some (\<lparr>l_size = 21, l_align = 16\<rparr>, 16)" "block_layout 9 16 = Some (\<lparr>l_size = 25, l_align = 16\<rparr>, 16)"
  using power_of_two_HEADER by (simp_all add: block_layout_def from_size_align_def HEADER_def Let_def)

lemma demo_heap_malloc:
  "malloc next_place 5 (fresh_heap (\<lambda>x. 0)) = (32, demo_heap)" "hp_live demo_heap = [(16, \<lparr>l_size = 21, l_align = 16\<rparr>)]"
  "24 \<le> x \<Longrightarrow> hp_mem demo_heap x = 170"
  by (simp_all add: demo_heap_def malloc_def allocate_def demo_layouts rust_alloc_def next_place_def fresh_heap_def Let_def HEADER_def
      write_usize_def)

lemma demo_heap_runs: "running next_place demo_heap [(32, 5, HEADER)]"
  using running.use [OF running.start_up [of next_place "\<lambda>x. 0"], of "Malloc 5" 32 demo_heap] demo_heap_malloc(1) by simp

theorem wasm_blocks_are_sound_witness:
  "perform next_place (Realloc 32 9) demo_heap \<noteq> None \<and> \<not> hp_bad demo_heap \<and> length (hp_live demo_heap) = 1"
proof -
  have "legal [(32, 5, HEADER)] (Realloc 32 9)" by (simp add: pointers_def)
  moreover note wasm_blocks_are_sound [OF next_place_honest demo_heap_runs]
  ultimately show ?thesis by (metis length_Cons list.size(3) One_nat_def)
qed

text \<open>
  A call leaves the bytes of every block it is not about as they are; what calloc gives reads as
  zeros; what realloc gives begins with the bytes of the old block, as many as both have, and a realloc that
  fails changes nothing.
\<close>

theorem wasm_contents_kept:
  assumes "honest_allocator al" and "running al h bs" and "legal bs op" and "perform al op h = Some (r, h')"
  shows "(\<forall>(q, m, b)\<in>set bs. \<not> touches op q \<longrightarrow> (\<forall>x v. op \<noteq> Poke x v) \<longrightarrow> block_bytes h' q m = block_bytes h q m) \<and>
    (\<forall>c n. op = Calloc c n \<longrightarrow> r \<noteq> 0 \<longrightarrow> block_bytes h' r (c * n) = replicate (c * n) 0) \<and>
    (\<forall>p n old a. op = Realloc p n \<longrightarrow> (p, old, a) \<in> set bs \<longrightarrow>
       (if r = 0 then h' = h else take old (block_bytes h' r n) = take n (block_bytes h p old)))"
proof -
  have inv: "heap_inv h bs" using running_inv [OF assms(2,1)] .
  have ok: "outcome_ok op r bs h h'" using perform_ok [OF assms(1) inv assms(3)] assms(4) by (metis option.inject prod.inject)
  have "block_bytes h' q m = block_bytes h q m" if b: "(q, m, b) \<in> set bs" "\<not> touches op q" "\<forall>x v. op \<noteq> Poke x v" for q m b
  proof -
    have "\<exists>cs. untouched cs h h' \<and> (q, m, b) \<in> set cs \<and> set cs \<subseteq> set bs"
      using ok b by (cases op) (auto simp: outcome_ok_def touches_def)
    then show ?thesis using untouched_bytes [OF inv] by blast
  qed
  moreover have "block_bytes h' r (c * n) = replicate (c * n) 0" if "op = Calloc c n" "r \<noteq> 0" for c n
    using ok that by (simp add: outcome_ok_def block_bytes_def list_eq_iff_nth_eq)
  moreover have "if r = 0 then h' = h else take old (block_bytes h' r n) = take n (block_bytes h p old)"
    if "op = Realloc p n" "(p, old, a) \<in> set bs" for p n old a
    using ok that by (auto simp: outcome_ok_def take_block_bytes min.commute intro!: block_bytes_cong)
  ultimately show ?thesis by blast
qed

theorem wasm_contents_kept_witness:
  "\<exists>h'. perform next_place (Realloc 32 9) demo_heap = Some (64, h') \<and>
     take 5 (block_bytes h' 64 9) = [170, 170, 170, 170, 170]"
proof -
  have l: "legal [(32, 5, HEADER)] (Realloc 32 9)" by (simp add: pointers_def)
  obtain p where p: "perform next_place (Realloc 32 9) demo_heap = Some p"
    using perform_ok [OF next_place_honest running_inv [OF demo_heap_runs next_place_honest] l] by blast
  have "block_header 32 demo_heap = (5, HEADER)" using running_inv [OF demo_heap_runs next_place_honest] by (simp add: heap_inv_def)
  moreover have "fst (allocate next_place 9 HEADER False demo_heap) = 64"
    by (simp add: allocate_def HEADER_def demo_layouts rust_alloc_def demo_heap_malloc next_place_def Let_def)
  ultimately have "fst p = 64" using p by (auto simp: realloc_def split: prod.splits if_splits)
  then obtain h' where r: "perform next_place (Realloc 32 9) demo_heap = Some (64, h')" using p by (cases p) simp
  have "block_bytes demo_heap 32 5 = [170, 170, 170, 170, 170]"
    by (simp add: block_bytes_def demo_heap_malloc(3) upt_conv_Cons)
  with wasm_contents_kept [OF next_place_honest demo_heap_runs l r] r show ?thesis by auto
qed

end
