(* ===== verification/Consensus.thy ===== *)
theory Consensus
  imports F64
begin

text \<open>
  \<open>src/consensus.rs\<close>: which proof of work a block version selects, header serialization,
  compact targets and share targets, the BIP34 height, difficulties, merkle folding.
  SHA-256 (the \<open>sha2\<close> crate), hex encoding (the \<open>hex\<close> crate) and BC3Hash (the node's
  C++) are arguments.
\<close>

section \<open>Definitions\<close>

subsection \<open>The proof of work of a block version\<close>

definition SHA3_VBIT :: u32 where
  "SHA3_VBIT = 0x1000"

definition BC3HASH_VBIT :: u32 where
  "BC3HASH_VBIT = 0x800"

definition sha256d :: "(bytes \<Rightarrow> bytes) \<Rightarrow> bytes \<Rightarrow> bytes" where
  "sha256d sha256 data = sha256 (sha256 data)"

datatype PowAlgo = Sha256d | Sha3t | Bc3Hash

type_synonym PowFn = "bytes \<Rightarrow> bytes"

definition PowAlgo_ALL :: "PowAlgo list" where
  "PowAlgo_ALL = [Sha256d, Sha3t, Bc3Hash]"

fun index :: "PowAlgo \<Rightarrow> nat" where
  "index Sha256d = 0"
| "index Sha3t = 1"
| "index Bc3Hash = 2"

fun algo_name :: "PowAlgo \<Rightarrow> string" where
  "algo_name Sha256d = ''SHA256d''"
| "algo_name Sha3t = ''SHA3-256t''"
| "algo_name Bc3Hash = ''BC3Hash''"

definition for_version :: "u32 \<Rightarrow> PowAlgo" where
  "for_version version =
     (if version AND BC3HASH_VBIT \<noteq> 0 then Bc3Hash
      else if version AND SHA3_VBIT \<noteq> 0 then Sha3t
      else Sha256d)"

text \<open>\<open>bc3\<close> is the constant \<open>BC3HASH\<close>: the function where the build has it, else None.\<close>

fun hash_fn :: "PowFn option \<Rightarrow> PowAlgo \<Rightarrow> PowFn option" where
  "hash_fn bc3 Sha256d = None"
| "hash_fn bc3 Sha3t = None"
| "hash_fn bc3 Bc3Hash = bc3"

subsection \<open>The block header\<close>

record BlockHeader =
  hdr_version :: u32
  hdr_prev_hash :: bytes
  hdr_merkle_root :: bytes
  hdr_time :: u32
  hdr_bits :: u32
  hdr_nonce :: u32

text \<open>The hash fields are arrays of 32 bytes.\<close>

definition header_wf :: "BlockHeader \<Rightarrow> bool" where
  "header_wf h \<longleftrightarrow> length (hdr_prev_hash h) = 32 \<and> length (hdr_merkle_root h) = 32"

definition serialize :: "BlockHeader \<Rightarrow> bytes" where
  "serialize h =
     (let out = replicate 80 0;
          out = copy_at 0 (to_le_bytes 4 (hdr_version h)) out;
          out = copy_at 4 (hdr_prev_hash h) out;
          out = copy_at 36 (hdr_merkle_root h) out;
          out = copy_at 68 (to_le_bytes 4 (hdr_time h)) out;
          out = copy_at 72 (to_le_bytes 4 (hdr_bits h)) out;
          out = copy_at 76 (to_le_bytes 4 (hdr_nonce h)) out
      in out)"

definition hash_to_display :: "(bytes \<Rightarrow> string) \<Rightarrow> bytes \<Rightarrow> string" where
  "hash_to_display hex_encode hash = hex_encode (rev hash)"

subsection \<open>Targets\<close>

type_synonym Target = bytes

text \<open>
  The loop over the three mantissa bytes: byte \<open>i\<close> goes to position \<open>32 - exponent + i\<close>,
  where the subtraction is checked; one that would fall off the end must be zero.
\<close>

fun compact_place :: "nat \<Rightarrow> (nat \<times> u8) list \<Rightarrow> bytes \<Rightarrow> Target option" where
  "compact_place exponent [] out = Some out"
| "compact_place exponent ((i, b) # rest) out =
     (if 32 < exponent then None
      else let pos = 32 - exponent + i
           in if pos < 32 then compact_place exponent rest (out[pos := b])
              else if b \<noteq> 0 then None
              else compact_place exponent rest out)"

definition compact_to_target :: "u32 \<Rightarrow> Target option" where
  "compact_to_target bits =
     (let exponent = unat (drop_bit 24 bits);
          mantissa = bits AND 0x7fffff
      in if bits AND 0x800000 \<noteq> 0 \<or> 34 < exponent then None
         else compact_place exponent
                [(0, ucast (drop_bit 16 mantissa)), (1, ucast (drop_bit 8 mantissa)), (2, ucast mantissa)]
                (replicate 32 0))"

text \<open>The comparison loop of \<open>hash_meets_target\<close>, with \<open>i\<close> bytes left to compare.\<close>

fun meets_from :: "bytes \<Rightarrow> Target \<Rightarrow> nat \<Rightarrow> bool" where
  "meets_from hash target 0 = True"
| "meets_from hash target (Suc i) =
     (let h = hash ! i; t = target ! (31 - i)
      in if h < t then True else if t < h then False else meets_from hash target i)"

definition hash_meets_target :: "bytes \<Rightarrow> Target \<Rightarrow> bool" where
  "hash_meets_target hash target = meets_from hash target 32"

definition shl_byte :: "bytes \<Rightarrow> nat \<Rightarrow> u8" where
  "shl_byte x i = (case list_get x i of Some b \<Rightarrow> b | None \<Rightarrow> 0)"

definition shl :: "bytes \<Rightarrow> nat \<Rightarrow> bytes" where
  "shl x n =
     (let nbytes = n div 8; nbits = n mod 8
      in map (\<lambda>i. if nbits = 0 then shl_byte x (i + nbytes)
                  else push_bit nbits (shl_byte x (i + nbytes)) OR
                       drop_bit (8 - nbits) (shl_byte x (i + nbytes + 1))) [0..<32])"

definition DIFF1_BITS :: u32 where
  "DIFF1_BITS = 0x1d00ffff"

definition diff1_target :: Target where
  "diff1_target = (case compact_to_target DIFF1_BITS of Some t \<Rightarrow> t | None \<Rightarrow> [])"

text \<open>The long division of \<open>target_for_difficulty\<close>, byte by byte in a \<open>u128\<close>.\<close>

fun long_div :: "u128 \<Rightarrow> u128 \<Rightarrow> bytes \<Rightarrow> bytes" where
  "long_div divisor rem [] = []"
| "long_div divisor rem (d # ds) =
     (let rem = push_bit 8 rem OR ucast d
      in ucast (rem div divisor) # long_div divisor (rem mod divisor) ds)"

definition SCALE_BITS :: nat where
  "SCALE_BITS = 31"

definition share_divisor :: "f64 \<Rightarrow> u128" where
  "share_divisor difficulty =
     min (of_nat (f64_to_uint 128 (f64_max (f64_mul difficulty (f64_of_nat (2 ^ SCALE_BITS))) (F_Fin 1))))
         (push_bit 120 1 - 1)"

definition target_for_difficulty :: "f64 \<Rightarrow> Target" where
  "target_for_difficulty difficulty =
     long_div (share_divisor difficulty) 0 (shl diff1_target SCALE_BITS)"

subsection \<open>The BIP34 height\<close>

fun or_height :: "nat \<Rightarrow> bytes \<Rightarrow> u32 \<Rightarrow> u32" where
  "or_height i [] height = height"
| "or_height i (b # bs) height = or_height (i + 1) bs (height OR push_bit (8 * i) (ucast b))"

definition bip34_height :: "bytes \<Rightarrow> u32 option" where
  "bip34_height coinb1 =
     (let pos = 4 + 1 + 36
      in case list_get coinb1 pos of
           None \<Rightarrow> None
         | Some first \<Rightarrow>
             let pos = pos + (if first = 0xfd then 3 else if first = 0xfe then 5
                              else if first = 0xff then 9 else 1)
             in case list_get coinb1 pos of
                  None \<Rightarrow> None
                | Some op \<Rightarrow>
                    if op = 0x00 then Some 0
                    else if 0x51 \<le> op \<and> op \<le> 0x60 then Some (ucast (op - 0x50))
                    else let push_len = unat op
                         in if push_len = 0 \<or> 4 < push_len then None
                            else let pos = pos + 1
                                 in case list_get_range coinb1 pos (pos + push_len) of
                                      None \<Rightarrow> None
                                    | Some bs \<Rightarrow>
                                        if bs ! (push_len - 1) AND 0x80 \<noteq> 0 then None
                                        else Some (or_height 0 bs 0))"

subsection \<open>Difficulties\<close>

text \<open>Big-endian bytes as an \<open>f64\<close>, rounding at each step.\<close>

definition f64_of_be :: "bytes \<Rightarrow> f64" where
  "f64_of_be bs =
     foldl (\<lambda>h b. f64_add (f64_mul h (F_Fin 256)) (f64_of_nat (unat b))) (F_Fin 0) bs"

definition difficulty_of_hash :: "bytes \<Rightarrow> f64" where
  "difficulty_of_hash hash =
     (let h = f64_of_be (rev hash)
      in if f64_eq h (F_Fin 0) then F_Inf False else f64_div (f64_of_be diff1_target) h)"

definition difficulty_of_bits :: "u32 \<Rightarrow> f64" where
  "difficulty_of_bits bits =
     (case compact_to_target bits of
        None \<Rightarrow> F_Fin 0
      | Some t \<Rightarrow>
          let target = f64_of_be t
          in if f64_eq target (F_Fin 0) then F_Fin 0 else f64_div (f64_of_be diff1_target) target)"

subsection \<open>Merkle folding and the prevhash word swap\<close>

definition root_from_steps :: "(bytes \<Rightarrow> bytes) \<Rightarrow> bytes \<Rightarrow> bytes list \<Rightarrow> bytes" where
  "root_from_steps sha256 coinbase_txid steps =
     foldl (\<lambda>acc step. sha256d sha256 (acc @ step)) coinbase_txid steps"

fun swab_chunks :: "bytes \<Rightarrow> bytes" where
  "swab_chunks (a # b # c # d # rest) = d # c # b # a # swab_chunks rest"
| "swab_chunks rest = rev rest"

definition swab32 :: "bytes \<Rightarrow> bytes" where
  "swab32 bs = swab_chunks bs"

subsection \<open>The target as the kernel takes it\<close>

text \<open>\<open>src/backend/bc3.rs\<close>: four 64-bit limbs, the least significant first.\<close>

definition be_u64 :: "bytes \<Rightarrow> u64" where
  "be_u64 bs = word_of_nat (be_val bs)"

definition target_limbs :: "Target \<Rightarrow> u64 list" where
  "target_limbs target =
     map (\<lambda>i. let ofs = 32 - 8 * (i + 1) in be_u64 (take 8 (drop ofs target))) [0..<4]"


section \<open>Lemmas\<close>

subsection \<open>Comparing and updating numbers byte by byte\<close>

lemma lex_le_iff:
  fixes a b x y B :: nat
  assumes "x < B" and "y < B"
  shows "a * B + x \<le> b * B + y \<longleftrightarrow> a < b \<or> a = b \<and> x \<le> y"
proof (cases a b rule: linorder_cases)
  case less
  then have "(a + 1) * B \<le> b * B" by (intro mult_le_mono1) simp
  with assms(1) less show ?thesis by simp
next
  case equal
  then show ?thesis by simp
next
  case greater
  then have "(b + 1) * B \<le> a * B" by (intro mult_le_mono1) simp
  with assms(2) greater show ?thesis by simp
qed

lemma meets_from_iff:
  assumes "length hash = 32" and "length target = 32" and "i \<le> 32"
  shows "meets_from hash target i \<longleftrightarrow> le_val (take i hash) \<le> be_val (drop (32 - i) target)"
  using assms(3)
proof (induction i)
  case 0
  then show ?case by simp
next
  case (Suc i)
  then have i: "i < 32" by simp
  let ?x = "le_val (take i hash)" and ?y = "be_val (drop (32 - i) target)"
  have h: "le_val (take (Suc i) hash) = unat (hash ! i) * 256 ^ i + ?x"
    using i assms(1) by (simp add: take_Suc_conv_app_nth le_val_append le_val_Cons)
  have "drop (31 - i) target = target ! (31 - i) # drop (32 - i) target"
    using i assms(2) Cons_nth_drop_Suc [of "31 - i" target] by (simp add: Suc_diff_le [symmetric])
  then have t: "be_val (drop (32 - Suc i) target) = unat (target ! (31 - i)) * 256 ^ i + ?y"
    using i assms(2) by (simp add: be_val_Cons)
  have "?x < 256 ^ i" using le_val_bound [of "take i hash"] i assms(1) by simp
  moreover have "?y < 256 ^ i" using be_val_bound [of "drop (32 - i) target"] i assms(2) by simp
  ultimately show ?case
    using Suc.IH i
    by (simp only: h t lex_le_iff) (auto simp: Let_def word_less_nat_alt word_unat_eq_iff not_less)
qed

lemma be_val_list_update:
  assumes "i < length xs" and "xs ! i = 0"
  shows "be_val (xs[i := b]) = be_val xs + unat b * 256 ^ (length xs - 1 - i)"
proof -
  have xs: "xs = take i xs @ 0 # drop (Suc i) xs"
    using id_take_nth_drop [OF assms(1)] assms(2) by simp
  have "xs[i := b] = take i xs @ b # drop (Suc i) xs"
    using assms(1) by (rule upd_conv_take_nth_drop)
  then have "be_val (xs[i := b]) =
      be_val (take i xs) * 256 ^ Suc (length xs - Suc i) +
      (unat b * 256 ^ (length xs - Suc i) + be_val (drop (Suc i) xs))"
    by (simp add: be_val_append be_val_Cons)
  moreover have "be_val xs =
      be_val (take i xs) * 256 ^ Suc (length xs - Suc i) + be_val (drop (Suc i) xs)"
    by (subst xs) (simp add: be_val_append be_val_Cons)
  ultimately show ?thesis by simp
qed

lemma be_val_digits:
  assumes "\<And>i. i < n \<Longrightarrow> unat (f i) = v div 256 ^ (n - 1 - i) mod 256"
  shows "be_val (map f [0..<n]) = v mod 256 ^ n"
  using assms
proof (induction n arbitrary: v)
  case 0
  then show ?case by simp
next
  case (Suc n)
  have "unat (f i) = v div 256 div 256 ^ (n - 1 - i) mod 256" if "i < n" for i
  proof -
    have "unat (f i) = v div 256 ^ (n - i) mod 256" using Suc.prems [of i] that by simp
    also have "n - i = Suc (n - 1 - i)" using that by simp
    finally show ?thesis by (simp add: div_mult2_eq)
  qed
  then have "be_val (map f [0..<n]) = v div 256 mod 256 ^ n" by (rule Suc.IH)
  moreover have "unat (f n) = v mod 256" using Suc.prems [of n] by simp
  ultimately have "be_val (map f [0..<Suc n]) = v div 256 mod 256 ^ n * 256 + v mod 256"
    by (simp add: be_val_snoc)
  then show ?case by (simp add: mod_mult2_eq)
qed

lemma be_val_nth:
  assumes "i < length bs"
  shows "unat (bs ! i) = be_val bs div 256 ^ (length bs - 1 - i) mod 256"
proof -
  let ?r = "drop (Suc i) bs"
  have bs: "bs = take i bs @ bs ! i # ?r" using id_take_nth_drop [OF assms] .
  have len: "length ?r = length bs - 1 - i" by simp
  have "be_val bs = (be_val (take i bs) * 256 + unat (bs ! i)) * 256 ^ length ?r + be_val ?r"
    by (subst bs) (simp add: be_val_append be_val_Cons algebra_simps)
  then have "be_val bs div 256 ^ length ?r = be_val (take i bs) * 256 + unat (bs ! i)"
    using be_val_bound [of ?r] by (simp del: length_drop)
  moreover have "unat (bs ! i) < 256" using unsigned_less [of "bs ! i", where 'a = nat] by simp
  ultimately show ?thesis by (simp only: len) simp
qed

subsection \<open>Compact targets\<close>

lemma target_by_value:
  assumes "length t0 = 32" and "be_val t0 * k = v" and "0 < k"
  shows "t0 = t \<longleftrightarrow> length t = 32 \<and> be_val t * k = v"
proof
  assume "t0 = t"
  then show "length t = 32 \<and> be_val t * k = v" using assms(1,2) by blast
next
  assume t: "length t = 32 \<and> be_val t * k = v"
  then have "be_val t0 * k = be_val t * k" using assms(2) by simp
  then have "be_val t0 = be_val t" using assms(3) by simp
  then show "t0 = t" using t assms(1) by (intro be_val_inj) simp_all
qed

lemma compact_place_big:
  assumes "3 \<le> e" and "e \<le> 32"
  shows "be_val ((replicate 32 0)[32 - e := a, 32 - e + 1 := b, 32 - e + 2 := c]) * 256 ^ 3 =
    (unat a * 256 ^ 2 + unat b * 256 + unat c) * 256 ^ e"
proof -
  obtain k where k: "e = k + 3" using assms(1) le_Suc_ex by (metis add.commute)
  have "be_val ((replicate 32 0)[32 - e := a, 32 - e + 1 := b, 32 - e + 2 := c]) =
      unat a * 256 ^ (k + 2) + unat b * 256 ^ (k + 1) + unat c * 256 ^ k"
    using assms(2) by (simp add: be_val_list_update k nth_list_update)
  then show ?thesis by (simp add: k algebra_simps power_add)
qed

lemma compact_place_value:
  assumes "e \<le> 32"
  shows "compact_place e [(0, a), (1, b), (2, c)] (replicate 32 0) = Some t \<longleftrightarrow>
    length t = 32 \<and>
    be_val t * 256 ^ 3 = (unat a * 256 ^ 2 + unat b * 256 + unat c) * 256 ^ e"
    (is "?L = Some t \<longleftrightarrow> ?R")
proof -
  have bytes: "unat a < 256" "unat b < 256" "unat c < 256"
    using unsigned_less [of a, where 'a = nat] unsigned_less [of b, where 'a = nat]
      unsigned_less [of c, where 'a = nat] by simp_all
  consider "e = 0" | "e = 1" | "e = 2" | "3 \<le> e" using assms by linarith
  then show ?thesis
  proof cases
    case 1
    then have "?L = Some t \<longleftrightarrow> a = 0 \<and> b = 0 \<and> c = 0 \<and> replicate 32 0 = t" by simp
    also have "\<dots> \<longleftrightarrow> ?R"
      using 1 bytes target_by_value [of "replicate 32 0" "256 ^ 3" 0 t]
      by (auto simp: unat_eq_0)
    finally show ?thesis .
  next
    case 2
    then have "?L = Some t \<longleftrightarrow> b = 0 \<and> c = 0 \<and> (replicate 32 0)[31 := a] = t" by simp
    also have "\<dots> \<longleftrightarrow> ?R"
      using 2 bytes target_by_value [of "(replicate 32 0)[31 := a]" "256 ^ 3" "unat a * 256 ^ 3" t]
      by (auto simp: unat_eq_0 be_val_list_update)
    finally show ?thesis .
  next
    case 3
    then have "?L = Some t \<longleftrightarrow> c = 0 \<and> (replicate 32 0)[30 := a, 31 := b] = t" by simp
    moreover have "c = 0" if ?R
    proof -
      have "be_val t * 256 + 0 = (unat a * 256 + unat b) * 256 + unat c" using that 3 by simp
      from digit_split [OF _ bytes(3) this] have "unat c = 0" by simp
      then show ?thesis by (simp add: unat_eq_0)
    qed
    ultimately show ?thesis
      using 3 target_by_value [of "(replicate 32 0)[30 := a, 31 := b]" "256 ^ 3"
        "(unat a * 256 + unat b) * 256 ^ 3" t]
      by (auto simp: be_val_list_update nth_list_update)
  next
    case 4
    let ?t = "(replicate 32 0)[32 - e := a, 32 - e + 1 := b, 32 - e + 2 := c]"
    have pos: "32 - e < 32" "Suc (32 - e) < 32" "Suc (Suc (32 - e)) < 32" using 4 assms by simp_all
    have "?L = Some t \<longleftrightarrow> ?t = t" using pos assms by (simp add: Let_def)
    also have "\<dots> \<longleftrightarrow> ?R"
      using target_by_value [OF _ compact_place_big [OF 4 assms], of a b c t] by simp
    finally show ?thesis .
  qed
qed

lemma mantissa_bytes:
  fixes m :: u32
  assumes "unat m < 2 ^ 24"
  shows "unat (ucast (drop_bit 16 m) :: u8) * 256 ^ 2 + unat (ucast (drop_bit 8 m) :: u8) * 256 +
    unat (ucast m :: u8) = unat m"
proof -
  have "le_val (to_le_bytes 3 m) = unat m" using assms by (simp add: le_val_to_le_bytes)
  moreover have "to_le_bytes 3 m = [ucast m, ucast (drop_bit 8 m), ucast (drop_bit 16 m)]"
    by (simp add: to_le_bytes_def numeral_3_eq_3 upt_rec)
  ultimately show ?thesis by (simp add: le_val_Cons)
qed

lemma unat_mantissa: "unat (bits AND 0x7fffff :: u32) = unat bits mod 2 ^ 23"
proof -
  have "bits AND 0x7fffff = take_bit 23 bits" by (simp add: take_bit_eq_mask mask_eq_exp_minus_1)
  then have "unat (bits AND 0x7fffff) = take_bit 23 (unat bits)" by (simp only: unsigned_take_bit_eq)
  then show ?thesis by (simp only: take_bit_eq_mod)
qed

text \<open>
  What \<open>compact_to_target\<close> accepts, and the number it gives: with \<open>e\<close> the exponent and \<open>m\<close>
  the mantissa of the compact form, the 32-byte target whose value times \<open>256\<^sup>3\<close> is
  \<open>m * 256\<^sup>e\<close>, if there is one, the sign bit is clear and the exponent is at most 32.
\<close>

lemma compact_to_target_iff:
  "compact_to_target bits = Some t \<longleftrightarrow>
     bits AND 0x800000 = 0 \<and> unat (drop_bit 24 bits) \<le> 32 \<and> length t = 32 \<and>
     be_val t * 256 ^ 3 = (unat bits mod 2 ^ 23) * 256 ^ unat (drop_bit 24 bits)"
proof (cases "bits AND 0x800000 \<noteq> 0 \<or> 32 < unat (drop_bit 24 bits)")
  case True
  then show ?thesis by (auto simp: compact_to_target_def Let_def)
next
  case False
  let ?m = "bits AND 0x7fffff"
  have "unat ?m < 2 ^ 24"
    unfolding unat_mantissa by (rule less_trans [of _ "2 ^ 23"]) simp_all
  from mantissa_bytes [OF this] False show ?thesis
    using compact_place_value [of "unat (drop_bit 24 bits)" "ucast (drop_bit 16 ?m)" "ucast (drop_bit 8 ?m)" "ucast ?m" t]
    by (auto simp: compact_to_target_def Let_def unat_mantissa simp del: compact_place.simps)
qed

lemma hash_meets_target_iff:
  assumes "length hash = 32" and "length target = 32"
  shows "hash_meets_target hash target \<longleftrightarrow> le_val hash \<le> be_val target"
  using meets_from_iff [OF assms, of 32] assms by (simp add: hash_meets_target_def)

subsection \<open>Shifting\<close>

lemma shl_byte_value:
  assumes "length x = 32" and "i < 32"
  shows "unat (shl_byte x (i + nb)) = be_val x * 256 ^ nb div 256 ^ (31 - i) mod 256"
proof (cases "i + nb < 32")
  case True
  then have "31 - i = 31 - (i + nb) + nb" using assms(2) by simp
  then have "be_val x * 256 ^ nb div 256 ^ (31 - i) = be_val x div 256 ^ (31 - (i + nb))"
    by (simp add: power_add)
  with True assms(1) be_val_nth [of "i + nb" x] show ?thesis
    by (simp add: shl_byte_def list_get_def)
next
  case False
  define k where "k = nb - 1 - (31 - i)"
  have k: "nb = k + 1 + (31 - i)" using False assms(2) by (simp add: k_def)
  have "be_val x * 256 ^ nb div 256 ^ (31 - i) = be_val x * 256 ^ k * 256"
    by (simp add: k power_add)
  with False assms(1) show ?thesis by (simp add: shl_byte_def list_get_def)
qed

lemma shl_bits_value:
  fixes b1 b2 :: u8 and q k :: nat
  assumes b1: "unat b1 = q div 256 mod 256" and b2: "unat b2 = q mod 256" and k: "0 < k" "k < 8"
  shows "unat (push_bit k b1 OR drop_bit (8 - k) b2) = q div 2 ^ (8 - k) mod 256"
proof -
  have w1: "bit b1 n \<longleftrightarrow> n < 8 \<and> bit q (n + 8)" for n
  proof -
    have "unat b1 = take_bit 8 (drop_bit 8 q)" by (simp add: b1 take_bit_eq_mod drop_bit_eq_div)
    then have "bit (unat b1) n \<longleftrightarrow> n < 8 \<and> bit q (n + 8)" by (simp add: bit_simps add.commute)
    then show ?thesis by (auto simp: bit_unsigned_iff dest: bit_imp_le_length)
  qed
  have w2: "bit b2 n \<longleftrightarrow> n < 8 \<and> bit q n" for n
  proof -
    have "unat b2 = take_bit 8 q" by (simp add: b2 take_bit_eq_mod)
    then have "bit (unat b2) n \<longleftrightarrow> n < 8 \<and> bit q n" by (simp add: bit_simps)
    then show ?thesis by (auto simp: bit_unsigned_iff dest: bit_imp_le_length)
  qed
  have "unat (push_bit k b1 OR drop_bit (8 - k) b2) = take_bit 8 (drop_bit (8 - k) q)"
    using k by (intro bit_eqI)
      (auto simp: bit_simps w1 w2 bit_unsigned_iff Suc_diff_le not_less add.commute [of _ 8])
  then show ?thesis by (simp add: take_bit_eq_mod drop_bit_eq_div)
qed

lemma length_shl [simp, bytes_simps]: "length (shl x n) = 32"
  by (simp add: shl_def Let_def)

lemma nth_shl:
  "i < 32 \<Longrightarrow> shl x n ! i =
     (if n mod 8 = 0 then shl_byte x (i + n div 8)
      else push_bit (n mod 8) (shl_byte x (i + n div 8)) OR
           drop_bit (8 - n mod 8) (shl_byte x (i + n div 8 + 1)))"
  by (simp add: shl_def Let_def)

lemma shl_value:
  assumes "length x = 32"
  shows "be_val (shl x n) = be_val x * 2 ^ n mod 2 ^ 256"
proof -
  define nb k where "nb = n div 8" and "k = n mod 8"
  have n: "n = 8 * nb + k" by (simp add: nb_def k_def)
  have pow: "(2::nat) ^ n = 256 ^ nb * 2 ^ k" by (simp add: n power_add power_mult)
  have "unat (shl x n ! i) = be_val x * 2 ^ n div 256 ^ (31 - i) mod 256" if i: "i < 32" for i
  proof (cases "k = 0")
    case True
    then show ?thesis using i assms
      by (simp add: nth_shl nb_def [symmetric] k_def [symmetric] pow shl_byte_value)
  next
    case False
    define q where "q = be_val x * 256 ^ (nb + 1) div 256 ^ (31 - i)"
    have k: "0 < k" "k < 8" using False by (simp_all add: k_def)
    have "q div 256 = be_val x * 256 ^ nb * 256 div (256 * 256 ^ (31 - i))"
      by (simp add: q_def div_mult2_eq [symmetric] mult.assoc mult.commute)
    also have "\<dots> = be_val x * 256 ^ nb div 256 ^ (31 - i)"
      by (simp only: mult.commute [of 256] div_mult_mult1_if) simp
    finally have "unat (shl_byte x (i + nb)) = q div 256 mod 256"
      using shl_byte_value [OF assms i] by simp
    moreover have "unat (shl_byte x (i + nb + 1)) = q mod 256"
      using shl_byte_value [OF assms i, of "nb + 1"] by (simp add: q_def)
    ultimately have "unat (push_bit k (shl_byte x (i + nb)) OR drop_bit (8 - k) (shl_byte x (i + nb + 1)))
        = q div 2 ^ (8 - k) mod 256"
      using k by (rule shl_bits_value)
    moreover have "q div 2 ^ (8 - k) = be_val x * 2 ^ n div 256 ^ (31 - i)"
    proof -
      have "(2::nat) ^ k * 2 ^ (8 - k) = 2 ^ 8" using k by (simp add: power_add [symmetric])
      then have "be_val x * 256 ^ (nb + 1) = be_val x * 2 ^ n * 2 ^ (8 - k)"
        by (simp add: pow mult.assoc mult.left_commute)
      then have "q div 2 ^ (8 - k) = be_val x * 2 ^ n * 2 ^ (8 - k) div 2 ^ (8 - k) div 256 ^ (31 - i)"
        by (simp only: q_def div_mult2_eq [symmetric] mult.commute [of "256 ^ (31 - i)"])
      then show ?thesis by simp
    qed
    ultimately show ?thesis using i False
      by (simp add: nth_shl nb_def [symmetric] k_def [symmetric])
  qed
  then have "be_val (map ((!) (shl x n)) [0..<32]) = be_val x * 2 ^ n mod 256 ^ 32"
    by (intro be_val_digits) simp
  moreover have "map ((!) (shl x n)) [0..<32] = shl x n"
    using map_nth [of "shl x n"] by simp
  ultimately show ?thesis by (simp add: power_mult [of 2 8 32, symmetric] flip: power_mult)
qed

lemma length_long_div [simp, bytes_simps]: "length (long_div d r ds) = length ds"
  by (induction ds arbitrary: r) (simp_all add: Let_def)

lemma long_div_value:
  assumes "unat r < unat d" and "unat d < 2 ^ 120"
  shows "be_val (long_div d r ds) = (unat r * 256 ^ length ds + be_val ds) div unat d"
  using assms(1)
proof (induction ds arbitrary: r)
  case Nil
  then show ?case by simp
next
  case (Cons b bs)
  let ?r = "push_bit 8 r OR ucast b :: u128" and ?n = "256 ^ length bs :: nat"
  have b: "unat b < 256" using unsigned_less [of b, where 'a = nat] by simp
  have r: "unat ?r = unat r * 256 + unat b"
  proof -
    have "unat r * 256 + unat b < 2 ^ 128" using Cons.prems assms(2) b by simp
    moreover have "?r = push_bit 8 r + ucast b"
      by (rule disjunctive_add [symmetric]) (auto simp: bit_simps dest: bit_imp_le_length)
    then have "?r = r * 256 + ucast b" by (simp add: push_bit_eq_mult mult.commute)
    then have "?r = word_of_nat (unat r * 256 + unat b)" by simp
    ultimately show ?thesis by (simp only: unat_of_nat) simp
  qed
  have lt: "unat ?r < unat d * 256" using Cons.prems b r by simp
  have "unat (?r div d) = unat ?r div unat d" by (simp add: unat_div)
  moreover have "unat ?r div unat d < 256" using lt by (simp add: less_mult_imp_div_less mult.commute)
  ultimately have q: "unat (ucast (?r div d) :: u8) = unat ?r div unat d"
    by (simp add: unsigned_ucast_eq take_bit_nat_eq_self)
  have "unat (?r mod d) < unat d" using Cons.prems by (simp add: unat_mod)
  from Cons.IH [OF this] have "be_val (long_div d r (b # bs)) =
      unat ?r div unat d * ?n + (unat ?r mod unat d * ?n + be_val bs) div unat d"
    by (simp add: be_val_Cons q unat_mod Let_def)
  also have "\<dots> = (unat ?r div unat d * ?n * unat d + (unat ?r mod unat d * ?n + be_val bs)) div unat d"
    using Cons.prems by simp
  also have "unat ?r div unat d * ?n * unat d + (unat ?r mod unat d * ?n + be_val bs) =
      (unat ?r div unat d * unat d + unat ?r mod unat d) * ?n + be_val bs"
    by (simp only: algebra_simps)
  also have "\<dots> = unat r * 256 ^ length (b # bs) + be_val (b # bs)"
    by (simp only: div_mult_mod_eq) (simp add: r be_val_Cons algebra_simps)
  finally show ?case .
qed

subsection \<open>Share targets\<close>

lemma diff1_target_eq: "compact_to_target DIFF1_BITS = Some ([0, 0, 0, 0, 0xff, 0xff] @ replicate 26 0)"
  unfolding compact_to_target_iff DIFF1_BITS_def
  by (simp add: be_val_append be_val_Cons drop_bit_eq_div)

lemma diff1_value: "length diff1_target = 32 \<and> be_val diff1_target = 0xffff * 256 ^ 26"
  unfolding diff1_target_def diff1_target_eq by (simp add: be_val_append be_val_Cons)

lemma share_divisor_value:
  assumes "f64_repr d"
  shows "unat (share_divisor (F_Fin d)) = max 1 (min (nat \<lfloor>d * 2 ^ 31\<rfloor>) (2 ^ 120 - 1))"
proof -
  let ?x = "f64_to_uint 128 (f64_max (f64_round (d * 2 ^ 31)) (F_Fin 1))"
  have "f64_of_nat (2 ^ SCALE_BITS) = F_Fin (2 ^ 31)" 
    using f64_of_nat_exact [of "2 ^ 31"] by (simp add: SCALE_BITS_def)
  then have "share_divisor (F_Fin d) = min (of_nat ?x) (push_bit 120 1 - 1)"
    by (simp add: share_divisor_def)
  moreover have "?x < 2 ^ 128" 
    by (cases "f64_max (f64_round (d * 2 ^ 31)) (F_Fin 1)") auto
  moreover have "unat (push_bit 120 1 - 1 :: u128) = 2 ^ 120 - 1" by (simp add: unat_minus_one)
  ultimately have "unat (share_divisor (F_Fin d)) = min ?x (2 ^ 120 - 1)"
    by (simp add: unat_min unat_of_nat)
  moreover have "min ?x (2 ^ 120 - 1) = max 1 (min (nat \<lfloor>d * 2 ^ 31\<rfloor>) (2 ^ 120 - 1))"
  proof -
    consider "2 ^ 1024 \<le> \<bar>d * 2 ^ 31\<bar>" "d < 0" | "2 ^ 1024 \<le> \<bar>d * 2 ^ 31\<bar>" "0 \<le> d"
      | "\<bar>d * 2 ^ 31\<bar> < 2 ^ 1024" by linarith
    then show ?thesis
    proof cases
      case 1
      then have "f64_round (d * 2 ^ 31) = F_Inf True" by (simp only: f64_scale [OF assms] if_True)
      moreover have "d * 2 ^ 31 < 0" using 1 by (simp add: mult_less_0_iff)
      ultimately show ?thesis by (simp only: f64_max_def) simp
    next
      case 2
      then have "f64_round (d * 2 ^ 31) = F_Inf False" by (simp only: f64_scale [OF assms] if_True) simp
      moreover have "2 ^ 1024 \<le> \<lfloor>d * 2 ^ 31\<rfloor>" using 2 by (simp add: le_floor_iff)
      then have "(2 ^ 120 - 1 :: nat) \<le> nat \<lfloor>d * 2 ^ 31\<rfloor>" by (simp add: le_nat_iff)
      then have "min (nat \<lfloor>d * 2 ^ 31\<rfloor>) (2 ^ 120 - 1) = 2 ^ 120 - 1" by (rule min_absorb2)
      ultimately show ?thesis by (simp only: f64_max_def) simp
    next
      case 3
      then have "f64_round (d * 2 ^ 31) = F_Fin (d * 2 ^ 31)" by (simp only: f64_scale [OF assms]) (simp only: linorder_not_le [symmetric] if_False)
      moreover have "1 \<le> nat \<lfloor>r\<rfloor>" if "\<not> r < 1" for r :: rat
        using that by (simp add: le_nat_iff le_floor_iff)
      moreover have "nat \<lfloor>r\<rfloor> = 0" if "r < 1" for r :: rat
        using that by (simp add: floor_less_iff)
      ultimately show ?thesis
        by (cases "d * 2 ^ 31 < 1") (simp_all only: f64_max_def f64.simps f64_lt.simps if_True if_False f64_to_uint.simps; force)+
    qed
  qed
  ultimately show ?thesis by simp
qed

text \<open>\<open>floor((diff1 << 31) / floor(difficulty * 2^31))\<close>, with the divisor kept in 1..2^120-1.\<close>

lemma target_for_difficulty_value:
  assumes "f64_repr d"
  shows "length (target_for_difficulty (F_Fin d)) = 32 \<and>
    be_val (target_for_difficulty (F_Fin d)) =
      be_val diff1_target * 2 ^ 31 div max 1 (min (nat \<lfloor>d * 2 ^ 31\<rfloor>) (2 ^ 120 - 1))"
proof -
  let ?v = "max 1 (min (nat \<lfloor>d * 2 ^ 31\<rfloor>) (2 ^ 120 - 1))"
  have div: "unat (share_divisor (F_Fin d)) = ?v" by (rule share_divisor_value [OF assms])
  have "be_val (target_for_difficulty (F_Fin d)) = be_val (shl diff1_target 31) div ?v"
    unfolding target_for_difficulty_def SCALE_BITS_def
    by (subst long_div_value) (simp_all add: div)
  also have "be_val (shl diff1_target 31) = be_val diff1_target * 2 ^ 31"
    by (subst shl_value) (simp_all add: diff1_value)
  finally show ?thesis by (simp add: target_for_difficulty_def)
qed

subsection \<open>The proof of work and the header\<close>

lemma and_power_iff: "x AND 2 ^ n \<noteq> 0 \<longleftrightarrow> bit x n" for x :: "'a::len word"
  by (metis and_exp_eq_0_iff_not_bit)

lemma for_version_bits:
  "for_version v = (if bit v 11 then Bc3Hash else if bit v 12 then Sha3t else Sha256d)"
  using and_power_iff [of v 11] and_power_iff [of v 12]
  by (simp add: for_version_def BC3HASH_VBIT_def SHA3_VBIT_def)

lemma copy_at_first: "length src \<le> n \<Longrightarrow>
   copy_at 0 src (replicate n x) = src @ replicate (n - length src) x"
  by (simp add: copy_at_def)

lemma copy_at_next: "length pre = pos \<Longrightarrow> length src \<le> n \<Longrightarrow>
   copy_at pos src (pre @ replicate n x) = (pre @ src) @ replicate (n - length src) x"
  by (auto simp: copy_at_def)

lemma serialize_concat:
  assumes "header_wf h"
  shows "serialize h = to_le_bytes 4 (hdr_version h) @ hdr_prev_hash h @ hdr_merkle_root h @
    to_le_bytes 4 (hdr_time h) @ to_le_bytes 4 (hdr_bits h) @ to_le_bytes 4 (hdr_nonce h)"
proof -
  have len: "length (hdr_prev_hash h) = 32" "length (hdr_merkle_root h) = 32"
    using assms by (simp_all add: header_wf_def)
  show ?thesis
    unfolding serialize_def Let_def
    by (simp add: copy_at_first copy_at_next len del: append_assoc replicate.simps)
      simp
qed

lemma serialize_inj:
  assumes "header_wf g" and "header_wf h" and "serialize g = serialize h"
  shows "g = (h :: BlockHeader)"
  using assms
  by (auto simp: serialize_concat header_wf_def dest: to_le_bytes_inj_u32 intro!: BlockHeader.equality)

lemma length_serialize [simp, bytes_simps]: "header_wf h \<Longrightarrow> length (serialize h) = 80"
  by (simp add: serialize_concat header_wf_def)

subsection \<open>Word swaps and limbs\<close>

lemma length_swab_chunks [simp]: "length (swab_chunks bs) = length bs"
  by (induction bs rule: swab_chunks.induct) simp_all

lemma swab_chunks_involution: "swab_chunks (swab_chunks bs) = bs"
  by (induction bs rule: swab_chunks.induct) simp_all

lemma unat_be_u64: "length bs = 8 \<Longrightarrow> unat (be_u64 bs) = be_val bs"
  using be_val_bound [of bs] by (simp add: be_u64_def unat_of_nat)

lemma target_limbs_value:
  assumes "length t = 32"
  shows "(\<Sum>i<4. unat (target_limbs t ! i) * (2 ^ 64) ^ i) = be_val t"
proof -
  let ?a = "take 8 t" and ?b = "take 8 (drop 8 t)" and ?c = "take 8 (drop 16 t)" and ?d = "drop 24 t"
  have "t = ?a @ drop 8 t" by simp
  also have "drop 8 t = ?b @ drop 16 t" using append_take_drop_id [of 8 "drop 8 t"] by simp
  also have "drop 16 t = ?c @ ?d" using append_take_drop_id [of 8 "drop 16 t"] by simp
  finally have "be_val t = be_val (?a @ ?b @ ?c @ ?d)" by (rule arg_cong)
  then have "be_val t = be_val ?a * 256 ^ 24 + (be_val ?b * 256 ^ 16 + (be_val ?c * 256 ^ 8 + be_val ?d))"
    using assms by (simp add: be_val_append)
  moreover have "target_limbs t = [be_u64 ?d, be_u64 ?c, be_u64 ?b, be_u64 ?a]"
    using assms by (simp add: target_limbs_def upt_rec)
  ultimately show ?thesis
    using assms by (simp add: lessThan_nat_numeral lessThan_Suc unat_be_u64)
qed

section \<open>Properties\<close>

text \<open>
  \<open>compact_to_target\<close> accepts a compact form exactly when the sign bit is clear, the
  exponent \<open>e\<close> is at most 32 and the mantissa \<open>m\<close> times \<open>256\<close> to the \<open>e - 3\<close> is an integer
  of 32 bytes; it then gives the big-endian bytes of that integer.
\<close>

theorem compact_to_target_spec:
  "compact_to_target bits = Some t \<longleftrightarrow>
     \<not> bit bits 23 \<and> unat (drop_bit 24 bits) \<le> 32 \<and> length t = 32 \<and>
     be_val t * 256 ^ 3 = (unat bits mod 2 ^ 23) * 256 ^ unat (drop_bit 24 bits)"
  using compact_to_target_iff [of bits t] and_power_iff [of bits 23] by auto

text \<open>
  The byte loop of \<open>hash_meets_target\<close> decides whether the hash, read as the
  little-endian number it is, is at most the big-endian target.
\<close>

theorem hash_meets_target_numeric:
  assumes "length hash = 32" and "length target = 32"
  shows "hash_meets_target hash target \<longleftrightarrow> le_val hash \<le> be_val target"
  using assms by (rule hash_meets_target_iff)

theorem hash_meets_target_numeric_witness:
  "hash_meets_target (replicate 32 1) (replicate 32 1)"
  using hash_meets_target_numeric [of "replicate 32 1" "replicate 32 1"]
  by (simp add: le_val_def)

text \<open>
  C34. For every finite \<open>f64\<close> difficulty the share target is
  \<open>floor((diff1 << 31) / floor(difficulty * 2^31))\<close> exactly, in 32 bytes, with the divisor kept
  between 1 and \<open>2^120 - 1\<close>: neither the multiplication nor the 128-bit long division rounds,
  wraps or truncates.
\<close>

theorem target_for_difficulty_exact:
  assumes "f64_repr d"
  shows "length (target_for_difficulty (F_Fin d)) = 32 \<and>
    be_val (target_for_difficulty (F_Fin d)) =
      0xffff * 2 ^ 239 div max 1 (min (nat \<lfloor>d * 2 ^ 31\<rfloor>) (2 ^ 120 - 1))"
  using target_for_difficulty_value [OF assms] by (simp add: diff1_value)

theorem target_for_difficulty_exact_witness:
  "be_val (target_for_difficulty (F_Fin 1)) = 0xffff * 2 ^ 208"
proof -
  have "f64_repr 1" using f64_of_nat_exact [of 1] by (simp add: f64_repr_def f64_of_nat_def)
  from target_for_difficulty_exact [OF this] show ?thesis by simp
qed

text \<open>
  A header of well-formed fields serializes to 80 bytes, its nonce being the last four, and
  two headers serialize alike only when they are equal.
\<close>

theorem serialize_injective:
  assumes "header_wf g" and "header_wf h"
  shows "length (serialize g) = 80 \<and> drop 76 (serialize g) = to_le_bytes 4 (hdr_nonce g) \<and>
    (serialize g = serialize h \<longrightarrow> g = (h :: BlockHeader))"
  using assms serialize_inj [OF assms] by (auto simp: serialize_concat header_wf_def)

theorem serialize_injective_witness:
  "\<exists>g h. header_wf g \<and> header_wf h \<and> serialize g \<noteq> serialize h"
proof -
  let ?g = "\<lparr>hdr_version = 0, hdr_prev_hash = replicate 32 0, hdr_merkle_root = replicate 32 0,
    hdr_time = 0, hdr_bits = 0, hdr_nonce = 0\<rparr>"
  let ?h = "?g\<lparr>hdr_nonce := 1\<rparr>"
  have wf: "header_wf ?g" "header_wf ?h" by (simp_all add: header_wf_def)
  have "serialize ?g \<noteq> serialize ?h" using serialize_injective [OF wf] by auto
  with wf show ?thesis by blast
qed

text \<open>
  The four 64-bit limbs the BC3Hash kernel takes, least significant first, hold the value
  of the target.
\<close>

theorem target_limbs_exact:
  assumes "length t = 32"
  shows "length (target_limbs t) = 4 \<and>
    (\<Sum>i<4. unat (target_limbs t ! i) * (2 ^ 64) ^ i) = be_val t"
  using target_limbs_value [OF assms] by (simp add: target_limbs_def)

theorem target_limbs_exact_witness:
  "(\<Sum>i<4. unat (target_limbs diff1_target ! i) * (2 ^ 64) ^ i) = 0xffff * 256 ^ 26"
  using target_limbs_exact [of diff1_target] diff1_value by simp

end
