(* ===== verification/Reporting.thy ===== *)
theory Reporting
  imports Text
begin

text \<open>
  What the miner tells the user: the events and output modes of \<open>src/ipc.rs\<close>, the
  formatters and the share rate of \<open>src/stats.rs\<close>, the readings and the cached CPU
  temperature of \<open>src/telemetry.rs\<close>. NVML and the temperature probe itself are not modelled.
\<close>

section \<open>Definitions\<close>

subsection \<open>Telemetry readings\<close>

record Reading =
  rd_gpu_temp_c :: "u32 option"
  rd_gpu_fan_pct :: "u32 option"
  rd_gpu_power_w :: "f64 option"
  rd_cpu_temp_c :: "u32 option"

record GpuReport =
  rep_index :: u32
  rep_name :: string
  rep_power_w :: "f64 option"
  rep_limit_w :: "f64 option"
  rep_default_limit_w :: "f64 option"
  rep_max_limit_w :: "f64 option"
  rep_sm_mhz :: "u32 option"
  rep_max_sm_mhz :: "u32 option"
  rep_pcie :: "(u32 \<times> u32) option"
  rep_held_back_by :: "string list"

definition CPU_TEMP_REFRESH :: duration where
  "CPU_TEMP_REFRESH = from_secs 60"

record CpuTempCache =
  ctc_probed_at :: "instant option"
  ctc_value :: "u32 option"
  ctc_keep_probing :: bool

definition CpuTempCache_new :: CpuTempCache where
  "CpuTempCache_new = \<lparr>ctc_probed_at = None, ctc_value = None, ctc_keep_probing = True\<rparr>"

definition needs_probe :: "CpuTempCache \<Rightarrow> instant \<Rightarrow> bool" where
  "needs_probe c now =
     (case ctc_probed_at c of
        None \<Rightarrow> True
      | Some t \<Rightarrow> if \<not> ctc_keep_probing c then False else CPU_TEMP_REFRESH \<le> duration_since now t)"

definition record_temp :: "CpuTempCache \<Rightarrow> u32 option \<Rightarrow> instant \<Rightarrow> CpuTempCache" where
  "record_temp c value now =
     (let c = (if ctc_probed_at c = None \<and> value = None then c\<lparr>ctc_keep_probing := False\<rparr> else c)
      in c\<lparr>ctc_probed_at := Some now, ctc_value := value\<rparr>)"

text \<open>\<open>probe\<close> is what the PowerShell probe would return now.\<close>

definition read_cpu_temp :: "u32 option \<Rightarrow> instant \<Rightarrow> CpuTempCache \<Rightarrow> u32 option \<times> CpuTempCache" where
  "read_cpu_temp probe now cache =
     (let cache = (if needs_probe cache now then record_temp cache probe now else cache)
      in (ctc_value cache, cache))"

subsection \<open>Events and output\<close>

datatype StatusState = Connecting | Authorized | Mining | StatusError

datatype Event =
  Startup string string "string list" nat nat
| Pow string string
| Status StatusState string
| Log string
| EvStats f64 f64 f64 u64 u64 u64 f64 f64 f64 "f64 option" u64 "f64 option" f64 u32 "f64 option" Reading
| Share bool bool
| Block string
| NewBlockHeight u32 f64
| Tables nat u32 u64 bool "u32 option" "f64 option"
| Probe "string list" nat

text \<open>A line on stdout, a line on stderr, or an event as a JSON line on stdout.\<close>

datatype out_line = Out string | Err string | Json Event

definition emit :: "bool \<Rightarrow> Event \<Rightarrow> out_line list" where
  "emit json ev = (if \<not> json then [] else [Json ev])"

definition human :: "bool \<Rightarrow> string \<Rightarrow> out_line list" where
  "human json line = (if \<not> json then [Out line] else [])"

definition note_line :: "bool \<Rightarrow> string \<Rightarrow> out_line list" where
  "note_line json message = (if json then emit json (Log message) else [Out message])"

subsection \<open>Shares a minute\<close>

definition SHARE_RATE_WINDOW :: duration where
  "SHARE_RATE_WINDOW = from_secs 60"

type_synonym ShareRate = "(instant \<times> u64) list"

definition ShareRate_new :: "instant \<Rightarrow> u64 \<Rightarrow> ShareRate" where
  "ShareRate_new start accepted = [(start, accepted)]"

fun drop_old :: "instant \<Rightarrow> ShareRate \<Rightarrow> ShareRate" where
  "drop_old now (a # b # rest) =
     (if SHARE_RATE_WINDOW \<le> duration_since now (fst b) then drop_old now (b # rest) else a # b # rest)"
| "drop_old now samples = samples"

definition per_minute :: "ShareRate \<Rightarrow> instant \<Rightarrow> u64 \<Rightarrow> f64 \<times> ShareRate" where
  "per_minute samples now accepted =
     (let samples = drop_old now (samples @ [(now, accepted)]);
          (t0, a0) = hd samples;
          span = as_secs_f64 (duration_since now t0)
      in (if f64_le span (F_Fin 0) then F_Fin 0
          else f64_div (f64_mul (f64_of_nat (unat (sat_sub accepted a0))) (F_Fin 60)) span,
          samples))"

subsection \<open>Formatting\<close>

definition format_difficulty :: "f64 \<Rightarrow> string" where
  "format_difficulty d =
     (if f64_eq d (F_Fin 0) \<or> f64_le (f64_div (F_Fin 1) (F_Fin 10)) d then fmt_fixed 3 d else fmt_exp 2 d)"

definition format_pool_rtt :: "f64 option \<Rightarrow> string" where
  "format_pool_rtt ms =
     (case ms of
        Some ms \<Rightarrow> if f64_le (F_Fin 10) ms then ''pool '' @ fmt_fixed 0 ms @ '' ms''
                   else ''pool '' @ fmt_fixed 1 ms @ '' ms''
      | None \<Rightarrow> ''pool -'')"

definition format_shares :: "u64 \<Rightarrow> f64 \<Rightarrow> u64 \<Rightarrow> u64 \<Rightarrow> string" where
  "format_shares accepted per_min stale rejected =
     dec (unat accepted) @ '' ok ('' @ fmt_fixed 1 per_min @ ''/min), '' @ dec (unat stale) @
     '' stale, '' @ dec (unat (sat_sub rejected stale)) @ '' rejected''"

definition format_best_share :: "f64 \<Rightarrow> f64 \<Rightarrow> string" where
  "format_best_share best needed =
     (if f64_le best (F_Fin 0) then ''-''
      else if f64_le needed (F_Fin 0) then format_difficulty best
      else let pct = f64_mul (f64_div best needed) (F_Fin 100);
               pct = (if f64_le (f64_div (F_Fin 1) (F_Fin 100)) pct then fmt_fixed 2 pct @ ''%''
                      else fmt_exp 1 pct @ ''%'')
           in format_difficulty best @ '' of '' @ format_difficulty needed @ '' ('' @ pct @ '')'')"

fun format_units :: "f64 \<Rightarrow> (string \<times> rat) list \<Rightarrow> string" where
  "format_units rate [] = fmt_fixed 0 rate @ '' H/s''"
| "format_units rate ((unit, factor) # us) =
     (if f64_le (F_Fin factor) rate then fmt_fixed 2 (f64_div rate (F_Fin factor)) @ '' '' @ unit
      else format_units rate us)"

definition format_hashrate :: "f64 \<Rightarrow> string" where
  "format_hashrate rate =
     format_units rate [(''TH/s'', 10 ^ 12), (''GH/s'', 10 ^ 9), (''MH/s'', 10 ^ 6), (''kH/s'', 10 ^ 3)]"

definition format_duration :: "f64 \<Rightarrow> string" where
  "format_duration secs =
     (if \<not> f64_is_finite secs then ''never''
      else let s = f64_to_uint 64 secs
           in if s \<le> 59 then dec s @ ''s''
              else if s \<le> 3599 then dec (s div 60) @ ''m '' @ dec (s mod 60) @ ''s''
              else if s \<le> 86399 then dec (s div 3600) @ ''h '' @ dec (s mod 3600 div 60) @ ''m''
              else dec (s div 86400) @ ''d '' @ dec (s mod 86400 div 3600) @ ''h'')"

definition format_gpu_report :: "GpuReport \<Rightarrow> string" where
  "format_gpu_report r =
     (let parts = (case (rep_power_w r, rep_limit_w r) of
                     (Some p, Some l) \<Rightarrow> [fmt_fixed 0 p @ '' of '' @ fmt_fixed 0 l @ '' W'']
                   | (Some p, None) \<Rightarrow> [fmt_fixed 0 p @ '' W'']
                   | (None, Some l) \<Rightarrow> [''limit '' @ fmt_fixed 0 l @ '' W'']
                   | (None, None) \<Rightarrow> []);
          range = List.map_filter (\<lambda>(what, w). map_option (\<lambda>w. what @ '' '' @ fmt_fixed 0 w) w)
                    [(''default'', rep_default_limit_w r), (''max'', rep_max_limit_w r)];
          parts = (if range \<noteq> [] \<and> rep_limit_w r \<noteq> None
                   then butlast parts @
                        [(if parts = [] then '''' else last parts) @ '' ('' @ join '', '' range @ '')'']
                   else parts);
          parts = parts @ (case (rep_sm_mhz r, rep_max_sm_mhz r) of
                     (Some c, Some m) \<Rightarrow> [''SM '' @ dec (unat c) @ '' of '' @ dec (unat m) @ '' MHz'']
                   | (Some c, None) \<Rightarrow> [''SM '' @ dec (unat c) @ '' MHz'']
                   | _ \<Rightarrow> []);
          parts = parts @ (case rep_pcie r of
                     Some (gen, width) \<Rightarrow> [''PCIe gen '' @ dec (unat gen) @ '' x'' @ dec (unat width)]
                   | None \<Rightarrow> []);
          parts = parts @ [if rep_held_back_by r = [] then ''clock held back by nothing''
                           else ''held back by '' @ join '', '' (rep_held_back_by r)]
      in ''NVML '' @ dec (unat (rep_index r)) @ '' '' @ rep_name r @ '': '' @ join '', '' parts)"

end
