(* ===== verification/Shared_State.thy ===== *)
theory Shared_State
  imports Consensus Reporting
begin

text \<open>
  \<open>src/shared.rs\<close>: the state the stratum client, the workers and the reporter share. A
  \<open>Shared\<close> is one record; every method is a function from it to the one it leaves behind.
  An atomic is the word it holds and wraps as it does; the submit channel is the list of the
  shares waiting in it. \<open>Instant::now()\<close> is an argument (\<open>now\<close>); what the process prints is
  appended to \<open>sh_out\<close>. The CPU checks of \<open>src/worker.rs\<close> the status needs come first.
  The condition variable is a step relation (\<open>wait_step\<close>) at the end of the definitions.
\<close>

section \<open>Definitions\<close>

subsection \<open>Which proofs of work the CPU can hash\<close>

text \<open>
  The process: JSON mode, BC3Hash (None in a build without it), what \<open>bc3hash::initialize()\<close>
  returns, and what \<open>bc3hash::status()\<close> returns now (None while it is still being set up).
\<close>

record Env =
  env_json :: bool
  env_bc3 :: "PowFn option"
  env_initialize :: "string + unit"
  env_status :: "(string + unit) option"

definition bc3hash_unavailable :: "Env \<Rightarrow> bool \<Rightarrow> string option" where
  "bc3hash_unavailable env wait =
     (case env_bc3 env of
        None \<Rightarrow> Some ''this build of the miner has no BC3Hash - update the miner''
      | Some _ \<Rightarrow>
          (case (if wait then Some (env_initialize env) else env_status env) of
             Some (Inl e) \<Rightarrow> Some e
           | Some (Inr _) \<Rightarrow> None
           | None \<Rightarrow> None))"

fun cpu_unavailable :: "Env \<Rightarrow> PowAlgo \<Rightarrow> bool \<Rightarrow> string option" where
  "cpu_unavailable env Bc3Hash wait = bc3hash_unavailable env wait"
| "cpu_unavailable env _ wait =
     Some ''the job's version lacks bit 11 (0x800), and BC3Hash is the only proof of work this miner mines''"

definition cpu_supports :: "Env \<Rightarrow> PowAlgo \<Rightarrow> bool" where
  "cpu_supports env algo \<longleftrightarrow> hash_fn (env_bc3 env) algo \<noteq> None \<and> cpu_unavailable env algo True = None"

definition cpu_may_support :: "Env \<Rightarrow> PowAlgo \<Rightarrow> bool" where
  "cpu_may_support env algo \<longleftrightarrow>
     hash_fn (env_bc3 env) algo \<noteq> None \<and> cpu_unavailable env algo False = None"

subsection \<open>Jobs and shares\<close>

record MinerJob =
  job_id :: string
  job_extranonce1 :: bytes
  job_extranonce2_size :: nat
  job_coinb1 :: bytes
  job_coinb2 :: bytes
  job_merkle_steps :: "bytes list"
  job_version :: u32
  job_prev_hash :: bytes
  job_bits :: u32
  job_ntime :: u32
  job_share_target :: Target
  job_height :: "u32 option"
  job_algo :: PowAlgo

definition SUBMIT_QUEUE :: nat where
  "SUBMIT_QUEUE = 4096"

definition same_search_space :: "MinerJob \<Rightarrow> MinerJob \<Rightarrow> bool" where
  "same_search_space self other \<longleftrightarrow>
     job_extranonce1 self = job_extranonce1 other \<and>
     job_extranonce2_size self = job_extranonce2_size other \<and>
     job_coinb1 self = job_coinb1 other \<and>
     job_coinb2 self = job_coinb2 other \<and>
     job_merkle_steps self = job_merkle_steps other \<and>
     job_version self = job_version other \<and>
     job_prev_hash self = job_prev_hash other \<and>
     job_bits self = job_bits other \<and>
     job_ntime self = job_ntime other"

record FoundShare =
  fs_job_id :: string
  fs_extranonce2 :: bytes
  fs_ntime :: u32
  fs_nonce :: u32
  fs_hash_display :: string
  fs_is_block_candidate :: bool

subsection \<open>The shared state\<close>

record Stats =
  st_hashes :: u64
  st_gpu_hashes :: u64
  st_cpu_hashes :: u64
  st_accepted :: u64
  st_rejected :: u64
  st_stale :: u64
  st_blocks :: u64
  st_network_bits :: u32
  st_job_height :: u32
  st_dropped_submits :: u64
  st_gpu_workers_alive :: u32
  st_pool_rtt_us :: u64

definition Stats_default :: Stats where
  "Stats_default = \<lparr>st_hashes = 0, st_gpu_hashes = 0, st_cpu_hashes = 0, st_accepted = 0,
     st_rejected = 0, st_stale = 0, st_blocks = 0, st_network_bits = 0, st_job_height = 0,
     st_dropped_submits = 0, st_gpu_workers_alive = 0, st_pool_rtt_us = 0\<rparr>"

record BestShare =
  bs_difficulty :: f64
  bs_network_difficulty :: f64
  bs_found :: instant

record PowState =
  ps_algo :: "PowAlgo option"
  ps_best :: "BestShare option"

record MiningPlan =
  pl_gpus :: nat
  pl_cpu_threads :: nat
  pl_cpu_fallback_threads :: nat
  pl_gpu_kernel :: "bool list"

record Shared =
  sh_job :: "MinerJob option"
  sh_intensity :: u32
  sh_gpu_queue :: u32
  sh_generation :: u64
  sh_stats :: Stats
  sh_submit :: "FoundShare list"
  sh_submit_cap :: nat
  sh_submit_open :: bool
  sh_plan :: MiningPlan
  sh_pow :: PowState
  sh_gpu_capable :: "u32 list"
  sh_gpu_slot_claims :: "u32 list"
  sh_gpu_slot_claimed_at :: "u64 list"
  sh_gpu_slot_stalled :: "u64 list"
  sh_job_since :: u64
  sh_gpus_opened :: u32
  sh_bc3_window :: u32
  sh_bc3_window_set :: bool
  sh_gpu_slot_hashes :: "u64 list"
  sh_gpu_slot_bc3 :: "u32 list"
  sh_gpu_slot_stamp :: "u64 list"
  sh_gpu_slot_busy_us :: "u64 list"
  sh_started :: instant
  sh_out :: "out_line list"

definition DEFAULT_BC3_WINDOW :: u32 where
  "DEFAULT_BC3_WINDOW = 16"

definition BC3_SLOT_FAILED :: u32 where
  "BC3_SLOT_FAILED = 1"

definition Shared_new :: "nat \<Rightarrow> MiningPlan \<Rightarrow> instant \<Rightarrow> Shared" where
  "Shared_new cap plan now =
     \<lparr>sh_job = None, sh_intensity = 100, sh_gpu_queue = - 1, sh_generation = 0,
      sh_stats = Stats_default, sh_submit = [], sh_submit_cap = cap, sh_submit_open = True,
      sh_plan = plan, sh_pow = \<lparr>ps_algo = None, ps_best = None\<rparr>,
      sh_gpu_capable = replicate 3 0,
      sh_gpu_slot_claims = replicate (pl_gpus plan) 0,
      sh_gpu_slot_claimed_at = replicate (pl_gpus plan) 0,
      sh_gpu_slot_stalled = replicate (pl_gpus plan) 0,
      sh_job_since = 0, sh_gpus_opened = 0,
      sh_bc3_window = DEFAULT_BC3_WINDOW, sh_bc3_window_set = False,
      sh_gpu_slot_hashes = replicate (pl_gpus plan) 0,
      sh_gpu_slot_bc3 = replicate (pl_gpus plan) 0,
      sh_gpu_slot_stamp = replicate (pl_gpus plan) 0,
      sh_gpu_slot_busy_us = replicate (pl_gpus plan) 0,
      sh_started = now, sh_out = []\<rparr>"

definition print_lines :: "out_line list \<Rightarrow> Shared \<Rightarrow> Shared" where
  "print_lines ls s = s\<lparr>sh_out := sh_out s @ ls\<rparr>"

definition now_us :: "Shared \<Rightarrow> instant \<Rightarrow> u64" where
  "now_us s now = word_of_nat (as_micros (duration_since now (sh_started s)))"

text \<open>Dropping a \<open>GpuWorkerAlive\<close>.\<close>

definition GpuWorkerAlive_drop :: "Shared \<Rightarrow> Shared" where
  "GpuWorkerAlive_drop s =
     s\<lparr>sh_stats := (sh_stats s)\<lparr>st_gpu_workers_alive := st_gpu_workers_alive (sh_stats s) - 1\<rparr>\<rparr>"

subsection \<open>Where a proof of work is mined\<close>

record PowDevices =
  dev_gpu :: bool
  dev_cpu :: bool

definition label :: "PowDevices \<Rightarrow> string" where
  "label d =
     (case (dev_gpu d, dev_cpu d) of
        (True, True) \<Rightarrow> ''gpu+cpu''
      | (True, False) \<Rightarrow> ''gpu''
      | (False, True) \<Rightarrow> ''cpu''
      | (False, False) \<Rightarrow> ''none'')"

definition plan_devices_for :: "Env \<Rightarrow> MiningPlan \<Rightarrow> PowAlgo \<Rightarrow> bool \<Rightarrow> PowDevices" where
  "plan_devices_for env p algo gpu =
     \<lparr>dev_gpu = gpu,
      dev_cpu = (cpu_may_support env algo \<and>
        (0 < pl_cpu_threads p \<or> 0 < pl_cpu_fallback_threads p \<and> \<not> gpu))\<rparr>"

definition plan_status :: "Env \<Rightarrow> MiningPlan \<Rightarrow> PowAlgo \<Rightarrow> bool \<Rightarrow> bool \<times> string" where
  "plan_status env p algo gpu =
     (let name = algo_name algo;
          d = plan_devices_for env p algo gpu
      in if dev_gpu d \<and> dev_cpu d then (True, name @ '': mining on GPU and CPU'')
         else if dev_gpu d then (True, name @ '': mining on GPU'')
         else if dev_cpu d then
           (if pl_gpu_kernel p ! index algo
            then (True, name @ '': mining on CPU - the GPU is not ready for it, or failed its self-test'')
            else (True, name @ '': mining on CPU''))
         else if \<not> cpu_may_support env algo
         then (False, name @ '': NOT mining - '' @
                 (case cpu_unavailable env algo False of Some why \<Rightarrow> why | None \<Rightarrow> []))
         else (False, name @ '': NOT mining - no GPU mines it and no CPU threads are running. Use '' @
                 ''--backend auto, or add --threads N''))"

definition stalled_claims :: "Shared \<Rightarrow> nat \<Rightarrow> u32" where
  "stalled_claims s i =
     word_of_nat (length (filter (\<lambda>(stalled, claims). stalled \<noteq> 0 \<and> claims AND push_bit i 1 \<noteq> 0)
       (zip (sh_gpu_slot_stalled s) (sh_gpu_slot_claims s))))"

definition gpus_mine :: "Shared \<Rightarrow> PowAlgo \<Rightarrow> bool" where
  "gpus_mine s algo \<longleftrightarrow> stalled_claims s (index algo) < sh_gpu_capable s ! index algo"

definition current_algo :: "Shared \<Rightarrow> PowAlgo option" where
  "current_algo s = ps_algo (sh_pow s)"

definition gpus_starting :: "Shared \<Rightarrow> bool" where
  "gpus_starting s \<longleftrightarrow> unat (sh_gpus_opened s) < pl_gpus (sh_plan s)"

definition devices_for :: "Env \<Rightarrow> Shared \<Rightarrow> PowAlgo \<Rightarrow> PowDevices" where
  "devices_for env s algo = plan_devices_for env (sh_plan s) algo (gpus_mine s algo)"

definition status :: "Env \<Rightarrow> Shared \<Rightarrow> PowAlgo \<Rightarrow> bool \<times> string" where
  "status env s algo =
     (let gpu = gpus_mine s algo
      in if \<not> gpu \<and> pl_gpu_kernel (sh_plan s) ! index algo \<and> gpus_starting s
         then let name = algo_name algo
              in if dev_cpu (plan_devices_for env (sh_plan s) algo False)
                 then (True, name @ '': mining on CPU until the GPU is ready'')
                 else (True, name @ '': waiting for the GPU to start'')
         else plan_status env (sh_plan s) algo gpu)"

definition announce :: "Env \<Rightarrow> PowAlgo \<Rightarrow> Shared \<Rightarrow> Shared" where
  "announce env algo s =
     (let (mining, message) = status env s algo;
          js = env_json env
      in print_lines
           ((if mining then human js (''[miner] '' @ message) else [Err (''[miner] '' @ message)]) @
            emit js (Pow (algo_name algo) (label (devices_for env s algo))) @
            emit js (Status (if mining then Mining else StatusError) message)) s)"

text \<open>\<open>nudge\<close>: with the job they already have, under a new generation. Its \<open>notify_all\<close> is in \<open>wait_step\<close>.\<close>

definition nudge :: "Shared \<Rightarrow> Shared" where
  "nudge s = (if sh_job s = None then s else s\<lparr>sh_generation := sh_generation s + 1\<rparr>)"

definition capability_changed :: "Env \<Rightarrow> PowAlgo \<Rightarrow> Shared \<Rightarrow> Shared" where
  "capability_changed env algo s =
     (if current_algo s = Some algo then nudge (announce env algo s) else s)"

subsection \<open>Claims of the GPU workers\<close>

record GpuCapability =
  cap_slot :: nat
  cap_held :: "bool list"

definition GpuCapability_new :: "nat \<Rightarrow> GpuCapability" where
  "GpuCapability_new slot = \<lparr>cap_slot = slot, cap_held = replicate 3 False\<rparr>"

text \<open>The atomics \<open>set\<close> changes, before it tells anyone.\<close>

definition claim_store :: "nat \<Rightarrow> nat \<Rightarrow> bool \<Rightarrow> instant \<Rightarrow> Shared \<Rightarrow> Shared" where
  "claim_store slot i capable now s =
     (let s = (case list_get (sh_gpu_slot_claims s) slot of
                 None \<Rightarrow> s
               | Some claims \<Rightarrow>
                   if capable
                   then s\<lparr>sh_gpu_slot_claimed_at := (sh_gpu_slot_claimed_at s)[slot := now_us s now],
                          sh_gpu_slot_claims := (sh_gpu_slot_claims s)[slot := claims OR push_bit i 1]\<rparr>
                   else s\<lparr>sh_gpu_slot_claims := (sh_gpu_slot_claims s)[slot := claims AND NOT (push_bit i 1)]\<rparr>);
          n = sh_gpu_capable s ! i
      in s\<lparr>sh_gpu_capable := (sh_gpu_capable s)[i := if capable then n + 1 else n - 1]\<rparr>)"

definition set_capability ::
  "Env \<Rightarrow> instant \<Rightarrow> PowAlgo \<Rightarrow> bool \<Rightarrow> GpuCapability \<Rightarrow> Shared \<Rightarrow> GpuCapability \<times> Shared" where
  "set_capability env now algo capable c s =
     (let i = index algo
      in if cap_held c ! i = capable then (c, s)
         else (c\<lparr>cap_held := (cap_held c)[i := capable]\<rparr>,
               capability_changed env algo (claim_store (cap_slot c) i capable now s)))"

definition GpuCapability_drop :: "Env \<Rightarrow> instant \<Rightarrow> GpuCapability \<Rightarrow> Shared \<Rightarrow> GpuCapability \<times> Shared" where
  "GpuCapability_drop env now c s =
     fold (\<lambda>algo (c, s). set_capability env now algo False c s) PowAlgo_ALL (c, s)"

definition GPU_STALL_SECS :: nat where
  "GPU_STALL_SECS = 90"

datatype GpuStall = Stalled nat u64 | Resumed nat

text \<open>The body of the loop of \<open>check_gpu_stalls\<close>, for one slot.\<close>

definition check_slot ::
  "PowAlgo option \<Rightarrow> bool \<Rightarrow> u64 \<Rightarrow> u64 \<Rightarrow> u64 \<Rightarrow> nat \<Rightarrow> Shared \<times> GpuStall list \<Rightarrow> Shared \<times> GpuStall list"
where
  "check_slot algo has_job job_since now limit slot = (\<lambda>(s, changes).
     let claims = sh_gpu_slot_claims s ! slot;
         stamp = sh_gpu_slot_stamp s ! slot;
         since = sh_gpu_slot_stalled s ! slot
     in if since \<noteq> 0
        then (if since < stamp \<or> claims = 0
              then (s\<lparr>sh_gpu_slot_stalled := (sh_gpu_slot_stalled s)[slot := 0]\<rparr>,
                    if claims \<noteq> 0 then changes @ [Resumed slot] else changes)
              else (s, changes))
        else (case algo of
                None \<Rightarrow> (s, changes)
              | Some a \<Rightarrow>
                  if \<not> has_job \<or> claims AND push_bit (index a) 1 = 0 then (s, changes)
                  else let last_us = max (max stamp (sh_gpu_slot_claimed_at s ! slot)) job_since
                       in if limit < sat_sub now last_us
                          then (s\<lparr>sh_gpu_slot_stalled := (sh_gpu_slot_stalled s)[slot := max now 1]\<rparr>,
                                changes @ [Stalled slot ((now - last_us) div 1000000)])
                          else (s, changes)))"

definition check_gpu_stalls :: "Env \<Rightarrow> u64 \<Rightarrow> u64 \<Rightarrow> Shared \<Rightarrow> Shared \<times> GpuStall list" where
  "check_gpu_stalls env now limit s =
     (let algo = current_algo s;
          has_job = (sh_job s \<noteq> None);
          job_since = sh_job_since s;
          (s, changes) = fold (check_slot algo has_job job_since now limit)
                              [0..<length (sh_gpu_slot_stalled s)] (s, [])
      in (if changes \<noteq> [] then (case algo of Some a \<Rightarrow> capability_changed env a s | None \<Rightarrow> s) else s,
          changes))"

definition gpu_opened :: "Env \<Rightarrow> Shared \<Rightarrow> Shared" where
  "gpu_opened env s =
     (let s = s\<lparr>sh_gpus_opened := sh_gpus_opened s + 1\<rparr>
      in case current_algo s of
           Some algo \<Rightarrow> if \<not> gpus_mine s algo then announce env algo s else s
         | None \<Rightarrow> s)"

definition set_bc3_window :: "u32 \<Rightarrow> Shared \<Rightarrow> Shared" where
  "set_bc3_window window s = s\<lparr>sh_bc3_window_set := True, sh_bc3_window := window\<rparr>"

subsection \<open>Shares, round trips, intensity\<close>

definition record_share :: "instant \<Rightarrow> PowAlgo \<Rightarrow> f64 \<Rightarrow> u32 \<Rightarrow> bool \<Rightarrow> Shared \<Rightarrow> Shared" where
  "record_share now algo difficulty bits is_block s =
     (let pow = sh_pow s
      in if (case ps_algo pow of Some current \<Rightarrow> current \<noteq> algo | None \<Rightarrow> False) then s
         else let s = (if is_block
                       then s\<lparr>sh_stats := (sh_stats s)\<lparr>st_blocks := st_blocks (sh_stats s) + 1\<rparr>\<rparr> else s)
              in if f64_lt (case ps_best pow of None \<Rightarrow> F_Fin 0 | Some b \<Rightarrow> bs_difficulty b) difficulty
                 then s\<lparr>sh_pow := pow\<lparr>ps_best := Some \<lparr>bs_difficulty = difficulty,
                          bs_network_difficulty = difficulty_of_bits bits, bs_found = now\<rparr>\<rparr>\<rparr>
                 else s)"

definition best_share :: "Shared \<Rightarrow> BestShare option" where
  "best_share s = ps_best (sh_pow s)"

definition record_pool_rtt :: "duration \<Rightarrow> Shared \<Rightarrow> Shared" where
  "record_pool_rtt rtt s =
     s\<lparr>sh_stats := (sh_stats s)\<lparr>st_pool_rtt_us := word_of_nat (clamp 1 (2 ^ 64 - 1) (as_micros rtt))\<rparr>\<rparr>"

definition pool_rtt_ms :: "Shared \<Rightarrow> f64 option" where
  "pool_rtt_ms s =
     (let us = st_pool_rtt_us (sh_stats s)
      in if us = 0 then None else Some (f64_div (f64_of_nat (unat us)) (F_Fin 1000)))"

definition set_intensity :: "u32 \<Rightarrow> Shared \<Rightarrow> Shared" where
  "set_intensity percent s = s\<lparr>sh_intensity := clamp 1 100 percent\<rparr>"

definition set_gpu_queue :: "u32 \<Rightarrow> Shared \<Rightarrow> Shared" where
  "set_gpu_queue launches s = s\<lparr>sh_gpu_queue := max launches 1\<rparr>"

text \<open>\<open>QUEUE_DEPTH\<close> of \<open>src/backend/mod.rs\<close>.\<close>

definition QUEUE_DEPTH :: nat where
  "QUEUE_DEPTH = 2"

definition gpu_queue :: "Shared \<Rightarrow> nat" where
  "gpu_queue s = (if sh_intensity s < 100 then 1 else clamp 1 QUEUE_DEPTH (unat (sh_gpu_queue s)))"

definition throttle_idle :: "u32 \<Rightarrow> duration \<Rightarrow> duration" where
  "throttle_idle pct worked =
     mul_f64 worked (f64_div (f64_of_nat (unat (100 - pct))) (f64_of_nat (unat pct)))"

text \<open>
  The idle loop over what it observes, the clock and the generation at each turn: the sleeps it
  takes before it returns, or None when the observations end first.
\<close>

fun throttle_loop :: "duration \<Rightarrow> instant \<Rightarrow> u64 \<Rightarrow> (instant \<times> u64) list \<Rightarrow> duration list option" where
  "throttle_loop idle deadline gen [] = None"
| "throttle_loop idle deadline gen ((now, g) # obs) =
     (if \<not> now < deadline then Some []
      else if g \<noteq> gen then Some []
      else map_option (Cons (min (from_millis 5) idle)) (throttle_loop idle deadline gen obs))"

definition throttle :: "Shared \<Rightarrow> duration \<Rightarrow> instant \<Rightarrow> (instant \<times> u64) list \<Rightarrow> duration list option" where
  "throttle s worked now obs =
     (let pct = sh_intensity s
      in if 100 \<le> pct then Some []
         else let idle = throttle_idle pct worked
              in throttle_loop idle (now + idle) (sh_generation s) obs)"

subsection \<open>Jobs in and out\<close>

definition note_pow :: "Env \<Rightarrow> PowAlgo \<Rightarrow> Shared \<Rightarrow> Shared" where
  "note_pow env algo s =
     (let pow = sh_pow s
      in if ps_algo pow = Some algo then s
         else let pow = (if ps_algo pow \<noteq> None then pow\<lparr>ps_best := None\<rparr> else pow)
              in announce env algo (s\<lparr>sh_pow := pow\<lparr>ps_algo := Some algo\<rparr>\<rparr>))"

definition note_height :: "Env \<Rightarrow> MinerJob \<Rightarrow> Shared \<Rightarrow> Shared" where
  "note_height env job s =
     (case job_height job of
        None \<Rightarrow> s
      | Some h \<Rightarrow>
          let prev = st_job_height (sh_stats s);
              s = s\<lparr>sh_stats := (sh_stats s)\<lparr>st_job_height := h\<rparr>\<rparr>
          in if prev \<noteq> h
             then let difficulty = difficulty_of_bits (job_bits job)
                  in print_lines
                       (emit (env_json env) (NewBlockHeight h difficulty) @
                        human (env_json env) (''[pool] now working on block #'' @ dec (unat h) @
                          '', difficulty '' @ format_difficulty difficulty)) s
             else s)"

text \<open>The part of \<open>publish_job\<close> under the job lock, and the whole; \<open>notify_all\<close> is in \<open>wait_step\<close>.\<close>

definition publish_locked :: "instant \<Rightarrow> MinerJob \<Rightarrow> Shared \<Rightarrow> Shared" where
  "publish_locked now job s =
     (let s = (if sh_job s = None then s\<lparr>sh_job_since := now_us s now\<rparr> else s)
      in s\<lparr>sh_job := Some job, sh_generation := sh_generation s + 1\<rparr>)"

definition publish_job :: "Env \<Rightarrow> instant \<Rightarrow> MinerJob \<Rightarrow> Shared \<Rightarrow> Shared" where
  "publish_job env now job s =
     (let s = s\<lparr>sh_stats := (sh_stats s)\<lparr>st_network_bits := job_bits job\<rparr>\<rparr>;
          s = note_height env job s;
          s = note_pow env (job_algo job) s
      in publish_locked now job s)"

definition clear_locked :: "Shared \<Rightarrow> Shared" where
  "clear_locked s = s\<lparr>sh_job := None\<rparr>"

definition clear_bump :: "Shared \<Rightarrow> Shared" where
  "clear_bump s = s\<lparr>sh_generation := sh_generation s + 1\<rparr>"

definition clear_job :: "Shared \<Rightarrow> Shared" where
  "clear_job s = clear_bump (clear_locked s)"

text \<open>\<open>try_send\<close> on the bounded channel, then what \<open>submit\<close> does about a failure.\<close>

definition try_send :: "FoundShare \<Rightarrow> Shared \<Rightarrow> Shared option" where
  "try_send share s =
     (if sh_submit_open s \<and> length (sh_submit s) < sh_submit_cap s
      then Some (s\<lparr>sh_submit := sh_submit s @ [share]\<rparr>) else None)"

definition submit :: "FoundShare \<Rightarrow> Shared \<Rightarrow> Shared" where
  "submit share s =
     (case try_send share s of
        Some s' \<Rightarrow> s'
      | None \<Rightarrow>
          let n = st_dropped_submits (sh_stats s) + 1;
              s = s\<lparr>sh_stats := (sh_stats s)\<lparr>st_dropped_submits := n\<rparr>\<rparr>
          in if n = 1
             then print_lines [Err (''[miner] submit queue full - dropping shares. The pool difficulty is '' @
                    ''too low for this hashrate; it should retarget shortly.'')] s
             else s)"

subsection \<open>The gate in front of a worker's hashing loop\<close>

type_synonym AlgoGate = "PowAlgo option"

definition gate_check ::
  "AlgoGate \<Rightarrow> PowAlgo \<Rightarrow> string option \<Rightarrow> (PowAlgo \<Rightarrow> bool) \<Rightarrow> AlgoGate \<times> PowAlgo option \<times> out_line list"
where
  "gate_check warned algo worker supports =
     (if supports algo then (None, Some algo, [])
      else if warned \<noteq> Some algo
      then (Some algo, None,
            case worker of
              Some w \<Rightarrow> [Err (''[miner] '' @ w @ '' has no '' @ algo_name algo @
                              '' implementation - idle until a job it can hash'')]
            | None \<Rightarrow> [])
      else (warned, None, []))"

subsection \<open>Waiting for a job\<close>

text \<open>
  One turn of the loops of \<open>wait_for_job_after\<close> and \<open>wait_for_job\<close>, with the lock held: what
  they return, or None when they go on to wait on the condition variable.
\<close>

definition wait_for_job_after :: "u64 \<Rightarrow> Shared \<Rightarrow> (u64 \<times> MinerJob) option" where
  "wait_for_job_after seen s =
     (let generation = sh_generation s
      in if generation \<noteq> seen then map_option (Pair generation) (sh_job s) else None)"

definition wait_for_job :: "Shared \<Rightarrow> (u64 \<times> MinerJob) option" where
  "wait_for_job s = map_option (Pair (sh_generation s)) (sh_job s)"

definition wait_poll :: "u64 option \<Rightarrow> Shared \<Rightarrow> (u64 \<times> MinerJob) option" where
  "wait_poll seen s = (case seen of Some g \<Rightarrow> wait_for_job_after g s | None \<Rightarrow> wait_for_job s)"

text \<open>
  The threads around the job lock. The stratum thread is between calls, has published and not
  yet notified, or has cleared the job and not yet bumped the generation (\<open>clear_job\<close> does
  that after releasing the lock); \<open>ws_nudges\<close> counts the nudges that have not notified yet; a
  worker runs, is about to check under the lock, waits, or has a job.
\<close>

datatype stratum_pc = P_Idle | P_Notify | P_Bump

datatype worker_pc = W_Run | W_Check "u64 option" | W_Wait "u64 option" | W_Got u64 MinerJob

record WaitState =
  ws_shared :: Shared
  ws_stratum :: stratum_pc
  ws_nudges :: nat
  ws_workers :: "nat \<Rightarrow> worker_pc"

fun wake :: "worker_pc \<Rightarrow> worker_pc" where
  "wake (W_Wait seen) = W_Check seen"
| "wake pc = pc"

definition notify_all :: "WaitState \<Rightarrow> WaitState" where
  "notify_all w = w\<lparr>ws_workers := wake \<circ> ws_workers w\<rparr>"

definition check_under_lock :: "u64 option \<Rightarrow> Shared \<Rightarrow> worker_pc" where
  "check_under_lock seen s =
     (case wait_poll seen s of Some (g, j) \<Rightarrow> W_Got g j | None \<Rightarrow> W_Wait seen)"

inductive wait_step :: "WaitState \<Rightarrow> WaitState \<Rightarrow> bool" where
  publish: "ws_stratum w = P_Idle \<Longrightarrow>
    wait_step w (w\<lparr>ws_shared := publish_job env now job (ws_shared w), ws_stratum := P_Notify\<rparr>)"
| publish_notify: "ws_stratum w = P_Notify \<Longrightarrow>
    wait_step w ((notify_all w)\<lparr>ws_stratum := P_Idle\<rparr>)"
| clear: "ws_stratum w = P_Idle \<Longrightarrow>
    wait_step w (w\<lparr>ws_shared := clear_locked (ws_shared w), ws_stratum := P_Bump\<rparr>)"
| clear_end: "ws_stratum w = P_Bump \<Longrightarrow>
    wait_step w (w\<lparr>ws_shared := clear_bump (ws_shared w), ws_stratum := P_Idle\<rparr>)"
| nudge: "sh_job (ws_shared w) \<noteq> None \<Longrightarrow>
    wait_step w (w\<lparr>ws_shared := nudge (ws_shared w), ws_nudges := ws_nudges w + 1\<rparr>)"
| nudge_notify: "0 < ws_nudges w \<Longrightarrow>
    wait_step w ((notify_all w)\<lparr>ws_nudges := ws_nudges w - 1\<rparr>)"
| call: "ws_workers w t \<in> {W_Run} \<union> {W_Got g j | g j. True} \<Longrightarrow>
    wait_step w (w\<lparr>ws_workers := (ws_workers w)(t := W_Check seen)\<rparr>)"
| check: "ws_workers w t = W_Check seen \<Longrightarrow>
    wait_step w (w\<lparr>ws_workers := (ws_workers w)(t := check_under_lock seen (ws_shared w))\<rparr>)"
| spurious: "ws_workers w t = W_Wait seen \<Longrightarrow>
    wait_step w (w\<lparr>ws_workers := (ws_workers w)(t := W_Check seen)\<rparr>)"

definition wait_init :: "Shared \<Rightarrow> WaitState" where
  "wait_init s = \<lparr>ws_shared = s, ws_stratum = P_Idle, ws_nudges = 0, ws_workers = \<lambda>_. W_Run\<rparr>"

section \<open>Lemmas\<close>

lemma index_less [simp]: "index a < 3"
  by (cases a) simp_all

lemma index_inj [simp]: "index a = index b \<longleftrightarrow> a = b"
  by (cases a; cases b) simp_all

subsection \<open>No wakeup is lost\<close>

text \<open>
  A cleared job stays cleared until its generation is bumped; a waiting worker that could go on
  has a notification on its way.
\<close>

definition wait_inv :: "WaitState \<Rightarrow> bool" where
  "wait_inv w \<longleftrightarrow>
     (ws_stratum w = P_Bump \<longrightarrow> sh_job (ws_shared w) = None) \<and>
     (\<forall>t seen. ws_workers w t = W_Wait seen \<longrightarrow> wait_poll seen (ws_shared w) \<noteq> None \<longrightarrow>
        ws_stratum w = P_Notify \<or> 0 < ws_nudges w)"

lemma wake_not_waiting [simp]: "wake pc \<noteq> W_Wait seen"
  by (cases pc) simp_all

lemma wait_poll_None_job: "sh_job s = None \<Longrightarrow> wait_poll seen s = None"
  by (simp add: wait_poll_def wait_for_job_def wait_for_job_after_def Let_def split: option.splits)

lemma check_under_lock_waits:
  "check_under_lock seen s = W_Wait seen' \<longleftrightarrow> seen' = seen \<and> wait_poll seen s = None"
  by (auto simp: check_under_lock_def split: option.splits)

lemma wait_inv_step: "wait_step w w' \<Longrightarrow> wait_inv w \<Longrightarrow> wait_inv w'"
proof (induction rule: wait_step.induct)
  case (clear w)
  then show ?case by (simp add: wait_inv_def clear_locked_def wait_poll_None_job)
next
  case (clear_end w)
  then have "sh_job (clear_bump (ws_shared w)) = None" by (simp add: wait_inv_def clear_bump_def)
  then show ?case by (simp add: wait_inv_def wait_poll_None_job)
next
  case (nudge w)
  then show ?case by (auto simp: wait_inv_def nudge_def)
next
  case (check w t seen)
  then show ?case by (auto simp: wait_inv_def check_under_lock_waits)
qed (auto simp: wait_inv_def notify_all_def split: if_splits)

lemma wait_inv_reachable: "wait_step\<^sup>*\<^sup>* (wait_init s) w \<Longrightarrow> wait_inv w"
proof (induction rule: rtranclp_induct)
  case base
  then show ?case by (simp add: wait_inv_def wait_init_def)
next
  case (step y z)
  then show ?case by (blast intro: wait_inv_step)
qed

subsection \<open>Claims\<close>

text \<open>The vectors of a \<open>Shared\<close> as \<open>Shared::new\<close> sizes them.\<close>

definition shared_wf :: "Shared \<Rightarrow> bool" where
  "shared_wf s \<longleftrightarrow>
     (let n = pl_gpus (sh_plan s)
      in n < 2 ^ 32 \<and> length (sh_gpu_capable s) = 3 \<and> length (sh_gpu_slot_claims s) = n \<and>
         length (sh_gpu_slot_claimed_at s) = n \<and> length (sh_gpu_slot_stalled s) = n \<and>
         length (sh_gpu_slot_stamp s) = n \<and> length (sh_submit s) \<le> sh_submit_cap s \<and>
         1 \<le> sh_intensity s \<and> sh_intensity s \<le> 100)"

text \<open>
  With \<open>held k\<close> what the worker of slot \<open>k\<close> holds: the counters count the holders, and a
  slot's claims are the bits its worker holds.
\<close>

definition claims_inv :: "(nat \<Rightarrow> bool list) \<Rightarrow> Shared \<Rightarrow> bool" where
  "claims_inv held s \<longleftrightarrow>
     shared_wf s \<and>
     (\<forall>i<3. unat (sh_gpu_capable s ! i) = card {k. k < pl_gpus (sh_plan s) \<and> held k ! i}) \<and>
     (\<forall>k<pl_gpus (sh_plan s). length (held k) = 3 \<and>
        (\<forall>i. bit (sh_gpu_slot_claims s ! k) i \<longleftrightarrow> i < 3 \<and> held k ! i))"

text \<open>What telling the user and nudging leave alone.\<close>

lemma capability_changed_fields [simp]:
  "sh_plan (capability_changed env a s) = sh_plan s"
  "sh_gpu_capable (capability_changed env a s) = sh_gpu_capable s"
  "sh_gpu_slot_claims (capability_changed env a s) = sh_gpu_slot_claims s"
  "sh_gpu_slot_claimed_at (capability_changed env a s) = sh_gpu_slot_claimed_at s"
  "sh_gpu_slot_stalled (capability_changed env a s) = sh_gpu_slot_stalled s"
  "sh_gpu_slot_stamp (capability_changed env a s) = sh_gpu_slot_stamp s"
  "sh_submit (capability_changed env a s) = sh_submit s"
  "sh_submit_cap (capability_changed env a s) = sh_submit_cap s"
  "sh_intensity (capability_changed env a s) = sh_intensity s"
  "sh_job (capability_changed env a s) = sh_job s"
  "sh_pow (capability_changed env a s) = sh_pow s"
  by (simp_all add: capability_changed_def nudge_def announce_def print_lines_def split_def Let_def)

lemma claims_inv_capability_changed [simp]:
  "claims_inv held (capability_changed env a s) \<longleftrightarrow> claims_inv held s"
  by (simp add: claims_inv_def shared_wf_def)

lemma bit_clear_push: "bit (x AND NOT (push_bit i 1)) j \<longleftrightarrow> bit x j \<and> j \<noteq> i"
  for x :: "'a::len word"
  by (auto simp: bit_simps dest: bit_imp_le_length)

lemma bit_set_push: "bit (x OR push_bit i 1) j \<longleftrightarrow> bit x j \<or> j = i \<and> i < LENGTH('a)"
  for x :: "'a::len word"
  by (auto simp: bit_simps)

lemma and_push_bit_iff: "x AND push_bit i 1 = 0 \<longleftrightarrow> \<not> bit x i" for x :: "'a::len word"
  by (metis and_exp_eq_0_iff_not_bit push_bit_of_1)

lemma holders_insert:
  assumes "k < n" and "\<not> P k" and "P' = (\<lambda>j. j = k \<or> P j)"
  shows "card {j. j < n \<and> P' j} = Suc (card {j. j < (n :: nat) \<and> P j})"
proof -
  have "{j. j < n \<and> P' j} = insert k {j. j < n \<and> P j}" using assms by auto
  with assms(2) show ?thesis by simp
qed

lemma card_holders_le: "card {j. j < (n :: nat) \<and> P j} \<le> n"
proof -
  have "card {j. j < n \<and> P j} \<le> card {..<n}" by (intro card_mono) auto
  then show ?thesis by simp
qed

lemma claim_store_inv:
  assumes inv: "claims_inv held s" and k: "k < pl_gpus (sh_plan s)" and i: "i < 3"
    and old: "held k ! i = (\<not> capable)"
  shows "claims_inv (held(k := (held k)[i := capable])) (claim_store k i capable now s)"
proof -
  let ?n = "pl_gpus (sh_plan s)" and ?held = "held(k := (held k)[i := capable])"
  let ?s = "claim_store k i capable now s"
  have wf: "shared_wf s" and cnt: "\<And>i. i < 3 \<Longrightarrow> unat (sh_gpu_capable s ! i) = card {k. k < ?n \<and> held k ! i}"
    and bits: "\<And>k. k < ?n \<Longrightarrow> length (held k) = 3 \<and> (\<forall>i. bit (sh_gpu_slot_claims s ! k) i \<longleftrightarrow> i < 3 \<and> held k ! i)"
    using inv by (simp_all add: claims_inv_def)
  have len: "length (sh_gpu_slot_claims s) = ?n" "length (sh_gpu_capable s) = 3" "?n < 2 ^ 32"
    using wf by (simp_all add: shared_wf_def Let_def)
  have claims: "sh_gpu_slot_claims ?s = (sh_gpu_slot_claims s)[k :=
      if capable then sh_gpu_slot_claims s ! k OR push_bit i 1 else sh_gpu_slot_claims s ! k AND NOT (push_bit i 1)]"
    and cap: "sh_gpu_capable ?s = (sh_gpu_capable s)[i :=
      if capable then sh_gpu_capable s ! i + 1 else sh_gpu_capable s ! i - 1]"
    and plan: "sh_plan ?s = sh_plan s"
    using k len by (auto simp: claim_store_def list_get_def Let_def)
  have "shared_wf ?s"
    using wf by (auto simp: shared_wf_def claim_store_def Let_def split: option.splits)
  moreover have "unat (sh_gpu_capable ?s ! j) = card {m. m < ?n \<and> ?held m ! j}" if j: "j < 3" for j
  proof (cases "j = i")
    case False
    then have "{m. m < ?n \<and> ?held m ! j} = {m. m < ?n \<and> held m ! j}" by auto
    with False show ?thesis using cnt j by (simp add: cap)
  next
    case True
    show ?thesis
    proof (cases capable)
      case True
      have "card {m. m < ?n \<and> ?held m ! i} = Suc (card {m. m < ?n \<and> held m ! i})"
        using old True k bits i by (intro holders_insert) auto
      moreover have "card {m. m < ?n \<and> ?held m ! i} \<le> ?n" by (rule card_holders_le)
      ultimately show ?thesis
        using cap \<open>j = i\<close> True i len cnt by (simp add: unat_add_no_overflow)
    next
      case False
      have "card {m. m < ?n \<and> held m ! i} = Suc (card {m. m < ?n \<and> ?held m ! i})"
        using old False k bits i by (intro holders_insert [where k = k]) auto
      moreover from this have "sh_gpu_capable s ! i \<noteq> 0" using cnt [OF i] by (metis nat.distinct(1) unat_0)
      then have "unat (sh_gpu_capable s ! i - 1) = unat (sh_gpu_capable s ! i) - 1" by (rule unat_minus_one)
      moreover have "sh_gpu_capable ?s ! i = sh_gpu_capable s ! i - 1" using cap False i len by simp
      ultimately show ?thesis using \<open>j = i\<close> cnt [OF i] by simp
    qed
  qed
  moreover have "length (?held m) = 3 \<and> (\<forall>j. bit (sh_gpu_slot_claims ?s ! m) j \<longleftrightarrow> j < 3 \<and> ?held m ! j)"
    if "m < ?n" for m
  proof (cases "m = k")
    case False
    then show ?thesis using bits [OF that] by (simp add: claims)
  next
    case True
    have "bit (sh_gpu_slot_claims ?s ! k) j \<longleftrightarrow> (if j = i then capable else bit (sh_gpu_slot_claims s ! k) j)" for j
      using k len i by (auto simp: claims bit_set_push bit_clear_push simp del: push_bit_of_1)
    with True show ?thesis using bits [OF k] i by (auto simp: nth_list_update)
  qed
  ultimately show ?thesis by (simp add: claims_inv_def plan)
qed

lemma set_capability_inv:
  assumes inv: "claims_inv held s" and k: "cap_slot c < pl_gpus (sh_plan s)"
    and held: "held (cap_slot c) = cap_held c" and res: "set_capability env now algo capable c s = (c', s')"
  shows "claims_inv (held(cap_slot c := cap_held c')) s' \<and> cap_slot c' = cap_slot c \<and>
    sh_plan s' = sh_plan s \<and> cap_held c' = (cap_held c)[index algo := capable]"
proof (cases "cap_held c ! index algo = capable")
  case True
  then have "c' = c" "s' = s" using res by (simp_all add: set_capability_def Let_def)
  moreover have "(cap_held c)[index algo := capable] = cap_held c"
    using list_update_id [of "cap_held c" "index algo"] by (simp add: True)
  ultimately show ?thesis using inv fun_upd_idem [of held, OF held] by simp
next
  case False
  then have c': "c' = c\<lparr>cap_held := (cap_held c)[index algo := capable]\<rparr>"
    and s': "s' = capability_changed env algo (claim_store (cap_slot c) (index algo) capable now s)"
    using res by (simp_all add: set_capability_def Let_def)
  from False held have "held (cap_slot c) ! index algo = (\<not> capable)" by auto
  from claim_store_inv [OF inv k index_less this] show ?thesis
    by (simp add: c' s' held claim_store_def Let_def split: option.splits)
qed

lemma GpuCapability_drop_inv:
  assumes "claims_inv held s" and "cap_slot c < pl_gpus (sh_plan s)"
    and "held (cap_slot c) = cap_held c" and "GpuCapability_drop env now c s = (c', s')"
  shows "claims_inv (held(cap_slot c := replicate 3 False)) s'"
proof -
  obtain c1 s1 where 1: "set_capability env now Sha256d False c s = (c1, s1)" by fastforce
  obtain c2 s2 where 2: "set_capability env now Sha3t False c1 s1 = (c2, s2)" by fastforce
  obtain c3 s3 where 3: "set_capability env now Bc3Hash False c2 s2 = (c3, s3)" by fastforce
  have eq: "c' = c3" "s' = s3" using assms(4) by (simp_all add: GpuCapability_drop_def PowAlgo_ALL_def 1 2 3)
  have "length (cap_held c) = 3" using assms(1-3) by (metis claims_inv_def)
  then obtain x y z where c: "cap_held c = [x, y, z]" by (auto simp: numeral_3_eq_3 length_Suc_conv)
  note i1 = set_capability_inv [OF assms(1-3) 1]
  then have "cap_slot c1 < pl_gpus (sh_plan s1)" using assms(2) by simp
  have k1: "cap_slot c1 = cap_slot c" using i1 by blast
  have "(held(cap_slot c := cap_held c1)) (cap_slot c1) = cap_held c1" by (simp add: k1)
  note i2 = set_capability_inv [OF i1 [THEN conjunct1] \<open>cap_slot c1 < _\<close> this 2]
  have h2: "claims_inv (held(cap_slot c := cap_held c2)) s2"
    using i2 [THEN conjunct1] by (simp only: k1 fun_upd_upd)
  have k2: "cap_slot c2 = cap_slot c" "sh_plan s2 = sh_plan s" and
    c2: "cap_held c2 = (cap_held c1)[1 := False]"
    using i1 i2 by simp_all
  have "cap_slot c2 < pl_gpus (sh_plan s2)" using assms(2) k2 by simp
  have "(held(cap_slot c := cap_held c2)) (cap_slot c2) = cap_held c2" by (simp add: k2)
  note i3 = set_capability_inv [OF h2 \<open>cap_slot c2 < _\<close> this 3]
  have h3: "claims_inv (held(cap_slot c := cap_held c3)) s3" using i3 [THEN conjunct1] k2
    by (simp only: k2 fun_upd_upd fun_upd_same)
  moreover have "cap_held c3 = replicate 3 False" using i1 i3 c2 k2 by (simp add: c numeral_2_eq_2 numeral_3_eq_3)
  ultimately show ?thesis by (simp only: eq)
qed

lemma gpus_mine_iff:
  assumes inv: "claims_inv held s"
  shows "gpus_mine s algo \<longleftrightarrow>
    (\<exists>k<pl_gpus (sh_plan s). held k ! index algo \<and> sh_gpu_slot_stalled s ! k = 0)"
proof -
  let ?n = "pl_gpus (sh_plan s)" and ?i = "index algo"
  define A B where "A = {k. k < ?n \<and> held k ! ?i}" and
    "B = {k. k < ?n \<and> sh_gpu_slot_stalled s ! k \<noteq> 0 \<and> held k ! ?i}"
  have len: "length (sh_gpu_slot_stalled s) = ?n" "length (sh_gpu_slot_claims s) = ?n" "?n < 2 ^ 32"
    and bits: "\<And>k. k < ?n \<Longrightarrow> bit (sh_gpu_slot_claims s ! k) ?i \<longleftrightarrow> held k ! ?i"
    and cnt: "unat (sh_gpu_capable s ! ?i) = card A"
    using inv by (simp_all add: claims_inv_def shared_wf_def Let_def A_def)
  let ?P = "\<lambda>(stalled, claims). stalled \<noteq> (0 :: u64) \<and> claims AND push_bit ?i 1 \<noteq> (0 :: u32)"
  have "length (filter ?P (zip (sh_gpu_slot_stalled s) (sh_gpu_slot_claims s))) =
      card {k. k < ?n \<and> ?P (zip (sh_gpu_slot_stalled s) (sh_gpu_slot_claims s) ! k)}"
    using len by (subst length_filter_conv_card) simp
  also have "{k. k < ?n \<and> ?P (zip (sh_gpu_slot_stalled s) (sh_gpu_slot_claims s) ! k)} = B"
    using len bits by (auto simp: B_def and_exp_eq_0_iff_not_bit)
  finally have "unat (stalled_claims s ?i) = card B"
    using card_holders_le [of ?n "\<lambda>k. sh_gpu_slot_stalled s ! k \<noteq> 0 \<and> held k ! ?i"] len(3)
    by (simp add: stalled_claims_def unat_of_nat B_def)
  then have "gpus_mine s algo \<longleftrightarrow> card B < card A"
    by (simp add: gpus_mine_def word_less_nat_alt cnt)
  also have "\<dots> \<longleftrightarrow> B \<subset> A"
  proof
    assume "card B < card A"
    moreover have "B \<subseteq> A" by (auto simp: A_def B_def)
    ultimately show "B \<subset> A" by auto
  next
    assume "B \<subset> A"
    then show "card B < card A" by (intro psubset_card_mono) (simp_all add: A_def)
  qed
  also have "\<dots> \<longleftrightarrow> (\<exists>k<?n. held k ! ?i \<and> sh_gpu_slot_stalled s ! k = 0)" by (auto simp: A_def B_def)
  finally show ?thesis .
qed

subsection \<open>Stalls\<close>

text \<open>What the check decides for one slot, read off the state it starts from.\<close>

definition idle_since :: "Shared \<Rightarrow> nat \<Rightarrow> u64" where
  "idle_since s k =
     max (max (sh_gpu_slot_stamp s ! k) (sh_gpu_slot_claimed_at s ! k)) (sh_job_since s)"

definition slot_stalled_after :: "u64 \<Rightarrow> u64 \<Rightarrow> Shared \<Rightarrow> nat \<Rightarrow> bool" where
  "slot_stalled_after now limit s k \<longleftrightarrow>
     (if sh_gpu_slot_stalled s ! k \<noteq> 0
      then \<not> sh_gpu_slot_stalled s ! k < sh_gpu_slot_stamp s ! k \<and> sh_gpu_slot_claims s ! k \<noteq> 0
      else sh_job s \<noteq> None \<and> limit < sat_sub now (idle_since s k) \<and>
           (\<exists>a. current_algo s = Some a \<and> bit (sh_gpu_slot_claims s ! k) (index a)))"

definition slot_value_after :: "u64 \<Rightarrow> u64 \<Rightarrow> Shared \<Rightarrow> nat \<Rightarrow> u64" where
  "slot_value_after now limit s k =
     (if slot_stalled_after now limit s k
      then if sh_gpu_slot_stalled s ! k \<noteq> 0 then sh_gpu_slot_stalled s ! k else max now 1
      else 0)"

definition slot_report :: "u64 \<Rightarrow> u64 \<Rightarrow> Shared \<Rightarrow> nat \<Rightarrow> GpuStall list" where
  "slot_report now limit s k =
     (if sh_gpu_slot_stalled s ! k = 0 \<and> slot_stalled_after now limit s k
      then [Stalled k ((now - idle_since s k) div 1000000)]
      else if sh_gpu_slot_stalled s ! k \<noteq> 0 \<and> \<not> slot_stalled_after now limit s k \<and> sh_gpu_slot_claims s ! k \<noteq> 0
      then [Resumed k] else [])"

lemma max_now_nonzero [simp]: "max now (1 :: u64) \<noteq> 0"
  by (metis linorder_not_less max.cobounded2 word_gt_0 zero_neq_one word_not_simps(1))

lemma slot_value_after_nonzero: "slot_value_after now limit s k \<noteq> 0 \<longleftrightarrow> slot_stalled_after now limit s k"
  by (simp add: slot_value_after_def)

lemma check_slot_eq:
  "check_slot (current_algo s) (sh_job s \<noteq> None) (sh_job_since s) now limit k (s, ch) =
     (s\<lparr>sh_gpu_slot_stalled := (sh_gpu_slot_stalled s)[k := slot_value_after now limit s k]\<rparr>,
      ch @ slot_report now limit s k)"
proof -
  have old: "s\<lparr>sh_gpu_slot_stalled := (sh_gpu_slot_stalled s)[k := v]\<rparr> = s"
    if "v = sh_gpu_slot_stalled s ! k" for v
    by (simp add: that)
  show ?thesis
    by (auto simp: check_slot_def Let_def slot_value_after_def slot_report_def slot_stalled_after_def
        idle_since_def and_exp_eq_0_iff_not_bit old split: option.splits)
qed

lemma fold_check_slot:
  assumes "distinct ks" and "set ks \<subseteq> {..<length (sh_gpu_slot_stalled s)}"
  shows "fold (check_slot (current_algo s) (sh_job s \<noteq> None) (sh_job_since s) now limit) ks (s, ch) =
    (s\<lparr>sh_gpu_slot_stalled := map (\<lambda>k. if k \<in> set ks then slot_value_after now limit s k
       else sh_gpu_slot_stalled s ! k) [0..<length (sh_gpu_slot_stalled s)]\<rparr>,
     ch @ concat (map (slot_report now limit s) ks))"
  using assms
proof (induction ks arbitrary: s ch)
  case Nil
  then show ?case by (simp add: map_nth)
next
  case (Cons k ks)
  let ?s = "s\<lparr>sh_gpu_slot_stalled := (sh_gpu_slot_stalled s)[k := slot_value_after now limit s k]\<rparr>"
  have k: "k < length (sh_gpu_slot_stalled s)" "k \<notin> set ks" using Cons.prems by simp_all
  have same: "slot_stalled_after now limit ?s j = slot_stalled_after now limit s j"
    "slot_value_after now limit ?s j = slot_value_after now limit s j"
    "slot_report now limit ?s j = slot_report now limit s j" if "j \<noteq> k" for j
    using that by (simp_all add: slot_stalled_after_def slot_value_after_def slot_report_def
        idle_since_def current_algo_def)
  have fields: "current_algo ?s = current_algo s" "sh_job ?s = sh_job s" "sh_job_since ?s = sh_job_since s"
    by (simp_all add: current_algo_def)
  have rep: "map (slot_report now limit ?s) ks = map (slot_report now limit s) ks"
    using k(2) by (intro map_cong refl same) auto
  have "fold (check_slot (current_algo s) (sh_job s \<noteq> None) (sh_job_since s) now limit) ks
      (?s, ch @ slot_report now limit s k) =
    (?s\<lparr>sh_gpu_slot_stalled := map (\<lambda>j. if j \<in> set ks then slot_value_after now limit ?s j
       else sh_gpu_slot_stalled ?s ! j) [0..<length (sh_gpu_slot_stalled ?s)]\<rparr>,
     (ch @ slot_report now limit s k) @ concat (map (slot_report now limit ?s) ks))"
    using Cons.IH [of ?s "ch @ slot_report now limit s k"] Cons.prems unfolding fields by simp
  moreover have "map (\<lambda>j. if j \<in> set ks then slot_value_after now limit ?s j
       else sh_gpu_slot_stalled ?s ! j) [0..<length (sh_gpu_slot_stalled ?s)] =
     map (\<lambda>j. if j \<in> set (k # ks) then slot_value_after now limit s j
       else sh_gpu_slot_stalled s ! j) [0..<length (sh_gpu_slot_stalled s)]"
    using k by (intro nth_equalityI) (auto intro!: same(2))
  ultimately show ?case
    by (simp only: fold_simps check_slot_eq rep append_assoc concat.simps list.map) simp
qed

lemma check_gpu_stalls_eq:
  assumes "check_gpu_stalls env now limit s = (s', changes)"
  shows "length (sh_gpu_slot_stalled s') = length (sh_gpu_slot_stalled s) \<and>
    (\<forall>k<length (sh_gpu_slot_stalled s). sh_gpu_slot_stalled s' ! k = slot_value_after now limit s k) \<and>
    changes = concat (map (slot_report now limit s) [0..<length (sh_gpu_slot_stalled s)]) \<and>
    sh_plan s' = sh_plan s \<and> (\<forall>held. claims_inv held s \<longrightarrow> claims_inv held s')"
proof -
  let ?n = "length (sh_gpu_slot_stalled s)"
  have f: "fold (check_slot (current_algo s) (sh_job s \<noteq> None) (sh_job_since s) now limit) [0..<?n] (s, []) =
    (s\<lparr>sh_gpu_slot_stalled := map (slot_value_after now limit s) [0..<?n]\<rparr>,
     concat (map (slot_report now limit s) [0..<?n]))"
    by (subst fold_check_slot) (auto intro!: map_cong)
  let ?s = "s\<lparr>sh_gpu_slot_stalled := map (slot_value_after now limit s) [0..<?n]\<rparr>"
  have changes: "changes = concat (map (slot_report now limit s) [0..<?n])"
    using assms unfolding check_gpu_stalls_def Let_def f by simp
  have "s' = ?s \<or> (\<exists>a. s' = capability_changed env a ?s)"
    using assms unfolding check_gpu_stalls_def Let_def f by (auto split: if_splits option.splits)
  moreover have "claims_inv held ?s" if "claims_inv held s" for held
    using that by (simp add: claims_inv_def shared_wf_def Let_def)
  ultimately show ?thesis using changes by (elim disjE exE) (simp_all del: length_concat)
qed

subsection \<open>Best share, submit queue, generations\<close>

definition best_difficulty :: "Shared \<Rightarrow> f64" where
  "best_difficulty s = (case best_share s of None \<Rightarrow> F_Fin 0 | Some b \<Rightarrow> bs_difficulty b)"

lemma f64_lt_total: "a \<noteq> F_NaN \<Longrightarrow> b \<noteq> F_NaN \<Longrightarrow> \<not> f64_lt a b \<Longrightarrow> f64_le b a"
  by (cases a; cases b) (auto simp: f64_le_def)

lemma f64_lt_trans: "f64_lt a b \<Longrightarrow> f64_lt b c \<Longrightarrow> f64_lt a c"
  by (cases a; cases b; cases c) auto

lemma f64_le_lt_trans: "f64_le a b \<Longrightarrow> f64_lt b c \<Longrightarrow> f64_lt a c"
  by (cases a; cases b; cases c) (auto simp: f64_le_def)

lemma f64_lt_not_NaN: "f64_lt a b \<Longrightarrow> a \<noteq> F_NaN \<and> b \<noteq> F_NaN"
  by (cases a; cases b) auto

type_synonym share_record = "instant \<times> f64 \<times> u32 \<times> bool"

definition record_all :: "PowAlgo \<Rightarrow> share_record list \<Rightarrow> Shared \<Rightarrow> Shared" where
  "record_all algo xs s = fold (\<lambda>(now, d, bits, blk). record_share now algo d bits blk) xs s"

lemma record_share_current:
  assumes "current_algo s = Some algo" and "best_difficulty s \<noteq> F_NaN" and "d \<noteq> F_NaN"
  shows "current_algo (record_share now algo d bits blk s) = Some algo \<and>
    best_difficulty (record_share now algo d bits blk s) =
      (if f64_lt (best_difficulty s) d then d else best_difficulty s) \<and>
    st_blocks (sh_stats (record_share now algo d bits blk s)) = st_blocks (sh_stats s) + of_bool blk"
  using assms by (auto simp: record_share_def current_algo_def best_difficulty_def best_share_def Let_def
      split: option.splits)

lemma record_all_best:
  assumes "current_algo s = Some algo" and "best_difficulty s \<noteq> F_NaN"
    and "\<And>x. x \<in> set xs \<Longrightarrow> fst (snd x) \<noteq> F_NaN"
  shows "f64_le (best_difficulty s) (best_difficulty (record_all algo xs s)) \<and>
    (\<forall>x\<in>set xs. f64_le (fst (snd x)) (best_difficulty (record_all algo xs s))) \<and>
    best_difficulty (record_all algo xs s) \<in> insert (best_difficulty s) ((\<lambda>x. fst (snd x)) ` set xs) \<and>
    st_blocks (sh_stats (record_all algo xs s)) =
      st_blocks (sh_stats s) + of_nat (length (filter (\<lambda>x. snd (snd (snd x))) xs))"
  using assms
proof (induction xs arbitrary: s)
  case Nil
  then show ?case by (cases "best_difficulty s") (auto simp: record_all_def f64_le_def)
next
  case (Cons x xs)
  obtain now d bits blk where x: "x = (now, d, bits, blk)" by (cases x)
  let ?s = "record_share now algo d bits blk s"
  have d: "d \<noteq> F_NaN" using Cons.prems(3) [of x] by (simp add: x)
  note r = record_share_current [OF Cons.prems(1,2) d, of now bits blk]
  then have nan: "best_difficulty ?s \<noteq> F_NaN" using Cons.prems(2) d by auto
  note IH = Cons.IH [OF r [THEN conjunct1] nan Cons.prems(3)]
  have all: "record_all algo (x # xs) s = record_all algo xs ?s" by (simp add: record_all_def x)
  have up: "f64_le (best_difficulty s) (best_difficulty ?s)" "f64_le d (best_difficulty ?s)"
    using r Cons.prems(2) d f64_lt_total [of "best_difficulty s" d]
    by (auto simp: f64_le_def) (metis f64.exhaust f64_eq.simps(2,3))+
  have trans: "f64_le a b \<Longrightarrow> f64_le b c \<Longrightarrow> f64_le a c" for a b c
    by (cases a; cases b; cases c) (auto simp: f64_le_def)
  have one: "best_difficulty ?s \<in> {best_difficulty s, d}" using r by simp
  let ?b = "best_difficulty (record_all algo xs ?s)"
  have sup: "f64_le (best_difficulty ?s) ?b" and
    rest: "\<forall>x\<in>set xs. f64_le (fst (snd x)) ?b" "?b \<in> insert (best_difficulty ?s) ((\<lambda>x. fst (snd x)) ` set xs)"
    using IH by simp_all
  have "?b \<in> insert (best_difficulty s) ((\<lambda>x. fst (snd x)) ` set (x # xs))"
    using one rest(2) by (auto simp: x)
  moreover have "st_blocks (sh_stats (record_all algo (x # xs) s)) =
      st_blocks (sh_stats s) + of_nat (length (filter (\<lambda>x. snd (snd (snd x))) (x # xs)))"
    using IH r unfolding all by (cases blk) (simp_all add: x comp_def)
  moreover have "f64_le (best_difficulty s) ?b" "f64_le d ?b" using up sup trans by blast+
  ultimately show ?case using rest(1) unfolding all by (auto simp: x)
qed

lemma publish_job_fields:
  "sh_job (publish_job env now job s) = Some job"
  "sh_generation (publish_job env now job s) = sh_generation s + 1"
  by (simp_all add: publish_job_def publish_locked_def note_pow_def note_height_def announce_def
      print_lines_def Let_def split_def split: option.splits)

text \<open>Publishing a job leaves the claims, the plan, the queue and the intensity alone.\<close>

lemma publish_job_frame:
  "sh_plan (publish_job env now job s) = sh_plan s"
  "sh_gpu_capable (publish_job env now job s) = sh_gpu_capable s"
  "sh_gpu_slot_claims (publish_job env now job s) = sh_gpu_slot_claims s"
  "sh_gpu_slot_claimed_at (publish_job env now job s) = sh_gpu_slot_claimed_at s"
  "sh_gpu_slot_stalled (publish_job env now job s) = sh_gpu_slot_stalled s"
  "sh_gpu_slot_stamp (publish_job env now job s) = sh_gpu_slot_stamp s"
  "sh_submit (publish_job env now job s) = sh_submit s"
  "sh_submit_cap (publish_job env now job s) = sh_submit_cap s"
  "sh_intensity (publish_job env now job s) = sh_intensity s"
  "current_algo (publish_job env now job s) = Some (job_algo job)"
  by (simp_all add: publish_job_def publish_locked_def note_pow_def note_height_def announce_def
      print_lines_def current_algo_def Let_def split_def split: option.splits)

lemma claims_inv_publish_job [simp]: "claims_inv held (publish_job env now job s) \<longleftrightarrow> claims_inv held s"
  by (simp add: claims_inv_def shared_wf_def publish_job_frame)

section \<open>Properties\<close>

text \<open>
  C1. In every interleaving of a stratum thread that publishes and clears jobs, GPU and main
  threads that nudge, and workers that wait: a worker asleep on the condition variable although
  a job it would take is there has a \<open>notify_all\<close> still coming. So once nobody is in the
  middle of a call, no worker sleeps through a job, although \<open>clear_job\<close> bumps the generation
  outside the lock and without a notification.
\<close>

theorem no_lost_wakeup:
  assumes "wait_step\<^sup>*\<^sup>* (wait_init s) w"
    and "ws_workers w t = W_Wait seen" and "wait_poll seen (ws_shared w) = Some r"
  shows "ws_stratum w = P_Notify \<or> 0 < ws_nudges w"
  using wait_inv_reachable [OF assms(1)] assms(2,3) by (auto simp: wait_inv_def)

definition demo_job :: MinerJob where
  "demo_job = \<lparr>job_id = ''1'', job_extranonce1 = [0, 0, 0, 1], job_extranonce2_size = 4,
     job_coinb1 = replicate 41 0, job_coinb2 = [0], job_merkle_steps = [], job_version = 0x20001800,
     job_prev_hash = replicate 32 0, job_bits = 0x1d00ffff, job_ntime = 0,
     job_share_target = replicate 32 0xff, job_height = None, job_algo = Bc3Hash\<rparr>"

definition demo_env :: Env where
  "demo_env = \<lparr>env_json = False, env_bc3 = Some (\<lambda>_. replicate 32 0), env_initialize = Inr (),
     env_status = Some (Inr ())\<rparr>"

definition demo_shared :: Shared where
  "demo_shared = Shared_new SUBMIT_QUEUE
     \<lparr>pl_gpus = 2, pl_cpu_threads = 0, pl_cpu_fallback_threads = 4, pl_gpu_kernel = [False, False, True]\<rparr> 0"

theorem no_lost_wakeup_witness:
  "\<exists>w. wait_step\<^sup>*\<^sup>* (wait_init demo_shared) w \<and> ws_workers w 0 = W_Wait None \<and>
     wait_poll None (ws_shared w) = Some (1, demo_job) \<and> ws_stratum w = P_Notify"
proof -
  let ?w0 = "wait_init demo_shared"
  let ?w1 = "?w0\<lparr>ws_workers := (ws_workers ?w0)(0 := W_Check None)\<rparr>"
  let ?w2 = "?w1\<lparr>ws_workers := (ws_workers ?w1)(0 := check_under_lock None (ws_shared ?w1))\<rparr>"
  let ?w3 = "?w2\<lparr>ws_shared := publish_job demo_env 0 demo_job (ws_shared ?w2), ws_stratum := P_Notify\<rparr>"
  have job: "sh_job demo_shared = None" "sh_generation demo_shared = 0"
    by (simp_all add: demo_shared_def Shared_new_def)
  have c: "check_under_lock None demo_shared = W_Wait None"
    by (simp add: check_under_lock_def wait_poll_def wait_for_job_def job)
  have "wait_step ?w0 ?w1" by (rule wait_step.call) (simp add: wait_init_def)
  moreover have "wait_step ?w1 ?w2" by (rule wait_step.check) simp
  moreover have "wait_step ?w2 ?w3" by (rule wait_step.publish) (simp add: wait_init_def)
  ultimately have reach: "wait_step\<^sup>*\<^sup>* ?w0 ?w3" by (meson converse_rtranclp_into_rtranclp rtranclp.rtrancl_refl)
  have wait: "ws_workers ?w3 0 = W_Wait None" by (simp add: wait_init_def c)
  have poll: "wait_poll None (ws_shared ?w3) = Some (1, demo_job)"
    by (simp add: wait_init_def wait_poll_def wait_for_job_def publish_job_fields job)
  have "ws_stratum ?w3 = P_Notify"
    using no_lost_wakeup [OF reach wait poll] by (simp add: wait_init_def)
  with reach wait poll show ?thesis by blast
qed

text \<open>
  C2. While the claims are kept as the GPU workers set and drop them, \<open>gpus_mine\<close> is true exactly
  when some worker holds a claim on the PoW and the stall check has not set that card aside.
  Setting a claim, dropping a worker's claims and the stall check keep them so.
\<close>

theorem gpus_mine_exact:
  assumes "claims_inv held s" and "cap_slot c < pl_gpus (sh_plan s)" and "held (cap_slot c) = cap_held c"
  shows "(gpus_mine s algo \<longleftrightarrow>
      (\<exists>k<pl_gpus (sh_plan s). held k ! index algo \<and> sh_gpu_slot_stalled s ! k = 0)) \<and>
    (case set_capability env now algo capable c s of
       (c', s') \<Rightarrow> claims_inv (held(cap_slot c := (cap_held c)[index algo := capable])) s') \<and>
    claims_inv (held(cap_slot c := replicate 3 False)) (snd (GpuCapability_drop env now c s)) \<and>
    claims_inv held (fst (check_gpu_stalls env now_us' limit s))"
proof (intro conjI)
  obtain c' s' where r: "set_capability env now algo capable c s = (c', s')" by fastforce
  have "claims_inv (held(cap_slot c := cap_held c')) s'" "cap_held c' = (cap_held c)[index algo := capable]"
    using set_capability_inv [OF assms r] by blast+
  then show "case set_capability env now algo capable c s of
      (c', s') \<Rightarrow> claims_inv (held(cap_slot c := (cap_held c)[index algo := capable])) s'"
    by (simp add: r)
  show "claims_inv held (fst (check_gpu_stalls env now_us' limit s))"
    using check_gpu_stalls_eq [of env now_us' limit s] assms(1)
    by (cases "check_gpu_stalls env now_us' limit s") auto
  show "claims_inv (held(cap_slot c := replicate 3 False)) (snd (GpuCapability_drop env now c s))"
    using GpuCapability_drop_inv [OF assms, of env now] by (metis prod.collapse)
qed (rule gpus_mine_iff [OF assms(1)])

lemma demo_plan: "pl_gpus (sh_plan demo_shared) = 2"
  by (simp only: demo_shared_def Shared_new_def Shared.select_convs MiningPlan.select_convs)

lemma claims_inv_demo: "claims_inv (\<lambda>_. replicate 3 False) demo_shared"
proof -
  have f: "pl_gpus (sh_plan demo_shared) = 2" "sh_gpu_capable demo_shared = replicate 3 0"
    "sh_gpu_slot_claims demo_shared = replicate 2 0" "sh_gpu_slot_claimed_at demo_shared = replicate 2 0"
    "sh_gpu_slot_stalled demo_shared = replicate 2 0" "sh_gpu_slot_stamp demo_shared = replicate 2 0"
    "sh_submit demo_shared = []" "sh_intensity demo_shared = 100"
    by (simp_all only: demo_shared_def Shared_new_def Shared.select_convs MiningPlan.select_convs)
  show ?thesis unfolding claims_inv_def shared_wf_def Let_def f by simp
qed

theorem gpus_mine_exact_witness:
  "claims_inv ((\<lambda>_. replicate 3 False)(1 := (replicate 3 False)[2 := True]))
     (snd (set_capability demo_env 5 Bc3Hash True (GpuCapability_new 1) demo_shared))"
proof -
  have c: "cap_slot (GpuCapability_new 1) = 1" "cap_held (GpuCapability_new 1) = replicate 3 False"
    by (simp_all add: GpuCapability_new_def)
  have k: "cap_slot (GpuCapability_new 1) < pl_gpus (sh_plan demo_shared)"
    unfolding c demo_plan by simp
  show ?thesis
    using gpus_mine_exact [OF claims_inv_demo k c(2) [symmetric], where env = demo_env and now = 5
        and algo = Bc3Hash and capable = True]
    by (simp only: c split_def index.simps)
qed

text \<open>
  C33. After the stall check, with a job of PoW \<open>a\<close> out, the GPUs count as mining it exactly when
  some card that holds it is not idle: one not set aside has finished a launch, raised a claim
  or been given work no longer than the limit ago; one set aside has finished a launch since.
  The stand-in CPU threads take the job in every other case.
\<close>

theorem stall_check_hands_over:
  assumes "claims_inv held s" and "sh_job s \<noteq> None" and "current_algo s = Some a"
    and "check_gpu_stalls env now limit s = (s', changes)"
  shows "gpus_mine s' a \<longleftrightarrow>
    (\<exists>k<pl_gpus (sh_plan s). held k ! index a \<and>
       (if sh_gpu_slot_stalled s ! k \<noteq> 0 then sh_gpu_slot_stalled s ! k < sh_gpu_slot_stamp s ! k
        else unat now - unat (max (max (sh_gpu_slot_stamp s ! k) (sh_gpu_slot_claimed_at s ! k))
               (sh_job_since s)) \<le> unat limit))"
proof -
  let ?n = "pl_gpus (sh_plan s)"
  note eq = check_gpu_stalls_eq [OF assms(4)]
  have inv: "claims_inv held s'" and plan: "sh_plan s' = sh_plan s" using eq assms(1) by blast+
  have len: "length (sh_gpu_slot_stalled s) = ?n"
    using assms(1) by (simp add: claims_inv_def shared_wf_def Let_def)
  have slot: "sh_gpu_slot_stalled s' ! k = 0 \<longleftrightarrow>
      (if sh_gpu_slot_stalled s ! k \<noteq> 0 then sh_gpu_slot_stalled s ! k < sh_gpu_slot_stamp s ! k
       else unat now - unat (idle_since s k) \<le> unat limit)"
    if "k < ?n" and "held k ! index a" for k
  proof -
    have bit: "bit (sh_gpu_slot_claims s ! k) (index a)"
      using assms(1) that by (simp add: claims_inv_def)
    then have "sh_gpu_slot_claims s ! k \<noteq> 0" by auto
    then show ?thesis
      using eq len that assms(2,3) bit slot_value_after_nonzero [of now limit s k]
      by (auto simp: slot_stalled_after_def word_less_nat_alt unat_sat_sub)
  qed
  show ?thesis
    unfolding gpus_mine_iff [OF inv] plan idle_since_def [symmetric] using slot by blast
qed

theorem stall_check_hands_over_witness:
  "\<not> gpus_mine (fst (check_gpu_stalls demo_env 100000000 90000000
     (publish_job demo_env 0 demo_job demo_shared))) Bc3Hash"
proof -
  let ?s = "publish_job demo_env 0 demo_job demo_shared"
  have "claims_inv (\<lambda>_. replicate 3 False) ?s" using claims_inv_demo by simp
  moreover have "sh_job ?s \<noteq> None" by (simp add: publish_job_fields)
  moreover have "current_algo ?s = Some Bc3Hash" by (simp add: publish_job_frame demo_job_def)
  ultimately have "gpus_mine (fst (check_gpu_stalls demo_env 100000000 90000000 ?s)) Bc3Hash \<longleftrightarrow> False"
    using stall_check_hands_over [where s = ?s and a = Bc3Hash and held = "\<lambda>_. replicate 3 False"]
    by (cases "check_gpu_stalls demo_env 100000000 90000000 ?s") (simp add: publish_job_frame demo_plan)
  then show ?thesis by simp
qed

text \<open>
  Over any sequence of shares of the current PoW the best share ends at the highest difficulty
  recorded (or where it stood), the block counter counts the block candidates, and a share of
  another PoW changes nothing.
\<close>

theorem best_share_is_max:
  assumes "current_algo s = Some algo" and "best_difficulty s \<noteq> F_NaN"
    and "\<forall>x\<in>set xs. fst (snd x) \<noteq> F_NaN" and "other \<noteq> algo"
  shows "(\<forall>x\<in>set xs. f64_le (fst (snd x)) (best_difficulty (record_all algo xs s))) \<and>
    f64_le (best_difficulty s) (best_difficulty (record_all algo xs s)) \<and>
    best_difficulty (record_all algo xs s) \<in> insert (best_difficulty s) ((\<lambda>x. fst (snd x)) ` set xs) \<and>
    st_blocks (sh_stats (record_all algo xs s)) =
      st_blocks (sh_stats s) + of_nat (length (filter (\<lambda>x. snd (snd (snd x))) xs)) \<and>
    record_share now other d bits blk s = s"
  using record_all_best [OF assms(1,2)] assms(1,3,4)
  by (auto simp: record_share_def current_algo_def)

theorem best_share_is_max_witness:
  "best_difficulty (record_all Bc3Hash [(1, F_Fin 2, 0, False), (2, F_Fin 5, 0, True)]
     (note_pow demo_env Bc3Hash demo_shared)) \<in> {F_Fin 0, F_Fin 2, F_Fin 5}"
proof -
  let ?s = "note_pow demo_env Bc3Hash demo_shared"
  have "sh_pow demo_shared = \<lparr>ps_algo = None, ps_best = None\<rparr>"
    by (simp only: demo_shared_def Shared_new_def Shared.select_convs)
  then have "current_algo ?s = Some Bc3Hash" and best: "best_difficulty ?s = F_Fin 0"
    by (simp_all add: note_pow_def announce_def print_lines_def split_def Let_def current_algo_def
        best_difficulty_def best_share_def)
  from best_share_is_max [OF this(1), of "[(1, F_Fin 2, 0, False), (2, F_Fin 5, 0, True)]" Sha3t] best
  show ?thesis by simp
qed

text \<open>
  Publishing a job under any state makes it the one every worker gets, also one waiting for
  something newer than the generation before; clearing it leaves nothing to mine; a change of
  PoW, and only that, starts the best share over.
\<close>

theorem publish_supersedes:
  "wait_for_job_after (sh_generation s) (publish_job env now job s) = Some (sh_generation s + 1, job) \<and>
   wait_for_job (publish_job env now job s) = Some (sh_generation s + 1, job) \<and>
   wait_for_job (clear_job (publish_job env now job s)) = None \<and>
   sh_generation (clear_job s) \<noteq> sh_generation s \<and>
   best_share (publish_job env now job s) =
     (if current_algo s \<in> {None, Some (job_algo job)} then best_share s else None)"
proof -
  have "best_share (publish_job env now job s) =
      (if current_algo s \<in> {None, Some (job_algo job)} then best_share s else None)"
    by (auto simp: publish_job_def publish_locked_def note_pow_def note_height_def announce_def best_share_def
        print_lines_def current_algo_def Let_def split_def split: option.splits)
  then show ?thesis
    by (simp add: wait_for_job_after_def wait_for_job_def publish_job_fields clear_job_def clear_locked_def
        clear_bump_def Let_def)
qed

text \<open>
  Queueing a share never grows the queue past its bound and never reorders it: the share goes to
  the end, or it is counted as dropped and nothing else of the queue changes.
\<close>

theorem submit_bounded:
  assumes "length (sh_submit s) \<le> sh_submit_cap s"
  shows "length (sh_submit (submit share s)) \<le> sh_submit_cap (submit share s) \<and>
    (if sh_submit_open s \<and> length (sh_submit s) < sh_submit_cap s
     then sh_submit (submit share s) = sh_submit s @ [share] \<and> sh_stats (submit share s) = sh_stats s
     else sh_submit (submit share s) = sh_submit s \<and>
          st_dropped_submits (sh_stats (submit share s)) = st_dropped_submits (sh_stats s) + 1)"
  using assms by (auto simp: submit_def try_send_def print_lines_def Let_def)

theorem submit_bounded_witness:
  "length (sh_submit (submit \<lparr>fs_job_id = ''1'', fs_extranonce2 = [0], fs_ntime = 0, fs_nonce = 7,
     fs_hash_display = ''00'', fs_is_block_candidate = False\<rparr> demo_shared)) \<le> SUBMIT_QUEUE"
proof -
  have f: "sh_submit demo_shared = []" "sh_submit_cap demo_shared = SUBMIT_QUEUE" "sh_submit_open demo_shared"
    by (simp_all only: demo_shared_def Shared_new_def Shared.select_convs)
  show ?thesis
    using submit_bounded [of demo_shared "\<lparr>fs_job_id = ''1'', fs_extranonce2 = [0], fs_ntime = 0,
      fs_nonce = 7, fs_hash_display = ''00'', fs_is_block_candidate = False\<rparr>"]
    by (simp add: f SUBMIT_QUEUE_def)
qed

end
