(* ===== verification/Worker.thy ===== *)
theory Worker
  imports Shared_State
begin

text \<open>
  \<open>src/worker.rs\<close>: the CPU worker. Extranonce2 encoding and partitioning, the batch loop over
  the nonces, resuming after a job change, and the loop around it that decides what to mine.
  The \<open>sha2\<close> and \<open>hex\<close> crates are arguments (\<open>Crates\<close>). Other threads act on the shared
  state between two batches: an arbitrary function of the batch number (\<open>interfere\<close>).
  Release builds do not check overflow, so the plain additions wrap. \<open>throttle\<close> only lets time pass.
\<close>

section \<open>Definitions\<close>

record Crates =
  cr_sha256 :: "bytes \<Rightarrow> bytes"
  cr_hex_encode :: "bytes \<Rightarrow> string"

definition BATCH :: u32 where
  "BATCH = 4"

datatype CpuRole = Role_All | GpuFallback

fun takes :: "CpuRole \<Rightarrow> bool \<Rightarrow> bool" where
  "takes Role_All gpus = True"
| "takes GpuFallback gpus = (\<not> gpus)"

subsection \<open>Extranonce2\<close>

definition resume_point :: "u64 \<Rightarrow> u32 \<Rightarrow> bool \<Rightarrow> u64 \<Rightarrow> u64 \<times> u32" where
  "resume_point en2 next_nonce wrapped stride =
     (if wrapped then (sat_add en2 stride, 0) else (en2, next_nonce))"

definition en2_fits :: "u64 \<Rightarrow> nat \<Rightarrow> bool" where
  "en2_fits en2 sz \<longleftrightarrow> 8 \<le> sz \<or> en2 < push_bit (8 * sz) 1"

definition encode_extranonce2 :: "u64 \<Rightarrow> nat \<Rightarrow> bytes" where
  "encode_extranonce2 counter sz =
     (let bs = to_be_bytes 8 counter
      in if 8 \<le> sz then replicate (sz - 8) 0 @ bs else drop (8 - sz) bs)"

definition start_on :: "MinerJob option \<Rightarrow> MinerJob \<Rightarrow> nat \<Rightarrow> u64 \<Rightarrow> u32 \<Rightarrow> u64 \<times> u32" where
  "start_on prev job thread_id en2 nonce =
     (if (case prev of None \<Rightarrow> True | Some p \<Rightarrow> \<not> same_search_space p job)
      then (word_of_nat thread_id, 0) else (en2, nonce))"

subsection \<open>Hashing\<close>

definition coinbase_of :: "MinerJob \<Rightarrow> bytes \<Rightarrow> bytes" where
  "coinbase_of job extranonce2 = job_coinb1 job @ job_extranonce1 job @ extranonce2 @ job_coinb2 job"

text \<open>Coinbase, txid, merkle root and header of an extranonce2, the nonce bytes zero.\<close>

definition header_of :: "Crates \<Rightarrow> MinerJob \<Rightarrow> bytes \<Rightarrow> bytes" where
  "header_of cr job extranonce2 =
     (let cb_txid = sha256d (cr_sha256 cr) (coinbase_of job extranonce2);
          merkle_root = root_from_steps (cr_sha256 cr) cb_txid (job_merkle_steps job)
      in serialize \<lparr>hdr_version = job_version job, hdr_prev_hash = job_prev_hash job,
           hdr_merkle_root = merkle_root, hdr_time = job_ntime job, hdr_bits = job_bits job, hdr_nonce = 0\<rparr>)"

definition with_nonce :: "bytes \<Rightarrow> u32 \<Rightarrow> bytes" where
  "with_nonce header nonce = copy_at 76 (to_le_bytes 4 nonce) header"

definition is_block_hash :: "MinerJob \<Rightarrow> bytes \<Rightarrow> bool" where
  "is_block_hash job hash =
     (case compact_to_target (job_bits job) of Some t \<Rightarrow> hash_meets_target hash t | None \<Rightarrow> False)"

definition share_of :: "Crates \<Rightarrow> MinerJob \<Rightarrow> bytes \<Rightarrow> u32 \<Rightarrow> bytes \<Rightarrow> FoundShare" where
  "share_of cr job extranonce2 nonce hash =
     \<lparr>fs_job_id = job_id job, fs_extranonce2 = extranonce2, fs_ntime = job_ntime job, fs_nonce = nonce,
      fs_hash_display = hash_to_display (cr_hex_encode cr) hash,
      fs_is_block_candidate = is_block_hash job hash\<rparr>"

text \<open>One turn of the innermost loop; \<open>clock\<close> is the time each nonce is tried.\<close>

definition try_nonce ::
  "Crates \<Rightarrow> MinerJob \<Rightarrow> PowFn \<Rightarrow> (u32 \<Rightarrow> instant) \<Rightarrow> bytes \<Rightarrow> bytes \<Rightarrow> u32 \<Rightarrow> Shared \<Rightarrow> Shared" where
  "try_nonce cr job pow clock extranonce2 header nonce s =
     (let hash = pow (with_nonce header nonce)
      in if hash_meets_target hash (job_share_target job)
         then submit (share_of cr job extranonce2 nonce hash)
                (record_share (clock nonce) (job_algo job) (difficulty_of_hash hash) (job_bits job)
                   (is_block_hash job hash) s)
         else s)"

text \<open>The batch loop: at most \<open>left\<close> more nonces, stopping when the nonce wraps.\<close>

fun batch_loop :: "(u32 \<Rightarrow> Shared \<Rightarrow> Shared) \<Rightarrow> nat \<Rightarrow> u32 \<Rightarrow> u32 \<Rightarrow> Shared \<Rightarrow> u32 \<times> u32 \<times> Shared" where
  "batch_loop try 0 done nonce s = (done, nonce, s)"
| "batch_loop try (Suc left) done nonce s =
     (let s = try nonce s;
          done = done + 1;
          (next, wrapped) = overflowing_add nonce 1
      in if wrapped then (done, next, s) else batch_loop try left done next s)"

definition count_hashes :: "u32 \<Rightarrow> Shared \<Rightarrow> Shared" where
  "count_hashes done s =
     s\<lparr>sh_stats := (sh_stats s)\<lparr>st_hashes := st_hashes (sh_stats s) + ucast done,
                                st_cpu_hashes := st_cpu_hashes (sh_stats s) + ucast done\<rparr>\<rparr>"

text \<open>
  \<open>mine_job\<close>, batch by batch: \<open>fuel\<close> bounds the batches, \<open>k\<close> numbers them. The extranonce2
  check and the header are functions of the extranonce2 alone, so doing them at every batch is
  doing them once per extranonce2. Returns whether the space ran out, and where it stopped.
\<close>

fun mine_job ::
  "Crates \<Rightarrow> MinerJob \<Rightarrow> PowFn \<Rightarrow> (nat \<Rightarrow> u32 \<Rightarrow> instant) \<Rightarrow> u32 \<Rightarrow> u64 \<Rightarrow> nat \<Rightarrow> (nat \<Rightarrow> Shared \<Rightarrow> Shared) \<Rightarrow>
   nat \<Rightarrow> nat \<Rightarrow> u64 \<Rightarrow> u32 \<Rightarrow> Shared \<Rightarrow> (bool \<times> u64 \<times> u32 \<times> Shared) option" where
  "mine_job cr job pow clock batch generation num_threads interfere k 0 en2 nonce s = None"
| "mine_job cr job pow clock batch generation num_threads interfere k (Suc fuel) en2 nonce s =
     (if \<not> en2_fits en2 (job_extranonce2_size job) then Some (True, en2, nonce, s)
      else let extranonce2 = encode_extranonce2 en2 (job_extranonce2_size job);
               header = header_of cr job extranonce2;
               (done, nonce, s) = batch_loop (try_nonce cr job pow (clock k) extranonce2 header)
                                    (unat batch) 0 nonce s;
               s = count_hashes done s;
               s = interfere k s
           in if sh_generation s \<noteq> generation
              then let (e, n) = resume_point en2 nonce (nonce = 0) (word_of_nat num_threads)
                   in Some (False, e, n, s)
              else if nonce = 0
              then mine_job cr job pow clock batch generation num_threads interfere (k + 1) fuel
                     (en2 + word_of_nat num_threads) 0 s
              else mine_job cr job pow clock batch generation num_threads interfere (k + 1) fuel en2 nonce s)"

subsection \<open>The worker loop\<close>

record CpuWorker =
  cw_prev :: "MinerJob option"
  cw_en2 :: u64
  cw_nonce :: u32
  cw_gate :: AlgoGate
  cw_sat_out :: "u64 option"

definition CpuWorker_new :: "nat \<Rightarrow> CpuWorker" where
  "CpuWorker_new thread_id = \<lparr>cw_prev = None, cw_en2 = word_of_nat thread_id, cw_nonce = 0, cw_gate = None,
     cw_sat_out = None\<rparr>"

definition worker_label :: "nat \<Rightarrow> string option" where
  "worker_label thread_id = (if thread_id = 0 then Some (''CPU thread '' @ dec thread_id) else None)"

text \<open>
  One turn of \<open>run_worker\<close>: None while the wait it starts with (\<open>wait_poll\<close> on \<open>cw_sat_out\<close>)
  has nothing to return, or when the batches exceed \<open>fuel\<close>.
\<close>

definition run_worker_turn ::
  "Env \<Rightarrow> Crates \<Rightarrow> (nat \<Rightarrow> u32 \<Rightarrow> instant) \<Rightarrow> nat \<Rightarrow> nat \<Rightarrow> CpuRole \<Rightarrow> (nat \<Rightarrow> Shared \<Rightarrow> Shared) \<Rightarrow> nat \<Rightarrow>
   CpuWorker \<Rightarrow> Shared \<Rightarrow> (CpuWorker \<times> Shared) option" where
  "run_worker_turn env cr clock thread_id num_threads role interfere fuel w s =
     (case wait_poll (cw_sat_out w) s of
        None \<Rightarrow> None
      | Some (generation, job) \<Rightarrow>
          let w = w\<lparr>cw_sat_out := None\<rparr>
          in if \<not> takes role (gpus_mine s (job_algo job))
             then Some (w\<lparr>cw_sat_out := Some generation\<rparr>, s)
             else let (gate, algo, lines) = gate_check (cw_gate w) (job_algo job) (worker_label thread_id)
                                              (cpu_supports env);
                      w = w\<lparr>cw_gate := gate\<rparr>;
                      s = print_lines lines s
                  in case Option.bind algo (hash_fn (env_bc3 env)) of
                       None \<Rightarrow> Some (w\<lparr>cw_sat_out := Some generation\<rparr>, s)
                     | Some pow \<Rightarrow>
                         let (en2, nonce) = start_on (cw_prev w) job thread_id (cw_en2 w) (cw_nonce w)
                         in case mine_job cr job pow clock BATCH generation num_threads interfere 0 fuel en2 nonce s of
                              None \<Rightarrow> None
                            | Some (exhausted, en2, nonce, s) \<Rightarrow>
                                let s = (if exhausted
                                         then (case worker_label thread_id of
                                                 Some l \<Rightarrow> print_lines [Err (''[miner] '' @ l @ '': searched all '' @
                                                   dec (job_extranonce2_size job) @
                                                   ''-byte extranonce2 values of this job - idle '' @
                                                   ''until the next one'')] s
                                               | None \<Rightarrow> s)
                                         else s);
                                    w = (if exhausted then w\<lparr>cw_sat_out := Some generation\<rparr> else w)
                                in Some (w\<lparr>cw_prev := Some job, cw_en2 := en2, cw_nonce := nonce\<rparr>, s))"

section \<open>Lemmas\<close>

subsection \<open>The extranonce2 space and its owners\<close>

text \<open>
  What a worker relies on: encodings of counters that fit have the job's length and differ.
  The lemmas are what the partition by stride gives every set of workers.
\<close>

locale search_partition =
  fixes encode :: "u64 \<Rightarrow> nat \<Rightarrow> bytes" and fits :: "u64 \<Rightarrow> nat \<Rightarrow> bool"
  assumes encode_length: "length (encode c sz) = sz"
    and encode_inj: "fits c sz \<Longrightarrow> fits d sz \<Longrightarrow> encode c sz = encode d sz \<Longrightarrow> c = d"
begin

lemma owners_disjoint:
  assumes "fits c sz" and "fits d sz" and "unat c mod n \<noteq> unat d mod n"
  shows "encode c sz \<noteq> encode d sz"
  using assms encode_inj by blast

lemma coinbases_differ:
  assumes "fits c sz" and "fits d sz" and "c \<noteq> d"
  shows "pre @ encode c sz @ post \<noteq> pre @ encode d sz @ post"
  using assms encode_inj by (auto simp: encode_length)

end

lemma length_encode_extranonce2 [simp, bytes_simps]: "length (encode_extranonce2 c sz) = sz"
  by (simp add: encode_extranonce2_def Let_def)

lemma en2_fits_unat: "en2_fits c sz \<longleftrightarrow> 8 \<le> sz \<or> unat c < 256 ^ sz"
proof (cases "8 \<le> sz")
  case False
  then have "8 * sz < 64" by simp
  then have "(2::nat) ^ (8 * sz) < 2 ^ 64" by (rule power_strict_increasing) simp
  then have "unat (word_of_nat (2 ^ (8 * sz)) :: u64) = 2 ^ (8 * sz)" by (simp only: unat_of_nat) simp
  then have "unat (push_bit (8 * sz) 1 :: u64) = 2 ^ (8 * sz)" by simp
  then show ?thesis using False by (simp add: en2_fits_def word_less_nat_alt power_mult)
qed (simp add: en2_fits_def)

lemma be_val_encode:
  assumes "en2_fits c sz"
  shows "be_val (encode_extranonce2 c sz) = unat c"
proof (cases "8 \<le> sz")
  case True
  moreover have "unat c < 256 ^ 8" using unsigned_less [of c, where 'a = nat] by simp
  ultimately show ?thesis
    by (simp add: encode_extranonce2_def Let_def be_val_append be_val_to_be_bytes)
next
  case False
  let ?b = "to_be_bytes 8 c"
  have c: "unat c < 256 ^ sz" using assms False by (simp add: en2_fits_unat)
  have "be_val ?b = unat c"
    using unsigned_less [of c, where 'a = nat] by (simp add: be_val_to_be_bytes)
  moreover have "be_val ?b = be_val (take (8 - sz) ?b) * 256 ^ sz + be_val (drop (8 - sz) ?b)"
    using be_val_append [of "take (8 - sz) ?b" "drop (8 - sz) ?b"] False by simp
  moreover have "be_val (drop (8 - sz) ?b) < 256 ^ sz"
    using be_val_bound [of "drop (8 - sz) ?b"] False by simp
  ultimately have "be_val (drop (8 - sz) ?b) = unat c mod 256 ^ sz"
    by (metis mod_less mod_mult_self3)
  with False c show ?thesis by (simp add: encode_extranonce2_def Let_def)
qed

interpretation en2: search_partition encode_extranonce2 en2_fits
proof
  fix c d sz
  assume "en2_fits c sz" and "en2_fits d sz" and "encode_extranonce2 c sz = encode_extranonce2 d sz"
  then show "c = d" by (metis be_val_encode word_unat_eq_iff)
qed simp

subsection \<open>A batch\<close>

definition batch_len :: "nat \<Rightarrow> u32 \<Rightarrow> nat" where
  "batch_len n nonce = min n (2 ^ 32 - unat nonce)"

definition nonces :: "u32 \<Rightarrow> nat \<Rightarrow> u32 list" where
  "nonces start count = map (\<lambda>i. start + word_of_nat i) [0..<count]"

lemma nonces_Suc: "nonces start (Suc n) = start # nonces (start + 1) n"
proof -
  have "[0..<Suc n] = 0 # map Suc [0..<n]" by (simp add: map_Suc_upt upt_conv_Cons del: upt_Suc)
  then show ?thesis by (simp add: nonces_def comp_def add.assoc del: upt_Suc)
qed

lemma unat_nonces:
  assumes "unat start + count \<le> 2 ^ 32"
  shows "map unat (nonces start count) = [unat start..<unat start + count]"
  using assms
  by (intro nth_equalityI) (auto simp: nonces_def unat_word_ariths unat_of_nat)

lemma batch_loop_eq:
  "batch_loop try n d0 nonce s =
     (d0 + word_of_nat (batch_len n nonce), nonce + word_of_nat (batch_len n nonce),
      fold try (nonces nonce (batch_len n nonce)) s)"
proof (induction n arbitrary: d0 nonce s)
  case 0
  then show ?case by (simp add: batch_len_def nonces_def)
next
  case (Suc n)
  have lt: "unat nonce < 2 ^ 32" using unsigned_less [of nonce, where 'a = nat] by simp
  show ?case
  proof (cases "unat nonce + 1 < 2 ^ 32")
    case True
    then have "unat (nonce + 1) = unat nonce + 1" by (simp add: unat_word_ariths)
    then have "batch_len (Suc n) nonce = Suc (batch_len n (nonce + 1))"
      using True by (simp add: batch_len_def)
    with True Suc.IH show ?thesis by (simp add: overflowing_add_def nonces_Suc add.assoc)
  next
    case False
    then have "batch_len (Suc n) nonce = 1" using lt by (simp add: batch_len_def)
    with False show ?thesis by (simp add: overflowing_add_def nonces_def)
  qed
qed

lemma batch_end_zero:
  assumes "0 < n"
  shows "nonce + word_of_nat (batch_len n nonce) = 0 \<longleftrightarrow> unat nonce + batch_len n nonce = 2 ^ 32"
    and "0 < batch_len n nonce" and "unat nonce + batch_len n nonce \<le> 2 ^ 32"
proof -
  let ?d = "batch_len n nonce"
  have lt: "unat nonce < 2 ^ 32" using unsigned_less [of nonce, where 'a = nat] by simp
  then show d: "0 < ?d" "unat nonce + ?d \<le> 2 ^ 32" using assms by (auto simp: batch_len_def)
  have "nonce + word_of_nat ?d = 0 \<longleftrightarrow> (unat nonce + ?d) mod 2 ^ 32 = 0"
    by (simp add: unat_eq_0 [symmetric] unat_word_ariths unat_of_nat mod_simps del: unat_eq_0)
  also have "\<dots> \<longleftrightarrow> unat nonce + ?d = 2 ^ 32" using d by (auto simp: le_less)
  finally show "nonce + word_of_nat ?d = 0 \<longleftrightarrow> unat nonce + ?d = 2 ^ 32" .
qed

subsection \<open>Tiling the search space\<close>

text \<open>
  A chunk is an extranonce2, a first nonce and a number of nonces. \<open>tiles N c cs c'\<close>: the
  chunks \<open>cs\<close> follow each other from cursor \<open>c\<close> to cursor \<open>c'\<close> with nothing left out, each
  within the nonces of one extranonce2, going on to the owner's next extranonce2 (\<open>N\<close> further)
  when the nonces run out.
\<close>

type_synonym cursor = "u64 \<times> u32"
type_synonym chunk = "u64 \<times> u32 \<times> nat"

definition cursor_after :: "nat \<Rightarrow> u64 \<Rightarrow> u32 \<Rightarrow> nat \<Rightarrow> cursor" where
  "cursor_after N e n d = (if unat n + d = 2 ^ 32 then (e + word_of_nat N, 0) else (e, n + word_of_nat d))"

definition chunk_ok :: "nat \<Rightarrow> chunk \<Rightarrow> bool" where
  "chunk_ok N = (\<lambda>(e, n, d). 0 < d \<and> unat n + d \<le> 2 ^ 32 \<and> (unat n + d = 2 ^ 32 \<longrightarrow> unat e + N < 2 ^ 64))"

fun tiles :: "nat \<Rightarrow> cursor \<Rightarrow> chunk list \<Rightarrow> cursor \<Rightarrow> bool" where
  "tiles N c [] c' \<longleftrightarrow> c = c'"
| "tiles N c ((e, n, d) # cs) c' \<longleftrightarrow>
     c = (e, n) \<and> chunk_ok N (e, n, d) \<and> tiles N (cursor_after N e n d) cs c'"

text \<open>A cursor's place in the sequence of its owner's (extranonce2, nonce) pairs.\<close>

definition place :: "nat \<Rightarrow> cursor \<Rightarrow> nat" where
  "place N = (\<lambda>(e, n). unat e div N * 2 ^ 32 + unat n)"

definition chunk_pairs :: "chunk \<Rightarrow> (u64 \<times> u32) list" where
  "chunk_pairs = (\<lambda>(e, n, d). map (Pair e) (nonces n d))"

lemma place_cursor_after:
  assumes "chunk_ok N (e, n, d)" and "0 < N"
  shows "place N (cursor_after N e n d) = place N (e, n) + d \<and>
    unat (fst (cursor_after N e n d)) mod N = unat e mod N"
proof (cases "unat n + d = 2 ^ 32")
  case True
  then have "unat e + N < 2 ^ 64" using assms by (simp add: chunk_ok_def)
  then have "unat (e + word_of_nat N) = unat e + N"
    by (simp add: unat_word_ariths unat_of_nat mod_simps)
  with True assms(2) show ?thesis by (simp add: cursor_after_def place_def algebra_simps)
next
  case False
  then have "unat n + d < 2 ^ 32" using assms by (simp add: chunk_ok_def)
  then have "unat (n + word_of_nat d) = unat n + d" by (simp add: unat_word_ariths unat_of_nat)
  with False show ?thesis by (simp add: cursor_after_def place_def)
qed

lemma chunk_pairs_places:
  "chunk_ok N (e, n, d) \<Longrightarrow>
   map (place N) (chunk_pairs (e, n, d)) = [place N (e, n)..<place N (e, n) + d]"
proof -
  assume "chunk_ok N (e, n, d)"
  then have "map unat (nonces n d) = [unat n..<unat n + d]" by (intro unat_nonces) (simp add: chunk_ok_def)
  moreover have "map (place N) (chunk_pairs (e, n, d)) = map (\<lambda>x. unat e div N * 2 ^ 32 + x) (map unat (nonces n d))"
    by (simp add: chunk_pairs_def place_def)
  ultimately show ?thesis by (simp add: place_def map_plus_upt add.assoc)
qed

theorem tiles_cover:
  assumes "tiles N c cs c'" and "0 < N"
  shows "map (place N) (concat (map chunk_pairs cs)) = [place N c..<place N c'] \<and>
    unat (fst c') mod N = unat (fst c) mod N \<and> place N c \<le> place N c'"
  using assms(1)
proof (induction cs arbitrary: c)
  case Nil
  then show ?case by simp
next
  case (Cons x cs)
  obtain e n d where x: "x = (e, n, d)" by (cases x)
  with Cons.prems have c: "c = (e, n)" and ok: "chunk_ok N (e, n, d)"
    and rest: "tiles N (cursor_after N e n d) cs c'" by simp_all
  note IH = Cons.IH [OF rest] and p = place_cursor_after [OF ok assms(2)]
  have "[place N c..<place N c + d] @ [place N c + d..<place N c'] = [place N c..<place N c']"
    using IH p by (intro upt_split) (simp_all add: c)
  then show ?case using IH p chunk_pairs_places [OF ok] by (simp add: x c)
qed

text \<open>So no pair is hashed twice, and every pair of the owner between the two cursors is hashed.\<close>

lemma tiles_distinct:
  assumes "tiles N c cs c'" and "0 < N"
  shows "distinct (concat (map chunk_pairs cs))"
  using tiles_cover [OF assms] distinct_upt by (metis distinct_map)

lemma tiles_append: "tiles N c (cs @ ds) c'' \<longleftrightarrow> (\<exists>c'. tiles N c cs c' \<and> tiles N c' ds c'')"
proof (induction cs arbitrary: c)
  case (Cons x cs)
  obtain e n d where "x = (e, n, d)" by (cases x)
  then show ?case using Cons.IH [of "cursor_after N e n d"] by (simp only: append_Cons tiles.simps) blast
qed simp

subsection \<open>\<open>mine_job\<close>\<close>

text \<open>The reference: hash the chunks in order, counting them and letting the others act after each.\<close>

definition hash_chunk ::
  "Crates \<Rightarrow> MinerJob \<Rightarrow> PowFn \<Rightarrow> (u32 \<Rightarrow> instant) \<Rightarrow> chunk \<Rightarrow> Shared \<Rightarrow> Shared" where
  "hash_chunk cr job pow clock = (\<lambda>(e, n, d) s.
     let en2 = encode_extranonce2 e (job_extranonce2_size job)
     in count_hashes (word_of_nat d)
          (fold (try_nonce cr job pow clock en2 (header_of cr job en2)) (nonces n d) s))"

fun hash_chunks ::
  "Crates \<Rightarrow> MinerJob \<Rightarrow> PowFn \<Rightarrow> (nat \<Rightarrow> u32 \<Rightarrow> instant) \<Rightarrow> (nat \<Rightarrow> Shared \<Rightarrow> Shared) \<Rightarrow> nat \<Rightarrow> chunk list \<Rightarrow>
   Shared \<Rightarrow> Shared" where
  "hash_chunks cr job pow clock interfere k [] s = s"
| "hash_chunks cr job pow clock interfere k (c # cs) s =
     hash_chunks cr job pow clock interfere (k + 1) cs (interfere k (hash_chunk cr job pow (clock k) c s))"

text \<open>The counter cannot run off the end of 64 bits before the job is over.\<close>

definition en2_headroom :: "MinerJob \<Rightarrow> nat \<Rightarrow> nat \<Rightarrow> u64 \<Rightarrow> bool" where
  "en2_headroom job N fuel e \<longleftrightarrow>
     0 < N \<and> (job_extranonce2_size job < 8 \<and> N < 2 ^ 63 \<or> unat e + fuel * N < 2 ^ 64)"

lemma en2_headroom_step:
  assumes "en2_headroom job N (Suc fuel) e" and "en2_fits e (job_extranonce2_size job)"
  shows "unat e + N < 2 ^ 64" and "unat (e + word_of_nat N) = unat e + N"
    and "sat_add e (word_of_nat N) = e + word_of_nat N"
    and "en2_headroom job N fuel (e + word_of_nat N)" and "en2_headroom job N fuel e"
proof -
  show N: "unat e + N < 2 ^ 64"
  proof (cases "job_extranonce2_size job < 8 \<and> N < 2 ^ 63")
    case True
    then have "unat e < 256 ^ job_extranonce2_size job" using assms(2) by (simp add: en2_fits_unat)
    also have "(256::nat) ^ job_extranonce2_size job \<le> 256 ^ 7" using True by (intro power_increasing) simp_all
    finally show ?thesis using True by simp
  next
    case False
    then have "unat e + Suc fuel * N < 2 ^ 64" using assms(1) by (auto simp: en2_headroom_def)
    then show ?thesis by simp
  qed
  then have "unat (word_of_nat N :: u64) = N" by (simp add: unat_of_nat)
  with N show sum: "unat (e + word_of_nat N) = unat e + N"
    and "sat_add e (word_of_nat N) = e + word_of_nat N"
    by (simp_all add: unat_add_no_overflow sat_add_def)
  show "en2_headroom job N fuel (e + word_of_nat N)" "en2_headroom job N fuel e"
    using assms(1) by (auto simp: en2_headroom_def sum)
qed

text \<open>
  What one batch does to a job whose extranonce2 fits: a chunk that fits, and then the next
  batch starts where the chunk ends.
\<close>

lemma mine_job_batch:
  assumes "en2_fits e (job_extranonce2_size job)" and "0 < unat batch"
    and "en2_headroom job N (Suc fuel) e" and "d = batch_len (unat batch) n"
    and "s' = interfere k (hash_chunk cr job pow (clock k) (e, n, d) s)" and "(e', n') = cursor_after N e n d"
  shows "chunk_ok N (e, n, d)"
    and "mine_job cr job pow clock batch g N interfere k (Suc fuel) e n s =
      (if sh_generation s' \<noteq> g then Some (False, e', n', s')
       else mine_job cr job pow clock batch g N interfere (k + 1) fuel e' n' s')"
proof -
  note h = en2_headroom_step [OF assms(3,1)]
  note z = batch_end_zero [OF assms(2), of n, folded assms(4)]
  show "chunk_ok N (e, n, d)" using z h(1) by (simp add: chunk_ok_def)
  show "mine_job cr job pow clock batch g N interfere k (Suc fuel) e n s =
      (if sh_generation s' \<noteq> g then Some (False, e', n', s')
       else mine_job cr job pow clock batch g N interfere (k + 1) fuel e' n' s')"
    using assms(1,6) z(1) h(3)
    by (auto simp: batch_loop_eq assms(4) [symmetric] assms(5) hash_chunk_def cursor_after_def
        resume_point_def Let_def)
qed

lemma mine_job_tiles:
  assumes "mine_job cr job pow clock batch g N interfere k fuel e n s = Some (exhausted, e', n', s')"
    and "0 < unat batch" and "en2_headroom job N fuel e"
  shows "\<exists>cs. tiles N (e, n) cs (e', n') \<and> s' = hash_chunks cr job pow clock interfere k cs s \<and>
    (\<forall>c\<in>set cs. en2_fits (fst c) (job_extranonce2_size job)) \<and>
    (exhausted \<longleftrightarrow> \<not> (cs \<noteq> [] \<and> sh_generation s' \<noteq> g)) \<and>
    (exhausted \<longrightarrow> \<not> en2_fits e' (job_extranonce2_size job))"
  using assms
proof (induction fuel arbitrary: k e n s)
  case 0
  then show ?case by simp
next
  case (Suc fuel)
  show ?case
  proof (cases "en2_fits e (job_extranonce2_size job)")
    case False
    then have "exhausted" "e' = e" "n' = n" "s' = s" using Suc.prems(1) by simp_all
    with False show ?thesis by (intro exI [of _ "[]"]) simp
  next
    case True
    define d where "d = batch_len (unat batch) n"
    define s1 where "s1 = interfere k (hash_chunk cr job pow (clock k) (e, n, d) s)"
    obtain e1 n1 where c1: "(e1, n1) = cursor_after N e n d" by (metis surj_pair)
    note b1 = mine_job_batch(1) [where interfere = interfere and k = k and cr = cr and pow = pow and
      clock = clock and s = s, OF True Suc.prems(2,3) d_def s1_def c1]
    note b2 = mine_job_batch(2) [where interfere = interfere and k = k and cr = cr and pow = pow and
      clock = clock and s = s and g = g, OF True Suc.prems(2,3) d_def s1_def c1]
    show ?thesis
    proof (cases "sh_generation s1 = g")
      case False
      then have r: "\<not> exhausted" "(e', n') = (e1, n1)" "s' = s1" using Suc.prems(1) b2 by simp_all
      then show ?thesis using b1 c1 True False
        by (intro exI [of _ "[(e, n, d)]"]) (simp add: s1_def)
    next
      case g: True
      then have "mine_job cr job pow clock batch g N interfere (k + 1) fuel e1 n1 s1 = Some (exhausted, e', n', s')"
        using Suc.prems(1) b2 by simp
      moreover have "en2_headroom job N fuel e1"
        using en2_headroom_step(4,5) [OF Suc.prems(3) True] c1 by (simp add: cursor_after_def split: if_splits)
      ultimately obtain cs where cs: "tiles N (e1, n1) cs (e', n')"
        "s' = hash_chunks cr job pow clock interfere (k + 1) cs s1"
        "\<forall>c\<in>set cs. en2_fits (fst c) (job_extranonce2_size job)"
        "exhausted \<longleftrightarrow> \<not> (cs \<noteq> [] \<and> sh_generation s' \<noteq> g)"
        "exhausted \<longrightarrow> \<not> en2_fits e' (job_extranonce2_size job)"
        using Suc.IH Suc.prems(2) by blast
      have "cs = [] \<Longrightarrow> sh_generation s' = g" using cs(2) g by simp
      with cs b1 c1 True show ?thesis
        by (intro exI [of _ "(e, n, d) # cs"]) (auto simp: s1_def)
    qed
  qed
qed

text \<open>Batches left at most: the nonces left, up to the last extranonce2 that fits.\<close>

definition nonces_left :: "MinerJob \<Rightarrow> u64 \<Rightarrow> u32 \<Rightarrow> nat" where
  "nonces_left job e n = (256 ^ job_extranonce2_size job - unat e) * 2 ^ 32 - unat n"

lemma nonces_left_decreases:
  assumes "chunk_ok N (e, n, d)" and "0 < N" and "unat e < 256 ^ job_extranonce2_size job"
    and "(e', n') = cursor_after N e n d"
  shows "nonces_left job e' n' < nonces_left job e n"
proof (cases "unat n + d = 2 ^ 32")
  case True
  then have "unat (e + word_of_nat N) = unat e + N"
    using assms(1) by (simp add: chunk_ok_def unat_word_ariths unat_of_nat mod_simps)
  moreover have "e' = e + word_of_nat N" "n' = 0" using True assms(4) by (simp_all add: cursor_after_def)
  moreover have "unat n < 2 ^ 32" using unsigned_less [of n, where 'a = nat] by simp
  moreover have "(256 ^ job_extranonce2_size job - (unat e + N) + 1) * 2 ^ 32 \<le> (256 ^ job_extranonce2_size job - unat e) * 2 ^ 32"
    using assms(2,3) by (intro mult_le_mono1) linarith
  ultimately show ?thesis by (simp add: nonces_left_def)
next
  case False
  then have lt: "unat n + d < 2 ^ 32" and d: "0 < d" using assms(1) by (simp_all add: chunk_ok_def)
  then have "unat (n + word_of_nat d) = unat n + d" by (simp add: unat_word_ariths unat_of_nat)
  moreover have "e' = e" "n' = n + word_of_nat d" using False assms(4) by (simp_all add: cursor_after_def)
  moreover have "2 ^ 32 \<le> (256 ^ job_extranonce2_size job - unat e) * 2 ^ 32" using assms(3) by simp
  ultimately show ?thesis using d lt by (simp add: nonces_left_def)
qed

lemma mine_job_returns:
  assumes "job_extranonce2_size job < 8" and "0 < N" and "N < 2 ^ 63" and "0 < unat batch"
    and "nonces_left job e n < fuel"
  shows "\<exists>r. mine_job cr job pow clock batch g N interfere k fuel e n s = Some r"
  using assms(5)
proof (induction fuel arbitrary: k e n s)
  case 0
  then show ?case by simp
next
  case (Suc fuel)
  show ?case
  proof (cases "en2_fits e (job_extranonce2_size job)")
    case False
    then show ?thesis by auto
  next
    case True
    define d where "d = batch_len (unat batch) n"
    define s1 where "s1 = interfere k (hash_chunk cr job pow (clock k) (e, n, d) s)"
    obtain e1 n1 where c1: "(e1, n1) = cursor_after N e n d" by (metis surj_pair)
    have "en2_headroom job N (Suc fuel) e" using assms(1-3) by (simp add: en2_headroom_def)
    note b1 = mine_job_batch(1) [where interfere = interfere and k = k and cr = cr and pow = pow and
      clock = clock and s = s, OF True assms(4) this d_def s1_def c1]
    note b2 = mine_job_batch(2) [where interfere = interfere and k = k and cr = cr and pow = pow and
      clock = clock and s = s and g = g, OF True assms(4) \<open>en2_headroom job N (Suc fuel) e\<close> d_def s1_def c1]
    have "unat e < 256 ^ job_extranonce2_size job" using True assms(1) by (simp add: en2_fits_unat)
    then have "nonces_left job e1 n1 < fuel"
      using nonces_left_decreases [OF b1 assms(2) _ c1] Suc.prems by fastforce
    with Suc.IH show ?thesis unfolding b2 by auto
  qed
qed

subsection \<open>The shares of a chunk\<close>

definition hit :: "Crates \<Rightarrow> MinerJob \<Rightarrow> PowFn \<Rightarrow> bytes \<Rightarrow> u32 \<Rightarrow> bool" where
  "hit cr job pow en2 n \<longleftrightarrow> hash_meets_target (pow (with_nonce (header_of cr job en2) n)) (job_share_target job)"

definition share_at :: "Crates \<Rightarrow> MinerJob \<Rightarrow> PowFn \<Rightarrow> bytes \<Rightarrow> u32 \<Rightarrow> FoundShare" where
  "share_at cr job pow en2 n = share_of cr job en2 n (pow (with_nonce (header_of cr job en2) n))"

lemma record_share_queue [simp]:
  "sh_submit (record_share now a d b blk s) = sh_submit s"
  "sh_submit_cap (record_share now a d b blk s) = sh_submit_cap s"
  "sh_submit_open (record_share now a d b blk s) = sh_submit_open s"
  by (simp_all add: record_share_def Let_def split: option.splits)

lemma submit_queue:
  "sh_submit (submit share s) =
     (if sh_submit_open s \<and> length (sh_submit s) < sh_submit_cap s then sh_submit s @ [share] else sh_submit s)"
  "sh_submit_cap (submit share s) = sh_submit_cap s"
  "sh_submit_open (submit share s) = sh_submit_open s"
  by (simp_all add: submit_def try_send_def print_lines_def Let_def)

text \<open>Trying a list of nonces, each of which may submit one share.\<close>

lemma fold_submit_queue:
  assumes "\<And>n s. sh_submit_open s \<Longrightarrow> sh_submit (f n s) =
      (if P n \<and> length (sh_submit s) < sh_submit_cap s then sh_submit s @ [share n] else sh_submit s)"
    and "\<And>n s. sh_submit_open s \<Longrightarrow> sh_submit_cap (f n s) = sh_submit_cap s \<and> sh_submit_open (f n s)"
    and "sh_submit_open s"
  shows "sh_submit (fold f ns s) = sh_submit s @ take (sh_submit_cap s - length (sh_submit s)) (map share (filter P ns)) \<and>
    sh_submit_cap (fold f ns s) = sh_submit_cap s \<and> sh_submit_open (fold f ns s)"
  using assms(3)
proof (induction ns arbitrary: s)
  case (Cons n ns)
  note q = assms(1) [OF Cons.prems, of n] assms(2) [OF Cons.prems, of n]
  from Cons.IH [of "f n s"] q show ?case
    by (cases "P n \<and> length (sh_submit s) < sh_submit_cap s") (auto simp: take_Cons' Suc_diff_Suc not_less)
qed simp

lemma fold_try_nonce_queue:
  assumes "sh_submit_open s"
  shows "sh_submit (fold (try_nonce cr job pow clock en2 (header_of cr job en2)) ns s) =
      sh_submit s @ take (sh_submit_cap s - length (sh_submit s)) (map (share_at cr job pow en2) (filter (hit cr job pow en2) ns))"
  using fold_submit_queue [of "try_nonce cr job pow clock en2 (header_of cr job en2)" "hit cr job pow en2"
      "share_at cr job pow en2", OF _ _ assms, of ns]
  by (simp add: try_nonce_def hit_def share_at_def submit_queue Let_def)

text \<open>The header whose hash is tested is the one of the job's fields, the merkle root and the nonce.\<close>

lemma length_root_from_steps:
  assumes "\<And>x. length (sha x) = 32" and "length acc = 32"
  shows "length (root_from_steps sha acc steps) = 32"
  using assms(2) by (induction steps arbitrary: acc) (simp_all add: root_from_steps_def sha256d_def assms(1))

lemma with_nonce_header:
  assumes "\<And>x. length (cr_sha256 cr x) = 32" and "length (job_prev_hash job) = 32"
  shows "with_nonce (header_of cr job en2) n =
    serialize \<lparr>hdr_version = job_version job, hdr_prev_hash = job_prev_hash job,
      hdr_merkle_root = root_from_steps (cr_sha256 cr) (sha256d (cr_sha256 cr) (coinbase_of job en2)) (job_merkle_steps job),
      hdr_time = job_ntime job, hdr_bits = job_bits job, hdr_nonce = n\<rparr>"
proof -
  have "length (root_from_steps (cr_sha256 cr) (sha256d (cr_sha256 cr) (coinbase_of job en2)) (job_merkle_steps job)) = 32"
    by (intro length_root_from_steps) (simp_all add: assms(1) sha256d_def)
  then show ?thesis
    using assms(2)
    by (simp add: with_nonce_def header_of_def Let_def serialize_concat header_wf_def copy_at_def)
qed

subsection \<open>Jobs of one search space\<close>

lemma same_search_space_headers:
  "same_search_space p job \<Longrightarrow> header_of cr p en2 = header_of cr job en2"
  by (simp add: same_search_space_def header_of_def coinbase_of_def Let_def)

lemma same_search_space_equiv:
  "same_search_space a a"
  "same_search_space a b \<Longrightarrow> same_search_space b a"
  "same_search_space a b \<Longrightarrow> same_search_space b c \<Longrightarrow> same_search_space a c"
  by (auto simp: same_search_space_def)

lemma tiles_owner:
  assumes "tiles N c cs c'" and "0 < N" and "x \<in> set cs"
  shows "unat (fst x) mod N = unat (fst c) mod N"
proof -
  obtain xs ys where cs: "cs = xs @ x # ys" using assms(3) by (metis split_list)
  then obtain m where m: "tiles N c xs m" "tiles N m (x # ys) c'" using assms(1) tiles_append by blast
  obtain e n d where x: "x = (e, n, d)" by (cases x)
  with m(2) have "m = (e, n)" by simp
  with tiles_cover [OF m(1) assms(2)] x show ?thesis by simp
qed

lemma tiles_ends_own: "tiles N c cs c' \<Longrightarrow> 0 < N \<Longrightarrow> unat (fst c') mod N = unat (fst c) mod N"
  using tiles_cover by blast

text \<open>
  Two workers with different numbers, each taking every \<open>N\<close>-th extranonce2 from its own number
  on, build coinbases that differ in the extranonce2, of the size the pool asked for.
\<close>

lemma owners_coinbases_differ:
  assumes "t \<noteq> t'" and "0 < N" and "unat e mod N = t" and "unat e' mod N = t'"
    and "tiles N (e, n) cs c" and "tiles N (e', n') cs' c'"
    and "x \<in> set cs" and "y \<in> set cs'"
    and "en2_fits (fst x) (job_extranonce2_size job)" and "en2_fits (fst y) (job_extranonce2_size job)"
  shows "coinbase_of job (encode_extranonce2 (fst x) (job_extranonce2_size job)) \<noteq>
      coinbase_of job (encode_extranonce2 (fst y) (job_extranonce2_size job))"
proof -
  have "unat (fst x) mod N = t" "unat (fst y) mod N = t'"
    using tiles_owner [OF assms(5,2,7)] tiles_owner [OF assms(6,2,8)] assms(3,4) by simp_all
  then have "fst x \<noteq> fst y" using assms(1) by auto
  then show ?thesis
    using en2.coinbases_differ [of "fst x" _ "fst y" "job_coinb1 job @ job_extranonce1 job" "job_coinb2 job"] assms(9,10)
    by (simp add: coinbase_of_def)
qed

section \<open>Properties\<close>

text \<open>
  C35. Whenever \<open>mine_job\<close> returns, what it has hashed are chunks that tile the thread's search
  space from where it started to where it says it stopped: in order, no (extranonce2, nonce)
  pair left out or hashed twice, whatever the batch size and whatever the other threads did
  between the batches; and it reports the space exhausted only when the next extranonce2 does
  not fit the job.
\<close>

theorem cpu_search_tiles:
  assumes "mine_job cr job pow clock batch g N interfere 0 fuel e n s = Some (exhausted, e', n', s')"
    and "0 < unat batch" and "en2_headroom job N fuel e"
  shows "\<exists>cs. tiles N (e, n) cs (e', n') \<and> distinct (concat (map chunk_pairs cs)) \<and>
    map (place N) (concat (map chunk_pairs cs)) = [place N (e, n)..<place N (e', n')] \<and>
    s' = hash_chunks cr job pow clock interfere 0 cs s \<and>
    (\<forall>c\<in>set cs. en2_fits (fst c) (job_extranonce2_size job)) \<and>
    (if exhausted then \<not> en2_fits e' (job_extranonce2_size job) else sh_generation s' \<noteq> g)"
proof -
  obtain cs where cs: "tiles N (e, n) cs (e', n')" "s' = hash_chunks cr job pow clock interfere 0 cs s"
    "\<forall>c\<in>set cs. en2_fits (fst c) (job_extranonce2_size job)"
    "exhausted \<longleftrightarrow> \<not> (cs \<noteq> [] \<and> sh_generation s' \<noteq> g)" "exhausted \<longrightarrow> \<not> en2_fits e' (job_extranonce2_size job)"
    using mine_job_tiles [OF assms] by blast
  moreover have "0 < N" using assms(3) by (simp add: en2_headroom_def)
  ultimately show ?thesis using tiles_cover [OF cs(1)] tiles_distinct [OF cs(1)] by auto
qed

definition demo_crates :: Crates where
  "demo_crates = \<lparr>cr_sha256 = \<lambda>x. replicate 32 (word_of_nat (length x)), cr_hex_encode = \<lambda>_. ''00''\<rparr>"

lemma demo_run:
  "\<exists>r. mine_job demo_crates demo_job (\<lambda>_. replicate 32 0) (\<lambda>_ _. 0) BATCH 0 4 (\<lambda>_ s. s) 0
     (Suc (nonces_left demo_job 1 0)) 1 0 demo_shared = Some r"
  by (rule mine_job_returns) (simp_all add: demo_job_def BATCH_def)

theorem cpu_search_tiles_witness:
  "\<exists>exhausted e' n' s' cs. mine_job demo_crates demo_job (\<lambda>_. replicate 32 0) (\<lambda>_ _. 0) BATCH 0 4 (\<lambda>_ s. s) 0
     (Suc (nonces_left demo_job 1 0)) 1 0 demo_shared = Some (exhausted, e', n', s') \<and>
     tiles 4 (1, 0) cs (e', n')"
proof -
  obtain exhausted e' n' s' where r: "mine_job demo_crates demo_job (\<lambda>_. replicate 32 0) (\<lambda>_ _. 0) BATCH 0 4
      (\<lambda>_ s. s) 0 (Suc (nonces_left demo_job 1 0)) 1 0 demo_shared = Some (exhausted, e', n', s')"
    using demo_run by (metis prod_cases4)
  from cpu_search_tiles [OF r] obtain cs where "tiles 4 (1, 0) cs (e', n')"
    by (auto simp: BATCH_def en2_headroom_def demo_job_def)
  with r show ?thesis by blast
qed

text \<open>
  With an extranonce2 of less than 8 bytes \<open>mine_job\<close> always returns, job change or not: at
  the latest after as many batches as there are nonces left, for any batch size, thread count
  and behaviour of the other threads. In particular the loop gets past nonce 0xFFFFFFFF.
\<close>

theorem cpu_search_terminates:
  assumes "job_extranonce2_size job < 8" and "0 < N" and "N < 2 ^ 63" and "0 < unat batch"
  shows "\<exists>r. mine_job cr job pow clock batch g N interfere k (Suc (nonces_left job e n)) e n s = Some r"
  using assms by (rule mine_job_returns) simp

theorem cpu_search_terminates_witness:
  "\<exists>r. mine_job demo_crates demo_job (\<lambda>_. replicate 32 0) (\<lambda>_ _. 0) BATCH 0 1 (\<lambda>_ s. s) 0
     (Suc (nonces_left demo_job 0 0xffffffff)) 0 0xffffffff demo_shared = Some r"
  by (rule cpu_search_terminates) (simp_all add: demo_job_def BATCH_def)

text \<open>
  C36. Hashing a chunk queues exactly the shares of the nonces whose header hash meets the share
  target, in nonce order, each with the job's id and time, its extranonce2 and nonce (as many as
  the queue has room for); the header hashed for a nonce is the serialized header of the job's
  fields, the merkle root of that extranonce2's coinbase, and that nonce.
\<close>

theorem cpu_shares_exact:
  assumes "sh_submit_open s" and "\<And>x. length (cr_sha256 cr x) = 32" and "length (job_prev_hash job) = 32"
    and "en2 = encode_extranonce2 e (job_extranonce2_size job)"
    and "header = (\<lambda>m. serialize \<lparr>hdr_version = job_version job, hdr_prev_hash = job_prev_hash job,
      hdr_merkle_root = root_from_steps (cr_sha256 cr) (sha256d (cr_sha256 cr)
        (job_coinb1 job @ job_extranonce1 job @ en2 @ job_coinb2 job)) (job_merkle_steps job),
      hdr_time = job_ntime job, hdr_bits = job_bits job, hdr_nonce = m\<rparr>)"
  shows "sh_submit (hash_chunk cr job pow clock (e, n, d) s) =
    sh_submit s @ take (sh_submit_cap s - length (sh_submit s))
      (map (\<lambda>m. share_of cr job en2 m (pow (header m)))
        (filter (\<lambda>m. hash_meets_target (pow (header m)) (job_share_target job)) (nonces n d)))"
proof -
  have h: "with_nonce (header_of cr job en2) m = header m" for m
    using with_nonce_header [OF assms(2,3)] by (simp add: assms(5) coinbase_of_def)
  have "hit cr job pow en2 = (\<lambda>m. hash_meets_target (pow (header m)) (job_share_target job))"
    and "share_at cr job pow en2 = (\<lambda>m. share_of cr job en2 m (pow (header m)))"
    by (simp_all add: hit_def share_at_def h fun_eq_iff)
  then show ?thesis
    using fold_try_nonce_queue [OF assms(1), of cr job pow clock en2 "nonces n d"]
    by (simp add: hash_chunk_def Let_def assms(4) [symmetric] count_hashes_def)
qed

theorem cpu_shares_exact_witness:
  "length (sh_submit (hash_chunk demo_crates demo_job (\<lambda>_. replicate 32 0) (\<lambda>_. 0) (0, 0, 1) demo_shared)) = 1"
proof -
  have f: "sh_submit demo_shared = []" "sh_submit_cap demo_shared = SUBMIT_QUEUE" "sh_submit_open demo_shared"
    by (simp_all only: demo_shared_def Shared_new_def Shared.select_convs)
  have "hash_meets_target (replicate 32 0) (job_share_target demo_job)"
    by (subst hash_meets_target_iff) (simp_all add: demo_job_def le_val_def)
  then show ?thesis
    using cpu_shares_exact [OF f(3), of demo_crates demo_job, OF _ _ refl refl, where e = 0 and n = 0 and d = 1]
    by (simp add: f demo_crates_def nonces_def SUBMIT_QUEUE_def) (simp add: demo_job_def)
qed

text \<open>
  A job that only differs in its id, share target, height or algorithm tag has the same
  headers for every extranonce2, and a worker resumes in it exactly where it stopped; on any
  other job it starts at nonce 0 of its own first extranonce2.
\<close>

theorem resume_same_space:
  "(same_search_space p job \<longrightarrow>
      (\<forall>en2. header_of cr p en2 = header_of cr job en2) \<and> start_on (Some p) job t e n = (e, n)) \<and>
   (\<not> same_search_space p job \<longrightarrow> start_on (Some p) job t e n = (word_of_nat t, 0)) \<and>
   start_on None job t e n = (word_of_nat t, 0) \<and>
   same_search_space p (p\<lparr>job_id := i, job_share_target := st, job_height := h, job_algo := a\<rparr>)"
  by (simp add: same_search_space_headers start_on_def) (simp add: same_search_space_def)

theorem resume_same_space_witness:
  "start_on (Some demo_job) (demo_job\<lparr>job_id := ''2''\<rparr>) 3 7 9 = (7, 9)"
  using resume_same_space [of demo_job "demo_job\<lparr>job_id := ''2''\<rparr>" demo_crates 3 7 9]
  by (simp add: same_search_space_def)

text \<open>
  A worker that may not or cannot hash a job - a stand-in while the GPUs mine it, or no
  implementation of its PoW - hashes nothing and queues nothing, keeps its place, and next waits
  for a generation other than that job's.
\<close>

theorem worker_sits_out:
  assumes "wait_poll (cw_sat_out w) s = Some (g, job)"
    and "\<not> takes role (gpus_mine s (job_algo job)) \<or> \<not> cpu_supports env (job_algo job)"
  shows "\<exists>w' s'. run_worker_turn env cr clock t N role interfere fuel w s = Some (w', s') \<and>
    cw_sat_out w' = Some g \<and> cw_en2 w' = cw_en2 w \<and> cw_nonce w' = cw_nonce w \<and> cw_prev w' = cw_prev w \<and>
    sh_stats s' = sh_stats s \<and> sh_submit s' = sh_submit s"
proof (cases "takes role (gpus_mine s (job_algo job))")
  case False
  then show ?thesis using assms(1) by (simp add: run_worker_turn_def)
next
  case True
  then show ?thesis using assms
    by (simp add: run_worker_turn_def gate_check_def print_lines_def split_def Let_def)
qed

theorem worker_sits_out_witness:
  "\<exists>w' s'. run_worker_turn (demo_env\<lparr>env_bc3 := None\<rparr>) demo_crates (\<lambda>_ _. 0) 0 4 Role_All (\<lambda>_ s. s) 9
     (CpuWorker_new 0) (publish_job demo_env 0 demo_job demo_shared) = Some (w', s') \<and>
     cw_sat_out w' = Some (sh_generation demo_shared + 1)"
proof -
  have "wait_poll (cw_sat_out (CpuWorker_new 0)) (publish_job demo_env 0 demo_job demo_shared) =
      Some (sh_generation demo_shared + 1, demo_job)"
    by (simp add: CpuWorker_new_def wait_poll_def wait_for_job_def publish_job_fields)
  moreover have "\<not> cpu_supports (demo_env\<lparr>env_bc3 := None\<rparr>) (job_algo demo_job)"
    by (simp add: cpu_supports_def demo_job_def)
  ultimately show ?thesis using worker_sits_out by fast
qed

end
