(* ===== verification/Tuning.thy ===== *)
theory Tuning
  imports Worker
begin

text \<open>
  \<open>src/tuning.rs\<close>: the layout and size of a card's BC3Hash tables at a window, the file the
  chosen windows are kept in, and the tuner, a state machine driven by launches and switches.
  Writing and reading the choices as JSON (\<open>serde_json\<close>) are arguments; a file system is a map
  from paths to contents, of whatever type that JSON has, whose operations fail when the caller
  says so.
\<close>

section \<open>Definitions\<close>

definition START_WINDOW :: u32 where
  "START_WINDOW = 16"

definition BIGGER :: "u32 list" where
  "BIGGER = [24, 22, 20, 19, 18]"

definition VRAM_SPARE :: u64 where
  "VRAM_SPARE = push_bit 30 1"

definition MEASURE :: duration where
  "MEASURE = from_secs 60"

definition WARM_UP :: duration where
  "WARM_UP = from_secs 90"

definition SETTLE :: duration where
  "SETTLE = from_secs 30"

definition MIN_GAIN :: f64 where
  "MIN_GAIN = f64_div (F_Fin 5) (F_Fin 1000)"

definition MAX_DRIFT :: f64 where
  "MAX_DRIFT = f64_div (F_Fin 5) (F_Fin 100)"

subsection \<open>Tables\<close>

definition div_ceil :: "nat \<Rightarrow> nat \<Rightarrow> nat" where
  "div_ceil a b = (a + b - 1) div b"

definition digits :: "u32 \<Rightarrow> u32 list option" where
  "digits window =
     (if 2 \<le> window \<and> window \<le> 20 then Some (replicate (div_ceil 256 (unat window)) window)
      else if window = 22 then Some (replicate 8 21 @ replicate 4 22)
      else if window = 24 then Some (replicate 8 23 @ replicate 3 24)
      else None)"

record Row =
  row_pos :: u32
  row_places :: u64
  row_points :: u64

fun rows_from :: "u32 \<Rightarrow> u32 list \<Rightarrow> Row list" where
  "rows_from pos [] = []"
| "rows_from pos (width # ws) =
     (let bits = min width (256 - pos)
      in \<lparr>row_pos = pos, row_places = push_bit (unat width) 1 - 1, row_points = push_bit (unat bits) 1 - 1\<rparr>
           # rows_from (pos + bits) ws)"

definition rows :: "u32 \<Rightarrow> Row list option" where
  "rows window = map_option (rows_from 0) (digits window)"

definition POWER_TABLES_U64 :: u64 where
  "POWER_TABLES_U64 = 8 * 256 + 16 * 256 * 2 + 32 * 256 * 4"

definition table_bytes :: "u32 \<Rightarrow> u64" where
  "table_bytes window =
     (case rows window of
        None \<Rightarrow> 0
      | Some rs \<Rightarrow> (POWER_TABLES_U64 + 4 * sum_list (map row_places rs) * 8) * 8)"

definition largest_fitting :: "u64 \<Rightarrow> u32 option" where
  "largest_fitting free_vram = find (\<lambda>w. table_bytes w + VRAM_SPARE \<le> free_vram) BIGGER"

subsection \<open>Remembered choices\<close>

record Choice =
  ch_window :: u32
  ch_start_rate :: f64
  ch_tried :: u32
  ch_tried_rate :: f64

definition tuning_key :: "string \<Rightarrow> string \<Rightarrow> u64 \<Rightarrow> string option \<Rightarrow> string" where
  "tuning_key version gpu total_vram driver =
     gpu @ '' | '' @ dec (unat (drop_bit 20 total_vram)) @ '' MiB | driver '' @
     (case driver of Some d \<Rightarrow> d | None \<Rightarrow> ''unknown'') @ '' | bc3-miner '' @ version"

type_synonym path = "string list"

text \<open>Where the file is: \<open>var\<close> looks up an environment variable.\<close>

definition tuning_file :: "bool \<Rightarrow> (string \<Rightarrow> path option) \<Rightarrow> path option" where
  "tuning_file windows var =
     (case var ''BC3_TUNING_FILE'' of
        Some p \<Rightarrow> Some p
      | None \<Rightarrow>
          let base = (if windows then var ''LOCALAPPDATA''
                      else case var ''XDG_CACHE_HOME'' of
                             Some p \<Rightarrow> Some p
                           | None \<Rightarrow> map_option (\<lambda>h. h @ [''.cache'']) (var ''HOME''))
          in map_option (\<lambda>b. b @ [''bc3-miner'', ''tuning.json'']) base)"

type_synonym choices = "string \<Rightarrow> Choice option"

datatype fs_op = Op_mkdir | Op_write | Op_rename

definition read_all :: "('c \<Rightarrow> choices option) \<Rightarrow> (path \<Rightarrow> 'c option) \<Rightarrow> path \<Rightarrow> choices" where
  "read_all parse fs p =
     (case Option.bind (fs p) parse of Some m \<Rightarrow> m | None \<Rightarrow> Map.empty)"

definition recall_in :: "('c \<Rightarrow> choices option) \<Rightarrow> (path \<Rightarrow> 'c option) \<Rightarrow> path \<Rightarrow> string \<Rightarrow> Choice option" where
  "recall_in parse fs p k = read_all parse fs p k"

definition recall ::
  "('c \<Rightarrow> choices option) \<Rightarrow> (path \<Rightarrow> 'c option) \<Rightarrow> path option \<Rightarrow> string \<Rightarrow> Choice option" where
  "recall parse fs file k = Option.bind file (\<lambda>p. recall_in parse fs p k)"

text \<open>
  \<open>tmp\<close> is \<open>path.with_extension("json.tmp")\<close>; \<open>fail\<close> says which operations fail and with what,
  and a write that fails may leave anything (\<open>partial\<close>) in the file it wrote to.
\<close>

definition remember_in ::
  "('c \<Rightarrow> choices option) \<Rightarrow> (choices \<Rightarrow> 'c) \<Rightarrow> (fs_op \<Rightarrow> string option) \<Rightarrow> 'c option \<Rightarrow> path \<Rightarrow> path \<Rightarrow>
   string \<Rightarrow> Choice \<Rightarrow> (path \<Rightarrow> 'c option) \<Rightarrow> (string + unit) \<times> (path \<Rightarrow> 'c option)" where
  "remember_in parse print fail partial tmp p k choice fs =
     (let all = (read_all parse fs p)(k \<mapsto> choice)
      in case fail Op_mkdir of
           Some e \<Rightarrow> (Inl e, fs)
         | None \<Rightarrow>
             (case fail Op_write of
                Some e \<Rightarrow> (Inl e, fs(tmp := partial))
              | None \<Rightarrow>
                  let fs = fs(tmp := Some (print all))
                  in case fail Op_rename of
                       Some e \<Rightarrow> (Inl e, fs)
                     | None \<Rightarrow> (Inr (), fs(p := Some (print all), tmp := None))))"

subsection \<open>The tuner\<close>

datatype Action = Wait | Build u32 | Switch u32 | Done Choice bool

record Rate =
  ra_hashes :: u64
  ra_busy :: duration

definition Rate_default :: Rate where
  "Rate_default = \<lparr>ra_hashes = 0, ra_busy = 0\<rparr>"

definition Rate_add :: "Rate \<Rightarrow> u64 \<Rightarrow> duration \<Rightarrow> Rate" where
  "Rate_add r hashes busy = \<lparr>ra_hashes = ra_hashes r + hashes, ra_busy = ra_busy r + busy\<rparr>"

definition per_second :: "Rate \<Rightarrow> f64" where
  "per_second r =
     f64_div (f64_of_nat (unat (ra_hashes r)))
       (f64_max (as_secs_f64 (ra_busy r)) (f64_div (F_Fin 1) (F_Fin 1000000000)))"

datatype Phase =
  WarmUp duration
| MeasureStart Rate
| Settle f64 duration
| MeasureTarget f64 Rate
| SettleBack f64 f64 duration
| MeasureBack f64 f64 Rate
| Return Choice bool
| Recalled u32
| Finished

record Tuner =
  tn_target :: u32
  tn_fallback :: "u32 list"
  tn_ready :: bool
  tn_phase :: Phase

definition Tuner_start :: "u32 option \<Rightarrow> Choice option \<Rightarrow> (Tuner \<times> Action) option" where
  "Tuner_start fitting recalled =
     (case fitting of
        None \<Rightarrow> None
      | Some fit \<Rightarrow>
          (case recalled of
             Some c \<Rightarrow>
               if START_WINDOW < ch_window c \<and> ch_window c \<le> fit
               then Some (\<lparr>tn_target = ch_window c, tn_fallback = [], tn_ready = False,
                           tn_phase = Recalled (ch_window c)\<rparr>, Build (ch_window c))
               else None
           | None \<Rightarrow>
               Some (\<lparr>tn_target = fit, tn_fallback = filter (\<lambda>w. w < fit) BIGGER, tn_ready = False,
                      tn_phase = WarmUp 0\<rparr>, Build fit)))"

text \<open>The decision after the second measurement of the start window.\<close>

definition decide :: "u32 \<Rightarrow> f64 \<Rightarrow> f64 \<Rightarrow> f64 \<Rightarrow> Choice \<times> bool \<times> bool" where
  "decide target before after tried =
     (let start_rate = f64_div (f64_add before after) (F_Fin 2);
          remember = f64_le (f64_abs (f64_sub before after)) (f64_mul start_rate MAX_DRIFT);
          keep = f64_lt (f64_mul start_rate (f64_add (F_Fin 1) MIN_GAIN)) tried
      in (\<lparr>ch_window = if keep then target else START_WINDOW, ch_start_rate = start_rate,
           ch_tried = target, ch_tried_rate = tried\<rparr>, remember, keep))"

definition Tuner_launched :: "Tuner \<Rightarrow> u32 \<Rightarrow> u64 \<Rightarrow> duration \<Rightarrow> Tuner \<times> Action" where
  "Tuner_launched t window hashes busy =
     (let target = tn_target t
      in case tn_phase t of
           WarmUp mined \<Rightarrow>
             if window = START_WINDOW \<and> tn_ready t
             then let mined = mined + busy
                  in (t\<lparr>tn_phase := if WARM_UP \<le> mined then MeasureStart Rate_default else WarmUp mined\<rparr>, Wait)
             else (t, Wait)
         | MeasureStart rate \<Rightarrow>
             if window = START_WINDOW
             then let rate = Rate_add rate hashes busy
                  in if ra_busy rate < MEASURE then (t\<lparr>tn_phase := MeasureStart rate\<rparr>, Wait)
                     else (t\<lparr>tn_phase := Settle (per_second rate) 0\<rparr>, Switch target)
             else (t, Wait)
         | Settle before mined \<Rightarrow>
             if window = target
             then let mined = mined + busy
                  in (t\<lparr>tn_phase := if SETTLE \<le> mined then MeasureTarget before Rate_default
                                    else Settle before mined\<rparr>, Wait)
             else (t, Wait)
         | MeasureTarget before rate \<Rightarrow>
             if window = target
             then let rate = Rate_add rate hashes busy
                  in if ra_busy rate < MEASURE then (t\<lparr>tn_phase := MeasureTarget before rate\<rparr>, Wait)
                     else (t\<lparr>tn_phase := SettleBack before (per_second rate) 0\<rparr>, Switch START_WINDOW)
             else (t, Wait)
         | SettleBack before tried mined \<Rightarrow>
             if window = START_WINDOW
             then let mined = mined + busy
                  in (t\<lparr>tn_phase := if SETTLE \<le> mined then MeasureBack before tried Rate_default
                                    else SettleBack before tried mined\<rparr>, Wait)
             else (t, Wait)
         | MeasureBack before tried rate \<Rightarrow>
             if window = START_WINDOW
             then let rate = Rate_add rate hashes busy
                  in if ra_busy rate < MEASURE then (t\<lparr>tn_phase := MeasureBack before tried rate\<rparr>, Wait)
                     else let (choice, remember, keep) = decide target before (per_second rate) tried
                          in if keep then (t\<lparr>tn_phase := Return choice remember\<rparr>, Switch target)
                             else (t\<lparr>tn_phase := Finished\<rparr>, Done choice remember)
             else (t, Wait)
         | Return _ _ \<Rightarrow> (t, Wait)
         | Recalled _ \<Rightarrow> (t, Wait)
         | Finished \<Rightarrow> (t, Wait))"

definition Tuner_ready :: "Tuner \<Rightarrow> Tuner \<times> Action" where
  "Tuner_ready t =
     (let t = t\<lparr>tn_ready := True\<rparr>
      in (t, case tn_phase t of Recalled window \<Rightarrow> Switch window | _ \<Rightarrow> Wait))"

definition unmeasured :: "u32 \<Rightarrow> u32 \<Rightarrow> Choice" where
  "unmeasured window tried =
     \<lparr>ch_window = window, ch_start_rate = F_Fin 0, ch_tried = tried, ch_tried_rate = F_Fin 0\<rparr>"

text \<open>The arms of \<open>switched\<close> below the successes: the switch failed.\<close>

definition switch_failed :: "Tuner \<Rightarrow> u32 \<Rightarrow> Tuner \<times> Action" where
  "switch_failed t window =
     (let other = (if window \<noteq> START_WINDOW then Done (unmeasured START_WINDOW window) True
                   else Done (unmeasured START_WINDOW (tn_target t)) False)
      in case (tn_phase t, tn_fallback t) of
           (Settle before _, w # ws) \<Rightarrow>
             if window = tn_target t
             then (t\<lparr>tn_target := w, tn_fallback := ws, tn_phase := Settle before 0\<rparr>, Switch w)
             else (t\<lparr>tn_phase := Finished\<rparr>, other)
         | _ \<Rightarrow> (t\<lparr>tn_phase := Finished\<rparr>, other))"

definition Tuner_switched :: "Tuner \<Rightarrow> u32 \<Rightarrow> bool \<Rightarrow> Tuner \<times> Action" where
  "Tuner_switched t window ok =
     (if ok
      then case tn_phase t of
             Return choice remember \<Rightarrow>
               if window = tn_target t then (t\<lparr>tn_phase := Finished\<rparr>, Done choice remember) else (t, Wait)
           | Recalled _ \<Rightarrow> (t\<lparr>tn_phase := Finished\<rparr>, Done (unmeasured window window) False)
           | _ \<Rightarrow> (t, Wait)
      else switch_failed t window)"

section \<open>Lemmas\<close>

subsection \<open>The rows cover a scalar\<close>

definition row_digit :: "nat \<Rightarrow> Row \<Rightarrow> nat" where
  "row_digit k r = k div 2 ^ unat (row_pos r) mod (unat (row_points r) + 1)"

lemma unat_shifted_ones: "b < 64 \<Longrightarrow> unat (push_bit b 1 - 1 :: u64) = 2 ^ b - 1"
proof -
  assume b: "b < 64"
  have lt: "(2::nat) ^ b < 2 ^ 64" using b by (intro power_strict_increasing) simp_all
  then have p: "unat (push_bit b 1 :: u64) = 2 ^ b"
    using unat_of_nat [where 'a = 64, of "2 ^ b"] by simp
  then have "push_bit b 1 \<noteq> (0 :: u64)" by (metis power_not_zero unat_0 zero_neq_numeral)
  with p show ?thesis by (simp add: unat_minus_one)
qed

lemma rows_from_cover:
  assumes "unat p \<le> 256" and "\<And>w. w \<in> set ws \<Longrightarrow> unat w < 64"
  shows "sum_list (map (\<lambda>r. row_digit k r * 2 ^ unat (row_pos r)) (rows_from p ws)) =
    k div 2 ^ unat p mod 2 ^ min (sum_list (map unat ws)) (256 - unat p) * 2 ^ unat p"
  using assms
proof (induction ws arbitrary: p)
  case Nil
  then show ?case by simp
next
  case (Cons w ws)
  define b where "b = min (unat w) (256 - unat p)"
  define m where "m = min (sum_list (map unat ws)) (256 - (unat p + b))"
  have b64: "b < 64" using Cons.prems(2) [of w] by (simp add: b_def)
  have u256: "unat (256 - p) = 256 - unat p"
    using Cons.prems(1) by (simp add: unat_sub word_le_nat_alt)
  then have ub: "unat (min w (256 - p)) = b" by (simp add: unat_min b_def)
  have up: "unat (p + min w (256 - p)) = unat p + b"
    using Cons.prems(1) b64 by (subst unat_add_no_overflow) (simp_all add: ub)
  have IH: "sum_list (map (\<lambda>r. row_digit k r * 2 ^ unat (row_pos r)) (rows_from (p + min w (256 - p)) ws)) =
      k div 2 ^ (unat p + b) mod 2 ^ m * 2 ^ (unat p + b)"
    using Cons.IH [of "p + min w (256 - p)"] Cons.prems by (simp add: up m_def b_def)
  have bm: "min (unat w + sum_list (map unat ws)) (256 - unat p) = b + m"
    by (auto simp: b_def m_def)
  let ?x = "k div 2 ^ unat p"
  have dd: "k div 2 ^ (unat p + b) = ?x div 2 ^ b" by (simp add: power_add div_mult2_eq)
  have "?x mod 2 ^ (b + m) = 2 ^ b * (?x div 2 ^ b mod 2 ^ m) + ?x mod 2 ^ b"
    by (simp add: power_add mod_mult2_eq)
  then have "?x mod 2 ^ (b + m) * 2 ^ unat p =
      ?x mod 2 ^ b * 2 ^ unat p + k div 2 ^ (unat p + b) mod 2 ^ m * 2 ^ (unat p + b)"
    unfolding dd by (simp add: power_add algebra_simps)
  moreover have "row_digit k \<lparr>row_pos = p, row_places = v, row_points = push_bit b 1 - 1\<rparr> = ?x mod 2 ^ b" for v
    using unat_shifted_ones [OF b64] by (simp add: row_digit_def)
  ultimately show ?case
    unfolding rows_from.simps Let_def ub list.map sum_list.Cons IH by (simp add: bm)
qed

lemma digits_widths:
  assumes "digits w = Some ds"
  shows "256 \<le> sum_list (map unat ds) \<and> (\<forall>d\<in>set ds. 0 < unat d \<and> unat d < 64)"
proof (cases "2 \<le> w \<and> w \<le> 20")
  case True
  then have w: "2 \<le> unat w" "unat w \<le> 20" by (simp_all add: word_le_nat_alt)
  have ds: "ds = replicate (div_ceil 256 (unat w)) w" using True assms by (simp add: digits_def)
  have "256 \<le> div_ceil 256 (unat w) * unat w"
  proof -
    have "256 + unat w - 1 < (div_ceil 256 (unat w) + 1) * unat w"
      unfolding div_ceil_def using w by (metis add.commute dividend_less_times_div mult.commute mult_Suc plus_1_eq_Suc zero_less_numeral less_le_trans)
    then show ?thesis by simp
  qed
  with w show ?thesis by (simp add: ds sum_list_replicate)
next
  case False
  then have "ds = replicate 8 21 @ replicate 4 22 \<or> ds = replicate 8 23 @ replicate 3 24"
    using assms by (auto simp: digits_def split: if_splits)
  then show ?thesis by (auto simp: sum_list_replicate)
qed

lemma rows_from_points:
  assumes "\<And>w. w \<in> set ws \<Longrightarrow> unat w < 64" and "r \<in> set (rows_from p ws)"
  shows "row_points r \<le> row_places r"
  using assms
proof (induction ws arbitrary: p)
  case (Cons w ws)
  have "unat (min w (256 - p)) \<le> unat w" by (simp add: unat_min)
  then have "unat (push_bit (unat (min w (256 - p))) 1 - 1 :: u64) \<le> unat (push_bit (unat w) 1 - 1 :: u64)"
    using Cons.prems(1) [of w] by (simp add: unat_shifted_ones diff_le_mono del: push_bit_of_1)
  with Cons show ?case by (auto simp: Let_def word_le_nat_alt)
qed simp

subsection \<open>The tuner and the card it drives\<close>

text \<open>
  How the GPU worker drives a tuner: launches come in while no switch is asked for; \<open>Build\<close> is
  answered by \<open>ready\<close>; a \<open>Switch\<close> is carried out before anything else, and a card that cannot
  make it is back at the start window. \<open>ts_action\<close> is the action not yet answered.
\<close>

record TuneState =
  ts_tuner :: Tuner
  ts_card :: u32
  ts_action :: Action

definition answer :: "Action \<Rightarrow> Tuner \<times> Action \<Rightarrow> Tuner \<times> Action" where
  "answer a r = (fst r, if snd r = Wait then a else snd r)"

inductive tune_step :: "TuneState \<Rightarrow> TuneState \<Rightarrow> bool" where
  launch: "ts_action s = Wait \<or> (\<exists>w. ts_action s = Build w) \<Longrightarrow>
    answer (ts_action s) (Tuner_launched (ts_tuner s) (ts_card s) hashes busy) = (t, a) \<Longrightarrow>
    tune_step s (s\<lparr>ts_tuner := t, ts_action := a\<rparr>)"
| built: "ts_action s = Build w \<Longrightarrow> Tuner_ready (ts_tuner s) = (t, a) \<Longrightarrow>
    tune_step s (s\<lparr>ts_tuner := t, ts_action := a\<rparr>)"
| switch_ok: "ts_action s = Switch w \<Longrightarrow> Tuner_switched (ts_tuner s) w True = (t, a) \<Longrightarrow>
    tune_step s \<lparr>ts_tuner = t, ts_card = w, ts_action = a\<rparr>"
| switch_fail: "ts_action s = Switch w \<Longrightarrow> Tuner_switched (ts_tuner s) w False = (t, a) \<Longrightarrow>
    tune_step s \<lparr>ts_tuner = t, ts_card = START_WINDOW, ts_action = a\<rparr>"

text \<open>A choice of a bigger window rests on a measured gain.\<close>

definition gained :: "Choice \<Rightarrow> bool" where
  "gained c \<longleftrightarrow> f64_lt (f64_mul (ch_start_rate c) (f64_add (F_Fin 1) MIN_GAIN)) (ch_tried_rate c) \<and>
     ch_tried c = ch_window c"

fun phase_ok :: "u32 \<Rightarrow> u32 \<Rightarrow> bool \<Rightarrow> Action \<Rightarrow> Phase \<Rightarrow> bool" where
  "phase_ok target w0 rdy a (WarmUp _) \<longleftrightarrow> w0 = START_WINDOW \<and> (if rdy then a = Wait else a = Build target)"
| "phase_ok target w0 rdy a (MeasureStart _) \<longleftrightarrow> w0 = START_WINDOW \<and> a = Wait \<and> rdy"
| "phase_ok target w0 rdy a (Settle _ m) \<longleftrightarrow> (a = Wait \<and> w0 = target \<or> a = Switch target \<and> m = 0) \<and> rdy"
| "phase_ok target w0 rdy a (MeasureTarget _ _) \<longleftrightarrow> a = Wait \<and> w0 = target \<and> rdy"
| "phase_ok target w0 rdy a (SettleBack _ _ m) \<longleftrightarrow>
     (a = Wait \<and> w0 = START_WINDOW \<or> a = Switch START_WINDOW \<and> m = 0) \<and> rdy"
| "phase_ok target w0 rdy a (MeasureBack _ _ _) \<longleftrightarrow> a = Wait \<and> w0 = START_WINDOW \<and> rdy"
| "phase_ok target w0 rdy a (Return c _) \<longleftrightarrow> a = Switch target \<and> ch_window c = target \<and> gained c \<and> rdy"
| "phase_ok target w0 rdy a (Recalled w) \<longleftrightarrow>
     w = target \<and> w0 = START_WINDOW \<and> (if rdy then a = Switch w else a = Build w)"
| "phase_ok target w0 rdy a Finished \<longleftrightarrow> (\<exists>c r. a = Done c r \<and> ch_window c = w0)"

definition tune_inv :: "u32 \<Rightarrow> u32 option \<Rightarrow> TuneState \<Rightarrow> bool" where
  "tune_inv fit recalled s \<longleftrightarrow>
     (let t = ts_tuner s
      in START_WINDOW < tn_target t \<and> tn_target t \<le> fit \<and>
         (\<forall>w\<in>set (tn_fallback t). START_WINDOW < w \<and> w < tn_target t) \<and> sorted_wrt (>) (tn_fallback t) \<and>
         phase_ok (tn_target t) (ts_card s) (tn_ready t) (ts_action s) (tn_phase t) \<and>
         (case recalled of
            None \<Rightarrow> (\<forall>w. tn_phase t \<noteq> Recalled w) \<and>
              (\<forall>c r. ts_action s = Done c r \<longrightarrow> ch_window c = START_WINDOW \<or> gained c)
          | Some w \<Rightarrow> tn_target t = w \<and> tn_phase t \<in> {Recalled w, Finished} \<and>
              (\<forall>c r. ts_action s = Done c r \<longrightarrow> ch_window c \<in> {START_WINDOW, w})))"

lemma decide_window:
  "decide target b x tr = (c, r, keep) \<Longrightarrow>
     ch_window c = (if keep then target else START_WINDOW) \<and> (keep \<longrightarrow> gained c)"
  by (auto simp: decide_def gained_def Let_def)

lemma START_less_irrefl: "START_WINDOW < w \<Longrightarrow> w \<noteq> START_WINDOW"
  by auto

lemma tune_inv_launch:
  assumes "tune_inv fit rec s" and "ts_action s = Wait \<or> (\<exists>w. ts_action s = Build w)"
    and "answer (ts_action s) (Tuner_launched (ts_tuner s) (ts_card s) hashes busy) = (t, a)"
  shows "tune_inv fit rec (s\<lparr>ts_tuner := t, ts_action := a\<rparr>)"
proof -
  let ?t = "ts_tuner s"
  show ?thesis
  proof (cases "tn_phase ?t")
    case (MeasureBack b tr rate)
    obtain c r keep where d: "decide (tn_target ?t) b (per_second (Rate_add rate hashes busy)) tr = (c, r, keep)"
      by (metis prod_cases3)
    with decide_window [OF d] MeasureBack assms show ?thesis
      by (auto simp: tune_inv_def Tuner_launched_def answer_def Let_def split: if_splits option.splits)
  qed (use assms in \<open>auto simp: tune_inv_def Tuner_launched_def answer_def Let_def split: if_splits option.splits\<close>)
qed

lemma tune_inv_step: "tune_step s s' \<Longrightarrow> tune_inv fit rec s \<Longrightarrow> tune_inv fit rec s'"
proof (induction rule: tune_step.induct)
  case (launch s hashes busy t a)
  then show ?case by (blast intro: tune_inv_launch)
next
  case (built s w t a)
  then show ?case
    by (cases "tn_phase (ts_tuner s)") (auto simp: tune_inv_def Tuner_ready_def Let_def split: if_splits option.splits)
next
  case (switch_ok s w t a)
  then show ?case
    by (cases "tn_phase (ts_tuner s)")
      (auto simp: tune_inv_def Tuner_switched_def unmeasured_def Let_def split: if_splits option.splits)
next
  case (switch_fail s w t a)
  then show ?case
    by (cases "tn_phase (ts_tuner s)"; cases "tn_fallback (ts_tuner s)")
      (auto simp: tune_inv_def Tuner_switched_def switch_failed_def unmeasured_def Let_def split: if_splits option.splits)
qed

lemma tune_inv_start:
  assumes "Tuner_start (Some fit) recalled = Some (t, a)" and "fit \<in> set BIGGER"
  shows "tune_inv fit (map_option ch_window recalled) \<lparr>ts_tuner = t, ts_card = START_WINDOW, ts_action = a\<rparr>"
proof (cases recalled)
  case None
  have "sorted_wrt (>) (filter (\<lambda>w. w < fit) BIGGER)"
    by (intro sorted_wrt_filter) (simp add: BIGGER_def)
  moreover have "\<forall>w\<in>set BIGGER. START_WINDOW < w" by (simp add: BIGGER_def START_WINDOW_def)
  ultimately show ?thesis using None assms by (auto simp: Tuner_start_def tune_inv_def)
next
  case (Some c)
  then show ?thesis using assms by (auto simp: Tuner_start_def tune_inv_def split: if_splits)
qed

lemma tune_inv_reachable:
  assumes "tune_step\<^sup>*\<^sup>* s s'" and "tune_inv fit rec s"
  shows "tune_inv fit rec s'"
  using assms by (induction rule: rtranclp_induct) (auto intro: tune_inv_step)

text \<open>
  GPU time (in ns) and answers a tuning still needs at most: it falls with every launch that
  took any time, once the bigger window is ready, and with every answer to an action.
\<close>

fun phase_left :: "Phase \<Rightarrow> nat" where
  "phase_left (WarmUp m) = (WARM_UP - m) + 3 * MEASURE + 2 * SETTLE + 13"
| "phase_left (MeasureStart r) = (MEASURE - ra_busy r) + 2 * MEASURE + 2 * SETTLE + 12"
| "phase_left (Settle _ m) = (SETTLE - m) + 2 * MEASURE + SETTLE + 10"
| "phase_left (MeasureTarget _ r) = (MEASURE - ra_busy r) + MEASURE + SETTLE + 9"
| "phase_left (SettleBack _ _ m) = (SETTLE - m) + MEASURE + 7"
| "phase_left (MeasureBack _ _ r) = (MEASURE - ra_busy r) + 6"
| "phase_left (Return _ _) = 2"
| "phase_left (Recalled _) = 2"
| "phase_left Finished = 0"

definition tune_left :: "TuneState \<Rightarrow> nat" where
  "tune_left s = phase_left (tn_phase (ts_tuner s)) + length (tn_fallback (ts_tuner s)) +
     (if tn_ready (ts_tuner s) then 0 else 2) + (case ts_action s of Switch _ \<Rightarrow> 1 | _ \<Rightarrow> 0)"

lemma tune_left_launch:
  assumes "tune_inv fit rec s" and "ts_action s = Wait" and "0 < busy"
    and "Tuner_launched (ts_tuner s) (ts_card s) hashes busy = (t, a)"
  shows "tune_left (s\<lparr>ts_tuner := t, ts_action := a\<rparr>) < tune_left s"
  using assms
  by (cases "tn_phase (ts_tuner s)")
    (auto simp: tune_inv_def Tuner_launched_def tune_left_def Rate_add_def Rate_default_def Let_def split_def
      split: if_splits)

lemma tune_left_answer:
  assumes "tune_inv fit rec s"
  shows "ts_action s = Build w \<Longrightarrow> Tuner_ready (ts_tuner s) = (t, a) \<Longrightarrow>
      tune_left (s\<lparr>ts_tuner := t, ts_action := a\<rparr>) < tune_left s"
    and "ts_action s = Switch w \<Longrightarrow> Tuner_switched (ts_tuner s) w ok = (t, a) \<Longrightarrow>
      tune_left \<lparr>ts_tuner = t, ts_card = c, ts_action = a\<rparr> < tune_left s"
proof -
  show "tune_left (s\<lparr>ts_tuner := t, ts_action := a\<rparr>) < tune_left s"
    if "ts_action s = Build w" and "Tuner_ready (ts_tuner s) = (t, a)"
    using assms that(2)
    by (cases "tn_phase (ts_tuner s)")
      (auto simp: that(1) tune_inv_def Tuner_ready_def tune_left_def Let_def split: if_splits)
  show "tune_left \<lparr>ts_tuner = t, ts_card = c, ts_action = a\<rparr> < tune_left s"
    if "ts_action s = Switch w" and "Tuner_switched (ts_tuner s) w ok = (t, a)"
    using assms that
    by (cases "tn_phase (ts_tuner s)"; cases "tn_fallback (ts_tuner s)")
      (auto simp: tune_inv_def Tuner_switched_def switch_failed_def tune_left_def Let_def split: if_splits)
qed

subsection \<open>Windows that fit\<close>

lemma table_bytes_values:
  "table_bytes 24 = 30065112320" "table_bytes 22 = 8590275584" "table_bytes 20 = 3490001664"
  "table_bytes 19 = 1879388672" "table_bytes 18 = 1006973184"
  by code_simp+

section \<open>Properties\<close>

text \<open>
  At every window there is a kernel for, the rows of a table cover a 256-bit scalar exactly: the
  digits read at the rows' positions put it together again, and no row has more points than
  places.
\<close>

theorem table_rows_cover_scalar:
  assumes "rows window = Some rs" and "k < 2 ^ 256"
  shows "sum_list (map (\<lambda>r. (k div 2 ^ unat (row_pos r)) mod (unat (row_points r) + 1) * 2 ^ unat (row_pos r)) rs) = k \<and>
    (\<forall>r\<in>set rs. row_points r \<le> row_places r)"
proof -
  obtain ds where ds: "digits window = Some ds" "rs = rows_from 0 ds" using assms(1) by (auto simp: rows_def)
  note w = digits_widths [OF ds(1)]
  then have "min (sum_list (map unat ds)) 256 = 256" by simp
  then have "sum_list (map (\<lambda>r. row_digit k r * 2 ^ unat (row_pos r)) rs) = k"
    using rows_from_cover [of 0 ds k] w assms(2) by (simp add: ds(2))
  then show ?thesis using rows_from_points [of ds _ 0] w by (auto simp: row_digit_def ds(2))
qed

theorem table_rows_cover_scalar_witness:
  "\<exists>rs. rows 16 = Some rs \<and>
     sum_list (map (\<lambda>r. (12345678901 div 2 ^ unat (row_pos r)) mod (unat (row_points r) + 1) * 2 ^ unat (row_pos r)) rs)
       = (12345678901 :: nat)"
proof -
  obtain rs where "rows 16 = Some rs" by (simp add: rows_def digits_def)
  with table_rows_cover_scalar [OF this, of 12345678901] show ?thesis by auto
qed

text \<open>
  \<open>largest_fitting\<close> gives the largest of the windows tried whose tables leave a GiB of the
  free memory, none of the sums wrapping, and None exactly when none of them does.
\<close>

theorem largest_fitting_correct:
  "(largest_fitting v = Some w \<longleftrightarrow>
      w \<in> set BIGGER \<and> unat (table_bytes w) + 2 ^ 30 \<le> unat v \<and>
      (\<forall>w'\<in>set BIGGER. w < w' \<longrightarrow> unat v < unat (table_bytes w') + 2 ^ 30)) \<and>
   (largest_fitting v = None \<longleftrightarrow> (\<forall>w\<in>set BIGGER. unat v < unat (table_bytes w) + 2 ^ 30))"
proof -
  have "unat (table_bytes w + VRAM_SPARE) = unat (table_bytes w) + 2 ^ 30" if "w \<in> set BIGGER" for w
    using that by (auto simp: BIGGER_def VRAM_SPARE_def table_bytes_values)
  then have fits: "table_bytes w + VRAM_SPARE \<le> v \<longleftrightarrow> unat (table_bytes w) + 2 ^ 30 \<le> unat v" if "w \<in> set BIGGER" for w
    using that by (simp add: word_le_nat_alt)
  have "largest_fitting v = find (\<lambda>w. unat (table_bytes w) + 2 ^ 30 \<le> unat v) BIGGER"
    unfolding largest_fitting_def by (intro find_cong refl) (simp add: fits)
  then show ?thesis by (auto simp: BIGGER_def not_le split: if_splits)
qed

theorem largest_fitting_correct_witness: "largest_fitting (push_bit 32 1) = Some 19"
  using largest_fitting_correct [of "push_bit 32 1" 19]
  by (simp add: BIGGER_def table_bytes_values)

text \<open>
  C37. However the launches and switches of a card turn out, the tuner only ever asks for the start
  window or one that fits the card, and when it is done the card is at the window it chose:
  the start window, one that measured faster than the start window by more than the required
  gain, or the one it was chosen for this card before.
\<close>

theorem tuner_keeps_only_gains:
  assumes "Tuner_start (Some fit) recalled = Some (t, a)" and "fit \<in> set BIGGER"
    and "tune_step\<^sup>*\<^sup>* \<lparr>ts_tuner = t, ts_card = START_WINDOW, ts_action = a\<rparr> s"
  shows "(\<forall>w. ts_action s \<in> {Switch w, Build w} \<longrightarrow> w = START_WINDOW \<or> START_WINDOW < w \<and> w \<le> fit) \<and>
    (\<forall>c r. ts_action s = Done c r \<longrightarrow> ch_window c = ts_card s \<and>
       (ch_window c = START_WINDOW \<or> gained c \<or> (\<exists>p. recalled = Some p \<and> ch_window p = ch_window c)))"
proof -
  have inv: "tune_inv fit (map_option ch_window recalled) s"
    using tune_inv_reachable [OF assms(3) tune_inv_start [OF assms(1,2)]] .
  let ?t = "ts_tuner s"
  have p: "phase_ok (tn_target ?t) (ts_card s) (tn_ready ?t) (ts_action s) (tn_phase ?t)"
    and fit: "START_WINDOW < tn_target ?t" "tn_target ?t \<le> fit"
    using inv by (simp_all add: tune_inv_def Let_def)
  have "ts_action s \<in> {Switch w, Build w} \<Longrightarrow> w = START_WINDOW \<or> w = tn_target ?t" for w
    using p by (cases "tn_phase ?t") (auto split: if_splits)
  moreover have "ts_action s = Done c r \<Longrightarrow> ch_window c = ts_card s" for c r
    using p by (cases "tn_phase ?t") (auto split: if_splits)
  moreover have "ch_window c = START_WINDOW \<or> gained c \<or> (\<exists>p. recalled = Some p \<and> ch_window p = ch_window c)"
    if "ts_action s = Done c r" for c r
    using inv that by (cases recalled) (auto simp: tune_inv_def Let_def)
  ultimately show ?thesis using fit by blast
qed

definition tuner_20 :: Tuner where
  "tuner_20 = \<lparr>tn_target = 20, tn_fallback = [19, 18], tn_ready = False, tn_phase = WarmUp 0\<rparr>"

lemma start_20: "Tuner_start (Some 20) None = Some (tuner_20, Build 20)"
  by (simp add: Tuner_start_def tuner_20_def BIGGER_def)

theorem tuner_keeps_only_gains_witness:
  "\<exists>s. tune_step\<^sup>*\<^sup>* \<lparr>ts_tuner = tuner_20, ts_card = START_WINDOW, ts_action = Build 20\<rparr> s \<and> ts_action s = Wait \<and>
     (\<forall>c r. ts_action s = Done c r \<longrightarrow> ch_window c = ts_card s)"
proof -
  let ?s = "\<lparr>ts_tuner = tuner_20, ts_card = START_WINDOW, ts_action = Build 20\<rparr>"
  have "Tuner_ready tuner_20 = (tuner_20\<lparr>tn_ready := True\<rparr>, Wait)" by (simp add: Tuner_ready_def tuner_20_def)
  then have step: "tune_step\<^sup>*\<^sup>* ?s (?s\<lparr>ts_tuner := tuner_20\<lparr>tn_ready := True\<rparr>, ts_action := Wait\<rparr>)"
    by (intro r_into_rtranclp tune_step.built) simp_all
  have "(20 :: u32) \<in> set BIGGER" by (simp add: BIGGER_def)
  from tuner_keeps_only_gains [OF start_20 this step] step show ?thesis by (intro exI conjI) auto
qed

text \<open>
  C38. A tuning ends: \<open>tune_left\<close>, at the start 330 seconds of GPU time and a few answers, falls with
  every answer to an action, whichever way it goes, and with every launch of a card that waits
  for nothing and took any time. So after that much GPU time the tuner has said \<open>Done\<close>.
\<close>

theorem tuner_terminates:
  assumes "Tuner_start (Some fit) recalled = Some (t0, a0)" and "fit \<in> set BIGGER"
    and "tune_step\<^sup>*\<^sup>* \<lparr>ts_tuner = t0, ts_card = START_WINDOW, ts_action = a0\<rparr> s"
  shows "tune_left \<lparr>ts_tuner = t0, ts_card = START_WINDOW, ts_action = a0\<rparr> \<le> from_secs 330 + 20 \<and>
    (case ts_action s of
       Wait \<Rightarrow> \<forall>hashes busy t a. 0 < busy \<longrightarrow> Tuner_launched (ts_tuner s) (ts_card s) hashes busy = (t, a) \<longrightarrow>
         tune_left (s\<lparr>ts_tuner := t, ts_action := a\<rparr>) < tune_left s
     | Build w \<Rightarrow> \<forall>t a. Tuner_ready (ts_tuner s) = (t, a) \<longrightarrow>
         tune_left (s\<lparr>ts_tuner := t, ts_action := a\<rparr>) < tune_left s
     | Switch w \<Rightarrow> \<forall>ok t a c. Tuner_switched (ts_tuner s) w ok = (t, a) \<longrightarrow>
         tune_left \<lparr>ts_tuner = t, ts_card = c, ts_action = a\<rparr> < tune_left s
     | Done c r \<Rightarrow> tn_phase (ts_tuner s) = Finished)"
proof -
  have inv: "tune_inv fit (map_option ch_window recalled) s"
    using tune_inv_reachable [OF assms(3) tune_inv_start [OF assms(1,2)]] .
  have fin: "ts_action s = Done c r \<Longrightarrow> tn_phase (ts_tuner s) = Finished" for c r
    using inv by (cases "tn_phase (ts_tuner s)") (auto simp: tune_inv_def Let_def split: if_splits)
  have len: "length (filter (\<lambda>w. w < fit) BIGGER) \<le> 5"
    using length_filter_le [of "\<lambda>w. w < fit" BIGGER] by (simp add: BIGGER_def)
  have "tune_left \<lparr>ts_tuner = t0, ts_card = START_WINDOW, ts_action = a0\<rparr> \<le> from_secs 330 + 20"
    using assms(1) len
    by (auto simp: Tuner_start_def tune_left_def WARM_UP_def MEASURE_def SETTLE_def from_secs_def split: option.splits if_splits)
  moreover note tune_left_launch [OF inv] tune_left_answer [OF inv] fin
  ultimately show ?thesis by (cases "ts_action s") auto
qed

theorem tuner_terminates_witness:
  "tune_left \<lparr>ts_tuner = tuner_20, ts_card = START_WINDOW, ts_action = Build 20\<rparr> \<le> from_secs 330 + 20"
  using tuner_terminates [OF start_20 _ rtranclp.rtrancl_refl] by (simp add: BIGGER_def)

text \<open>
  Remembering a choice writes the file anew with that choice put in among those it held, and a step that fails leaves
  the file as it was. (Whether the next start recalls it rests on \<open>serde_json\<close> reading back what it wrote.)
\<close>

lemma remember_in_file:
  assumes "tmp \<noteq> p" and "remember_in parse print fail partial tmp p k choice fs = (res, fs')"
  shows "fs' p = (if res = Inr () then Some (print ((read_all parse fs p)(k \<mapsto> choice))) else fs p)"
  using assms by (auto simp: remember_in_def Let_def split: option.splits)

end
