(* ===== verification/Backends.thy ===== *)
theory Backends
  imports Tuning
begin

text \<open>
  \<open>src/backend/mod.rs\<close>: the hit budget, launches and scans, choosing and pairing devices; the
  launch queue of \<open>src/backend/cuda.rs\<close> and \<open>src/backend/opencl.rs\<close>; the self-test of
  \<open>src/backend/bc3.rs\<close>. A backend is a record of the trait's methods over its own state; the
  drivers and kernels behind them are arguments. Device names are ASCII strings.
\<close>

section \<open>Definitions\<close>

subsection \<open>The hit budget\<close>

definition MAX_HITS :: nat where
  "MAX_HITS = 64"

definition RECOVER_AFTER :: u32 where
  "RECOVER_AFTER = 64"

record HitBudget =
  hb_limit :: "u32 option"
  hb_logged :: bool
  hb_clean_runs :: u32

definition HitBudget_default :: HitBudget where
  "HitBudget_default = \<lparr>hb_limit = None, hb_logged = False, hb_clean_runs = 0\<rparr>"

definition chunk_of :: "HitBudget \<Rightarrow> u32 \<Rightarrow> u32" where
  "chunk_of b remaining = (case hb_limit b of Some limit \<Rightarrow> min limit remaining | None \<Rightarrow> remaining)"

definition div_ceil_2 :: "u32 \<Rightarrow> u32" where
  "div_ceil_2 x = x div 2 + x mod 2"

definition overflowed :: "HitBudget \<Rightarrow> u32 \<Rightarrow> nat \<Rightarrow> HitBudget \<times> string option" where
  "overflowed b chunk reported =
     (if reported \<le> MAX_HITS
      then (case hb_limit b of
              None \<Rightarrow> b
            | Some limit \<Rightarrow>
                if reported * 4 \<le> MAX_HITS
                then let runs = hb_clean_runs b + 1
                     in if RECOVER_AFTER \<le> runs then b\<lparr>hb_clean_runs := 0, hb_limit := checked_mul limit 2\<rparr>
                        else b\<lparr>hb_clean_runs := runs\<rparr>
                else b\<lparr>hb_clean_runs := 0\<rparr>, None)
      else let b = b\<lparr>hb_clean_runs := 0\<rparr>;
               b = b\<lparr>hb_limit := Some (max (div_ceil_2 (chunk_of b chunk)) 1)\<rparr>
           in if hb_logged b then (b, None)
              else (b\<lparr>hb_logged := True\<rparr>,
                    Some (''[gpu] kernel reported '' @ dec reported @ '' hits but only '' @ dec MAX_HITS @
                      '' fit in the buffer - '' @ dec (reported - MAX_HITS) @
                      '' nonce(s) dropped. Halving the batch to '' @
                      dec (unat (case hb_limit b of Some l \<Rightarrow> l | None \<Rightarrow> 1)) @ '' nonces per launch. '' @
                      ''This means the share difficulty is far below what this device needs.'')))"

subsection \<open>Backends and their launch queue\<close>

definition kernel_supports :: "bool \<Rightarrow> PowAlgo \<Rightarrow> bool" where
  "kernel_supports bc3hash_feature algo =
     (case algo of Bc3Hash \<Rightarrow> bc3hash_feature | Sha256d \<Rightarrow> False | Sha3t \<Rightarrow> False)"

record Launch =
  la_algo :: PowAlgo
  la_header76 :: bytes
  la_start :: u32
  la_count :: u32
  la_target :: Target

record Scan =
  sc_hits :: "u32 list"
  sc_reported :: nat
  sc_busy :: "duration option"

record 'b MiningBackend =
  be_name :: "'b \<Rightarrow> string"
  be_has_kernel :: "'b \<Rightarrow> PowAlgo \<Rightarrow> bool"
  be_supports :: "'b \<Rightarrow> PowAlgo \<Rightarrow> bool"
  be_prepare_bc3hash :: "'b \<Rightarrow> u32 \<Rightarrow> (string + duration) \<times> 'b"
  be_bc3hash_window :: "'b \<Rightarrow> u32 option"
  be_memory :: "'b \<Rightarrow> (u64 \<times> u64) option"
  be_compile_ahead :: "'b \<Rightarrow> u32 \<Rightarrow> bool"
  be_compiles_at_load :: "'b \<Rightarrow> bool"
  be_launch_granule :: "'b \<Rightarrow> PowAlgo \<Rightarrow> u32"
  be_enqueue :: "'b \<Rightarrow> Launch \<Rightarrow> (string + unit) \<times> 'b"
  be_collect :: "'b \<Rightarrow> (string + Scan) \<times> 'b"
  be_in_flight :: "'b \<Rightarrow> nat"
  be_abandon :: "'b \<Rightarrow> 'b"

text \<open>
  An abstract queue of launches, a specification and not the code of either backend (that is in the theories Cuda and
  Opencl): a ring of hit buffers, the places queued, the place the next launch takes. A launch leaves \<open>kern\<close> of itself in its
  buffer, and nothing is copied, skipped or read back. The rings of slots of both backends are abstracted to it
  (\<open>ring_of\<close>, \<open>cl_ring\<close>) for the invariants on which slots are free, and it is the example of a backend in the theories that
  take one as an argument. \<open>fail\<close> is the error queueing or collecting ends with, if any.
\<close>

record GpuQueue =
  gq_slots :: "u32 list list"
  gq_queued :: "nat list"
  gq_next_slot :: nat

definition gpu_queue_new :: GpuQueue where
  "gpu_queue_new = \<lparr>gq_slots = replicate QUEUE_DEPTH (replicate (MAX_HITS + 1) 0), gq_queued = [], gq_next_slot = 0\<rparr>"

definition enqueue :: "(Launch \<Rightarrow> u32 list) \<Rightarrow> string option \<Rightarrow> GpuQueue \<Rightarrow> Launch \<Rightarrow> (string + unit) \<times> GpuQueue" where
  "enqueue kern fail q l =
     (if la_count l = 0 then (Inl ''a launch of 0 nonces'', q)
      else if QUEUE_DEPTH \<le> length (gq_queued q) then (Inl ''too many launches in flight'', q)
      else let i = gq_next_slot q
           in case fail of
                Some e \<Rightarrow> (Inl e, q)
              | None \<Rightarrow>
                  (Inr (), q\<lparr>gq_slots := (gq_slots q)[i := kern l], gq_queued := gq_queued q @ [i],
                             gq_next_slot := (i + 1) mod QUEUE_DEPTH\<rparr>))"

definition scan_of :: "u32 list \<Rightarrow> duration option \<Rightarrow> Scan" where
  "scan_of hits busy =
     (let reported = unat (hits ! 0); n = min reported MAX_HITS
      in \<lparr>sc_hits = take n (drop 1 hits), sc_reported = reported, sc_busy = busy\<rparr>)"

definition collect :: "string option \<Rightarrow> duration option \<Rightarrow> GpuQueue \<Rightarrow> (string + Scan) \<times> GpuQueue" where
  "collect fail busy q =
     (case gq_queued q of
        [] \<Rightarrow> (Inl ''no launch in flight'', q)
      | i # rest \<Rightarrow>
          let q = q\<lparr>gq_queued := rest\<rparr>
          in case fail of Some e \<Rightarrow> (Inl e, q) | None \<Rightarrow> (Inr (scan_of (gq_slots q ! i) busy), q))"

definition in_flight :: "GpuQueue \<Rightarrow> nat" where
  "in_flight q = length (gq_queued q)"

definition abandon :: "GpuQueue \<Rightarrow> GpuQueue" where
  "abandon q = q\<lparr>gq_queued := []\<rparr>"

subsection \<open>The self-test\<close>

text \<open>\<open>queued_scans\<close>: \<open>fuel\<close> bounds the final collecting loop, which runs while launches are in flight.\<close>

definition scan_one :: "'b MiningBackend \<Rightarrow> 'b \<Rightarrow> u32 list list \<Rightarrow> (string + u32 list list) \<times> 'b" where
  "scan_one be b scans =
     (case be_collect be b of
        (Inl e, b) \<Rightarrow> (Inl e, b)
      | (Inr scan, b) \<Rightarrow> (Inr (scans @ [sort (sc_hits scan)]), b))"

fun drain_scans :: "'b MiningBackend \<Rightarrow> nat \<Rightarrow> 'b \<Rightarrow> u32 list list \<Rightarrow> ((string + u32 list list) \<times> 'b) option" where
  "drain_scans be fuel b scans =
     (if be_in_flight be b = 0 then Some (Inr scans, b)
      else case fuel of
             0 \<Rightarrow> None
           | Suc fuel \<Rightarrow>
               (case scan_one be b scans of
                  (Inl e, b) \<Rightarrow> Some (Inl e, b)
                | (Inr scans, b) \<Rightarrow> drain_scans be fuel b scans))"

declare drain_scans.simps [simp del]

fun queue_scans ::
  "'b MiningBackend \<Rightarrow> nat \<Rightarrow> u32 \<Rightarrow> Target \<Rightarrow> (bytes \<times> u32) list \<Rightarrow> 'b \<Rightarrow> u32 list list \<Rightarrow>
   ((string + u32 list list) \<times> 'b) option" where
  "queue_scans be fuel count target [] b scans = drain_scans be fuel b scans"
| "queue_scans be fuel count target ((header76, start) # ls) b scans =
     (case be_enqueue be b \<lparr>la_algo = Bc3Hash, la_header76 = header76, la_start = start,
                            la_count = count, la_target = target\<rparr> of
        (Inl e, b) \<Rightarrow> Some (Inl e, b)
      | (Inr _, b) \<Rightarrow>
          if be_in_flight be b = QUEUE_DEPTH
          then (case scan_one be b scans of
                  (Inl e, b) \<Rightarrow> Some (Inl e, b)
                | (Inr scans, b) \<Rightarrow> queue_scans be fuel count target ls b scans)
          else queue_scans be fuel count target ls b scans)"

definition queued_scans ::
  "'b MiningBackend \<Rightarrow> nat \<Rightarrow> 'b \<Rightarrow> (bytes \<times> u32) list \<Rightarrow> u32 \<Rightarrow> Target \<Rightarrow> ((string + u32 list list) \<times> 'b) option"
where
  "queued_scans be fuel b launches count target = queue_scans be fuel count target launches b []"

definition TEST_COUNT :: u32 where
  "TEST_COUNT = 128"

definition test_target :: Target where
  "test_target = (replicate 32 0xff)[0 := 0x1f]"

text \<open>The CPU's own hits of one launch.\<close>

definition cpu_hits :: "PowFn \<Rightarrow> bytes \<Rightarrow> u32 \<Rightarrow> u32 list" where
  "cpu_hits pow header76 start =
     filter (\<lambda>nonce. hash_meets_target (pow (header76 @ to_le_bytes 4 nonce)) test_target)
       (map (\<lambda>n. start + word_of_nat n) [0..<unat TEST_COUNT])"

fun zip_differs :: "nat \<Rightarrow> bytes list \<Rightarrow> bytes list \<Rightarrow> nat option" where
  "zip_differs i (g # gs) (e # es) = (if g \<noteq> e then Some i else zip_differs (i + 1) gs es)"
| "zip_differs i _ _ = None"

fun launch_differs :: "PowFn \<Rightarrow> nat \<Rightarrow> (bytes \<times> u32) list \<Rightarrow> u32 list list \<Rightarrow> nat option" where
  "launch_differs pow i ((header76, start) # ls) (gpu # gs) =
     (if gpu \<noteq> cpu_hits pow header76 start then Some i else launch_differs pow (i + 1) ls gs)"
| "launch_differs pow i _ _ = None"

text \<open>
  \<open>self_test\<close>, given the random headers and launches it draws (\<open>headers\<close> with their CPU
  hashes \<open>expected\<close>, \<open>launches\<close>). The error says which header or launch differs.
\<close>

datatype self_test_error = Backend_error string | Header_differs nat | Launch_differs nat

definition self_test ::
  "'b MiningBackend \<Rightarrow> ('b \<Rightarrow> bytes list \<Rightarrow> (string + bytes list) \<times> 'b) \<Rightarrow> PowFn \<Rightarrow> nat \<Rightarrow> bytes list \<Rightarrow> bytes list \<Rightarrow>
   (bytes \<times> u32) list \<Rightarrow> 'b \<Rightarrow> ((self_test_error + unit) \<times> 'b) option" where
  "self_test be bc3_batch pow fuel headers expected launches b =
     (case bc3_batch b headers of
        (Inl e, b) \<Rightarrow> Some (Inl (Backend_error e), b)
      | (Inr got, b) \<Rightarrow>
          (case zip_differs 0 got expected of
             Some i \<Rightarrow> Some (Inl (Header_differs i), b)
           | None \<Rightarrow>
               (case queued_scans be fuel b launches TEST_COUNT test_target of
                  None \<Rightarrow> None
                | Some (Inl e, b) \<Rightarrow> Some (Inl (Backend_error e), be_abandon be b)
                | Some (Inr scans, b) \<Rightarrow>
                    (case launch_differs pow 0 launches scans of
                       Some i \<Rightarrow> Some (Inl (Launch_differs i), b)
                     | None \<Rightarrow> Some (Inr (), b)))))"

subsection \<open>Devices\<close>

datatype GpuDevice =
  Cuda (gd_index: nat) (gd_name: string)
| Opencl (gd_platform: nat) (gd_device: nat) (gd_name: string) (gd_vendor: string)

fun describe :: "GpuDevice \<Rightarrow> string" where
  "describe (Cuda idx name) = ''CUDA #'' @ dec idx @ '': '' @ name"
| "describe (Opencl platform device name vendor) =
     ''OpenCL '' @ dec platform @ ''.'' @ dec device @ '': '' @ name"

fun is_cuda :: "GpuDevice \<Rightarrow> bool" where
  "is_cuda (Cuda _ _) = True"
| "is_cuda (Opencl _ _ _ _) = False"

definition device_has_kernel :: "bool \<Rightarrow> GpuDevice \<Rightarrow> PowAlgo \<Rightarrow> bool" where
  "device_has_kernel bc3hash_feature dev algo = kernel_supports bc3hash_feature algo"

datatype BackendKind = Auto | BK_Cuda | BK_Opencl | Cpu

definition select_gpu :: "GpuDevice list \<Rightarrow> nat option \<Rightarrow> string + GpuDevice list" where
  "select_gpu found gpu_id =
     (case gpu_id of
        None \<Rightarrow> Inr found
      | Some n \<Rightarrow>
          if found = [] then Inr found
          else if length found \<le> n
          then Inl (''--gpu-id '' @ dec n @ '' is out of range - '' @ dec (length found) @
                    '' GPU(s) detected, valid ids are 0..='' @ dec (length found - 1))
          else Inr (take 1 (drop n found)))"

definition ascii_lower :: "char \<Rightarrow> char" where
  "ascii_lower c = (let n = of_char c :: nat in if 65 \<le> n \<and> n \<le> 90 then char_of (n + 32) else c)"

definition is_space :: "char \<Rightarrow> bool" where
  "is_space c \<longleftrightarrow> (let n = of_char c :: nat in n = 32 \<or> 9 \<le> n \<and> n \<le> 13)"

definition trim :: "string \<Rightarrow> string" where
  "trim s = rev (dropWhile is_space (rev (dropWhile is_space s)))"

definition to_lowercase :: "string \<Rightarrow> string" where
  "to_lowercase s = map ascii_lower s"

type_synonym card_key = "string \<times> string"

fun key_of :: "GpuDevice \<Rightarrow> (card_key \<times> nat) option" where
  "key_of (Opencl platform device name vendor) =
     Some ((to_lowercase (trim vendor), to_lowercase (trim name)), platform)"
| "key_of (Cuda _ _) = None"

text \<open>How many devices with the key a platform lists, and the platforms that list any.\<close>

definition platform_count :: "GpuDevice list \<Rightarrow> card_key \<Rightarrow> nat \<Rightarrow> nat" where
  "platform_count devices k p = length (filter (\<lambda>d. key_of d = Some (k, p)) devices)"

definition platforms_of :: "GpuDevice list \<Rightarrow> card_key \<Rightarrow> nat list" where
  "platforms_of devices k =
     remdups (map snd (filter (\<lambda>x. fst x = k) (List.map_filter key_of devices)))"

text \<open>\<open>max_by_key\<close> of \<open>(n, Reverse(platform))\<close>.\<close>

fun best_platform :: "(nat \<Rightarrow> nat) \<Rightarrow> nat list \<Rightarrow> nat option" where
  "best_platform n [] = None"
| "best_platform n (p # ps) =
     (case best_platform n ps of
        None \<Rightarrow> Some p
      | Some q \<Rightarrow> if n q < n p \<or> n q = n p \<and> p < q then Some p else Some q)"

definition dedup_winner :: "GpuDevice list \<Rightarrow> card_key \<Rightarrow> nat option" where
  "dedup_winner devices k = best_platform (platform_count devices k) (platforms_of devices k)"

definition dedup_opencl :: "GpuDevice list \<Rightarrow> GpuDevice list" where
  "dedup_opencl devices =
     filter (\<lambda>dev. case key_of dev of Some (k, p) \<Rightarrow> dedup_winner devices k = Some p | None \<Rightarrow> True) devices"

text \<open>
  \<open>detect_gpus\<close>, given what the CUDA and OpenCL listings return (None in a build without the
  feature); an error is the message the process exits with.
\<close>

definition detect_gpus ::
  "GpuDevice list option \<Rightarrow> GpuDevice list option \<Rightarrow> BackendKind \<Rightarrow> nat option \<Rightarrow> string + GpuDevice list" where
  "detect_gpus cuda_list opencl_list kind gpu_id =
     (let found = [];
          found = (case cuda_list of
                     Some ds \<Rightarrow> if kind = Auto \<or> kind = BK_Cuda then found @ ds else found
                   | None \<Rightarrow> found);
          found = (case opencl_list of
                     Some ds \<Rightarrow> if kind = BK_Opencl \<or> kind = Auto \<and> found = []
                                then found @ dedup_opencl ds else found
                   | None \<Rightarrow> found)
      in case select_gpu found gpu_id of
           Inr picked \<Rightarrow> Inr picked
         | Inl msg \<Rightarrow> Inl (''bc3-miner: '' @ msg))"

definition eq_ignore_ascii_case :: "string \<Rightarrow> string \<Rightarrow> bool" where
  "eq_ignore_ascii_case a b \<longleftrightarrow> map ascii_lower a = map ascii_lower b"

text \<open>\<open>position\<close>: the idx of the first element with the property.\<close>

fun position :: "('a \<Rightarrow> bool) \<Rightarrow> 'a list \<Rightarrow> nat option" where
  "position P [] = None"
| "position P (x # xs) = (if P x then Some 0 else map_option Suc (position P xs))"

definition indices :: "('a \<Rightarrow> bool) \<Rightarrow> 'a list \<Rightarrow> nat list" where
  "indices P xs = filter (\<lambda>i. P (xs ! i)) [0..<length xs]"

definition contains :: "string \<Rightarrow> string \<Rightarrow> bool" where
  "contains s pat \<longleftrightarrow> (\<exists>i\<in>set [0..<length s + 1]. take (length pat) (drop i s) = pat)"

definition cuda_named :: "string \<Rightarrow> GpuDevice \<Rightarrow> bool" where
  "cuda_named name d = (case d of Cuda _ n \<Rightarrow> eq_ignore_ascii_case n name | Opencl _ _ _ _ \<Rightarrow> False)"

definition opencl_named :: "string \<Rightarrow> GpuDevice \<Rightarrow> bool" where
  "opencl_named name d = (case d of Opencl _ _ n _ \<Rightarrow> eq_ignore_ascii_case n name | Cuda _ _ \<Rightarrow> False)"

definition opencl_nvidia :: "GpuDevice \<Rightarrow> bool" where
  "opencl_nvidia d = (case d of Opencl _ _ _ v \<Rightarrow> contains (to_lowercase v) ''nvidia'' | Cuda _ _ \<Rightarrow> False)"

definition cuda_rank :: "GpuDevice list \<Rightarrow> nat \<Rightarrow> string \<Rightarrow> nat option" where
  "cuda_rank cuda idx name =
     position (\<lambda>d. case d of Cuda i _ \<Rightarrow> i = idx | Opencl _ _ _ _ \<Rightarrow> False) (filter (cuda_named name) cuda)"

definition pick_opencl_for_cuda :: "GpuDevice list \<Rightarrow> GpuDevice list \<Rightarrow> nat \<Rightarrow> string \<Rightarrow> nat option" where
  "pick_opencl_for_cuda cuda opencl idx name =
     (let rank = cuda_rank cuda idx name;
          by_name = indices (opencl_named name) opencl
      in case Option.bind rank (list_get by_name) of
           Some i \<Rightarrow> Some i
         | None \<Rightarrow>
             let nvidia = indices opencl_nvidia opencl
             in if length nvidia = 1 \<and> length cuda = 1 then Some (nvidia ! 0)
                else if length opencl = 1 \<and> length cuda = 1 then Some 0
                else None)"

text \<open>
  \<open>open_backend_with_fallback\<close>: \<open>open\<close> opens a device, \<open>listings\<close> are the CUDA and OpenCL
  listings of a build that has both. Returns the backend or the error, and the lines printed.
\<close>

definition open_backend_with_fallback ::
  "(GpuDevice \<Rightarrow> string + 'b) \<Rightarrow> (GpuDevice list \<times> GpuDevice list) option \<Rightarrow> GpuDevice \<Rightarrow> (string + 'b) \<times> out_line list"
where
  "open_backend_with_fallback open_dev listings dev =
     (case open_dev dev of
        Inr b \<Rightarrow> (Inr b, [])
      | Inl first \<Rightarrow>
          (case (listings, dev) of
             (Some (cuda, candidates), Cuda idx name) \<Rightarrow>
               (case pick_opencl_for_cuda cuda candidates idx name of
                  Some i \<Rightarrow>
                    (open_dev (candidates ! i),
                     [Err (''[gpu] CUDA could not open '' @ name @ '': '' @ first),
                      Err (''[gpu] falling back to '' @ describe (candidates ! i) @ '' through OpenCL'')])
                | None \<Rightarrow>
                    (Inl first,
                     [Err (''[gpu] CUDA could not open '' @ name @ '': '' @ first),
                      Err (''[gpu] no OpenCL device could be matched to CUDA #'' @ dec idx @ '' ('' @
                           dec (length candidates) @ '' OpenCL GPU(s) found) - not guessing'')]))
           | _ \<Rightarrow> (Inl first, [])))"

section \<open>Lemmas\<close>

subsection \<open>The hit budget\<close>

definition budget_ok :: "HitBudget \<Rightarrow> bool" where
  "budget_ok b \<longleftrightarrow> (case hb_limit b of Some l \<Rightarrow> 1 \<le> l | None \<Rightarrow> True) \<and> hb_clean_runs b < RECOVER_AFTER"

lemma unat_div_ceil_2: "unat (div_ceil_2 x) = (unat x + 1) div 2"
proof -
  have "unat x < 2 ^ 32" using unsigned_less [of x, where 'a = nat] by simp
  then have "unat (div_ceil_2 x) = unat x div 2 + unat x mod 2"
    unfolding div_ceil_2_def by (subst unat_add_no_overflow) (simp_all add: unat_div unat_mod)
  then show ?thesis by presburger
qed

lemma budget_ok_overflowed: "budget_ok b \<Longrightarrow> budget_ok (fst (overflowed b chunk reported))"
proof -
  assume b: "budget_ok b"
  have "1 \<le> l \<Longrightarrow> checked_mul l 2 = Some m \<Longrightarrow> 1 \<le> m" for l m :: u32
    by (auto simp: checked_mul_Some_iff word_le_nat_alt)
  with b show ?thesis
    by (auto simp: budget_ok_def overflowed_def Let_def not_le RECOVER_AFTER_def split: option.splits)
qed

lemma chunk_of_bounds:
  "budget_ok b \<Longrightarrow> 1 \<le> remaining \<Longrightarrow> 1 \<le> chunk_of b remaining \<and> chunk_of b remaining \<le> remaining"
  by (auto simp: budget_ok_def chunk_of_def split: option.splits)

text \<open>Launches with headroom in a row.\<close>

fun clean_launches :: "nat list \<Rightarrow> u32 \<Rightarrow> HitBudget \<Rightarrow> HitBudget" where
  "clean_launches [] chunk b = b"
| "clean_launches (r # rs) chunk b = clean_launches rs chunk (fst (overflowed b chunk r))"

lemma clean_launches_runs:
  assumes "hb_limit b = Some l" and "\<And>r. r \<in> set rs \<Longrightarrow> r * 4 \<le> MAX_HITS"
    and "unat (hb_clean_runs b) + length rs < 64"
  shows "clean_launches rs chunk b = b\<lparr>hb_clean_runs := hb_clean_runs b + of_nat (length rs)\<rparr>"
  using assms
proof (induction rs arbitrary: b)
  case (Cons r rs)
  have runs: "unat (hb_clean_runs b + 1) = unat (hb_clean_runs b) + 1"
    using Cons.prems(3) by (subst unat_add_no_overflow) simp_all
  have "r * 4 \<le> MAX_HITS" using Cons.prems(2) [of r] by simp
  moreover from this have "r \<le> MAX_HITS" by simp
  moreover have "\<not> RECOVER_AFTER \<le> hb_clean_runs b + 1"
    using Cons.prems(3) by (simp add: RECOVER_AFTER_def word_le_nat_alt runs)
  ultimately have "fst (overflowed b chunk r) = b\<lparr>hb_clean_runs := hb_clean_runs b + 1\<rparr>"
    using Cons.prems(1) by (simp add: overflowed_def Let_def)
  with Cons runs show ?case by (simp add: add.assoc)
qed simp

subsection \<open>A backend as a queue\<close>

text \<open>The nonces a hit buffer holds.\<close>

definition buffer_hits :: "u32 list \<Rightarrow> u32 list" where
  "buffer_hits h = take (min (unat (h ! 0)) MAX_HITS) (drop 1 h)"

lemma sc_hits_scan_of [simp]: "sc_hits (scan_of h busy) = buffer_hits h"
  by (simp add: scan_of_def buffer_hits_def Let_def)

text \<open>
  What the callers of a backend rely on: launches of the algorithms it runs come back in the order
  they were queued, each with what its own run left in the hit buffer (\<open>kern\<close>).
\<close>

locale fifo_backend =
  fixes be :: "'b MiningBackend" and inv :: "'b \<Rightarrow> bool" and contents :: "'b \<Rightarrow> u32 list list"
    and kern :: "Launch \<Rightarrow> u32 list" and runs :: "PowAlgo \<Rightarrow> bool"
  assumes enqueue_ok: "inv b \<Longrightarrow> runs (la_algo l) \<Longrightarrow> la_count l \<noteq> 0 \<Longrightarrow> length (contents b) < QUEUE_DEPTH \<Longrightarrow>
      \<exists>b'. be_enqueue be b l = (Inr (), b') \<and> inv b' \<and> contents b' = contents b @ [kern l]"
    and collect_ok: "inv b \<Longrightarrow> contents b = h # t \<Longrightarrow>
      \<exists>b' busy. be_collect be b = (Inr (scan_of h busy), b') \<and> inv b' \<and> contents b' = t"
    and in_flight_ok: "inv b \<Longrightarrow> be_in_flight be b = length (contents b)"
begin

lemma drain_scans_all:
  "inv b \<Longrightarrow> length (contents b) \<le> fuel \<Longrightarrow>
   \<exists>b'. drain_scans be fuel b scans = Some (Inr (scans @ map (\<lambda>h. sort (buffer_hits h)) (contents b)), b') \<and> inv b' \<and> contents b' = []"
proof (induction fuel arbitrary: b scans)
  case 0
  then show ?case by (subst drain_scans.simps) (simp add: in_flight_ok)
next
  case (Suc fuel)
  show ?case
  proof (cases "contents b")
    case Nil
    then show ?thesis using Suc.prems by (subst drain_scans.simps) (simp add: in_flight_ok)
  next
    case (Cons h t)
    from collect_ok [OF Suc.prems(1) this] obtain b' busy where
      b': "be_collect be b = (Inr (scan_of h busy), b')" "inv b'" "contents b' = t" by blast
    have "drain_scans be (Suc fuel) b scans = drain_scans be fuel b' (scans @ [sort (buffer_hits h)])"
      using Suc.prems(1) Cons by (subst drain_scans.simps) (simp add: in_flight_ok scan_one_def b'(1))
    with Suc.IH [OF b'(2), of "scans @ [sort (buffer_hits h)]"] Suc.prems(2) Cons b'(3) show ?thesis by simp
  qed
qed

lemma queue_scans_all:
  assumes "count \<noteq> 0" and "QUEUE_DEPTH \<le> fuel" and "runs Bc3Hash"
  shows "inv b \<Longrightarrow> length (contents b) < QUEUE_DEPTH \<Longrightarrow>
   \<exists>b'. queue_scans be fuel count target ls b scans =
     Some (Inr (scans @ map (\<lambda>h. sort (buffer_hits h)) (contents b @ map (\<lambda>(h, s). kern \<lparr>la_algo = Bc3Hash, la_header76 = h,
       la_start = s, la_count = count, la_target = target\<rparr>) ls)), b') \<and> inv b' \<and> contents b' = []"
proof (induction ls arbitrary: b scans)
  case Nil
  then show ?case using drain_scans_all [of b fuel scans] assms(2) by simp
next
  case (Cons x ls)
  obtain h s where x: "x = (h, s)" by (cases x)
  let ?l = "\<lparr>la_algo = Bc3Hash, la_header76 = h, la_start = s, la_count = count, la_target = target\<rparr>"
  from enqueue_ok [OF Cons.prems(1) _ _ Cons.prems(2), of ?l] assms(1,3) obtain b1 where
    b1: "be_enqueue be b ?l = (Inr (), b1)" "inv b1" "contents b1 = contents b @ [kern ?l]" by auto
  show ?case
  proof (cases "be_in_flight be b1 = QUEUE_DEPTH")
    case False
    then have "length (contents b1) < QUEUE_DEPTH" using Cons.prems(2) b1 in_flight_ok by fastforce
    from Cons.IH [OF b1(2) this, of scans] False b1 show ?thesis by (simp add: x)
  next
    case True
    have "contents b1 \<noteq> []" using b1(3) by simp
    then obtain c t where ct: "contents b1 = c # t" by (meson neq_Nil_conv)
    from collect_ok [OF b1(2) ct] obtain b2 busy where
      b2: "be_collect be b1 = (Inr (scan_of c busy), b2)" "inv b2" "contents b2 = t" by blast
    have "Suc (length t) = Suc (length (contents b))" using ct b1(3) by (metis length_Cons length_append_singleton)
    then have "length (contents b2) < QUEUE_DEPTH" using Cons.prems(2) b2(3) by simp
    from Cons.IH [OF b2(2) this, of "scans @ [sort (buffer_hits c)]"] obtain b' where
      b': "queue_scans be fuel count target ls b2 (scans @ [sort (buffer_hits c)]) =
        Some (Inr ((scans @ [sort (buffer_hits c)]) @ map (\<lambda>h. sort (buffer_hits h)) (t @ map (\<lambda>(h, s). kern \<lparr>la_algo = Bc3Hash, la_header76 = h,
          la_start = s, la_count = count, la_target = target\<rparr>) ls)), b')" "inv b'" "contents b' = []"
      unfolding b2(3) by blast
    have "map (\<lambda>h. sort (buffer_hits h)) (contents b @ [kern ?l]) = sort (buffer_hits c) # map (\<lambda>h. sort (buffer_hits h)) t" using ct b1(3) by (metis list.simps(9))
    then show ?thesis using True b1(1) b2(1) b' by (simp add: x scan_one_def)
  qed
qed

end

text \<open>The abstract queue as a backend, under whatever the rest of the backend is.\<close>

definition gpu_backend :: "GpuQueue MiningBackend \<Rightarrow> (Launch \<Rightarrow> u32 list) \<Rightarrow> duration option \<Rightarrow> GpuQueue MiningBackend" where
  "gpu_backend rest kern busy =
     rest\<lparr>be_enqueue := enqueue kern None, be_collect := collect None busy, be_in_flight := in_flight,
          be_abandon := abandon\<rparr>"

definition queue_inv :: "GpuQueue \<Rightarrow> bool" where
  "queue_inv q \<longleftrightarrow> length (gq_slots q) = QUEUE_DEPTH \<and> gq_next_slot q < QUEUE_DEPTH \<and>
     length (gq_queued q) \<le> QUEUE_DEPTH \<and> set (gq_queued q) \<subseteq> {..<QUEUE_DEPTH} \<and>
     (length (gq_queued q) < QUEUE_DEPTH \<longrightarrow> gq_next_slot q \<notin> set (gq_queued q)) \<and>
     (gq_queued q \<noteq> [] \<longrightarrow> length (gq_queued q) = QUEUE_DEPTH \<longrightarrow> gq_next_slot q = hd (gq_queued q)) \<and>
     distinct (gq_queued q)"

definition queue_contents :: "GpuQueue \<Rightarrow> u32 list list" where
  "queue_contents q = map (\<lambda>i. gq_slots q ! i) (gq_queued q)"

lemma enqueue_inv:
  assumes "queue_inv q" and "la_count l \<noteq> 0" and "length (queue_contents q) < QUEUE_DEPTH"
  shows "\<exists>q'. enqueue kern None q l = (Inr (), q') \<and> queue_inv q' \<and> queue_contents q' = queue_contents q @ [kern l]"
proof -
  let ?i = "gq_next_slot q"
  have len: "length (gq_queued q) < 2" "?i < 2" "?i \<notin> set (gq_queued q)" "length (gq_slots q) = 2"
    using assms by (simp_all add: queue_inv_def queue_contents_def QUEUE_DEPTH_def)
  have "gq_queued q = [] \<or> gq_queued q = [1 - ?i]"
    using len assms(1) by (cases "gq_queued q") (auto simp: queue_inv_def QUEUE_DEPTH_def less_2_cases_iff)
  moreover have "(?i + 1) mod 2 = 1 - ?i" using len(2) by (auto simp: less_2_cases_iff)
  ultimately show ?thesis
    using assms(2) len
    by (auto simp: enqueue_def Let_def queue_inv_def queue_contents_def QUEUE_DEPTH_def less_2_cases_iff)
qed

lemma collect_inv:
  assumes "queue_inv q" and "queue_contents q = h # t"
  shows "\<exists>q' busy'. collect None busy q = (Inr (scan_of h busy'), q') \<and> queue_inv q' \<and> queue_contents q' = t"
proof -
  obtain i rest where q: "gq_queued q = i # rest" using assms(2) by (cases "gq_queued q") (auto simp: queue_contents_def)
  have "rest = [] \<or> (\<exists>j. rest = [j])"
    using assms(1) q by (cases rest; cases "tl rest") (auto simp: queue_inv_def QUEUE_DEPTH_def)
  then show ?thesis using assms q by (auto simp: collect_def queue_inv_def queue_contents_def QUEUE_DEPTH_def)
qed

interpretation gpu: fifo_backend "gpu_backend rest kern busy" queue_inv queue_contents kern "\<lambda>_. True"
proof
  fix b and l :: Launch
  assume "queue_inv b" and "la_count l \<noteq> 0" and "length (queue_contents b) < QUEUE_DEPTH"
  then show "\<exists>b'. be_enqueue (gpu_backend rest kern busy) b l = (Inr (), b') \<and> queue_inv b' \<and>
      queue_contents b' = queue_contents b @ [kern l]"
    using enqueue_inv by (simp add: gpu_backend_def)
next
  fix b h t
  assume "queue_inv b" and "queue_contents b = h # t"
  then show "\<exists>b' busy'. be_collect (gpu_backend rest kern busy) b = (Inr (scan_of h busy'), b') \<and> queue_inv b' \<and>
      queue_contents b' = t"
    using collect_inv by (simp add: gpu_backend_def)
next
  fix b
  show "be_in_flight (gpu_backend rest kern busy) b = length (queue_contents b)"
    by (simp add: gpu_backend_def in_flight_def queue_contents_def)
qed

lemma queue_inv_new: "queue_inv gpu_queue_new \<and> queue_contents gpu_queue_new = []"
  by (simp add: queue_inv_def queue_contents_def gpu_queue_new_def QUEUE_DEPTH_def)

lemma launch_differs_None:
  "launch_differs pow i ls gs = None \<longleftrightarrow>
     (\<forall>j<min (length ls) (length gs). gs ! j = cpu_hits pow (fst (ls ! j)) (snd (ls ! j)))"
proof (induction pow i ls gs rule: launch_differs.induct)
  case (1 pow i h s ls g gs)
  then show ?case by (auto simp: nth_Cons' less_Suc_eq_0_disj)
qed simp_all

lemma zip_differs_None:
  "zip_differs i gs es = None \<longleftrightarrow> (\<forall>j<min (length gs) (length es). gs ! j = es ! j)"
proof (induction i gs es rule: zip_differs.induct)
  case (1 i g gs e es)
  then show ?case by (auto simp: nth_Cons' less_Suc_eq_0_disj)
qed simp_all

subsection \<open>Choosing devices\<close>

lemma best_platform_None: "best_platform n ps = None \<longleftrightarrow> ps = []"
  by (cases ps) (auto split: option.splits)

lemma best_platform_best:
  "best_platform n ps = Some q \<Longrightarrow> q \<in> set ps \<and> (\<forall>p\<in>set ps. n p < n q \<or> n p = n q \<and> q \<le> p)"
proof (induction ps arbitrary: q)
  case (Cons p ps)
  show ?case
  proof (cases "best_platform n ps")
    case None
    then show ?thesis using Cons.prems by (simp add: best_platform_None)
  next
    case (Some r)
    with Cons.IH [OF this] Cons.prems show ?thesis by (auto split: if_splits)
  qed
qed simp

lemma position_Some: "position P xs = Some i \<Longrightarrow> i < length xs \<and> P (xs ! i)"
  by (induction xs arbitrary: i) (auto split: if_splits)

lemma position_None: "position P xs = None \<longleftrightarrow> (\<forall>x\<in>set xs. \<not> P x)"
  by (induction xs) auto

lemma set_indices: "set (indices P xs) = {i. i < length xs \<and> P (xs ! i)}"
  by (auto simp: indices_def)

lemma distinct_indices: "distinct (indices P xs)"
  by (simp add: indices_def)

lemma list_get_Some: "list_get xs i = Some x \<longleftrightarrow> i < length xs \<and> xs ! i = x"
  by (auto simp: list_get_def)

lemma pick_by_name:
  assumes "pick_opencl_for_cuda cuda opencl i n = Some x" and "length cuda \<noteq> 1"
  shows "\<exists>r. cuda_rank cuda i n = Some r \<and> r < length (indices (opencl_named n) opencl) \<and>
    indices (opencl_named n) opencl ! r = x"
  using assms by (auto simp: pick_opencl_for_cuda_def Let_def list_get_Some split: option.splits bind_splits)

lemma cuda_rank_index:
  assumes "cuda_rank cuda i n = Some r"
  shows "r < length (filter (cuda_named n) cuda) \<and> (\<exists>m. filter (cuda_named n) cuda ! r = Cuda i m)"
  using position_Some [OF assms [unfolded cuda_rank_def]] by (auto split: GpuDevice.splits)

lemma opencl_named_cong: "eq_ignore_ascii_case n m \<Longrightarrow> opencl_named n = opencl_named m"
  by (auto simp: opencl_named_def eq_ignore_ascii_case_def fun_eq_iff split: GpuDevice.splits)

lemma cuda_named_cong: "eq_ignore_ascii_case n m \<Longrightarrow> cuda_named n = cuda_named m"
  by (auto simp: cuda_named_def eq_ignore_ascii_case_def fun_eq_iff split: GpuDevice.splits)

section \<open>Properties\<close>

text \<open>
  The abstract launch queue is a queue: queued two deep on its places and
  collected as \<open>queued_scans\<close> does, every launch comes back once, in order, with the hits its own
  run left in its slot - no slot is taken again before it has been read - and nothing is left in
  flight.
\<close>

theorem launches_come_back_in_order:
  assumes "queue_inv q" and "queue_contents q = []" and "count \<noteq> 0" and "QUEUE_DEPTH \<le> fuel"
  shows "\<exists>q'. queued_scans (gpu_backend rest kern busy) fuel q launches count target =
    Some (Inr (map (\<lambda>(h, s). sort (buffer_hits (kern \<lparr>la_algo = Bc3Hash, la_header76 = h, la_start = s,
      la_count = count, la_target = target\<rparr>))) launches), q') \<and> queue_inv q' \<and> in_flight q' = 0"
proof -
  have "length (queue_contents q) < QUEUE_DEPTH" by (simp add: assms(2) QUEUE_DEPTH_def)
  from gpu.queue_scans_all [OF assms(3,4) TrueI assms(1) this, of rest kern busy target launches "[]"] obtain q' where
    "queued_scans (gpu_backend rest kern busy) fuel q launches count target =
    Some (Inr (map (\<lambda>(h, s). sort (buffer_hits (kern \<lparr>la_algo = Bc3Hash, la_header76 = h, la_start = s,
      la_count = count, la_target = target\<rparr>))) launches), q') \<and> queue_inv q'" and "queue_contents q' = []"
    by (auto simp: queued_scans_def assms(2) comp_def split_def)
  then show ?thesis by (auto simp: in_flight_def queue_contents_def)
qed

definition no_backend :: "GpuQueue MiningBackend" where
  "no_backend = \<lparr>be_name = \<lambda>_. ''GPU'', be_has_kernel = \<lambda>_ _. True, be_supports = \<lambda>_ _. True,
     be_prepare_bc3hash = \<lambda>q _. (Inr 0, q), be_bc3hash_window = \<lambda>_. Some 16, be_memory = \<lambda>_. None,
     be_compile_ahead = \<lambda>_ _. False, be_compiles_at_load = \<lambda>_. False, be_launch_granule = \<lambda>_ _. 1,
     be_enqueue = \<lambda>q _. (Inr (), q), be_collect = \<lambda>q. (Inl [], q), be_in_flight = \<lambda>_. 0, be_abandon = \<lambda>q. q\<rparr>"

theorem launches_come_back_in_order_witness:
  "\<exists>q'. queued_scans (gpu_backend no_backend (\<lambda>l. [1, la_start l]) None) 2 gpu_queue_new
     [([], 7), ([], 5), ([], 9)] 128 test_target = Some (Inr [[7], [5], [9]], q')"
  using launches_come_back_in_order [of gpu_queue_new 128 2 no_backend "\<lambda>l. [1, la_start l]" None
      "[([], 7), ([], 5), ([], 9)]" test_target] queue_inv_new
  by (auto simp: QUEUE_DEPTH_def buffer_hits_def MAX_HITS_def)

text \<open>
  The self-test passes exactly the kernels that agree with the CPU: every header of the batch
  hashes as expected, and for every launch the hits, sorted, are the CPU's own.
\<close>

theorem self_test_exact:
  assumes "queue_inv q" and "queue_contents q = []" and "QUEUE_DEPTH \<le> fuel"
    and "bc3_batch q headers = (Inr got, q)"
  shows "\<exists>res q'. self_test (gpu_backend rest kern busy) bc3_batch pow fuel headers expected launches q = Some (res, q') \<and>
    (res = Inr () \<longleftrightarrow>
       (\<forall>j<min (length got) (length expected). got ! j = expected ! j) \<and>
       (\<forall>(h, s)\<in>set launches. sort (buffer_hits (kern \<lparr>la_algo = Bc3Hash, la_header76 = h, la_start = s,
          la_count = TEST_COUNT, la_target = test_target\<rparr>)) = cpu_hits pow h s))"
proof -
  let ?k = "\<lambda>(h, s). sort (buffer_hits (kern \<lparr>la_algo = Bc3Hash, la_header76 = h, la_start = s,
      la_count = TEST_COUNT, la_target = test_target\<rparr>))"
  have "length (queue_contents q) < QUEUE_DEPTH" by (simp add: assms(2) QUEUE_DEPTH_def)
  from gpu.queue_scans_all [OF _ assms(3) TrueI assms(1) this, of TEST_COUNT rest kern busy test_target launches "[]"] obtain q' where
    q': "queued_scans (gpu_backend rest kern busy) fuel q launches TEST_COUNT test_target = Some (Inr (map ?k launches), q')"
    by (auto simp: queued_scans_def assms(2) comp_def split_def TEST_COUNT_def)
  have "launch_differs pow 0 launches (map ?k launches) = None \<longleftrightarrow>
      (\<forall>x\<in>set launches. ?k x = cpu_hits pow (fst x) (snd x))"
    by (auto simp: launch_differs_None all_set_conv_all_nth)
  then show ?thesis
    using assms(4) q' zip_differs_None [of 0 got expected]
    by (cases "zip_differs 0 got expected"; cases "launch_differs pow 0 launches (map ?k launches)")
      (auto simp: self_test_def split_def)
qed

theorem self_test_exact_witness:
  "\<exists>res q'. self_test (gpu_backend no_backend (\<lambda>_. [0]) None) (\<lambda>q _. (Inr [[]], q)) (\<lambda>_. replicate 32 0xff) 2 [[]] [[]] [] gpu_queue_new
     = Some (res, q') \<and> res = Inr ()"
  using self_test_exact [of gpu_queue_new 2 "\<lambda>q _. (Inr [[]], q)" "[[]]" "[[]]" no_backend "\<lambda>_. [0]" None
      "\<lambda>_. replicate 32 0xff" "[[]]" "[]"] queue_inv_new
  by (simp add: QUEUE_DEPTH_def)

text \<open>
  The hit budget always lets at least one nonce through and never more than were asked for;
  after an overflow the next launch is at most half as long; 64 launches in a row with headroom
  double the limit again, or lift it where doubling would overflow; and the overflow is logged
  only once.
\<close>

theorem hit_budget_adapts:
  assumes "budget_ok b" and "1 \<le> remaining"
  shows "1 \<le> chunk_of b remaining \<and> chunk_of b remaining \<le> remaining \<and>
    budget_ok (fst (overflowed b chunk reported)) \<and>
    (MAX_HITS < reported \<longrightarrow>
       unat (chunk_of (fst (overflowed b chunk reported)) remaining) \<le> max 1 ((unat chunk + 1) div 2) \<and>
       (snd (overflowed b chunk reported) \<noteq> None \<longleftrightarrow> \<not> hb_logged b) \<and> hb_logged (fst (overflowed b chunk reported))) \<and>
    (\<forall>l rs. hb_limit b = Some l \<longrightarrow> hb_clean_runs b = 0 \<longrightarrow> length rs = 64 \<longrightarrow> (\<forall>r\<in>set rs. r * 4 \<le> MAX_HITS) \<longrightarrow>
       hb_limit (clean_launches rs chunk b) = checked_mul l 2)"
proof (intro conjI impI allI)
  show "1 \<le> chunk_of b remaining" "chunk_of b remaining \<le> remaining"
    using chunk_of_bounds [OF assms] by simp_all
  show "budget_ok (fst (overflowed b chunk reported))" using assms(1) by (rule budget_ok_overflowed)
  assume "MAX_HITS < reported"
  then have r: "\<not> reported \<le> MAX_HITS" by simp
  have "unat (chunk_of b' chunk) \<le> unat chunk" for b'
    by (auto simp: chunk_of_def unat_min split: option.splits)
  then have "(unat (chunk_of b' chunk) + 1) div 2 \<le> (unat chunk + 1) div 2" for b'
    by (simp add: div_le_mono)
  then have "unat (max (div_ceil_2 (chunk_of b' chunk)) 1) \<le> max 1 ((unat chunk + 1) div 2)" for b'
    unfolding unat_max unat_div_ceil_2 by (simp add: max.coboundedI2)
  then show "unat (chunk_of (fst (overflowed b chunk reported)) remaining) \<le> max 1 ((unat chunk + 1) div 2)"
    using r by (auto simp: overflowed_def Let_def chunk_of_def [of "_\<lparr>hb_limit := _\<rparr>"] unat_min min.coboundedI1
        chunk_of_def [of "_\<lparr>hb_logged := _\<rparr>"])
  show "snd (overflowed b chunk reported) \<noteq> None \<longleftrightarrow> \<not> hb_logged b" "hb_logged (fst (overflowed b chunk reported))"
    using r by (simp_all add: overflowed_def Let_def)
next
  fix l rs
  assume l: "hb_limit b = Some l" "hb_clean_runs b = 0" and rs: "length rs = 64" "\<forall>r\<in>set rs. r * 4 \<le> MAX_HITS"
  then obtain ys y where ys: "rs = ys @ [y]" by (metis length_0_conv rev_exhaust zero_neq_numeral)
  have app: "clean_launches (xs @ [z]) chunk c = fst (overflowed (clean_launches xs chunk c) chunk z)" for xs z c
    by (induction xs arbitrary: c) simp_all
  have "clean_launches ys chunk b = b\<lparr>hb_clean_runs := 63\<rparr>"
    using clean_launches_runs [of b l ys chunk] l rs ys by simp
  then show "hb_limit (clean_launches rs chunk b) = checked_mul l 2"
    using l rs ys by (simp add: app overflowed_def Let_def RECOVER_AFTER_def)
qed

theorem hit_budget_adapts_witness:
  "unat (chunk_of (fst (overflowed HitBudget_default 1000 65)) 1000) \<le> 500"
  using hit_budget_adapts [of HitBudget_default 1000 1000 65]
  by (simp add: budget_ok_def HitBudget_default_def RECOVER_AFTER_def MAX_HITS_def)

lemma set_platforms_of: "p \<in> set (platforms_of devices k) \<longleftrightarrow> (\<exists>d\<in>set devices. key_of d = Some (k, p))"
  by (force simp: platforms_of_def List.map_filter_def)

lemma platform_count_0: "p \<notin> set (platforms_of devices k) \<Longrightarrow> platform_count devices k p = 0"
  by (auto simp: set_platforms_of platform_count_def filter_empty_conv)

lemma opencl_named_unique: "opencl_named n d \<Longrightarrow> opencl_named m d \<Longrightarrow> eq_ignore_ascii_case n m"
  by (auto simp: opencl_named_def eq_ignore_ascii_case_def split: GpuDevice.splits)

text \<open>
  Two platforms that expose the same cards are counted once: for every vendor and name,
  the devices left are exactly those of one platform, the one that lists the most of them and the
  lowest of several; CUDA devices are never dropped.
\<close>

theorem dedup_keeps_best_platform:
  assumes "d \<in> set devices" and "key_of d = Some (k, p)"
  shows "\<exists>w. filter (\<lambda>e. \<exists>q. key_of e = Some (k, q)) (dedup_opencl devices) = filter (\<lambda>e. key_of e = Some (k, w)) devices \<and>
    0 < platform_count devices k w \<and>
    (\<forall>q. platform_count devices k q < platform_count devices k w \<or>
         platform_count devices k q = platform_count devices k w \<and> w \<le> q) \<and>
    filter is_cuda (dedup_opencl devices) = filter is_cuda devices"
proof -
  have "p \<in> set (platforms_of devices k)" using assms by (auto simp: set_platforms_of)
  then obtain w where w: "dedup_winner devices k = Some w"
    by (cases "dedup_winner devices k") (auto simp: dedup_winner_def best_platform_None)
  note best = best_platform_best [OF w [unfolded dedup_winner_def]]
  have pos: "0 < platform_count devices k w"
    using best by (auto simp: set_platforms_of platform_count_def filter_empty_conv)
  have "platform_count devices k q < platform_count devices k w \<or>
      platform_count devices k q = platform_count devices k w \<and> w \<le> q" for q
    using best pos by (cases "q \<in> set (platforms_of devices k)") (auto simp: platform_count_0)
  moreover have "filter (\<lambda>e. \<exists>q. key_of e = Some (k, q)) (dedup_opencl devices) = filter (\<lambda>e. key_of e = Some (k, w)) devices"
    using w by (auto simp: dedup_opencl_def intro!: filter_cong)
  moreover have "filter is_cuda (dedup_opencl devices) = filter is_cuda devices"
    by (auto simp: dedup_opencl_def intro!: filter_cong elim!: is_cuda.elims)
  ultimately show ?thesis using pos by blast
qed

theorem dedup_keeps_best_platform_witness:
  "\<exists>w. filter (\<lambda>e. \<exists>q. key_of e = Some ((''nvidia'', ''rtx''), q))
      (dedup_opencl [Opencl 0 0 ''RTX'' ''NVIDIA'', Opencl 1 0 ''RTX '' ''nvidia'', Opencl 1 1 ''rtx'' ''nvidia''])
    = filter (\<lambda>e. key_of e = Some ((''nvidia'', ''rtx''), w))
      [Opencl 0 0 ''RTX'' ''NVIDIA'', Opencl 1 0 ''RTX '' ''nvidia'', Opencl 1 1 ''rtx'' ''nvidia'']"
proof -
  have "key_of (Opencl 0 0 ''RTX'' ''NVIDIA'') = Some ((''nvidia'', ''rtx''), 0)" by code_simp
  from dedup_keeps_best_platform [OF _ this, of "[Opencl 0 0 ''RTX'' ''NVIDIA'', Opencl 1 0 ''RTX '' ''nvidia'', Opencl 1 1 ''rtx'' ''nvidia'']"]
  show ?thesis by fastforce
qed

text \<open>
  When CUDA cannot open them, no two listed CUDA cards are sent to the same OpenCL device,
  and the device they are sent to exists.
\<close>

theorem opencl_fallback_injective:
  assumes "distinct (map gd_index cuda)" and "\<forall>d\<in>set cuda. is_cuda d"
    and "Cuda i n \<in> set cuda" and "Cuda j m \<in> set cuda" and "i \<noteq> j"
    and x: "pick_opencl_for_cuda cuda opencl i n = Some x"
    and y: "pick_opencl_for_cuda cuda opencl j m = Some y"
  shows "x \<noteq> y \<and> x < length opencl \<and> y < length opencl"
proof -
  have "length cuda \<noteq> 1" using assms(3-5) by (auto simp: length_Suc_conv)
  with pick_by_name [OF x] pick_by_name [OF y] obtain r s where
    r: "cuda_rank cuda i n = Some r" "r < length (indices (opencl_named n) opencl)" "indices (opencl_named n) opencl ! r = x" and
    s: "cuda_rank cuda j m = Some s" "s < length (indices (opencl_named m) opencl)" "indices (opencl_named m) opencl ! s = y"
    by blast
  have xs: "x < length opencl \<and> opencl_named n (opencl ! x)" "y < length opencl \<and> opencl_named m (opencl ! y)"
    using nth_mem [OF r(2)] nth_mem [OF s(2)] r(3) s(3) by (simp_all add: set_indices)
  have "x \<noteq> y"
  proof
    assume eq: "x = y"
    with xs have nm: "eq_ignore_ascii_case n m" using opencl_named_unique by blast
    have "r = s" using nth_eq_iff_index_eq [OF distinct_indices r(2)] s(2,3) r(3) eq opencl_named_cong [OF nm] by metis
    with cuda_rank_index [OF r(1)] cuda_rank_index [OF s(1)] cuda_named_cong [OF nm] assms(5) show False by auto
  qed
  with xs show ?thesis by simp
qed

theorem opencl_fallback_injective_witness:
  "pick_opencl_for_cuda [Cuda 0 ''A'', Cuda 1 ''A''] [Opencl 0 0 ''a'' ''NVIDIA'', Opencl 0 1 ''a'' ''NVIDIA''] 0 ''A'' \<noteq>
   pick_opencl_for_cuda [Cuda 0 ''A'', Cuda 1 ''A''] [Opencl 0 0 ''a'' ''NVIDIA'', Opencl 0 1 ''a'' ''NVIDIA''] 1 ''A''"
proof -
  have p: "pick_opencl_for_cuda [Cuda 0 ''A'', Cuda 1 ''A''] [Opencl 0 0 ''a'' ''NVIDIA'', Opencl 0 1 ''a'' ''NVIDIA''] 0 ''A'' = Some 0"
    "pick_opencl_for_cuda [Cuda 0 ''A'', Cuda 1 ''A''] [Opencl 0 0 ''a'' ''NVIDIA'', Opencl 0 1 ''a'' ''NVIDIA''] 1 ''A'' = Some 1"
    by code_simp+
  show ?thesis using opencl_fallback_injective [OF _ _ _ _ _ p] unfolding p by simp
qed

text \<open>
  Without the condition that both cards are still listed the fallback is not injective: card 0 of two
  has vanished from the CUDA listing, and its worker and the worker of card 1 are both sent to
  OpenCL device 0.
\<close>

lemma vanished_card_collides:
  "pick_opencl_for_cuda [Cuda 1 ''A''] [Opencl 0 0 ''A'' ''NVIDIA''] 0 ''A'' = Some 0 \<and>
   pick_opencl_for_cuda [Cuda 1 ''A''] [Opencl 0 0 ''A'' ''NVIDIA''] 1 ''A'' = Some 0"
  by code_simp

end
