(* ===== verification/Reporter.thy ===== *)
theory Reporter
  imports Backends
begin

text \<open>
  What the status reporter says and where it has it from: the printing loop of \<open>src/stats.rs\<close>, and of
  \<open>src/telemetry.rs\<close> the cards as NVML describes them and the temperature of the CPU on Linux and on Windows.
  NVML, the files of sysfs and PowerShell are what they answer.
\<close>

section \<open>Definitions\<close>

subsection \<open>NVML\<close>

datatype ThrottleReason =
  SW_POWER_CAP | HW_POWER_BRAKE_SLOWDOWN | SW_THERMAL_SLOWDOWN | HW_THERMAL_SLOWDOWN | HW_SLOWDOWN
| APPLICATIONS_CLOCKS_SETTING | SYNC_BOOST | GPU_IDLE

text \<open>What a card answers, None for an error.\<close>

record NvmlDevice =
  nd_name :: "string option"
  nd_throttle_reasons :: "ThrottleReason list option"
  nd_power_usage :: "u32 option"
  nd_enforced_power_limit :: "u32 option"
  nd_default_limit :: "u32 option"
  nd_max_limit :: "u32 option"
  nd_sm_clock :: "u32 option"
  nd_max_sm_clock :: "u32 option"
  nd_pcie_gen :: "u32 option"
  nd_pcie_width :: "u32 option"
  nd_temperature :: "u32 option"
  nd_fan_speed :: "u32 option"

record Nvml =
  nv_driver_version :: "string option"
  nv_device_count :: "u32 option"
  nv_device_by_index :: "u32 \<Rightarrow> NvmlDevice option"

type_synonym Telemetry = "Nvml option"

datatype init_attempt = Init_ok Nvml | Init_error | Init_panic

text \<open>\<open>init\<close> and \<open>init_1\<close>: loading \<open>libnvidia-ml.so\<close> and, on Linux if that fails, \<open>libnvidia-ml.so.1\<close>.\<close>

definition telemetry_open :: "bool \<Rightarrow> init_attempt \<Rightarrow> init_attempt \<Rightarrow> Telemetry" where
  "telemetry_open linux init init_1 =
     (case (case init of Init_error \<Rightarrow> if linux then init_1 else Init_error | r \<Rightarrow> r) of
        Init_ok nvml \<Rightarrow> Some nvml
      | _ \<Rightarrow> None)"

definition without_gpu :: Telemetry where
  "without_gpu = None"

definition driver_version :: "Telemetry \<Rightarrow> string option" where
  "driver_version t = (case t of Some nvml \<Rightarrow> nv_driver_version nvml | None \<Rightarrow> None)"

definition THROTTLE_REASONS :: "(ThrottleReason \<times> string) list" where
  "THROTTLE_REASONS =
     [(SW_POWER_CAP, ''power limit''), (HW_POWER_BRAKE_SLOWDOWN, ''power brake''), (SW_THERMAL_SLOWDOWN, ''temperature''),
      (HW_THERMAL_SLOWDOWN, ''temperature (hardware)''), (HW_SLOWDOWN, ''hardware slowdown''),
      (APPLICATIONS_CLOCKS_SETTING, ''application clocks''), (SYNC_BOOST, ''sync boost''), (GPU_IDLE, ''idle'')]"

definition watts :: "u32 \<Rightarrow> f64" where
  "watts mw = f64_div (f64_of_nat (unat mw)) (F_Fin 1000)"

definition gpu_report :: "u32 \<Rightarrow> NvmlDevice \<Rightarrow> GpuReport" where
  "gpu_report i d =
     (let reasons = (case nd_throttle_reasons d of Some rs \<Rightarrow> rs | None \<Rightarrow> [])
      in \<lparr>rep_index = i,
          rep_name = (case nd_name d of Some n \<Rightarrow> n | None \<Rightarrow> ''''),
          rep_power_w = map_option watts (nd_power_usage d),
          rep_limit_w = map_option watts (nd_enforced_power_limit d),
          rep_default_limit_w = map_option watts (nd_default_limit d),
          rep_max_limit_w = map_option watts (nd_max_limit d),
          rep_sm_mhz = nd_sm_clock d,
          rep_max_sm_mhz = nd_max_sm_clock d,
          rep_pcie = (case (nd_pcie_gen d, nd_pcie_width d) of (Some g, Some w) \<Rightarrow> Some (g, w) | _ \<Rightarrow> None),
          rep_held_back_by = map snd (filter (\<lambda>(r, _). r \<in> set reasons) THROTTLE_REASONS)\<rparr>)"

definition gpu_reports :: "Telemetry \<Rightarrow> GpuReport list" where
  "gpu_reports t =
     (case t of
        Some nvml \<Rightarrow>
          let num = (case nv_device_count nvml of Some n \<Rightarrow> n | None \<Rightarrow> 0)
          in List.map_filter (\<lambda>i. map_option (gpu_report (word_of_nat i)) (nv_device_by_index nvml (word_of_nat i))) [0..<unat num]
      | None \<Rightarrow> [])"

text \<open>\<open>cpu\<close>: what \<open>read_cpu_temp\<close> of the platform gives.\<close>

definition read_telemetry :: "Telemetry \<Rightarrow> u32 option \<Rightarrow> u32 \<Rightarrow> Reading" where
  "read_telemetry t cpu gpu_index =
     (let r = \<lparr>rd_gpu_temp_c = None, rd_gpu_fan_pct = None, rd_gpu_power_w = None, rd_cpu_temp_c = cpu\<rparr>
      in case t of
           Some nvml \<Rightarrow>
             (case nv_device_by_index nvml gpu_index of
                Some dev \<Rightarrow> r\<lparr>rd_gpu_temp_c := nd_temperature dev, rd_gpu_fan_pct := nd_fan_speed dev,
                              rd_gpu_power_w := map_option watts (nd_power_usage dev)\<rparr>
              | None \<Rightarrow> r)
         | None \<Rightarrow> r)"

subsection \<open>The temperature of the CPU\<close>

text \<open>\<open>i64::from_str\<close>: an optional sign and one digit or more.\<close>

definition parse_i64 :: "string \<Rightarrow> int option" where
  "parse_i64 s =
     (let (neg, ds) = (case s of c # cs \<Rightarrow> if c = CHR ''-'' then (True, cs) else if c = CHR ''+'' then (False, cs) else (False, s)
                                | [] \<Rightarrow> (False, s))
      in if ds = [] then None
         else case digits_val 10 0 ds of
                None \<Rightarrow> None
              | Some v \<Rightarrow>
                  let i = (if neg then - int v else int v)
                  in if - (2 ^ 63) \<le> i \<and> i < 2 ^ 63 then Some i else None)"

text \<open>Division of signed integers rounds towards zero.\<close>

definition u32_try_from :: "int \<Rightarrow> u32 option" where
  "u32_try_from i = (if 0 \<le> i \<and> i < 2 ^ 32 then Some (word_of_int i) else None)"

record HwmonEntry =
  hw_name :: "string option"
  hw_temp1 :: "string option"

fun hwmon_scan :: "HwmonEntry option list \<Rightarrow> u32 option" where
  "hwmon_scan [] = None"
| "hwmon_scan (None # es) = hwmon_scan es"
| "hwmon_scan (Some e # es) =
     (let name = trim (case hw_name e of Some n \<Rightarrow> n | None \<Rightarrow> '''')
      in if name \<notin> {''coretemp'', ''k10temp'', ''zenpower'', ''cpu_thermal''} then hwmon_scan es
         else case hw_temp1 e of
                None \<Rightarrow> hwmon_scan es
              | Some v \<Rightarrow>
                  (case parse_i64 (trim v) of
                     None \<Rightarrow> hwmon_scan es
                   | Some milli \<Rightarrow> u32_try_from (if milli < 0 then - (- milli div 1000) else milli div 1000)))"

definition read_cpu_temp_linux :: "HwmonEntry option list option \<Rightarrow> u32 option" where
  "read_cpu_temp_linux dir = Option.bind dir hwmon_scan"

text \<open>\<open>f64::from_str\<close>.\<close>

definition is_digit :: "char \<Rightarrow> bool" where
  "is_digit c \<longleftrightarrow> to_digit 10 c \<noteq> None"

definition parse_exponent :: "string \<Rightarrow> int option" where
  "parse_exponent s =
     (case s of
        [] \<Rightarrow> Some 0
      | c # cs \<Rightarrow>
          if c = CHR ''e'' \<or> c = CHR ''E''
          then let (neg, ds) = (case cs of d # ds \<Rightarrow> if d = CHR ''-'' then (True, ds) else if d = CHR ''+'' then (False, ds) else (False, cs)
                                         | [] \<Rightarrow> (False, cs))
               in if ds = [] then None else map_option (\<lambda>v. if neg then - int v else int v) (digits_val 10 0 ds)
          else None)"

definition parse_f64 :: "string \<Rightarrow> f64 option" where
  "parse_f64 s =
     (let (neg, r) = (case s of c # cs \<Rightarrow> if c = CHR ''-'' then (True, cs) else if c = CHR ''+'' then (False, cs) else (False, s)
                               | [] \<Rightarrow> (False, s))
      in if to_lowercase r = ''inf'' \<or> to_lowercase r = ''infinity'' then Some (F_Inf neg)
         else if to_lowercase r = ''nan'' then Some F_NaN
         else let whole = takeWhile is_digit r;
                  r = dropWhile is_digit r;
                  (frac, r) = (case r of c # cs \<Rightarrow> if c = CHR ''.'' then (takeWhile is_digit cs, dropWhile is_digit cs) else ([], r)
                                       | [] \<Rightarrow> ([], r))
              in if whole = [] \<and> frac = [] then None
                 else case (digits_val 10 0 (whole @ frac), parse_exponent r) of
                        (Some v, Some e) \<Rightarrow>
                          Some (f64_round ((if neg then - 1 else 1) * of_nat v * pow10 (e - int (length frac))))
                      | _ \<Rightarrow> None)"

text \<open>\<open>output\<close>: what PowerShell wrote, None if it could not be started.\<close>

definition probe_cpu_temp :: "string option \<Rightarrow> u32 option" where
  "probe_cpu_temp output =
     (case Option.bind output (\<lambda>text. parse_f64 (trim text)) of
        None \<Rightarrow> None
      | Some decikelvin \<Rightarrow>
          if f64_le decikelvin (F_Fin 0) then None
          else let celsius = f64_sub (f64_div decikelvin (F_Fin 10)) (f64_div (F_Fin 27315) (F_Fin 100))
               in if f64_le (F_Fin 0) celsius \<and> f64_lt celsius (F_Fin 150)
                  then Some (word_of_nat (f64_to_uint 32 (f64_round_int celsius))) else None)"

subsection \<open>The reporter\<close>

definition GPU_REPORT_FIRST :: duration where
  "GPU_REPORT_FIRST = from_secs 60"

definition GPU_REPORT_EVERY :: duration where
  "GPU_REPORT_EVERY = from_secs 600"

record Reporter =
  rp_last_hashes :: u64
  rp_last_gpu :: u64
  rp_last_cpu :: u64
  rp_last_t :: instant
  rp_share_rate :: ShareRate
  rp_next_gpu_report :: instant

text \<open>
  What a turn finds after its sleep: the clock at each of its three readings, the shared state, NVML and the CPU's
  temperature.
\<close>

record ReportTurn =
  tn_woken :: instant
  tn_now :: instant
  tn_later :: instant
  tn_shared :: Shared
  tn_nvml :: Telemetry
  tn_cpu_temp :: "u32 option"

definition reporter_start :: "instant \<Rightarrow> instant \<Rightarrow> Shared \<Rightarrow> Reporter" where
  "reporter_start t0 t1 s =
     \<lparr>rp_last_hashes = 0, rp_last_gpu = 0, rp_last_cpu = 0, rp_last_t = t0,
      rp_share_rate = ShareRate_new t0 (st_accepted (sh_stats s)), rp_next_gpu_report = t1 + GPU_REPORT_FIRST\<rparr>"

definition gpu_report_lines :: "bool \<Rightarrow> ReportTurn \<Rightarrow> Reporter \<Rightarrow> out_line list \<times> Reporter" where
  "gpu_report_lines json tn rp =
     (if rp_next_gpu_report rp \<le> tn_woken tn
      then (concat (map (\<lambda>r. human json (''[gpu] '' @ format_gpu_report r)) (gpu_reports (tn_nvml tn))),
            rp\<lparr>rp_next_gpu_report := rp_next_gpu_report rp + GPU_REPORT_EVERY\<rparr>)
      else ([], rp))"

definition rate_of :: "u64 \<Rightarrow> u64 \<Rightarrow> f64 \<Rightarrow> f64" where
  "rate_of counted previous dt = f64_div (f64_of_nat (unat (counted - previous))) (f64_max dt (f64_div (F_Fin 1) (F_Fin 1000)))"

definition temp_text :: "Reading \<Rightarrow> string" where
  "temp_text r =
     (case (rd_gpu_temp_c r, rd_cpu_temp_c r) of
        (Some g, Some c) \<Rightarrow> '' | GPU '' @ dec (unat g) @ ''C CPU '' @ dec (unat c) @ ''C''
      | (Some g, None) \<Rightarrow> '' | GPU '' @ dec (unat g) @ ''C''
      | (None, Some c) \<Rightarrow> '' | CPU '' @ dec (unat c) @ ''C''
      | (None, None) \<Rightarrow> '''')"

definition report_turn :: "bool \<Rightarrow> ReportTurn \<Rightarrow> Reporter \<Rightarrow> out_line list \<times> Reporter" where
  "report_turn json tn rp =
     (let (gpu_lines, rp) = gpu_report_lines json tn rp;
          st = sh_stats (tn_shared tn);
          now = tn_now tn;
          dt = as_secs_f64 (duration_since now (rp_last_t rp));
          rate = rate_of (st_hashes st) (rp_last_hashes rp) dt;
          gpu_rate = rate_of (st_gpu_hashes st) (rp_last_gpu rp) dt;
          cpu_rate = rate_of (st_cpu_hashes st) (rp_last_cpu rp) dt;
          (accepted_per_min, samples) = per_minute (rp_share_rate rp) now (st_accepted st);
          bits = st_network_bits st;
          network_difficulty = (if bits \<noteq> 0 then difficulty_of_bits bits else F_Fin 0);
          eta_secs = (if f64_lt (F_Fin 0) rate \<and> bits \<noteq> 0
                      then Some (f64_div (f64_mul network_difficulty (F_Fin 4294967296)) rate) else None);
          temps = read_telemetry (tn_nvml tn) (tn_cpu_temp tn) 0;
          rtt = pool_rtt_ms (tn_shared tn);
          best = best_share (tn_shared tn);
          (best_diff, best_needed) = (case best of Some b \<Rightarrow> (bs_difficulty b, bs_network_difficulty b) | None \<Rightarrow> (F_Fin 0, F_Fin 0));
          age = map_option (\<lambda>b. as_secs_f64 (duration_since (tn_later tn) (bs_found b))) best;
          ev = EvStats rate gpu_rate cpu_rate (st_accepted st) (st_rejected st) (st_stale st) accepted_per_min best_diff best_needed
                 age (st_blocks st) eta_secs network_difficulty (st_job_height st) rtt temps;
          line = ''[miner] '' @ format_hashrate rate @ '' | shares '' @
                 format_shares (st_accepted st) accepted_per_min (st_stale st) (st_rejected st) @ '' | '' @ format_pool_rtt rtt @
                 '' | best '' @ format_best_share best_diff best_needed @ '' | blocks '' @ dec (unat (st_blocks st)) @ '' | est. block: '' @
                 (case eta_secs of Some s \<Rightarrow> format_duration s | None \<Rightarrow> ''unknown'') @ temp_text temps
      in (gpu_lines @ emit json ev @ human json line,
          rp\<lparr>rp_last_hashes := st_hashes st, rp_last_gpu := st_gpu_hashes st, rp_last_cpu := st_cpu_hashes st, rp_last_t := now,
             rp_share_rate := samples\<rparr>))"

text \<open>The loop, over the turns it comes to: what each of them prints.\<close>

fun run_reporter :: "bool \<Rightarrow> ReportTurn list \<Rightarrow> Reporter \<Rightarrow> out_line list list \<times> Reporter" where
  "run_reporter json [] rp = ([], rp)"
| "run_reporter json (tn # tns) rp =
     (case report_turn json tn rp of (ls, rp) \<Rightarrow> case run_reporter json tns rp of (lss, rp) \<Rightarrow> (ls # lss, rp))"

section \<open>Lemmas\<close>

text \<open>The shares a minute, from the whole history of reports: since the newest at least a minute old, or the first.\<close>

definition minute_base :: "(instant \<times> u64) list \<Rightarrow> instant \<times> u64" where
  "minute_base hist =
     last (hd hist # filter (\<lambda>(t, _). SHARE_RATE_WINDOW \<le> duration_since (fst (last hist)) t) (tl hist))"

definition minute_rate :: "(instant \<times> u64) list \<Rightarrow> f64" where
  "minute_rate hist =
     (let (now, accepted) = last hist; (t0, a0) = minute_base hist; span = as_secs_f64 (duration_since now t0)
      in if f64_le span (F_Fin 0) then F_Fin 0
         else f64_div (f64_mul (f64_of_nat (unat accepted - unat a0)) (F_Fin 60)) span)"

definition window_at :: "instant \<Rightarrow> (instant \<times> u64) list \<Rightarrow> nat \<Rightarrow> bool" where
  "window_at now hist k \<longleftrightarrow> k < length hist \<and> (k = 0 \<or> SHARE_RATE_WINDOW \<le> duration_since now (fst (hist ! k))) \<and>
     (\<forall>j<length hist. k < j \<longrightarrow> \<not> SHARE_RATE_WINDOW \<le> duration_since now (fst (hist ! j)))"

lemma drop_old_window:
  "xs \<noteq> [] \<Longrightarrow> sorted (map fst xs) \<Longrightarrow> \<exists>k. drop_old now xs = drop k xs \<and> window_at now xs k"
proof (induction now xs rule: drop_old.induct)
  case (1 now a b rest)
  show ?case
  proof (cases "SHARE_RATE_WINDOW \<le> duration_since now (fst b)")
    case True
    then obtain k where k: "drop_old now (b # rest) = drop k (b # rest)" "window_at now (b # rest) k" using 1 by auto
    have "window_at now (a # b # rest) (Suc k)"
      unfolding window_at_def
    proof (intro conjI allI impI)
      show "Suc k < length (a # b # rest)" using k(2) by (simp add: window_at_def)
      show "Suc k = 0 \<or> SHARE_RATE_WINDOW \<le> duration_since now (fst ((a # b # rest) ! Suc k))"
        using k(2) True by (cases k) (auto simp: window_at_def)
      fix j assume "j < length (a # b # rest)" "Suc k < j"
      then show "\<not> SHARE_RATE_WINDOW \<le> duration_since now (fst ((a # b # rest) ! j))" using k(2) by (cases j) (auto simp: window_at_def)
    qed
    then show ?thesis using k(1) True by (intro exI [of _ "Suc k"]) simp
  next
    case False
    have late: "\<not> SHARE_RATE_WINDOW \<le> duration_since now (fst ((b # rest) ! j))" if "j < length (b # rest)" for j
    proof -
      have "fst b \<le> fst ((b # rest) ! j)" using 1(3) that by (cases j) auto
      then show ?thesis using False by (simp add: duration_since_def)
    qed
    have "\<not> SHARE_RATE_WINDOW \<le> duration_since now (fst ((a # b # rest) ! j))" if "j < length (a # b # rest)" "0 < j" for j
      using that late [of "j - 1"] by (cases j) auto
    then have "window_at now (a # b # rest) 0" by (simp add: window_at_def)
    then show ?thesis using False by (intro exI [of _ 0]) simp
  qed
qed (auto simp: window_at_def)

lemma window_base:
  assumes "window_at (fst (last hist)) hist k"
  shows "minute_base hist = hist ! k"
proof -
  let ?P = "\<lambda>(t, _ :: u64). SHARE_RATE_WINDOW \<le> duration_since (fst (last hist)) t"
  have k: "k < length hist" and late: "\<forall>j<length hist. k < j \<longrightarrow> \<not> ?P (hist ! j)" and old: "k = 0 \<or> ?P (hist ! k)"
    using assms by (auto simp: window_at_def split_def)
  have split: "hist = take k hist @ hist ! k # drop (Suc k) hist" using k by (rule id_take_nth_drop)
  have "filter ?P (drop (Suc k) hist) = []"
  proof (rule filter_False, rule ballI)
    fix x assume "x \<in> set (drop (Suc k) hist)"
    then obtain i where "i < length hist - Suc k" "x = hist ! (Suc k + i)" by (auto simp: in_set_conv_nth)
    then show "\<not> ?P x" using late [rule_format, of "Suc k + i"] by auto
  qed
  moreover have "hd hist = hist ! 0" using k by (cases hist) auto
  moreover have "filter ?P (tl hist) = filter ?P (drop (Suc k) hist)" if "k = 0" using that by (simp add: drop_Suc)
  moreover have "filter ?P (tl hist) = filter ?P (tl (take k hist)) @ hist ! k # filter ?P (drop (Suc k) hist)" if "k \<noteq> 0"
  proof -
    have "tl hist = tl (take k hist) @ hist ! k # drop (Suc k) hist"
      using that k by (subst split) (cases hist; cases k; simp)
    then show ?thesis using old that by simp
  qed
  ultimately show ?thesis unfolding minute_base_def by (cases "k = 0") (simp_all add: split_def)
qed

lemma window_later:
  assumes "window_at now hist k" and "now \<le> now'" and "sorted (map fst (hist @ [(now', a)]))"
  shows "\<exists>k'. drop_old now' (drop k hist @ [(now', a)]) = drop k' (hist @ [(now', a)]) \<and> window_at now' (hist @ [(now', a)]) k'"
proof -
  let ?h = "hist @ [(now', a)]"
  have k: "k < length hist" using assms(1) by (simp add: window_at_def)
  have d: "drop k hist @ [(now', a)] = drop k ?h" using k by simp
  have "sorted (map fst (drop k ?h))" unfolding drop_map [symmetric] by (rule sorted_wrt_drop [OF assms(3)])
  then obtain i where i: "drop_old now' (drop k ?h) = drop i (drop k ?h)" "window_at now' (drop k ?h) i"
    using drop_old_window [of "drop k ?h" now'] k by auto
  have "window_at now' ?h (k + i)"
    unfolding window_at_def
  proof (intro conjI allI impI)
    have "i < length (drop k ?h)" using i(2) unfolding window_at_def by blast
    then show "k + i < length ?h" unfolding length_drop using k by linarith
    show "k + i = 0 \<or> SHARE_RATE_WINDOW \<le> duration_since now' (fst (?h ! (k + i)))"
    proof (cases "i = 0")
      case True
      have "k = 0 \<or> SHARE_RATE_WINDOW \<le> duration_since now (fst (hist ! k))" using assms(1) by (simp add: window_at_def)
      then show ?thesis using True assms(2) k by (auto simp: duration_since_def nth_append)
    next
      case False
      then have "SHARE_RATE_WINDOW \<le> duration_since now' (fst (drop k ?h ! i))" using i(2) unfolding window_at_def by blast
      moreover have "drop k ?h ! i = ?h ! (k + i)" using k by (intro nth_drop) simp
      ultimately show ?thesis by simp
    qed
    fix j assume j: "j < length ?h" "k + i < j"
    then have "\<not> SHARE_RATE_WINDOW \<le> duration_since now' (fst (drop k ?h ! (j - k)))" using i(2) k unfolding window_at_def by auto
    moreover have "drop k ?h ! (j - k) = ?h ! (k + (j - k))" using k by (intro nth_drop) simp
    ultimately show "\<not> SHARE_RATE_WINDOW \<le> duration_since now' (fst (?h ! j))" using j(2) by simp
  qed
  moreover have "drop i (drop k ?h) = drop (k + i) ?h" by (simp add: add.commute del: drop_append)
  ultimately show ?thesis using d i(1) by metis
qed

lemma per_minute_exact:
  assumes "window_at now hist k" and "now \<le> now'" and "sorted (map fst (hist @ [(now', a)]))"
  obtains k' where "per_minute (drop k hist) now' a = (minute_rate (hist @ [(now', a)]), drop k' (hist @ [(now', a)]))"
    "window_at now' (hist @ [(now', a)]) k'"
proof -
  from window_later [OF assms] obtain k' where k': "drop_old now' (drop k hist @ [(now', a)]) = drop k' (hist @ [(now', a)])"
    "window_at now' (hist @ [(now', a)]) k'" by blast
  have "hd (drop k' (hist @ [(now', a)])) = minute_base (hist @ [(now', a)])"
    using window_base [of "hist @ [(now', a)]" k'] k'(2) hd_drop_conv_nth [of k' "hist @ [(now', a)]"]
    by (simp add: window_at_def del: drop_append)
  then have "per_minute (drop k hist) now' a = (minute_rate (hist @ [(now', a)]), drop k' (hist @ [(now', a)]))"
    unfolding per_minute_def minute_rate_def by (simp add: k'(1) Let_def unat_sat_sub split_def)
  with k'(2) that show ?thesis by blast
qed

text \<open>The rates of a report: of all hashes, the GPUs' and the CPU's, and the shares a minute.\<close>

fun stats_rates :: "Event \<Rightarrow> (f64 \<times> f64 \<times> f64 \<times> f64) option" where
  "stats_rates (EvStats rate gpu cpu _ _ _ per_min _ _ _ _ _ _ _ _ _) = Some (rate, gpu, cpu, per_min)"
| "stats_rates _ = None"

definition counts_of :: "ReportTurn \<Rightarrow> nat \<times> nat \<times> nat" where
  "counts_of tn = (let st = sh_stats (tn_shared tn) in (unat (st_hashes st), unat (st_gpu_hashes st), unat (st_cpu_hashes st)))"

definition rate_between :: "nat \<Rightarrow> nat \<Rightarrow> duration \<Rightarrow> f64" where
  "rate_between before after d = f64_div (f64_of_nat (after - before)) (f64_max (as_secs_f64 d) (f64_div (F_Fin 1) (F_Fin 1000)))"

text \<open>What the turns should show, from the counts before and the history of reports so far.\<close>

fun rates_by_history :: "nat \<times> nat \<times> nat \<Rightarrow> (instant \<times> u64) list \<Rightarrow> ReportTurn list \<Rightarrow> (f64 \<times> f64 \<times> f64 \<times> f64) list" where
  "rates_by_history before hist [] = []"
| "rates_by_history (h, g, c) hist (tn # tns) =
     (let (h', g', c') = counts_of tn; d = duration_since (tn_now tn) (fst (last hist));
          hist = hist @ [(tn_now tn, st_accepted (sh_stats (tn_shared tn)))]
      in (rate_between h h' d, rate_between g g' d, rate_between c c' d, minute_rate hist) # rates_by_history (h', g', c') hist tns)"

text \<open>Counters that do not go back.\<close>

definition counts_le :: "nat \<times> nat \<times> nat \<Rightarrow> nat \<times> nat \<times> nat \<Rightarrow> bool" where
  "counts_le a b \<longleftrightarrow> fst a \<le> fst b \<and> fst (snd a) \<le> fst (snd b) \<and> snd (snd a) \<le> snd (snd b)"

definition reporter_at :: "nat \<times> nat \<times> nat \<Rightarrow> (instant \<times> u64) list \<Rightarrow> Reporter \<Rightarrow> bool" where
  "reporter_at before hist rp \<longleftrightarrow>
     (unat (rp_last_hashes rp), unat (rp_last_gpu rp), unat (rp_last_cpu rp)) = before \<and> hist \<noteq> [] \<and>
     rp_last_t rp = fst (last hist) \<and> sorted (map fst hist) \<and>
     (\<exists>k. rp_share_rate rp = drop k hist \<and> window_at (fst (last hist)) hist k)"

lemma rate_of_counts: "unat p \<le> unat c \<Longrightarrow> rate_of c p (as_secs_f64 d) = rate_between (unat p) (unat c) d"
  by (simp add: rate_of_def rate_between_def unat_sub word_le_nat_alt)

lemma sorted_snoc:
  assumes "hist \<noteq> []" and "sorted (map fst hist)" and "fst (last hist) \<le> t"
  shows "sorted (map fst hist @ [t])"
proof -
  have "map fst hist = map fst (butlast hist) @ [fst (last hist)]" using assms(1) by (metis append_butlast_last_id list.simps(8,9) map_append)
  then show ?thesis using assms(2,3) by (auto simp: sorted_append)
qed

lemma report_turn_exact:
  assumes rp: "reporter_at (h, g, c) hist rp" and t: "fst (last hist) \<le> tn_now tn" and le: "counts_le (h, g, c) (counts_of tn)"
  obtains ev rp' where "report_turn True tn rp = ([Json ev], rp')"
    "stats_rates ev = Some (hd (rates_by_history (h, g, c) hist [tn]))"
    "reporter_at (counts_of tn) (hist @ [(tn_now tn, st_accepted (sh_stats (tn_shared tn)))]) rp'"
proof -
  let ?st = "sh_stats (tn_shared tn)"
  let ?hist = "hist @ [(tn_now tn, st_accepted ?st)]"
  obtain k where k: "rp_share_rate rp = drop k hist" "window_at (fst (last hist)) hist k" using rp by (auto simp: reporter_at_def)
  have "hist \<noteq> []" "sorted (map fst hist)" using rp by (simp_all add: reporter_at_def)
  then have s: "sorted (map fst ?hist)" using sorted_snoc [of hist "tn_now tn"] t by simp
  obtain k' where k': "per_minute (drop k hist) (tn_now tn) (st_accepted ?st) = (minute_rate ?hist, drop k' ?hist)"
    "window_at (tn_now tn) ?hist k'" using per_minute_exact [OF k(2) t s] by blast
  define samples where "samples = drop k' ?hist"
  obtain rp1 where g: "gpu_report_lines True tn rp = ([], rp1)" "rp_last_hashes rp1 = rp_last_hashes rp" "rp_last_gpu rp1 = rp_last_gpu rp"
    "rp_last_cpu rp1 = rp_last_cpu rp" "rp_last_t rp1 = rp_last_t rp" "rp_share_rate rp1 = rp_share_rate rp"
    by (rule that [of "snd (gpu_report_lines True tn rp)"]) (auto simp: gpu_report_lines_def human_def)
  have per: "per_minute (rp_share_rate rp) (tn_now tn) (st_accepted ?st) = (minute_rate ?hist, samples)"
    using k'(1) k(1) by (simp only: samples_def)
  obtain ev rp' where r: "report_turn True tn rp = ([Json ev], rp')"
    "stats_rates ev = Some (rate_of (st_hashes ?st) (rp_last_hashes rp) (as_secs_f64 (duration_since (tn_now tn) (rp_last_t rp))),
       rate_of (st_gpu_hashes ?st) (rp_last_gpu rp) (as_secs_f64 (duration_since (tn_now tn) (rp_last_t rp))),
       rate_of (st_cpu_hashes ?st) (rp_last_cpu rp) (as_secs_f64 (duration_since (tn_now tn) (rp_last_t rp))), minute_rate ?hist)"
    "rp_last_hashes rp' = st_hashes ?st" "rp_last_gpu rp' = st_gpu_hashes ?st" "rp_last_cpu rp' = st_cpu_hashes ?st"
    "rp_last_t rp' = tn_now tn" "rp_share_rate rp' = samples"
    by (simp add: report_turn_def g per Let_def emit_def human_def split_def)
  have "stats_rates ev = Some (hd (rates_by_history (h, g, c) hist [tn]))"
    using r(2) rp le by (simp add: Let_def rate_of_counts reporter_at_def counts_le_def counts_of_def)
  moreover have "reporter_at (counts_of tn) ?hist rp'"
    using r k'(2) s by (auto simp: samples_def reporter_at_def counts_of_def Let_def)
  ultimately show ?thesis using that r(1) by blast
qed

lemma run_reporter_exact:
  assumes "reporter_at before hist rp" and "sorted (map fst hist @ map tn_now tns)"
    and "sorted_wrt counts_le (before # map counts_of tns)"
  shows "\<exists>evs. fst (run_reporter True tns rp) = map (\<lambda>ev. [Json ev]) evs \<and>
    map stats_rates evs = map Some (rates_by_history before hist tns)"
  using assms
proof (induction tns arbitrary: before hist rp)
  case Nil
  show ?case by (cases before) simp
next
  case (Cons tn tns)
  obtain h g c where before: "before = (h, g, c)" by (cases before)
  let ?hist = "hist @ [(tn_now tn, st_accepted (sh_stats (tn_shared tn)))]"
  have "hist \<noteq> []" using Cons.prems(1) by (simp add: before reporter_at_def)
  then have "last hist \<in> set hist" by simp
  then have t: "fst (last hist) \<le> tn_now tn" using Cons.prems(2) by (auto simp: sorted_append)
  have le: "counts_le (h, g, c) (counts_of tn)" using Cons.prems(3) by (simp add: before)
  obtain ev rp' where turn: "report_turn True tn rp = ([Json ev], rp')"
    "stats_rates ev = Some (hd (rates_by_history (h, g, c) hist [tn]))" "reporter_at (counts_of tn) ?hist rp'"
    using report_turn_exact [OF Cons.prems(1) [unfolded before] t le] by blast
  obtain evs where evs: "fst (run_reporter True tns rp') = map (\<lambda>ev. [Json ev]) evs"
    "map stats_rates evs = map Some (rates_by_history (counts_of tn) ?hist tns)"
    using Cons.IH [OF turn(3)] Cons.prems(2,3) by auto
  have "rates_by_history before hist (tn # tns) =
      hd (rates_by_history (h, g, c) hist [tn]) # rates_by_history (counts_of tn) ?hist tns"
    by (cases "counts_of tn") (simp add: before Let_def)
  then have "map stats_rates (ev # evs) = map Some (rates_by_history before hist (tn # tns))"
    using turn(2) evs(2) by simp
  moreover have "fst (run_reporter True (tn # tns) rp) = map (\<lambda>ev. [Json ev]) (ev # evs)"
    using turn(1) evs(1) by (simp add: split_def)
  ultimately show ?case by blast
qed

lemma reporter_starts: "reporter_at (0, 0, 0) [(t0, st_accepted (sh_stats s))] (reporter_start t0 t1 s)"
  by (simp add: reporter_at_def reporter_start_def ShareRate_new_def window_at_def)

section \<open>The property\<close>

text \<open>
  C40. With JSON output the reporter writes exactly one stats event a turn. Its hash rates are the
  hashes counted since the turn before over the time since then, a millisecond at least; its shares a minute are the
  shares accepted since the newest report at least a minute old, or since the start while there is none, over the time
  since that one: what the whole history of reports gives, although the reporter only keeps the end of it. The clock
  and the counters are taken not to go back.
\<close>

theorem reporter_rates_exact:
  assumes "sorted (t0 # map tn_now tns)" and "sorted_wrt counts_le (map counts_of tns)"
  shows "\<exists>evs. fst (run_reporter True tns (reporter_start t0 t1 s)) = map (\<lambda>ev. [Json ev]) evs \<and>
    map stats_rates evs = map Some (rates_by_history (0, 0, 0) [(t0, st_accepted (sh_stats s))] tns)"
  using run_reporter_exact [OF reporter_starts [of t0 s t1], of tns] assms by (simp add: counts_le_def)

text \<open>Two turns, five seconds apart, with 5,000 and then 15,000 hashes and three shares in the second.\<close>

definition demo_turn :: "instant \<Rightarrow> u64 \<Rightarrow> u64 \<Rightarrow> ReportTurn" where
  "demo_turn now hashes accepted =
     (let s = Shared_new 0 \<lparr>pl_gpus = 0, pl_cpu_threads = 1, pl_cpu_fallback_threads = 0, pl_gpu_kernel = []\<rparr> 0
      in \<lparr>tn_woken = now, tn_now = now, tn_later = now,
          tn_shared = s\<lparr>sh_stats := (sh_stats s)\<lparr>st_hashes := hashes, st_cpu_hashes := hashes, st_accepted := accepted\<rparr>\<rparr>,
          tn_nvml = without_gpu, tn_cpu_temp = None\<rparr>)"

lemma demo_turn_fields [simp]:
  "tn_now (demo_turn now hs a) = now" "st_hashes (sh_stats (tn_shared (demo_turn now hs a))) = hs"
  "st_cpu_hashes (sh_stats (tn_shared (demo_turn now hs a))) = hs" "st_gpu_hashes (sh_stats (tn_shared (demo_turn now hs a))) = 0"
  "st_accepted (sh_stats (tn_shared (demo_turn now hs a))) = a"
  by (simp_all add: demo_turn_def Let_def Shared_new_def Stats_default_def)

lemma millisecond: "f64_div (F_Fin 1) (F_Fin 1000) = F_Fin (4611686018427388 / 2 ^ 62)"
proof -
  have "flog2 (1 / 1000) = - 10" by (rule flog2_unique) (simp_all add: pow2_def)
  then have "f64_ulp_exp (1 / 1000) = - 62" by (simp add: f64_ulp_exp_def)
  moreover have "\<lfloor>4611686018427387904 / 1000 :: rat\<rfloor> = 4611686018427387" by (rule floor_unique) simp_all
  then have "round_half_even (4611686018427387904 / 1000) = 4611686018427388" unfolding round_half_even_def Let_def by (simp only: ) simp
  ultimately show ?thesis by (simp add: f64_round_def pow2_def)
qed
lemma f64_round_nat: "n < 2 ^ 53 \<Longrightarrow> f64_round (of_nat n) = F_Fin (of_nat n)"
  using f64_of_nat_exact by (simp only: f64_of_nat_def)

lemma f64_round_numeral: "numeral n < (2 ^ 53 :: nat) \<Longrightarrow> f64_round (numeral n) = F_Fin (numeral n)"
  using f64_round_nat [of "numeral n"] by simp
lemma as_secs: "s < 2 ^ 53 \<Longrightarrow> as_secs_f64 (from_secs s) = F_Fin (of_nat s)"
  by (simp add: as_secs_f64_def from_secs_def f64_of_nat_exact f64_round_nat)

lemma demo_spans:
  "as_secs_f64 (duration_since (from_secs 5) 0) = F_Fin 5" "as_secs_f64 (duration_since (from_secs 10) (from_secs 5)) = F_Fin 5"
  "as_secs_f64 (duration_since (from_secs 10) 0) = F_Fin 10"
  using as_secs [of 5] as_secs [of 10] by (simp_all add: duration_since_def from_secs_def)

lemma demo_between [simp]: "rate_between a b d = f64_div (f64_of_nat (b - a)) (F_Fin 5)" if "as_secs_f64 d = F_Fin 5"
  unfolding rate_between_def that millisecond by (simp add: f64_max_def)

lemma demo_minute:
  "minute_rate [(0, 0), (from_secs 5, 0)] = F_Fin 0" "minute_rate [(0, 0), (from_secs 5, 0), (from_secs 10, 3)] = F_Fin 18"
proof -
  have old: "\<not> SHARE_RATE_WINDOW \<le> duration_since (from_secs s) t" if "s < 60" for s t
    using that by (simp add: SHARE_RATE_WINDOW_def duration_since_def from_secs_def)
  have "minute_base [(0, 0), (from_secs 5, 0)] = (0, 0)" "minute_base [(0, 0), (from_secs 5, 0), (from_secs 10, 3)] = (0, 0)"
    by (simp_all add: minute_base_def old)
  then show "minute_rate [(0, 0), (from_secs 5, 0)] = F_Fin 0" "minute_rate [(0, 0), (from_secs 5, 0), (from_secs 10, 3)] = F_Fin 18"
    by (simp_all add: minute_rate_def Let_def demo_spans f64_le_def f64_of_nat_exact f64_round_numeral)
qed

lemma demo_rates:
  "rates_by_history (0, 0, 0) [(0, 0)] [demo_turn (from_secs 5) 5000 0, demo_turn (from_secs 10) 15000 3] =
     [(F_Fin 1000, F_Fin 0, F_Fin 1000, F_Fin 0), (F_Fin 2000, F_Fin 0, F_Fin 2000, F_Fin 18)]"
  by (simp add: Let_def counts_of_def demo_spans demo_minute f64_of_nat_exact f64_round_numeral)

theorem reporter_rates_exact_witness:
  "\<exists>e1 e2. fst (run_reporter True [demo_turn (from_secs 5) 5000 0, demo_turn (from_secs 10) 15000 3]
       (reporter_start 0 0 (tn_shared (demo_turn 0 0 0)))) = [[Json e1], [Json e2]] \<and>
     stats_rates e1 = Some (F_Fin 1000, F_Fin 0, F_Fin 1000, F_Fin 0) \<and>
     stats_rates e2 = Some (F_Fin 2000, F_Fin 0, F_Fin 2000, F_Fin 18)"
proof -
  let ?tns = "[demo_turn (from_secs 5) 5000 0, demo_turn (from_secs 10) 15000 3]"
  have "sorted (0 # map tn_now ?tns)" by (simp add: from_secs_def)
  moreover have "sorted_wrt counts_le (map counts_of ?tns)" by (simp add: counts_le_def counts_of_def Let_def)
  ultimately obtain evs where evs: "fst (run_reporter True ?tns (reporter_start 0 0 (tn_shared (demo_turn 0 0 0)))) = map (\<lambda>ev. [Json ev]) evs"
    "map stats_rates evs = map Some (rates_by_history (0, 0, 0) [(0, st_accepted (sh_stats (tn_shared (demo_turn 0 0 0))))] ?tns)"
    using reporter_rates_exact [of 0 ?tns 0 "tn_shared (demo_turn 0 0 0)"] by blast
  then show ?thesis unfolding demo_turn_fields demo_rates by (auto simp: map_eq_Cons_conv)
qed

end
