(* ===== verification/Gpu_Worker.thy ===== *)
theory Gpu_Worker
  imports Backends
begin

text \<open>
  \<open>src/gpu_worker.rs\<close>: the GPU worker. Launches are taken from a cursor in the worker's part of
  the search space, queued \<open>gpu_queue\<close> deep, collected, re-checked on the CPU and submitted; a
  device that fails is given its launches again, and reopened when it fails too often. The
  backend is a \<open>MiningBackend\<close> over its own state, whatever that is. Other threads act on the
  shared state at every step of the launch loop (\<open>ge_interfere\<close>, by step), and the clock is read
  once a step (\<open>ge_clock\<close>); \<open>throttle\<close> and \<open>sleep\<close> only let time pass, so the steps stand for
  them. The file of the tuning is the file system of the theory \<open>Tuning\<close>.
\<close>

section \<open>Definitions\<close>

definition BC3_MIN_BATCH :: u32 where
  "BC3_MIN_BATCH = push_bit 8 1"

definition BC3_MAX_BATCH :: u32 where
  "BC3_MAX_BATCH = push_bit 24 1"

definition BC3_START_BATCH :: u32 where
  "BC3_START_BATCH = push_bit 8 1"

definition BC3_TARGET_LAUNCH :: duration where
  "BC3_TARGET_LAUNCH = from_millis 400"

definition REOPEN_DELAY :: duration where
  "REOPEN_DELAY = from_secs 5"

definition MAX_REOPENS :: u32 where
  "MAX_REOPENS = 5"

definition MAX_SCAN_ERRORS :: u32 where
  "MAX_SCAN_ERRORS = 5"

text \<open>What the worker runs in; \<open>ge_jit_empty\<close>: the compile ahead has not reported yet at this step.\<close>

record ('b, 'c) GpuEnv =
  ge_env :: Env
  ge_crates :: Crates
  ge_be :: "'b MiningBackend"
  ge_clock :: "nat \<Rightarrow> instant"
  ge_interfere :: "nat \<Rightarrow> Shared \<Rightarrow> Shared"
  ge_jit_empty :: "nat \<Rightarrow> bool"
  ge_version :: string
  ge_driver :: "string option"
  ge_file :: "path option"
  ge_tmp :: path
  ge_parse :: "'c \<Rightarrow> choices option"
  ge_print :: "choices \<Rightarrow> 'c"
  ge_fs_fail :: "fs_op \<Rightarrow> string option"
  ge_partial :: "'c option"

subsection \<open>The window tuning of a card\<close>

record Tune =
  tu_want :: u32
  tu_tuner :: "Tuner option"
  tu_begun :: bool
  tu_key :: string
  tu_name :: string
  tu_slot :: nat
  tu_preparing :: bool
  tu_jit :: bool
  tu_switch_to :: "u32 option"

definition Tune_new :: "Shared \<Rightarrow> nat \<Rightarrow> Tune" where
  "Tune_new s slot = \<lparr>tu_want = sh_bc3_window s, tu_tuner = None, tu_begun = False, tu_key = [], tu_name = [],
     tu_slot = slot, tu_preparing = False, tu_jit = False, tu_switch_to = None\<rparr>"

definition Tune_want :: "Tune \<Rightarrow> Shared \<Rightarrow> u32" where
  "Tune_want t s = (if sh_bc3_window_set s then sh_bc3_window s else tu_want t)"

definition Tune_emit :: "bool \<Rightarrow> Tune \<Rightarrow> bool \<Rightarrow> (u32 \<times> f64) option \<Rightarrow> out_line list" where
  "Tune_emit json t tuning measured =
     emit json (Tables (tu_slot t) (tu_want t) (drop_bit 20 (table_bytes (tu_want t))) tuning
       (map_option fst measured) (map_option snd measured))"

definition Tune_announce :: "bool \<Rightarrow> Tune \<Rightarrow> bool \<Rightarrow> out_line list" where
  "Tune_announce json t tuning = Tune_emit json t tuning None"

definition remember ::
  "('b, 'c) GpuEnv \<Rightarrow> string \<Rightarrow> Choice \<Rightarrow> (path \<Rightarrow> 'c option) \<Rightarrow> (string + unit) \<times> (path \<Rightarrow> 'c option)" where
  "remember ge k choice fs =
     (case ge_file ge of
        None \<Rightarrow> (Inl ''no cache directory'', fs)
      | Some p \<Rightarrow> remember_in (ge_parse ge) (ge_print ge) (ge_fs_fail ge) (ge_partial ge) (ge_tmp ge) p k choice fs)"

text \<open>\<open>{gain:+.1}\<close>.\<close>

definition fmt_signed :: "nat \<Rightarrow> f64 \<Rightarrow> string" where
  "fmt_signed p x = (case x of F_Fin a \<Rightarrow> if a < 0 then '''' else ''+'' | F_Inf neg \<Rightarrow> if neg then '''' else ''+''
                     | F_NaN \<Rightarrow> '''') @ fmt_fixed p x"

type_synonym 'c tune_io = "Tune \<times> (path \<Rightarrow> 'c option) \<times> out_line list"

definition Tune_act :: "('b, 'c) GpuEnv \<Rightarrow> Action \<Rightarrow> 'c tune_io \<Rightarrow> 'c tune_io" where
  "Tune_act ge action = (\<lambda>(t, fs, out).
     case action of
       Wait \<Rightarrow> (t, fs, out)
     | Build _ \<Rightarrow> (t, fs, out)
     | Switch w \<Rightarrow> (t\<lparr>tu_want := w, tu_switch_to := Some w\<rparr>, fs, out)
     | Done choice rem \<Rightarrow>
         let js = env_json (ge_env ge);
             t = t\<lparr>tu_tuner := None, tu_preparing := False, tu_jit := False\<rparr>;
             gain = f64_mul (f64_sub (f64_div (ch_tried_rate choice) (ch_start_rate choice)) (F_Fin 1)) (F_Fin 100);
             was_measured = f64_lt (F_Fin 0) (ch_start_rate choice) \<and> f64_lt (F_Fin 0) (ch_tried_rate choice);
             measured = (if was_measured then Some (ch_tried choice, gain) else None);
             out = out @ (if was_measured
                          then human js (''[gpu] '' @ tu_name t @ '': BC3Hash window '' @ dec (unat (ch_tried choice)) @
                                 '' measured '' @ fmt_signed 1 gain @ '' % against '' @ dec (unat START_WINDOW) @ '' - '' @
                                 (if ch_window choice = ch_tried choice then ''kept'' else ''staying at 16'') @
                                 (if rem then ''''
                                  else '' for now: 16 measured differently before and after, so the next start measures again''))
                          else []);
             (r, fs) = (if rem then remember ge (tu_key t) choice fs else (Inr (), fs));
             out = out @ (case r of
                            Inl e \<Rightarrow> [Err (''[gpu] '' @ tu_name t @ '': could not remember the tuned window ('' @ e @
                                            '') - it measures again next time'')]
                          | Inr _ \<Rightarrow> [])
         in (t, fs, out @ Tune_emit js t False measured))"

definition Tune_begin ::
  "('b, 'c) GpuEnv \<Rightarrow> Shared \<Rightarrow> 'b \<Rightarrow> 'c tune_io \<Rightarrow> 'c tune_io" where
  "Tune_begin ge s b = (\<lambda>(t, fs, out).
     let be = ge_be ge; js = env_json (ge_env ge)
     in if tu_begun t \<or> sh_bc3_window_set s \<or> be_bc3hash_window be b \<noteq> Some START_WINDOW then (t, fs, out)
        else let t = t\<lparr>tu_begun := True, tu_name := be_name be b\<rparr>
             in (case be_memory be b of
                  None \<Rightarrow> (t, fs, out @ Tune_announce js t False)
                | Some (free, vram) \<Rightarrow>
                    let t = t\<lparr>tu_key := tuning_key (ge_version ge) (tu_name t) vram (ge_driver ge)\<rparr>;
                        fitting = largest_fitting (free + table_bytes START_WINDOW);
                        recalled = recall (ge_parse ge) fs (ge_file ge) (tu_key t)
                    in (case Tuner_start fitting recalled of
                         None \<Rightarrow>
                           (t, fs, out @
                            (case recalled of
                               Some c \<Rightarrow>
                                 if START_WINDOW < ch_window c
                                 then human js (''[gpu] '' @ tu_name t @ '': BC3Hash window '' @ dec (unat (ch_window c)) @
                                        '' was chosen for this card, but its tables do not fit now - '' @
                                        ''staying at '' @ dec (unat START_WINDOW))
                                 else human js (''[gpu] '' @ tu_name t @ '': BC3Hash window '' @ dec (unat START_WINDOW) @
                                        '' - remembered for this card'')
                             | None \<Rightarrow> []) @ Tune_announce js t False)
                       | Some (tuner, first) \<Rightarrow>
                           let target = tn_target tuner;
                               gib = fmt_fixed 1 (f64_div (f64_of_nat (unat (table_bytes target))) (F_Fin (2 ^ 30)));
                               out = out @
                                 (if recalled \<noteq> None
                                  then human js (''[gpu] '' @ tu_name t @ '': BC3Hash window '' @ dec (unat target) @ '' ('' @
                                         gib @ '' GiB of tables) was chosen for this card - '' @ ''switching to it'')
                                  else human js (''[gpu] '' @ tu_name t @ '': tuning the BC3Hash window - measuring window '' @
                                         dec (unat target) @ '' ('' @ gib @ '' GiB of tables, '' @ ''built on the card) against '' @
                                         dec (unat START_WINDOW) @ '' over the next few minutes''));
                               t = t\<lparr>tu_tuner := Some tuner\<rparr>;
                               out = out @ Tune_announce js t (recalled = None);
                               t = (case first of
                                      Build w \<Rightarrow> t\<lparr>tu_jit := be_compile_ahead be b w, tu_preparing := True\<rparr>
                                    | _ \<Rightarrow> t)
                           in (t, fs, out))))"

definition Tune_launched ::
  "('b, 'c) GpuEnv \<Rightarrow> nat \<Rightarrow> u32 \<Rightarrow> u64 \<Rightarrow> duration \<Rightarrow> 'c tune_io \<Rightarrow> 'c tune_io" where
  "Tune_launched ge tick window hashes busy = (\<lambda>(t, fs, out).
     case tu_tuner t of
       None \<Rightarrow> (t, fs, out)
     | Some tuner \<Rightarrow>
         let (t, tuner, action) =
               (if tu_preparing t \<and> \<not> (tu_jit t \<and> ge_jit_empty ge tick)
                then let (tuner, action) = Tuner_ready tuner
                     in (t\<lparr>tu_preparing := False, tu_jit := False\<rparr>, tuner, action)
                else (t, tuner, Wait));
             (tuner, action) = (if action = Wait then Tuner_launched tuner window hashes busy else (tuner, action))
         in Tune_act ge action (t\<lparr>tu_tuner := Some tuner\<rparr>, fs, out))"

definition Tune_switched :: "('b, 'c) GpuEnv \<Rightarrow> u32 \<Rightarrow> bool \<Rightarrow> 'c tune_io \<Rightarrow> 'c tune_io" where
  "Tune_switched ge window ok = (\<lambda>(t, fs, out).
     case tu_tuner t of
       None \<Rightarrow> (t, fs, out)
     | Some tuner \<Rightarrow>
         let js = env_json (ge_env ge);
             t = (if \<not> ok then t\<lparr>tu_want := START_WINDOW\<rparr> else t);
             (tuner, action) = Tuner_switched tuner window ok;
             out = out @ (case action of
                            Switch next \<Rightarrow> if \<not> ok then human js (''[gpu] '' @ tu_name t @ '': trying BC3Hash window '' @
                                                       dec (unat next) @ '' instead'') else []
                          | Done _ _ \<Rightarrow> if \<not> ok then human js (''[gpu] '' @ tu_name t @ '': staying at BC3Hash window '' @
                                                     dec (unat START_WINDOW)) else []
                          | _ \<Rightarrow> [])
         in Tune_act ge action (t\<lparr>tu_tuner := Some tuner\<rparr>, fs, out))"

subsection \<open>Cursor, launches, jobs\<close>

datatype JobEnd = Changed | Exhausted | DeviceGone

definition Cursor_take :: "cursor \<Rightarrow> u32 \<Rightarrow> u64 \<Rightarrow> (u64 \<times> u32 \<times> u32) \<times> cursor" where
  "Cursor_take c mx stride =
     (let (en2, nonce) = c;
          left = push_bit 32 1 - (ucast nonce :: u64);
          count = (ucast (min (ucast (max mx 1)) left) :: u32);
          taken = (en2, nonce, count);
          (next, wrapped) = overflowing_add nonce count
      in (taken, if wrapped then (sat_add en2 stride, 0) else (en2, next)))"

record InFlight =
  if_en2 :: u64
  if_extranonce2 :: bytes
  if_header :: BlockHeader
  if_start :: u32
  if_count :: u32
  if_queued :: instant

record GpuWorker =
  gw_slot :: nat
  gw_worker_index :: nat
  gw_stride :: u64
  gw_prev :: "MinerJob option"
  gw_cursor :: cursor
  gw_batch :: u32
  gw_budget :: HitBudget
  gw_errors :: u32
  gw_collected :: u64
  gw_last_collect :: "instant option"
  gw_tune :: Tune
  gw_said_hashing :: bool

record En2Header =
  eh_en2 :: u64
  eh_extranonce2 :: bytes
  eh_header :: BlockHeader
  eh_header76 :: bytes

definition en2_header :: "Crates \<Rightarrow> MinerJob \<Rightarrow> u64 \<Rightarrow> En2Header" where
  "en2_header cr job en2 =
     (let extranonce2 = encode_extranonce2 en2 (job_extranonce2_size job);
          coinbase = job_coinb1 job @ job_extranonce1 job @ extranonce2 @ job_coinb2 job;
          merkle_root = root_from_steps (cr_sha256 cr) (sha256d (cr_sha256 cr) coinbase) (job_merkle_steps job);
          header = \<lparr>hdr_version = job_version job, hdr_prev_hash = job_prev_hash job,
                    hdr_merkle_root = merkle_root, hdr_time = job_ntime job, hdr_bits = job_bits job, hdr_nonce = 0\<rparr>
      in \<lparr>eh_en2 = en2, eh_extranonce2 = extranonce2, eh_header = header, eh_header76 = take 76 (serialize header)\<rparr>)"

record JobRun =
  jr_job :: MinerJob
  jr_generation :: u64
  jr_algo :: PowAlgo
  jr_verify :: PowFn
  jr_block_target :: "Target option"
  jr_depth :: nat
  jr_granule :: u32
  jr_min_batch :: u32
  jr_max_batch :: u32
  jr_inflight :: "InFlight list"
  jr_ending :: "JobEnd option"
  jr_header :: "En2Header option"
  jr_window :: u32

definition GpuWorker_new :: "Shared \<Rightarrow> nat \<Rightarrow> nat \<Rightarrow> nat \<Rightarrow> GpuWorker" where
  "GpuWorker_new s slot worker_index total_workers =
     \<lparr>gw_slot = slot, gw_worker_index = worker_index, gw_stride = word_of_nat (max total_workers 1),
      gw_prev = None, gw_cursor = (word_of_nat worker_index, 0), gw_batch = BC3_START_BATCH,
      gw_budget = HitBudget_default, gw_errors = 0, gw_collected = 0, gw_last_collect = None,
      gw_tune = Tune_new s slot, gw_said_hashing = False\<rparr>"

definition reopened :: "GpuWorker \<Rightarrow> GpuWorker" where
  "reopened w = w\<lparr>gw_errors := 0, gw_said_hashing := False, gw_last_collect := None\<rparr>"

definition autotune :: "u32 \<Rightarrow> duration \<Rightarrow> duration \<Rightarrow> u32 \<Rightarrow> u32 \<Rightarrow> u32 \<Rightarrow> u32" where
  "autotune batch took target granule lo hi =
     (let granule = max granule 1;
          next = (if took < target div 2 \<and> batch < hi then min (sat_mul batch 2) hi
                  else if target * 5 div 2 < took \<and> lo < batch then max (batch div 2) lo
                  else batch)
      in clamp (min lo hi) hi (max (next div granule) 1 * granule))"

text \<open>
  The worker, its backend, the shared state and the tuning's file, and the step the launch loop
  is at. \<open>g_finished\<close> is not in the code: it records the launches and scans \<open>finish\<close> was called
  for.
\<close>

record ('b, 'c) Gpu =
  g_w :: GpuWorker
  g_b :: 'b
  g_s :: Shared
  g_fs :: "path \<Rightarrow> 'c option"
  g_tick :: nat
  g_finished :: "(InFlight \<times> Scan) list"

definition step :: "('b, 'c) GpuEnv \<Rightarrow> ('b, 'c) Gpu \<Rightarrow> ('b, 'c) Gpu" where
  "step ge g = g\<lparr>g_s := ge_interfere ge (g_tick g) (g_s g), g_tick := g_tick g + 1\<rparr>"

definition g_print :: "out_line list \<Rightarrow> ('b, 'c) Gpu \<Rightarrow> ('b, 'c) Gpu" where
  "g_print ls g = g\<lparr>g_s := print_lines ls (g_s g)\<rparr>"

subsection \<open>A launch that came back\<close>

text \<open>One turn of the loop over the hits.\<close>

definition submit_hit :: "Crates \<Rightarrow> JobRun \<Rightarrow> InFlight \<Rightarrow> instant \<Rightarrow> u32 \<Rightarrow> Shared \<Rightarrow> Shared" where
  "submit_hit cr run done now nonce s =
     (if if_count done \<le> nonce - if_start done
      then print_lines [Err (''[gpu] WARNING: the kernel reported nonce '' @ hex_pad 8 (unat nonce) @
             '' outside its range - ignored'')] s
      else let header = (if_header done)\<lparr>hdr_nonce := nonce\<rparr>;
               hash = jr_verify run (serialize header)
           in if \<not> hash_meets_target hash (job_share_target (jr_job run))
              then print_lines [Err (''[gpu] WARNING: false hit from the kernel, nonce='' @ hex_pad 8 (unat nonce) @
                     '' - ignored'')] s
              else let is_block = (case jr_block_target run of Some t \<Rightarrow> hash_meets_target hash t | None \<Rightarrow> False);
                       difficulty = difficulty_of_hash hash;
                       s = record_share now (jr_algo run) difficulty (job_bits (jr_job run)) is_block s
                   in submit \<lparr>fs_job_id = job_id (jr_job run), fs_extranonce2 = if_extranonce2 done,
                        fs_ntime = job_ntime (jr_job run), fs_nonce = nonce,
                        fs_hash_display = hash_to_display (cr_hex_encode cr) hash,
                        fs_is_block_candidate = is_block\<rparr> s)"

definition count_launch :: "nat \<Rightarrow> u32 \<Rightarrow> duration option \<Rightarrow> instant \<Rightarrow> Shared \<Rightarrow> Shared" where
  "count_launch slot count busy now s =
     (let s = s\<lparr>sh_stats := (sh_stats s)\<lparr>st_hashes := st_hashes (sh_stats s) + ucast count,
                  st_gpu_hashes := st_gpu_hashes (sh_stats s) + ucast count\<rparr>\<rparr>
      in case (list_get (sh_gpu_slot_hashes s) slot, list_get (sh_gpu_slot_stamp s) slot,
               list_get (sh_gpu_slot_busy_us s) slot) of
           (Some hashes, Some stamp, Some busy_us) \<Rightarrow>
             s\<lparr>sh_gpu_slot_stamp := (sh_gpu_slot_stamp s)[slot := now_us s now],
               sh_gpu_slot_busy_us :=
                 (case busy of Some b \<Rightarrow> (sh_gpu_slot_busy_us s)[slot := busy_us + word_of_nat (as_micros b)]
                             | None \<Rightarrow> sh_gpu_slot_busy_us s),
               sh_gpu_slot_hashes := (sh_gpu_slot_hashes s)[slot := hashes + ucast count]\<rparr>
         | _ \<Rightarrow> s)"

definition finish ::
  "('b, 'c) GpuEnv \<Rightarrow> JobRun \<Rightarrow> InFlight \<Rightarrow> Scan \<Rightarrow> ('b, 'c) Gpu \<Rightarrow> duration \<times> ('b, 'c) Gpu" where
  "finish ge run done scan g =
     (let w = g_w g; s = g_s g;
          now = ge_clock ge (g_tick g);
          since = (case gw_last_collect w of None \<Rightarrow> if_queued done | Some t \<Rightarrow> max t (if_queued done));
          elapsed = (case sc_busy scan of Some b \<Rightarrow> b | None \<Rightarrow> duration_since now since);
          w = w\<lparr>gw_last_collect := Some now, gw_collected := gw_collected w + 1\<rparr>;
          (budget, warning) = overflowed (gw_budget w) (if_count done) (sc_reported scan);
          w = w\<lparr>gw_budget := budget\<rparr>;
          s = (case warning of Some m \<Rightarrow> print_lines [Err m] s | None \<Rightarrow> s);
          hits = remdups_adj (sort (sc_hits scan));
          s = fold (submit_hit (ge_crates ge) run done now) hits s;
          s = count_launch (gw_slot w) (if_count done) (sc_busy scan) now s;
          projected = mul_f64 elapsed (f64_div (f64_of_nat (unat (gw_batch w))) (f64_of_nat (unat (max (if_count done) 1))));
          w = w\<lparr>gw_batch := autotune (gw_batch w) projected BC3_TARGET_LAUNCH (jr_granule run) (jr_min_batch run) (jr_max_batch run)\<rparr>;
          (tune, fs, out) = (if jr_algo run = Bc3Hash \<and> jr_window run \<noteq> 0
                             then Tune_launched ge (g_tick g) (jr_window run) (ucast (if_count done)) elapsed (gw_tune w, g_fs g, [])
                             else (gw_tune w, g_fs g, []))
      in (elapsed, g\<lparr>g_w := w\<lparr>gw_tune := tune\<rparr>, g_s := print_lines out s, g_fs := fs,
                     g_finished := g_finished g @ [(done, scan)]\<rparr>))"

subsection \<open>The launch loop\<close>

definition device_error ::
  "('b, 'c) GpuEnv \<Rightarrow> string \<Rightarrow> cursor \<Rightarrow> ('b, 'c) Gpu \<Rightarrow> JobRun \<Rightarrow> (JobEnd + unit) \<times> ('b, 'c) Gpu \<times> JobRun" where
  "device_error ge e restart g run =
     (let name = be_name (ge_be ge) (g_b g);
          errors = gw_errors (g_w g) + 1;
          g = g_print [Err (''[gpu] '' @ name @ '': scan error: '' @ e)] g;
          g = g\<lparr>g_b := be_abandon (ge_be ge) (g_b g),
                g_w := (g_w g)\<lparr>gw_errors := errors, gw_cursor := restart, gw_last_collect := None\<rparr>\<rparr>;
          run = run\<lparr>jr_inflight := []\<rparr>
      in if MAX_SCAN_ERRORS \<le> errors
         then (Inl DeviceGone,
               g_print [Err (''[gpu] '' @ name @ '': '' @ dec (unat errors) @
                 '' launches in a row failed - treating the device as gone'')]
                 (g\<lparr>g_w := (g_w g)\<lparr>gw_errors := 0\<rparr>\<rparr>), run)
         else (Inr (), g, run))"

text \<open>The rest of the body of \<open>top_up\<close>'s loop, after its two breaks.\<close>

definition queue_one ::
  "('b, 'c) GpuEnv \<Rightarrow> ('b, 'c) Gpu \<Rightarrow> JobRun \<Rightarrow> (JobEnd + unit) \<times> ('b, 'c) Gpu \<times> JobRun" where
  "queue_one ge g run =
     (let w = g_w g;
          mx = max (chunk_of (gw_budget w) (gw_batch w)) 1;
          restart = gw_cursor w;
          ((en2, start, count), cursor) = Cursor_take restart mx (gw_stride w);
          g = g\<lparr>g_w := w\<lparr>gw_cursor := cursor\<rparr>\<rparr>;
          h = (case jr_header run of
                 Some h \<Rightarrow> if eh_en2 h \<noteq> en2 then en2_header (ge_crates ge) (jr_job run) en2 else h
               | None \<Rightarrow> en2_header (ge_crates ge) (jr_job run) en2);
          run = run\<lparr>jr_header := Some h\<rparr>;
          launch = \<lparr>la_algo = jr_algo run, la_header76 = eh_header76 h, la_start = start, la_count = count,
                    la_target = job_share_target (jr_job run)\<rparr>
      in case be_enqueue (ge_be ge) (g_b g) launch of
           (Inr _, b) \<Rightarrow>
             (Inr (), g\<lparr>g_b := b\<rparr>,
              run\<lparr>jr_inflight := jr_inflight run @
                [\<lparr>if_en2 = en2, if_extranonce2 = eh_extranonce2 h, if_header = eh_header h, if_start = start,
                  if_count = count, if_queued = ge_clock ge (g_tick g)\<rparr>]\<rparr>)
         | (Inl e, b) \<Rightarrow>
             let restart = (case jr_inflight run of l # _ \<Rightarrow> (if_en2 l, if_start l) | [] \<Rightarrow> restart)
             in device_error ge e restart (g\<lparr>g_b := b\<rparr>) run)"

definition errors_left :: "u32 \<Rightarrow> nat" where
  "errors_left errors = (if errors = - 1 then 6 else 5 - unat errors)"

definition top_up_measure :: "('b, 'c) Gpu \<times> JobRun \<Rightarrow> nat \<times> nat" where
  "top_up_measure = (\<lambda>(g, run). (errors_left (gw_errors (g_w g)), jr_depth run - length (jr_inflight run)))"

lemma device_error_errors_left:
  assumes "device_error ge e restart g run = (Inr (), g', run')"
  shows "errors_left (gw_errors (g_w g')) < errors_left (gw_errors (g_w g)) \<and> jr_depth run' = jr_depth run"
proof -
  let ?e = "gw_errors (g_w g)"
  have ne: "\<not> MAX_SCAN_ERRORS \<le> ?e + 1" "gw_errors (g_w g') = ?e + 1" "jr_depth run' = jr_depth run"
    using assms by (auto simp: device_error_def g_print_def Let_def split: if_splits)
  have m: "unat (- 1 :: u32) = 2 ^ 32 - 1" by (simp add: unat_max_word)
  have "errors_left (?e + 1) < errors_left ?e"
  proof (cases "?e = - 1")
    case True
    then show ?thesis by (simp add: errors_left_def)
  next
    case False
    then have "unat ?e \<noteq> 2 ^ 32 - 1" using m by (metis word_unat_eq_iff)
    moreover have "unat ?e < 2 ^ 32" using unsigned_less [of ?e, where 'a = nat] by simp
    ultimately have "unat (?e + 1) = unat ?e + 1" by (simp add: unat_word_ariths)
    moreover from this ne(1) have "unat ?e + 1 < 5" by (simp add: MAX_SCAN_ERRORS_def word_le_nat_alt)
    moreover have "unat (?e + 1) \<noteq> unat (- 1 :: u32)" unfolding m using calculation by simp
    then have "?e + 1 \<noteq> - 1" by metis
    ultimately show ?thesis using False by (simp add: errors_left_def)
  qed
  with ne show ?thesis by simp
qed

lemma queue_one_measure:
  assumes "queue_one ge g run = (Inr (), g', run')" and "length (jr_inflight run) < jr_depth run"
  shows "(top_up_measure (g', run'), top_up_measure (g, run)) \<in> less_than <*lex*> less_than"
proof (cases "snd (snd (queue_one ge g run)) = run' \<and> length (jr_inflight run') = Suc (length (jr_inflight run))")
  case True
  then have "gw_errors (g_w g') = gw_errors (g_w g) \<and> jr_depth run' = jr_depth run"
    using assms(1) by (auto simp: queue_one_def device_error_def Let_def split_def split: prod.splits sum.splits if_splits)
  then show ?thesis using True assms(2) by (simp add: top_up_measure_def)
next
  case False
  then obtain e restart g1 run1 where d: "device_error ge e restart g1 run1 = (Inr (), g', run')"
    "gw_errors (g_w g1) = gw_errors (g_w g)" "jr_depth run1 = jr_depth run"
    using assms(1) by (auto simp: queue_one_def Let_def split_def split: prod.splits sum.splits)
  from device_error_errors_left [OF d(1)] d(2,3) show ?thesis by (simp add: top_up_measure_def)
qed

function top_up ::
  "('b, 'c) GpuEnv \<Rightarrow> ('b, 'c) Gpu \<Rightarrow> JobRun \<Rightarrow> (JobEnd + unit) \<times> ('b, 'c) Gpu \<times> JobRun" where
  "top_up ge g run =
     (if jr_ending run = None \<and> length (jr_inflight run) < jr_depth run
      then let g = step ge g
           in if sh_generation (g_s g) \<noteq> jr_generation run \<or> tu_switch_to (gw_tune (g_w g)) \<noteq> None
              then (Inr (), g, run\<lparr>jr_ending := Some Changed\<rparr>)
              else if \<not> en2_fits (fst (gw_cursor (g_w g))) (job_extranonce2_size (jr_job run))
              then (Inr (), g, run\<lparr>jr_ending := Some Exhausted\<rparr>)
              else (case queue_one ge g run of
                      (Inl gone, g, run) \<Rightarrow> (Inl gone, g, run)
                    | (Inr _, g, run) \<Rightarrow> top_up ge g run)
      else (Inr (), g, run))"
  by pat_completeness auto

termination
proof (relation "inv_image (less_than <*lex*> less_than) (\<lambda>(ge, g, run). top_up_measure (g, run))", goal_cases)
  case (2 ge g run g1 x y u g2 run2)
  then have "queue_one ge g1 run = (Inr (), g2, run2)" by simp
  from queue_one_measure [OF this] 2 show ?case by (simp add: step_def top_up_measure_def)
qed (intro wf_inv_image wf_lex_prod wf_less_than)

declare top_up.simps [simp del]

text \<open>The line that says the card really hashes, once.\<close>

definition report_hashing :: "('b, 'c) GpuEnv \<Rightarrow> InFlight \<Rightarrow> duration \<Rightarrow> ('b, 'c) Gpu \<Rightarrow> ('b, 'c) Gpu" where
  "report_hashing ge done elapsed g =
     (if \<not> gw_said_hashing (g_w g)
      then g_print (note_line (env_json (ge_env ge))
             (''[gpu] '' @ be_name (ge_be ge) (g_b g) @ '': hashing - its first launch, '' @
              dec (unat (if_count done)) @ '' nonces, took '' @
              fmt_fixed 0 (f64_mul (as_secs_f64 elapsed) (F_Fin 1000)) @ '' ms''))
             (g\<lparr>g_w := (g_w g)\<lparr>gw_said_hashing := True\<rparr>\<rparr>)
      else g)"

text \<open>
  The launch loop of a job: \<open>fuel\<close> bounds its turns. \<open>throttle\<close> at the end of a turn only sleeps.
\<close>

fun pump :: "('b, 'c) GpuEnv \<Rightarrow> nat \<Rightarrow> ('b, 'c) Gpu \<Rightarrow> JobRun \<Rightarrow> (JobEnd \<times> ('b, 'c) Gpu \<times> JobRun) option" where
  "pump ge 0 g run = None"
| "pump ge (Suc fuel) g run =
     (case top_up ge g run of
        (Inl gone, g, run) \<Rightarrow> Some (gone, g, run)
      | (Inr _, g, run) \<Rightarrow>
          (case jr_inflight run of
             [] \<Rightarrow> Some (case jr_ending run of Some e \<Rightarrow> e | None \<Rightarrow> Changed, g, run)
           | done # rest \<Rightarrow>
               let run = run\<lparr>jr_inflight := rest\<rparr>;
                   (collected, b) = be_collect (ge_be ge) (g_b g);
                   g = step ge (g\<lparr>g_b := b\<rparr>)
               in (case collected of
                    Inl e \<Rightarrow>
                      (case device_error ge e (if_en2 done, if_start done) g run of
                         (Inl gone, g, run) \<Rightarrow> Some (gone, g, run)
                       | (Inr _, g, run) \<Rightarrow> pump ge fuel g run)
                  | Inr scan \<Rightarrow>
                      let g = g\<lparr>g_w := (g_w g)\<lparr>gw_errors := 0\<rparr>\<rparr>
                      in (case (if 1 < jr_depth run then top_up ge g run else (Inr (), g, run)) of
                           (Inl gone, g, run) \<Rightarrow> Some (gone, g, run)
                         | (Inr _, g, run) \<Rightarrow>
                             let (elapsed, g) = finish ge run done scan g
                             in pump ge fuel (report_hashing ge done elapsed g) run))))"

text \<open>The worker and the run \<open>mine_job\<close> starts the launch loop with.\<close>

definition job_granule :: "('b, 'c) GpuEnv \<Rightarrow> PowAlgo \<Rightarrow> ('b, 'c) Gpu \<Rightarrow> u32" where
  "job_granule ge algo g = max (be_launch_granule (ge_be ge) (g_b g) algo) 1"

definition min_batch_of :: "u32 \<Rightarrow> u32" where
  "min_batch_of granule = (max BC3_MIN_BATCH granule div granule) * granule"

definition max_batch_of :: "u32 \<Rightarrow> u32" where
  "max_batch_of granule = max BC3_MAX_BATCH (min_batch_of granule)"

definition job_worker :: "('b, 'c) GpuEnv \<Rightarrow> MinerJob \<Rightarrow> PowAlgo \<Rightarrow> ('b, 'c) Gpu \<Rightarrow> GpuWorker" where
  "job_worker ge job algo g =
     (let w = g_w g;
          w = (if (case gw_prev w of None \<Rightarrow> True | Some p \<Rightarrow> \<not> same_search_space p job)
               then w\<lparr>gw_cursor := (word_of_nat (gw_worker_index w), 0)\<rparr> else w);
          granule = job_granule ge algo g
      in w\<lparr>gw_batch := max (clamp (min_batch_of granule) (max_batch_of granule) (gw_batch w) div granule) 1 * granule\<rparr>)"

definition job_run :: "('b, 'c) GpuEnv \<Rightarrow> MinerJob \<Rightarrow> u64 \<Rightarrow> PowAlgo \<Rightarrow> PowFn \<Rightarrow> ('b, 'c) Gpu \<Rightarrow> JobRun" where
  "job_run ge job generation algo verify g =
     (let granule = job_granule ge algo g
      in \<lparr>jr_job = job, jr_generation = generation, jr_algo = algo, jr_verify = verify,
          jr_block_target = compact_to_target (job_bits job), jr_depth = gpu_queue (g_s g),
          jr_granule = granule, jr_min_batch = min_batch_of granule, jr_max_batch = max_batch_of granule,
          jr_inflight = [], jr_ending = None, jr_header = None,
          jr_window = (case be_bc3hash_window (ge_be ge) (g_b g) of Some x \<Rightarrow> x | None \<Rightarrow> 0)\<rparr>)"

definition gpu_mine_job ::
  "('b, 'c) GpuEnv \<Rightarrow> nat \<Rightarrow> MinerJob \<Rightarrow> u64 \<Rightarrow> PowAlgo \<Rightarrow> PowFn \<Rightarrow> ('b, 'c) Gpu \<Rightarrow> (JobEnd \<times> ('b, 'c) Gpu) option"
where
  "gpu_mine_job ge fuel job generation algo verify g =
     (case pump ge fuel (g\<lparr>g_w := job_worker ge job algo g\<rparr>) (job_run ge job generation algo verify g) of
        None \<Rightarrow> None
      | Some (ended, g, run) \<Rightarrow> Some (ended, g\<lparr>g_w := (g_w g)\<lparr>gw_prev := Some job\<rparr>\<rparr>))"

subsection \<open>Kernels and windows\<close>

text \<open>The backend between dropping a failed one and opening its replacement.\<close>

definition Closed :: "unit MiningBackend" where
  "Closed = \<lparr>be_name = \<lambda>_. ''closed'', be_has_kernel = \<lambda>_ _. False, be_supports = \<lambda>_ _. False,
     be_prepare_bc3hash = \<lambda>b _. (Inl ''this backend has no BC3Hash kernel'', b), be_bc3hash_window = \<lambda>_. None,
     be_memory = \<lambda>_. None, be_compile_ahead = \<lambda>_ _. False, be_compiles_at_load = \<lambda>_. False,
     be_launch_granule = \<lambda>_ _. 1, be_enqueue = \<lambda>b _. (Inl ''the device is closed'', b),
     be_collect = \<lambda>b. (Inl ''the device is closed'', b), be_in_flight = \<lambda>_. 0, be_abandon = \<lambda>b. b\<rparr>"

definition set_slot_bc3 :: "nat \<Rightarrow> u32 \<Rightarrow> Shared \<Rightarrow> Shared" where
  "set_slot_bc3 slot x s = s\<lparr>sh_gpu_slot_bc3 := (sh_gpu_slot_bc3 s)[slot := x]\<rparr>"

definition switch_bc3 :: "('b, 'c) GpuEnv \<Rightarrow> nat \<Rightarrow> u32 \<Rightarrow> 'b \<Rightarrow> Shared \<Rightarrow> bool \<times> 'b \<times> Shared" where
  "switch_bc3 ge slot window b s =
     (let be = ge_be ge
      in if be_bc3hash_window be b = Some window then (True, b, s)
         else let s = set_slot_bc3 slot 0 s
              in case be_prepare_bc3hash be b window of
                   (Inr took, b) \<Rightarrow>
                     (True, b, print_lines (human (env_json (ge_env ge)) (''[gpu] '' @ be_name be b @ '': BC3Hash window '' @
                        dec (unat window) @ '' ready, self-test passed ('' @ fmt_fixed 1 (as_secs_f64 took) @ '' s)''))
                        (set_slot_bc3 slot window s))
                 | (Inl e, b) \<Rightarrow>
                     (False, b, print_lines [Err (''[gpu] '' @ be_name be b @ '': switching to BC3Hash window '' @
                        dec (unat window) @ '' failed: '' @ e)] s))"

record GpuMain =
  gm_caps :: GpuCapability
  gm_bc3_failed :: "u32 option"
  gm_reopens :: u32
  gm_gate :: AlgoGate
  gm_sat_out :: "u64 option"

definition prepare_bc3 ::
  "('b, 'c) GpuEnv \<Rightarrow> instant \<Rightarrow> nat \<Rightarrow> u32 \<Rightarrow> GpuMain \<Rightarrow> 'b \<Rightarrow> Shared \<Rightarrow> GpuMain \<times> 'b \<times> Shared" where
  "prepare_bc3 ge now slot want m b s =
     (let be = ge_be ge; env = ge_env ge; js = env_json env
      in if be_bc3hash_window be b = Some want then (m, b, set_slot_bc3 slot want s)
         else if gm_bc3_failed m = Some want then (m, b, set_slot_bc3 slot BC3_SLOT_FAILED s)
         else let s = set_slot_bc3 slot 0 s;
                  (r, b, s) =
                    (case cpu_unavailable env Bc3Hash True of
                       Some why \<Rightarrow> (Inl (''no CPU reference to check it against: '' @ why), b, s)
                     | None \<Rightarrow>
                         let s = print_lines (note_line js (''[gpu] '' @ be_name be b @ '': loading the BC3Hash kernel, window '' @
                                   dec (unat want) @
                                   (if be_compiles_at_load be b
                                    then '' - the driver compiles it now, which can take a minute or more'' else ''''))) s;
                             (r, b) = be_prepare_bc3hash be b want
                         in (r, b, s))
              in case r of
                   Inr took \<Rightarrow>
                     let m = m\<lparr>gm_bc3_failed := None\<rparr>;
                         s = set_slot_bc3 slot want s;
                         s = print_lines (note_line js (''[gpu] '' @ be_name be b @ '': BC3Hash kernel ready - window '' @
                               dec (unat want) @ '', self-test passed ('' @ fmt_fixed 1 (as_secs_f64 took) @ '' s)'')) s;
                         (caps, s) = set_capability env now Bc3Hash True (gm_caps m) s
                     in (m\<lparr>gm_caps := caps\<rparr>, b, s)
                 | Inl e \<Rightarrow>
                     let m = m\<lparr>gm_bc3_failed := Some want\<rparr>;
                         s = set_slot_bc3 slot BC3_SLOT_FAILED s;
                         message = be_name be b @ '': BC3Hash with window '' @ dec (unat want) @
                           '' is NOT usable on this GPU - '' @ e @ ''. It mines no '' @
                           ''BC3Hash there; in --backend auto the CPU does instead. Report it.'';
                         s = print_lines (Err (''[gpu] '' @ message) # emit js (Status StatusError message)) s;
                         (caps, s) = set_capability env now Bc3Hash False (gm_caps m) s
                     in (m\<lparr>gm_caps := caps\<rparr>, b, s))"

subsection \<open>The worker's main loop\<close>

text \<open>The closure \<open>claim\<close>.\<close>

definition claim_kernels :: "('b, 'c) GpuEnv \<Rightarrow> instant \<Rightarrow> 'b \<Rightarrow> GpuCapability \<Rightarrow> Shared \<Rightarrow> GpuCapability \<times> Shared" where
  "claim_kernels ge now b c s =
     fold (\<lambda>algo (c, s). set_capability (ge_env ge) now algo
             (be_has_kernel (ge_be ge) b algo \<and> cpu_may_support (ge_env ge) algo) c s) PowAlgo_ALL (c, s)"

text \<open>The loop over \<open>switch_to\<close>, with the fallbacks of the tuner left as what bounds it.\<close>

definition switches_left :: "Tune \<Rightarrow> nat" where
  "switches_left t =
     (case tu_switch_to t of
        None \<Rightarrow> 0
      | Some _ \<Rightarrow> 1 + (case tu_tuner t of Some tn \<Rightarrow> length (tn_fallback tn) | None \<Rightarrow> 0))"

lemma fst_Tune_act:
  "fst (Tune_act ge a (t, fs, out)) =
     (case a of Switch w \<Rightarrow> t\<lparr>tu_want := w, tu_switch_to := Some w\<rparr>
      | Done _ _ \<Rightarrow> t\<lparr>tu_tuner := None, tu_preparing := False, tu_jit := False\<rparr> | _ \<Rightarrow> t)"
  by (cases a) (simp_all add: Tune_act_def Let_def split_def del: append.simps)

lemma Tune_act_switches:
  "switches_left (fst (Tune_act ge a (t, fs, out))) =
     (case a of Switch w \<Rightarrow> 1 + (case tu_tuner t of Some tn \<Rightarrow> length (tn_fallback tn) | None \<Rightarrow> 0)
      | Done _ _ \<Rightarrow> (if tu_switch_to t = None then 0 else 1) | _ \<Rightarrow> switches_left t)"
  unfolding fst_Tune_act by (cases a) (simp_all add: switches_left_def split: option.splits)

lemma Tune_switched_decreases:
  assumes "tu_switch_to t = Some w"
  shows "switches_left (fst (Tune_switched ge w ok (t\<lparr>tu_switch_to := None\<rparr>, fs, out))) < switches_left t"
proof (cases "tu_tuner t")
  case None
  then show ?thesis using assms by (simp add: Tune_switched_def switches_left_def)
next
  case (Some tn)
  obtain tn' a where r: "Tuner_switched tn w ok = (tn', a)" by fastforce
  have "a = Switch v \<Longrightarrow> length (tn_fallback tn') < length (tn_fallback tn)" for v
    using r by (auto simp: Tuner_switched_def switch_failed_def Let_def split: if_splits Phase.splits list.splits)
  moreover have "switches_left t = Suc (length (tn_fallback tn))" using assms Some by (simp add: switches_left_def)
  moreover have "switches_left t1 = 0" if "tu_switch_to t1 = None" for t1 using that by (simp add: switches_left_def)
  ultimately show ?thesis using Some r
    by (cases a) (simp_all add: Tune_switched_def Tune_act_switches Let_def)
qed

function switch_windows ::
  "('b, 'c) GpuEnv \<Rightarrow> nat \<Rightarrow> Tune \<Rightarrow> (path \<Rightarrow> 'c option) \<Rightarrow> 'b \<Rightarrow> Shared \<Rightarrow> Tune \<times> (path \<Rightarrow> 'c option) \<times> 'b \<times> Shared" where
  "switch_windows ge slot t fs b s =
     (case tu_switch_to t of
        None \<Rightarrow> (t, fs, b, s)
      | Some window \<Rightarrow>
          let (ok, b, s) = switch_bc3 ge slot window b s;
              (t', fs', out) = Tune_switched ge window ok (t\<lparr>tu_switch_to := None\<rparr>, fs, [])
          in switch_windows ge slot t' fs' b (print_lines out s))"
  by pat_completeness auto

termination
proof (relation "measure (\<lambda>(ge, slot, t, fs, b, s). switches_left t)", goal_cases)
  case (2 ge slot t fs b s w r1 ok r2 b1 s1 r3 t' r4 fs' out)
  then have "t' = fst (Tune_switched ge w ok (t\<lparr>tu_switch_to := None\<rparr>, fs, []))" by (metis fst_conv)
  with Tune_switched_decreases [OF 2(1)] show ?case by simp
qed simp

declare switch_windows.simps [simp del]

text \<open>Returning from \<open>run_gpu_worker\<close>: the claims go, then the worker itself.\<close>

definition leave_worker :: "('b, 'c) GpuEnv \<Rightarrow> instant \<Rightarrow> GpuMain \<Rightarrow> ('b, 'c) Gpu \<Rightarrow> ('b, 'c) Gpu" where
  "leave_worker ge now m g =
     g\<lparr>g_s := GpuWorkerAlive_drop (snd (GpuCapability_drop (ge_env ge) now (gm_caps m) (g_s g)))\<rparr>"

datatype 'a turn = Goes_on 'a | Stops 'a

text \<open>\<open>open\<close> is what \<open>open_backend_with_fallback\<close> returns at this step, and what it prints.\<close>

definition reopen_device ::
  "('b, 'c) GpuEnv \<Rightarrow> GpuDevice \<Rightarrow> (nat \<Rightarrow> (string + 'b) \<times> out_line list) \<Rightarrow> ('b, 'c) Gpu \<times> GpuMain \<Rightarrow>
   (('b, 'c) Gpu \<times> GpuMain) turn" where
  "reopen_device ge dev open_at = (\<lambda>(g, m).
     let env = ge_env ge;
         now = ge_clock ge (g_tick g);
         reopens = gm_reopens m + 1;
         m = m\<lparr>gm_reopens := reopens\<rparr>
     in if MAX_REOPENS < reopens
        then Stops (leave_worker ge now m
               (g_print [Err (''[gpu] '' @ describe dev @ '' has failed '' @ dec (unat reopens) @
                  '' times after reopening - giving up on it. '' @ ''The card or its driver needs attention.'')] g), m)
        else let g = g_print [Err (''[gpu] '' @ describe dev @ '' stopped answering - reopening in '' @
                       dec (as_secs REOPEN_DELAY) @ '' s ('' @ dec (unat reopens) @ ''/'' @ dec (unat MAX_REOPENS) @ '')'')] g;
                 (caps, s) = set_capability env now Bc3Hash False (gm_caps m) (g_s g);
                 m = m\<lparr>gm_caps := caps\<rparr>;
                 g = step ge (g\<lparr>g_s := s\<rparr>);
                 (opened, out) = open_at (g_tick g);
                 g = g_print out g
             in (case opened of
                   Inr b \<Rightarrow>
                     let g = g_print (human (env_json env) (''[gpu] reopened: '' @ be_name (ge_be ge) b)) (g\<lparr>g_b := b\<rparr>);
                         m = m\<lparr>gm_bc3_failed := None\<rparr>;
                         s = set_slot_bc3 (gw_slot (g_w g)) 0 (g_s g);
                         (caps, s) = claim_kernels ge (ge_clock ge (g_tick g)) b (gm_caps m) s
                     in Goes_on (g\<lparr>g_s := s, g_w := reopened (g_w g)\<rparr>, m\<lparr>gm_caps := caps\<rparr>)
                 | Inl e \<Rightarrow>
                     Stops (leave_worker ge (ge_clock ge (g_tick g)) m
                       (g_print [Err (''[gpu] '' @ describe dev @ '' could not be reopened: '' @ e @ '' - this worker stops'')] g), m)))"

text \<open>Getting the kernel ready for a BC3Hash job.\<close>

definition ready_kernel :: "('b, 'c) GpuEnv \<Rightarrow> MinerJob \<Rightarrow> ('b, 'c) Gpu \<times> GpuMain \<Rightarrow> ('b, 'c) Gpu \<times> GpuMain" where
  "ready_kernel ge job = (\<lambda>(g, m).
     if job_algo job = Bc3Hash \<and> be_has_kernel (ge_be ge) (g_b g) Bc3Hash
     then let slot = gw_slot (g_w g);
              (t, fs, b, s) = switch_windows ge slot (gw_tune (g_w g)) (g_fs g) (g_b g) (g_s g);
              (m, b, s) = prepare_bc3 ge (ge_clock ge (g_tick g)) slot (Tune_want t s) m b s;
              (t, fs, out) = Tune_begin ge s b (t, fs, [])
          in (g\<lparr>g_w := (g_w g)\<lparr>gw_tune := t\<rparr>, g_b := b, g_s := print_lines out s, g_fs := fs\<rparr>, m)
     else (g, m))"

text \<open>
  How a turn of the loop of \<open>run_gpu_worker\<close> went up to the end of \<open>mine_job\<close>: the job was sat out, or \<open>mine_job\<close> ended, with
  whether launches came back in it. None while the wait it starts with has nothing to return, or when the launch loop
  exceeds \<open>fuel\<close>.
\<close>

datatype turn_end = Sat_out u64 | Mined u64 MinerJob JobEnd bool

definition mine_turn ::
  "('b, 'c) GpuEnv \<Rightarrow> nat \<Rightarrow> ('b, 'c) Gpu \<times> GpuMain \<Rightarrow> (turn_end \<times> ('b, 'c) Gpu \<times> GpuMain) option" where
  "mine_turn ge fuel = (\<lambda>(g, m).
     case wait_poll (gm_sat_out m) (g_s g) of
       None \<Rightarrow> None
     | Some (generation, job) \<Rightarrow>
         let (g, m) = ready_kernel ge job (g, m\<lparr>gm_sat_out := None\<rparr>);
             be = ge_be ge;
             bc3 = env_bc3 (ge_env ge);
             (gate, algo, out) = gate_check (gm_gate m) (job_algo job) (Some (be_name be (g_b g)))
                                   (\<lambda>a. be_supports be (g_b g) a \<and> hash_fn bc3 a \<noteq> None);
             m = m\<lparr>gm_gate := gate\<rparr>;
             g = g_print out g
         in (case Option.bind algo (\<lambda>a. map_option (Pair a) (hash_fn bc3 a)) of
               None \<Rightarrow> Some (Sat_out generation, g, m)
             | Some (algo, verify) \<Rightarrow>
                 (case gpu_mine_job ge fuel job generation algo verify g of
                    None \<Rightarrow> None
                  | Some (ended, g) \<Rightarrow>
                      Some (Mined generation job ended (0 < gw_collected (g_w g)),
                            g\<lparr>g_w := (g_w g)\<lparr>gw_collected := 0\<rparr>\<rparr>, m))))"

text \<open>The rest of the turn: the reopen budget, and what follows from how the job ended.\<close>

definition run_gpu_turn ::
  "('b, 'c) GpuEnv \<Rightarrow> GpuDevice \<Rightarrow> (nat \<Rightarrow> (string + 'b) \<times> out_line list) \<Rightarrow> nat \<Rightarrow> ('b, 'c) Gpu \<times> GpuMain \<Rightarrow>
   (turn_end \<times> (('b, 'c) Gpu \<times> GpuMain) turn) option" where
  "run_gpu_turn ge dev open_at fuel st =
     map_option (\<lambda>(e, g, m). (e,
       case e of
         Sat_out generation \<Rightarrow> Goes_on (g, m\<lparr>gm_sat_out := Some generation\<rparr>)
       | Mined generation job ended came_back \<Rightarrow>
           let m = (if came_back then m\<lparr>gm_reopens := 0\<rparr> else m)
           in (case ended of
                 Changed \<Rightarrow> Goes_on (g, m)
               | Exhausted \<Rightarrow>
                   Goes_on (g_print [Err (''[gpu] '' @ be_name (ge_be ge) (g_b g) @ '': searched all '' @
                     dec (job_extranonce2_size job) @ ''-byte extranonce2 values of this job - idle '' @
                     ''until the next one'')] g, m\<lparr>gm_sat_out := Some generation\<rparr>)
               | DeviceGone \<Rightarrow> reopen_device ge dev open_at (g, m)))) (mine_turn ge fuel st)"

text \<open>
  The loop, for as many turns as \<open>others\<close> has entries, each of which is what the other threads make of the shared state before
  that turn: how the turns went, and where the worker is. It may be waiting for a job before all of them are done.
\<close>

fun run_gpu_turns ::
  "('b, 'c) GpuEnv \<Rightarrow> GpuDevice \<Rightarrow> (nat \<Rightarrow> (string + 'b) \<times> out_line list) \<Rightarrow> nat \<Rightarrow> (Shared \<Rightarrow> Shared) list \<Rightarrow>
   ('b, 'c) Gpu \<times> GpuMain \<Rightarrow> turn_end list \<times> (('b, 'c) Gpu \<times> GpuMain) turn" where
  "run_gpu_turns ge dev open_at fuel [] st = ([], Goes_on st)"
| "run_gpu_turns ge dev open_at fuel (other # others) (g, m) =
     (case run_gpu_turn ge dev open_at fuel (g\<lparr>g_s := other (g_s g)\<rparr>, m) of
        None \<Rightarrow> ([], Goes_on (g\<lparr>g_s := other (g_s g)\<rparr>, m))
      | Some (e, Stops st) \<Rightarrow> ([e], Stops st)
      | Some (e, Goes_on st) \<Rightarrow> (case run_gpu_turns ge dev open_at fuel others st of (es, r) \<Rightarrow> (e # es, r)))"

text \<open>What \<open>run_gpu_worker\<close> does before its loop.\<close>

definition run_gpu_start ::
  "('b, 'c) GpuEnv \<Rightarrow> GpuDevice \<Rightarrow> (nat \<Rightarrow> (string + 'b) \<times> out_line list) \<Rightarrow> nat \<Rightarrow> nat \<Rightarrow> nat \<Rightarrow>
   (path \<Rightarrow> 'c option) \<Rightarrow> Shared \<Rightarrow> Shared + ('b, 'c) Gpu \<times> GpuMain" where
  "run_gpu_start ge dev open_at slot worker_index total_workers fs s =
     (let env = ge_env ge;
          (opened, out) = open_at 0;
          s = print_lines out s
      in (case opened of
            Inl e \<Rightarrow>
              Inl (GpuWorkerAlive_drop (gpu_opened env
                (print_lines [Err (''[gpu] could not open '' @ describe dev @ '': '' @ e)] s)))
          | Inr b \<Rightarrow>
              let s = print_lines (note_line (env_json env) (''[gpu] started: '' @ be_name (ge_be ge) b)) s;
                  (caps, s) = claim_kernels ge (ge_clock ge 0) b (GpuCapability_new slot) s;
                  s = gpu_opened env s
              in Inr (\<lparr>g_w = GpuWorker_new s slot worker_index total_workers, g_b = b, g_s = s, g_fs = fs,
                       g_tick = 1, g_finished = []\<rparr>,
                      \<lparr>gm_caps = caps, gm_bc3_failed = None, gm_reopens = 0, gm_gate = None, gm_sat_out = None\<rparr>)))"

section \<open>Lemmas\<close>

subsection \<open>The cursor\<close>

lemma Cursor_take_count:
  assumes "Cursor_take (e, n) mx stride = ((e', n', c), cur)"
  shows "e' = e" and "n' = n" and "unat c = min (max (unat mx) 1) (2 ^ 32 - unat n)"
    and "cur = (if unat n + unat c = 2 ^ 32 then (sat_add e stride, 0) else (e, n + c))"
proof -
  let ?left = "push_bit 32 1 - (ucast n :: u64)"
  have n: "unat n < 2 ^ 32" using unsigned_less [of n, where 'a = nat] by simp
  have uu: "unat (ucast x :: u64) = unat x" for x :: u32
    using unsigned_less [of x, where 'a = nat] by (simp add: unsigned_ucast_eq take_bit_nat_eq_self)
  then have "unat ?left = 2 ^ 32 - unat n" using n by (subst unat_sub) (simp_all add: word_le_nat_alt uu)
  moreover have "unat (ucast (max mx 1) :: u64) = max (unat mx) 1" by (simp add: uu unat_max)
  ultimately have mn: "unat (min (ucast (max mx 1)) ?left) = min (max (unat mx) 1) (2 ^ 32 - unat n)"
    by (simp add: unat_min)
  moreover have "max (unat mx) 1 < 2 ^ 32" using unsigned_less [of mx, where 'a = nat] by simp
  ultimately have c: "unat (ucast (min (ucast (max mx 1)) ?left) :: u32) = min (max (unat mx) 1) (2 ^ 32 - unat n)"
    unfolding unsigned_ucast_eq by (simp add: take_bit_nat_eq_self)
  show "e' = e" "n' = n" and cc: "unat c = min (max (unat mx) 1) (2 ^ 32 - unat n)"
    using assms c by (auto simp: Cursor_take_def Let_def split_def)
  have "2 ^ 32 \<le> unat n + unat c \<longleftrightarrow> unat n + unat c = 2 ^ 32" using n cc by auto
  then show "cur = (if unat n + unat c = 2 ^ 32 then (sat_add e stride, 0) else (e, n + c))"
    using assms by (auto simp: Cursor_take_def Let_def split_def overflowing_add_def)
qed

lemma Cursor_take_fits:
  assumes "Cursor_take (e, n) mx stride = ((e', n', c), cur)"
  shows "c \<noteq> 0" and "unat n' + unat c \<le> 2 ^ 32"
proof -
  have "unat n < 2 ^ 32" using unsigned_less [of n, where 'a = nat] by simp
  then have "0 < unat c" "unat n' + unat c \<le> 2 ^ 32" using Cursor_take_count [OF assms] by auto
  then show "c \<noteq> 0" "unat n' + unat c \<le> 2 ^ 32" by auto
qed

text \<open>An extranonce2 that fits in less than 8 bytes leaves the counter room to move on.\<close>

definition job_room :: "MinerJob \<Rightarrow> nat \<Rightarrow> bool" where
  "job_room job N \<longleftrightarrow> job_extranonce2_size job < 8 \<and> 0 < N \<and> N < 2 ^ 63"

lemma job_room_step:
  assumes "job_room job N" and "en2_fits e (job_extranonce2_size job)"
  shows "unat e + N < 2 ^ 64" and "sat_add e (word_of_nat N) = e + word_of_nat N"
proof -
  have "en2_headroom job N (Suc 0) e" using assms(1) by (simp add: en2_headroom_def job_room_def)
  from en2_headroom_step(1,3) [OF this assms(2)]
  show "unat e + N < 2 ^ 64" "sat_add e (word_of_nat N) = e + word_of_nat N" by simp_all
qed

lemma Cursor_take_chunk:
  assumes "Cursor_take (e, n) mx (word_of_nat N) = ((e', n', c), cur)"
    and "job_room job N" and "en2_fits e (job_extranonce2_size job)"
  shows "chunk_ok N (e, n, unat c) \<and> cur = cursor_after N e n (unat c) \<and> e' = e \<and> n' = n"
proof -
  have n: "unat n < 2 ^ 32" using unsigned_less [of n, where 'a = nat] by simp
  note c = Cursor_take_count [OF assms(1)] and r = job_room_step [OF assms(2,3)]
  have "unat n + unat c \<le> 2 ^ 32" "0 < unat c" using n c(3) by auto
  with c(1,2,4) r show ?thesis by (auto simp: chunk_ok_def cursor_after_def)
qed

subsection \<open>Launches of a job\<close>

definition chunk_in_flight :: "InFlight \<Rightarrow> chunk" where
  "chunk_in_flight l = (if_en2 l, if_start l, unat (if_count l))"

definition launch_ok :: "Crates \<Rightarrow> MinerJob \<Rightarrow> InFlight \<Rightarrow> bool" where
  "launch_ok cr job l \<longleftrightarrow>
     en2_fits (if_en2 l) (job_extranonce2_size job) \<and>
     if_extranonce2 l = eh_extranonce2 (en2_header cr job (if_en2 l)) \<and>
     if_header l = eh_header (en2_header cr job (if_en2 l)) \<and> if_count l \<noteq> 0"

text \<open>
  The invariant of the launch loop: each of the launches \<open>pre\<close> and of those in flight has the header of its
  extranonce2 and nonces that fit, and where the counter has room they tile the worker's space from \<open>c0\<close> to the cursor.
\<close>

definition run_ok :: "Crates \<Rightarrow> nat \<Rightarrow> cursor \<Rightarrow> InFlight list \<Rightarrow> ('b, 'c) Gpu \<Rightarrow> JobRun \<Rightarrow> bool" where
  "run_ok cr N c0 pre g run \<longleftrightarrow>
     (job_room (jr_job run) N \<and> gw_stride (g_w g) = word_of_nat N \<longrightarrow>
       tiles N c0 (map chunk_in_flight (pre @ jr_inflight run)) (gw_cursor (g_w g))) \<and>
     (\<forall>l\<in>set (pre @ jr_inflight run). launch_ok cr (jr_job run) l \<and> unat (if_start l) + unat (if_count l) \<le> 2 ^ 32) \<and>
     (\<forall>h. jr_header run = Some h \<longrightarrow> h = en2_header cr (jr_job run) (eh_en2 h))"

lemma eh_en2_en2_header [simp]: "eh_en2 (en2_header cr job e) = e"
  by (simp add: en2_header_def Let_def)

lemma run_ok_cong:
  assumes "run_ok cr N c0 pre g run"
    and "gw_stride (g_w g') = gw_stride (g_w g)" and "gw_cursor (g_w g') = gw_cursor (g_w g)"
    and "jr_job run' = jr_job run" and "jr_inflight run' = jr_inflight run" and "jr_header run' = jr_header run"
  shows "run_ok cr N c0 pre g' run'"
  using assms by (simp add: run_ok_def)

text \<open>Given up from the oldest launch in flight on, or from the cursor.\<close>

definition restart_of :: "('b, 'c) Gpu \<Rightarrow> JobRun \<Rightarrow> cursor" where
  "restart_of g run = (case jr_inflight run of l # _ \<Rightarrow> (if_en2 l, if_start l) | [] \<Rightarrow> gw_cursor (g_w g))"

lemma run_ok_restart:
  assumes "run_ok cr N c0 pre g run" and "gw_stride (g_w g') = gw_stride (g_w g)"
    and "gw_cursor (g_w g') = restart_of g run"
    and "jr_job run' = jr_job run" and "jr_inflight run' = []" and "jr_header run' = jr_header run"
  shows "run_ok cr N c0 pre g' run'"
proof -
  have "tiles N c0 (map chunk_in_flight pre) (restart_of g run)" if room: "job_room (jr_job run) N" "gw_stride (g_w g) = word_of_nat N"
  proof -
    obtain m where "tiles N c0 (map chunk_in_flight pre) m" "tiles N m (map chunk_in_flight (jr_inflight run)) (gw_cursor (g_w g))"
      using assms(1) room by (auto simp: run_ok_def tiles_append)
    then show ?thesis by (cases "jr_inflight run") (auto simp: restart_of_def chunk_in_flight_def)
  qed
  with assms show ?thesis by (simp add: run_ok_def)
qed

lemma device_error_fields:
  assumes "device_error ge e restart g run = (r, g', run')"
  shows "gw_cursor (g_w g') = restart" and "gw_stride (g_w g') = gw_stride (g_w g)"
    and "run' = run\<lparr>jr_inflight := []\<rparr>" and "g_finished g' = g_finished g"
    and "r = Inl DeviceGone \<or> r = Inr ()" and "gw_tune (g_w g') = gw_tune (g_w g)"
  using assms by (auto simp: device_error_def g_print_def Let_def split: if_splits)

text \<open>\<open>queue_one\<close> either queues the next launch or gives up what is in flight.\<close>

lemma queue_one_cases:
  assumes "queue_one ge g run = (r, g', run')"
  obtains (queued) en2 n c cur h b where
    "Cursor_take (gw_cursor (g_w g)) (max (chunk_of (gw_budget (g_w g)) (gw_batch (g_w g))) 1) (gw_stride (g_w g)) = ((en2, n, c), cur)"
    "h = (case jr_header run of Some h \<Rightarrow> if eh_en2 h \<noteq> en2 then en2_header (ge_crates ge) (jr_job run) en2 else h
          | None \<Rightarrow> en2_header (ge_crates ge) (jr_job run) en2)"
    "be_enqueue (ge_be ge) (g_b g) \<lparr>la_algo = jr_algo run, la_header76 = eh_header76 h, la_start = n, la_count = c,
       la_target = job_share_target (jr_job run)\<rparr> = (Inr (), b)"
    "r = Inr ()" "g' = g\<lparr>g_w := (g_w g)\<lparr>gw_cursor := cur\<rparr>, g_b := b\<rparr>"
    "run' = run\<lparr>jr_header := Some h, jr_inflight := jr_inflight run @
      [\<lparr>if_en2 = en2, if_extranonce2 = eh_extranonce2 h, if_header = eh_header h, if_start = n, if_count = c,
        if_queued = ge_clock ge (g_tick g)\<rparr>]\<rparr>"
  | (failed) en2 n c cur h b e where
    "Cursor_take (gw_cursor (g_w g)) (max (chunk_of (gw_budget (g_w g)) (gw_batch (g_w g))) 1) (gw_stride (g_w g)) = ((en2, n, c), cur)"
    "h = (case jr_header run of Some h \<Rightarrow> if eh_en2 h \<noteq> en2 then en2_header (ge_crates ge) (jr_job run) en2 else h
          | None \<Rightarrow> en2_header (ge_crates ge) (jr_job run) en2)"
    "be_enqueue (ge_be ge) (g_b g) \<lparr>la_algo = jr_algo run, la_header76 = eh_header76 h, la_start = n, la_count = c,
       la_target = job_share_target (jr_job run)\<rparr> = (Inl e, b)"
    "device_error ge e (restart_of g run) (g\<lparr>g_w := (g_w g)\<lparr>gw_cursor := cur\<rparr>, g_b := b\<rparr>)
       (run\<lparr>jr_header := Some h\<rparr>) = (r, g', run')"
proof -
  obtain en2 n c cur where t: "Cursor_take (gw_cursor (g_w g)) (max (chunk_of (gw_budget (g_w g)) (gw_batch (g_w g))) 1)
      (gw_stride (g_w g)) = ((en2, n, c), cur)" by (metis surj_pair)
  define h where "h = (case jr_header run of Some h \<Rightarrow> if eh_en2 h \<noteq> en2 then en2_header (ge_crates ge) (jr_job run) en2 else h
          | None \<Rightarrow> en2_header (ge_crates ge) (jr_job run) en2)"
  obtain q b where q: "be_enqueue (ge_be ge) (g_b g) \<lparr>la_algo = jr_algo run, la_header76 = eh_header76 h, la_start = n, la_count = c,
       la_target = job_share_target (jr_job run)\<rparr> = (q, b)" by fastforce
  show thesis
  proof (cases q)
    case (Inl e)
    from failed [OF t h_def q [unfolded Inl]] show thesis
      using assms t h_def q Inl by (simp add: queue_one_def Let_def restart_of_def split: list.split)
  next
    case (Inr u)
    from queued [OF t h_def q [unfolded Inr, simplified]] show thesis
      using assms t h_def q Inr by (simp add: queue_one_def Let_def)
  qed
qed

text \<open>What a run keeps.\<close>

definition same_run :: "JobRun \<Rightarrow> JobRun \<Rightarrow> bool" where
  "same_run run run' \<longleftrightarrow>
     run' = run\<lparr>jr_inflight := jr_inflight run', jr_ending := jr_ending run', jr_header := jr_header run'\<rparr>"

lemma same_run_refl [simp]: "same_run run run"
  by (simp add: same_run_def)

lemma same_run_fields:
  assumes "same_run run run'"
  shows "jr_job run' = jr_job run" and "jr_generation run' = jr_generation run" and "jr_algo run' = jr_algo run"
    and "jr_verify run' = jr_verify run" and "jr_block_target run' = jr_block_target run"
    and "jr_depth run' = jr_depth run" and "jr_granule run' = jr_granule run"
    and "jr_min_batch run' = jr_min_batch run" and "jr_max_batch run' = jr_max_batch run"
  using assms by (cases run; cases run'; simp add: same_run_def)+

lemma same_run_trans: "same_run a b \<Longrightarrow> same_run b c \<Longrightarrow> same_run a c"
  by (cases a; cases b; cases c) (simp add: same_run_def)

lemma same_run_updates [simp]:
  "same_run a (b\<lparr>jr_inflight := i\<rparr>) = same_run a b" "same_run a (b\<lparr>jr_ending := e\<rparr>) = same_run a b"
  "same_run a (b\<lparr>jr_header := h\<rparr>) = same_run a b"
  by (cases a; cases b; simp add: same_run_def)+

lemma queue_one_ok:
  assumes "queue_one ge g run = (r, g', run')" and "run_ok (ge_crates ge) N c0 pre g run"
    and "en2_fits (fst (gw_cursor (g_w g))) (job_extranonce2_size (jr_job run))"
  shows "run_ok (ge_crates ge) N c0 pre g' run'" and "g_finished g' = g_finished g" and "same_run run run'"
    and "r = Inl DeviceGone \<and> jr_inflight run' = [] \<or> r = Inr ()"
proof -
  obtain e0 n0 where cur0: "gw_cursor (g_w g) = (e0, n0)" by fastforce
  have "run_ok (ge_crates ge) N c0 pre g' run' \<and> g_finished g' = g_finished g \<and> same_run run run' \<and>
      (r = Inl DeviceGone \<and> jr_inflight run' = [] \<or> r = Inr ())"
    using assms(1)
  proof (cases rule: queue_one_cases)
    case (queued en2 n c cur h b)
    have t: "chunk_ok N (e0, n0, unat c) \<and> cur = cursor_after N e0 n0 (unat c)"
      if "job_room (jr_job run) N" "gw_stride (g_w g) = word_of_nat N"
      using Cursor_take_chunk [OF queued(1) [unfolded cur0 that(2)] that(1)] assms(3) cur0 by simp
    have at: "en2 = e0" "n = n0" using Cursor_take_count(1,2) [OF queued(1) [unfolded cur0]] by simp_all
    note c0 = Cursor_take_fits [OF queued(1) [unfolded cur0]]
    have "h = en2_header (ge_crates ge) (jr_job run) en2"
      using assms(2) queued(2) by (auto simp: run_ok_def split: option.splits)
    with assms(2,3) queued(4-6) t at cur0 c0 show ?thesis
      by (auto simp: run_ok_def tiles_append chunk_in_flight_def launch_ok_def)
  next
    case (failed en2 n c cur h b e)
    have h: "h = en2_header (ge_crates ge) (jr_job run) en2"
      using assms(2) failed(2) by (auto simp: run_ok_def split: option.splits)
    note d = device_error_fields [OF failed(4)]
    have "run_ok (ge_crates ge) N c0 pre (g\<lparr>g_w := g_w g\<rparr>) (run\<lparr>jr_header := Some h\<rparr>)"
      using assms(2) h by (simp add: run_ok_def)
    then have "run_ok (ge_crates ge) N c0 pre g' run'"
      by (rule run_ok_restart) (use d in \<open>simp_all add: restart_of_def\<close>)
    with d show ?thesis by auto
  qed
  then show "run_ok (ge_crates ge) N c0 pre g' run'" "g_finished g' = g_finished g" "same_run run run'"
    "r = Inl DeviceGone \<and> jr_inflight run' = [] \<or> r = Inr ()" by blast+
qed

lemma run_ok_step [simp]: "run_ok cr N c0 pre (step ge g) run = run_ok cr N c0 pre g run"
  by (simp add: run_ok_def step_def)

lemma step_fields [simp]:
  "g_w (step ge g) = g_w g" "g_b (step ge g) = g_b g" "g_finished (step ge g) = g_finished g" "g_fs (step ge g) = g_fs g"
  by (simp_all add: step_def)

lemma run_ok_ending [simp]: "run_ok cr N c0 pre g (run\<lparr>jr_ending := e\<rparr>) = run_ok cr N c0 pre g run"
  by (simp add: run_ok_def)

lemma top_up_ok:
  assumes "top_up ge g run = (r, g', run')" and "run_ok (ge_crates ge) N c0 pre g run"
  shows "run_ok (ge_crates ge) N c0 pre g' run' \<and> g_finished g' = g_finished g \<and> same_run run run' \<and>
    (r = Inl DeviceGone \<and> jr_inflight run' = [] \<or> r = Inr ())"
  using assms
proof (induction ge g run arbitrary: r g' run' rule: top_up.induct)
  case (1 ge g run)
  let ?g = "step ge g"
  show ?case
  proof (cases "jr_ending run = None \<and> length (jr_inflight run) < jr_depth run \<and>
      \<not> (sh_generation (g_s ?g) \<noteq> jr_generation run \<or> tu_switch_to (gw_tune (g_w ?g)) \<noteq> None) \<and>
      en2_fits (fst (gw_cursor (g_w ?g))) (job_extranonce2_size (jr_job run))")
    case False
    then have "g_finished g' = g_finished g \<and> same_run run run' \<and> r = Inr () \<and> run_ok (ge_crates ge) N c0 pre g' run'"
      using 1(2,3) by (subst (asm) top_up.simps) (auto simp: Let_def split: if_splits)
    then show ?thesis by blast
  next
    case True
    obtain r1 g1 run1 where q: "queue_one ge ?g run = (r1, g1, run1)" by (metis surj_pair)
    have ok: "run_ok (ge_crates ge) N c0 pre ?g run" using 1(3) by simp
    note q1 = queue_one_ok [OF q ok] True
    show ?thesis
    proof (cases r1)
      case (Inl x)
      then have "top_up ge g run = (Inl x, g1, run1)" using True q by (subst top_up.simps) (simp add: Let_def)
      with 1(2) q1 Inl show ?thesis by auto
    next
      case (Inr u)
      then have "top_up ge g1 run1 = (r, g', run')" using 1(2) True q by (subst (asm) top_up.simps) (simp add: Let_def)
      moreover have "run_ok (ge_crates ge) N c0 pre g1 run1" using q1 by simp
      ultimately have "run_ok (ge_crates ge) N c0 pre g' run' \<and> g_finished g' = g_finished g1 \<and> same_run run1 run' \<and>
          (r = Inl DeviceGone \<and> jr_inflight run' = [] \<or> r = Inr ())"
        using 1(1) [OF _ refl _ _ q [symmetric] Inr refl] True by blast
      then show ?thesis using q1 same_run_trans by (metis step_fields(3))
    qed
  qed
qed

lemma finish_fields:
  assumes "finish ge run l scan g = (elapsed, g')"
  shows "gw_cursor (g_w g') = gw_cursor (g_w g)" and "gw_stride (g_w g') = gw_stride (g_w g)"
    and "g_finished g' = g_finished g @ [(l, scan)]" and "g_b g' = g_b g" and "gw_errors (g_w g') = gw_errors (g_w g)"
  using assms by (auto simp: finish_def Let_def split_def)

text \<open>One turn of the launch loop in which a launch came back.\<close>

lemma pump_collected:
  assumes "top_up ge g run = (Inr (), g1, run1)" and "jr_inflight run1 = l # rest"
    and "be_collect (ge_be ge) (g_b g1) = (Inr scan, b)"
    and "g3 = (step ge (g1\<lparr>g_b := b\<rparr>))\<lparr>g_w := (g_w g1)\<lparr>gw_errors := 0\<rparr>\<rparr>" and "run2 = run1\<lparr>jr_inflight := rest\<rparr>"
    and "(if 1 < jr_depth run1 then top_up ge g3 run2 else (Inr (), g3, run2)) = (r4, g4, run4)"
    and "finish ge run4 l scan g4 = (elapsed, g5)"
  shows "pump ge (Suc fuel) g run =
    (case r4 of Inl gone \<Rightarrow> Some (gone, g4, run4) | Inr _ \<Rightarrow> pump ge fuel (report_hashing ge l elapsed g5) run4)"
proof -
  have "pump ge (Suc fuel) g run = (case (if 1 < jr_depth run1 then top_up ge g3 run2 else (Inr (), g3, run2)) of
      (Inl gone, g, run) \<Rightarrow> Some (gone, g, run)
    | (Inr _, g, run) \<Rightarrow> let (elapsed, g) = finish ge run l scan g in pump ge fuel (report_hashing ge l elapsed g) run)"
    by (simp add: assms(1-5) Let_def)
  then show ?thesis unfolding assms(6) by (simp add: assms(7) split: sum.splits)
qed

lemma pump_failed:
  assumes "top_up ge g run = (Inr (), g1, run1)" and "jr_inflight run1 = l # rest"
    and "be_collect (ge_be ge) (g_b g1) = (Inl e, b)"
    and "device_error ge e (if_en2 l, if_start l) (step ge (g1\<lparr>g_b := b\<rparr>)) (run1\<lparr>jr_inflight := rest\<rparr>) = (r3, g3, run3)"
  shows "pump ge (Suc fuel) g run = (case r3 of Inl gone \<Rightarrow> Some (gone, g3, run3) | Inr _ \<Rightarrow> pump ge fuel g3 run3)"
  by (simp add: assms split: sum.splits)

lemma report_hashing_fields [simp]:
  "gw_cursor (g_w (report_hashing ge l d g)) = gw_cursor (g_w g)" "gw_stride (g_w (report_hashing ge l d g)) = gw_stride (g_w g)"
  "g_finished (report_hashing ge l d g) = g_finished g" "g_b (report_hashing ge l d g) = g_b g"
  "gw_tune (g_w (report_hashing ge l d g)) = gw_tune (g_w g)" "gw_errors (g_w (report_hashing ge l d g)) = gw_errors (g_w g)"
  by (simp_all add: report_hashing_def g_print_def)

declare pump.simps(2) [simp del]

text \<open>
  The whole launch loop. Up to one launch may be collected and not finished (\<open>lost\<close>), when the
  device goes in between; everything else up to the cursor has been finished.
\<close>

lemma pump_ok:
  assumes "pump ge fuel g run = Some (ended, g', run')"
    and "run_ok (ge_crates ge) N c0 (map fst (g_finished g)) g run"
  shows "\<exists>lost. run_ok (ge_crates ge) N c0 (map fst (g_finished g') @ lost) g' run' \<and> jr_inflight run' = [] \<and>
    length lost \<le> 1 \<and> (lost \<noteq> [] \<longrightarrow> ended = DeviceGone \<and> 1 < jr_depth run) \<and>
    (\<exists>new. g_finished g' = g_finished g @ new) \<and> same_run run run'"
  using assms
proof (induction fuel arbitrary: g run)
  case 0
  then show ?case by simp
next
  case (Suc fuel)
  let ?cr = "ge_crates ge"
  obtain r1 g1 run1 where t1: "top_up ge g run = (r1, g1, run1)" by (metis surj_pair)
  note k1 = top_up_ok [OF t1 Suc.prems(2)]
  show ?case
  proof (cases "\<exists>gone. r1 = Inl gone")
    case True
    then have "r1 = Inl DeviceGone" using k1 by auto
    then have e: "ended = DeviceGone" "g' = g1" "run' = run1" using Suc.prems(1) t1 by (simp_all add: pump.simps(2))
    with k1 True show ?thesis by (intro exI [of _ "[]"]) auto
  next
    case False
    with k1 have r1: "r1 = Inr ()" by blast
    show ?thesis
    proof (cases "jr_inflight run1")
      case Nil
      then have "g' = g1" "run' = run1" using Suc.prems(1) t1 r1 by (simp_all add: pump.simps(2))
      with k1 Nil show ?thesis by (intro exI [of _ "[]"]) auto
    next
      case (Cons l rest)
      obtain col b where col: "be_collect (ge_be ge) (g_b g1) = (col, b)" by fastforce
      show ?thesis
      proof (cases col)
        case (Inl e)
        obtain r3 g3 run3 where d: "device_error ge e (if_en2 l, if_start l) (step ge (g1\<lparr>g_b := b\<rparr>))
            (run1\<lparr>jr_inflight := rest\<rparr>) = (r3, g3, run3)" by (metis surj_pair)
        note p = pump_failed [OF t1 [unfolded r1] Cons col [unfolded Inl] d, of fuel] and f = device_error_fields [OF d]
        have fin3: "g_finished g3 = g_finished g" using k1 f(4) by simp
        then have "run_ok ?cr N c0 (map fst (g_finished g3)) g1 run1" using k1 by simp
        then have ok3: "run_ok ?cr N c0 (map fst (g_finished g3)) g3 run3"
          by (rule run_ok_restart) (simp_all add: f(1-3) Cons restart_of_def)
        have sr: "same_run run run3" using k1 f(3) by simp
        from f(5) show ?thesis
        proof
          assume "r3 = Inl DeviceGone"
          then have "g' = g3" "run' = run3" using Suc.prems(1) p by simp_all
          with ok3 sr f(3) fin3 show ?thesis by (intro exI [of _ "[]"]) auto
        next
          assume "r3 = Inr ()"
          then have "pump ge fuel g3 run3 = Some (ended, g', run')" using Suc.prems(1) p by simp
          from Suc.IH [OF this ok3] show ?thesis
            using same_run_trans [OF sr, of run'] same_run_fields(6) [OF sr] fin3 by auto
        qed
      next
        case (Inr scan)
        define run2 where "run2 = run1\<lparr>jr_inflight := rest\<rparr>"
        define g3 where "g3 = (step ge (g1\<lparr>g_b := b\<rparr>))\<lparr>g_w := (g_w g1)\<lparr>gw_errors := 0\<rparr>\<rparr>"
        obtain r4 g4 run4 where
          t4: "(if 1 < jr_depth run1 then top_up ge g3 run2 else (Inr (), g3, run2)) = (r4, g4, run4)" by (metis surj_pair)
        obtain elapsed g5 where f5: "finish ge run4 l scan g4 = (elapsed, g5)" by fastforce
        note p = pump_collected [OF t1 [unfolded r1] Cons col [unfolded Inr] g3_def run2_def t4 f5, of fuel]
        have ok3: "run_ok ?cr N c0 (map fst (g_finished g) @ [l]) g3 run2"
          using k1 Cons by (simp add: run_ok_def g3_def run2_def)
        have base: "g_finished g3 = g_finished g" "same_run run run2" "jr_depth run1 = jr_depth run"
          using k1 same_run_fields(6) [of run run1] by (simp_all add: g3_def run2_def)
        have k4: "run_ok ?cr N c0 (map fst (g_finished g) @ [l]) g4 run4 \<and> g_finished g4 = g_finished g \<and> same_run run run4 \<and>
            (r4 = Inl DeviceGone \<and> jr_inflight run4 = [] \<and> 1 < jr_depth run \<or> r4 = Inr ())"
          using t4 ok3 base top_up_ok [of ge g3 run2 r4 g4 run4, OF _ ok3] same_run_trans [OF base(2), of run4]
          by (auto split: if_splits)
        show ?thesis
        proof (cases "r4 = Inl DeviceGone")
          case True
          then have "ended = DeviceGone" "g' = g4" "run' = run4" using Suc.prems(1) p by simp_all
          with k4 True show ?thesis by (intro exI [of _ "[l]"]) auto
        next
          case False
          then have r4: "r4 = Inr ()" using k4 by auto
          then have q: "pump ge fuel (report_hashing ge l elapsed g5) run4 = Some (ended, g', run')"
            using Suc.prems(1) p by simp
          note ff = finish_fields [OF f5]
          have "run_ok ?cr N c0 (map fst (g_finished (report_hashing ge l elapsed g5))) (report_hashing ge l elapsed g5) run4"
            using k4 ff by (simp add: run_ok_def)
          from Suc.IH [OF q this] show ?thesis
            using k4 same_run_trans [of run run4 run'] same_run_fields(6) [of run run4] ff(3) by auto
        qed
      qed
    qed
  qed
qed

subsection \<open>The hits of a launch\<close>

definition hit_ok :: "JobRun \<Rightarrow> InFlight \<Rightarrow> u32 \<Rightarrow> bool" where
  "hit_ok run l n \<longleftrightarrow> n - if_start l < if_count l \<and>
     hash_meets_target (jr_verify run (serialize ((if_header l)\<lparr>hdr_nonce := n\<rparr>))) (job_share_target (jr_job run))"

definition hit_share :: "Crates \<Rightarrow> JobRun \<Rightarrow> InFlight \<Rightarrow> u32 \<Rightarrow> FoundShare" where
  "hit_share cr run l n =
     (let hash = jr_verify run (serialize ((if_header l)\<lparr>hdr_nonce := n\<rparr>))
      in \<lparr>fs_job_id = job_id (jr_job run), fs_extranonce2 = if_extranonce2 l, fs_ntime = job_ntime (jr_job run),
          fs_nonce = n, fs_hash_display = hash_to_display (cr_hex_encode cr) hash,
          fs_is_block_candidate = (case jr_block_target run of Some t \<Rightarrow> hash_meets_target hash t | None \<Rightarrow> False)\<rparr>)"

lemma print_lines_queue [simp]:
  "sh_submit (print_lines ls s) = sh_submit s" "sh_submit_cap (print_lines ls s) = sh_submit_cap s"
  "sh_submit_open (print_lines ls s) = sh_submit_open s"
  by (simp_all add: print_lines_def)

lemma fold_submit_hit_queue:
  assumes "sh_submit_open s"
  shows "sh_submit (fold (submit_hit cr run l now) ns s) =
      sh_submit s @ take (sh_submit_cap s - length (sh_submit s)) (map (hit_share cr run l) (filter (hit_ok run l) ns))"
proof -
  have "sh_submit (submit_hit cr run l now n s) = (if hit_ok run l n \<and> length (sh_submit s) < sh_submit_cap s
      then sh_submit s @ [hit_share cr run l n] else sh_submit s)"
    and "sh_submit_cap (submit_hit cr run l now n s) = sh_submit_cap s \<and> sh_submit_open (submit_hit cr run l now n s)"
    if "sh_submit_open s" for n s
    using that by (simp_all add: submit_hit_def hit_ok_def hit_share_def submit_queue Let_def linorder_not_le [symmetric])
  note q = this
  show ?thesis
    by (rule fold_submit_queue [of "submit_hit cr run l now" "hit_ok run l" "hit_share cr run l", OF q assms, THEN conjunct1])
qed

lemma count_launch_queue [simp]: "sh_submit (count_launch slot c busy now s) = sh_submit s"
  by (simp add: count_launch_def Let_def split: option.splits)

lemma finish_queue:
  assumes "sh_submit_open (g_s g)"
  shows "sh_submit (g_s (snd (finish ge run l scan g))) = sh_submit (g_s g) @
    take (sh_submit_cap (g_s g) - length (sh_submit (g_s g)))
      (map (hit_share (ge_crates ge) run l) (filter (hit_ok run l) (remdups_adj (sort (sc_hits scan)))))"
  using fold_submit_hit_queue [of "case snd (overflowed (gw_budget (g_w g)) (if_count l) (sc_reported scan)) of
      Some m \<Rightarrow> print_lines [Err m] (g_s g) | None \<Rightarrow> g_s g"] assms
  by (simp add: finish_def Let_def split_def split: option.splits)

text \<open>The nonces of a launch are those its range check lets through.\<close>

lemma in_range_nonces:
  assumes "unat start + unat count \<le> 2 ^ 32"
  shows "n - start < count \<longleftrightarrow> n \<in> set (nonces start (unat count))"
proof
  assume "n - start < count"
  then have "unat (n - start) < unat count" by (simp add: word_less_nat_alt)
  moreover have "n = start + word_of_nat (unat (n - start))" by simp
  ultimately show "n \<in> set (nonces start (unat count))" unfolding nonces_def by force
next
  assume "n \<in> set (nonces start (unat count))"
  then obtain i where "i < unat count" "n = start + word_of_nat i" by (auto simp: nonces_def)
  moreover from this have "unat (word_of_nat i :: u32) = i" using unsigned_less [of count, where 'a = nat]
    by (simp add: unat_of_nat)
  ultimately show "n - start < count" by (simp add: word_less_nat_alt)
qed

lemma sorted_nonces:
  assumes "unat start + count \<le> 2 ^ 32"
  shows "sorted (nonces start count)" and "distinct (nonces start count)"
proof -
  note u = unat_nonces [OF assms]
  have "sorted (map unat (nonces start count))" "distinct (map unat (nonces start count))" by (simp_all add: u)
  then show "sorted (nonces start count)" "distinct (nonces start count)"
    by (simp_all add: sorted_map distinct_map word_le_nat_alt [symmetric])
qed

lemma distinct_remdups_adj_sorted: "sorted xs \<Longrightarrow> distinct (remdups_adj (xs :: 'a::linorder list))"
proof (induction xs rule: remdups_adj.induct)
  case (3 x y xs)
  then show ?case by (cases "x = y") (auto simp: le_less_trans dest: leD)
qed simp_all

text \<open>A kernel that reports every hit of its launch leaves the hits the CPU would find, in order.\<close>

lemma filter_hits_nonces:
  assumes "unat (if_start l) + unat (if_count l) \<le> 2 ^ 32"
    and "\<And>n. hit_ok run l n \<Longrightarrow> n \<in> set hits"
  shows "filter (hit_ok run l) (remdups_adj (sort hits)) = filter (hit_ok run l) (nonces (if_start l) (unat (if_count l)))"
proof (rule sorted_distinct_set_unique)
  have "sorted (remdups_adj (sort hits))" "distinct (remdups_adj (sort hits))"
    by (simp_all add: sorted_remdups_adj distinct_remdups_adj_sorted)
  then show "sorted (filter (hit_ok run l) (remdups_adj (sort hits)))" "distinct (filter (hit_ok run l) (remdups_adj (sort hits)))"
    by (auto intro: sorted_filter [where f = "\<lambda>x. x", simplified])
  show "sorted (filter (hit_ok run l) (nonces (if_start l) (unat (if_count l))))"
    "distinct (filter (hit_ok run l) (nonces (if_start l) (unat (if_count l))))"
    using sorted_nonces [OF assms(1)] by (auto intro: sorted_filter [where f = "\<lambda>x. x", simplified])
  show "set (filter (hit_ok run l) (remdups_adj (sort hits))) = set (filter (hit_ok run l) (nonces (if_start l) (unat (if_count l))))"
    using assms(2) in_range_nonces [OF assms(1)] by (auto simp: hit_ok_def)
qed

subsection \<open>The launch loop returns\<close>

text \<open>
  Where the oldest launch not finished starts does not change while launches are queued, however
  often queueing fails, and every failure uses up one of the errors left.
\<close>

lemma restart_of_simps [simp]:
  "restart_of (step ge g) run = restart_of g run" "restart_of g (run\<lparr>jr_ending := e\<rparr>) = restart_of g run"
  by (simp_all add: restart_of_def split: list.split)

lemma restart_of_cong: "gw_cursor (g_w g) = gw_cursor (g_w g') \<Longrightarrow> restart_of g run = restart_of g' run"
  by (simp add: restart_of_def split: list.split)

lemma queue_one_progress:
  assumes "queue_one ge g run = (r, g', run')"
  shows "restart_of g' run' = restart_of g run"
    and "r = Inr () \<Longrightarrow> errors_left (gw_errors (g_w g')) \<le> errors_left (gw_errors (g_w g))"
proof -
  obtain e0 n0 where cur0: "gw_cursor (g_w g) = (e0, n0)" by fastforce
  have "restart_of g' run' = restart_of g run \<and>
      (r = Inr () \<longrightarrow> errors_left (gw_errors (g_w g')) \<le> errors_left (gw_errors (g_w g)))"
    using assms
  proof (cases rule: queue_one_cases)
    case (queued en2 n c cur h b)
    with Cursor_take_count(1,2) [OF queued(1) [unfolded cur0]] cur0 show ?thesis
      by (cases "jr_inflight run") (simp_all add: restart_of_def)
  next
    case (failed en2 n c cur h b e)
    then show ?thesis using device_error_fields [OF failed(4)] device_error_errors_left [of ge e _ _ _ g' run'] failed(4)
      by (cases "jr_inflight run") (fastforce simp: restart_of_def)+
  qed
  then show "restart_of g' run' = restart_of g run"
    "r = Inr () \<Longrightarrow> errors_left (gw_errors (g_w g')) \<le> errors_left (gw_errors (g_w g))" by blast+
qed

lemma top_up_progress:
  assumes "top_up ge g run = (r, g', run')"
  shows "restart_of g' run' = restart_of g run \<and>
    (r = Inr () \<longrightarrow> errors_left (gw_errors (g_w g')) \<le> errors_left (gw_errors (g_w g)))"
  using assms
proof (induction ge g run arbitrary: r g' run' rule: top_up.induct)
  case (1 ge g run)
  let ?g = "step ge g"
  show ?case
  proof (cases "jr_ending run = None \<and> length (jr_inflight run) < jr_depth run \<and>
      \<not> (sh_generation (g_s ?g) \<noteq> jr_generation run \<or> tu_switch_to (gw_tune (g_w ?g)) \<noteq> None) \<and>
      en2_fits (fst (gw_cursor (g_w ?g))) (job_extranonce2_size (jr_job run))")
    case False
    then show ?thesis
      using 1(2) by (subst (asm) top_up.simps) (auto simp: Let_def split: if_splits)
  next
    case True
    obtain r1 g1 run1 where q: "queue_one ge ?g run = (r1, g1, run1)" by (metis surj_pair)
    note p = queue_one_progress [OF q]
    show ?thesis
    proof (cases r1)
      case (Inl x)
      then have "top_up ge g run = (Inl x, g1, run1)" using True q by (subst top_up.simps) (simp add: Let_def)
      with 1(2) p Inl show ?thesis by simp
    next
      case (Inr u)
      then have t: "top_up ge g1 run1 = (r, g', run')" using 1(2) True q by (subst (asm) top_up.simps) (simp add: Let_def)
      have "restart_of g' run' = restart_of g1 run1 \<and>
          (r = Inr () \<longrightarrow> errors_left (gw_errors (g_w g')) \<le> errors_left (gw_errors (g_w g1)))"
        using 1(1) [OF _ refl _ _ q [symmetric] Inr refl t] True by blast
      then show ?thesis using p Inr by fastforce
    qed
  qed
qed

lemma queue_one_stride: "queue_one ge g run = (r, g', run') \<Longrightarrow> gw_stride (g_w g') = gw_stride (g_w g)"
  by (erule queue_one_cases) (use device_error_fields(2) in fastforce)+

lemma top_up_stride: "top_up ge g run = (r, g', run') \<Longrightarrow> gw_stride (g_w g') = gw_stride (g_w g)"
proof (induction ge g run arbitrary: r g' run' rule: top_up.induct)
  case (1 ge g run)
  let ?g = "step ge g"
  show ?case
  proof (cases "jr_ending run = None \<and> length (jr_inflight run) < jr_depth run \<and>
      \<not> (sh_generation (g_s ?g) \<noteq> jr_generation run \<or> tu_switch_to (gw_tune (g_w ?g)) \<noteq> None) \<and>
      en2_fits (fst (gw_cursor (g_w ?g))) (job_extranonce2_size (jr_job run))")
    case False
    then show ?thesis using 1(2) by (subst (asm) top_up.simps) (auto simp: Let_def split: if_splits)
  next
    case True
    obtain r1 g1 run1 where q: "queue_one ge ?g run = (r1, g1, run1)" by (metis surj_pair)
    show ?thesis
    proof (cases r1)
      case (Inl x)
      then have "top_up ge g run = (Inl x, g1, run1)" using True q by (subst top_up.simps) (simp add: Let_def)
      with 1(2) queue_one_stride [OF q] show ?thesis by simp
    next
      case (Inr u)
      then have t: "top_up ge g1 run1 = (r, g', run')" using 1(2) True q by (subst (asm) top_up.simps) (simp add: Let_def)
      have "gw_stride (g_w g') = gw_stride (g_w g1)" using 1(1) [OF _ refl _ _ q [symmetric] Inr refl t] True by blast
      then show ?thesis using queue_one_stride [OF q] by simp
    qed
  qed
qed

definition pump_left :: "('b, 'c) Gpu \<Rightarrow> JobRun \<Rightarrow> nat" where
  "pump_left g run =
     7 * nonces_left (jr_job run) (fst (restart_of g run)) (snd (restart_of g run)) + errors_left (gw_errors (g_w g))"

lemma errors_left_le: "errors_left e \<le> 6"
  unfolding errors_left_def by (cases "e = - 1") simp_all

text \<open>What is left after the oldest launch has been finished.\<close>

lemma pump_left_finished:
  assumes "run_ok cr N c0 pre g run" and "jr_inflight run = l # rest" and "job_room (jr_job run) N" and "gw_stride (g_w g) = word_of_nat N"
    and "gw_cursor (g_w g') = gw_cursor (g_w g)" and "jr_inflight run' = rest" and "jr_job run' = jr_job run"
  shows "pump_left g' run' < 7 * nonces_left (jr_job run) (if_en2 l) (if_start l)"
proof -
  let ?j = "jr_job run"
  obtain e n d where ch: "chunk_in_flight l = (e, n, d)" "if_en2 l = e" "if_start l = n"
    by (simp add: chunk_in_flight_def)
  have fits: "en2_fits e (job_extranonce2_size ?j)" and room: "job_room ?j N"
    using assms(1-3) ch by (auto simp: run_ok_def launch_ok_def)
  obtain m where "tiles N m (map chunk_in_flight (l # rest)) (gw_cursor (g_w g))"
    using assms(1-4) by (auto simp: run_ok_def tiles_append)
  then have ok: "chunk_ok N (e, n, d)" and rest: "tiles N (cursor_after N e n d) (map chunk_in_flight rest) (gw_cursor (g_w g))"
    by (simp_all add: ch(1))
  have "restart_of g' run' = cursor_after N e n d"
    using rest assms(5,6) by (cases rest) (auto simp: restart_of_def chunk_in_flight_def)
  moreover have "unat e < 256 ^ job_extranonce2_size ?j" using fits room by (simp add: en2_fits_unat job_room_def)
  moreover have "0 < N" using room by (simp add: job_room_def)
  ultimately have "nonces_left ?j (fst (restart_of g' run')) (snd (restart_of g' run')) < nonces_left ?j e n"
    using nonces_left_decreases [OF ok, of ?j] by (metis prod.collapse)
  then show ?thesis using errors_left_le [of "gw_errors (g_w g')"] assms(7) ch(2,3) by (simp add: pump_left_def)
qed

lemma pump_returns:
  assumes "run_ok (ge_crates ge) N c0 (map fst (g_finished g)) g run" and "pump_left g run < fuel"
    and "job_room (jr_job run) N" and "gw_stride (g_w g) = word_of_nat N"
  shows "\<exists>r. pump ge fuel g run = Some r"
  using assms
proof (induction fuel arbitrary: g run)
  case 0
  then show ?case by simp
next
  case (Suc fuel)
  obtain r1 g1 run1 where t1: "top_up ge g run = (r1, g1, run1)" by (metis surj_pair)
  note k1 = top_up_ok [OF t1 Suc.prems(1)] and p1 = top_up_progress [OF t1]
  have st1: "gw_stride (g_w g1) = word_of_nat N" using top_up_stride [OF t1] Suc.prems(4) by simp
  show ?case
  proof (cases "r1 = Inr () \<and> jr_inflight run1 \<noteq> []")
    case False
    then show ?thesis using t1 k1 by (auto simp: pump.simps(2))
  next
    case True
    then obtain l rest where l: "jr_inflight run1 = l # rest" by (meson neq_Nil_conv)
    have job: "jr_job run1 = jr_job run" using k1 same_run_fields(1) by blast
    have room: "job_room (jr_job run1) N" using Suc.prems(3) job by simp
    have ro: "restart_of g run = (if_en2 l, if_start l)" using p1 l by (simp add: restart_of_def)
    have r1: "r1 = Inr ()" using True by simp
    obtain col b where col: "be_collect (ge_be ge) (g_b g1) = (col, b)" by fastforce
    show ?thesis
    proof (cases col)
      case (Inl e)
      obtain r3 g3 run3 where d: "device_error ge e (if_en2 l, if_start l) (step ge (g1\<lparr>g_b := b\<rparr>))
          (run1\<lparr>jr_inflight := rest\<rparr>) = (r3, g3, run3)" by (metis surj_pair)
      note p = pump_failed [OF t1 [unfolded r1] l col [unfolded Inl] d, of fuel] and f = device_error_fields [OF d]
      show ?thesis
      proof (cases "r3 = Inr ()")
        case False
        then show ?thesis using p f(5) by auto
      next
        case True
        have "run_ok (ge_crates ge) N c0 (map fst (g_finished g3)) g1 run1" using k1 f(4) by simp
        then have ok3: "run_ok (ge_crates ge) N c0 (map fst (g_finished g3)) g3 run3"
          by (rule run_ok_restart) (simp_all add: f(1-3) l restart_of_def)
        have "errors_left (gw_errors (g_w g3)) < errors_left (gw_errors (g_w g1))"
          using device_error_errors_left [OF d [unfolded True]] by simp
        then have "pump_left g3 run3 < pump_left g run"
          using p1 r1 f(1,3) job ro by (simp add: pump_left_def restart_of_def)
        then have "pump_left g3 run3 < fuel" using Suc.prems(2) by simp
        from Suc.IH [OF ok3 this] p True f(2,3) st1 room show ?thesis by simp
      qed
    next
      case (Inr scan)
      define run2 where "run2 = run1\<lparr>jr_inflight := rest\<rparr>"
      define g3 where "g3 = (step ge (g1\<lparr>g_b := b\<rparr>))\<lparr>g_w := (g_w g1)\<lparr>gw_errors := 0\<rparr>\<rparr>"
      obtain r4 g4 run4 where
        t4: "(if 1 < jr_depth run1 then top_up ge g3 run2 else (Inr (), g3, run2)) = (r4, g4, run4)" by (metis surj_pair)
      obtain elapsed g5 where f5: "finish ge run4 l scan g4 = (elapsed, g5)" by fastforce
      note p = pump_collected [OF t1 [unfolded r1] l col [unfolded Inr] g3_def run2_def t4 f5, of fuel] and ff = finish_fields [OF f5]
      have ok3: "run_ok (ge_crates ge) N c0 (map fst (g_finished g) @ [l]) g3 run2"
        using k1 l by (simp add: run_ok_def g3_def run2_def)
      show ?thesis
      proof (cases "r4 = Inr ()")
        case False
        then have "\<exists>x. r4 = Inl x" by (cases r4) simp_all
        then show ?thesis using p by auto
      next
        case True
        have k4: "run_ok (ge_crates ge) N c0 (map fst (g_finished g) @ [l]) g4 run4" "g_finished g4 = g_finished g"
          "same_run run2 run4" "restart_of g4 run4 = restart_of g3 run2"
          using t4 ok3 top_up_ok [of ge g3 run2 r4 g4 run4, OF _ ok3] top_up_progress [of ge g3 run2 r4 g4 run4] k1
          by (auto simp: g3_def split: if_splits)
        let ?g6 = "report_hashing ge l elapsed g5"
        have ok6: "run_ok (ge_crates ge) N c0 (map fst (g_finished ?g6)) ?g6 run4"
          using k4 ff by (simp add: run_ok_def)
        have "pump_left ?g6 run4 = 7 * nonces_left (jr_job run2) (fst (restart_of g3 run2)) (snd (restart_of g3 run2)) +
            errors_left (gw_errors (g_w ?g6))"
          using restart_of_cong [of ?g6 g4 run4] ff(1) k4(4) same_run_fields(1) [OF k4(3)] by (simp add: pump_left_def)
        also have "\<dots> < 7 * nonces_left (jr_job run) (if_en2 l) (if_start l)"
        proof -
          have "run_ok (ge_crates ge) N c0 (map fst (g_finished g)) g1 run1" using k1 by simp
          from pump_left_finished [OF this l room st1, of "?g6\<lparr>g_w := (g_w ?g6)\<lparr>gw_cursor := gw_cursor (g_w g1)\<rparr>\<rparr>" run2]
          show ?thesis
            using job restart_of_cong [of "?g6\<lparr>g_w := (g_w ?g6)\<lparr>gw_cursor := gw_cursor (g_w g1)\<rparr>\<rparr>" g3 run2]
            by (simp add: run2_def g3_def pump_left_def)
        qed
        finally have "pump_left ?g6 run4 < fuel" using Suc.prems(2) ro by (simp add: pump_left_def)
        have "gw_stride (g_w g4) = gw_stride (g_w g3)" using t4 top_up_stride [of ge g3 run2 r4 g4 run4] by (auto split: if_splits)
        then have "gw_stride (g_w ?g6) = word_of_nat N" using ff(2) st1 by (simp add: g3_def)
        moreover have "job_room (jr_job run4) N" using same_run_fields(1) [OF k4(3)] room by (simp add: run2_def)
        ultimately show ?thesis using Suc.IH [OF ok6 \<open>pump_left ?g6 run4 < fuel\<close>] p True by simp
      qed
    qed
  qed
qed

lemma pump_stride: "pump ge fuel g run = Some (ended, g', run') \<Longrightarrow> gw_stride (g_w g') = gw_stride (g_w g)"
proof (induction fuel arbitrary: g run)
  case (Suc fuel)
  obtain r1 g1 run1 where t1: "top_up ge g run = (r1, g1, run1)" by (metis surj_pair)
  note s1 = top_up_stride [OF t1]
  show ?case
  proof (cases "r1 = Inr () \<and> jr_inflight run1 \<noteq> []")
    case False
    then show ?thesis using Suc.prems t1 s1 by (cases r1) (auto simp: pump.simps(2))
  next
    case True
    then obtain l rest where r1: "r1 = Inr ()" and l: "jr_inflight run1 = l # rest" by (meson neq_Nil_conv)
    obtain col b where col: "be_collect (ge_be ge) (g_b g1) = (col, b)" by fastforce
    show ?thesis
    proof (cases col)
      case (Inl e)
      obtain r3 g3 run3 where d: "device_error ge e (if_en2 l, if_start l) (step ge (g1\<lparr>g_b := b\<rparr>))
          (run1\<lparr>jr_inflight := rest\<rparr>) = (r3, g3, run3)" by (metis surj_pair)
      then show ?thesis
        using pump_failed [OF t1 [unfolded r1] l col [unfolded Inl] d, of fuel] device_error_fields(2) [OF d] s1 Suc
        by (cases r3) auto
    next
      case (Inr scan)
      define run2 where "run2 = run1\<lparr>jr_inflight := rest\<rparr>"
      define g3 where "g3 = (step ge (g1\<lparr>g_b := b\<rparr>))\<lparr>g_w := (g_w g1)\<lparr>gw_errors := 0\<rparr>\<rparr>"
      obtain r4 g4 run4 where
        t4: "(if 1 < jr_depth run1 then top_up ge g3 run2 else (Inr (), g3, run2)) = (r4, g4, run4)" by (metis surj_pair)
      obtain elapsed g5 where f5: "finish ge run4 l scan g4 = (elapsed, g5)" by fastforce
      have "gw_stride (g_w g4) = gw_stride (g_w g3)" using t4 top_up_stride [of ge g3 run2 r4 g4 run4] by (auto split: if_splits)
      then have "gw_stride (g_w g4) = gw_stride (g_w g)" using s1 by (simp add: g3_def)
      then show ?thesis
        using pump_collected [OF t1 [unfolded r1] l col [unfolded Inr] g3_def run2_def t4 f5, of fuel] finish_fields(2) [OF f5] Suc
        by (cases r4) auto
    qed
  qed
qed simp

subsection \<open>Over a backend that keeps its queue\<close>

definition launch_of :: "JobRun \<Rightarrow> InFlight \<Rightarrow> Launch" where
  "launch_of run l = \<lparr>la_algo = jr_algo run, la_header76 = take 76 (serialize (if_header l)), la_start = if_start l,
     la_count = if_count l, la_target = job_share_target (jr_job run)\<rparr>"

definition fifo_ok :: "(PowAlgo \<Rightarrow> bool) \<Rightarrow> ('b \<Rightarrow> bool) \<Rightarrow> ('b \<Rightarrow> u32 list list) \<Rightarrow> (Launch \<Rightarrow> u32 list) \<Rightarrow> ('b, 'c) Gpu \<Rightarrow> JobRun \<Rightarrow> bool" where
  "fifo_ok runs ok contents kern g run \<longleftrightarrow>
     runs (jr_algo run) \<and> ok (g_b g) \<and> contents (g_b g) = map (\<lambda>l. kern (launch_of run l)) (jr_inflight run) \<and>
     (jr_ending run = Some Exhausted \<longrightarrow> \<not> en2_fits (fst (gw_cursor (g_w g))) (job_extranonce2_size (jr_job run))) \<and>
     jr_ending run \<noteq> Some DeviceGone \<and> jr_depth run \<le> QUEUE_DEPTH"

definition own_scan :: "(Launch \<Rightarrow> u32 list) \<Rightarrow> JobRun \<Rightarrow> InFlight \<times> Scan \<Rightarrow> bool" where
  "own_scan kern run = (\<lambda>(l, scan). \<exists>busy. scan = scan_of (kern (launch_of run l)) busy)"

lemma eh_header76_en2_header: "eh_header76 (en2_header cr job e) = take 76 (serialize (eh_header (en2_header cr job e)))"
  by (simp add: en2_header_def Let_def)

lemma launch_of_cong: "same_run run run' \<Longrightarrow> launch_of run' = launch_of run"
  using same_run_fields by (fastforce simp: launch_of_def)

lemma own_scan_cong: "same_run run run' \<Longrightarrow> own_scan kern run' = own_scan kern run"
  by (simp add: own_scan_def launch_of_cong)

context fifo_backend
begin

lemma queue_one_fifo:
  assumes "queue_one ge g run = (r, g', run')" and "ge_be ge = be" and "run_ok (ge_crates ge) N c0 pre g run"
    and "en2_fits (fst (gw_cursor (g_w g))) (job_extranonce2_size (jr_job run))"
    and "length (jr_inflight run) < jr_depth run" and "jr_ending run = None" and "fifo_ok runs inv contents kern g run"
  shows "r = Inr () \<and> fifo_ok runs inv contents kern g' run'"
proof -
  obtain e0 n0 where cur0: "gw_cursor (g_w g) = (e0, n0)" by fastforce
  have hd: "h = en2_header (ge_crates ge) (jr_job run) en2"
    if "h = (case jr_header run of Some h \<Rightarrow> if eh_en2 h \<noteq> en2 then en2_header (ge_crates ge) (jr_job run) en2 else h
          | None \<Rightarrow> en2_header (ge_crates ge) (jr_job run) en2)" for h en2
    using assms(3) that by (auto simp: run_ok_def split: option.splits)
  have c0: "c \<noteq> 0"
    if "Cursor_take (gw_cursor (g_w g)) mx (gw_stride (g_w g)) = ((en2, n, c), cur)" for mx en2 n c cur
    using Cursor_take_fits(1) that cur0 by metis
  have len: "length (contents (g_b g)) < QUEUE_DEPTH" and inv: "inv (g_b g)" and "runs (jr_algo run)"
    using assms(5,7) by (simp_all add: fifo_ok_def)
  from assms(1) show ?thesis
  proof (cases rule: queue_one_cases)
    case (queued en2 n c cur h b)
    note h = hd [OF queued(2)]
    from enqueue_ok [OF inv _ _ len, of "\<lparr>la_algo = jr_algo run, la_header76 = eh_header76 h, la_start = n, la_count = c,
        la_target = job_share_target (jr_job run)\<rparr>"] c0 [OF queued(1)] queued(3) assms(2) \<open>runs (jr_algo run)\<close>
    have b: "inv b" "contents b = contents (g_b g) @ [kern \<lparr>la_algo = jr_algo run, la_header76 = eh_header76 h, la_start = n,
        la_count = c, la_target = job_share_target (jr_job run)\<rparr>]" by auto
    have lo: "launch_of (run\<lparr>jr_header := x, jr_inflight := y\<rparr>) = launch_of run" for x y
      by (simp add: launch_of_def fun_eq_iff)
    show ?thesis using queued(4-6) b assms(6,7) h
      by (simp add: fifo_ok_def lo) (simp add: launch_of_def eh_header76_en2_header)
  next
    case (failed en2 n c cur h b e)
    from enqueue_ok [OF inv _ _ len, of "\<lparr>la_algo = jr_algo run, la_header76 = eh_header76 h, la_start = n, la_count = c,
        la_target = job_share_target (jr_job run)\<rparr>"] c0 [OF failed(1)] failed(3) assms(2) \<open>runs (jr_algo run)\<close>
    show ?thesis by auto
  qed
qed

lemma top_up_fifo:
  assumes "top_up ge g run = (r, g', run')" and "ge_be ge = be" and "run_ok (ge_crates ge) N c0 pre g run"
    and "fifo_ok runs inv contents kern g run"
  shows "r = Inr () \<and> fifo_ok runs inv contents kern g' run'"
  using assms
proof (induction ge g run arbitrary: r g' run' rule: top_up.induct)
  case (1 ge g run)
  let ?g = "step ge g"
  have lo: "launch_of (run\<lparr>jr_ending := x\<rparr>) = launch_of run" for x by (simp add: launch_of_def fun_eq_iff)
  have ok: "run_ok (ge_crates ge) N c0 pre ?g run" "fifo_ok runs inv contents kern ?g run"
    using 1(4,5) by (simp_all add: fifo_ok_def)
  show ?case
  proof (cases "jr_ending run = None \<and> length (jr_inflight run) < jr_depth run \<and>
      \<not> (sh_generation (g_s ?g) \<noteq> jr_generation run \<or> tu_switch_to (gw_tune (g_w ?g)) \<noteq> None) \<and>
      en2_fits (fst (gw_cursor (g_w ?g))) (job_extranonce2_size (jr_job run))")
    case False
    then show ?thesis
      using 1(2,5) ok(2) by (subst (asm) top_up.simps) (auto simp: Let_def fifo_ok_def lo split: if_splits)
  next
    case True
    obtain r1 g1 run1 where q: "queue_one ge ?g run = (r1, g1, run1)" by (metis surj_pair)
    have f: "r1 = Inr ()" "fifo_ok runs inv contents kern g1 run1"
      using queue_one_fifo [OF q 1(3) ok(1) _ _ _ ok(2)] True by simp_all
    have "run_ok (ge_crates ge) N c0 pre g1 run1" using queue_one_ok(1) [OF q ok(1)] True by simp
    moreover have "top_up ge g1 run1 = (r, g', run')" using 1(2) True q f by (subst (asm) top_up.simps) (simp add: Let_def)
    ultimately show ?thesis using 1(1) [OF _ refl _ _ q [symmetric] f(1) refl] 1(3) f(2) True by blast
  qed
qed

lemma pump_fifo:
  assumes "pump ge fuel g run = Some (ended, g', run')" and "ge_be ge = be"
    and "run_ok (ge_crates ge) N c0 (map fst (g_finished g)) g run" and "fifo_ok runs inv contents kern g run"
  shows "ended \<noteq> DeviceGone \<and> (ended = Exhausted \<longrightarrow> \<not> en2_fits (fst (gw_cursor (g_w g'))) (job_extranonce2_size (jr_job run))) \<and>
    (\<exists>new. g_finished g' = g_finished g @ new \<and> (\<forall>x\<in>set new. own_scan kern run x)) \<and> fifo_ok runs inv contents kern g' run'"
  using assms(1,3,4)
proof (induction fuel arbitrary: g run)
  case 0
  then show ?case by simp
next
  case (Suc fuel)
  obtain r1 g1 run1 where t1: "top_up ge g run = (r1, g1, run1)" by (metis surj_pair)
  note k1 = top_up_ok [OF t1 Suc.prems(2)]
  have f1: "r1 = Inr ()" "fifo_ok runs inv contents kern g1 run1"
    using top_up_fifo [OF t1 assms(2) Suc.prems(2,3)] by simp_all
  have sr: "same_run run run1" using k1 by simp
  show ?case
  proof (cases "jr_inflight run1")
    case Nil
    then have "ended = (case jr_ending run1 of Some e \<Rightarrow> e | None \<Rightarrow> Changed) \<and> g' = g1 \<and> run' = run1"
      using Suc.prems(1) t1 f1 by (auto simp: pump.simps(2))
    then show ?thesis using f1 k1 same_run_fields(1) [OF sr] by (auto simp: fifo_ok_def split: option.splits)
  next
    case (Cons l rest)
    have "contents (g_b g1) = kern (launch_of run1 l) # map (\<lambda>l. kern (launch_of run1 l)) rest"
      using f1(2) Cons by (simp add: fifo_ok_def)
    with collect_ok [of "g_b g1"] f1(2) obtain b busy where
      c: "be_collect (ge_be ge) (g_b g1) = (Inr (scan_of (kern (launch_of run1 l)) busy), b)" "inv b"
      "contents b = map (\<lambda>l. kern (launch_of run1 l)) rest" unfolding fifo_ok_def assms(2) by metis
    define run2 where "run2 = run1\<lparr>jr_inflight := rest\<rparr>"
    define g3 where "g3 = (step ge (g1\<lparr>g_b := b\<rparr>))\<lparr>g_w := (g_w g1)\<lparr>gw_errors := 0\<rparr>\<rparr>"
    have lo: "launch_of run2 = launch_of run1" by (simp add: launch_of_def run2_def fun_eq_iff)
    obtain r4 g4 run4 where
      t4: "(if 1 < jr_depth run1 then top_up ge g3 run2 else (Inr (), g3, run2)) = (r4, g4, run4)" by (metis surj_pair)
    obtain elapsed g5 where f5: "finish ge run4 l (scan_of (kern (launch_of run1 l)) busy) g4 = (elapsed, g5)" by fastforce
    note p = pump_collected [OF t1 [unfolded f1(1)] Cons c(1) g3_def run2_def t4 f5, of fuel] and ff = finish_fields [OF f5]
    have ok3: "run_ok (ge_crates ge) N c0 (map fst (g_finished g) @ [l]) g3 run2"
      using k1 Cons by (simp add: run_ok_def g3_def run2_def)
    have fi3: "fifo_ok runs inv contents kern g3 run2"
      using f1(2) c(2,3) lo by (simp add: fifo_ok_def g3_def run2_def)
    have k4: "r4 = Inr ()" "run_ok (ge_crates ge) N c0 (map fst (g_finished g) @ [l]) g4 run4" "g_finished g4 = g_finished g"
      "same_run run2 run4" "fifo_ok runs inv contents kern g4 run4"
      using t4 ok3 fi3 top_up_ok [of ge g3 run2 r4 g4 run4, OF _ ok3] top_up_fifo [of ge g3 run2 r4 g4 run4, OF _ assms(2) ok3 fi3] k1
      by (auto simp: g3_def split: if_splits)
    let ?g6 = "report_hashing ge l elapsed g5"
    have sr4: "same_run run run4" using same_run_trans [OF sr, of run4] k4(4) by (simp add: run2_def same_run_def)
    have ok6: "run_ok (ge_crates ge) N c0 (map fst (g_finished ?g6)) ?g6 run4" using k4 ff by (simp add: run_ok_def)
    have fi6: "fifo_ok runs inv contents kern ?g6 run4" using k4(5) ff by (simp add: fifo_ok_def)
    have "pump ge fuel ?g6 run4 = Some (ended, g', run')" using Suc.prems(1) p k4(1) by simp
    from Suc.IH [OF this ok6 fi6] obtain new where
      n: "ended \<noteq> DeviceGone" "ended = Exhausted \<longrightarrow> \<not> en2_fits (fst (gw_cursor (g_w g'))) (job_extranonce2_size (jr_job run))"
      "g_finished g' = g_finished g5 @ new" "\<forall>x\<in>set new. own_scan kern run x" "fifo_ok runs inv contents kern g' run'"
      using own_scan_cong [OF sr4] same_run_fields(1) [OF sr4] by auto
    moreover have "own_scan kern run (l, scan_of (kern (launch_of run1 l)) busy)"
      using launch_of_cong [OF sr] by (auto simp: own_scan_def)
    ultimately show ?thesis using ff(3) k4(3) by auto
  qed
qed

end

subsection \<open>A job\<close>

lemma job_worker_fields:
  "gw_cursor (job_worker ge job algo g) =
     start_on (gw_prev (g_w g)) job (gw_worker_index (g_w g)) (fst (gw_cursor (g_w g))) (snd (gw_cursor (g_w g)))"
  "gw_stride (job_worker ge job algo g) = gw_stride (g_w g)"
  by (simp_all add: job_worker_def Let_def start_on_def)

lemma job_run_fields [simp]:
  "jr_job (job_run ge job gen algo verify g) = job" "jr_inflight (job_run ge job gen algo verify g) = []"
  "jr_ending (job_run ge job gen algo verify g) = None" "jr_header (job_run ge job gen algo verify g) = None"
  "jr_depth (job_run ge job gen algo verify g) = gpu_queue (g_s g)" "jr_verify (job_run ge job gen algo verify g) = verify"
  by (simp_all add: job_run_def Let_def)

lemma run_ok_job:
  assumes "g_finished g = []" and "c0 = gw_cursor (job_worker ge job algo g)"
  shows "run_ok cr N c0 (map fst (g_finished (g\<lparr>g_w := job_worker ge job algo g\<rparr>)))
    (g\<lparr>g_w := job_worker ge job algo g\<rparr>) (job_run ge job gen algo verify g)"
  using assms by (simp add: run_ok_def job_worker_fields)

lemma gpu_queue_bounds: "1 \<le> gpu_queue s \<and> gpu_queue s \<le> QUEUE_DEPTH"
  by (simp add: gpu_queue_def QUEUE_DEPTH_def clamp_def)

lemma gpu_mine_job_launches:
  assumes "gpu_mine_job ge fuel job gen algo verify g = Some (ended, g')" and "g_finished g = []"
  shows "\<forall>(l, scan)\<in>set (g_finished g'). launch_ok (ge_crates ge) job l \<and> unat (if_start l) + unat (if_count l) \<le> 2 ^ 32"
proof -
  let ?g0 = "g\<lparr>g_w := job_worker ge job algo g\<rparr>" and ?run0 = "job_run ge job gen algo verify g"
  obtain g1 run1 where p: "pump ge fuel ?g0 ?run0 = Some (ended, g1, run1)" and g': "g' = g1\<lparr>g_w := (g_w g1)\<lparr>gw_prev := Some job\<rparr>\<rparr>"
    using assms(1) by (auto simp: gpu_mine_job_def split: option.splits)
  from pump_ok [OF p run_ok_job [OF assms(2) refl, where N = 0 and cr = "ge_crates ge"]] obtain lost where
    l: "run_ok (ge_crates ge) 0 (gw_cursor (job_worker ge job algo g)) (map fst (g_finished g1) @ lost) g1 run1" "same_run ?run0 run1" by blast
  have "jr_job run1 = job" using same_run_fields(1) [OF l(2)] by simp
  with l(1) show ?thesis by (auto simp: run_ok_def g' image_Un ball_Un split_def)
qed

lemma gpu_mine_job_tiles:
  assumes "gpu_mine_job ge fuel job gen algo verify g = Some (ended, g')"
    and "job_extranonce2_size job < 8" and "0 < N" and "N < 2 ^ 63" and "gw_stride (g_w g) = word_of_nat N"
    and "g_finished g = []"
  shows "\<exists>lost. tiles N (start_on (gw_prev (g_w g)) job (gw_worker_index (g_w g)) (fst (gw_cursor (g_w g))) (snd (gw_cursor (g_w g))))
      (map chunk_in_flight (map fst (g_finished g') @ lost)) (gw_cursor (g_w g')) \<and>
    length lost \<le> 1 \<and> (ended \<noteq> DeviceGone \<longrightarrow> lost = []) \<and>
    (\<forall>(l, scan)\<in>set (g_finished g'). launch_ok (ge_crates ge) job l) \<and> gw_prev (g_w g') = Some job"
proof -
  let ?g0 = "g\<lparr>g_w := job_worker ge job algo g\<rparr>" and ?run0 = "job_run ge job gen algo verify g"
  let ?c0 = "gw_cursor (job_worker ge job algo g)"
  obtain g1 run1 where p: "pump ge fuel ?g0 ?run0 = Some (ended, g1, run1)" and g': "g' = g1\<lparr>g_w := (g_w g1)\<lparr>gw_prev := Some job\<rparr>\<rparr>"
    using assms(1) by (auto simp: gpu_mine_job_def split: option.splits)
  have room: "job_room job N" using assms(2-4) by (simp add: job_room_def)
  from pump_ok [OF p run_ok_job [OF assms(6) refl]] obtain lost where
    l: "run_ok (ge_crates ge) N ?c0 (map fst (g_finished g1) @ lost) g1 run1" "jr_inflight run1 = []" "length lost \<le> 1"
    "lost \<noteq> [] \<longrightarrow> ended = DeviceGone" "same_run ?run0 run1" by blast
  have st: "gw_stride (g_w g1) = word_of_nat N" using pump_stride [OF p] assms(5) by (simp add: job_worker_fields)
  have "jr_job run1 = job" using same_run_fields(1) [OF l(5)] by simp
  moreover from this l(1) have "\<forall>(l, scan)\<in>set (g_finished g'). launch_ok (ge_crates ge) job l"
    by (auto simp: run_ok_def g' image_Un ball_Un split_def)
  ultimately show ?thesis using l room st by (intro exI [of _ lost]) (simp add: run_ok_def g' job_worker_fields, blast)
qed

subsection \<open>The batch size\<close>

definition batch_ok :: "u32 \<Rightarrow> u32 \<Rightarrow> u32 \<Rightarrow> u32 \<Rightarrow> bool" where
  "batch_ok granule lo hi batch \<longleftrightarrow> unat granule dvd unat batch \<and> lo \<le> batch \<and> batch \<le> hi \<and> 0 < batch"

lemma unat_whole_waves: "0 < (granule :: u32) \<Longrightarrow> unat (x div granule * granule) = unat x div unat granule * unat granule"
proof -
  have "unat x div unat granule * unat granule < 2 ^ 32"
    using unsigned_less [of x, where 'a = nat] by (intro le_less_trans [OF div_times_less_eq_dividend]) simp
  then show ?thesis by (subst unat_mul_no_overflow) (simp_all add: unat_div)
qed

text \<open>Rounding down to whole waves keeps what is at least one wave within the bounds, and the lower bound is whole waves.\<close>

lemma whole_waves:
  fixes granule x y :: u32
  assumes "0 < granule" and "granule \<le> x"
  shows "unat granule dvd unat (x div granule * granule)" and "x div granule * granule \<le> x"
    and "0 < x div granule * granule" and "max (x div granule) 1 = x div granule"
    and "unat granule dvd unat y \<Longrightarrow> y \<le> x \<Longrightarrow> y \<le> x div granule * granule"
proof -
  have g: "0 < unat granule" "unat granule \<le> unat x" using assms by (simp_all add: word_less_nat_alt word_le_nat_alt)
  note u = unat_whole_waves [OF assms(1), of x]
  show "unat granule dvd unat (x div granule * granule)" by (simp add: u)
  show "x div granule * granule \<le> x" by (simp add: word_le_nat_alt u)
  have "0 < unat x div unat granule" using g by (simp add: div_greater_zero_iff)
  then show "0 < x div granule * granule" using g by (simp add: word_less_nat_alt u)
  have "1 \<le> x div granule" using \<open>0 < unat x div unat granule\<close> by (simp add: word_le_nat_alt unat_div)
  then show "max (x div granule) 1 = x div granule" by (simp add: max_def)
  assume "unat granule dvd unat y" and "y \<le> x"
  then obtain k where k: "unat y = k * unat granule" and "k * unat granule \<le> unat x"
    by (auto simp: word_le_nat_alt dvd_def mult.commute)
  then have "k \<le> unat x div unat granule" using g(1) by (simp add: less_eq_div_iff_mult_less_eq)
  then show "y \<le> x div granule * granule" using k by (simp add: word_le_nat_alt u)
qed

lemma min_batch_ok:
  assumes "0 < granule"
  shows "batch_ok granule (min_batch_of granule) (max_batch_of granule) (min_batch_of granule)" and "granule \<le> min_batch_of granule"
proof -
  let ?x = "max BC3_MIN_BATCH granule"
  note w = whole_waves [OF assms, of ?x]
  show "batch_ok granule (min_batch_of granule) (max_batch_of granule) (min_batch_of granule)"
    using w by (simp add: batch_ok_def min_batch_of_def max_batch_of_def)
  show "granule \<le> min_batch_of granule" using w(5) [of granule] by (simp add: min_batch_of_def)
qed

lemma clamp_whole_waves:
  assumes "0 < granule" and "batch_ok granule lo hi lo" and "granule \<le> lo" and "lo \<le> x" and "x \<le> hi"
  shows "batch_ok granule lo hi (max (x div granule) 1 * granule)"
proof -
  have "granule \<le> x" using assms(3,4) by simp
  note w = whole_waves [OF assms(1) this]
  show ?thesis using w(1-4) w(5) [of lo] assms by (auto simp: batch_ok_def intro: order_trans)
qed

subsection \<open>What failures cost\<close>

text \<open>
  The job's last launches in flight, the extranonce2 space taken to its end: one failure to
  collect and the loop ends as exhausted, the launches given up and none of them finished.
\<close>

lemma top_up_ended: "jr_ending run = Some e \<Longrightarrow> top_up ge g run = (Inr (), g, run)"
  by (subst top_up.simps) simp

lemma exhausted_gives_up_failed_launches:
  assumes "jr_ending run = Some Exhausted" and "jr_inflight run = l # rest"
    and "be_collect (ge_be ge) (g_b g) = (Inl e, b)" and "\<not> MAX_SCAN_ERRORS \<le> gw_errors (g_w g) + 1"
  shows "\<exists>g' run'. pump ge (Suc (Suc fuel)) g run = Some (Exhausted, g', run') \<and>
    gw_cursor (g_w g') = (if_en2 l, if_start l) \<and> g_finished g' = g_finished g"
proof -
  obtain r3 g3 run3 where d: "device_error ge e (if_en2 l, if_start l) (step ge (g\<lparr>g_b := b\<rparr>))
      (run\<lparr>jr_inflight := rest\<rparr>) = (r3, g3, run3)" by (metis surj_pair)
  have "r3 = Inr ()" using d assms(4) by (auto simp: device_error_def Let_def)
  with pump_failed [OF top_up_ended [OF assms(1)] assms(2,3) d, of "Suc fuel"]
  have "pump ge (Suc (Suc fuel)) g run = pump ge (Suc fuel) g3 run3" by simp
  moreover have "pump ge (Suc fuel) g3 run3 = Some (Exhausted, g3, run3)"
    using top_up_ended [of run3 Exhausted ge g3] device_error_fields(3) [OF d] assms(1) by (simp add: pump.simps(2))
  ultimately show ?thesis using device_error_fields(1,4) [OF d] by simp
qed

text \<open>
  A launch that was collected and the device gone while the next ones are queued: the loop ends
  with the cursor past the launch, which is never finished.
\<close>

lemma gone_after_collect_loses_launch:
  assumes "top_up ge g run = (Inr (), g1, run1)" and "jr_inflight run1 = l # rest"
    and "be_collect (ge_be ge) (g_b g1) = (Inr scan, b)" and "1 < jr_depth run1"
    and "top_up ge ((step ge (g1\<lparr>g_b := b\<rparr>))\<lparr>g_w := (g_w g1)\<lparr>gw_errors := 0\<rparr>\<rparr>) (run1\<lparr>jr_inflight := rest\<rparr>) =
      (Inl gone, g4, run4)"
    and "run_ok (ge_crates ge) N c0 (map fst (g_finished g)) g run" and "job_room (jr_job run) N" and "gw_stride (g_w g) = word_of_nat N"
  shows "pump ge (Suc fuel) g run = Some (gone, g4, run4) \<and> g_finished g4 = g_finished g \<and>
    tiles N c0 (map chunk_in_flight (map fst (g_finished g4) @ [l])) (gw_cursor (g_w g4))"
proof -
  obtain elapsed g5 where f5: "finish ge run4 l scan g4 = (elapsed, g5)" by fastforce
  have p: "pump ge (Suc fuel) g run = Some (gone, g4, run4)"
    using pump_collected [OF assms(1-3) refl refl _ f5, of "Inl gone" fuel] assms(4,5) by simp
  note k1 = top_up_ok [OF assms(1,6)]
  let ?g3 = "(step ge (g1\<lparr>g_b := b\<rparr>))\<lparr>g_w := (g_w g1)\<lparr>gw_errors := 0\<rparr>\<rparr>"
  have "run_ok (ge_crates ge) N c0 (map fst (g_finished g) @ [l]) ?g3 (run1\<lparr>jr_inflight := rest\<rparr>)"
    using k1 assms(2) by (simp add: run_ok_def)
  from top_up_ok [OF assms(5) this] k1
  have "run_ok (ge_crates ge) N c0 (map fst (g_finished g) @ [l]) g4 run4" "jr_inflight run4 = []" "g_finished g4 = g_finished g"
    "same_run (run1\<lparr>jr_inflight := rest\<rparr>) run4"
    by simp_all
  moreover have "jr_job run4 = jr_job run" using same_run_fields(1) [of run run1] same_run_fields(1) [OF calculation(4)] k1 by simp
  moreover have "gw_stride (g_w g4) = word_of_nat N" using top_up_stride [OF assms(1)] top_up_stride [OF assms(5)] assms(8) by simp
  ultimately show ?thesis using p assms(7) by (simp add: run_ok_def)
qed

lemma gpu_mine_job_returns:
  assumes "job_extranonce2_size job < 8" and "0 < N" and "N < 2 ^ 63" and "gw_stride (g_w g) = word_of_nat N"
    and "g_finished g = []"
    and "c0 = start_on (gw_prev (g_w g)) job (gw_worker_index (g_w g)) (fst (gw_cursor (g_w g))) (snd (gw_cursor (g_w g)))"
    and "7 * nonces_left job (fst c0) (snd c0) + 6 < fuel"
  shows "\<exists>r. gpu_mine_job ge fuel job gen algo verify g = Some r"
proof -
  let ?g0 = "g\<lparr>g_w := job_worker ge job algo g\<rparr>" and ?run0 = "job_run ge job gen algo verify g"
  have room: "job_room job N" using assms(1-3) by (simp add: job_room_def)
  note ok = run_ok_job [OF assms(5) refl]
  have "restart_of ?g0 ?run0 = c0" by (simp add: restart_of_def job_worker_fields assms(6))
  then have "pump_left ?g0 ?run0 < fuel"
    using assms(7) errors_left_le [of "gw_errors (g_w ?g0)"] by (simp add: pump_left_def)
  from pump_returns [OF ok this, of N] room assms(4) show ?thesis by (auto simp: job_worker_fields gpu_mine_job_def split: option.splits)
qed

context fifo_backend
begin

lemma gpu_mine_job_fifo:
  assumes "gpu_mine_job ge fuel job gen algo verify g = Some (ended, g')" and "ge_be ge = be"
    and "g_finished g = []" and "runs algo" and "inv (g_b g)" and "contents (g_b g) = []"
  shows "ended \<noteq> DeviceGone \<and>
    (ended = Exhausted \<longrightarrow> \<not> en2_fits (fst (gw_cursor (g_w g'))) (job_extranonce2_size job)) \<and>
    (\<forall>(l, scan)\<in>set (g_finished g'). \<exists>busy. scan = scan_of (kern \<lparr>la_algo = algo, la_header76 = take 76 (serialize (if_header l)),
       la_start = if_start l, la_count = if_count l, la_target = job_share_target job\<rparr>) busy) \<and>
    inv (g_b g') \<and> contents (g_b g') = []"
proof -
  let ?g0 = "g\<lparr>g_w := job_worker ge job algo g\<rparr>" and ?run0 = "job_run ge job gen algo verify g"
  obtain g1 run1 where p: "pump ge fuel ?g0 ?run0 = Some (ended, g1, run1)" and g': "g' = g1\<lparr>g_w := (g_w g1)\<lparr>gw_prev := Some job\<rparr>\<rparr>"
    using assms(1) by (auto simp: gpu_mine_job_def split: option.splits)
  note ok = run_ok_job [OF assms(3) refl, where cr = "ge_crates ge" and ge = ge and algo = algo and job = job and gen = gen and verify = verify]
  have algo: "jr_algo ?run0 = algo" by (simp add: job_run_def Let_def)
  then have "fifo_ok runs inv contents kern ?g0 ?run0"
    using assms(4-6) gpu_queue_bounds [of "g_s g"] by (simp add: fifo_ok_def)
  from pump_fifo [OF p assms(2) ok this] have f: "ended \<noteq> DeviceGone"
    "ended = Exhausted \<longrightarrow> \<not> en2_fits (fst (gw_cursor (g_w g1))) (job_extranonce2_size job)"
    "\<forall>x\<in>set (g_finished g1). own_scan kern ?run0 x" "fifo_ok runs inv contents kern g1 run1"
    using assms(3) by auto
  have "jr_inflight run1 = []" using pump_ok [OF p ok] by blast
  then have "inv (g_b g1)" "contents (g_b g1) = []" using f(4) by (auto simp: fifo_ok_def)
  with f algo show ?thesis by (auto simp: g' own_scan_def launch_of_def)
qed

end

subsection \<open>Reopening a lost device\<close>

lemma prepare_bc3_reopens [simp]: "gm_reopens (fst (prepare_bc3 ge now slot want m b s)) = gm_reopens m"
  by (simp add: prepare_bc3_def Let_def split_def split: option.splits sum.splits prod.splits)

lemma ready_kernel_reopens [simp]: "gm_reopens (snd (ready_kernel ge job (g, m))) = gm_reopens m"
  using prepare_bc3_reopens
  by (simp add: ready_kernel_def Let_def split_def)

lemma mine_turn_reopens: "mine_turn ge fuel (g, m) = Some (e, g', m') \<Longrightarrow> gm_reopens m' = gm_reopens m"
  using ready_kernel_reopens by (auto simp: mine_turn_def Let_def split_def split: option.splits)

text \<open>A turn that ended with the device gone, and one in which launches came back.\<close>

fun gone_turn :: "turn_end \<Rightarrow> bool" where
  "gone_turn (Mined _ _ DeviceGone _) \<longleftrightarrow> True"
| "gone_turn _ \<longleftrightarrow> False"

fun came_back :: "turn_end \<Rightarrow> bool" where
  "came_back (Mined _ _ _ b) \<longleftrightarrow> b"
| "came_back _ \<longleftrightarrow> False"

definition spend :: "turn_end \<Rightarrow> nat \<Rightarrow> nat" where
  "spend e k = (if came_back e then 0 else k) + (if gone_turn e then 1 else 0)"

lemma reopen_device_budget:
  assumes "gm_reopens m = of_nat k" and "k \<le> 5"
  shows "case reopen_device ge dev open_at (g, m) of
      Goes_on (g', m') \<Rightarrow> gm_reopens m' = of_nat (Suc k) \<and> Suc k \<le> 5
    | Stops _ \<Rightarrow> Suc k = 6 \<or> (\<exists>e out tick. open_at tick = (Inl e, out))"
proof -
  obtain r out where o: "open_at (Suc (g_tick g)) = (r, out)" by fastforce
  have s: "gm_reopens m + 1 = of_nat (Suc k)" by (simp add: assms(1))
  have "unat (of_nat (Suc k) :: u32) = Suc k" using assms(2) by (simp add: unsigned_of_nat take_bit_eq_mod del: of_nat_Suc)
  then have "MAX_REOPENS < gm_reopens m + 1 \<longleftrightarrow> k = 5"
    unfolding s using assms(2) by (auto simp: MAX_REOPENS_def word_less_nat_alt simp del: of_nat_Suc)
  then show ?thesis using o s assms(2)
    by (cases r) (auto simp: reopen_device_def Let_def split_def g_print_def step_def simp del: of_nat_Suc)
qed

lemma run_gpu_turn_budget:
  assumes "run_gpu_turn ge dev open_at fuel (g, m) = Some (e, r)" and "gm_reopens m = of_nat k" and "k \<le> 5"
  shows "case r of
      Goes_on (g', m') \<Rightarrow> gm_reopens m' = of_nat (spend e k) \<and> spend e k \<le> 5
    | Stops _ \<Rightarrow> gone_turn e \<and> (spend e k = 6 \<or> (\<exists>e out tick. open_at tick = (Inl e, out)))"
proof -
  obtain g1 m1 where t: "mine_turn ge fuel (g, m) = Some (e, g1, m1)" using assms(1) by (auto simp: run_gpu_turn_def)
  have m1: "gm_reopens m1 = of_nat k" using mine_turn_reopens [OF t] assms(2) by simp
  show ?thesis
  proof (cases e)
    case (Sat_out n)
    then show ?thesis using assms(1,3) t m1 by (auto simp: run_gpu_turn_def spend_def)
  next
    case (Mined n job how got)
    define m2 where "m2 = (if got then m1\<lparr>gm_reopens := 0\<rparr> else m1)"
    define j where "j = (if got then 0 else k)"
    have j: "gm_reopens m2 = of_nat j" "j \<le> 5" using m1 assms(3) by (simp_all add: m2_def j_def)
    show ?thesis
    proof (cases how)
      case DeviceGone
      then have "r = reopen_device ge dev open_at (g1, m2)" and "spend e k = Suc j"
        using assms(1) t Mined by (simp_all add: run_gpu_turn_def m2_def j_def spend_def Let_def)
      then show ?thesis using reopen_device_budget [OF j, where ge = ge and dev = dev and open_at = open_at and g = g1] Mined DeviceGone by (auto split: turn.splits)
    qed (use assms(1) t Mined j in \<open>auto simp: run_gpu_turn_def spend_def Let_def m2_def [symmetric] j_def [symmetric]\<close>)
  qed
qed

fun spent :: "nat \<Rightarrow> turn_end list \<Rightarrow> nat" where
  "spent k [] = k"
| "spent k (e # es) = spent (spend e k) es"

lemma spent_append: "spent k (es @ fs) = spent (spent k es) fs"
  by (induction es arbitrary: k) simp_all

lemma spent_quiet: "\<forall>e\<in>set es. \<not> came_back e \<Longrightarrow> spent k es = k + length (filter gone_turn es)"
  by (induction es arbitrary: k) (simp_all add: spend_def)

text \<open>Turns after whose first no launch came back.\<close>

definition no_launch_after :: "turn_end list \<Rightarrow> bool" where
  "no_launch_after es \<longleftrightarrow> (\<forall>e\<in>set (tl es). \<not> came_back e)"

lemma spent_streak: "no_launch_after es \<Longrightarrow> length (filter gone_turn es) \<le> spent k es"
  by (cases es) (simp_all add: no_launch_after_def spent_quiet spend_def)

lemma spent_back: "\<exists>pre es'. es = pre @ es' \<and> no_launch_after es' \<and> length (filter gone_turn es') = spent 0 es"
proof (cases "\<exists>e\<in>set es. came_back e")
  case True
  then obtain pre e post where es: "es = pre @ e # post" "came_back e" "\<forall>x\<in>set post. \<not> came_back x"
    using split_list_last_prop by metis
  then have "spent 0 es = length (filter gone_turn (e # post))" by (simp add: spent_append spent_quiet spend_def)
  then show ?thesis using es by (intro exI [of _ pre] exI [of _ "e # post"]) (simp add: no_launch_after_def)
next
  case False
  then have "no_launch_after es" by (cases es) (simp_all add: no_launch_after_def)
  moreover have "spent 0 es = length (filter gone_turn es)" using False by (simp add: spent_quiet)
  ultimately show ?thesis by (intro exI [of _ "[]"] exI [of _ es]) simp
qed

lemma run_gpu_turns_budget:
  assumes "run_gpu_turns ge dev open_at fuel others (g, m) = (es, r)" and "gm_reopens m = of_nat k" and "k \<le> 5"
  shows "(\<forall>p q. es = p @ q \<and> (q \<noteq> [] \<or> (\<exists>st. r = Goes_on st)) \<longrightarrow> spent k p \<le> 5) \<and>
    (\<forall>st. r = Stops st \<longrightarrow> es \<noteq> [] \<and> gone_turn (last es) \<and> (spent k es = 6 \<or> (\<exists>e out tick. open_at tick = (Inl e, out))))"
  using assms
proof (induction others arbitrary: g m es r k)
  case Nil
  then show ?case by auto
next
  case (Cons other others)
  let ?g = "g\<lparr>g_s := other (g_s g)\<rparr>"
  show ?case
  proof (cases "run_gpu_turn ge dev open_at fuel (?g, m)")
    case None
    then show ?thesis using Cons.prems by auto
  next
    case (Some x)
    obtain e r1 where t: "run_gpu_turn ge dev open_at fuel (?g, m) = Some (e, r1)" using Some by (cases x) auto
    note b = run_gpu_turn_budget [OF t Cons.prems(2,3)]
    show ?thesis
    proof (cases r1)
      case (Stops st)
      then have "es = [e]" "r = Stops st" using Cons.prems(1) t by simp_all
      then show ?thesis using b Stops Cons.prems(3) by (auto simp: append_eq_Cons_conv Cons_eq_append_conv)
    next
      case (Goes_on st)
      obtain g1 m1 where st: "st = (g1, m1)" by (cases st)
      obtain es1 where es: "es = e # es1" "run_gpu_turns ge dev open_at fuel others (g1, m1) = (es1, r)"
        using Cons.prems(1) t Goes_on st by (auto split: prod.splits)
      have m1: "gm_reopens m1 = of_nat (spend e k)" "spend e k \<le> 5" using b Goes_on st by auto
      from Cons.IH [OF es(2) m1] show ?thesis using es(1) Cons.prems(3) m1(2)
        by (auto simp: Cons_eq_append_conv)
    qed
  qed
qed

lemma run_gpu_start_reopens: "run_gpu_start ge dev open_at slot i n fs s = Inr (g, m) \<Longrightarrow> gm_reopens m = 0"
  by (auto simp: run_gpu_start_def Let_def split_def split: sum.splits prod.splits)

text \<open>
  Reopened, the worker carries on with the new backend exactly where it stopped - same cursor, job and batch size - with
  the errors forgotten and the kernel to be tried again.
\<close>

lemma reopened_carries_on:
  assumes "reopen_device ge dev open_at (g, m) = Goes_on (g', m')"
  shows "fst (open_at (Suc (g_tick g))) = Inr (g_b g') \<and> gm_bc3_failed m' = None \<and>
    g_w g' = (g_w g)\<lparr>gw_errors := 0, gw_said_hashing := False, gw_last_collect := None\<rparr> \<and> g_finished g' = g_finished g"
  using assms
  by (auto simp: reopen_device_def Let_def split_def g_print_def step_def reopened_def split: if_splits sum.splits)

section \<open>Properties\<close>

text \<open>
  C5. Whatever the card does - launches that fail to queue or to come back, any order of failures,
  any autotuned batch size - when \<open>mine_job\<close> returns for another reason than a lost device, the
  launches it finished tile the worker's search space from where it started (where it stopped
  in a job of the same space, else nonce 0 of its own extranonce2) to its cursor: nothing
  skipped, nothing twice. When the device is gone, all but at most one launch that was already
  collected are accounted for the same way. Every launch finished had the header of its
  extranonce2.
\<close>

theorem gpu_search_tiles:
  assumes "gpu_mine_job ge fuel job gen algo verify g = Some (ended, g')"
    and "job_extranonce2_size job < 8" and "0 < N" and "N < 2 ^ 63" and "gw_stride (g_w g) = word_of_nat N"
    and "g_finished g = []"
  shows "\<exists>lost. tiles N (start_on (gw_prev (g_w g)) job (gw_worker_index (g_w g)) (fst (gw_cursor (g_w g))) (snd (gw_cursor (g_w g))))
      (map chunk_in_flight (map fst (g_finished g') @ lost)) (gw_cursor (g_w g')) \<and>
    length lost \<le> 1 \<and> (ended \<noteq> DeviceGone \<longrightarrow> lost = []) \<and>
    (\<forall>(l, scan)\<in>set (g_finished g'). launch_ok (ge_crates ge) job l) \<and> gw_prev (g_w g') = Some job"
  by (rule gpu_mine_job_tiles [OF assms])

definition demo_gpu_env :: "(GpuQueue, choices) GpuEnv" where
  "demo_gpu_env = \<lparr>ge_env = demo_env, ge_crates = demo_crates, ge_be = gpu_backend no_backend (\<lambda>l. [1, la_start l]) None,
     ge_clock = \<lambda>t. t, ge_interfere = \<lambda>_ s. s, ge_jit_empty = \<lambda>_. False, ge_version = [], ge_driver = None, ge_file = None,
     ge_tmp = [], ge_parse = Some, ge_print = \<lambda>m. m, ge_fs_fail = \<lambda>_. None, ge_partial = None\<rparr>"

definition demo_gpu :: "(GpuQueue, choices) Gpu" where
  "demo_gpu = \<lparr>g_w = GpuWorker_new demo_shared 0 1 4, g_b = gpu_queue_new, g_s = demo_shared, g_fs = Map.empty,
     g_tick = 0, g_finished = []\<rparr>"

lemma demo_gpu_fields:
  "gw_stride (g_w demo_gpu) = word_of_nat 4" "g_finished demo_gpu = []" "gw_prev (g_w demo_gpu) = None"
  "gw_worker_index (g_w demo_gpu) = 1" "job_extranonce2_size demo_job < 8" "g_b demo_gpu = gpu_queue_new"
  by (simp_all add: demo_gpu_def GpuWorker_new_def demo_job_def)

text \<open>
  C6. With an extranonce2 of less than 8 bytes \<open>mine_job\<close> returns on every card, working or
  failing, whatever the other threads do: after at most seven turns of the launch loop for every
  nonce left.
\<close>

theorem gpu_search_terminates:
  assumes "job_extranonce2_size job < 8" and "0 < N" and "N < 2 ^ 63" and "gw_stride (g_w g) = word_of_nat N"
    and "g_finished g = []"
    and "c0 = start_on (gw_prev (g_w g)) job (gw_worker_index (g_w g)) (fst (gw_cursor (g_w g))) (snd (gw_cursor (g_w g)))"
    and "7 * nonces_left job (fst c0) (snd c0) + 6 < fuel"
  shows "\<exists>r. gpu_mine_job ge fuel job gen algo verify g = Some r"
  using assms by (rule gpu_mine_job_returns)

theorem gpu_search_terminates_witness:
  "\<exists>r. gpu_mine_job demo_gpu_env (Suc (7 * nonces_left demo_job 1 0 + 6)) demo_job 0 Bc3Hash (\<lambda>_. replicate 32 0) demo_gpu = Some r"
  by (rule gpu_search_terminates [where N = 4, OF _ _ _ _ _ refl])
    (simp_all add: demo_gpu_fields start_on_def)

lemma demo_gpu_run:
  "\<exists>r. gpu_mine_job demo_gpu_env (Suc (7 * nonces_left demo_job 1 0 + 6)) demo_job 0 Bc3Hash (\<lambda>_. replicate 32 0) demo_gpu = Some r"
  by (rule gpu_mine_job_returns [where N = 4, OF _ _ _ _ _ refl])
    (simp_all add: demo_gpu_fields start_on_def)

theorem gpu_search_tiles_witness:
  "\<exists>ended g' lost. gpu_mine_job demo_gpu_env (Suc (7 * nonces_left demo_job 1 0 + 6)) demo_job 0 Bc3Hash (\<lambda>_. replicate 32 0) demo_gpu =
     Some (ended, g') \<and> tiles 4 (1, 0) (map chunk_in_flight (map fst (g_finished g') @ lost)) (gw_cursor (g_w g'))"
proof -
  let ?f = "Suc (7 * nonces_left demo_job 1 0 + 6)"
  obtain ended g' where
    r: "gpu_mine_job demo_gpu_env ?f demo_job 0 Bc3Hash (\<lambda>_. replicate 32 0) demo_gpu = Some (ended, g')"
    using demo_gpu_run by (metis surj_pair)
  from gpu_search_tiles [OF r demo_gpu_fields(5), of 4] obtain lost where
    "tiles 4 (1, 0) (map chunk_in_flight (map fst (g_finished g') @ lost)) (gw_cursor (g_w g'))"
    by (auto simp: demo_gpu_fields start_on_def)
  with r show ?thesis by blast
qed

text \<open>
  C7. Finishing a launch queues exactly the shares the CPU would queue for the same nonces, in the
  same order and with the same contents, whenever the kernel reported at least every nonce whose
  hash meets the share target: what it reported beside them - false hits, nonces of other
  launches, a nonce twice - adds nothing.
\<close>

theorem gpu_launch_equals_cpu:
  assumes "launch_ok (ge_crates ge) (jr_job run) l" and "unat (if_start l) + unat (if_count l) \<le> 2 ^ 32"
    and "jr_block_target run = compact_to_target (job_bits (jr_job run))"
    and "\<And>x. length (cr_sha256 (ge_crates ge) x) = 32" and "length (job_prev_hash (jr_job run)) = 32"
    and "sh_submit_open (g_s g)"
    and "\<forall>n\<in>set (nonces (if_start l) (unat (if_count l))).
      hash_meets_target (jr_verify run (with_nonce (header_of (ge_crates ge) (jr_job run) (if_extranonce2 l)) n))
        (job_share_target (jr_job run)) \<longrightarrow> n \<in> set (sc_hits scan)"
  shows "sh_submit (g_s (snd (finish ge run l scan g))) =
    sh_submit (hash_chunk (ge_crates ge) (jr_job run) (jr_verify run) clock (if_en2 l, if_start l, unat (if_count l)) (g_s g))"
proof -
  let ?cr = "ge_crates ge" and ?job = "jr_job run" and ?pow = "jr_verify run" and ?en2 = "if_extranonce2 l"
  have en2: "?en2 = encode_extranonce2 (if_en2 l) (job_extranonce2_size ?job)"
    using assms(1) by (simp add: launch_ok_def en2_header_def Let_def)
  have hdr: "serialize ((if_header l)\<lparr>hdr_nonce := n\<rparr>) = with_nonce (header_of ?cr ?job ?en2) n" for n
    using assms(1) with_nonce_header [OF assms(4,5), of ?en2 n] en2
    by (simp add: launch_ok_def en2_header_def coinbase_of_def Let_def)
  have ok: "hit_ok run l n \<longleftrightarrow> n \<in> set (nonces (if_start l) (unat (if_count l))) \<and> hit ?cr ?job ?pow ?en2 n" for n
    using in_range_nonces [OF assms(2), of n] by (simp add: hit_ok_def hit_def hdr)
  have sh: "hit_share ?cr run l = share_at ?cr ?job ?pow ?en2"
    by (simp add: hit_share_def share_at_def share_of_def is_block_hash_def hdr assms(3) Let_def fun_eq_iff)
  have "filter (hit_ok run l) (remdups_adj (sort (sc_hits scan))) = filter (hit_ok run l) (nonces (if_start l) (unat (if_count l)))"
    by (rule filter_hits_nonces [OF assms(2)]) (use assms(7) in \<open>auto simp: ok hit_def\<close>)
  also have "\<dots> = filter (hit ?cr ?job ?pow ?en2) (nonces (if_start l) (unat (if_count l)))"
    by (rule filter_cong) (simp_all add: ok)
  finally show ?thesis
    using finish_queue [OF assms(6), of ge run l scan] fold_try_nonce_queue [OF assms(6), of ?cr ?job ?pow clock ?en2]
    by (simp add: hash_chunk_def Let_def en2 [symmetric] sh count_hashes_def)
qed

definition demo_launch :: InFlight where
  "demo_launch = \<lparr>if_en2 = 1, if_extranonce2 = eh_extranonce2 (en2_header demo_crates demo_job 1),
     if_header = eh_header (en2_header demo_crates demo_job 1), if_start = 0, if_count = 1, if_queued = 0\<rparr>"

theorem gpu_launch_equals_cpu_witness:
  "sh_submit (g_s (snd (finish demo_gpu_env (job_run demo_gpu_env demo_job 0 Bc3Hash (\<lambda>_. replicate 32 0) demo_gpu)
      demo_launch \<lparr>sc_hits = [7, 0, 0], sc_reported = 3, sc_busy = None\<rparr> demo_gpu))) =
   sh_submit (hash_chunk demo_crates demo_job (\<lambda>_. replicate 32 0) (\<lambda>_. 0) (1, 0, 1) demo_shared)"
proof -
  let ?run = "job_run demo_gpu_env demo_job 0 Bc3Hash (\<lambda>_. replicate 32 0) demo_gpu"
  have c: "ge_crates demo_gpu_env = demo_crates" "g_s demo_gpu = demo_shared" by (simp_all add: demo_gpu_env_def demo_gpu_def)
  have l: "launch_ok (ge_crates demo_gpu_env) (jr_job ?run) demo_launch"
    by (simp add: c launch_ok_def demo_launch_def en2_fits_def demo_job_def)
  have b: "jr_block_target ?run = compact_to_target (job_bits (jr_job ?run))" by (simp add: job_run_def Let_def)
  have o: "sh_submit_open (g_s demo_gpu)" by (simp only: c demo_shared_def Shared_new_def Shared.select_convs)
  have s: "length (cr_sha256 (ge_crates demo_gpu_env) x) = 32" for x by (simp add: c demo_crates_def)
  have p: "length (job_prev_hash (jr_job ?run)) = 32" by (simp add: demo_job_def)
  show ?thesis
    using gpu_launch_equals_cpu [OF l _ b s p o, of "\<lparr>sc_hits = [7, 0, 0], sc_reported = 3, sc_busy = None\<rparr>" "\<lambda>_. 0"]
    by (simp add: c demo_launch_def nonces_def)
qed

text \<open>
  C23. Every batch size is whole waves of the card between the smallest and the largest of the job:
  \<open>mine_job\<close> starts with one and the autotune keeps it so. The autotune never more than doubles
  it, leaves it alone while a launch takes between half and two and a half times the target,
  and never grows it when it took longer.
\<close>

theorem autotune_whole_waves:
  assumes "granule = job_granule ge algo g" and "lo = min_batch_of granule" and "hi = max_batch_of granule"
    and "batch_ok granule lo hi batch"
  shows "batch_ok granule lo hi (gw_batch (job_worker ge job algo g)) \<and>
    batch_ok granule lo hi (autotune batch took target granule lo hi) \<and>
    unat (autotune batch took target granule lo hi) \<le> 2 * unat batch \<and>
    (target div 2 \<le> took \<longrightarrow> autotune batch took target granule lo hi \<le> batch) \<and>
    (target div 2 \<le> took \<and> took \<le> target * 5 div 2 \<longrightarrow> autotune batch took target granule lo hi = batch)"
proof -
  have "1 \<le> granule" by (simp add: assms(1) job_granule_def)
  then have g0: "0 < granule" by (simp add: word_less_nat_alt word_le_nat_alt)
  note m = min_batch_ok [OF g0, folded assms(2,3)]
  have lh: "lo \<le> hi" using m(1) by (simp add: batch_ok_def)
  define nx where "nx = (if took < target div 2 \<and> batch < hi then min (sat_mul batch 2) hi
      else if target * 5 div 2 < took \<and> lo < batch then max (batch div 2) lo else batch)"
  have b: "lo \<le> batch" "batch \<le> hi" using assms(4) by (simp_all add: batch_ok_def)
  have dbl: "batch \<le> sat_mul batch 2" "unat (sat_mul batch 2) \<le> 2 * unat batch"
    using unsigned_less [of batch, where 'a = nat] by (simp_all add: word_le_nat_alt unat_sat_mul)
  have half: "batch div 2 \<le> batch" by (simp add: word_le_nat_alt unat_div)
  have n: "lo \<le> nx" "nx \<le> hi"
    using b lh dbl(1) half unfolding nx_def by (auto simp: min_def max_def intro: order_trans)
  note w = clamp_whole_waves [OF g0 m(1,2) n]
  have "max granule 1 = granule" using \<open>1 \<le> granule\<close> by (simp add: max_def)
  then have at: "autotune batch took target granule lo hi = max (nx div granule) 1 * granule"
    using w lh by (simp add: autotune_def nx_def [symmetric] Let_def batch_ok_def min_def clamp_id)
  have le: "autotune batch took target granule lo hi \<le> nx"
    using whole_waves(2,4) [OF g0, of "nx"] m(2) n(1) by (simp add: at order_trans [of granule lo])
  have same: "autotune batch took target granule lo hi = batch" if "nx = batch"
    using whole_waves(2,4) [OF g0, of batch] whole_waves(5) [OF g0, of batch batch] m(2) b(1) assms(4) that
    by (simp add: at order_trans [of granule lo] batch_ok_def order_antisym)
  have "unat nx \<le> 2 * unat batch"
    using dbl(2) half b(1) unfolding nx_def by (auto simp: unat_min unat_max word_le_nat_alt)
  moreover have "nx \<le> batch" if "target div 2 \<le> took" using that half b(1) unfolding nx_def by (auto simp: max_def)
  moreover have "nx = batch" if "target div 2 \<le> took" "took \<le> target * 5 div 2" using that by (simp add: nx_def)
  moreover have "gw_batch (job_worker ge job algo g) =
      max (clamp lo hi (gw_batch (g_w g)) div granule) 1 * granule" by (simp add: job_worker_def Let_def assms(1-3))
  moreover have "batch_ok granule lo hi (max (clamp lo hi (gw_batch (g_w g)) div granule) 1 * granule)"
    using clamp_whole_waves [OF g0 m(1,2)] clamp_bounds [OF lh] by blast
  ultimately show ?thesis using w le same by (auto simp: at [symmetric] word_le_nat_alt)
qed

theorem autotune_whole_waves_witness:
  "autotune 256 (from_millis 500) BC3_TARGET_LAUNCH 1 (min_batch_of 1) (max_batch_of 1) = 256"
proof -
  have g: "job_granule demo_gpu_env Bc3Hash demo_gpu = 1"
    by (simp add: job_granule_def demo_gpu_env_def gpu_backend_def no_backend_def)
  have "batch_ok 1 (min_batch_of 1) (max_batch_of 1) 256"
    by (simp add: batch_ok_def min_batch_of_def max_batch_of_def BC3_MIN_BATCH_def BC3_MAX_BATCH_def)
  from autotune_whole_waves [OF g [symmetric] refl refl this, of demo_job "from_millis 500" BC3_TARGET_LAUNCH]
  show ?thesis by (simp add: from_millis_def BC3_TARGET_LAUNCH_def)
qed

text \<open>
  C24. However many turns the worker makes and whatever the card and the other threads do between
  them: among turns in which, after the first of them, no launch came back, at most five that end with the device gone
  leave the worker running - \<open>MAX_REOPENS\<close> reopenings in a row without a launch between - and the sixth is its last.
  And it only stops when its last turn ended with the device gone, and then either because of such a row of six or
  because opening the device failed.
\<close>

theorem reopening_bounded:
  assumes "run_gpu_start ge dev open_at slot i n fs s = Inr st" and "run_gpu_turns ge dev open_at fuel others st = (es, r)"
  shows "(\<forall>p row q. es = p @ row @ q \<and> no_launch_after row \<longrightarrow>
      length (filter gone_turn row) \<le> unat MAX_REOPENS \<or>
      length (filter gone_turn row) = unat MAX_REOPENS + 1 \<and> q = [] \<and> (\<exists>st. r = Stops st)) \<and>
    (\<forall>st. r = Stops st \<longrightarrow> gone_turn (last es) \<and>
      ((\<exists>p row. es = p @ row \<and> no_launch_after row \<and> length (filter gone_turn row) = unat MAX_REOPENS + 1) \<or>
       (\<exists>e out tick. open_at tick = (Inl e, out))))"
proof -
  obtain g m where st: "st = (g, m)" by (cases st)
  have m: "gm_reopens m = of_nat 0" using run_gpu_start_reopens assms(1) st by simp
  from run_gpu_turns_budget [OF assms(2) [unfolded st] m]
  have b: "\<And>p q. es = p @ q \<Longrightarrow> q \<noteq> [] \<or> (\<exists>st. r = Goes_on st) \<Longrightarrow> spent 0 p \<le> 5"
    and s: "\<And>st. r = Stops st \<Longrightarrow> es \<noteq> [] \<and> gone_turn (last es) \<and> (spent 0 es = 6 \<or> (\<exists>e out tick. open_at tick = (Inl e, out)))"
    by auto
  have five: "unat MAX_REOPENS = 5" by (simp add: MAX_REOPENS_def)
  have rows: "length (filter gone_turn row) \<le> 5 \<or> length (filter gone_turn row) = 6 \<and> q = [] \<and> (\<exists>st. r = Stops st)"
    if es: "es = p @ row @ q" and quiet: "no_launch_after row" for p row q
  proof -
    have le: "length (filter gone_turn row) \<le> spent 0 (p @ row)" unfolding spent_append using quiet by (rule spent_streak)
    show ?thesis
    proof (cases "q \<noteq> [] \<or> (\<exists>st. r = Goes_on st)")
      case True
      then have "spent 0 (p @ row) \<le> 5" using b [of "p @ row" q] es by simp
      then show ?thesis using le by linarith
    next
      case False
      then obtain st where r: "r = Stops st" and q: "q = []" by (cases r) auto
      from s [OF r] have "es = butlast es @ [last es]" by simp
      moreover from this have "spent 0 (butlast es) \<le> 5" using b [of "butlast es" "[last es]"] by simp
      ultimately have "spent 0 es \<le> 6" using spent_append [of 0 "butlast es" "[last es]"] by (simp add: spend_def split: if_splits)
      then show ?thesis using le es q r by auto
    qed
  qed
  have stops: "(\<exists>p row. es = p @ row \<and> no_launch_after row \<and> length (filter gone_turn row) = 6) \<or>
      (\<exists>e out tick. open_at tick = (Inl e, out))" if "r = Stops st" for st
    using s [OF that] spent_back [of es] by metis
  show ?thesis unfolding five using rows stops s by auto
qed

text \<open>A card whose launches all fail, offered a job again and again.\<close>

definition dead_env :: "(GpuQueue, choices) GpuEnv" where
  "dead_env = demo_gpu_env\<lparr>ge_be := (ge_be demo_gpu_env)\<lparr>be_enqueue := \<lambda>q _. (Inl ''launch failed'', q)\<rparr>\<rparr>"

theorem reopening_bounded_witness:
  "\<exists>st es r. run_gpu_start dead_env (Cuda 0 ''A'') (\<lambda>_. (Inr gpu_queue_new, [])) 0 1 4 Map.empty demo_shared = Inr st \<and>
     run_gpu_turns dead_env (Cuda 0 ''A'') (\<lambda>_. (Inr gpu_queue_new, [])) 100 (replicate 9 (\<lambda>s. s\<lparr>sh_job := Some demo_job\<rparr>)) st = (es, r) \<and>
     \<not> (length es = 9 \<and> (\<forall>e\<in>set es. gone_turn e \<and> \<not> came_back e))"
proof -
  let ?open = "\<lambda>_::nat. (Inr gpu_queue_new :: string + GpuQueue, [] :: out_line list)"
  obtain st where st: "run_gpu_start dead_env (Cuda 0 ''A'') ?open 0 1 4 Map.empty demo_shared = Inr st"
    by (simp add: run_gpu_start_def Let_def split_def)
  obtain es r where es: "run_gpu_turns dead_env (Cuda 0 ''A'') ?open 100 (replicate 9 (\<lambda>s. s\<lparr>sh_job := Some demo_job\<rparr>)) st = (es, r)"
    by fastforce
  have five: "unat MAX_REOPENS = 5" by (simp add: MAX_REOPENS_def)
  have "\<not> (length es = 9 \<and> (\<forall>e\<in>set es. gone_turn e \<and> \<not> came_back e))"
  proof
    assume all: "length es = 9 \<and> (\<forall>e\<in>set es. gone_turn e \<and> \<not> came_back e)"
    have "no_launch_after es" unfolding no_launch_after_def using all by (cases es) auto
    moreover have "filter gone_turn es = es" using all by (simp add: filter_id_conv)
    ultimately show False
      using conjunct1 [OF reopening_bounded [OF st es], THEN spec, of "[]", THEN spec, of es, THEN spec, of "[]"] all five by simp
  qed
  then show ?thesis using st es by blast
qed

end
