(* ===== verification/Stratum.thy ===== *)
theory Stratum
  imports Worker
begin

text \<open>
  \<open>src/stratum.rs\<close>: the Stratum client. Reading lines off the socket, the requests not answered
  yet, the log of rejected shares, the hashrate reports, the reconnect backoff, and a session:
  what is sent, and what every message of the pool does. JSON values are a datatype; reading and
  printing them (\<open>serde_json\<close>), the \<open>hex\<close> crate and the shortest printing of a float are
  arguments. The socket is what its reads return, one after another, and whether a write fails.
  The clock is read once a turn of the session's loop.
\<close>

section \<open>Definitions\<close>

subsection \<open>JSON\<close>

datatype jnum = PosInt u64 | NegInt int | Float f64

datatype json = JNull | JBool bool | JNum jnum | JStr string | JArr "json list" | JObj "(string \<times> json) list"

fun jfield :: "json \<Rightarrow> string \<Rightarrow> json" where
  "jfield (JObj kvs) k = (case map_of kvs k of Some v \<Rightarrow> v | None \<Rightarrow> JNull)"
| "jfield _ k = JNull"

fun jelem :: "json \<Rightarrow> nat \<Rightarrow> json" where
  "jelem (JArr vs) i = (if i < length vs then vs ! i else JNull)"
| "jelem _ i = JNull"

fun as_u64 :: "json \<Rightarrow> u64 option" where
  "as_u64 (JNum (PosInt n)) = Some n"
| "as_u64 _ = None"

fun as_f64 :: "json \<Rightarrow> f64 option" where
  "as_f64 (JNum (PosInt n)) = Some (f64_of_nat (unat n))"
| "as_f64 (JNum (NegInt n)) = Some (f64_round (of_int n))"
| "as_f64 (JNum (Float x)) = Some x"
| "as_f64 _ = None"

fun as_str :: "json \<Rightarrow> string option" where
  "as_str (JStr s) = Some s"
| "as_str _ = None"

fun as_array :: "json \<Rightarrow> json list option" where
  "as_array (JArr vs) = Some vs"
| "as_array _ = None"

definition jint :: "nat \<Rightarrow> json" where
  "jint n = JNum (PosInt (word_of_nat n))"

text \<open>A request: \<open>{"id": id, "method": meth, "params": [..]}\<close>.\<close>

definition request :: "u64 \<Rightarrow> string \<Rightarrow> json list \<Rightarrow> json" where
  "request i meth ps = JObj [(''id'', JNum (PosInt i)), (''method'', JStr meth), (''params'', JArr ps)]"

subsection \<open>Lines\<close>

definition MAX_LINE_BYTES :: nat where
  "MAX_LINE_BYTES = 64 * 1024"

definition POOL_SILENCE_TIMEOUT :: duration where
  "POOL_SILENCE_TIMEOUT = from_secs 90"

definition READ_POLL :: duration where
  "READ_POLL = from_millis 10"

datatype io_error =
  InvalidData string | ConnectionAborted string | TimedOut string | PermissionDenied string
| ConnectionReset string | OtherIo string

text \<open>What a read returns: bytes (none at the end of the stream), nothing within the timeout, or an error.\<close>

datatype read = Data bytes | No_data | Read_error io_error

definition newline :: u8 where
  "newline = 10"

definition take_line :: "bytes \<Rightarrow> (bytes \<times> bytes) option" where
  "take_line buf =
     (if newline \<in> set buf
      then let line = takeWhile (\<lambda>b. b \<noteq> newline) buf;
               line = (if line \<noteq> [] \<and> last line = 13 then butlast line else line)
           in Some (line, tl (dropWhile (\<lambda>b. b \<noteq> newline) buf))
      else None)"

text \<open>\<open>next_line\<close>: the socket gives the reads in turn, and nothing more once they are used up.\<close>

fun next_line :: "read list \<Rightarrow> bytes \<Rightarrow> (io_error + bytes option) \<times> read list \<times> bytes" where
  "next_line reads buf =
     (case take_line buf of
        Some (line, rest) \<Rightarrow> (Inr (Some line), reads, rest)
      | None \<Rightarrow>
          if MAX_LINE_BYTES < length buf
          then (Inl (InvalidData ''the pool sent a line longer than we accept''), reads, buf)
          else case reads of
                 [] \<Rightarrow> (Inr None, [], buf)
               | r # reads' \<Rightarrow>
                   (case r of
                      Data chunk \<Rightarrow>
                        if chunk = [] then (Inl (ConnectionAborted ''pool closed the connection''), reads', buf)
                        else next_line reads' (buf @ chunk)
                    | No_data \<Rightarrow> (Inr None, reads', buf)
                    | Read_error e \<Rightarrow> (Inl e, reads', buf)))"

declare next_line.simps [simp del]

subsection \<open>Configuration\<close>

record StratumConfig =
  cfg_pool :: string
  cfg_user :: string
  cfg_password :: string
  cfg_suggest_difficulty :: "f64 option"

definition SUGGESTED_DIFFICULTY_PER_CARD :: f64 where
  "SUGGESTED_DIFFICULTY_PER_CARD = f64_div (F_Fin 1) (F_Fin 10000)"

definition suggested_difficulty :: "nat \<Rightarrow> u32 \<Rightarrow> f64 option" where
  "suggested_difficulty cuda_cards intensity =
     (if 0 < cuda_cards
      then Some (f64_div (f64_mul (f64_mul SUGGESTED_DIFFICULTY_PER_CARD (f64_of_nat cuda_cards))
                   (f64_of_nat (unat (clamp 1 100 intensity)))) (F_Fin 100))
      else None)"

subsection \<open>Requests not answered yet\<close>

type_synonym Outstanding = "(u64 \<times> instant) list"

definition OUTSTANDING_MAX_AGE :: duration where
  "OUTSTANDING_MAX_AGE = from_secs 120"

definition out_sent :: "u64 \<Rightarrow> instant \<Rightarrow> Outstanding \<Rightarrow> Outstanding" where
  "out_sent i now os = dropWhile (\<lambda>(_, t). OUTSTANDING_MAX_AGE < duration_since now t) os @ [(i, now)]"

fun out_answered :: "u64 \<Rightarrow> instant \<Rightarrow> Outstanding \<Rightarrow> duration option \<times> Outstanding" where
  "out_answered i now [] = (None, [])"
| "out_answered i now ((j, t) # os) =
     (if j = i then (Some (duration_since now t), os)
      else let (r, os') = out_answered i now os in (r, (j, t) # os'))"

subsection \<open>Rejected shares\<close>

definition is_stale :: "json \<Rightarrow> bool" where
  "is_stale err \<longleftrightarrow> jelem err 0 = jint 21"

definition REJECT_SUMMARY_EVERY :: duration where
  "REJECT_SUMMARY_EVERY = from_secs 10"

type_synonym RejectLog = "(string \<times> instant \<times> u64) list"

fun log_reject :: "string \<Rightarrow> instant \<Rightarrow> RejectLog \<Rightarrow> string option \<times> RejectLog" where
  "log_reject reason now [] = (Some (''[pool] share rejected: '' @ reason), [(reason, now, 0)])"
| "log_reject reason now ((r, since, held) # lg) =
     (if r = reason then (None, (r, since, held + 1) # lg)
      else let (line, lg') = log_reject reason now lg in (line, (r, since, held) # lg'))"

fun log_due :: "instant \<Rightarrow> RejectLog \<Rightarrow> string list \<times> RejectLog" where
  "log_due now [] = ([], [])"
| "log_due now ((reason, since, held) # lg) =
     (let window = duration_since now since;
          (lines, lg') = log_due now lg
      in if window < REJECT_SUMMARY_EVERY then (lines, (reason, since, held) # lg')
         else if held = 0 then (lines, lg')
         else ((''[pool] share rejected: '' @ reason @ '' - '' @ dec (unat held) @ '' more in the last '' @
                dec (as_secs window) @ '' s'') # lines, (reason, now, 0) # lg'))"

subsection \<open>Hashrate reports\<close>

definition HASHRATE_REPORT_EVERY :: duration where
  "HASHRATE_REPORT_EVERY = from_secs 60"

definition HASHRATE_ID :: nat where
  "HASHRATE_ID = 4"

record HashrateReport =
  hr_since :: "(instant \<times> u64) option"
  hr_refused :: bool

definition HashrateReport_new :: HashrateReport where
  "HashrateReport_new = \<lparr>hr_since = None, hr_refused = False\<rparr>"

definition report_start :: "instant \<Rightarrow> u64 \<Rightarrow> HashrateReport \<Rightarrow> HashrateReport" where
  "report_start now hashes r = (if \<not> hr_refused r then r\<lparr>hr_since := Some (now, hashes)\<rparr> else r)"

definition report_due :: "instant \<Rightarrow> u64 \<Rightarrow> HashrateReport \<Rightarrow> f64 option \<times> HashrateReport" where
  "report_due now hashes r =
     (case hr_since r of
        None \<Rightarrow> (None, r)
      | Some (t0, h0) \<Rightarrow>
          let dt = duration_since now t0
          in if dt < HASHRATE_REPORT_EVERY then (None, r)
             else (Some (f64_div (f64_of_nat (unat (sat_sub hashes h0))) (as_secs_f64 dt)),
                   r\<lparr>hr_since := Some (now, hashes)\<rparr>))"

definition report_answer :: "json \<Rightarrow> HashrateReport \<Rightarrow> bool \<times> HashrateReport" where
  "report_answer msg r =
     (let refused = (jfield msg ''error'' \<noteq> JNull \<or> jfield msg ''result'' = JBool False)
      in if \<not> refused \<or> hr_refused r then (False, r)
         else (True, r\<lparr>hr_refused := True, hr_since := None\<rparr>))"

definition hashrate_message :: "f64 \<Rightarrow> string \<Rightarrow> json" where
  "hashrate_message rate user =
     request (word_of_nat HASHRATE_ID) ''mining.hashrate'' [jint (f64_to_uint 64 (f64_round_int rate)), JStr user]"

subsection \<open>Backoff\<close>

definition HEALTHY_SESSION :: duration where
  "HEALTHY_SESSION = from_secs 60"

definition BACKOFF_MAX_SECS :: u64 where
  "BACKOFF_MAX_SECS = 60"

definition Backoff_new :: u64 where
  "Backoff_new = 1"

definition backoff_after :: "bool \<Rightarrow> u64 \<Rightarrow> u64 \<times> u64" where
  "backoff_after healthy nxt =
     (let nxt = (if healthy then 1 else nxt) in (nxt, min (nxt * 2) BACKOFF_MAX_SECS))"

subsection \<open>Messages\<close>

text \<open>
  The crates: reading a line as JSON (as UTF-8, lossily), printing a JSON value, decoding and
  encoding hex, printing a float.
\<close>

record Net =
  net_parse :: "bytes \<Rightarrow> json option"
  net_show :: "json \<Rightarrow> string"
  net_hex_decode :: "string \<Rightarrow> bytes option"
  net_hex_encode :: "bytes \<Rightarrow> string"
  net_show_f64 :: "f64 \<Rightarrow> string"
  net_version :: string

definition parse_difficulty :: "json \<Rightarrow> f64 option" where
  "parse_difficulty v =
     (case as_f64 v of Some d \<Rightarrow> if f64_is_finite d \<and> f64_lt (F_Fin 0) d then Some d else None | None \<Rightarrow> None)"

definition MAX_EXTRANONCE1 :: nat where
  "MAX_EXTRANONCE1 = 32"

definition parse_extranonce1 :: "Net \<Rightarrow> json \<Rightarrow> bytes option" where
  "parse_extranonce1 net v =
     (case Option.bind (as_str v) (net_hex_decode net) of
        Some e \<Rightarrow> if length e \<le> MAX_EXTRANONCE1 then Some e else None
      | None \<Rightarrow> None)"

text \<open>\<open>hex::decode\<close> of a string value, and then into an array of 32 bytes.\<close>

definition hex_of :: "Net \<Rightarrow> json \<Rightarrow> bytes option" where
  "hex_of net v = Option.bind (as_str v) (net_hex_decode net)"

definition into_32 :: "bytes option \<Rightarrow> bytes option" where
  "into_32 b = (case b of Some x \<Rightarrow> if length x = 32 then Some x else None | None \<Rightarrow> None)"

definition hex_u32 :: "json \<Rightarrow> u32 option" where
  "hex_u32 v = Option.bind (as_str v) (\<lambda>s. map_option word_of_nat (from_str_radix 32 16 s))"

fun parse_steps :: "Net \<Rightarrow> json list \<Rightarrow> bytes list option" where
  "parse_steps net [] = Some []"
| "parse_steps net (v # vs) =
     (case into_32 (net_hex_decode net (case as_str v of Some s \<Rightarrow> s | None \<Rightarrow> '''')) of
        None \<Rightarrow> None
      | Some step \<Rightarrow> map_option (Cons step) (parse_steps net vs))"

definition parse_notify :: "Net \<Rightarrow> json list \<Rightarrow> bytes \<Rightarrow> nat \<Rightarrow> f64 \<Rightarrow> MinerJob option" where
  "parse_notify net p extranonce1 extranonce2_size difficulty =
     Option.bind (into_32 (hex_of net (p ! 1))) (\<lambda>prev_swab.
     Option.bind (hex_of net (p ! 2)) (\<lambda>coinb1.
     Option.bind (hex_u32 (p ! 5)) (\<lambda>version.
     Option.bind (Option.bind (as_array (p ! 4)) (parse_steps net)) (\<lambda>steps.
     Option.bind (as_str (p ! 0)) (\<lambda>i.
     Option.bind (hex_of net (p ! 3)) (\<lambda>coinb2.
     Option.bind (hex_u32 (p ! 6)) (\<lambda>bits.
     Option.bind (hex_u32 (p ! 7)) (\<lambda>ntime.
       Some \<lparr>job_id = i, job_extranonce1 = extranonce1, job_extranonce2_size = extranonce2_size,
             job_coinb1 = coinb1, job_coinb2 = coinb2, job_merkle_steps = steps, job_version = version,
             job_prev_hash = swab32 prev_swab, job_bits = bits, job_ntime = ntime,
             job_share_target = target_for_difficulty difficulty, job_height = bip34_height coinb1,
             job_algo = for_version version\<rparr>))))))))"

subsection \<open>A session\<close>

record Session =
  se_sent :: "json list"
  se_outstanding :: Outstanding
  se_extranonce1 :: bytes
  se_subscribed :: bool
  se_extranonce2_size :: nat
  se_difficulty :: f64
  se_warned_difficulty :: bool
  se_next_submit_id :: u64
  se_rx_buf :: bytes
  se_last_rx :: instant
  se_rejects :: RejectLog
  se_report :: HashrateReport
  se_authorized_at :: "instant option"

text \<open>What a session runs in; \<open>cx_write\<close> says whether writing the n-th message fails.\<close>

record Ctx =
  cx_env :: Env
  cx_net :: Net
  cx_cfg :: StratumConfig
  cx_write :: "nat \<Rightarrow> io_error option"

type_synonym 'a io = "(io_error + 'a) \<times> Session \<times> Shared"

definition send :: "Ctx \<Rightarrow> json \<Rightarrow> Session \<Rightarrow> (io_error + unit) \<times> Session" where
  "send cx msg se =
     (case cx_write cx (length (se_sent se)) of
        Some e \<Rightarrow> (Inl e, se)
      | None \<Rightarrow> (Inr (), se\<lparr>se_sent := se_sent se @ [msg]\<rparr>))"

definition se_note_sent :: "u64 \<Rightarrow> instant \<Rightarrow> Session \<Rightarrow> Session" where
  "se_note_sent i now se = se\<lparr>se_outstanding := out_sent i now (se_outstanding se)\<rparr>"

definition send_noted :: "Ctx \<Rightarrow> instant \<Rightarrow> u64 \<Rightarrow> json \<Rightarrow> Session \<Rightarrow> (io_error + unit) \<times> Session" where
  "send_noted cx now i msg se =
     (case send cx msg se of (Inl e, se) \<Rightarrow> (Inl e, se) | (Inr _, se) \<Rightarrow> (Inr (), se_note_sent i now se))"

definition Session_new :: "instant \<Rightarrow> Session" where
  "Session_new now =
     \<lparr>se_sent = [], se_outstanding = [], se_extranonce1 = [], se_subscribed = False, se_extranonce2_size = 4,
      se_difficulty = F_Fin 1, se_warned_difficulty = False, se_next_submit_id = 100, se_rx_buf = [],
      se_last_rx = now, se_rejects = [], se_report = HashrateReport_new, se_authorized_at = None\<rparr>"

text \<open>The session up to its loop; \<open>connect\<close> is how connecting and setting up the socket fails, if it does.\<close>

definition session_open :: "Ctx \<Rightarrow> io_error option \<Rightarrow> instant \<Rightarrow> Shared \<Rightarrow> unit io" where
  "session_open cx connect now s =
     (let js = env_json (cx_env cx); cfg = cx_cfg cx; se = Session_new now;
          s = print_lines (human js (''[pool] connecting to '' @ cfg_pool cfg @ '' as '' @ cfg_user cfg) @
                emit js (Status Connecting (''connecting to '' @ cfg_pool cfg))) s
      in (case connect of
            Some e \<Rightarrow> (Inl e, se, s)
          | None \<Rightarrow>
              (case send_noted cx now 1 (request 1 ''mining.subscribe'' [JStr (''bc3-miner/'' @ net_version (cx_net cx))]) se of
                 (Inl e, se) \<Rightarrow> (Inl e, se, s)
               | (Inr _, se) \<Rightarrow>
                   (case (case cfg_suggest_difficulty cfg of
                            Some d \<Rightarrow> send_noted cx now 3 (request 3 ''mining.suggest_difficulty'' [JNum (Float d)]) se
                          | None \<Rightarrow> (Inr (), se)) of
                      (Inl e, se) \<Rightarrow> (Inl e, se, s)
                    | (Inr _, se) \<Rightarrow>
                        (case send_noted cx now 2 (request 2 ''mining.authorize''
                                [JStr (cfg_user cfg), JStr (cfg_password cfg)]) se of
                           (Inl e, se) \<Rightarrow> (Inl e, se, s)
                         | (Inr _, se) \<Rightarrow> (Inr (), se, s))))))"

definition submit_message :: "Ctx \<Rightarrow> u64 \<Rightarrow> FoundShare \<Rightarrow> json" where
  "submit_message cx i share =
     request i ''mining.submit'' [JStr (cfg_user (cx_cfg cx)), JStr (fs_job_id share),
       JStr (net_hex_encode (cx_net cx) (fs_extranonce2 share)),
       JStr (hex_pad 8 (unat (fs_ntime share))), JStr (hex_pad 8 (unat (fs_nonce share)))]"

definition say_block :: "Ctx \<Rightarrow> FoundShare \<Rightarrow> Shared \<Rightarrow> Shared" where
  "say_block cx share s =
     (if fs_is_block_candidate share
      then print_lines (human (env_json (cx_env cx)) (''[miner] * BLOCK CANDIDATE '' @ fs_hash_display share @ '' *'') @
             emit (env_json (cx_env cx)) (Block (fs_hash_display share))) s
      else s)"

text \<open>The loop over the queue; \<open>shares\<close> is what the queue holds.\<close>

fun submit_pending :: "Ctx \<Rightarrow> instant \<Rightarrow> FoundShare list \<Rightarrow> Session \<Rightarrow> Shared \<Rightarrow> unit io" where
  "submit_pending cx now [] se s = (Inr (), se, s)"
| "submit_pending cx now (share # shares) se s =
     (case send_noted cx now (se_next_submit_id se) (submit_message cx (se_next_submit_id se) share) se of
        (Inl e, se) \<Rightarrow> (Inl e, se, say_block cx share (s\<lparr>sh_submit := shares\<rparr>))
      | (Inr _, se) \<Rightarrow>
          submit_pending cx now shares (se\<lparr>se_next_submit_id := se_next_submit_id se + 1\<rparr>)
            (say_block cx share (s\<lparr>sh_submit := shares\<rparr>)))"

definition add_stats :: "(Stats \<Rightarrow> Stats) \<Rightarrow> Shared \<Rightarrow> Shared" where
  "add_stats f s = s\<lparr>sh_stats := f (sh_stats s)\<rparr>"

text \<open>The answers to subscribe, authorize and submits, and the calls of the pool.\<close>

definition on_subscribe :: "Ctx \<Rightarrow> json \<Rightarrow> Session \<Rightarrow> Shared \<Rightarrow> unit io" where
  "on_subscribe cx msg se s =
     (let r = jfield msg ''result''
      in if r = JNull then (Inl (InvalidData ''subscribe rejected''), se, s)
         else (case parse_extranonce1 (cx_net cx) (jelem r 1) of
                 None \<Rightarrow> (Inl (InvalidData (''pool sent an unusable extranonce1: '' @ net_show (cx_net cx) (jelem r 1))), se, s)
               | Some e \<Rightarrow>
                   let sz = unat (case as_u64 (jelem r 2) of Some n \<Rightarrow> n | None \<Rightarrow> 4);
                       se = se\<lparr>se_extranonce1 := e, se_subscribed := True, se_extranonce2_size := sz\<rparr>
                   in if \<not> (1 \<le> sz \<and> sz \<le> 16)
                      then (Inl (InvalidData (''pool asked for an extranonce2 of '' @ dec sz @ '' bytes'')), se, s)
                      else (Inr (), se, s)))"

definition on_authorize :: "Ctx \<Rightarrow> instant \<Rightarrow> json \<Rightarrow> Session \<Rightarrow> Shared \<Rightarrow> unit io" where
  "on_authorize cx now msg se s =
     (let js = env_json (cx_env cx); err = net_show (cx_net cx) (jfield msg ''error'')
      in if jfield msg ''result'' \<noteq> JBool True
         then (Inl (PermissionDenied ''authorize''), se,
               print_lines (Err (''[pool] AUTHORIZATION REJECTED: '' @ err) #
                 emit js (Status StatusError (''pool rejected the address: '' @ err))) s)
         else (Inr (), se\<lparr>se_authorized_at := Some now,
                          se_report := report_start now (st_hashes (sh_stats s)) (se_report se)\<rparr>,
               print_lines (human js ''[pool] authorized'' @ emit js (Status Mining ''authorized - mining'')) s))"

definition on_hashrate :: "Ctx \<Rightarrow> json \<Rightarrow> Session \<Rightarrow> Shared \<Rightarrow> unit io" where
  "on_hashrate cx msg se s =
     (let (say, report) = report_answer msg (se_report se);
          se = se\<lparr>se_report := report\<rparr>
      in (Inr (), se,
          if say then print_lines (human (env_json (cx_env cx)) (''[pool] the pool does not take reported hashrate ('' @
                         net_show (cx_net cx) (jfield msg ''error'') @ '') - not sending it'')) s
          else s))"

definition on_submit_answer :: "Ctx \<Rightarrow> instant \<Rightarrow> json \<Rightarrow> Session \<Rightarrow> Shared \<Rightarrow> unit io" where
  "on_submit_answer cx now msg se s =
     (let js = env_json (cx_env cx);
          accepted = (jfield msg ''result'' = JBool True);
          (se, s) = (if accepted then (se, add_stats (\<lambda>t. t\<lparr>st_accepted := st_accepted t + 1\<rparr>) s)
                     else let (line, lg) = log_reject (net_show (cx_net cx) (jfield msg ''error'')) now (se_rejects se)
                          in (se\<lparr>se_rejects := lg\<rparr>,
                              print_lines (case line of Some l \<Rightarrow> [Err l] | None \<Rightarrow> [])
                                (add_stats (\<lambda>t. t\<lparr>st_rejected := st_rejected t + 1\<rparr>) s)));
          stale = (\<not> accepted \<and> is_stale (jfield msg ''error''));
          s = (if stale then add_stats (\<lambda>t. t\<lparr>st_stale := st_stale t + 1\<rparr>) s else s)
      in (Inr (), se, print_lines (emit js (Share accepted stale)) s))"

definition on_method :: "Ctx \<Rightarrow> instant \<Rightarrow> json \<Rightarrow> Session \<Rightarrow> Shared \<Rightarrow> unit io" where
  "on_method cx now msg se s =
     (let meth = as_str (jfield msg ''method'')
      in if meth = Some ''mining.set_difficulty''
         then let v = jelem (jfield msg ''params'') 0
              in (case parse_difficulty v of
                    Some d \<Rightarrow> (Inr (), se\<lparr>se_difficulty := d\<rparr>, s)
                  | None \<Rightarrow>
                      (Inr (), se\<lparr>se_warned_difficulty := True\<rparr>,
                       if se_warned_difficulty se then s
                       else print_lines [Err (''[pool] ignoring an invalid share difficulty '' @ net_show (cx_net cx) v @
                              '' - keeping '' @ net_show_f64 (cx_net cx) (se_difficulty se))] s))
         else if meth = Some ''mining.notify''
         then let p = (case as_array (jfield msg ''params'') of Some vs \<Rightarrow> vs | None \<Rightarrow> [])
              in if length p < 9 \<or> \<not> se_subscribed se then (Inr (), se, s)
                 else (case parse_notify (cx_net cx) p (se_extranonce1 se) (se_extranonce2_size se) (se_difficulty se) of
                         Some job \<Rightarrow> (Inr (), se, publish_job (cx_env cx) now job s)
                       | None \<Rightarrow> (Inr (), se, print_lines [Err ''[pool] invalid notify message''] s))
         else if meth = Some ''client.reconnect'' then (Inl (ConnectionReset ''reconnect requested''), se, s)
         else (Inr (), se, s))"

definition time_answer :: "instant \<Rightarrow> json \<Rightarrow> Session \<Rightarrow> Shared \<Rightarrow> Session \<times> Shared" where
  "time_answer now msg se s =
     (case as_u64 (jfield msg ''id'') of
        Some i \<Rightarrow>
          let (rtt, os) = out_answered i now (se_outstanding se)
          in (se\<lparr>se_outstanding := os\<rparr>, case rtt of Some d \<Rightarrow> record_pool_rtt d s | None \<Rightarrow> s)
      | None \<Rightarrow> (se, s))"

definition handle_message :: "Ctx \<Rightarrow> instant \<Rightarrow> json \<Rightarrow> Session \<Rightarrow> Shared \<Rightarrow> unit io" where
  "handle_message cx now msg se s =
     (let (se, s) = time_answer now msg se s;
          i = jfield msg ''id''
      in if i = jint 1 then on_subscribe cx msg se s
         else if i = jint 2 then on_authorize cx now msg se s
         else if i = jint HASHRATE_ID then on_hashrate cx msg se s
         else if (case as_u64 i of Some n \<Rightarrow> 100 \<le> n | None \<Rightarrow> False) then on_submit_answer cx now msg se s
         else on_method cx now msg se s)"

text \<open>The second half of a turn of the session's loop: reading a line, and what it says.\<close>

definition session_read ::
  "Ctx \<Rightarrow> instant \<Rightarrow> read list \<Rightarrow> Session \<Rightarrow> Shared \<Rightarrow> (io_error + unit) \<times> read list \<times> Session \<times> Shared" where
  "session_read cx now reads se s =
     (case next_line reads (se_rx_buf se) of
        (Inl e, reads, buf) \<Rightarrow> (Inl e, reads, se\<lparr>se_rx_buf := buf\<rparr>, s)
      | (Inr None, reads, buf) \<Rightarrow>
          (let se = se\<lparr>se_rx_buf := buf\<rparr>
           in if POOL_SILENCE_TIMEOUT < duration_since now (se_last_rx se)
              then (Inl (TimedOut (''no word from the pool in '' @ dec (as_secs POOL_SILENCE_TIMEOUT) @
                      '' s - the connection is dead'')), reads, se, s)
              else (Inr (), reads, se, s))
      | (Inr (Some line), reads, buf) \<Rightarrow>
          (let se = se\<lparr>se_rx_buf := buf, se_last_rx := now\<rparr>
           in (case net_parse (cx_net cx) line of
                 None \<Rightarrow> (Inr (), reads, se, s)
               | Some msg \<Rightarrow>
                   (let (r, se, s) = handle_message cx now msg se s in (r, reads, se, s)))))"

text \<open>One turn of the session's loop.\<close>

definition session_turn ::
  "Ctx \<Rightarrow> instant \<Rightarrow> read list \<Rightarrow> Session \<Rightarrow> Shared \<Rightarrow> (io_error + unit) \<times> read list \<times> Session \<times> Shared" where
  "session_turn cx now reads se s =
     (let (lines, lg) = log_due now (se_rejects se);
          s = print_lines (map Err lines) s;
          (rate, report) = report_due now (st_hashes (sh_stats s)) (se_report se);
          se = se\<lparr>se_rejects := lg, se_report := report\<rparr>
      in (case (case rate of Some x \<Rightarrow> send cx (hashrate_message x (cfg_user (cx_cfg cx))) se | None \<Rightarrow> (Inr (), se)) of
            (Inl e, se) \<Rightarrow> (Inl e, reads, se, s)
          | (Inr _, se) \<Rightarrow>
              (case submit_pending cx now (sh_submit s) se s of
                 (Inl e, se, s) \<Rightarrow> (Inl e, reads, se, s)
               | (Inr _, se, s) \<Rightarrow> session_read cx now reads se s)))"

text \<open>
  A session over its turns: when each happens and what the other threads do to the shared state
  before it. It ends with the error of a turn, or goes on when the turns are over.
\<close>

fun session_run ::
  "Ctx \<Rightarrow> (instant \<times> (Shared \<Rightarrow> Shared)) list \<Rightarrow> read list \<Rightarrow> Session \<Rightarrow> Shared \<Rightarrow> unit io" where
  "session_run cx [] reads se s = (Inr (), se, s)"
| "session_run cx ((now, others) # turns) reads se s =
     (case session_turn cx now reads se (others s) of
        (Inl e, reads, se, s) \<Rightarrow> (Inl e, se, s)
      | (Inr _, reads, se, s) \<Rightarrow> session_run cx turns reads se s)"

text \<open>What \<open>run_client\<close> does when a session has failed: the seconds it sleeps, the backoff and the shared state.\<close>

definition io_message :: "io_error \<Rightarrow> string" where
  "io_message e = (case e of InvalidData m \<Rightarrow> m | ConnectionAborted m \<Rightarrow> m | TimedOut m \<Rightarrow> m | PermissionDenied m \<Rightarrow> m
     | ConnectionReset m \<Rightarrow> m | OtherIo m \<Rightarrow> m)"

definition client_failed ::
  "Env \<Rightarrow> instant \<Rightarrow> io_error \<Rightarrow> instant option \<Rightarrow> u64 \<Rightarrow> Shared \<Rightarrow> u64 \<times> u64 \<times> Shared" where
  "client_failed env now e authorized_at ladder s =
     (let js = env_json env;
          healthy = (case authorized_at of Some t \<Rightarrow> HEALTHY_SESSION \<le> duration_since now t | None \<Rightarrow> False);
          (backoff, ladder) = backoff_after healthy ladder;
          secs = dec (unat backoff) @ ''s'';
          s = print_lines (Err (''[pool] connection error: '' @ io_message e @ '' - reconnecting in '' @ secs) #
                emit js (Status Connecting (''connection lost, retrying in '' @ secs))) s;
          s = clear_job s;
          dropped = length (sh_submit s);
          s = s\<lparr>sh_submit := []\<rparr>;
          s = (if 0 < dropped
               then print_lines (human js (''[pool] dropped '' @ dec dropped @ '' queued share(s) from the previous connection'')) s
               else s)
      in (backoff, ladder, s))"

text \<open>
  The loop of \<open>run_client\<close> over its connection attempts: how connecting goes, when it starts, the
  turns of its session, what the socket reads and whether its writes fail, and when it has failed.
  It gives the seconds slept after each attempt; a session still running is the last.
\<close>

record Attempt =
  at_connect :: "io_error option"
  at_begin :: instant
  at_turns :: "(instant \<times> (Shared \<Rightarrow> Shared)) list"
  at_reads :: "read list"
  at_write :: "nat \<Rightarrow> io_error option"
  at_failed :: instant

definition session :: "Ctx \<Rightarrow> Attempt \<Rightarrow> Shared \<Rightarrow> unit io" where
  "session cx a s =
     (let cx = cx\<lparr>cx_write := at_write a\<rparr>
      in (case session_open cx (at_connect a) (at_begin a) s of
            (Inl e, se, s) \<Rightarrow> (Inl e, se, s)
          | (Inr _, se, s) \<Rightarrow> session_run cx (at_turns a) (at_reads a) se s))"

fun run_client_loop :: "Ctx \<Rightarrow> Attempt list \<Rightarrow> u64 \<Rightarrow> Shared \<Rightarrow> u64 list \<times> Shared" where
  "run_client_loop cx [] ladder s = ([], s)"
| "run_client_loop cx (a # attempts) ladder s =
     (case session cx a s of
        (Inr _, se, s) \<Rightarrow> ([], s)
      | (Inl e, se, s) \<Rightarrow>
          (let (backoff, ladder, s) = client_failed (cx_env cx) (at_failed a) e (se_authorized_at se) ladder s;
               (waits, s) = run_client_loop cx attempts ladder s
           in (backoff # waits, s)))"

definition run_client :: "Ctx \<Rightarrow> Attempt list \<Rightarrow> Shared \<Rightarrow> u64 list \<times> Shared" where
  "run_client cx attempts s = run_client_loop cx attempts Backoff_new s"

section \<open>Lemmas\<close>

subsection \<open>Lines\<close>

text \<open>A line as a pool sends it, with or without a carriage return, and the calls that read them back.\<close>

fun wire_line :: "bytes \<times> bool \<Rightarrow> bytes" where
  "wire_line (l, cr) = l @ (if cr then [13, newline] else [newline])"

definition wire :: "(bytes \<times> bool) list \<Rightarrow> bytes" where
  "wire ls = concat (map wire_line ls)"

definition line_ok :: "bytes \<times> bool \<Rightarrow> bool" where
  "line_ok = (\<lambda>(l, cr). newline \<notin> set l \<and> (\<not> cr \<longrightarrow> l = [] \<or> last l \<noteq> 13) \<and> length l + 2 \<le> MAX_LINE_BYTES)"

fun stream :: "read list \<Rightarrow> bytes" where
  "stream [] = []"
| "stream (Data b # rs) = b @ stream rs"
| "stream (_ # rs) = stream rs"

fun read_lines :: "nat \<Rightarrow> read list \<Rightarrow> bytes \<Rightarrow> (io_error + bytes list) \<times> read list \<times> bytes" where
  "read_lines 0 reads buf = (Inr [], reads, buf)"
| "read_lines (Suc n) reads buf =
     (case next_line reads buf of
        (Inl e, reads, buf) \<Rightarrow> (Inl e, reads, buf)
      | (Inr x, reads, buf) \<Rightarrow>
          (case read_lines n reads buf of
             (Inl e, reads, buf) \<Rightarrow> (Inl e, reads, buf)
           | (Inr ls, reads, buf) \<Rightarrow> (Inr ((case x of Some l \<Rightarrow> [l] | None \<Rightarrow> []) @ ls), reads, buf)))"

lemma take_line_wire:
  assumes "line_ok (l, cr)"
  shows "take_line (wire_line (l, cr) @ tail) = Some (l, tail)"
proof -
  have nl: "newline \<notin> set l" "\<not> cr \<Longrightarrow> l = [] \<or> last l \<noteq> 13" using assms by (auto simp: line_ok_def)
  let ?raw = "l @ (if cr then [13] else [])"
  have raw: "newline \<notin> set ?raw" using nl(1) by (simp add: newline_def)
  have w: "wire_line (l, cr) @ tail = ?raw @ newline # tail" by simp
  have tw: "takeWhile (\<lambda>b. b \<noteq> newline) (?raw @ newline # tail) = ?raw"
    "dropWhile (\<lambda>b. b \<noteq> newline) (?raw @ newline # tail) = newline # tail"
    using raw by (subst takeWhile_append2 dropWhile_append2; auto)+
  have "(if ?raw \<noteq> [] \<and> last ?raw = 13 then butlast ?raw else ?raw) = l" using nl(2) by (auto simp: butlast_append)
  then show ?thesis unfolding take_line_def w tw Let_def by simp
qed

lemma take_line_None: "take_line buf = None \<longleftrightarrow> newline \<notin> set buf"
  by (simp add: take_line_def Let_def)

text \<open>A buffer that starts a stream of lines holds the first line whole or no end of line at all.\<close>

lemma buffer_cases:
  assumes "buf @ s = wire (x # ls) @ rest" and "line_ok x"
  shows "(\<exists>buf'. take_line buf = Some (fst x, buf') \<and> buf' @ s = wire ls @ rest) \<or>
    take_line buf = None \<and> length buf \<le> MAX_LINE_BYTES \<and> s \<noteq> []"
proof -
  obtain l cr where x: "x = (l, cr)" by (cases x)
  have "buf @ s = wire_line x @ wire ls @ rest" using assms(1) by (simp add: wire_def)
  then consider us where "buf = wire_line x @ us" "us @ s = wire ls @ rest" | us where "wire_line x = buf @ us" "s = us @ wire ls @ rest"
    unfolding append_eq_append_conv2 [of buf] by metis
  then show ?thesis
  proof cases
    case 1
    then show ?thesis using take_line_wire assms(2) x by auto
  next
    case 2
    show ?thesis
    proof (cases "us = []")
      case True
      then show ?thesis using 2 take_line_wire [of l cr "[]"] assms(2) x by auto
    next
      case False
      then obtain us' y where us: "us = us' @ [y]" by (metis rev_exhaust)
      have "newline \<notin> set (buf @ us')"
        using 2(1) assms(2) x us by (cases cr) (auto simp: line_ok_def newline_def append_eq_append_conv2 Cons_eq_append_conv)
      moreover have "length buf \<le> MAX_LINE_BYTES"
        using arg_cong [OF 2(1), of length] assms(2) x by (auto simp: line_ok_def split: if_splits)
      ultimately show ?thesis using False 2(2) by (simp add: take_line_None)
    qed
  qed
qed

lemma next_line_wire:
  assumes "buf @ stream reads = wire ls @ rest" and "\<forall>x\<in>set ls. line_ok x" and "newline \<notin> set rest" and "length rest \<le> MAX_LINE_BYTES"
    and "\<forall>r\<in>set reads. r \<noteq> Data [] \<and> (\<forall>e. r \<noteq> Read_error e)"
  shows "\<exists>out reads' buf'. next_line reads buf = (Inr out, reads', buf') \<and> set reads' \<subseteq> set reads \<and>
    (case out of
       Some l \<Rightarrow> \<exists>x ls'. ls = x # ls' \<and> l = fst x \<and> buf' @ stream reads' = wire ls' @ rest \<and> length reads' \<le> length reads
     | None \<Rightarrow> buf' @ stream reads' = wire ls @ rest \<and> (if reads = [] then ls = [] \<and> reads' = [] else length reads' < length reads))"
  using assms(1,5)
proof (induction reads arbitrary: buf)
  case Nil
  show ?case
  proof (cases ls)
    case ls: Nil
    then have "take_line buf = None" "length buf \<le> MAX_LINE_BYTES" using Nil.prems(1) assms(3,4) by (simp_all add: take_line_None wire_def)
    then show ?thesis using Nil.prems(1) ls by (subst next_line.simps) simp
  next
    case (Cons x ls')
    with buffer_cases [of buf "stream []" x ls' rest] Nil.prems(1) assms(2) show ?thesis
      by (subst next_line.simps) auto
  qed
next
  case (Cons r reads)
  show ?case
  proof (cases "take_line buf")
    case (Some p)
    then have "ls \<noteq> []" using Cons.prems(1) assms(3) take_line_None [of buf] by (cases ls) (auto simp: wire_def dest: arg_cong [of _ _ set])
    then obtain x ls' where "ls = x # ls'" by (meson neq_Nil_conv)
    with buffer_cases [of buf "stream (r # reads)" x ls' rest] Cons.prems(1) assms(2) Some show ?thesis
      by (subst next_line.simps) auto
  next
    case None
    have len: "length buf \<le> MAX_LINE_BYTES"
    proof (cases ls)
      case Nil
      then have "length buf \<le> length rest" using arg_cong [OF Cons.prems(1), of length] by (simp add: wire_def)
      then show ?thesis using assms(4) by simp
    next
      case (Cons x ls')
      with buffer_cases [of buf "stream (r # reads)" x ls' rest] Cons.prems(1) assms(2) None show ?thesis by auto
    qed
    show ?thesis
    proof (cases r)
      case (Data c)
      then have c: "(buf @ c) @ stream reads = wire ls @ rest" "c \<noteq> []" using Cons.prems by auto
      have step: "next_line (r # reads) buf = next_line reads (buf @ c)"
        using None len Data c(2) by (subst next_line.simps) simp
      from Cons.IH [OF c(1)] Cons.prems(2) obtain out reads' buf' where
        n: "next_line reads (buf @ c) = (Inr out, reads', buf')" "set reads' \<subseteq> set reads" and
        o: "case out of
             Some l \<Rightarrow> \<exists>x ls'. ls = x # ls' \<and> l = fst x \<and> buf' @ stream reads' = wire ls' @ rest \<and> length reads' \<le> length reads
           | None \<Rightarrow> buf' @ stream reads' = wire ls @ rest \<and> (if reads = [] then ls = [] \<and> reads' = [] else length reads' < length reads)"
        by auto
      then show ?thesis unfolding step
        by (intro exI [of _ out] exI [of _ reads'] exI [of _ buf']) (auto split: option.splits if_splits)
    next
      case No_data
      then show ?thesis using Cons.prems(1) None len by (subst next_line.simps) auto
    next
      case (Read_error e)
      then show ?thesis using Cons.prems(2) by simp
    qed
  qed
qed

lemma read_lines_wire:
  assumes "\<forall>x\<in>set ls. line_ok x" and "newline \<notin> set rest" and "length rest \<le> MAX_LINE_BYTES"
    and "buf @ stream reads = wire ls @ rest" and "\<forall>r\<in>set reads. r \<noteq> Data [] \<and> (\<forall>e. r \<noteq> Read_error e)"
    and "length reads + length ls \<le> n"
  shows "read_lines n reads buf = (Inr (map fst ls), [], rest)"
  using assms(1,4-)
proof (induction n arbitrary: reads buf ls)
  case 0
  then show ?case by (simp add: wire_def)
next
  case (Suc n)
  from next_line_wire [OF Suc.prems(2,1) assms(2,3) Suc.prems(3)] obtain out reads' buf' where
    n: "next_line reads buf = (Inr out, reads', buf')" "set reads' \<subseteq> set reads" and
    c: "case out of
       Some l \<Rightarrow> \<exists>x ls'. ls = x # ls' \<and> l = fst x \<and> buf' @ stream reads' = wire ls' @ rest \<and> length reads' \<le> length reads
     | None \<Rightarrow> buf' @ stream reads' = wire ls @ rest \<and> (if reads = [] then ls = [] \<and> reads' = [] else length reads' < length reads)"
    by blast
  have r: "\<forall>r\<in>set reads'. r \<noteq> Data [] \<and> (\<forall>e. r \<noteq> Read_error e)" using n(2) Suc.prems(3) by blast
  show ?case
  proof (cases out)
    case None
    then have "buf' @ stream reads' = wire ls @ rest" "length reads' + length ls \<le> n"
      using c Suc.prems(4) by (auto split: if_splits)
    from Suc.IH [OF Suc.prems(1) this(1) r this(2)] n(1) None show ?thesis by simp
  next
    case (Some l)
    then obtain x ls' where x: "ls = x # ls'" "l = fst x" "buf' @ stream reads' = wire ls' @ rest" "length reads' \<le> length reads"
      using c by auto
    then have "\<forall>x\<in>set ls'. line_ok x" "length reads' + length ls' \<le> n" using Suc.prems(1,4) by auto
    from Suc.IH [OF this(1) x(3) r this(2)] n(1) Some x show ?thesis by simp
  qed
qed


subsection \<open>Sending shares\<close>

definition submits :: "Ctx \<Rightarrow> u64 \<Rightarrow> FoundShare list \<Rightarrow> json list" where
  "submits cx i shares = map2 (\<lambda>j. submit_message cx (i + word_of_nat j)) [0..<length shares] shares"

lemma submits_Nil [simp]: "submits cx i [] = []"
  by (simp add: submits_def)

lemma submits_Cons [simp]: "submits cx i (x # xs) = submit_message cx i x # submits cx (i + 1) xs"
proof -
  have "map2 (\<lambda>j. submit_message cx (i + word_of_nat j)) [1..<Suc (length xs)] xs =
      map2 (\<lambda>j. submit_message cx (i + 1 + word_of_nat j)) [0..<length xs] xs"
    by (simp only: One_nat_def map_Suc_upt [symmetric] zip_map1 map_map) (simp add: split_def comp_def add.assoc)
  then show ?thesis by (simp add: submits_def upt_conv_Cons del: upt_Suc)
qed

lemma send_noted_cases:
  obtains (failed) e where "send_noted cx now i msg se = (Inl e, se)" and "cx_write cx (length (se_sent se)) = Some e"
  | (sent) "send_noted cx now i msg se = (Inr (), se_note_sent i now (se\<lparr>se_sent := se_sent se @ [msg]\<rparr>))"
      and "cx_write cx (length (se_sent se)) = None"
  by (cases "cx_write cx (length (se_sent se))") (auto simp: send_noted_def send_def)

lemma submit_pending_sends:
  assumes "submit_pending cx now shares se s = (r, se', s')"
  shows "\<exists>k \<le> length shares. se_sent se' = se_sent se @ submits cx (se_next_submit_id se) (take k shares) \<and>
    se_next_submit_id se' = se_next_submit_id se + word_of_nat k \<and>
    (case r of Inr _ \<Rightarrow> k = length shares \<and> (shares \<noteq> [] \<longrightarrow> sh_submit s' = [])
     | Inl e \<Rightarrow> k < length shares \<and> cx_write cx (length (se_sent se) + k) = Some e \<and> sh_submit s' = drop (Suc k) shares) \<and>
    (\<forall>j<k. cx_write cx (length (se_sent se) + j) = None)"
  using assms
proof (induction shares arbitrary: se s)
  case Nil
  then show ?case by auto
next
  case (Cons share shares)
  let ?i = "se_next_submit_id se" and ?s1 = "say_block cx share (s\<lparr>sh_submit := shares\<rparr>)"
  have q: "sh_submit ?s1 = shares" by (simp add: say_block_def print_lines_def)
  let ?msg = "submit_message cx ?i share"
  show ?case
  proof (cases rule: send_noted_cases [of cx now ?i ?msg se])
    case (failed e)
    then have "r = Inl e" "se' = se" "s' = ?s1" using Cons.prems by simp_all
    then show ?thesis using failed(2) q by (intro exI [of _ 0]) simp
  next
    case sent
    let ?se = "se_note_sent ?i now (se\<lparr>se_sent := se_sent se @ [?msg]\<rparr>)\<lparr>se_next_submit_id := ?i + 1\<rparr>"
    have rec: "submit_pending cx now shares ?se ?s1 = (r, se', s')" using Cons.prems sent(1) by (simp add: se_note_sent_def)
    have f: "se_sent ?se = se_sent se @ [?msg]" "se_next_submit_id ?se = ?i + 1" by (simp_all add: se_note_sent_def)
    from Cons.IH [OF rec] obtain k where k: "k \<le> length shares" "se_sent se' = se_sent ?se @ submits cx (?i + 1) (take k shares)"
      "se_next_submit_id se' = ?i + 1 + word_of_nat k"
      "case r of Inr _ \<Rightarrow> k = length shares \<and> (shares \<noteq> [] \<longrightarrow> sh_submit s' = [])
       | Inl e \<Rightarrow> k < length shares \<and> cx_write cx (Suc (length (se_sent se)) + k) = Some e \<and> sh_submit s' = drop (Suc k) shares"
      "\<forall>j<k. cx_write cx (Suc (length (se_sent se)) + j) = None"
      unfolding f length_append_singleton by blast
    have "\<forall>j<Suc k. cx_write cx (length (se_sent se) + j) = None"
      using k(5) sent(2) by (auto simp: less_Suc_eq_0_disj)
    moreover have "shares = [] \<Longrightarrow> r = Inr () \<and> s' = ?s1" using rec by auto
    ultimately show ?thesis using k q f(1)
      by (intro exI [of _ "Suc k"]) (auto split: sum.splits)
  qed
qed

subsection \<open>What every session keeps\<close>

text \<open>
  A claim \<open>P\<close> kept by what a session does, and \<open>E\<close>, what is left of it when the session ends
  with an error. It is enough to look at its sends and at the messages of the pool.
\<close>

locale session_invariant =
  fixes cx :: Ctx and P :: "Session \<Rightarrow> Shared \<Rightarrow> bool" and E :: "Session \<Rightarrow> Shared \<Rightarrow> bool"
  assumes over: "P se s \<Longrightarrow> E se s"
    and tidy: "P se s \<Longrightarrow> P (se\<lparr>se_rejects := lg, se_report := report\<rparr>) (print_lines ls s)"
    and reports: "P se s \<Longrightarrow> send cx (hashrate_message x u) se = (r, se') \<Longrightarrow> P se' s"
    and submits: "P se s \<Longrightarrow> submit_pending cx now (sh_submit s) se s = (r, se', s') \<Longrightarrow> P se' s'"
    and reads: "P se s \<Longrightarrow> P (se\<lparr>se_rx_buf := b, se_last_rx := t\<rparr>) s"
    and message: "P se s \<Longrightarrow> handle_message cx now msg se s = (Inr v, se', s') \<Longrightarrow> P se' s'"
    and message_ends: "P se s \<Longrightarrow> handle_message cx now msg se s = (Inl e, se', s') \<Longrightarrow> E se' s'"
begin

lemma read_only: "P se s \<Longrightarrow> P (se\<lparr>se_rx_buf := b\<rparr>) s"
  using reads [of se s "se_last_rx se" b] by simp

lemma read_keeps:
  assumes "P se s" and "session_read cx now rs se s = (r, rs', se', s')"
  shows "if r = Inr () then P se' s' else E se' s'"
  using assms(2) read_only [OF assms(1)] over [OF read_only [OF assms(1)]] reads [OF assms(1)]
    message [OF reads [OF assms(1)]] message_ends [OF reads [OF assms(1)]]
  by (cases r) (auto simp: session_read_def Let_def split: sum.splits option.splits prod.splits if_splits)

lemma turn_keeps:
  assumes "P se s" and "session_turn cx now rs se s = (r, rs', se', s')"
  shows "if r = Inr () then P se' s' else E se' s'"
proof -
  obtain ls lg where lg: "log_due now (se_rejects se) = (ls, lg)" by fastforce
  define s1 where "s1 = print_lines (map Err ls) s"
  obtain rate report where rep: "report_due now (st_hashes (sh_stats s1)) (se_report se) = (rate, report)" by fastforce
  define se1 where "se1 = se\<lparr>se_rejects := lg, se_report := report\<rparr>"
  have P1: "P se1 s1" unfolding s1_def se1_def by (rule tidy [OF assms(1)])
  obtain r2 se2 where send: "(case rate of Some x \<Rightarrow> send cx (hashrate_message x (cfg_user (cx_cfg cx))) se1 | None \<Rightarrow> (Inr (), se1)) = (r2, se2)"
    by fastforce
  have P2: "P se2 s1" using send P1 reports by (auto split: option.splits)
  obtain r3 se3 s3 where sub: "submit_pending cx now (sh_submit s1) se2 s1 = (r3, se3, s3)" by (metis prod_cases3)
  have P3: "P se3 s3" by (rule submits [OF P2 sub])
  have turn: "(case r2 of Inl e \<Rightarrow> (Inl e, rs, se2, s1)
      | Inr _ \<Rightarrow> (case r3 of Inl e \<Rightarrow> (Inl e, rs, se3, s3) | Inr _ \<Rightarrow> session_read cx now rs se3 s3)) = (r, rs', se', s')"
    using assms(2) unfolding session_turn_def lg Let_def prod.case s1_def [symmetric] rep se1_def [symmetric] send sub .
  show ?thesis
    using turn over [OF P2] over [OF P3] read_keeps [OF P3] by (auto split: sum.splits)
qed

lemma run_keeps:
  assumes "\<forall>(now, f) \<in> set turns. \<forall>se s. P se s \<longrightarrow> P se (f s)" and "P se s"
    and "session_run cx turns rs se s = (r, se', s')"
  shows "E se' s'"
  using assms
proof (induction turns arbitrary: rs se s)
  case Nil
  then show ?case by (auto intro: over)
next
  case (Cons t turns)
  obtain now f where t: "t = (now, f)" by (cases t)
  obtain r1 rs1 se1 s1 where turn: "session_turn cx now rs se (f s) = (r1, rs1, se1, s1)"
    by (cases "session_turn cx now rs se (f s)") auto
  have "P se (f s)" using Cons.prems(1,2) t by auto
  note kept = turn_keeps [OF this turn]
  show ?case
  proof (cases r1)
    case (Inl e)
    then show ?thesis using Cons.prems(3) kept turn t by auto
  next
    case (Inr u)
    then have "session_run cx turns rs1 se1 s1 = (r, se', s')" "P se1 s1" using Cons.prems(3) kept turn t by simp_all
    then show ?thesis using Cons.IH [OF _ _ ] Cons.prems(1) by auto
  qed
qed

end


subsection \<open>The jobs a session publishes\<close>

definition difficulty_ok :: "f64 \<Rightarrow> bool" where
  "difficulty_ok d \<longleftrightarrow> f64_is_finite d \<and> f64_lt (F_Fin 0) d"

definition job_wf :: "MinerJob \<Rightarrow> bool" where
  "job_wf job \<longleftrightarrow> length (job_prev_hash job) = 32 \<and> (\<forall>x\<in>set (job_merkle_steps job). length x = 32) \<and>
     length (job_extranonce1 job) \<le> MAX_EXTRANONCE1 \<and> 1 \<le> job_extranonce2_size job \<and> job_extranonce2_size job \<le> 16 \<and>
     length (job_share_target job) = 32 \<and> (\<exists>d. difficulty_ok d \<and> job_share_target job = target_for_difficulty d) \<and>
     job_algo job = for_version (job_version job) \<and> job_height job = bip34_height (job_coinb1 job)"

definition job_slot_ok :: "Session \<Rightarrow> Shared \<Rightarrow> bool" where
  "job_slot_ok se s \<longleftrightarrow> (case sh_job s of Some job \<Rightarrow> job_wf job | None \<Rightarrow> True)"

definition jobs_inv :: "Session \<Rightarrow> Shared \<Rightarrow> bool" where
  "jobs_inv se s \<longleftrightarrow> difficulty_ok (se_difficulty se) \<and> length (se_extranonce1 se) \<le> MAX_EXTRANONCE1 \<and>
     1 \<le> se_extranonce2_size se \<and> se_extranonce2_size se \<le> 16 \<and> job_slot_ok se s"

lemma length_target_for_difficulty [simp]: "length (target_for_difficulty d) = 32"
  by (simp add: target_for_difficulty_def Let_def)

lemma parse_steps_32: "parse_steps net vs = Some steps \<Longrightarrow> x \<in> set steps \<Longrightarrow> length x = 32"
  by (induction vs arbitrary: steps) (auto simp: into_32_def split: option.splits if_splits)

lemma parse_notify_wf:
  assumes "parse_notify net p e sz d = Some job" and "length e \<le> MAX_EXTRANONCE1" and "1 \<le> sz" "sz \<le> 16" and "difficulty_ok d"
  shows "job_wf job"
  using assms parse_steps_32
  by (auto simp: parse_notify_def job_wf_def into_32_def swab32_def Option.bind_eq_Some_conv split: option.splits if_splits)

lemma parse_difficulty_ok: "parse_difficulty v = Some d \<Longrightarrow> difficulty_ok d"
  by (auto simp: parse_difficulty_def difficulty_ok_def split: option.splits if_splits)

lemma parse_extranonce1_short: "parse_extranonce1 net v = Some e \<Longrightarrow> length e \<le> MAX_EXTRANONCE1"
  by (auto simp: parse_extranonce1_def split: option.splits if_splits)

lemma print_lines_job [simp]: "sh_job (print_lines ls s) = sh_job s" "sh_stats (print_lines ls s) = sh_stats s"
  by (simp_all add: print_lines_def)

lemma say_block_frame [simp]: "sh_job (say_block cx x s) = sh_job s" "sh_stats (say_block cx x s) = sh_stats s"
  by (simp_all add: say_block_def)

lemma submit_pending_frame:
  assumes "submit_pending cx now shares se s = (r, se', s')"
  shows "sh_job s' = sh_job s \<and> sh_stats s' = sh_stats s \<and> se_difficulty se' = se_difficulty se \<and>
    se_extranonce1 se' = se_extranonce1 se \<and> se_extranonce2_size se' = se_extranonce2_size se"
  using assms
proof (induction shares arbitrary: se s)
  case (Cons share shares)
  show ?case
  proof (cases rule: send_noted_cases [of cx now "se_next_submit_id se" "submit_message cx (se_next_submit_id se) share" se])
    case sent
    then show ?thesis using Cons.prems Cons.IH by (fastforce simp: se_note_sent_def)
  qed (use Cons.prems in auto)
qed simp

lemma time_answer_frame:
  assumes "time_answer now msg se s = (se', s')"
  shows "sh_job s' = sh_job s" "se' = se\<lparr>se_outstanding := se_outstanding se'\<rparr>"
    "st_accepted (sh_stats s') = st_accepted (sh_stats s)" "st_rejected (sh_stats s') = st_rejected (sh_stats s)"
    "st_stale (sh_stats s') = st_stale (sh_stats s)" "sh_generation s' = sh_generation s"
  using assms by (auto simp: time_answer_def record_pool_rtt_def split_def Let_def split: option.splits)


lemma jobs_inv_cong:
  assumes "jobs_inv se s" and "sh_job s' = sh_job s" and "se_difficulty se' = se_difficulty se"
    and "se_extranonce1 se' = se_extranonce1 se" and "se_extranonce2_size se' = se_extranonce2_size se"
  shows "jobs_inv se' s'"
  using assms by (simp add: jobs_inv_def job_slot_ok_def)

lemma jobs_inv_slot: "jobs_inv se s \<Longrightarrow> job_slot_ok se' s"
  by (simp add: jobs_inv_def job_slot_ok_def)

lemma on_subscribe_jobs:
  assumes "jobs_inv se s" and "on_subscribe cx msg se s = (r, se', s')"
  shows "job_slot_ok se' s' \<and> (r = Inr () \<longrightarrow> jobs_inv se' s')"
  using assms parse_extranonce1_short
  by (auto simp: on_subscribe_def Let_def jobs_inv_def job_slot_ok_def split: if_splits option.splits)

lemma on_method_jobs:
  assumes "jobs_inv se s" and "on_method cx now msg se s = (r, se', s')"
  shows "jobs_inv se' s'"
proof -
  have ok: "length (se_extranonce1 se) \<le> MAX_EXTRANONCE1" "1 \<le> se_extranonce2_size se" "se_extranonce2_size se \<le> 16"
    "difficulty_ok (se_difficulty se)"
    using assms(1) by (auto simp: jobs_inv_def)
  have diff: "jobs_inv (se\<lparr>se_difficulty := d\<rparr>) s" if "parse_difficulty v = Some d" for v d
    using assms(1) parse_difficulty_ok [OF that] by (simp add: jobs_inv_def job_slot_ok_def)
  have pub: "jobs_inv se (publish_job env t job s)"
    if "parse_notify net p (se_extranonce1 se) (se_extranonce2_size se) (se_difficulty se) = Some job" for net p job env t
    using assms(1) parse_notify_wf [OF that ok] by (simp add: jobs_inv_def job_slot_ok_def publish_job_fields)
  have warn: "jobs_inv (se\<lparr>se_warned_difficulty := True\<rparr>) (print_lines ls s)" "jobs_inv (se\<lparr>se_warned_difficulty := True\<rparr>) s"
      "jobs_inv se (print_lines ls s)" for ls
    by (rule jobs_inv_cong [OF assms(1)]; simp)+
  show ?thesis using assms diff pub warn
    by (auto simp: on_method_def Let_def split: if_splits option.splits)
qed

lemma handle_message_jobs:
  assumes "jobs_inv se s" and "handle_message cx now msg se s = (r, se', s')"
  shows "job_slot_ok se' s' \<and> (r = Inr () \<longrightarrow> jobs_inv se' s')"
proof -
  obtain se1 s1 where t: "time_answer now msg se s = (se1, s1)" by fastforce
  note frame = time_answer_frame [OF t]
  have se1: "se_difficulty se1 = se_difficulty se" "se_extranonce1 se1 = se_extranonce1 se"
    "se_extranonce2_size se1 = se_extranonce2_size se"
    by (subst frame(2), simp)+
  have 1: "jobs_inv se1 s1" by (rule jobs_inv_cong [OF assms(1) frame(1) se1])
  have h: "(if jfield msg ''id'' = jint 1 then on_subscribe cx msg se1 s1
     else if jfield msg ''id'' = jint 2 then on_authorize cx now msg se1 s1
     else if jfield msg ''id'' = jint HASHRATE_ID then on_hashrate cx msg se1 s1
     else if (case as_u64 (jfield msg ''id'') of Some n \<Rightarrow> 100 \<le> n | None \<Rightarrow> False) then on_submit_answer cx now msg se1 s1
     else on_method cx now msg se1 s1) = (r, se', s')"
    using assms(2) unfolding handle_message_def t Let_def prod.case .
  have auth: "jobs_inv se' s'" if "on_authorize cx now msg se1 s1 = (r, se', s')"
    using that by (intro jobs_inv_cong [OF 1]) (auto simp: on_authorize_def Let_def split: if_splits)
  have rate: "jobs_inv se' s'" if "on_hashrate cx msg se1 s1 = (r, se', s')"
    using that by (intro jobs_inv_cong [OF 1]) (auto simp: on_hashrate_def Let_def split_def split: if_splits)
  have sub: "jobs_inv se' s'" if "on_submit_answer cx now msg se1 s1 = (r, se', s')"
    using that by (intro jobs_inv_cong [OF 1]) (auto simp: on_submit_answer_def add_stats_def Let_def split_def split: if_splits)
  show ?thesis using h auth rate sub on_subscribe_jobs [OF 1, of cx msg r se' s']
      on_method_jobs [OF 1, of cx now msg r se' s'] jobs_inv_slot [of se' s' se']
    by (auto split: if_splits)
qed

interpretation jobs: session_invariant cx jobs_inv job_slot_ok for cx
proof (unfold_locales, goal_cases)
  case (1 se s)
  then show ?case by (rule jobs_inv_slot)
next
  case (2 se s lg report ls)
  show ?case by (rule jobs_inv_cong [OF 2]) simp_all
next
  case (3 se s x u r se')
  show ?case by (rule jobs_inv_cong [OF 3(1)]) (use 3(2) in \<open>auto simp: send_def split: option.splits\<close>)
next
  case (4 se s now r se' s')
  show ?case by (rule jobs_inv_cong [OF 4(1)]) (use submit_pending_frame [OF 4(2)] in auto)
next
  case (5 se s t b)
  show ?case by (rule jobs_inv_cong [OF 5]) simp_all
next
  case (6 se s now msg v se' s')
  then show ?case using handle_message_jobs by fastforce
next
  case (7 se s now msg e se' s')
  then show ?case using handle_message_jobs by blast
qed


subsection \<open>Submit ids\<close>

text \<open>The share submits among the messages sent, and that the n-th carries the id 100 + n.\<close>

definition is_submit :: "json \<Rightarrow> bool" where
  "is_submit m \<longleftrightarrow> jfield m ''method'' = JStr ''mining.submit''"

definition ids_inv :: "Session \<Rightarrow> Shared \<Rightarrow> bool" where
  "ids_inv se s \<longleftrightarrow> (let ms = filter is_submit (se_sent se) in
     map (\<lambda>m. jfield m ''id'') ms = map (\<lambda>n. JNum (PosInt (100 + word_of_nat n))) [0..<length ms] \<and>
     se_next_submit_id se = 100 + word_of_nat (length ms))"

lemma is_submit_message [simp]: "is_submit (submit_message cx i x)" "jfield (submit_message cx i x) ''id'' = JNum (PosInt i)"
  by (simp_all add: is_submit_def submit_message_def request_def)

lemma is_submit_hashrate [simp]: "\<not> is_submit (hashrate_message x u)"
  by (simp add: is_submit_def hashrate_message_def request_def)

lemma filter_submits [simp]: "filter is_submit (submits cx i xs) = submits cx i xs"
  by (induction xs arbitrary: i) simp_all

lemma length_submits [simp]: "length (submits cx i xs) = length xs"
  by (simp add: submits_def)

lemma submits_ids:
  "map (\<lambda>m. jfield m ''id'') (submits cx i xs) = map (\<lambda>n. JNum (PosInt (i + word_of_nat n))) [0..<length xs]"
  by (rule nth_equalityI) (simp_all add: submits_def)

lemma ids_inv_submits:
  assumes "ids_inv se s" and "se_sent se' = se_sent se @ submits cx (se_next_submit_id se) xs"
    and "se_next_submit_id se' = se_next_submit_id se + word_of_nat (length xs)"
  shows "ids_inv se' s'"
proof -
  let ?n = "length (filter is_submit (se_sent se))"
  have "map (\<lambda>n. JNum (PosInt (100 + word_of_nat n))) [0..<?n + length xs] =
      map (\<lambda>n. JNum (PosInt (100 + word_of_nat n))) [0..<?n] @
      map (\<lambda>n. JNum (PosInt (100 + word_of_nat ?n + word_of_nat n))) [0..<length xs]"
    by (rule nth_equalityI) (auto simp: nth_append)
  then show ?thesis using assms by (simp add: ids_inv_def submits_ids Let_def)
qed

lemma ids_inv_cong:
  assumes "ids_inv se s" and "se_sent se' = se_sent se" and "se_next_submit_id se' = se_next_submit_id se"
  shows "ids_inv se' s'"
  using assms by (simp add: ids_inv_def)

lemma on_subscribe_sends_nothing:
  "on_subscribe cx msg se s = (r, se', s') \<Longrightarrow> se_sent se' = se_sent se \<and> se_next_submit_id se' = se_next_submit_id se"
  by (auto simp: on_subscribe_def Let_def split: if_splits option.splits)

lemma on_authorize_sends_nothing:
  "on_authorize cx now msg se s = (r, se', s') \<Longrightarrow> se_sent se' = se_sent se \<and> se_next_submit_id se' = se_next_submit_id se"
  by (auto simp: on_authorize_def Let_def split: if_splits option.splits)

lemma on_hashrate_sends_nothing:
  "on_hashrate cx msg se s = (r, se', s') \<Longrightarrow> se_sent se' = se_sent se \<and> se_next_submit_id se' = se_next_submit_id se"
  by (auto simp: on_hashrate_def Let_def split_def split: if_splits option.splits)

lemma on_submit_answer_sends_nothing:
  "on_submit_answer cx now msg se s = (r, se', s') \<Longrightarrow> se_sent se' = se_sent se \<and> se_next_submit_id se' = se_next_submit_id se"
  by (auto simp: on_submit_answer_def Let_def split_def split: if_splits option.splits)

lemma on_method_sends_nothing:
  "on_method cx now msg se s = (r, se', s') \<Longrightarrow> se_sent se' = se_sent se \<and> se_next_submit_id se' = se_next_submit_id se"
  by (auto simp: on_method_def Let_def split: if_splits option.splits)

lemmas handlers_send_nothing = on_subscribe_sends_nothing on_authorize_sends_nothing on_hashrate_sends_nothing
  on_submit_answer_sends_nothing on_method_sends_nothing

lemma handle_message_sends_nothing:
  assumes "handle_message cx now msg se s = (r, se', s')"
  shows "se_sent se' = se_sent se \<and> se_next_submit_id se' = se_next_submit_id se"
proof -
  obtain se1 s1 where t: "time_answer now msg se s = (se1, s1)" by fastforce
  have se1: "se_sent se1 = se_sent se" "se_next_submit_id se1 = se_next_submit_id se"
    by (subst time_answer_frame(2) [OF t], simp)+
  have "se_sent se' = se_sent se1 \<and> se_next_submit_id se' = se_next_submit_id se1"
    using assms unfolding handle_message_def t Let_def prod.case
    by (simp only: split: if_splits) (drule handlers_send_nothing; assumption)+
  with se1 show ?thesis by simp
qed

interpretation ids: session_invariant cx ids_inv ids_inv for cx
proof (unfold_locales, goal_cases)
  case (1 se s)
  then show ?case .
next
  case (2 se s lg report ls)
  show ?case by (rule ids_inv_cong [OF 2]) simp_all
next
  case (3 se s x u r se')
  then show ?case by (auto simp: ids_inv_def send_def split: option.splits)
next
  case (4 se s now r se' s')
  from submit_pending_sends [OF 4(2)] obtain k where k: "k \<le> length (sh_submit s)"
    "se_sent se' = se_sent se @ submits cx (se_next_submit_id se) (take k (sh_submit s))"
    "se_next_submit_id se' = se_next_submit_id se + word_of_nat k" by blast
  then show ?case using ids_inv_submits [OF 4(1) k(2)] by simp
next
  case (5 se s t b)
  show ?case by (rule ids_inv_cong [OF 5]) simp_all
next
  case (6 se s now msg v se' s')
  then show ?case using handle_message_sends_nothing ids_inv_cong by blast
next
  case (7 se s now msg e se' s')
  then show ?case using handle_message_sends_nothing ids_inv_cong by blast
qed


subsection \<open>Answers to submits\<close>

definition counters :: "Shared \<Rightarrow> u64 \<times> u64 \<times> u64" where
  "counters s = (st_accepted (sh_stats s), st_rejected (sh_stats s), st_stale (sh_stats s))"

lemma publish_job_counters [simp]: "counters (publish_job env now job s) = counters s"
  by (simp add: counters_def publish_job_def publish_locked_def note_pow_def note_height_def announce_def
      print_lines_def Let_def split_def split: option.splits)

lemma print_lines_counters [simp]: "counters (print_lines ls s) = counters s"
  by (simp add: counters_def)

lemma on_subscribe_counters: "on_subscribe cx msg se s = (r, se', s') \<Longrightarrow> counters s' = counters s"
  by (auto simp: on_subscribe_def Let_def split: if_splits option.splits)

lemma on_authorize_counters: "on_authorize cx now msg se s = (r, se', s') \<Longrightarrow> counters s' = counters s"
  by (auto simp: on_authorize_def Let_def split: if_splits)

lemma on_hashrate_counters: "on_hashrate cx msg se s = (r, se', s') \<Longrightarrow> counters s' = counters s"
  by (auto simp: on_hashrate_def Let_def split_def split: if_splits)

lemma on_method_counters: "on_method cx now msg se s = (r, se', s') \<Longrightarrow> counters s' = counters s"
  by (auto simp: on_method_def Let_def split: if_splits option.splits)

lemmas handlers_keep_counters = on_subscribe_counters on_authorize_counters on_hashrate_counters on_method_counters

lemma on_submit_answer_counters:
  assumes "on_submit_answer cx now msg se s = (r, se', s')" and "counters s = (a, b, c)"
  shows "r = Inr () \<and> sh_job s' = sh_job s \<and>
    counters s' = (if jfield msg ''result'' = JBool True then (a + 1, b, c)
       else (a, b + 1, if is_stale (jfield msg ''error'') then c + 1 else c))"
  using assms by (auto simp: on_submit_answer_def counters_def add_stats_def Let_def split_def split: if_splits)

lemma time_answer_counters: "time_answer now msg se s = (se', s') \<Longrightarrow> counters s' = counters s"
  by (simp add: counters_def time_answer_frame)

lemma handle_message_counters:
  assumes "handle_message cx now msg se s = (r, se', s')" and "counters s = (a, b, c)"
  shows "counters s' =
    (if (case as_u64 (jfield msg ''id'') of Some n \<Rightarrow> 100 \<le> n | None \<Rightarrow> False)
     then if jfield msg ''result'' = JBool True then (a + 1, b, c)
          else (a, b + 1, if is_stale (jfield msg ''error'') then c + 1 else c)
     else (a, b, c))"
proof -
  obtain se1 s1 where t: "time_answer now msg se s = (se1, s1)" by fastforce
  have c: "counters s1 = (a, b, c)" using time_answer_counters [OF t] assms(2) by simp
  have low: "\<not> (case as_u64 (jint n) of Some n \<Rightarrow> 100 \<le> n | None \<Rightarrow> False)" if "n \<in> {1, 2, HASHRATE_ID}" for n
    using that by (auto simp: jint_def HASHRATE_ID_def word_le_nat_alt)
  have h: "(if jfield msg ''id'' = jint 1 then on_subscribe cx msg se1 s1
     else if jfield msg ''id'' = jint 2 then on_authorize cx now msg se1 s1
     else if jfield msg ''id'' = jint HASHRATE_ID then on_hashrate cx msg se1 s1
     else if (case as_u64 (jfield msg ''id'') of Some n \<Rightarrow> 100 \<le> n | None \<Rightarrow> False) then on_submit_answer cx now msg se1 s1
     else on_method cx now msg se1 s1) = (r, se', s')"
    using assms(1) unfolding handle_message_def t Let_def prod.case .
  show ?thesis
  proof (cases "case as_u64 (jfield msg ''id'') of Some n \<Rightarrow> 100 \<le> n | None \<Rightarrow> False")
    case True
    then have "jfield msg ''id'' \<noteq> jint n" if "n \<in> {1, 2, HASHRATE_ID}" for n
      using low [OF that] by auto
    then have "jfield msg ''id'' \<noteq> jint 1" "jfield msg ''id'' \<noteq> jint 2" "jfield msg ''id'' \<noteq> jint HASHRATE_ID"
      by blast+
    then have "on_submit_answer cx now msg se1 s1 = (r, se', s')" using h True by (simp only: if_False if_True)
    then show ?thesis using on_submit_answer_counters [OF _ c] True by (simp only: if_True)
  next
    case False
    then have "counters s' = counters s1"
      using h handlers_keep_counters by (simp only: if_False split: if_splits)
    then show ?thesis using False c by (simp only: if_False)
  qed
qed

subsection \<open>Notifies\<close>

text \<open>The parameters of the \<open>mining.notify\<close> that announces a job.\<close>

definition notify_params :: "Net \<Rightarrow> MinerJob \<Rightarrow> json \<Rightarrow> json list" where
  "notify_params net job clean =
     [JStr (job_id job), JStr (net_hex_encode net (swab32 (job_prev_hash job))), JStr (net_hex_encode net (job_coinb1 job)),
      JStr (net_hex_encode net (job_coinb2 job)), JArr (map (\<lambda>x. JStr (net_hex_encode net x)) (job_merkle_steps job)),
      JStr (hex_pad 8 (unat (job_version job))), JStr (hex_pad 8 (unat (job_bits job))), JStr (hex_pad 8 (unat (job_ntime job))), clean]"

lemma hex_u32_hex_pad [simp]: "hex_u32 (JStr (hex_pad 8 (unat (x :: u32)))) = Some x"
  using unsigned_less [of x, where 'a = nat] by (simp add: hex_u32_def from_str_radix_hex_pad)

lemma parse_steps_encoded:
  assumes "\<And>b. net_hex_decode net (net_hex_encode net b) = Some b" and "\<forall>x\<in>set steps. length x = 32"
  shows "parse_steps net (map (\<lambda>x. JStr (net_hex_encode net x)) steps) = Some steps"
  using assms(2) by (induction steps) (simp_all add: assms(1) into_32_def)

lemma parse_notify_params:
  assumes "\<And>b. net_hex_decode net (net_hex_encode net b) = Some b"
    and "length (job_prev_hash job) = 32" and "\<forall>x\<in>set (job_merkle_steps job). length x = 32"
  shows "parse_notify net (notify_params net job clean) e n d =
    Some (job\<lparr>job_extranonce1 := e, job_extranonce2_size := n, job_share_target := target_for_difficulty d,
      job_height := bip34_height (job_coinb1 job), job_algo := for_version (job_version job)\<rparr>)"
  using assms
  by (simp add: parse_notify_def notify_params_def hex_of_def into_32_def parse_steps_encoded swab32_def swab_chunks_involution)

subsection \<open>Backoff\<close>

text \<open>The waits after a list of sessions, healthy or not.\<close>

fun waits :: "bool list \<Rightarrow> u64 \<Rightarrow> u64 list" where
  "waits [] ladder = []"
| "waits (h # hs) ladder = (let (w, ladder) = backoff_after h ladder in w # waits hs ladder)"

definition rung :: "nat \<Rightarrow> nat" where
  "rung k = min (2 ^ k) 60"

lemma rung_Suc: "rung (Suc k) = min (2 * rung k) 60"
  by (simp add: rung_def min_def)

lemma rung_bounds: "1 \<le> rung k \<and> rung k \<le> 60"
  by (simp add: rung_def)

lemma backoff_after_rung: "backoff_after False (word_of_nat (rung k)) = (word_of_nat (rung k), word_of_nat (rung (Suc k)))"
proof -
  have r: "rung k \<le> 60" using rung_bounds by simp
  then have "unat (word_of_nat (rung k) * 2 :: u64) = 2 * rung k"
    by (simp add: unat_word_ariths unat_of_nat)
  then show ?thesis using r
    by (auto simp: backoff_after_def rung_Suc BACKOFF_MAX_SECS_def Let_def min_def word_le_nat_alt unat_of_nat word_unat_eq_iff)
qed


text \<open>Failing leaves no job to mine and no share to send, and the wait is the ladder's.\<close>

lemma client_failed_clean:
  assumes "client_failed env now e auth ladder s = (w, ladder', s')"
  shows "sh_job s' = None" "sh_submit s' = []" "sh_generation s' = sh_generation s + 1"
    "(w, ladder') = backoff_after (case auth of Some t \<Rightarrow> HEALTHY_SESSION \<le> duration_since now t | None \<Rightarrow> False) ladder"
  using assms by (auto simp: client_failed_def clear_job_def clear_bump_def clear_locked_def print_lines_def Let_def split_def)

lemma waits_replicate: "waits (replicate n False) (word_of_nat (rung k)) = map (\<lambda>i. word_of_nat (rung (k + i))) [0..<n]"
proof (induction n arbitrary: k)
  case (Suc n)
  have "map (\<lambda>i. word_of_nat (rung (Suc k + i))) [0..<n] = map (\<lambda>i. word_of_nat (rung (k + i))) [Suc 0..<Suc n]"
    by (simp add: map_Suc_upt [symmetric] comp_def del: upt_Suc)
  then show ?case using Suc.IH [of "Suc k"] by (simp add: backoff_after_rung upt_conv_Cons del: upt_Suc)
qed simp

lemma backoff_after_ladder:
  assumes "\<exists>k. ladder = word_of_nat (rung k)" and "backoff_after h ladder = (w, ladder')"
  shows "(\<exists>k. w = word_of_nat (rung k)) \<and> (\<exists>k. ladder' = word_of_nat (rung k))"
proof (cases h)
  case True
  then have "backoff_after False (word_of_nat (rung 0)) = (w, ladder')" using assms(2) by (simp add: backoff_after_def rung_def)
  then show ?thesis by (auto simp: backoff_after_rung)
next
  case False
  then show ?thesis using assms by (auto simp: backoff_after_rung)
qed

lemma waits_append: "\<exists>ladder'. waits (hs @ hs') ladder = waits hs ladder @ waits hs' ladder' \<and>
    ((\<exists>k. ladder = word_of_nat (rung k)) \<longrightarrow> (\<exists>k. ladder' = word_of_nat (rung k)))"
proof (induction hs arbitrary: ladder)
  case (Cons h hs)
  obtain w l where b: "backoff_after h ladder = (w, l)" by fastforce
  from Cons.IH [of l] obtain l' where l': "waits (hs @ hs') l = waits hs l @ waits hs' l'"
    "(\<exists>k. l = word_of_nat (rung k)) \<longrightarrow> (\<exists>k. l' = word_of_nat (rung k))" by blast
  show ?case using b l' backoff_after_ladder [OF _ b] by (intro exI [of _ l']) auto
qed auto

lemma length_waits [simp]: "length (waits hs ladder) = length hs"
  by (induction hs arbitrary: ladder) (simp_all add: split_def Let_def)

lemma waits_healthy: "waits (True # hs) ladder = waits (False # hs) (word_of_nat (rung 0))"
  by (simp add: backoff_after_def rung_def)

text \<open>Which of the sessions that failed were healthy.\<close>

definition was_healthy :: "instant \<Rightarrow> instant option \<Rightarrow> bool" where
  "was_healthy now auth \<longleftrightarrow> (case auth of Some t \<Rightarrow> HEALTHY_SESSION \<le> duration_since now t | None \<Rightarrow> False)"

fun healthy_sessions :: "Ctx \<Rightarrow> Attempt list \<Rightarrow> u64 \<Rightarrow> Shared \<Rightarrow> bool list" where
  "healthy_sessions cx [] ladder s = []"
| "healthy_sessions cx (a # attempts) ladder s =
     (case session cx a s of
        (Inr _, se, s) \<Rightarrow> []
      | (Inl e, se, s) \<Rightarrow>
          (case client_failed (cx_env cx) (at_failed a) e (se_authorized_at se) ladder s of
             (w, ladder, s) \<Rightarrow> was_healthy (at_failed a) (se_authorized_at se) # healthy_sessions cx attempts ladder s))"

lemma run_client_waits: "fst (run_client_loop cx attempts ladder s) = waits (healthy_sessions cx attempts ladder s) ladder"
proof (induction attempts arbitrary: ladder s)
  case (Cons a attempts)
  obtain r se s1 where x: "session cx a s = (r, se, s1)" by (metis prod_cases3)
  show ?case
  proof (cases r)
    case (Inl e)
    obtain w ladder2 s2 where f: "client_failed (cx_env cx) (at_failed a) e (se_authorized_at se) ladder s1 = (w, ladder2, s2)"
      by (metis prod_cases3)
    have "backoff_after (was_healthy (at_failed a) (se_authorized_at se)) ladder = (w, ladder2)"
      using client_failed_clean(4) [OF f] by (simp add: was_healthy_def)
    then show ?thesis using x Inl f Cons.IH [of ladder2 s2] by (simp add: split_def)
  qed (use x in simp)
qed simp

subsection \<open>The client\<close>

lemma session_open_state:
  assumes "session_open cx connect now s = (r, se, s')"
  shows "sh_job s' = sh_job s \<and> sh_submit s' = sh_submit s \<and> filter is_submit (se_sent se) = [] \<and> se_next_submit_id se = 100 \<and>
    se_difficulty se = F_Fin 1 \<and> se_extranonce1 se = [] \<and> se_extranonce2_size se = 4 \<and> se_authorized_at se = None"
  using assms
  by (auto simp: session_open_def send_noted_def send_def se_note_sent_def Session_new_def print_lines_def is_submit_def request_def
      Let_def split: option.splits)

lemma session_open_jobs: "session_open cx connect now s = (r, se, s') \<Longrightarrow> job_slot_ok se0 s \<Longrightarrow> jobs_inv se s'"
  using session_open_state [of cx connect now s r se s']
  by (simp add: jobs_inv_def job_slot_ok_def difficulty_ok_def)

lemma session_open_ids: "session_open cx connect now s = (r, se, s') \<Longrightarrow> ids_inv se s'"
  using session_open_state [of cx connect now s r se s'] by (simp add: ids_inv_def)

definition others_keep_jobs :: "Attempt \<Rightarrow> bool" where
  "others_keep_jobs a \<longleftrightarrow> (\<forall>(now, f) \<in> set (at_turns a). \<forall>s. sh_job (f s) = sh_job s)"

lemma session_jobs:
  assumes "session cx a s = (r, se, s')" and "job_slot_ok se0 s" and "others_keep_jobs a"
  shows "job_slot_ok se s'"
proof -
  let ?cx = "cx\<lparr>cx_write := at_write a\<rparr>"
  obtain r1 se1 s1 where o: "session_open ?cx (at_connect a) (at_begin a) s = (r1, se1, s1)" by (metis prod_cases3)
  have P: "jobs_inv se1 s1" by (rule session_open_jobs [OF o assms(2)])
  show ?thesis
  proof (cases r1)
    case (Inl e)
    then show ?thesis using assms(1) o jobs_inv_slot [OF P] by (simp add: session_def)
  next
    case (Inr u)
    then have run: "session_run ?cx (at_turns a) (at_reads a) se1 s1 = (r, se, s')" using assms(1) o by (simp add: session_def)
    have "\<forall>(now, f) \<in> set (at_turns a). \<forall>se s. jobs_inv se s \<longrightarrow> jobs_inv se (f s)"
      using assms(3) unfolding others_keep_jobs_def by (fastforce intro: jobs_inv_cong)
    from jobs.run_keeps [OF this P run] show ?thesis .
  qed
qed

lemma run_client_jobs:
  assumes "run_client_loop cx attempts ladder s = (ws, s')" and "job_slot_ok se0 s" and "\<forall>a\<in>set attempts. others_keep_jobs a"
  shows "job_slot_ok se0 s'"
  using assms
proof (induction attempts arbitrary: ladder s ws)
  case (Cons a attempts)
  obtain r se s1 where x: "session cx a s = (r, se, s1)" by (metis prod_cases3)
  have ok: "job_slot_ok se s1" using session_jobs [OF x Cons.prems(2)] Cons.prems(3) by simp
  show ?case
  proof (cases r)
    case (Inr u)
    then show ?thesis using Cons.prems(1) x ok by (simp add: job_slot_ok_def)
  next
    case (Inl e)
    obtain w ladder2 s2 where f: "client_failed (cx_env cx) (at_failed a) e (se_authorized_at se) ladder s1 = (w, ladder2, s2)"
      by (metis prod_cases3)
    have "job_slot_ok se0 s2" using client_failed_clean(1) [OF f] by (simp add: job_slot_ok_def)
    moreover obtain ws2 where "run_client_loop cx attempts ladder2 s2 = (ws2, s')"
      using Cons.prems(1) x Inl f by (auto split: prod.splits)
    ultimately show ?thesis using Cons.IH Cons.prems(3) by simp
  qed
qed simp


section \<open>Properties\<close>

text \<open>
  A codec, a parser and a pool to show the properties at work: hex as it is written, and the
  messages of a pool that subscribes, sends a job and answers a share, named by one byte.
\<close>

fun demo_hex :: "bytes \<Rightarrow> string" where
  "demo_hex [] = []"
| "demo_hex (x # xs) = digit_char (unat x div 16) # digit_char (unat x mod 16) # demo_hex xs"

fun demo_unhex :: "string \<Rightarrow> bytes option" where
  "demo_unhex [] = Some []"
| "demo_unhex [c] = None"
| "demo_unhex (c # d # cs) =
     (case (to_digit 16 c, to_digit 16 d) of
        (Some x, Some y) \<Rightarrow> map_option (Cons (word_of_nat (16 * x + y))) (demo_unhex cs)
      | _ \<Rightarrow> None)"

lemma demo_unhex_hex: "demo_unhex (demo_hex bs) = Some bs"
proof (induction bs)
  case (Cons x xs)
  have x: "unat x < 256" using unsigned_less [of x, where 'a = nat] by simp
  then have "to_digit 16 (digit_char (unat x div 16)) = Some (unat x div 16)"
    "to_digit 16 (digit_char (unat x mod 16)) = Some (unat x mod 16)"
    by (simp_all add: to_digit_digit_char)
  moreover have "word_of_nat (16 * (unat x div 16) + unat x mod 16) = x" by simp
  ultimately show ?case using Cons.IH by simp
qed simp

definition demo_net :: Net where
  "demo_net = \<lparr>net_parse = \<lambda>_. None, net_show = \<lambda>_. ''null'', net_hex_decode = demo_unhex, net_hex_encode = demo_hex,
     net_show_f64 = \<lambda>_. ''1'', net_version = ''1.0''\<rparr>"

definition demo_messages :: "bytes \<Rightarrow> json option" where
  "demo_messages line =
     (if line = [1] then Some (JObj [(''id'', jint 1), (''result'', JArr [JNull, JStr ''00000001'', jint 4])])
      else if line = [2] then Some (JObj [(''id'', JNull), (''method'', JStr ''mining.notify''),
             (''params'', JArr (notify_params demo_net demo_job (JBool True)))])
      else None)"

definition demo_cx :: Ctx where
  "demo_cx = \<lparr>cx_env = demo_env, cx_net = demo_net\<lparr>net_parse := demo_messages\<rparr>,
     cx_cfg = \<lparr>cfg_pool = ''pool:3333'', cfg_user = ''bc1'', cfg_password = ''x'', cfg_suggest_difficulty = None\<rparr>,
     cx_write = \<lambda>_. None\<rparr>"

text \<open>
  C18. However the socket cuts up what the pool sends, and wherever its reads time out in between, the
  lines come out whole, in order and once, without their line ends, as long as each is within
  \<open>MAX_LINE_BYTES\<close>; what follows the last end of line stays in the buffer.
\<close>

theorem lines_reassembled:
  assumes "buf @ stream reads = wire ls @ rest" and "\<forall>x\<in>set ls. line_ok x"
    and "newline \<notin> set rest" and "length rest \<le> MAX_LINE_BYTES"
    and "\<forall>r\<in>set reads. r \<noteq> Data [] \<and> (\<forall>e. r \<noteq> Read_error e)"
    and "length reads + length ls \<le> n"
  shows "read_lines n reads buf = (Inr (map fst ls), [], rest)"
  by (rule read_lines_wire [OF assms(2-4) assms(1) assms(5,6)])

theorem lines_reassembled_witness:
  "read_lines 6 [Data [123], No_data, Data [125, 13, 10, 65, 10], Data [66]] [] = (Inr [[123, 125], [65]], [], [66])"
  using lines_reassembled [of "[]" "[Data [123], No_data, Data [125, 13, 10, 65, 10], Data [66]]"
      "[([123, 125], True), ([65], False)]" "[66]" 6]
  by (simp add: wire_def newline_def line_ok_def MAX_LINE_BYTES_def)

text \<open>
  C20. A turn sends the queued shares in the order they were found, numbered on from the last, and either
  all of them, leaving the queue empty, or those before the first write that fails, the share in
  hand being lost and the rest left in the queue.
\<close>

theorem submits_in_order:
  assumes "submit_pending cx now (sh_submit s) se s = (r, se', s')"
  shows "\<exists>k \<le> length (sh_submit s).
    se_sent se' = se_sent se @
      map (\<lambda>j. submit_message cx (se_next_submit_id se + word_of_nat j) (sh_submit s ! j)) [0..<k] \<and>
    se_next_submit_id se' = se_next_submit_id se + word_of_nat k \<and>
    (\<forall>j<k. cx_write cx (length (se_sent se) + j) = None) \<and>
    (case r of Inr _ \<Rightarrow> k = length (sh_submit s) \<and> sh_submit s' = []
     | Inl e \<Rightarrow> k < length (sh_submit s) \<and> cx_write cx (length (se_sent se) + k) = Some e \<and>
         sh_submit s' = drop (Suc k) (sh_submit s))"
proof -
  from submit_pending_sends [OF assms] obtain k where k: "k \<le> length (sh_submit s)"
    "se_sent se' = se_sent se @ submits cx (se_next_submit_id se) (take k (sh_submit s))"
    "se_next_submit_id se' = se_next_submit_id se + word_of_nat k"
    "case r of Inr _ \<Rightarrow> k = length (sh_submit s) \<and> (sh_submit s \<noteq> [] \<longrightarrow> sh_submit s' = [])
     | Inl e \<Rightarrow> k < length (sh_submit s) \<and> cx_write cx (length (se_sent se) + k) = Some e \<and> sh_submit s' = drop (Suc k) (sh_submit s)"
    "\<forall>j<k. cx_write cx (length (se_sent se) + j) = None" by blast
  have "sh_submit s = [] \<Longrightarrow> s' = s" using assms by auto
  moreover have "submits cx (se_next_submit_id se) (take k (sh_submit s)) =
      map (\<lambda>j. submit_message cx (se_next_submit_id se + word_of_nat j) (sh_submit s ! j)) [0..<k]"
    using k(1) by (intro nth_equalityI) (simp_all add: submits_def)
  ultimately show ?thesis using k by (intro exI [of _ k]) (auto split: sum.splits)
qed

definition demo_share :: FoundShare where
  "demo_share = \<lparr>fs_job_id = ''1'', fs_extranonce2 = [0, 0, 0, 7], fs_ntime = 0, fs_nonce = 5, fs_hash_display = ''00'',
     fs_is_block_candidate = False\<rparr>"

theorem submits_in_order_witness:
  "\<exists>se' s'. submit_pending (demo_cx\<lparr>cx_write := \<lambda>n. if n = 1 then Some (OtherIo ''reset'') else None\<rparr>) 0
       [demo_share, demo_share, demo_share] (Session_new 0) (demo_shared\<lparr>sh_submit := [demo_share, demo_share, demo_share]\<rparr>) =
       (Inl (OtherIo ''reset''), se', s') \<and> length (se_sent se') = 1 \<and> sh_submit s' = [demo_share]"
proof -
  let ?cx = "demo_cx\<lparr>cx_write := \<lambda>n. if n = 1 then Some (OtherIo ''reset'') else None\<rparr>"
  let ?s = "demo_shared\<lparr>sh_submit := [demo_share, demo_share, demo_share]\<rparr>"
  obtain r se' s' where x: "submit_pending ?cx 0 (sh_submit ?s) (Session_new 0) ?s = (r, se', s')"
    by (metis prod_cases3)
  have "r = Inl (OtherIo ''reset'') \<and> length (se_sent se') = 1 \<and> sh_submit s' = [demo_share]"
    using submits_in_order [OF x] by (cases r) (auto simp: Session_new_def split: if_splits)
  then show ?thesis using x by simp
qed

text \<open>
  In every session, whatever the pool sends and the other threads do, the n-th share submitted
  carries the id 100 + n (modulo the width of the counter), so no two share an id before the counter
  wraps.
\<close>

theorem submit_ids_sequential:
  "case session cx a s of (r, se, s') \<Rightarrow>
     let ms = filter (\<lambda>m. jfield m ''method'' = JStr ''mining.submit'') (se_sent se)
     in map (\<lambda>m. jfield m ''id'') ms = map (\<lambda>n. JNum (PosInt (100 + word_of_nat n))) [0..<length ms] \<and>
        se_next_submit_id se = 100 + word_of_nat (length ms)"
proof -
  let ?cx = "cx\<lparr>cx_write := at_write a\<rparr>"
  obtain r se s' where x: "session cx a s = (r, se, s')" by (metis prod_cases3)
  obtain r1 se1 s1 where o: "session_open ?cx (at_connect a) (at_begin a) s = (r1, se1, s1)" by (metis prod_cases3)
  note P = session_open_ids [OF o]
  have others: "\<forall>(now, f) \<in> set (at_turns a). \<forall>se s. ids_inv se s \<longrightarrow> ids_inv se (f s)"
    by (auto intro: ids_inv_cong)
  have "ids_inv se s'"
  proof (cases r1)
    case (Inl e)
    then show ?thesis using x o P by (simp add: session_def)
  next
    case (Inr u)
    then have "session_run ?cx (at_turns a) (at_reads a) se1 s1 = (r, se, s')" using x o by (simp add: session_def)
    from ids.run_keeps [OF others P this] show ?thesis .
  qed
  then show ?thesis using x by (simp add: ids_inv_def is_submit_def [abs_def])
qed

text \<open>
  C19. The parameters of a \<open>mining.notify\<close> give back the job they announce: the prevhash with its words
  swapped back, the coinbase parts, the Merkle branch and the three words, with the connection's
  extranonces, the target of its difficulty, the height read off the coinbase and the proof of work
  of the version.
\<close>

theorem notify_round_trip:
  assumes "\<And>b. net_hex_decode net (net_hex_encode net b) = Some b"
    and "length (job_prev_hash job) = 32" and "\<forall>x\<in>set (job_merkle_steps job). length x = 32"
  shows "parse_notify net (notify_params net job clean) e n d =
    Some (job\<lparr>job_extranonce1 := e, job_extranonce2_size := n, job_share_target := target_for_difficulty d,
      job_height := bip34_height (job_coinb1 job), job_algo := for_version (job_version job)\<rparr>)"
  by (rule parse_notify_params [OF assms])

theorem notify_round_trip_witness:
  "parse_notify demo_net (notify_params demo_net demo_job JNull) [1] 4 (F_Fin 1) =
    Some (demo_job\<lparr>job_extranonce1 := [1], job_extranonce2_size := 4, job_share_target := target_for_difficulty (F_Fin 1),
      job_height := bip34_height (job_coinb1 demo_job), job_algo := for_version (job_version demo_job)\<rparr>)"
  by (rule notify_round_trip) (simp_all add: demo_net_def demo_unhex_hex demo_job_def)

text \<open>
  C21. The pool's answer to a request of id 100 or more counts exactly one share, accepted or rejected, and
  as stale too exactly when it is rejected with code 21; no other message changes these counts.
\<close>

theorem answers_counted:
  "case handle_message cx now msg se s of (r, se', s') \<Rightarrow>
     (st_accepted (sh_stats s'), st_rejected (sh_stats s'), st_stale (sh_stats s')) =
     (let a = st_accepted (sh_stats s); b = st_rejected (sh_stats s); c = st_stale (sh_stats s)
      in if (case as_u64 (jfield msg ''id'') of Some n \<Rightarrow> 100 \<le> n | None \<Rightarrow> False)
         then if jfield msg ''result'' = JBool True then (a + 1, b, c)
              else (a, b + 1, if jelem (jfield msg ''error'') 0 = jint 21 then c + 1 else c)
         else (a, b, c))"
proof -
  obtain r se' s' where x: "handle_message cx now msg se s = (r, se', s')" by (metis prod_cases3)
  show ?thesis using handle_message_counters [OF x counters_def] unfolding x prod.case counters_def Let_def is_stale_def .
qed

text \<open>
  C22. The client waits 1, 2, 4, ... and at most 60 seconds between attempts, and starts again from 1
  after every session authorized for a minute or more.
\<close>

theorem backoff_ladder:
  "fst (run_client cx attempts s) = waits (healthy_sessions cx attempts Backoff_new s) Backoff_new \<and>
   waits (replicate n False) Backoff_new = map (\<lambda>k. word_of_nat (min (2 ^ k) 60)) [0..<n] \<and>
   drop (length hs) (waits (hs @ True # replicate n False) Backoff_new) = map (\<lambda>k. word_of_nat (min (2 ^ k) 60)) [0..<Suc n]"
proof -
  have new: "Backoff_new = word_of_nat (rung 0)" by (simp add: Backoff_new_def rung_def)
  have ladder: "waits (replicate m False) Backoff_new = map (\<lambda>k. word_of_nat (min (2 ^ k) 60)) [0..<m]" for m
    using waits_replicate [of m 0] by (simp add: new rung_def)
  obtain l where "waits (hs @ True # replicate n False) Backoff_new = waits hs Backoff_new @ waits (True # replicate n False) l"
    using waits_append by blast
  moreover have "waits (True # replicate n False) l = waits (replicate (Suc n) False) Backoff_new"
    unfolding waits_healthy new by simp
  ultimately have "drop (length hs) (waits (hs @ True # replicate n False) Backoff_new) = map (\<lambda>k. word_of_nat (min (2 ^ k) 60)) [0..<Suc n]"
    using ladder [of "Suc n"] by (simp del: upt_Suc replicate_Suc waits.simps)
  then show ?thesis using ladder [of n] run_client_waits [of cx attempts Backoff_new s] by (simp add: run_client_def del: upt_Suc)
qed


text \<open>
  C17. Whatever the pool sends, over any number of connections, the job the workers find has a
  prevhash, Merkle steps and a share target of 32 bytes, an extranonce1 of at most 32, room for an
  extranonce2 of 1 to 16 bytes, the target of a positive finite difficulty, and the proof of work its
  version says.
\<close>

theorem session_jobs_wellformed:
  assumes "sh_job s = None" and "\<forall>a\<in>set attempts. others_keep_jobs a"
  shows "case sh_job (snd (run_client cx attempts s)) of Some job \<Rightarrow> job_wf job | None \<Rightarrow> True"
proof -
  obtain ws s' where r: "run_client_loop cx attempts Backoff_new s = (ws, s')" by fastforce
  have "job_slot_ok undefined s" using assms(1) by (simp add: job_slot_ok_def)
  from run_client_jobs [OF r this assms(2)] r show ?thesis by (simp add: run_client_def job_slot_ok_def)
qed

definition demo_attempt :: Attempt where
  "demo_attempt = \<lparr>at_connect = None, at_begin = 0, at_turns = [(0, \<lambda>s. s), (0, \<lambda>s. s)],
     at_reads = [Data [1, 10, 2, 10]], at_write = \<lambda>_. None, at_failed = 0\<rparr>"

lemma quiet_turn:
  assumes "se_rejects se = []" and "hr_since (se_report se) = None" and "sh_submit s = []"
  shows "session_turn cx now reads se s = session_read cx now reads se s"
proof -
  have upd: "se\<lparr>se_rejects := []\<rparr> = se" using assms(1) by simp
  have "session_turn cx now reads se s = session_read cx now reads (se\<lparr>se_rejects := []\<rparr>) s"
    using assms by (simp add: session_turn_def report_due_def print_lines_def)
  then show ?thesis unfolding upd .
qed

text \<open>The demonstration pool subscribes in the first turn and sends its job in the second.\<close>

lemma demo_turn_subscribe:
  assumes "se_rx_buf se = []"
  shows "\<exists>os s'. session_read (demo_cx\<lparr>cx_write := w\<rparr>) 0 [Data [1, 10, 2, 10]] se s =
    (Inr (), [], se\<lparr>se_rx_buf := [2, 10], se_last_rx := 0, se_outstanding := os, se_extranonce1 := [0, 0, 0, 1],
       se_subscribed := True, se_extranonce2_size := 4\<rparr>, s') \<and> sh_submit s' = sh_submit s"
proof -
  let ?se = "se\<lparr>se_rx_buf := [2, 10], se_last_rx := 0\<rparr>"
  have n: "next_line [Data [1, 10, 2, 10]] (se_rx_buf se) = (Inr (Some [1]), [], [2, 10])"
    using assms by (simp add: next_line.simps take_line_def newline_def MAX_LINE_BYTES_def)
  let ?msg = "JObj [(''id'', jint 1), (''result'', JArr [JNull, JStr ''00000001'', jint 4])]"
  obtain se1 s1 where t: "time_answer 0 ?msg ?se s = (se1, s1)" by fastforce
  have se1: "se1 = ?se\<lparr>se_outstanding := se_outstanding se1\<rparr>" by (rule time_answer_frame(2) [OF t])
  have q: "sh_submit s1 = sh_submit s"
    using t by (auto simp: time_answer_def record_pool_rtt_def split_def Let_def split: option.splits)
  have e: "parse_extranonce1 (cx_net demo_cx) (JStr ''00000001'') = Some [0, 0, 0, 1]"
    by (simp add: parse_extranonce1_def demo_cx_def demo_net_def to_digit_def MAX_EXTRANONCE1_def)
  have "handle_message (demo_cx\<lparr>cx_write := w\<rparr>) 0 ?msg ?se s =
      (Inr (), se1\<lparr>se_extranonce1 := [0, 0, 0, 1], se_subscribed := True, se_extranonce2_size := 4\<rparr>, s1)"
    unfolding handle_message_def t by (simp add: on_subscribe_def Let_def e) (simp add: jint_def)
  then show ?thesis unfolding session_read_def n
    by (subst (asm) se1) (auto simp: demo_cx_def demo_messages_def q)
qed

lemma demo_turn_notify:
  assumes "se_rx_buf se = [2, 10]" and "se_subscribed se"
  shows "\<exists>se' s'. session_read (demo_cx\<lparr>cx_write := w\<rparr>) 0 [] se s = (Inr (), [], se', s') \<and>
    sh_job s' = Some (demo_job\<lparr>job_extranonce1 := se_extranonce1 se, job_extranonce2_size := se_extranonce2_size se,
      job_share_target := target_for_difficulty (se_difficulty se), job_height := bip34_height (job_coinb1 demo_job),
      job_algo := for_version (job_version demo_job)\<rparr>)"
proof -
  let ?cx = "demo_cx\<lparr>cx_write := w\<rparr>" and ?se = "se\<lparr>se_rx_buf := [], se_last_rx := 0\<rparr>"
  have n: "next_line [] (se_rx_buf se) = (Inr (Some [2]), [], [])"
    using assms(1) by (simp add: next_line.simps take_line_def newline_def)
  let ?msg = "JObj [(''id'', JNull), (''method'', JStr ''mining.notify''), (''params'', JArr (notify_params demo_net demo_job (JBool True)))]"
  have p: "parse_notify (cx_net demo_cx) (notify_params demo_net demo_job (JBool True)) e sz d =
      Some (demo_job\<lparr>job_extranonce1 := e, job_extranonce2_size := sz, job_share_target := target_for_difficulty d,
        job_height := bip34_height (job_coinb1 demo_job), job_algo := for_version (job_version demo_job)\<rparr>)" for e sz d
  proof -
    have "notify_params demo_net = notify_params (cx_net demo_cx)"
      by (simp add: fun_eq_iff notify_params_def demo_cx_def demo_net_def)
    then show ?thesis by (simp only:) (rule parse_notify_params, simp_all add: demo_cx_def demo_net_def demo_unhex_hex demo_job_def)
  qed
  have l: "\<not> length (notify_params demo_net demo_job (JBool True)) < 9" by (simp add: notify_params_def)
  have "on_method ?cx 0 ?msg ?se s = (Inr (), ?se, publish_job (cx_env ?cx) 0
      (demo_job\<lparr>job_extranonce1 := se_extranonce1 se, job_extranonce2_size := se_extranonce2_size se,
        job_share_target := target_for_difficulty (se_difficulty se), job_height := bip34_height (job_coinb1 demo_job),
        job_algo := for_version (job_version demo_job)\<rparr>) s)"
    using assms(2) by (simp add: on_method_def p l del: not_less)
  moreover have "handle_message ?cx 0 ?msg ?se s = on_method ?cx 0 ?msg ?se s"
    by (simp add: handle_message_def time_answer_def jint_def)
  ultimately show ?thesis unfolding session_read_def n
    by (simp add: demo_cx_def demo_messages_def publish_job_fields)
qed

lemma demo_session_job:
  "\<exists>job. sh_job (snd (run_client demo_cx [demo_attempt] demo_shared)) = Some job \<and> job_prev_hash job = replicate 32 0 \<and> job_extranonce2_size job = 4"
proof -
  let ?cx = "demo_cx\<lparr>cx_write := at_write demo_attempt\<rparr>"
  obtain r se s where x: "session_open ?cx None 0 demo_shared = (r, se, s)" by (metis prod_cases3)
  have r: "r = Inr ()" and f: "se_rejects se = []" "hr_since (se_report se) = None" "se_rx_buf se = []"
    using x by (auto simp: session_open_def send_noted_def send_def se_note_sent_def demo_cx_def demo_attempt_def Session_new_def
        HashrateReport_new_def Let_def)
  have s: "sh_submit s = []" using session_open_state [OF x] by (simp add: demo_shared_def Shared_new_def)
  from demo_turn_subscribe [OF f(3)] obtain os s1 where one: "session_read ?cx 0 [Data [1, 10, 2, 10]] se s =
    (Inr (), [], se\<lparr>se_rx_buf := [2, 10], se_last_rx := 0, se_outstanding := os, se_extranonce1 := [0, 0, 0, 1],
       se_subscribed := True, se_extranonce2_size := 4\<rparr>, s1)" and s1: "sh_submit s1 = sh_submit s" by blast
  let ?se1 = "se\<lparr>se_rx_buf := [2, 10], se_last_rx := 0, se_outstanding := os, se_extranonce1 := [0, 0, 0, 1],
       se_subscribed := True, se_extranonce2_size := 4\<rparr>"
  from demo_turn_notify [of ?se1 "at_write demo_attempt" s1] obtain se2 s2 job where
    two: "session_read ?cx 0 [] ?se1 s1 = (Inr (), [], se2, s2)" "sh_job s2 = Some job" "job_prev_hash job = job_prev_hash demo_job"
    "job_extranonce2_size job = 4" by auto
  have t1: "session_turn ?cx 0 [Data [1, 10, 2, 10]] se s = (Inr (), [], ?se1, s1)"
    using quiet_turn [OF f(1,2) s] one by simp
  have t2: "session_turn ?cx 0 [] ?se1 s1 = (Inr (), [], se2, s2)"
    using quiet_turn [of ?se1 s1] f(1,2) s s1 two(1) by simp
  have "session demo_cx demo_attempt demo_shared = (Inr (), se2, s2)"
    using x r t1 t2 by (simp add: session_def demo_attempt_def)
  then show ?thesis using two(2-4) by (simp add: run_client_def demo_job_def)
qed

theorem session_jobs_wellformed_witness:
  "\<exists>job. sh_job (snd (run_client demo_cx [demo_attempt] demo_shared)) = Some job \<and> job_wf job"
proof -
  have "sh_job demo_shared = None" by (simp add: demo_shared_def Shared_new_def)
  from session_jobs_wellformed [OF this, of "[demo_attempt]" demo_cx] demo_session_job show ?thesis
    by (auto simp: others_keep_jobs_def demo_attempt_def)
qed

end
