(* ===== verification/Startup.thy ===== *)
theory Startup
  imports Backends Stratum
begin

text \<open>
  \<open>src/main.rs\<close>: the environment variables, who mines with what, and what \<open>main\<close> starts - the
  shared state, the workers with their numbers, the pool's configuration - or the code it exits
  with; the watchdog and the stall guard, a turn of each. The build is the released one, without
  the internal tools. What the arguments parse to (\<open>clap\<close>), the devices listed, the number of cores
  and the BC3Hash tables are arguments. Strings are ASCII.
\<close>

section \<open>Definitions\<close>

subsection \<open>Arguments\<close>

datatype Mode = Pplns | Solo

fun default_pool :: "Mode \<Rightarrow> string" where
  "default_pool Pplns = ''bc3.online:3111''"
| "default_pool Solo = ''bc3.online:3112''"

record Args =
  ar_mode :: Mode
  ar_pool :: "string option"
  ar_user :: "string option"
  ar_wallet :: "string option"
  ar_rig :: "string option"
  ar_password :: string
  ar_backend :: BackendKind
  ar_gpu_id :: "nat option"
  ar_threads :: "nat option"
  ar_intensity :: u32
  ar_stats_interval :: u64
  ar_json :: bool
  ar_require_gpu :: bool
  ar_probe :: bool

definition VARS :: "string list" where
  "VARS = [''BC3_WALLET'', ''BC3_WORKER'', ''BC3_USER'', ''BC3_MODE'', ''BC3_POOL'',
     ''BC3_PASSWORD'', ''BC3_BACKEND'', ''BC3_THREADS'', ''BC3_INTENSITY'', ''BC3_GPU_ID'']"

text \<open>The environment, in the order \<open>vars\<close> lists it; \<open>set_var\<close> of a name that is not set.\<close>

type_synonym environment = "(string \<times> string) list"

definition set_var :: "string \<Rightarrow> string \<Rightarrow> environment \<Rightarrow> environment" where
  "set_var k v env = env @ [(k, v)]"

definition normalise_var :: "environment \<Rightarrow> string \<Rightarrow> environment \<Rightarrow> environment" where
  "normalise_var present want env =
     (if map_of env want \<noteq> None then env
      else case find (\<lambda>(k, v). eq_ignore_ascii_case k want) present of
             Some (k, v) \<Rightarrow> set_var want v env
           | None \<Rightarrow> env)"

definition normalise_env :: "environment \<Rightarrow> environment" where
  "normalise_env env = fold (normalise_var env) VARS env"

definition user_of :: "Args \<Rightarrow> string option" where
  "user_of args =
     (case ar_user args of
        Some u \<Rightarrow> Some u
      | None \<Rightarrow> map_option (\<lambda>w. case ar_rig args of
                               Some r \<Rightarrow> if r \<noteq> [] then w @ ''.'' @ r else w
                             | None \<Rightarrow> w) (ar_wallet args))"

subsection \<open>Who mines\<close>

definition plan_cpu :: "BackendKind \<Rightarrow> nat \<Rightarrow> nat option \<Rightarrow> nat \<Rightarrow> nat \<times> CpuRole" where
  "plan_cpu backend gpus threads all_cores =
     (case threads of
        Some n \<Rightarrow>
          if n = 0 then if gpus = 0 then (all_cores, Role_All) else (max (all_cores - (gpus + 1)) 1, Role_All)
          else (n, Role_All)
      | None \<Rightarrow>
          if gpus = 0 then (all_cores, Role_All)
          else if backend = Auto then (all_cores, GpuFallback)
          else (0, Role_All))"

definition plan_of :: "bool \<Rightarrow> GpuDevice list \<Rightarrow> nat \<Rightarrow> CpuRole \<Rightarrow> MiningPlan" where
  "plan_of bc3 gpus threads role =
     \<lparr>pl_gpus = length gpus,
      pl_cpu_threads = (if role = Role_All then threads else 0),
      pl_cpu_fallback_threads = (if role = GpuFallback then threads else 0),
      pl_gpu_kernel = map (\<lambda>a. \<exists>g\<in>set gpus. device_has_kernel bc3 g a) PowAlgo_ALL\<rparr>"

subsection \<open>Starting\<close>

text \<open>What the machine and the build have.\<close>

record Machine =
  mc_cores :: nat
  mc_cuda :: "GpuDevice list option"
  mc_opencl :: "GpuDevice list option"
  mc_bc3hash :: bool
  mc_version :: string
  mc_now :: instant

datatype TableMode = Compact | Fast

text \<open>
  What is running once \<open>main\<close> hands over to the client: a CPU worker is its number, the stride and
  its role; a GPU worker its device, slot, number and stride.
\<close>

record Rig =
  rig_shared :: Shared
  rig_cpu_workers :: "(nat \<times> nat \<times> CpuRole) list"
  rig_gpu_workers :: "(GpuDevice \<times> nat \<times> nat \<times> nat) list"
  rig_tables :: "TableMode option"
  rig_reporter :: "u64 \<times> bool"
  rig_guarded :: bool
  rig_names :: "string list"
  rig_config :: StratumConfig

datatype started = Exited nat | Running Rig

text \<open>\<open>{:?}\<close> of a string and of a list of them.\<close>

definition debug_char :: "char \<Rightarrow> string" where
  "debug_char c =
     (let n = of_char c :: nat
      in if n = 34 then [char_of (92 :: nat), c] else if n = 92 then [c, c]
         else if n = 9 then [char_of (92 :: nat)] @ ''t'' else if n = 10 then [char_of (92 :: nat)] @ ''n''
         else if n = 13 then [char_of (92 :: nat)] @ ''r'' else if n = 0 then [char_of (92 :: nat)] @ ''0''
         else if n < 32 \<or> n = 127 then [char_of (92 :: nat)] @ ''u{'' @ digits_of 16 n @ ''}''
         else [c])"

definition debug_str :: "string \<Rightarrow> string" where
  "debug_str s = [char_of (34 :: nat)] @ concat (map debug_char s) @ [char_of (34 :: nat)]"

definition debug_strs :: "string list \<Rightarrow> string" where
  "debug_strs xs = ''['' @ join '', '' (map debug_str xs) @ '']''"

definition probe :: "Machine \<Rightarrow> Args \<Rightarrow> out_line list \<times> started" where
  "probe mc args =
     (case (detect_gpus (mc_cuda mc) (mc_opencl mc) BK_Cuda None, detect_gpus (mc_cuda mc) (mc_opencl mc) BK_Opencl None) of
        (Inr cuda, Inr opencl) \<Rightarrow>
          let gpus = map describe cuda @ map describe opencl
          in (emit (ar_json args) (Probe gpus (mc_cores mc)) @
              human (ar_json args) (''GPUs: '' @ debug_strs gpus @ '', CPU cores: '' @ dec (mc_cores mc)), Exited 0)
      | (Inl e, _) \<Rightarrow> ([Err e], Exited 2)
      | (_, Inl e) \<Rightarrow> ([Err e], Exited 2))"

text \<open>No device: an exit, or mining on the CPU.\<close>

definition no_gpu :: "Args \<Rightarrow> out_line list \<times> bool" where
  "no_gpu args =
     (case ar_backend args of
        BK_Cuda \<Rightarrow> ([Err ''bc3-miner: no CUDA device found''], True)
      | BK_Opencl \<Rightarrow> ([Err ''bc3-miner: no OpenCL GPU found''], True)
      | Auto \<Rightarrow>
          if ar_require_gpu args
          then ([Err ''bc3-miner: no GPU found, and --require-gpu is set.'',
                 Err ''  On a container host this usually means the NVIDIA runtime'',
                 Err ''  is not in use, so no device ever reached the container.''], True)
          else (human (ar_json args) ''[gpu] no GPU found - mining on CPU'', False)
      | Cpu \<Rightarrow> ([], False))"

definition table_mode :: "bool \<Rightarrow> TableMode" where
  "table_mode gpu_bc3 = (if gpu_bc3 then Compact else Fast)"

text \<open>The threads \<open>main\<close> starts and the state they share.\<close>

definition start_rig :: "Machine \<Rightarrow> Args \<Rightarrow> string \<Rightarrow> GpuDevice list \<Rightarrow> Rig" where
  "start_rig mc args user gpus =
     (let (threads, role) = plan_cpu (ar_backend args) (length gpus) (ar_threads args) (mc_cores mc);
          plan = plan_of (mc_bc3hash mc) gpus threads role;
          gpu_bc3 = pl_gpu_kernel plan ! index Bc3Hash;
          s = set_intensity (ar_intensity args) (Shared_new SUBMIT_QUEUE plan (mc_now mc));
          workers = threads + length gpus;
          s = s\<lparr>sh_stats := (sh_stats s)\<lparr>st_gpu_workers_alive := word_of_nat (length gpus)\<rparr>\<rparr>
      in \<lparr>rig_shared = s,
          rig_cpu_workers = map (\<lambda>i. (i, workers, role)) [0..<threads],
          rig_gpu_workers = map (\<lambda>(g, gpu). (gpu, g, threads + g, workers)) (enumerate 0 gpus),
          rig_tables = (if mc_bc3hash mc \<and> (0 < threads \<or> gpu_bc3) then Some (table_mode gpu_bc3) else None),
          rig_reporter = (ar_stats_interval args, list_ex is_cuda gpus),
          rig_guarded = (0 < pl_gpus plan),
          rig_names = map describe gpus,
          rig_config = \<lparr>cfg_pool = (case ar_pool args of Some p \<Rightarrow> p | None \<Rightarrow> default_pool (ar_mode args)),
            cfg_user = user, cfg_password = ar_password args,
            cfg_suggest_difficulty = suggested_difficulty (length (filter is_cuda gpus)) (ar_intensity args)\<rparr>\<rparr>)"

definition start_lines :: "Machine \<Rightarrow> Args \<Rightarrow> GpuDevice list \<Rightarrow> Rig \<Rightarrow> out_line list" where
  "start_lines mc args gpus rig =
     (let js = ar_json args; plan = sh_plan (rig_shared rig)
      in human js (''bc3-miner '' @ mc_version mc @ '' - '' @ dec (length gpus) @ '' GPU(s), '' @
           dec (pl_cpu_threads plan) @ '' CPU thread(s)'') @
         concat (map (\<lambda>g. human js (''[gpu] found: '' @ describe g)) gpus) @
         (if 0 < pl_cpu_fallback_threads plan
          then human js (''[cpu] '' @ dec (pl_cpu_fallback_threads plan) @
                 '' thread(s) standing by, to mine BC3Hash should a GPU's kernel fail'') else []) @
         emit js (Event.Startup (mc_version mc) (if gpus = [] then ''cpu'' else ''gpu'') (map describe gpus)
           (pl_cpu_threads plan) (pl_cpu_fallback_threads plan)) @
         (if ar_intensity args < 100 then human js (''[miner] intensity '' @ dec (unat (ar_intensity args)) @ ''%'') else []) @
         (if gpus \<noteq> [] \<and> gpu_queue (rig_shared rig) \<noteq> QUEUE_DEPTH
          then human js (''[gpu] '' @ dec (gpu_queue (rig_shared rig)) @ '' kernel launch(es) queued per GPU'') else []))"

definition main_start :: "Machine \<Rightarrow> Args \<Rightarrow> out_line list \<times> started" where
  "main_start mc args =
     (if ar_probe args then probe mc args
      else case user_of args of
        None \<Rightarrow> ([Err ''bc3-miner: set --user <address[.rig]>, or --wallet with an optional --rig''], Exited 2)
      | Some user \<Rightarrow>
          (case (if ar_backend args = Cpu then Inr []
                 else detect_gpus (mc_cuda mc) (mc_opencl mc) (ar_backend args) (ar_gpu_id args)) of
             Inl e \<Rightarrow> ([Err e], Exited 2)
           | Inr gpus \<Rightarrow>
               let (said, ends) = (if gpus = [] then no_gpu args else ([], False))
               in if ends then (said, Exited 1)
                  else let rig = start_rig mc args user gpus in (said @ start_lines mc args gpus rig, Running rig)))"

subsection \<open>The threads of \<open>main\<close>\<close>

text \<open>The thread that builds the tables, given the error of \<open>initialize\<close>, their size and the seconds it took.\<close>

definition tables_thread :: "bool \<Rightarrow> TableMode \<Rightarrow> string + unit \<Rightarrow> nat \<Rightarrow> f64 \<Rightarrow> out_line list" where
  "tables_thread js mode result bytes secs =
     (case result of
        Inl e \<Rightarrow>
          let message = ''BC3Hash: NOT mining - '' @ e
          in Err (''bc3-miner: '' @ message) # emit js (Status StatusError message)
      | Inr _ \<Rightarrow>
          human js (''[cpu] BC3Hash tables ready and self-tested ('' @ (case mode of Compact \<Rightarrow> ''compact'' | Fast \<Rightarrow> ''fast'') @
            '', '' @ fmt_fixed 0 (f64_div (f64_of_nat bytes) (f64_of_nat (2 ^ 20))) @ '' MiB) in '' @ fmt_fixed 1 secs @ '' s''))"

text \<open>A turn of the watchdog: what it says when it ends the process.\<close>

definition watchdog_turn :: "Env \<Rightarrow> Shared \<Rightarrow> string option" where
  "watchdog_turn env s =
     (if 0 < st_gpu_workers_alive (sh_stats s) then None
      else let algo = current_algo s;
               cpu_mining = (case algo of
                               Some a \<Rightarrow> dev_cpu (devices_for env s a)
                             | None \<Rightarrow> 0 < pl_cpu_threads (sh_plan s) + pl_cpu_fallback_threads (sh_plan s))
           in if cpu_mining then None
              else Some (''bc3-miner: every GPU worker has stopped and the CPU is not mining '' @
                     (case algo of Some a \<Rightarrow> algo_name a | None \<Rightarrow> ''this job'') @ '' - '' @ [char_of (10 :: nat)] @
                     ''nothing is being mined. Exiting with an error so this is noticed.'' @ [char_of (10 :: nat)] @
                     ''Common causes: a driver too old for the kernel, or a GPU that fell off the bus.''))"

definition stall_message :: "GpuStall \<Rightarrow> string list \<Rightarrow> string \<Rightarrow> bool \<Rightarrow> string" where
  "stall_message change names algo cpu =
     (let card = (\<lambda>slot. case list_get names slot of Some n \<Rightarrow> n | None \<Rightarrow> ''GPU '' @ dec slot)
      in case change of
           Stalled slot idle_secs \<Rightarrow>
             ''[gpu] '' @ card slot @ '': no launch finished in '' @ dec (unat idle_secs) @
             '' s - its kernel is still loading, or the card or its driver stopped answering. '' @
             (if cpu then ''The CPU mines '' @ algo @ '' meanwhile.''
              else ''No CPU threads stand in for it (they do in --backend auto).'') @
             '' It takes '' @ algo @ '' back as soon as a launch finishes. If this keeps happening, report it with this log.''
         | Resumed slot \<Rightarrow> ''[gpu] '' @ card slot @ '': a launch finished again - it mines '' @ algo @ '' again.'')"

definition stall_guard_turn :: "Env \<Rightarrow> instant \<Rightarrow> string list \<Rightarrow> Shared \<Rightarrow> Shared" where
  "stall_guard_turn env now names s =
     (let (s, changes) = check_gpu_stalls env (now_us s now) (word_of_nat (GPU_STALL_SECS * 1000000)) s
      in fold (\<lambda>change s.
           let algo = current_algo s;
               cpu = (case algo of Some a \<Rightarrow> dev_cpu (devices_for env s a) | None \<Rightarrow> False);
               name = (case algo of Some a \<Rightarrow> algo_name a | None \<Rightarrow> ''the job'')
           in print_lines [Err (stall_message change names name cpu)] s) changes s)"

section \<open>Lemmas\<close>

lemma main_start_running:
  assumes "main_start mc args = (ls, Running rig)"
  obtains user gpus where "rig = start_rig mc args user gpus" and "user_of args = Some user"
    and "(if ar_backend args = Cpu then Inr []
          else detect_gpus (mc_cuda mc) (mc_opencl mc) (ar_backend args) (ar_gpu_id args)) = Inr gpus"
    and "gpus = [] \<Longrightarrow> ar_backend args = Cpu \<or> ar_backend args = Auto \<and> \<not> ar_require_gpu args"
  using assms
  by (auto simp: main_start_def probe_def no_gpu_def Let_def split: if_splits option.splits sum.splits BackendKind.splits prod.splits)

lemma start_rig_workers:
  assumes "plan_cpu (ar_backend args) (length gpus) (ar_threads args) (mc_cores mc) = (threads, role)"
  shows "rig_cpu_workers (start_rig mc args user gpus) = map (\<lambda>i. (i, threads + length gpus, role)) [0..<threads]"
    and "rig_gpu_workers (start_rig mc args user gpus) =
      map (\<lambda>g. (gpus ! g, g, threads + g, threads + length gpus)) [0..<length gpus]"
    and "sh_plan (rig_shared (start_rig mc args user gpus)) = plan_of (mc_bc3hash mc) gpus threads role"
    and "st_gpu_workers_alive (sh_stats (rig_shared (start_rig mc args user gpus))) = word_of_nat (length gpus)"
proof -
  have "map (\<lambda>(g, gpu). (gpu, g, threads + g, threads + length gpus)) (enumerate 0 gpus) =
      map (\<lambda>g. (gpus ! g, g, threads + g, threads + length gpus)) [0..<length gpus]"
    by (rule nth_equalityI) (simp_all add: nth_enumerate_eq)
  then show "rig_gpu_workers (start_rig mc args user gpus) =
      map (\<lambda>g. (gpus ! g, g, threads + g, threads + length gpus)) [0..<length gpus]"
    using assms by (simp add: start_rig_def Let_def)
qed (use assms in \<open>simp_all add: start_rig_def Let_def set_intensity_def Shared_new_def\<close>)

lemma rig_numbers:
  assumes "main_start mc args = (ls, Running rig)" and "(dev, slot, t, N) \<in> set (rig_gpu_workers rig)"
    and "(t', N', role) \<in> set (rig_cpu_workers rig)"
  shows "N' = N \<and> t < N \<and> t' < N \<and> t \<noteq> t'"
proof -
  from main_start_running [OF assms(1)] obtain user gpus where rig: "rig = start_rig mc args user gpus" by blast
  obtain threads role where plan: "plan_cpu (ar_backend args) (length gpus) (ar_threads args) (mc_cores mc) = (threads, role)"
    by fastforce
  show ?thesis using assms(2,3) by (auto simp: rig start_rig_workers [OF plan])
qed

lemma plan_cpu_threads:
  assumes "plan_cpu backend n threads cores = (t, role)" and "0 < cores"
  shows "0 < t \<or> 0 < n"
  using assms by (auto simp: plan_cpu_def split: if_splits option.splits)

lemma publish_job_alive: "st_gpu_workers_alive (sh_stats (publish_job env now job s)) = st_gpu_workers_alive (sh_stats s)"
  by (simp add: publish_job_def publish_locked_def note_pow_def note_height_def announce_def print_lines_def Let_def split_def
      split: option.splits)

text \<open>Setting the variables one after another: each gets its own value, or that of its first other spelling.\<close>

lemma map_of_set_var: "map_of (set_var k v env) x = (if map_of env x = None \<and> x = k then Some v else map_of env x)"
  by (auto simp: set_var_def map_add_def split: option.splits)

definition var_value :: "environment \<Rightarrow> environment \<Rightarrow> string \<Rightarrow> string option" where
  "var_value present env k =
     (case map_of env k of
        Some v \<Rightarrow> Some v
      | None \<Rightarrow> map_option snd (find (\<lambda>(k', v). eq_ignore_ascii_case k' k) present))"

lemma map_of_normalise_var:
  "map_of (normalise_var present want env) k = (if k = want then var_value present env k else map_of env k)"
  by (auto simp: normalise_var_def var_value_def map_of_set_var split: option.splits prod.splits)

lemma fold_normalise_var:
  assumes "distinct vars"
  shows "map_of (fold (normalise_var present) vars env) k = (if k \<in> set vars then var_value present env k else map_of env k)"
  using assms
proof (induction vars arbitrary: env)
  case (Cons want vars)
  have "var_value present (normalise_var present want env) k = var_value present env k" if "k \<noteq> want"
    using that by (simp add: var_value_def map_of_normalise_var)
  then show ?case using Cons by (auto simp: map_of_normalise_var)
qed simp

lemma distinct_VARS: "distinct VARS"
  by (simp add: VARS_def)

section \<open>Properties\<close>

text \<open>
  C29. Once \<open>main\<close> has started mining, its workers are numbered from 0 without a gap or a
  repeat, CPU threads first and then the cards in the order of their slots, all with the number of
  workers as stride - the partition the workers rely on - and the plan and the watchdog's count say
  what was started: there is always at least one worker.
\<close>

theorem startup_partitions_the_work:
  assumes "main_start mc args = (ls, Running rig)" and "0 < mc_cores mc"
  shows "\<exists>n. 0 < n \<and> map fst (rig_cpu_workers rig) @ map (\<lambda>(dev, slot, i, stride). i) (rig_gpu_workers rig) = [0..<n] \<and>
    (\<forall>(i, stride, role)\<in>set (rig_cpu_workers rig). stride = n) \<and>
    (\<forall>(dev, slot, i, stride)\<in>set (rig_gpu_workers rig). stride = n) \<and>
    map (\<lambda>(dev, slot, i, stride). slot) (rig_gpu_workers rig) = [0..<pl_gpus (sh_plan (rig_shared rig))] \<and>
    length (rig_cpu_workers rig) = pl_cpu_threads (sh_plan (rig_shared rig)) + pl_cpu_fallback_threads (sh_plan (rig_shared rig)) \<and>
    st_gpu_workers_alive (sh_stats (rig_shared rig)) = word_of_nat (length (rig_gpu_workers rig))"
proof -
  from main_start_running [OF assms(1)] obtain user gpus where rig: "rig = start_rig mc args user gpus" by blast
  obtain threads role where plan: "plan_cpu (ar_backend args) (length gpus) (ar_threads args) (mc_cores mc) = (threads, role)"
    by fastforce
  note w = start_rig_workers [where mc = mc and args = args and user = user, OF plan, folded rig]
  have "0 < threads + length gpus" using plan_cpu_threads [OF plan assms(2)] by auto
  moreover have "[0..<threads] @ map (\<lambda>g. threads + g) [0..<length gpus] = [0..<threads + length gpus]"
    by (rule nth_equalityI) (auto simp: nth_append)
  moreover have "role = Role_All \<or> role = GpuFallback" by (cases role) simp_all
  ultimately show ?thesis
    by (intro exI [of _ "threads + length gpus"]) (auto simp: w plan_of_def comp_def)
qed

definition demo_cards :: "GpuDevice list" where
  "demo_cards = [Cuda 0 ''RTX 4090'', Cuda 1 ''RTX 4090'']"

definition demo_machine :: Machine where
  "demo_machine = \<lparr>mc_cores = 8, mc_cuda = Some demo_cards, mc_opencl = Some [],
     mc_bc3hash = True, mc_version = ''2.1.0'', mc_now = 0\<rparr>"

definition demo_args :: Args where
  "demo_args = \<lparr>ar_mode = Pplns, ar_pool = None, ar_user = None, ar_wallet = Some ''bc1q'', ar_rig = Some ''rig'',
     ar_password = ''x'', ar_backend = Auto, ar_gpu_id = None, ar_threads = None, ar_intensity = 100,
     ar_stats_interval = 5, ar_json = False, ar_require_gpu = False, ar_probe = False\<rparr>"

lemma demo_main_start:
  "\<exists>ls. main_start demo_machine demo_args =
     (ls, Running (start_rig demo_machine demo_args ''bc1q.rig'' demo_cards))"
proof -
  have "detect_gpus (mc_cuda demo_machine) (mc_opencl demo_machine) Auto None = Inr demo_cards"
    by (simp add: detect_gpus_def select_gpu_def demo_machine_def demo_cards_def)
  moreover have "ar_backend demo_args = Auto" "ar_gpu_id demo_args = None" "\<not> ar_probe demo_args"
    "user_of demo_args = Some ''bc1q.rig''" "demo_cards \<noteq> []"
    by (simp_all add: demo_args_def user_of_def demo_cards_def)
  ultimately show ?thesis by (simp add: main_start_def Let_def)
qed

theorem startup_partitions_the_work_witness:
  "\<exists>ls rig. main_start demo_machine demo_args = (ls, Running rig) \<and>
     map fst (rig_cpu_workers rig) @ map (\<lambda>(dev, slot, i, stride). i) (rig_gpu_workers rig) = [0..<10]"
proof -
  let ?rig = "start_rig demo_machine demo_args ''bc1q.rig'' demo_cards"
  obtain ls where s: "main_start demo_machine demo_args = (ls, Running ?rig)" using demo_main_start by blast
  have plan: "plan_cpu (ar_backend demo_args) (length demo_cards) (ar_threads demo_args)
      (mc_cores demo_machine) = (8, GpuFallback)"
    by (simp add: plan_cpu_def demo_args_def demo_machine_def demo_cards_def)
  have len: "length (rig_cpu_workers ?rig) = 8" "length (rig_gpu_workers ?rig) = 2"
    by (simp_all add: start_rig_workers [OF plan]) (simp add: demo_cards_def)
  have "0 < mc_cores demo_machine" by (simp add: demo_machine_def)
  from startup_partitions_the_work [OF s this] obtain n where
    n: "map fst (rig_cpu_workers ?rig) @ map (\<lambda>(dev, slot, i, stride). i) (rig_gpu_workers ?rig) = [0..<n]" by blast
  from arg_cong [OF this, of length] have "n = 10" using len by simp
  then show ?thesis using s n by blast
qed

text \<open>
  After the environment is normalised each of the miner's variables has the value it had, or, where
  it was not set, that of the first variable spelled like it in another case; every other variable
  is as it was.
\<close>

theorem normalise_env_spec:
  "map_of (normalise_env env) k =
     (if k \<in> set VARS \<and> map_of env k = None then map_option snd (find (\<lambda>(k', v). eq_ignore_ascii_case k' k) env)
      else map_of env k)"
  by (simp add: normalise_env_def fold_normalise_var distinct_VARS var_value_def split: option.splits)

text \<open>
  C30. With every GPU worker stopped and none holding the proof of work, the watchdog ends the
  process exactly when no CPU thread was started or the CPU cannot hash it - so never in
  \<open>--backend auto\<close> without \<open>--threads\<close> while the CPU has BC3Hash, and always with a GPU backend
  chosen by name and no \<open>--threads\<close>.
\<close>

theorem watchdog_exits_when_idle:
  assumes "main_start mc args = (ls, Running rig)" and "0 < mc_cores mc"
    and "sh_plan s = sh_plan (rig_shared rig)" and "st_gpu_workers_alive (sh_stats s) = 0"
    and "current_algo s = Some a" and "\<not> gpus_mine s a"
  shows "(watchdog_turn env s \<noteq> None \<longleftrightarrow> rig_cpu_workers rig = [] \<or> \<not> cpu_may_support env a) \<and>
    (ar_threads args = None \<and> rig_gpu_workers rig \<noteq> [] \<longrightarrow> (rig_cpu_workers rig = [] \<longleftrightarrow> ar_backend args \<noteq> Auto))"
proof -
  from main_start_running [OF assms(1)] obtain user gpus where rig: "rig = start_rig mc args user gpus" by blast
  obtain threads role where plan: "plan_cpu (ar_backend args) (length gpus) (ar_threads args) (mc_cores mc) = (threads, role)"
    by fastforce
  note w = start_rig_workers [where mc = mc and args = args and user = user, OF plan, folded rig]
  have role: "role = Role_All \<or> role = GpuFallback" by (cases role) simp_all
  have "watchdog_turn env s \<noteq> None \<longleftrightarrow> rig_cpu_workers rig = [] \<or> \<not> cpu_may_support env a"
    using assms(4-6) role
    by (auto simp: watchdog_turn_def devices_for_def plan_devices_for_def assms(3) w plan_of_def Let_def)
  moreover have "rig_cpu_workers rig = [] \<longleftrightarrow> ar_backend args \<noteq> Auto"
    if "ar_threads args = None" "rig_gpu_workers rig \<noteq> []"
    using that plan assms(2) by (auto simp: w plan_cpu_def split: if_splits)
  ultimately show ?thesis by blast
qed

theorem watchdog_exits_when_idle_witness:
  "\<exists>s. sh_plan s = sh_plan (rig_shared (start_rig demo_machine demo_args ''bc1q.rig'' demo_cards)) \<and>
     st_gpu_workers_alive (sh_stats s) = 0 \<and> current_algo s = Some Bc3Hash \<and> watchdog_turn demo_env s = None"
proof -
  let ?rig = "start_rig demo_machine demo_args ''bc1q.rig'' demo_cards"
  let ?s = "publish_job demo_env 0 demo_job (GpuWorkerAlive_drop (GpuWorkerAlive_drop (rig_shared ?rig)))"
  obtain ls where r: "main_start demo_machine demo_args = (ls, Running ?rig)" using demo_main_start by blast
  have plan: "plan_cpu (ar_backend demo_args) (length demo_cards) (ar_threads demo_args) (mc_cores demo_machine) = (8, GpuFallback)"
    by (simp add: plan_cpu_def demo_args_def demo_machine_def demo_cards_def)
  note w = start_rig_workers [where user = "''bc1q.rig''", OF plan]
  have cap: "sh_gpu_capable (rig_shared ?rig) = replicate 3 0" "sh_gpu_slot_stalled (rig_shared ?rig) = [0, 0]"
    "sh_gpu_slot_claims (rig_shared ?rig) = [0, 0]"
    using plan by (simp_all add: start_rig_def Let_def set_intensity_def Shared_new_def plan_of_def demo_cards_def)
  have s: "sh_plan ?s = sh_plan (rig_shared ?rig)" "current_algo ?s = Some Bc3Hash" "sh_gpu_capable ?s = replicate 3 0"
    by (simp_all add: publish_job_frame GpuWorkerAlive_drop_def cap demo_job_def)
  have two: "length demo_cards = 2" by (simp add: demo_cards_def)
  have alive: "st_gpu_workers_alive (sh_stats ?s) = 0"
    by (simp add: publish_job_alive GpuWorkerAlive_drop_def w two)
  have idle: "\<not> gpus_mine ?s Bc3Hash" by (simp add: gpus_mine_def s(3))
  have cores: "0 < mc_cores demo_machine" by (simp add: demo_machine_def)
  have cpu: "cpu_may_support demo_env Bc3Hash"
    by (simp add: cpu_may_support_def bc3hash_unavailable_def demo_env_def)
  have "watchdog_turn demo_env ?s = None"
    using watchdog_exits_when_idle [OF r cores s(1) alive s(2) idle, of demo_env] cpu w(1) by auto
  with s alive show ?thesis by blast
qed

end
