(* ===== verification/Solve.thy ===== *)
theory Solve
  imports Startup
begin

text \<open>
  \<open>src/solve.rs\<close>: mining one fixed block template offline. Reading the template and building the
  coinbase around the extranonce, the job handed to the workers, the block a share makes, and the
  loop that checks the shares the workers send. \<open>serde_json\<close>, \<open>hex\<close>, SHA-256, the text of the
  standard library's number errors and \<open>exp\<close> are arguments. Strings are ASCII.
\<close>

section \<open>Definitions\<close>

definition EXTRANONCE1 :: nat where
  "EXTRANONCE1 = 4"

definition EXTRANONCE2 :: nat where
  "EXTRANONCE2 = 4"

definition MIN_SCRIPT_SIG :: nat where
  "MIN_SCRIPT_SIG = 2"

definition MAX_SCRIPT_SIG :: nat where
  "MAX_SCRIPT_SIG = 100"

definition REPORT_EVERY :: duration where
  "REPORT_EVERY = from_secs 30"

definition SHARE_EVERY :: f64 where
  "SHARE_EVERY = F_Fin 15"

record SolveConfig =
  sv_path :: string
  sv_difficulty :: "f64 option"
  sv_gpus :: nat
  sv_cpu_threads :: nat

record Payout =
  po_script_pub_key :: string
  po_satoshis :: u64

record JobFile =
  jf_network :: "string option"
  jf_height :: u32
  jf_n_version :: string
  jf_hash_prev_block :: string
  jf_n_time :: u32
  jf_n_bits :: string
  jf_script_sig_data :: string
  jf_payouts :: "Payout list"

record Template =
  tp_network :: "string option"
  tp_height :: u32
  tp_version :: u32
  tp_prev_hash :: bytes
  tp_time :: u32
  tp_bits :: u32
  tp_coinb1 :: bytes
  tp_coinb2 :: bytes
  tp_script_sig_text :: string
  tp_outputs :: nat
  tp_payout_total :: u64

text \<open>The crates and library functions the tool calls.\<close>

record SolveCrates =
  sc_parse :: "string \<Rightarrow> string + JobFile"
  sc_hex_decode :: "string \<Rightarrow> string + bytes"
  sc_int_error :: "nat \<Rightarrow> string \<Rightarrow> string"
  sc_utf8_lossy :: "bytes \<Rightarrow> string"
  sc_crates :: Crates
  sc_show_f64 :: "f64 \<Rightarrow> string"
  sc_exp :: "f64 \<Rightarrow> f64"
  sc_version :: string

definition bind_r :: "string + 'a \<Rightarrow> ('a \<Rightarrow> string + 'b) \<Rightarrow> string + 'b" where
  "bind_r r f = (case r of Inl e \<Rightarrow> Inl e | Inr x \<Rightarrow> f x)"

definition parse_u32 :: "SolveCrates \<Rightarrow> string \<Rightarrow> string \<Rightarrow> string + u32" where
  "parse_u32 sc field s =
     (let s = trim s;
          (radix, ds) = (if take 2 s = ''0x'' \<or> take 2 s = ''0X'' then (16, drop 2 s) else (10, s))
      in case from_str_radix 32 radix ds of
           Some n \<Rightarrow> Inr (word_of_nat n)
         | None \<Rightarrow> Inl (field @ '': '' @ debug_str s @ '' is not a number ('' @ sc_int_error sc radix ds @ '')''))"

definition unhex :: "SolveCrates \<Rightarrow> string \<Rightarrow> string \<Rightarrow> string + bytes" where
  "unhex sc field s =
     (case sc_hex_decode sc (trim s) of Inr b \<Rightarrow> Inr b | Inl e \<Rightarrow> Inl (field @ '': not hex ('' @ e @ '')''))"

text \<open>Bitcoin's CompactSize, appended to \<open>out\<close>.\<close>

definition push_varint :: "u64 \<Rightarrow> bytes \<Rightarrow> bytes" where
  "push_varint n out =
     (if n \<le> 0xfc then out @ [ucast n]
      else if n \<le> 0xffff then out @ [0xfd] @ to_le_bytes 2 (ucast n :: 16 word)
      else if n \<le> 0xffffffff then out @ [0xfe] @ to_le_bytes 4 (ucast n :: u32)
      else out @ [0xff] @ to_le_bytes 8 n)"

text \<open>The loop over the bytes of the height, and \<open>CScript() << height\<close>.\<close>

function script_num :: "u32 \<Rightarrow> bytes" where
  "script_num h = (if h = 0 then [] else ucast h # script_num (drop_bit 8 h))"
  by auto
termination
proof (relation "measure unat", goal_cases)
  case (2 h)
  then have "0 < unat h" by (simp add: unat_gt_0)
  then show ?case by (simp add: drop_bit_eq_div unat_div)
qed simp

declare script_num.simps [simp del]

definition push_height :: "u32 \<Rightarrow> string + bytes" where
  "push_height height =
     (if height \<le> 16 then Inl (''height '' @ dec (unat height) @ '': too low for a pushed BIP34 height'')
      else let num = script_num height;
               num = (if num \<noteq> [] \<and> last num AND 0x80 \<noteq> 0 then num @ [0] else num)
           in Inr ([word_of_nat (length num)] @ num))"

text \<open>The loop over the payouts, from number \<open>i\<close> on: the total so far and the bytes.\<close>

fun push_payouts :: "SolveCrates \<Rightarrow> nat \<Rightarrow> Payout list \<Rightarrow> u64 \<Rightarrow> bytes \<Rightarrow> string + (u64 \<times> bytes)" where
  "push_payouts sc i [] sat out = Inr (sat, out)"
| "push_payouts sc i (p # ps) sat out =
     bind_r (unhex sc (''payouts['' @ dec i @ ''].scriptPubKey'') (po_script_pub_key p)) (\<lambda>script.
       case checked_add sat (po_satoshis p) of
         None \<Rightarrow> Inl ''payouts: the total overflows''
       | Some sat \<Rightarrow>
           push_payouts sc (Suc i) ps sat
             (push_varint (word_of_nat (length script)) (out @ to_le_bytes 8 (po_satoshis p)) @ script))"

definition script_length_error :: "nat \<Rightarrow> nat \<Rightarrow> nat \<Rightarrow> string" where
  "script_length_error len height text_len =
     ''the coinbase scriptSig would be '' @ dec len @ '' bytes (height '' @ dec height @ '' + text '' @ dec text_len @
     '' + extranonce '' @ dec (EXTRANONCE1 + EXTRANONCE2) @ ''); consensus allows '' @ dec MIN_SCRIPT_SIG @ ''-'' @ dec MAX_SCRIPT_SIG"

definition Template_parse :: "SolveCrates \<Rightarrow> string \<Rightarrow> string + Template" where
  "Template_parse sc json =
     bind_r (case sc_parse sc json of Inr f \<Rightarrow> Inr f | Inl e \<Rightarrow> Inl (''job file: '' @ e)) (\<lambda>f.
     bind_r (parse_u32 sc ''nVersion'' (jf_n_version f)) (\<lambda>version.
     bind_r (parse_u32 sc ''nBits'' (jf_n_bits f)) (\<lambda>bits.
     if compact_to_target bits = None then Inl (''nBits 0x'' @ hex_pad 8 (unat bits) @ '' is not a valid target'')
     else bind_r (unhex sc ''hashPrevBlock'' (jf_hash_prev_block f)) (\<lambda>prev.
     if length prev \<noteq> 32 then Inl ''hashPrevBlock: not 32 bytes''
     else bind_r (unhex sc ''scriptSigData'' (jf_script_sig_data f)) (\<lambda>txt.
     bind_r (push_height (jf_height f)) (\<lambda>height.
     let script_sig_len = length height + length txt + EXTRANONCE1 + EXTRANONCE2
     in if \<not> (MIN_SCRIPT_SIG \<le> script_sig_len \<and> script_sig_len \<le> MAX_SCRIPT_SIG)
        then Inl (script_length_error script_sig_len (length height) (length txt))
        else if jf_payouts f = [] then Inl ''payouts: a coinbase needs at least one output''
        else let coinb1 = to_le_bytes 4 (2 :: u32) @ [1] @ replicate 32 0 @ replicate 4 0xff;
                 coinb1 = push_varint (word_of_nat script_sig_len) coinb1 @ height @ txt
             in bind_r (push_payouts sc 0 (jf_payouts f) 0
                   (push_varint (word_of_nat (length (jf_payouts f))) (replicate 4 0xff))) (\<lambda>(sat, coinb2).
                Inr \<lparr>tp_network = jf_network f, tp_height = jf_height f, tp_version = version, tp_prev_hash = rev prev,
                     tp_time = jf_n_time f, tp_bits = bits, tp_coinb1 = coinb1,
                     tp_coinb2 = coinb2 @ to_le_bytes 4 (0 :: u32), tp_script_sig_text = sc_utf8_lossy sc txt,
                     tp_outputs = length (jf_payouts f), tp_payout_total = sat\<rparr>)))))))"

definition Template_algo :: "Template \<Rightarrow> PowAlgo" where
  "Template_algo t = for_version (tp_version t)"

definition Template_job :: "Template \<Rightarrow> nat \<Rightarrow> bytes \<Rightarrow> f64 \<Rightarrow> MinerJob" where
  "Template_job t i extranonce1 difficulty =
     \<lparr>job_id = ''solve-'' @ dec i, job_extranonce1 = extranonce1, job_extranonce2_size = EXTRANONCE2,
      job_coinb1 = tp_coinb1 t, job_coinb2 = tp_coinb2 t, job_merkle_steps = [], job_version = tp_version t,
      job_prev_hash = tp_prev_hash t, job_bits = tp_bits t, job_ntime = tp_time t,
      job_share_target = target_for_difficulty difficulty, job_height = Some (tp_height t),
      job_algo = Template_algo t\<rparr>"

definition assemble :: "Crates \<Rightarrow> MinerJob \<Rightarrow> FoundShare \<Rightarrow> bytes \<times> bytes" where
  "assemble cr job share =
     (let coinbase = job_coinb1 job @ job_extranonce1 job @ fs_extranonce2 share @ job_coinb2 job;
          header = serialize \<lparr>hdr_version = job_version job, hdr_prev_hash = job_prev_hash job,
            hdr_merkle_root = sha256d (cr_sha256 cr) coinbase, hdr_time = fs_ntime share, hdr_bits = job_bits job,
            hdr_nonce = fs_nonce share\<rparr>
      in (header, push_varint 1 header @ coinbase))"

text \<open>\<open>256f64.powi\<close>.\<close>

definition powi_256 :: "int \<Rightarrow> f64" where
  "powi_256 k = f64_round (if 0 \<le> k then 256 ^ nat k else 1 / 256 ^ nat (- k))"

definition solve_difficulty_of_bits :: "u32 \<Rightarrow> f64" where
  "solve_difficulty_of_bits bits =
     (let exponent = int (unat (drop_bit 24 bits)); mantissa = unat (bits AND 0x7fffff)
      in if mantissa = 0 then F_Inf False
         else f64_mul (f64_div (F_Fin 65535) (f64_of_nat mantissa)) (powi_256 (29 - exponent)))"

definition random_extranonce1 :: "Crates \<Rightarrow> nat \<Rightarrow> u32 \<Rightarrow> bytes" where
  "random_extranonce1 cr nanos pid =
     (let seed = (word_of_nat nanos :: 128 word) XOR push_bit 64 (ucast pid)
      in take EXTRANONCE1 (sha256d (cr_sha256 cr) (to_le_bytes 16 seed)))"

definition solve_format_duration :: "f64 \<Rightarrow> string" where
  "solve_format_duration secs =
     (if \<not> f64_is_finite secs then ''-''
      else let s = f64_to_uint 64 (f64_max secs (F_Fin 0))
           in if s \<le> 119 then dec s @ '' s''
              else if s \<le> 7199 then dec (s div 60) @ '' min''
              else fmt_fixed 1 (f64_div (f64_of_nat s) (F_Fin 3600)) @ '' h'')"

definition share_difficulty :: "f64 \<Rightarrow> f64 \<Rightarrow> f64" where
  "share_difficulty rate block_difficulty =
     f64_min (f64_max (f64_div (f64_mul rate SHARE_EVERY) (F_Fin 4294967296)) (f64_div (F_Fin 1) (F_Fin (2 ^ 31))))
       (f64_div block_difficulty (F_Fin 64))"

text \<open>\<open>{:0w}\<close> of a number that is not negative, and the date of a Unix time.\<close>

definition dec_pad :: "nat \<Rightarrow> int \<Rightarrow> string" where
  "dec_pad w n = (let s = dec (nat n) in replicate (w - length s) CHR ''0'' @ s)"

definition civil :: "int \<Rightarrow> int \<times> int \<times> int" where
  "civil days =
     (let z = days + 719468;
          era = z div 146097;
          doe = z mod 146097;
          yoe = (doe - doe div 1460 + doe div 36524 - doe div 146096) div 365;
          y = yoe + era * 400;
          doy = doe - (365 * yoe + yoe div 4 - yoe div 100);
          mp = (5 * doy + 2) div 153;
          d = doy - (153 * mp + 2) div 5 + 1;
          m = (if mp < 10 then mp + 3 else mp - 9);
          y = (if m \<le> 2 then y + 1 else y)
      in (y, m, d))"

definition chrono_utc :: "u32 \<Rightarrow> string" where
  "chrono_utc unix =
     (let secs = int (unat unix); days = secs div 86400; rm = secs mod 86400; (y, m, d) = civil days
      in dec_pad 4 y @ ''-'' @ dec_pad 2 m @ ''-'' @ dec_pad 2 d @ '' '' @ dec_pad 2 (rm div 3600) @ '':'' @
         dec_pad 2 (rm mod 3600 div 60) @ '':'' @ dec_pad 2 (rm mod 60) @ '' UTC'')"

subsection \<open>The loop\<close>

text \<open>What the channel gives within its quarter of a second.\<close>

datatype recv = Got FoundShare | Timeout | Disconnected

record SolveState =
  ss_jobs :: "string \<rightharpoonup> MinerJob"
  ss_job_count :: u64
  ss_share_difficulty :: f64
  ss_last_report :: instant
  ss_last_hashes :: u64
  ss_ok :: u64
  ss_invalid :: u64

text \<open>What the run knows throughout.\<close>

record SolveRun =
  sr_env :: Env
  sr_crates :: SolveCrates
  sr_cfg :: SolveConfig
  sr_template :: Template
  sr_block_target :: Target
  sr_block_difficulty :: f64
  sr_extranonce1 :: bytes
  sr_started :: instant
  sr_hashes_at_start :: u64
  sr_save_error :: "string option"
  sr_quiesce :: "(instant \<times> (Shared \<Rightarrow> Shared)) list"

definition solve_publish :: "SolveRun \<Rightarrow> instant \<Rightarrow> f64 \<Rightarrow> SolveState \<times> Shared \<Rightarrow> SolveState \<times> Shared" where
  "solve_publish sr now difficulty = (\<lambda>(st, s).
     let n = ss_job_count st + 1;
         job = Template_job (sr_template sr) (unat n) (sr_extranonce1 sr) difficulty
     in (st\<lparr>ss_job_count := n, ss_jobs := (ss_jobs st)(job_id job \<mapsto> job)\<rparr>, publish_job (sr_env sr) now job s))"

definition block_work :: "SolveRun \<Rightarrow> f64" where
  "block_work sr = f64_mul (sr_block_difficulty sr) (F_Fin 4294967296)"

text \<open>The progress line of every half minute, and the share difficulty adjusted to the rate.\<close>

definition solve_report :: "SolveRun \<Rightarrow> instant \<Rightarrow> SolveState \<times> Shared \<Rightarrow> SolveState \<times> Shared" where
  "solve_report sr now = (\<lambda>(st, s).
     if duration_since now (ss_last_report st) < REPORT_EVERY then (st, s)
     else let hashes = st_hashes (sh_stats s);
              rate = f64_div (f64_of_nat (unat (hashes - ss_last_hashes st))) (as_secs_f64 (duration_since now (ss_last_report st)));
              did = f64_of_nat (unat (hashes - sr_hashes_at_start sr));
              st = st\<lparr>ss_last_hashes := hashes, ss_last_report := now\<rparr>;
              s = print_lines [Out (''[solve] '' @ solve_format_duration (as_secs_f64 (duration_since now (sr_started sr))) @
                    '' | '' @ format_hashrate rate @ '' | '' @ fmt_exp 3 did @ '' hashes | results '' @ dec (unat (ss_ok st)) @
                    '' ok, '' @ dec (unat (ss_invalid st)) @ '' invalid | expected '' @
                    solve_format_duration (f64_div (block_work sr) rate) @ '' per block at this rate, '' @
                    fmt_fixed 1 (f64_mul (F_Fin 100) (f64_sub (F_Fin 1)
                      (sc_exp (sr_crates sr) (f64_div (f64_neg did) (block_work sr))))) @ '' % chance by now'')] s
          in if sv_difficulty (sr_cfg sr) = None \<and> f64_lt (F_Fin 0) rate
             then let wanted = share_difficulty rate (sr_block_difficulty sr)
                  in if f64_lt (F_Fin (1 / 2)) (f64_abs (f64_sub (f64_div wanted (ss_share_difficulty st)) (F_Fin 1)))
                     then solve_publish sr now wanted (st\<lparr>ss_share_difficulty := wanted\<rparr>, s)
                     else (st, s)
             else (st, s))"

definition found_name :: "Template \<Rightarrow> string \<Rightarrow> string" where
  "found_name t hash_display = ''bc3-block-'' @ dec (unat (tp_height t)) @ ''-'' @ take 16 hash_display @ ''.txt''"

text \<open>What is written to the file of that name, and what is printed.\<close>

definition found_contents :: "Crates \<Rightarrow> Template \<Rightarrow> bytes \<Rightarrow> bytes \<Rightarrow> bytes \<Rightarrow> string" where
  "found_contents cr t hash header block =
     (let nl = [char_of (10 :: nat)]
      in ''height '' @ dec (unat (tp_height t)) @ nl @ ''hash '' @ hash_to_display (cr_hex_encode cr) hash @ nl @
         ''header '' @ cr_hex_encode cr header @ nl @ ''block '' @ cr_hex_encode cr block @ nl)"

definition found_lines :: "Crates \<Rightarrow> Template \<Rightarrow> bytes \<Rightarrow> bytes \<Rightarrow> bytes \<Rightarrow> duration \<Rightarrow> string option \<Rightarrow> out_line list" where
  "found_lines cr t hash header block took save_error =
     (let hash_display = hash_to_display (cr_hex_encode cr) hash; name = found_name t hash_display
      in [Out [], Out (''[solve] ==================== BLOCK '' @ dec (unat (tp_height t)) @ '' SOLVED ====================''),
          Out (''[solve] after '' @ solve_format_duration (as_secs_f64 took)),
          Out (''[solve] hash   '' @ hash_display), Out (''[solve] header '' @ cr_hex_encode cr header),
          Out (''[solve] block  '' @ cr_hex_encode cr block),
          (case save_error of
             None \<Rightarrow> Out (''[solve] saved to '' @ name)
           | Some e \<Rightarrow> Err (''[solve] could NOT save to '' @ name @ '': '' @ e @ '' - copy the block line above'')),
          Out (''[solve] submit with: bitcoinIII-cli submitblock <the block line> - on a node that has block '' @
            dec (unat (sat_sub (tp_height t) 1)))])"

text \<open>
  \<open>quiesce\<close>: the turns of its loop are when it looks at the clock and what the workers do while it
  sleeps.
\<close>

fun quiesce_loop :: "instant \<Rightarrow> (instant \<times> (Shared \<Rightarrow> Shared)) list \<Rightarrow> nat \<Rightarrow> u64 \<Rightarrow> Shared \<Rightarrow> Shared" where
  "quiesce_loop deadline [] still prev s = s"
| "quiesce_loop deadline ((now, others) # turns) still prev s =
     (if still < 3 \<and> now < deadline
      then let s = others s; hashes = st_hashes (sh_stats s)
           in quiesce_loop deadline turns (if hashes = prev then still + 1 else 0) hashes s
      else s)"

definition quiesce :: "instant \<Rightarrow> (instant \<times> (Shared \<Rightarrow> Shared)) list \<Rightarrow> Shared \<Rightarrow> Shared" where
  "quiesce now turns s =
     (let s = clear_job s in quiesce_loop (now + from_secs 10) turns 0 (st_hashes (sh_stats s)) s)"

text \<open>How a run ends: with a block (hash, header, block), or with the code of a failure.\<close>

datatype solve_end = Solved bytes bytes bytes | Failed nat

definition solve_turn ::
  "SolveRun \<Rightarrow> instant \<Rightarrow> recv \<Rightarrow> SolveState \<times> Shared \<Rightarrow> solve_end option \<times> SolveState \<times> Shared" where
  "solve_turn sr now ev = (\<lambda>(st, s).
     case ev of
       Disconnected \<Rightarrow> (Some (Failed 1), st, print_lines [Err ''[solve] the workers have stopped''] s)
     | Timeout \<Rightarrow> (None, solve_report sr now (st, s))
     | Got share \<Rightarrow>
         (case ss_jobs st (fs_job_id share) of
            None \<Rightarrow> (None, st, s)
          | Some job \<Rightarrow>
              let (header, block) = assemble (sc_crates (sr_crates sr)) job share;
                  algo = Template_algo (sr_template sr)
              in (case hash_fn (env_bc3 (sr_env sr)) algo of
                    None \<Rightarrow> (Some (Failed 1), st, print_lines [Err (''[solve] this build cannot hash '' @ algo_name algo)] s)
                  | Some pow \<Rightarrow>
                      let hash = pow header
                      in if \<not> hash_meets_target hash (job_share_target job)
                         then (None, st\<lparr>ss_invalid := ss_invalid st + 1\<rparr>,
                               print_lines [Out (''[solve] INVALID result: nonce '' @ hex_pad 8 (unat (fs_nonce share)) @
                                 '' - the CPU reference does not agree'')] s)
                         else let st = st\<lparr>ss_ok := ss_ok st + 1\<rparr>
                              in if hash_meets_target hash (sr_block_target sr)
                                 then (Some (Solved hash header block), st,
                                       quiesce now (sr_quiesce sr)
                                         (print_lines (found_lines (sc_crates (sr_crates sr)) (sr_template sr) hash header block
                                            (duration_since now (sr_started sr)) (sr_save_error sr)) s))
                                 else (None, solve_report sr now (st, s)))))"

text \<open>The loop over what the channel gives, with what the workers do before each.\<close>

fun solve_loop ::
  "SolveRun \<Rightarrow> (instant \<times> recv \<times> (Shared \<Rightarrow> Shared)) list \<Rightarrow> SolveState \<times> Shared \<Rightarrow> solve_end option \<times> SolveState \<times> Shared" where
  "solve_loop sr [] x = (None, x)"
| "solve_loop sr ((now, ev, others) # evs) (st, s) =
     (case solve_turn sr now ev (st, others s) of
        (Some e, x) \<Rightarrow> (Some e, x)
      | (None, x) \<Rightarrow> solve_loop sr evs x)"

definition solve_guess :: "SolveConfig \<Rightarrow> f64" where
  "solve_guess cfg =
     (if 0 < sv_gpus cfg then f64_mul (f64_of_nat (sv_gpus cfg)) (F_Fin 150000)
      else f64_mul (f64_of_nat (max (sv_cpu_threads cfg) 1)) (F_Fin 1000))"

definition solve_intro :: "SolveCrates \<Rightarrow> Template \<Rightarrow> out_line list" where
  "solve_intro sc t =
     [Out (''[solve] bc3-miner '' @ sc_version sc @
        '' - solving a fixed block template offline: no pool, no node, nothing leaves this machine''),
      Out (''[solve] block '' @ dec (unat (tp_height t)) @ '' on '' @ cr_hex_encode (sc_crates sc) (rev (tp_prev_hash t)) @ '' ('' @
        (case tp_network t of Some n \<Rightarrow> n | None \<Rightarrow> ''?'') @ ''), version 0x'' @ hex_pad 8 (unat (tp_version t)) @ '' -> '' @
        algo_name (Template_algo t) @ '', bits 0x'' @ hex_pad 8 (unat (tp_bits t)) @ '' = difficulty '' @
        sc_show_f64 sc (solve_difficulty_of_bits (tp_bits t))),
      Out (''[solve] time '' @ dec (unat (tp_time t)) @ '' ('' @ chrono_utc (tp_time t) @ ''), coinbase: '' @ dec (tp_outputs t) @
        '' output(s), '' @ fmt_fixed 8 (f64_div (f64_of_nat (unat (tp_payout_total t))) (F_Fin 100000000)) @
        '' BC3, scriptSig text '' @ debug_str (tp_script_sig_text t))]"

text \<open>What the run starts its loop with: the extranonce1, the share difficulty, the counters.\<close>

definition solve_start ::
  "Env \<Rightarrow> SolveCrates \<Rightarrow> SolveConfig \<Rightarrow> Template \<Rightarrow> Target \<Rightarrow> bytes \<Rightarrow> instant \<Rightarrow> string option \<Rightarrow>
   (instant \<times> (Shared \<Rightarrow> Shared)) list \<Rightarrow> Shared \<Rightarrow> SolveRun \<times> SolveState" where
  "solve_start env sc cfg t block_target e1 now save_error quiet s =
     (let bd = solve_difficulty_of_bits (tp_bits t);
          difficulty = (case sv_difficulty cfg of Some d \<Rightarrow> d | None \<Rightarrow> share_difficulty (solve_guess cfg) bd)
      in (\<lparr>sr_env = env, sr_crates = sc, sr_cfg = cfg, sr_template = t, sr_block_target = block_target,
           sr_block_difficulty = bd, sr_extranonce1 = e1, sr_started = now,
           sr_hashes_at_start = st_hashes (sh_stats s), sr_save_error = save_error, sr_quiesce = quiet\<rparr>,
          \<lparr>ss_jobs = Map.empty, ss_job_count = 0, ss_share_difficulty = difficulty, ss_last_report = now,
           ss_last_hashes = st_hashes (sh_stats s), ss_ok = 0, ss_invalid = 0\<rparr>))"

text \<open>
  \<open>run\<close>: the file, the clock and process number of the extranonce1, and the loop's events are
  arguments; the result is how it ended, if it did. A panic is code 101.
\<close>

definition solve_run ::
  "Env \<Rightarrow> SolveCrates \<Rightarrow> SolveConfig \<Rightarrow> string + string \<Rightarrow> nat \<Rightarrow> u32 \<Rightarrow> instant \<Rightarrow> string option \<Rightarrow>
   (instant \<times> (Shared \<Rightarrow> Shared)) list \<Rightarrow> (instant \<times> recv \<times> (Shared \<Rightarrow> Shared)) list \<Rightarrow> Shared \<Rightarrow>
   solve_end option \<times> Shared" where
  "solve_run env sc cfg file nanos pid now save_error quiet evs s =
     (case file of
        Inl e \<Rightarrow> (Some (Failed 2), print_lines [Err (''[solve] cannot read '' @ sv_path cfg @ '': '' @ e)] s)
      | Inr txt \<Rightarrow>
          (case Template_parse sc txt of
             Inl e \<Rightarrow> (Some (Failed 2), print_lines [Err (''[solve] '' @ sv_path cfg @ '': '' @ e)] s)
           | Inr t \<Rightarrow>
               (case compact_to_target (tp_bits t) of
                  None \<Rightarrow> (Some (Failed 101), s)
                | Some block_target \<Rightarrow>
                    let s = print_lines (solve_intro sc t) s
                    in (case cpu_unavailable env (Template_algo t) True of
                          Some why \<Rightarrow> (Some (Failed 1), print_lines [Err (''[solve] cannot check results on the CPU: '' @ why)] s)
                        | None \<Rightarrow>
                            let e1 = random_extranonce1 (sc_crates sc) nanos pid;
                                s = print_lines [Out (''[solve] this run's extranonce1 is '' @ cr_hex_encode (sc_crates sc) e1 @
                                      '' - another machine or a restart searches its own space'')] s;
                                (sr, st) = solve_start env sc cfg t block_target e1 now save_error quiet s;
                                (ended, st, s) = solve_loop sr evs (solve_publish sr now (ss_share_difficulty st) (st, s))
                            in (ended, s)))))"

section \<open>Lemmas\<close>

subsection \<open>The height in the coinbase\<close>

lemma split_byte: "(h :: u32) = ucast (ucast h :: u8) OR push_bit 8 (drop_bit 8 h)"
  by (rule bit_word_eqI) (auto simp: bit_simps; metis le_add_diff_inverse not_less)

lemma le_val_script_num: "le_val (script_num h) = unat h"
proof (induction h rule: script_num.induct)
  case (1 h)
  show ?case
  proof (cases "h = 0")
    case False
    have "unat (ucast h :: u8) = unat h mod 256" by (simp add: unsigned_ucast_eq take_bit_eq_mod)
    moreover have "unat (drop_bit 8 h) = unat h div 256" by (simp add: drop_bit_eq_div unat_div)
    ultimately show ?thesis using False 1
      by (subst script_num.simps) (simp add: le_val_Cons)
  qed (simp add: script_num.simps)
qed

lemma length_script_num: "unat h < 256 ^ k \<Longrightarrow> length (script_num h) \<le> k"
proof (induction k arbitrary: h)
  case 0
  then have "h = 0" by (simp add: unsigned_eq_0_iff)
  then show ?case by (simp add: script_num.simps)
next
  case (Suc k)
  have "unat (drop_bit 8 h) < 256 ^ k" using Suc.prems by (simp add: drop_bit_eq_div unat_div less_mult_imp_div_less)
  from Suc.IH [OF this] show ?case by (subst script_num.simps) simp
qed

lemma or_height_script_num: "or_height i (script_num h @ replicate z 0) acc = acc OR push_bit (8 * i) h"
proof (induction h arbitrary: i acc rule: script_num.induct)
  case (1 h)
  have zeros: "or_height j (replicate z 0) a = a" for j a
    by (induction z arbitrary: j) simp_all
  show ?case
  proof (cases "h = 0")
    case True
    then show ?thesis by (simp add: script_num.simps zeros)
  next
    case False
    have "push_bit (8 * i) h = push_bit (8 * i) (ucast (ucast h :: u8)) OR push_bit (8 * (i + 1)) (drop_bit 8 h)"
      by (subst split_byte) (simp add: push_bit_or add.commute)
    then show ?thesis using False 1 by (subst script_num.simps) (simp add: or.assoc)
  qed
qed

lemma high_bit_byte: "(x :: u8) AND 0x80 \<noteq> 0 \<Longrightarrow> 128 \<le> unat x"
proof (rule ccontr)
  assume a: "x AND 0x80 \<noteq> 0" "\<not> 128 \<le> unat x"
  have "x AND 2 ^ 7 \<noteq> 0" using a(1) by simp
  then have "bit x 7" by (simp only: and_power_iff)
  then have "bit (unat x) 7" by (simp add: bit_unsigned_iff)
  then have "odd (unat x div 2 ^ 7)" unfolding bit_iff_odd .
  moreover have "unat x div 2 ^ 7 = 0" using a(2) by simp
  ultimately show False by simp
qed

lemma push_height_parts:
  assumes "push_height height = Inr hb" and "unat height < 2 ^ 31"
  obtains num z where "hb = word_of_nat (length num) # num" and "num = script_num height @ replicate z 0"
    and "1 \<le> length num" and "length num \<le> 4" and "last num AND 0x80 = 0"
proof -
  let ?n = "script_num height"
  define z where "z = (if ?n \<noteq> [] \<and> last ?n AND 0x80 \<noteq> 0 then 1 else 0 :: nat)"
  let ?num = "?n @ replicate z 0"
  have "\<not> height \<le> 16" using assms(1) by (auto simp: push_height_def split: if_splits)
  then have "height \<noteq> 0" by auto
  then have ne: "?n \<noteq> []" by (subst script_num.simps) simp
  then obtain xs x where x: "?n = xs @ [x]" by (metis rev_exhaust)
  have len: "length ?n \<le> 4" using assms(2) by (intro length_script_num) simp
  have "length ?num \<le> 4"
  proof (cases "x AND 0x80 \<noteq> 0")
    case True
    then have "128 \<le> unat x" by (rule high_bit_byte)
    then have "256 ^ length xs * 128 \<le> 256 ^ length xs * unat x" by simp
    also have "\<dots> \<le> le_val ?n" unfolding x by (simp add: le_val_append le_val_Cons)
    finally have "256 ^ length xs * 128 \<le> unat height" unfolding le_val_script_num .
    then have "length xs \<noteq> 3" using assms(2) by auto
    then show ?thesis using len by (simp add: x z_def)
  next
    case False
    then show ?thesis using len by (simp add: x z_def)
  qed
  moreover have "hb = word_of_nat (length ?num) # ?num"
    using assms(1) by (auto simp: push_height_def z_def Let_def split: if_splits)
  moreover have "last ?num AND 0x80 = 0" using ne by (simp add: z_def last_append)
  ultimately show ?thesis using ne by (intro that [of ?num z]) (simp_all add: Suc_leI)
qed

text \<open>Where the coinbase's prefix, script length and height are.\<close>

lemma bip34_height_of:
  assumes "length pre = 41" and "len < 0xfd" and "1 \<le> length num" and "length num \<le> 4" and "last num AND 0x80 = 0"
  shows "bip34_height (pre @ [len] @ (word_of_nat (length num) # num) @ rest) = Some (or_height 0 num 0)"
proof -
  let ?c = "pre @ [len] @ (word_of_nat (length num) # num) @ rest"
  let ?op = "word_of_nat (length num) :: u8"
  have op: "unat ?op = length num" using assms(4) by (simp add: unat_of_nat)
  have ops: "?op \<noteq> 0" "\<not> 0x51 \<le> ?op"
    using assms(3,4) op by (auto simp: word_unat_eq_iff word_le_nat_alt)
  have "list_get ?c 41 = Some len" "list_get ?c 42 = Some ?op"
    using assms(1) by (simp_all add: list_get_def nth_append)
  moreover have "list_get_range ?c 43 (43 + length num) = Some num"
    using assms(1) by (simp add: list_get_range_def)
  moreover have "num ! (length num - 1) AND 0x80 = 0" using assms(3,5) by (cases num rule: rev_cases) simp_all
  moreover have "len \<noteq> 0xfd" "len \<noteq> 0xfe" "len \<noteq> 0xff" using assms(2) by auto
  ultimately show ?thesis using ops op assms(3,4) by (auto simp: bip34_height_def Let_def)
qed

lemma bind_r_Inr: "bind_r r f = Inr y \<longleftrightarrow> (\<exists>x. r = Inr x \<and> f x = Inr y)"
  by (auto simp: bind_r_def split: sum.splits)

text \<open>What a template that parses is made of.\<close>

lemma Template_parse_parts:
  assumes "Template_parse sc json = Inr t"
  obtains f tx height where "sc_parse sc json = Inr f" and "push_height (tp_height t) = Inr height"
    and "length (tp_prev_hash t) = 32" and "compact_to_target (tp_bits t) \<noteq> None"
    and "MIN_SCRIPT_SIG \<le> length height + length tx + 8" and "length height + length tx + 8 \<le> MAX_SCRIPT_SIG"
    and "tp_coinb1 t = (to_le_bytes 4 (2 :: u32) @ [1] @ replicate 32 0 @ replicate 4 0xff) @
      [word_of_nat (length height + length tx + 8)] @ height @ tx"
proof -
  from assms obtain f version bits prev tx height sat coinb2 where
    x: "(case sc_parse sc json of Inr f \<Rightarrow> Inr f | Inl e \<Rightarrow> Inl (''job file: '' @ e)) = Inr f" "compact_to_target bits \<noteq> None"
    "length prev = 32" "push_height (jf_height f) = Inr height"
    "MIN_SCRIPT_SIG \<le> length height + length tx + EXTRANONCE1 + EXTRANONCE2"
    "length height + length tx + EXTRANONCE1 + EXTRANONCE2 \<le> MAX_SCRIPT_SIG" and
    t: "t = \<lparr>tp_network = jf_network f, tp_height = jf_height f, tp_version = version, tp_prev_hash = rev prev,
       tp_time = jf_n_time f, tp_bits = bits, tp_coinb1 = push_varint (word_of_nat (length height + length tx + EXTRANONCE1 + EXTRANONCE2))
         (to_le_bytes 4 (2 :: u32) @ [1] @ replicate 32 0 @ replicate 4 0xff) @ height @ tx,
       tp_coinb2 = coinb2 @ to_le_bytes 4 (0 :: u32), tp_script_sig_text = sc_utf8_lossy sc tx,
       tp_outputs = length (jf_payouts f), tp_payout_total = sat\<rparr>"
    by (auto simp: Template_parse_def bind_r_Inr Let_def split: if_splits)
  let ?len = "length height + length tx + 8"
  have len: "?len \<le> 100" using x(6) by (simp add: EXTRANONCE1_def EXTRANONCE2_def MAX_SCRIPT_SIG_def)
  have u: "unat (word_of_nat ?len :: u64) = ?len"
    using len by (simp add: unat_of_nat del: of_nat_add)
  have "push_varint (word_of_nat ?len) out = out @ [word_of_nat ?len]" for out
  proof -
    have "(word_of_nat ?len :: u64) \<le> 0xfc" using len u by (simp add: word_le_nat_alt)
    moreover have "ucast (word_of_nat ?len :: u64) = (word_of_nat ?len :: u8)"
      using len by (simp add: word_unat_eq_iff unsigned_ucast_eq unat_of_nat take_bit_eq_mod del: of_nat_add)
    ultimately show ?thesis by (simp add: push_varint_def)
  qed
  note push = this
  have e: "length height + length tx + EXTRANONCE1 + EXTRANONCE2 = ?len" by (simp add: EXTRANONCE1_def EXTRANONCE2_def)
  have f: "sc_parse sc json = Inr f" using x(1) by (auto split: sum.splits)
  note x' = x [unfolded e] and t' = t [unfolded e push]
  show ?thesis using x' by (intro that [OF f, of height tx]) (simp_all add: t')
qed

subsection \<open>The loop\<close>

text \<open>Every job the loop knows is the template's, at some share difficulty.\<close>

definition template_jobs :: "SolveRun \<Rightarrow> SolveState \<Rightarrow> bool" where
  "template_jobs sr st \<longleftrightarrow> (\<forall>i job. ss_jobs st i = Some job \<longrightarrow>
     (\<exists>n d. job = Template_job (sr_template sr) n (sr_extranonce1 sr) d))"

lemma template_jobs_publish:
  "template_jobs sr st \<Longrightarrow> solve_publish sr now d (st, s) = (st', s') \<Longrightarrow> template_jobs sr st'"
  by (auto simp: template_jobs_def solve_publish_def Let_def split: if_splits; blast)

lemma template_jobs_report:
  assumes "template_jobs sr st" and "solve_report sr now (st, s) = (st', s')"
  shows "template_jobs sr st'"
proof -
  have "template_jobs sr (st\<lparr>ss_last_hashes := h, ss_last_report := n\<rparr>)" for h n
    using assms(1) by (simp add: template_jobs_def)
  moreover have "template_jobs sr (st\<lparr>ss_last_hashes := h, ss_last_report := n, ss_share_difficulty := d\<rparr>)" for h n d
    using assms(1) by (simp add: template_jobs_def)
  ultimately show ?thesis
    using assms by (auto simp: solve_report_def Let_def split: if_splits elim!: template_jobs_publish [rotated])
qed

text \<open>A block the loop ends with: its header and coinbase are the template's, and its hash meets the block's target.\<close>

definition block_ok :: "SolveRun \<Rightarrow> bytes \<Rightarrow> bytes \<Rightarrow> bytes \<Rightarrow> bool" where
  "block_ok sr hash header block \<longleftrightarrow> (\<exists>pow en2 ntime nonce.
     let t = sr_template sr; cr = sc_crates (sr_crates sr);
         coinbase = tp_coinb1 t @ sr_extranonce1 sr @ en2 @ tp_coinb2 t
     in hash_fn (env_bc3 (sr_env sr)) (Template_algo t) = Some pow \<and> hash = pow header \<and>
        hash_meets_target hash (sr_block_target sr) \<and>
        header = serialize \<lparr>hdr_version = tp_version t, hdr_prev_hash = tp_prev_hash t,
          hdr_merkle_root = sha256d (cr_sha256 cr) coinbase, hdr_time = ntime, hdr_bits = tp_bits t, hdr_nonce = nonce\<rparr> \<and>
        block = header @ [1] @ coinbase)"

lemma push_varint_1: "push_varint 1 out = out @ [1]"
  by (simp add: push_varint_def)

lemma assemble_template_job:
  assumes "job = Template_job t n e d"
  shows "assemble cr job share =
    (let coinbase = tp_coinb1 t @ e @ fs_extranonce2 share @ tp_coinb2 t;
         header = serialize \<lparr>hdr_version = tp_version t, hdr_prev_hash = tp_prev_hash t,
           hdr_merkle_root = sha256d (cr_sha256 cr) coinbase, hdr_time = fs_ntime share, hdr_bits = tp_bits t,
           hdr_nonce = fs_nonce share\<rparr>
     in (header, header @ [1] @ coinbase))"
  by (simp add: assemble_def assms Template_job_def push_varint_1 Let_def)

lemma solve_turn_ok:
  assumes "template_jobs sr st" and "solve_turn sr now ev (st, s) = (r, st', s')"
  shows "template_jobs sr st' \<and> (\<forall>hash header block. r = Some (Solved hash header block) \<longrightarrow> block_ok sr hash header block)"
proof (cases ev)
  case (Got share)
  show ?thesis
  proof (cases "ss_jobs st (fs_job_id share)")
    case None
    then show ?thesis using assms Got by (simp add: solve_turn_def)
  next
    case (Some job)
    then obtain n d where job: "job = Template_job (sr_template sr) n (sr_extranonce1 sr) d"
      using assms(1) unfolding template_jobs_def by blast
    obtain header block where a: "assemble (sc_crates (sr_crates sr)) job share = (header, block)" by fastforce
    have keep: "template_jobs sr (st\<lparr>ss_invalid := x\<rparr>)" "template_jobs sr (st\<lparr>ss_ok := x\<rparr>)" for x
      using assms(1) by (simp_all add: template_jobs_def)
    show ?thesis
    proof (cases "hash_fn (env_bc3 (sr_env sr)) (Template_algo (sr_template sr))")
      case None
      then show ?thesis using assms Got Some a by (auto simp: solve_turn_def Let_def)
    next
      case (Some pow)
      have "block_ok sr (pow header) header block" if "hash_meets_target (pow header) (sr_block_target sr)"
        using that Some a unfolding assemble_template_job [OF job] by (auto simp: block_ok_def Let_def)
      then show ?thesis
        using assms(2) Got \<open>ss_jobs st (fs_job_id share) = Some job\<close> a Some keep template_jobs_report [OF keep(2)]
        by (auto simp: solve_turn_def Let_def split: if_splits prod.splits)
    qed
  qed
qed (use assms template_jobs_report in \<open>auto simp: solve_turn_def split: prod.splits\<close>)

lemma solve_loop_ok:
  assumes "template_jobs sr st" and "solve_loop sr evs (st, s) = (Some (Solved hash header block), x)"
  shows "block_ok sr hash header block"
  using assms
proof (induction evs arbitrary: st s)
  case (Cons e evs)
  obtain now ev others where e: "e = (now, ev, others)" by (metis prod_cases3)
  obtain r st1 s1 where t: "solve_turn sr now ev (st, others s) = (r, st1, s1)" by (metis prod_cases3)
  note ok = solve_turn_ok [OF Cons.prems(1) t]
  show ?case
  proof (cases r)
    case None
    then show ?thesis using Cons.prems(2) Cons.IH ok e t by simp
  next
    case (Some a)
    then show ?thesis using Cons.prems(2) ok e t by auto
  qed
qed simp

section \<open>Properties\<close>

text \<open>
  The coinbase of a template that parses carries its height where the miner - and the network -
  reads it, up to 2^31, and the length byte of its scriptSig counts the height, the text and the
  extranonce that the workers put in between, within the consensus limits.
\<close>

theorem template_height_round_trip:
  assumes "Template_parse sc json = Inr t" and "unat (tp_height t) < 2 ^ 31"
  shows "bip34_height (tp_coinb1 t) = Some (tp_height t) \<and>
    unat (tp_coinb1 t ! 41) = length (drop 42 (tp_coinb1 t)) + EXTRANONCE1 + EXTRANONCE2 \<and>
    MIN_SCRIPT_SIG \<le> unat (tp_coinb1 t ! 41) \<and> unat (tp_coinb1 t ! 41) \<le> MAX_SCRIPT_SIG"
proof -
  let ?pre = "to_le_bytes 4 (2 :: u32) @ [1] @ replicate 32 0 @ replicate 4 0xff :: bytes"
  from Template_parse_parts [OF assms(1)] obtain f tx hb where
    p: "push_height (tp_height t) = Inr hb" "MIN_SCRIPT_SIG \<le> length hb + length tx + 8" "length hb + length tx + 8 \<le> MAX_SCRIPT_SIG"
    "tp_coinb1 t = ?pre @ [word_of_nat (length hb + length tx + 8)] @ hb @ tx" by blast
  from push_height_parts [OF p(1) assms(2)] obtain num z where
    n: "hb = word_of_nat (length num) # num" "num = script_num (tp_height t) @ replicate z 0"
    "1 \<le> length num" "length num \<le> 4" "last num AND 0x80 = 0" by blast
  let ?len = "word_of_nat (length hb + length tx + 8) :: u8"
  have len: "unat ?len = length hb + length tx + 8"
    using p(3) by (simp add: unat_of_nat MAX_SCRIPT_SIG_def del: of_nat_add)
  have pre: "length ?pre = 41" by simp
  have "?len < 0xfd" using len p(3) by (simp add: word_less_nat_alt MAX_SCRIPT_SIG_def)
  from bip34_height_of [OF pre this n(3-5), of tx] have "bip34_height (tp_coinb1 t) = Some (or_height 0 num 0)"
    unfolding p(4) n(1) by simp
  moreover have "or_height 0 num 0 = tp_height t" unfolding n(2) or_height_script_num by simp
  moreover have "tp_coinb1 t ! 41 = ?len" "length (drop 42 (tp_coinb1 t)) = length hb + length tx"
    unfolding p(4) using pre by (simp_all add: nth_append)
  ultimately show ?thesis using len p(2,3) by (simp add: EXTRANONCE1_def EXTRANONCE2_def)
qed

text \<open>
  C31. When the run ends with a block, its header is the template's - version, previous hash, time found,
  bits - over the double SHA-256 of its one transaction, the coinbase of the template around the
  extranonces, that transaction follows the header in the block, and the hash of the header under
  the template's proof of work meets the target its bits encode.
\<close>

theorem solved_block_valid:
  assumes "solve_run env sc cfg file nanos pid now save_error quiet evs s = (Some (Solved hash header block), s')"
  shows "\<exists>json t target pow en2 ntime nonce. file = Inr json \<and> Template_parse sc json = Inr t \<and>
    compact_to_target (tp_bits t) = Some target \<and> hash_fn (env_bc3 env) (for_version (tp_version t)) = Some pow \<and>
    hash = pow header \<and> hash_meets_target hash target \<and>
    (let coinbase = tp_coinb1 t @ random_extranonce1 (sc_crates sc) nanos pid @ en2 @ tp_coinb2 t
     in header = serialize \<lparr>hdr_version = tp_version t, hdr_prev_hash = tp_prev_hash t,
          hdr_merkle_root = sha256d (cr_sha256 (sc_crates sc)) coinbase, hdr_time = ntime, hdr_bits = tp_bits t, hdr_nonce = nonce\<rparr> \<and>
        block = header @ [1] @ coinbase)"
proof -
  let ?e1 = "random_extranonce1 (sc_crates sc) nanos pid"
  from assms obtain json t target where
    j: "file = Inr json" "Template_parse sc json = Inr t" "compact_to_target (tp_bits t) = Some target"
    by (auto simp: solve_run_def split: sum.splits option.splits)
  define s1 where "s1 = print_lines [Out (''[solve] this run's extranonce1 is '' @ cr_hex_encode (sc_crates sc) ?e1 @
     '' - another machine or a restart searches its own space'')] (print_lines (solve_intro sc t) s)"
  obtain sr st where start: "solve_start env sc cfg t target ?e1 now save_error quiet s1 = (sr, st)" by fastforce
  obtain st1 s2 where pub: "solve_publish sr now (ss_share_difficulty st) (st, s1) = (st1, s2)" by fastforce
  have loop: "\<exists>x. solve_loop sr evs (st1, s2) = (Some (Solved hash header block), x)"
    using assms [unfolded solve_run_def j sum.case option.case Let_def s1_def [symmetric] start prod.case pub]
    by (auto split: option.splits prod.splits)
  have sr: "sr_template sr = t" "sr_extranonce1 sr = ?e1" "sr_env sr = env" "sr_crates sr = sc" "sr_block_target sr = target"
    "ss_jobs st = Map.empty"
    using start by (auto simp: solve_start_def Let_def)
  have "template_jobs sr st1" by (rule template_jobs_publish [OF _ pub]) (simp add: template_jobs_def sr(6))
  with loop solve_loop_ok have "block_ok sr hash header block" by blast
  then show ?thesis using j by (auto simp: block_ok_def sr Template_algo_def Let_def)
qed

definition demo_file :: JobFile where
  "demo_file = \<lparr>jf_network = None, jf_height = 64360, jf_n_version = ''0x20000800'', jf_hash_prev_block = demo_hex (replicate 32 0),
     jf_n_time = 1791768242, jf_n_bits = ''0x1c0ffff0'', jf_script_sig_data = ''6162'',
     jf_payouts = [\<lparr>po_script_pub_key = ''6a'', po_satoshis = 21000000\<rparr>]\<rparr>"

definition demo_sc :: SolveCrates where
  "demo_sc = \<lparr>sc_parse = \<lambda>_. Inr demo_file,
     sc_hex_decode = \<lambda>s. case demo_unhex s of Some b \<Rightarrow> Inr b | None \<Rightarrow> Inl ''odd length'',
     sc_int_error = \<lambda>_ _. ''invalid digit found in string'', sc_utf8_lossy = map (\<lambda>b. char_of (unat b)), sc_crates = demo_crates,
     sc_show_f64 = \<lambda>_. ''1'', sc_exp = \<lambda>x. x, sc_version = ''2.1.0''\<rparr>"

lemma demo_words:
  "parse_u32 demo_sc f ''0x20000800'' = Inr 0x20000800" "parse_u32 demo_sc f ''0x1c0ffff0'' = Inr 0x1c0ffff0"
  by (simp_all add: parse_u32_def trim_def is_space_def from_str_radix_def to_digit_def)

lemma demo_target: "compact_to_target 0x1c0ffff0 = Some ((replicate 32 0)[4 := 0x0f, 5 := 0xff, 6 := 0xf0])"
proof -
  have c: "(4095 :: u8) = 255" "(1048560 :: u8) = 240" by (simp_all add: word_unat_eq_iff)
  show ?thesis by (simp add: compact_to_target_def Let_def) (simp only: c)
qed

lemma demo_height: "push_height 64360 = Inr [3, 0x68, 0xfb, 0]"
proof -
  have "script_num 64360 = [0x68, 0xfb]" by (simp add: script_num.simps)
  then show ?thesis by (simp add: push_height_def)
qed

lemma zero_digit: "char_of (48 :: nat) = CHR ''0''"
  by code_simp

lemma one_digit: "char_of (49 :: nat) = CHR ''1''"
  by code_simp

lemma demo_template:
  "\<exists>t. Template_parse demo_sc json = Inr t \<and> tp_height t = 64360 \<and> tp_bits t = 0x1c0ffff0 \<and> tp_version t = 0x20000800"
proof -
  have "unhex demo_sc f ''6162'' = Inr [0x61, 0x62]" "unhex demo_sc f ''6a'' = Inr [0x6a]" for f
    by (simp_all add: unhex_def trim_def is_space_def demo_sc_def to_digit_def)
  moreover have "unhex demo_sc f (demo_hex (replicate 32 0)) = Inr (replicate 32 0)" for f
  proof -
    have "demo_hex (replicate n 0) = replicate (2 * n) CHR ''0''" for n by (induction n) (simp_all add: digit_char_def zero_digit)
    then have "trim (demo_hex (replicate 32 0)) = demo_hex (replicate 32 0)" by (simp add: trim_def is_space_def)
    then show ?thesis by (simp add: unhex_def demo_sc_def demo_unhex_hex)
  qed
  moreover have "sc_parse demo_sc json = Inr demo_file" by (simp add: demo_sc_def)
  ultimately show ?thesis
    by (simp add: Template_parse_def bind_r_def demo_file_def demo_words demo_target demo_height MIN_SCRIPT_SIG_def MAX_SCRIPT_SIG_def
        EXTRANONCE1_def EXTRANONCE2_def checked_add_def)
qed

theorem template_height_round_trip_witness:
  "\<exists>t. Template_parse demo_sc [] = Inr t \<and> bip34_height (tp_coinb1 t) = Some 64360"
proof -
  obtain t where t: "Template_parse demo_sc [] = Inr t" "tp_height t = 64360" using demo_template by blast
  then show ?thesis using template_height_round_trip [OF t(1)] by auto
qed

definition demo_solve_cfg :: SolveConfig where
  "demo_solve_cfg = \<lparr>sv_path = ''job.json'', sv_difficulty = None, sv_gpus = 1, sv_cpu_threads = 0\<rparr>"

theorem solved_block_valid_witness:
  "\<exists>hash header block s' target. solve_run demo_env demo_sc demo_solve_cfg (Inr []) 0 0 0 None []
      [(0, Got (demo_share\<lparr>fs_job_id := ''solve-1''\<rparr>), \<lambda>s. s)] demo_shared = (Some (Solved hash header block), s') \<and>
     compact_to_target 0x1c0ffff0 = Some target \<and> hash_meets_target hash target"
proof -
  let ?share = "demo_share\<lparr>fs_job_id := ''solve-1''\<rparr>" and ?e1 = "random_extranonce1 (sc_crates demo_sc) 0 0"
  let ?target = "(replicate 32 0)[4 := 0x0f, 5 := 0xff, 6 := 0xf0] :: Target"
  obtain t where t: "Template_parse demo_sc [] = Inr t" "tp_bits t = 0x1c0ffff0" "tp_version t = 0x20000800"
    using demo_template by blast
  have target: "compact_to_target (tp_bits t) = Some ?target" by (simp only: t(2) demo_target)
  have algo: "Template_algo t = Bc3Hash" by (simp add: Template_algo_def t(3) for_version_def BC3HASH_VBIT_def)
  have pow: "hash_fn (env_bc3 demo_env) Bc3Hash = Some (\<lambda>_. replicate 32 0)" by (simp add: demo_env_def)
  have cpu: "cpu_unavailable demo_env Bc3Hash True = None" by (simp add: bc3hash_unavailable_def demo_env_def)
  have zero: "hash_meets_target (replicate 32 0) x" if "length x = 32" for x
    using that by (simp add: hash_meets_target_iff le_val_def)
  define s1 where "s1 = print_lines [Out (''[solve] this run's extranonce1 is '' @ cr_hex_encode (sc_crates demo_sc) ?e1 @
     '' - another machine or a restart searches its own space'')] (print_lines (solve_intro demo_sc t) demo_shared)"
  obtain sr st where start: "solve_start demo_env demo_sc demo_solve_cfg t ?target ?e1 0 None [] s1 = (sr, st)" by fastforce
  have sr: "sr_template sr = t" "sr_env sr = demo_env" "sr_crates sr = demo_sc" "sr_block_target sr = ?target"
    "ss_job_count st = 0" "ss_jobs st = Map.empty"
    using start by (auto simp: solve_start_def Let_def)
  obtain st1 s2 where pub: "solve_publish sr 0 (ss_share_difficulty st) (st, s1) = (st1, s2)" by fastforce
  have job: "\<exists>job. ss_jobs st1 ''solve-1'' = Some job \<and> length (job_share_target job) = 32"
    using pub by (auto simp: solve_publish_def Let_def sr Template_job_def digits_of.simps digit_char_def one_digit)
  then obtain job where job: "ss_jobs st1 ''solve-1'' = Some job" "length (job_share_target job) = 32" by blast
  obtain header block where a: "assemble (sc_crates demo_sc) job ?share = (header, block)" by fastforce
  have "\<exists>x. solve_loop sr [(0, Got ?share, \<lambda>s. s)] (st1, s2) = (Some (Solved (replicate 32 0) header block), x)"
    using job a zero by (simp add: solve_turn_def sr algo demo_env_def Let_def)
  then obtain st3 s3 where loop: "solve_loop sr [(0, Got ?share, \<lambda>s. s)] (st1, s2) = (Some (Solved (replicate 32 0) header block), st3, s3)"
    by fastforce
  have run: "solve_run demo_env demo_sc demo_solve_cfg (Inr []) 0 0 0 None [] [(0, Got ?share, \<lambda>s. s)] demo_shared =
      (Some (Solved (replicate 32 0) header block), s3)"
    unfolding solve_run_def sum.case t(1) target option.case Let_def algo cpu s1_def [symmetric] start prod.case pub loop ..
  from solved_block_valid [OF run] t(1) target have "hash_meets_target (replicate 32 0) ?target" by auto
  with run show ?thesis using demo_target by blast
qed

end
