(* ===== verification/Web.thy ===== *)
theory Web
  imports Worker
begin

text \<open>
  \<open>wasm/src/lib.rs\<close>: the search compiled to WebAssembly for the pool's page. The linear memory is a
  map from addresses to bytes, a pointer an address, null 0. The buffers the page passes are
  assumed to be as long as the exports require. BC3Hash, the outcome of building its tables,
  SHA-256 and hex are arguments; \<open>alloc\<close> and \<open>dealloc\<close> are the library's allocator.
\<close>

section \<open>Definitions\<close>

subsection \<open>Memory\<close>

type_synonym memory = "nat \<Rightarrow> u8"

definition mem_read :: "memory \<Rightarrow> nat \<Rightarrow> nat \<Rightarrow> bytes" where
  "mem_read m p n = map (\<lambda>i. m (p + i)) [0..<n]"

definition mem_write :: "nat \<Rightarrow> bytes \<Rightarrow> memory \<Rightarrow> memory" where
  "mem_write p bs m = (\<lambda>a. if p \<le> a \<and> a < p + length bs then bs ! (a - p) else m a)"

subsection \<open>Algorithms\<close>

datatype init_result = Init_ok | Init_tables | Init_wrong

text \<open>The module: BC3Hash and BC3Mix with the feature, how their tables come up, the crates.\<close>

record Web =
  web_bc3 :: "PowFn option"
  web_mix :: "bytes \<Rightarrow> bytes"
  web_ready :: init_result
  web_sha256 :: "bytes \<Rightarrow> bytes"
  web_hex_decode :: "string \<Rightarrow> bytes option"
  web_hex_encode :: "bytes \<Rightarrow> string"

fun algo_id :: "PowAlgo \<Rightarrow> int" where
  "algo_id Sha256d = 0"
| "algo_id Sha3t = 1"
| "algo_id Bc3Hash = 2"

definition bc3hash_init :: "Web \<Rightarrow> int" where
  "bc3hash_init w =
     (case web_bc3 w of
        None \<Rightarrow> -2
      | Some _ \<Rightarrow> (case web_ready w of Init_ok \<Rightarrow> 1 | Init_tables \<Rightarrow> 0 | Init_wrong \<Rightarrow> -1))"

definition algo_from_id :: "Web \<Rightarrow> u32 \<Rightarrow> PowAlgo option" where
  "algo_from_id w i =
     (case find (\<lambda>a. algo_id a = sint i \<and> hash_fn (web_bc3 w) a \<noteq> None) [Sha256d, Sha3t, Bc3Hash] of
        Some a \<Rightarrow> if a \<noteq> Bc3Hash \<or> bc3hash_init w = 1 then Some a else None
      | None \<Rightarrow> None)"

definition pow_from_id :: "Web \<Rightarrow> u32 \<Rightarrow> PowFn option" where
  "pow_from_id w i = Option.bind (algo_from_id w i) (hash_fn (web_bc3 w))"

definition job_pow_algo :: "Web \<Rightarrow> u32 \<Rightarrow> int" where
  "job_pow_algo w version =
     (let algo = for_version version
      in case hash_fn (web_bc3 w) algo of Some _ \<Rightarrow> algo_id algo | None \<Rightarrow> -1)"

subsection \<open>Searching\<close>

text \<open>The loop, from the \<open>i\<close>-th nonce on; \<open>left\<close> are still to be tried.\<close>

fun search_from :: "PowFn \<Rightarrow> bytes \<Rightarrow> Target \<Rightarrow> u32 \<Rightarrow> u32 \<Rightarrow> nat \<Rightarrow> f64" where
  "search_from pow header target start i 0 = F_Fin (-1)"
| "search_from pow header target start i (Suc left) =
     (let nonce = start + i;
          header = copy_at 76 (to_le_bytes 4 nonce) header
      in if hash_meets_target (pow header) target then f64_of_nat (unat nonce)
         else search_from pow header target start (i + 1) left)"

definition search_with :: "PowFn \<Rightarrow> bytes \<Rightarrow> Target \<Rightarrow> u32 \<Rightarrow> u32 \<Rightarrow> f64" where
  "search_with pow header target nonce_start nonce_count = search_from pow header target nonce_start 0 (unat nonce_count)"

definition read_header_target :: "memory \<Rightarrow> nat \<Rightarrow> nat \<Rightarrow> bytes \<times> Target" where
  "read_header_target m header_ptr target_ptr = (mem_read m header_ptr 80, mem_read m target_ptr 32)"

definition search_algo :: "Web \<Rightarrow> memory \<Rightarrow> u32 \<Rightarrow> nat \<Rightarrow> nat \<Rightarrow> u32 \<Rightarrow> u32 \<Rightarrow> f64" where
  "search_algo w m algo header_ptr target_ptr nonce_start nonce_count =
     (if header_ptr = 0 \<or> target_ptr = 0 then F_Fin (-1)
      else case pow_from_id w algo of
             None \<Rightarrow> F_Fin (-2)
           | Some pow \<Rightarrow>
               let (header, target) = read_header_target m header_ptr target_ptr
               in search_with pow header target nonce_start nonce_count)"

definition search :: "Web \<Rightarrow> memory \<Rightarrow> nat \<Rightarrow> nat \<Rightarrow> u32 \<Rightarrow> u32 \<Rightarrow> f64" where
  "search w m header_ptr target_ptr nonce_start nonce_count =
     search_algo w m (word_of_int (algo_id Sha3t)) header_ptr target_ptr nonce_start nonce_count"

definition hash_header_algo :: "Web \<Rightarrow> u32 \<Rightarrow> nat \<Rightarrow> nat \<Rightarrow> memory \<Rightarrow> u32 \<times> memory" where
  "hash_header_algo w algo header_ptr out_ptr m =
     (if header_ptr = 0 \<or> out_ptr = 0 then (0, m)
      else case pow_from_id w algo of
             None \<Rightarrow> (0, m)
           | Some pow \<Rightarrow> (1, mem_write out_ptr (pow (mem_read m header_ptr 80)) m))"

definition hash_header :: "Web \<Rightarrow> nat \<Rightarrow> nat \<Rightarrow> memory \<Rightarrow> memory" where
  "hash_header w header_ptr out_ptr m = snd (hash_header_algo w (word_of_int (algo_id Sha3t)) header_ptr out_ptr m)"

subsection \<open>The rest of the exports\<close>

definition bc3hash_bytes_into :: "Web \<Rightarrow> u32 \<Rightarrow> nat \<Rightarrow> nat \<Rightarrow> nat \<Rightarrow> memory \<Rightarrow> u32 \<times> memory" where
  "bc3hash_bytes_into w which p len out_ptr m =
     (if out_ptr = 0 \<or> (p = 0 \<and> 0 < len) \<or> bc3hash_init w \<noteq> 1 then (0, m)
      else case web_bc3 w of
             None \<Rightarrow> (0, m)
           | Some bc3 \<Rightarrow>
               let bs = mem_read m p len
               in if which = 0 then (1, mem_write out_ptr (bc3 bs) m)
                  else if which = 1 then (1, mem_write out_ptr (web_mix w bs) m)
                  else (0, m))"

definition sha256d_into :: "Web \<Rightarrow> nat \<Rightarrow> nat \<Rightarrow> nat \<Rightarrow> memory \<Rightarrow> memory" where
  "sha256d_into w p len out_ptr m =
     (if p = 0 \<or> out_ptr = 0 then m else mem_write out_ptr (sha256d (web_sha256 w) (mem_read m p len)) m)"

definition swab32_into :: "nat \<Rightarrow> nat \<Rightarrow> memory \<Rightarrow> memory" where
  "swab32_into in_ptr out_ptr m =
     (if in_ptr = 0 \<or> out_ptr = 0 then m else mem_write out_ptr (swab32 (mem_read m in_ptr 32)) m)"

definition merkle_root_into :: "Web \<Rightarrow> nat \<Rightarrow> nat \<Rightarrow> nat \<Rightarrow> nat \<Rightarrow> memory \<Rightarrow> memory" where
  "merkle_root_into w txid_ptr steps_ptr steps_count out_ptr m =
     (if txid_ptr = 0 \<or> out_ptr = 0 then m
      else let steps = map (\<lambda>i. mem_read m (steps_ptr + i * 32) 32) [0..<steps_count]
           in mem_write out_ptr (root_from_steps (web_sha256 w) (mem_read m txid_ptr 32) steps) m)"

definition target_for_difficulty_into :: "f64 \<Rightarrow> nat \<Rightarrow> memory \<Rightarrow> memory" where
  "target_for_difficulty_into difficulty out_ptr m =
     (if out_ptr = 0 then m else mem_write out_ptr (target_for_difficulty difficulty) m)"

definition build_header :: "u32 \<Rightarrow> nat \<Rightarrow> nat \<Rightarrow> u32 \<Rightarrow> u32 \<Rightarrow> nat \<Rightarrow> memory \<Rightarrow> memory" where
  "build_header version prev_ptr merkle_ptr time bits out_ptr m =
     (if prev_ptr = 0 \<or> merkle_ptr = 0 \<or> out_ptr = 0 then m
      else mem_write out_ptr (serialize \<lparr>hdr_version = version, hdr_prev_hash = mem_read m prev_ptr 32,
             hdr_merkle_root = mem_read m merkle_ptr 32, hdr_time = time, hdr_bits = bits, hdr_nonce = 0\<rparr>) m)"

definition web_difficulty_of_hash :: "memory \<Rightarrow> nat \<Rightarrow> f64" where
  "web_difficulty_of_hash m hash_ptr = (if hash_ptr = 0 then F_Fin 0 else difficulty_of_hash (mem_read m hash_ptr 32))"

definition GENESIS_MERKLE_ROOT :: string where
  "GENESIS_MERKLE_ROOT = ''8e1df52fddd25c460304ff8ea7bcb570850bf0b0c027eecf8ebf8ab17d3e93b1''"

definition GENESIS_HASH :: string where
  "GENESIS_HASH = ''000000000c226a41e70717f6d4fbdcb6bfb4fdc40831ccc87fa9cfdd2c57bff6''"

definition web_self_test :: "Web \<Rightarrow> u32" where
  "web_self_test w =
     (case web_hex_decode w GENESIS_MERKLE_ROOT of
        None \<Rightarrow> 0
      | Some merkle_root \<Rightarrow>
          if length merkle_root \<noteq> 32 then 0
          else let genesis = \<lparr>hdr_version = 1, hdr_prev_hash = replicate 32 0, hdr_merkle_root = rev merkle_root,
                     hdr_time = 1777245555, hdr_bits = 0x1d00ffff, hdr_nonce = 2442659435\<rparr>
               in if hash_to_display (web_hex_encode w) (sha256d (web_sha256 w) (serialize genesis)) = GENESIS_HASH then 1 else 0)"

section \<open>Lemmas\<close>

lemma length_mem_read [simp]: "length (mem_read m p n) = n"
  by (simp add: mem_read_def)

lemma mem_read_write: "length bs = n \<Longrightarrow> mem_read (mem_write p bs m) p n = bs"
  by (rule nth_equalityI) (simp_all add: mem_read_def mem_write_def)

lemma mem_read_write_apart:
  assumes "p + n \<le> q \<or> q + length bs \<le> p"
  shows "mem_read (mem_write q bs m) p n = mem_read m p n"
  using assms by (auto simp: mem_read_def mem_write_def)

lemma sint_u32_small: "sint (i :: u32) = 2 \<longleftrightarrow> i = 2"
proof
  assume "sint i = 2"
  then have "word_of_int (sint i) = (word_of_int 2 :: u32)" by simp
  then show "i = 2" by simp
qed simp

lemma pow_from_id_eq: "pow_from_id w i = (if i = 2 \<and> bc3hash_init w = 1 then web_bc3 w else None)"
  by (auto simp: pow_from_id_def algo_from_id_def sint_u32_small bc3hash_init_def split: option.splits if_splits)

lemma copy_at_twice:
  assumes "length header = 80"
  shows "with_nonce (copy_at 76 (to_le_bytes 4 (x :: u32)) header) n = with_nonce header n"
  using assms by (simp add: with_nonce_def copy_at_def)

lemma search_from_find:
  assumes "length header = 80"
  shows "search_from pow header target start i k =
    (case find (\<lambda>n. hash_meets_target (pow (with_nonce header n)) target) (nonces (start + i) k) of
       Some n \<Rightarrow> f64_of_nat (unat n) | None \<Rightarrow> F_Fin (-1))"
  using assms
proof (induction k arbitrary: i header)
  case 0
  then show ?case by (simp add: nonces_def)
next
  case (Suc k)
  have l: "length (copy_at 76 (to_le_bytes 4 (start + i)) header) = 80" using Suc.prems by (simp add: copy_at_def)
  show ?case
    using Suc.IH [OF l, of "i + 1"]
    by (simp add: Let_def nonces_Suc with_nonce_def [symmetric] add.assoc
        copy_at_twice [OF Suc.prems, folded with_nonce_def])
qed

text \<open>The nonce of a hit as the page gets it: every \<open>u32\<close> is an \<open>f64\<close>.\<close>

lemma f64_of_u32: "f64_of_nat (unat (n :: u32)) = F_Fin (of_nat (unat n))"
  by (rule f64_of_nat_exact) (use unsigned_less [of n, where 'a = nat] in simp)

lemma mem_read_write_inside:
  assumes "i + length bs \<le> n"
  shows "mem_read (mem_write (p + i) bs m) p n = copy_at i bs (mem_read m p n)"
  using assms by (intro nth_equalityI) (auto simp: mem_read_def mem_write_def copy_at_def nth_append)

section \<open>Properties\<close>

text \<open>
  C32. The search the page calls gives -2 for every id it cannot hash, -1 for a null pointer and when
  no nonce of the range meets the target, and otherwise the first nonce of the range, in the order
  and with the headers the CPU worker hashes, whose hash does.
\<close>

theorem web_search_exact:
  "search_algo w m algo header_ptr target_ptr start count =
     (if header_ptr = 0 \<or> target_ptr = 0 then F_Fin (-1)
      else case (if algo = 2 \<and> bc3hash_init w = 1 then web_bc3 w else None) of
             None \<Rightarrow> F_Fin (-2)
           | Some pow \<Rightarrow>
               (case find (\<lambda>n. hash_meets_target (pow (with_nonce (mem_read m header_ptr 80) n)) (mem_read m target_ptr 32))
                       (nonces start (unat count)) of
                  Some n \<Rightarrow> F_Fin (of_nat (unat n))
                | None \<Rightarrow> F_Fin (-1)))"
  by (simp add: search_algo_def pow_from_id_eq read_header_target_def search_with_def search_from_find f64_of_u32
      split: option.splits)

text \<open>
  What the search returns as a hit the page can verify: the number is a nonce of the range, and
  hashing the header with that nonce written into it gives a hash that meets the target.
\<close>

theorem web_hit_verifies:
  assumes "search_algo w m algo header_ptr target_ptr start count = F_Fin x" and "0 \<le> x"
    and "\<forall>f. web_bc3 w = Some f \<longrightarrow> (\<forall>b. length (f b) = 32)" and "out_ptr \<noteq> 0"
  shows "\<exists>n. n \<in> set (nonces start (unat count)) \<and> x = of_nat (unat n) \<and>
    (case hash_header_algo w algo header_ptr out_ptr (mem_write (header_ptr + 76) (to_le_bytes 4 n) m) of
       (r, m') \<Rightarrow> r = 1 \<and> hash_meets_target (mem_read m' out_ptr 32) (mem_read m target_ptr 32))"
proof -
  let ?h = "mem_read m header_ptr 80" and ?t = "mem_read m target_ptr 32"
  have s: "search_algo w m algo header_ptr target_ptr start count =
     (if header_ptr = 0 \<or> target_ptr = 0 then F_Fin (-1)
      else case (if algo = 2 \<and> bc3hash_init w = 1 then web_bc3 w else None) of
             None \<Rightarrow> F_Fin (-2)
           | Some pow \<Rightarrow>
               (case find (\<lambda>n. hash_meets_target (pow (with_nonce ?h n)) ?t) (nonces start (unat count)) of
                  Some n \<Rightarrow> f64_of_nat (unat n)
                | None \<Rightarrow> F_Fin (-1)))"
    by (simp add: search_algo_def pow_from_id_eq read_header_target_def search_with_def search_from_find split: option.splits)
  then obtain pow n where p: "header_ptr \<noteq> 0" "algo = 2" "bc3hash_init w = 1" "web_bc3 w = Some pow"
    "find (\<lambda>n. hash_meets_target (pow (with_nonce ?h n)) ?t) (nonces start (unat count)) = Some n"
    "x = of_nat (unat n)"
    using assms(1,2) by (auto simp: f64_of_u32 split: if_splits option.splits)
  have n: "n \<in> set (nonces start (unat count))" "hash_meets_target (pow (with_nonce ?h n)) ?t"
    using p(5) by (auto simp: find_Some_iff)
  have "mem_read (mem_write (header_ptr + 76) (to_le_bytes 4 n) m) header_ptr 80 = with_nonce ?h n"
    by (simp add: mem_read_write_inside with_nonce_def)
  then have "hash_header_algo w algo header_ptr out_ptr (mem_write (header_ptr + 76) (to_le_bytes 4 n) m) =
      (1, mem_write out_ptr (pow (with_nonce ?h n)) (mem_write (header_ptr + 76) (to_le_bytes 4 n) m))"
    using p assms(4) by (simp add: hash_header_algo_def pow_from_id_eq)
  then show ?thesis using n p(6) assms(3) p(4) by (intro exI [of _ n]) (simp add: mem_read_write)
qed

definition demo_web :: Web where
  "demo_web = \<lparr>web_bc3 = Some (\<lambda>h. replicate 31 0 @ [h ! 76]), web_mix = \<lambda>_. replicate 32 0, web_ready = Init_ok,
     web_sha256 = \<lambda>_. replicate 32 0, web_hex_decode = \<lambda>_. None, web_hex_encode = \<lambda>_. []\<rparr>"

theorem web_hit_verifies_witness:
  "\<exists>n x. search_algo demo_web (\<lambda>_. 0) 2 100 200 254 10 = F_Fin x \<and> n \<in> set (nonces 254 10) \<and> x = of_nat (unat n)"
proof -
  let ?f = "\<lambda>h :: bytes. replicate 31 0 @ [h ! 76]"
  have init: "bc3hash_init demo_web = 1" by (simp add: bc3hash_init_def demo_web_def)
  have bc3: "web_bc3 demo_web = Some ?f" by (simp add: demo_web_def)
  have "hash_meets_target (?f (with_nonce (mem_read (\<lambda>_. 0) 100 80) 256)) (mem_read (\<lambda>_. 0) 200 32)"
  proof -
    have "with_nonce (mem_read (\<lambda>_. 0) 100 80) 256 ! 76 = 0"
      by (simp add: with_nonce_def copy_at_def nth_append to_le_bytes_def)
    then have z: "?f (with_nonce (mem_read (\<lambda>_. 0) 100 80) 256) = replicate 32 0" by (simp add: replicate_append_same numeral_eq_Suc)
    have t: "mem_read (\<lambda>_. 0) 200 32 = replicate 32 0" by (simp add: mem_read_def map_replicate_const)
    have "hash_meets_target (replicate 32 0) (replicate 32 0)" by (simp add: hash_meets_target_iff le_val_def)
    then show ?thesis unfolding z t .
  qed
  moreover have "256 \<in> set (nonces 254 10)" by (simp add: nonces_def image_iff) (rule bexI [of _ 2], simp_all)
  ultimately obtain n where "find (\<lambda>n. hash_meets_target (?f (with_nonce (mem_read (\<lambda>_. 0) 100 80) n)) (mem_read (\<lambda>_. 0) 200 32))
      (nonces 254 10) = Some n"
    by (metis (mono_tags, lifting) find_None_iff not_None_eq)
  then have s: "search_algo demo_web (\<lambda>_. 0) 2 100 200 254 10 = F_Fin (of_nat (unat n))"
    by (simp add: search_algo_def pow_from_id_eq init bc3 read_header_target_def search_with_def search_from_find f64_of_u32)
  have h: "\<forall>f. web_bc3 demo_web = Some f \<longrightarrow> (\<forall>b. length (f b) = 32)" by (auto simp: demo_web_def)
  have "0 \<le> (of_nat (unat n) :: rat)" "(300 :: nat) \<noteq> 0" by (rule of_nat_0_le_iff, simp)
  from web_hit_verifies [OF s this(1) h this(2)] s show ?thesis by auto
qed

end
