(* ===== verification/Device.thy ===== *)
theory Device
  imports Backends
begin

text \<open>
  What the GPU backends share: operations that change a backend's state and may end early with an
  error (\<open>Result<_, String>\<close> with \<open>?\<close>), how an invariant passes through them, and what the self-test
  of \<open>src/backend/bc3.rs\<close> draws and says. Kernels, the clock and \<open>hex\<close> are arguments.
\<close>

section \<open>Operations that may fail\<close>

type_synonym ('s, 'a) op = "'s \<Rightarrow> (string + 'a) \<times> 's"

definition give :: "'a \<Rightarrow> ('s, 'a) op" where
  "give x = (\<lambda>s. (Inr x, s))"

definition refuse :: "string \<Rightarrow> ('s, 'a) op" where
  "refuse e = (\<lambda>s. (Inl e, s))"

text \<open>\<open>m?\<close> and what follows it.\<close>

definition and_then :: "('s, 'a) op \<Rightarrow> ('a \<Rightarrow> ('s, 'b) op) \<Rightarrow> ('s, 'b) op" where
  "and_then m f = (\<lambda>s. case m s of (Inl e, s) \<Rightarrow> (Inl e, s) | (Inr x, s) \<Rightarrow> f x s)"

text \<open>\<open>let _ = m\<close>: the outcome is not looked at.\<close>

definition whatever :: "('s, 'a) op \<Rightarrow> 's \<Rightarrow> 's" where
  "whatever m s = snd (m s)"

definition change :: "('s \<Rightarrow> 's) \<Rightarrow> ('s, unit) op" where
  "change f = (\<lambda>s. (Inr (), f s))"

text \<open>A result that is there already, an \<open>Option\<close> with \<open>ok_or\<close>.\<close>

definition lift_result :: "string + 'a \<Rightarrow> ('s, 'a) op" where
  "lift_result r = (\<lambda>s. (r, s))"

definition ok_or :: "'a option \<Rightarrow> string \<Rightarrow> ('s, 'a) op" where
  "ok_or x e = (case x of Some a \<Rightarrow> give a | None \<Rightarrow> refuse e)"

text \<open>A loop whose body may fail.\<close>

fun for_each :: "'a list \<Rightarrow> ('a \<Rightarrow> ('s, unit) op) \<Rightarrow> ('s, unit) op" where
  "for_each [] f = give ()"
| "for_each (x # xs) f = and_then (f x) (\<lambda>_. for_each xs f)"

fun collect_each :: "'a list \<Rightarrow> ('a \<Rightarrow> ('s, 'b) op) \<Rightarrow> ('s, 'b list) op" where
  "collect_each [] f = give []"
| "collect_each (x # xs) f = and_then (f x) (\<lambda>y. and_then (collect_each xs f) (\<lambda>ys. give (y # ys)))"

fun fold_each :: "('a \<Rightarrow> 'c \<Rightarrow> ('s, 'c) op) \<Rightarrow> 'a list \<Rightarrow> 'c \<Rightarrow> ('s, 'c) op" where
  "fold_each f [] c = give c"
| "fold_each f (x # xs) c = and_then (f x c) (\<lambda>c. fold_each f xs c)"

text \<open>A value that is made step by step, each on what there is of it so far, and dropped if a step fails.\<close>

definition owning :: "('x \<Rightarrow> 's \<Rightarrow> 's) \<Rightarrow> ('x \<times> 's, unit) op \<Rightarrow> 'x \<Rightarrow> ('s, 'x) op" where
  "owning dropped m x s = (case m (x, s) of (Inl e, x, s) \<Rightarrow> (Inl e, dropped x s) | (Inr _, x, s) \<Rightarrow> (Inr x, s))"

named_theorems op_run

lemma and_then_run [op_run]:
  "m s = (Inl e, s') \<Longrightarrow> and_then m f s = (Inl e, s')"
  "m s = (Inr x, s') \<Longrightarrow> and_then m f s = f x s'"
  by (simp_all add: and_then_def)

lemma give_run [simp]: "give x s = (Inr x, s)"
  by (simp add: give_def)

lemma refuse_run [simp]: "refuse e s = (Inl e, s)"
  by (simp add: refuse_def)

lemma change_run [simp]: "change f s = (Inr (), f s)"
  by (simp add: change_def)

lemma lift_result_run [simp]: "lift_result r s = (r, s)"
  by (simp add: lift_result_def)

lemma and_then_InrE:
  assumes "and_then m f s = (Inr y, t)"
  obtains x u where "m s = (Inr x, u)" "f x u = (Inr y, t)"
  using assms by (auto simp: and_then_def split: prod.splits sum.splits)

lemma and_then_give [simp]: "and_then (give x) f = f x"
  by (simp add: and_then_def give_def fun_eq_iff)

lemma and_then_refuse [simp]: "and_then (refuse e) f = refuse e"
  by (simp add: and_then_def refuse_def fun_eq_iff)

lemma ok_or_InrE:
  assumes "ok_or x e s = (Inr y, t)"
  obtains "x = Some y" "t = s"
  using assms by (auto simp: ok_or_def split: option.splits)

lemma lift_result_InrE:
  assumes "lift_result r s = (Inr y, t)"
  obtains "r = Inr y" "t = s"
  using assms by auto

lemma give_InrE:
  assumes "give x s = (Inr y, t)"
  obtains "y = x" "t = s"
  using assms by auto

lemma length_collect_each: "collect_each xs f s = (Inr ys, t) \<Longrightarrow> length ys = length xs"
  by (induction xs arbitrary: s ys) (auto elim!: and_then_InrE)

lemma collect_each_map:
  assumes "\<And>x s y t. f x s = (Inr y, t) \<Longrightarrow> y = g x" and "collect_each xs f s = (Inr ys, t)"
  shows "ys = map g xs"
  using assms(2) by (induction xs arbitrary: s ys) (auto elim!: and_then_InrE dest: assms(1))

lemma collect_each_all2:
  assumes "\<And>x s y t. f x s = (Inr y, t) \<Longrightarrow> P x y" and "collect_each xs f s = (Inr ys, t)"
  shows "list_all2 P xs ys"
  using assms(2) by (induction xs arbitrary: s ys) (auto elim!: and_then_InrE dest: assms(1))

lemma for_each_all:
  assumes "\<And>x s u t. f x s = (Inr u, t) \<Longrightarrow> P x" and "for_each xs f s = (Inr u, t)"
  shows "\<forall>x\<in>set xs. P x"
  using assms(2) by (induction xs arbitrary: s) (auto elim!: and_then_InrE dest: assms(1))

lemma collect_each_total:
  assumes "\<And>x s. x \<in> set xs \<Longrightarrow> \<exists>t. f x s = (Inr (g x), t)"
  shows "\<exists>t. collect_each xs f s = (Inr (map g xs), t)"
  using assms
proof (induction xs arbitrary: s)
  case (Cons x xs)
  obtain t where "f x s = (Inr (g x), t)" using Cons.prems by fastforce
  moreover obtain u where "collect_each xs f t = (Inr (map g xs), u)" using Cons by fastforce
  ultimately show ?case by (auto simp: and_then_def)
qed simp

lemma for_each_total:
  assumes "\<And>x s. x \<in> set xs \<Longrightarrow> \<exists>t. f x s = (Inr (), t)"
  shows "\<exists>t. for_each xs f s = (Inr (), t)"
  using assms
proof (induction xs arbitrary: s)
  case (Cons x xs)
  obtain t where "f x s = (Inr (), t)" using Cons.prems by fastforce
  moreover obtain u where "for_each xs f t = (Inr (), u)" using Cons by fastforce
  ultimately show ?case by (auto simp: and_then_def)
qed simp

lemma fold_each_total:
  assumes "\<And>x c s. \<exists>d t. f x c s = (Inr d, t)"
  shows "\<exists>d t. fold_each f xs c s = (Inr d, t)"
proof (induction xs arbitrary: c s)
  case (Cons x xs)
  obtain d t where "f x c s = (Inr d, t)" using assms by blast
  then show ?case using Cons by (simp add: and_then_def)
qed simp

text \<open>A loop with an accumulator that each round extends by what belongs to its item.\<close>

lemma fold_each_steps:
  assumes "fold_each f xs c s = (Inr d, t)" and "P [] c"
    and "\<And>ys x zs c s d t. xs = ys @ x # zs \<Longrightarrow> P ys c \<Longrightarrow> f x c s = (Inr d, t) \<Longrightarrow> P (ys @ [x]) d"
  shows "P xs d"
proof -
  have "fold_each f zs c s = (Inr d, t) \<Longrightarrow> xs = ys @ zs \<Longrightarrow> P ys c \<Longrightarrow> P xs d" for ys zs c s
  proof (induction zs arbitrary: ys c s)
    case (Cons z zs)
    then obtain e u where "f z c s = (Inr e, u)" "fold_each f zs e u = (Inr d, t)" by (auto elim: and_then_InrE)
    with Cons.IH [of e u "ys @ [z]"] Cons.prems(2,3) assms(3) show ?case by simp
  qed auto
  from this [OF assms(1), of "[]"] assms(2) show ?thesis by simp
qed

text \<open>Operations that keep a property of the state, however they end.\<close>

definition keeps :: "('s \<Rightarrow> bool) \<Rightarrow> ('s, 'a) op \<Rightarrow> bool" where
  "keeps I m \<longleftrightarrow> (\<forall>s. I s \<longrightarrow> I (snd (m s)))"

named_theorems keeps_intros

lemma keepsD: "keeps I m \<Longrightarrow> I s \<Longrightarrow> I (snd (m s))"
  by (simp add: keeps_def)

lemma keeps_run: "keeps I m \<Longrightarrow> I s \<Longrightarrow> m s = (r, t) \<Longrightarrow> I t"
  unfolding keeps_def by (metis snd_conv)

lemma keeps_give [keeps_intros]: "keeps I (give x)"
  by (simp add: keeps_def)

lemma keeps_refuse [keeps_intros]: "keeps I (refuse e)"
  by (simp add: keeps_def)

lemma keeps_lift_result [keeps_intros]: "keeps I (lift_result r)"
  by (simp add: keeps_def)

lemma keeps_ok_or [keeps_intros]: "keeps I (ok_or x e)"
  by (simp add: keeps_def ok_or_def split: option.split)

lemma keeps_change: "(\<And>s. I s \<Longrightarrow> I (f s)) \<Longrightarrow> keeps I (change f)"
  by (simp add: keeps_def)

lemma keeps_and_then [keeps_intros]:
  assumes "keeps I m" and "\<And>x. keeps I (f x)"
  shows "keeps I (and_then m f)"
  unfolding keeps_def
proof (intro allI impI)
  fix s assume "I s"
  moreover obtain r t where "m s = (r, t)" by (cases "m s")
  ultimately show "I (snd (and_then m f s))"
    using keeps_run [OF assms(1)] keepsD [OF assms(2)]
    by (cases r) (auto simp: and_then_run)
qed

lemma keeps_for_each [keeps_intros]: "(\<And>x. keeps I (f x)) \<Longrightarrow> keeps I (for_each xs f)"
  by (induction xs) (auto intro: keeps_intros)

lemma keeps_collect_each [keeps_intros]: "(\<And>x. keeps I (f x)) \<Longrightarrow> keeps I (collect_each xs f)"
  by (induction xs) (auto intro!: keeps_intros)

lemma keeps_fold_each [keeps_intros]: "(\<And>x c. keeps I (f x c)) \<Longrightarrow> keeps I (fold_each f xs c)"
  by (induction xs arbitrary: c) (auto intro!: keeps_intros)

lemma keeps_if [keeps_intros]: "(c \<Longrightarrow> keeps I m) \<Longrightarrow> (\<not> c \<Longrightarrow> keeps I n) \<Longrightarrow> keeps I (if c then m else n)"
  by simp

text \<open>Before, after success, after an error.\<close>

definition triple :: "('s \<Rightarrow> bool) \<Rightarrow> ('s, 'a) op \<Rightarrow> ('a \<Rightarrow> 's \<Rightarrow> bool) \<Rightarrow> ('s \<Rightarrow> bool) \<Rightarrow> bool" where
  "triple P m Q E \<longleftrightarrow> (\<forall>s. P s \<longrightarrow> (case m s of (Inr x, t) \<Rightarrow> Q x t | (Inl e, t) \<Rightarrow> E t))"

lemma tripleD: "triple P m Q E \<Longrightarrow> P s \<Longrightarrow> m s = (r, t) \<Longrightarrow> (case r of Inr x \<Rightarrow> Q x t | Inl e \<Rightarrow> E t)"
  by (auto simp: triple_def split: sum.splits)

lemma triple_and_then:
  assumes "triple P m Q E" and "\<And>x. triple (Q x) (f x) R E"
  shows "triple P (and_then m f) R E"
  unfolding triple_def
proof (intro allI impI)
  fix s assume P: "P s"
  obtain r t where m: "m s = (r, t)" by (cases "m s")
  show "case and_then m f s of (Inr x, t) \<Rightarrow> R x t | (Inl e, t) \<Rightarrow> E t"
  proof (cases r)
    case (Inl e)
    then show ?thesis using tripleD [OF assms(1) P m] m by (simp add: and_then_def)
  next
    case (Inr x)
    then have "Q x t" using tripleD [OF assms(1) P m] by simp
    then show ?thesis using assms(2) [of x] m Inr by (simp add: and_then_def triple_def)
  qed
qed

lemma triple_conseq: "triple P m Q E \<Longrightarrow> (\<And>s. P' s \<Longrightarrow> P s) \<Longrightarrow> (\<And>x s. Q x s \<Longrightarrow> Q' x s) \<Longrightarrow> (\<And>s. E s \<Longrightarrow> E' s) \<Longrightarrow> triple P' m Q' E'"
  unfolding triple_def by (fastforce split: prod.splits sum.splits)

lemma triple_keeps: "keeps P m \<Longrightarrow> (\<And>s. P s \<Longrightarrow> E s) \<Longrightarrow> triple P m (\<lambda>_. P) E"
  by (fastforce simp: keeps_def triple_def split: prod.split sum.split)

lemma triple_refuse: "(\<And>s. P s \<Longrightarrow> E s) \<Longrightarrow> triple P (refuse e) Q E"
  by (simp add: triple_def)

section \<open>What the self-test draws\<close>

subsection \<open>Definitions\<close>

definition xorshift :: "u64 \<Rightarrow> u64" where
  "xorshift seed =
     (let seed = xor seed (push_bit 13 seed); seed = xor seed (drop_bit 7 seed) in xor seed (push_bit 17 seed))"

text \<open>The bytes of a header drawn one by one, then the version of the first header vector over the first four.\<close>

fun draw_bytes :: "nat \<Rightarrow> u64 \<Rightarrow> bytes \<times> u64" where
  "draw_bytes 0 seed = ([], seed)"
| "draw_bytes (Suc n) seed =
     (let seed = xorshift seed; (bs, last) = draw_bytes n seed in (ucast seed # bs, last))"

definition draw_header :: "nat \<Rightarrow> u64 \<Rightarrow> bytes \<times> u64" where
  "draw_header n seed =
     (let (bs, seed) = draw_bytes n seed in (copy_at 0 (to_le_bytes 4 (0x20001800 :: u32)) bs, seed))"

fun draw_headers :: "nat \<Rightarrow> u64 \<Rightarrow> bytes list \<times> u64" where
  "draw_headers 0 seed = ([], seed)"
| "draw_headers (Suc n) seed =
     (let (h, seed) = draw_header 80 seed; (hs, seed) = draw_headers n seed in (h # hs, seed))"

fun draw_launches :: "nat list \<Rightarrow> u64 \<Rightarrow> (bytes \<times> u32) list" where
  "draw_launches [] seed = []"
| "draw_launches (i # is) seed =
     (let (header76, seed) = draw_header 76 seed
      in if i = QUEUE_DEPTH then (header76, 0 - TEST_COUNT) # draw_launches is seed
         else let seed = xorshift seed
              in (header76, ucast seed mod (0 - TEST_COUNT)) # draw_launches is seed)"

text \<open>The whole test: \<open>nanos\<close> is the clock (None before 1970), \<open>vectors\<close> the node's header vectors.\<close>

definition self_test_seed :: "u64 option \<Rightarrow> u64" where
  "self_test_seed nanos = or (case nanos of Some n \<Rightarrow> n | None \<Rightarrow> 0x0bc3) 1"

definition drawn_self_test ::
  "'b MiningBackend \<Rightarrow> ('b \<Rightarrow> bytes list \<Rightarrow> (string + bytes list) \<times> 'b) \<Rightarrow> PowFn \<Rightarrow> nat \<Rightarrow> (bytes \<times> bytes) list \<Rightarrow> u64 option \<Rightarrow> 'b \<Rightarrow>
   ((self_test_error + unit) \<times> 'b) option" where
  "drawn_self_test be bc3_batch pow fuel vectors nanos b =
     (let (random, seed) = draw_headers 14 (self_test_seed nanos);
          headers = map fst vectors @ random;
          expected = map snd vectors @ map pow random
      in self_test be bc3_batch pow fuel headers expected (draw_launches [0..<QUEUE_DEPTH + 1] seed) b)"

subsection \<open>Lemmas\<close>

lemma length_draw_bytes [simp]: "length (fst (draw_bytes n seed)) = n"
  by (induction n arbitrary: seed) (simp_all add: Let_def split_def)

lemma length_draw_header: "4 \<le> n \<Longrightarrow> length (fst (draw_header n seed)) = n"
  by (simp add: draw_header_def Let_def split_def copy_at_def to_le_bytes_def)

lemma test_launch_fits: "unat ((x :: u32) mod (0 - TEST_COUNT)) + unat TEST_COUNT \<le> 2 ^ 32"
proof -
  have "unat (0 - TEST_COUNT) = 2 ^ 32 - 128" by (simp add: TEST_COUNT_def)
  moreover have "unat (x mod (0 - TEST_COUNT)) < unat (0 - TEST_COUNT)"
    unfolding unat_mod by (rule mod_less_divisor) (simp add: TEST_COUNT_def)
  ultimately show ?thesis by (simp add: TEST_COUNT_def)
qed

lemma draw_launches_fit:
  "\<forall>(h, start)\<in>set (draw_launches is seed). length h = 76 \<and> unat start + unat TEST_COUNT \<le> 2 ^ 32"
proof (induction "is" arbitrary: seed)
  case (Cons i "is")
  have "unat (0 - TEST_COUNT) + unat TEST_COUNT \<le> 2 ^ 32" by (simp add: TEST_COUNT_def)
  then show ?case
    using Cons.IH length_draw_header [of 76 seed] test_launch_fits by (auto simp: Let_def split_def)
qed simp

lemma draw_launches_last:
  "snd (last (draw_launches [0..<QUEUE_DEPTH + 1] seed)) = 0 - TEST_COUNT \<and>
   length (draw_launches [0..<QUEUE_DEPTH + 1] seed) = QUEUE_DEPTH + 1"
  by (simp add: QUEUE_DEPTH_def upt_rec Let_def split_def)

section \<open>The self-test on a device whose calls may fail\<close>

text \<open>
  What the self-test needs of a backend to come to an end and leave nothing in flight, whatever its
  calls return: an operation that succeeds keeps the invariant, and giving up restores it after one
  that has failed; never more than \<open>QUEUE_DEPTH\<close> launches are in flight, collecting one takes it
  off, and giving up takes all.
\<close>

locale self_testable =
  fixes be :: "'b MiningBackend" and batch :: "'b \<Rightarrow> bytes list \<Rightarrow> (string + bytes list) \<times> 'b"
    and inv :: "'b \<Rightarrow> bool" and failed :: "'b \<Rightarrow> bool"
  assumes enqueue_keeps: "inv b \<Longrightarrow> be_enqueue be b l = (Inr u, b') \<Longrightarrow> inv b'"
    and enqueue_fails: "inv b \<Longrightarrow> be_enqueue be b l = (Inl e, b') \<Longrightarrow> failed b'"
    and collect_keeps: "inv b \<Longrightarrow> be_collect be b = (Inr scan, b') \<Longrightarrow> inv b'"
    and collect_fails: "inv b \<Longrightarrow> be_collect be b = (Inl e, b') \<Longrightarrow> failed b'"
    and abandon_restores: "failed b \<Longrightarrow> inv (be_abandon be b)"
    and batch_keeps: "inv b \<Longrightarrow> inv (snd (batch b hs))"
    and depth: "inv b \<Longrightarrow> be_in_flight be b \<le> QUEUE_DEPTH"
    and collect_takes: "inv b \<Longrightarrow> be_in_flight be b \<noteq> 0 \<Longrightarrow> be_collect be b = (Inr scan, b') \<Longrightarrow>
      be_in_flight be b' < be_in_flight be b"
    and abandon_idle: "failed b \<Longrightarrow> be_in_flight be (be_abandon be b) = 0"
    and batch_idle: "inv b \<Longrightarrow> be_in_flight be (snd (batch b hs)) = be_in_flight be b"
begin

text \<open>How a part of the test ends: in order, or with an error that \<open>abandon\<close> makes good.\<close>

definition ends :: "(string + 'a) \<Rightarrow> 'b \<Rightarrow> bool" where
  "ends r b \<longleftrightarrow> (case r of Inr _ \<Rightarrow> inv b | Inl _ \<Rightarrow> failed b)"

lemma scan_one_keeps:
  assumes "inv b" and "scan_one be b scans = (r, b')"
  shows "ends r b' \<and> (\<forall>s. r = Inr s \<longrightarrow> be_in_flight be b \<noteq> 0 \<longrightarrow> be_in_flight be b' < be_in_flight be b)"
proof -
  obtain r0 c where c: "be_collect be b = (r0, c)" by (cases "be_collect be b")
  then have "b' = c" using assms(2) by (cases r0) (auto simp: scan_one_def)
  then show ?thesis
    using collect_keeps [OF assms(1)] collect_fails [OF assms(1)] collect_takes [OF assms(1)] c assms(2)
    by (cases r0) (auto simp: scan_one_def ends_def)
qed

lemma drain_scans_ends:
  "inv b \<Longrightarrow> be_in_flight be b \<le> fuel \<Longrightarrow>
   \<exists>r b'. drain_scans be fuel b scans = Some (r, b') \<and> ends r b' \<and> (\<forall>s. r = Inr s \<longrightarrow> be_in_flight be b' = 0)"
proof (induction fuel arbitrary: b scans)
  case 0
  then show ?case by (subst drain_scans.simps) (simp add: ends_def)
next
  case (Suc fuel)
  obtain r c where one: "scan_one be b scans = (r, c)" by (cases "scan_one be b scans")
  note kept = scan_one_keeps [OF Suc.prems(1) one]
  show ?case
  proof (cases "be_in_flight be b = 0")
    case True
    then show ?thesis using Suc.prems(1) by (subst drain_scans.simps) (simp add: ends_def)
  next
    case False
    show ?thesis
    proof (cases r)
      case (Inl e)
      then show ?thesis using False one kept by (subst drain_scans.simps) (simp add: ends_def)
    next
      case (Inr x)
      then have "inv c" "be_in_flight be c \<le> fuel" using kept False Suc.prems(2) by (auto simp: ends_def)
      then show ?thesis using False one Inr Suc.IH [of c x] by (subst drain_scans.simps) simp
    qed
  qed
qed

lemma queue_scans_ends:
  "inv b \<Longrightarrow> QUEUE_DEPTH \<le> fuel \<Longrightarrow>
   \<exists>r b'. queue_scans be fuel count target ls b scans = Some (r, b') \<and> ends r b' \<and> (\<forall>s. r = Inr s \<longrightarrow> be_in_flight be b' = 0)"
proof (induction ls arbitrary: b scans)
  case Nil
  then show ?case using drain_scans_ends depth by (metis le_trans queue_scans.simps(1))
next
  case (Cons x ls)
  obtain h st where x: "x = (h, st)" by (cases x)
  let ?l = "\<lparr>la_algo = Bc3Hash, la_header76 = h, la_start = st, la_count = count, la_target = target\<rparr>"
  obtain r c where e: "be_enqueue be b ?l = (r, c)" by (cases "be_enqueue be b ?l")
  show ?case
  proof (cases r)
    case (Inl err)
    then show ?thesis using e enqueue_fails [OF Cons.prems(1)] by (auto simp: x ends_def)
  next
    case (Inr u)
    then have c: "inv c" using enqueue_keeps [OF Cons.prems(1)] e by simp
    obtain r' d where one: "scan_one be c scans = (r', d)" by (cases "scan_one be c scans")
    note d = scan_one_keeps [OF c one]
    show ?thesis
    proof (cases r')
      case (Inl err)
      then show ?thesis using Cons.IH [OF c Cons.prems(2), of scans] d e one \<open>r = Inr u\<close> by (auto simp: x ends_def)
    next
      case r': (Inr y)
      then have "inv d" using d by (simp add: ends_def)
      then show ?thesis
        using Cons.IH [OF c Cons.prems(2), of scans] Cons.IH [OF _ Cons.prems(2), of d y] e one Inr r' by (auto simp: x)
    qed
  qed
qed

lemma self_test_ends:
  assumes "inv b" and "be_in_flight be b = 0" and "QUEUE_DEPTH \<le> fuel"
  shows "\<exists>r b'. self_test be batch pow fuel headers expected launches b = Some (r, b') \<and> inv b' \<and> be_in_flight be b' = 0"
proof -
  obtain r c where b: "batch b headers = (r, c)" by (cases "batch b headers")
  have c: "inv c" "be_in_flight be c = 0"
    using batch_keeps [OF assms(1), of headers] batch_idle [OF assms(1), of headers] assms(2) by (simp_all add: b)
  obtain r' d where q: "queue_scans be fuel TEST_COUNT test_target launches c [] = Some (r', d)" "ends r' d"
    "\<forall>s. r' = Inr s \<longrightarrow> be_in_flight be d = 0" using queue_scans_ends [OF c(1) assms(3)] by blast
  show ?thesis
    using b c q abandon_restores [of d] abandon_idle [of d]
    by (cases r; cases r') (auto simp: self_test_def queued_scans_def ends_def split: option.splits)
qed

lemma drawn_self_test_ends:
  assumes "inv b" and "be_in_flight be b = 0" and "QUEUE_DEPTH \<le> fuel"
  shows "\<exists>r b'. drawn_self_test be batch pow fuel vectors nanos b = Some (r, b') \<and> inv b' \<and> be_in_flight be b' = 0"
  unfolding drawn_self_test_def Let_def split_def using self_test_ends [OF assms] by blast

end

text \<open>
  A device whose launches come back with what some run of the kernel made of them: \<open>contents\<close> are the
  hit buffers of the launches in flight, \<open>made l h\<close> says that \<open>h\<close> is what the kernel leaves for launch
  \<open>l\<close>. A self-test that passes has then compared the kernel with the CPU.
\<close>

locale scanning_device = self_testable be batch inv failed
  for be :: "'b MiningBackend" and batch and inv and failed +
  fixes contents :: "'b \<Rightarrow> u32 list list" and made :: "Launch \<Rightarrow> u32 list \<Rightarrow> bool"
  assumes enqueue_makes: "inv b \<Longrightarrow> be_enqueue be b l = (Inr u, b') \<Longrightarrow> \<exists>h. made l h \<and> contents b' = contents b @ [h]"
    and collect_gives: "inv b \<Longrightarrow> be_collect be b = (Inr scan, b') \<Longrightarrow>
      \<exists>h busy. contents b = h # contents b' \<and> scan = scan_of h busy"
    and flight: "inv b \<Longrightarrow> be_in_flight be b = length (contents b)"
    and batch_contents: "inv b \<Longrightarrow> contents (snd (batch b hs)) = contents b"
begin

abbreviation found :: "u32 list \<Rightarrow> u32 list" where
  "found h \<equiv> sort (buffer_hits h)"

lemma scan_one_Inr:
  assumes "inv b" and "scan_one be b scans = (Inr r, b')"
  shows "\<exists>h. contents b = h # contents b' \<and> r = scans @ [found h] \<and> inv b'"
proof -
  obtain scan where c: "be_collect be b = (Inr scan, b')" "r = scans @ [sort (sc_hits scan)]"
    using assms(2) by (auto simp: scan_one_def split: prod.splits sum.splits)
  from collect_gives [OF assms(1) c(1)] obtain h busy where
    "contents b = h # contents b'" "scan = scan_of h busy" by blast
  then show ?thesis using c(2) collect_keeps [OF assms(1)] c(1) by auto
qed

lemma drain_scans_Inr:
  "inv b \<Longrightarrow> drain_scans be fuel b scans = Some (Inr r, b') \<Longrightarrow> r = scans @ map found (contents b)"
proof (induction fuel arbitrary: b scans)
  case 0
  then show ?case by (subst (asm) drain_scans.simps) (simp add: flight split: if_splits)
next
  case (Suc fuel)
  show ?case
  proof (cases "contents b = []")
    case True
    then show ?thesis using Suc.prems by (subst (asm) drain_scans.simps) (simp add: flight)
  next
    case False
    then obtain x c where one: "scan_one be b scans = (Inr x, c)" and rest: "drain_scans be fuel c x = Some (Inr r, b')"
      using Suc.prems by (subst (asm) (2) drain_scans.simps) (auto simp: flight split: prod.splits sum.splits)
    from scan_one_Inr [OF Suc.prems(1) one] Suc.IH [OF _ rest] show ?thesis by auto
  qed
qed

abbreviation test_launch :: "u32 \<Rightarrow> Target \<Rightarrow> bytes \<times> u32 \<Rightarrow> Launch" where
  "test_launch count target x \<equiv>
     \<lparr>la_algo = Bc3Hash, la_header76 = fst x, la_start = snd x, la_count = count, la_target = target\<rparr>"

lemma queue_scans_Inr:
  "inv b \<Longrightarrow> queue_scans be fuel count target ls b scans = Some (Inr r, b') \<Longrightarrow>
   \<exists>hs. list_all2 (\<lambda>x h. made (test_launch count target x) h) ls hs \<and> r = scans @ map found (contents b @ hs)"
proof (induction ls arbitrary: b scans)
  case Nil
  then show ?case using drain_scans_Inr by simp
next
  case (Cons x ls)
  obtain u c where e: "be_enqueue be b (test_launch count target x) = (Inr u, c)"
    using Cons.prems(2) by (cases x) (auto split: prod.splits sum.splits)
  have c: "inv c" using enqueue_keeps [OF Cons.prems(1) e] .
  from enqueue_makes [OF Cons.prems(1) e] obtain h where
    h: "made (test_launch count target x) h" "contents c = contents b @ [h]" by blast
  show ?case
  proof (cases "be_in_flight be c = QUEUE_DEPTH")
    case False
    then have "queue_scans be fuel count target ls c scans = Some (Inr r, b')"
      using Cons.prems(2) e by (cases x) simp
    from Cons.IH [OF c this] obtain hs where
      "list_all2 (\<lambda>x h. made (test_launch count target x) h) ls hs" "r = scans @ map found (contents c @ hs)" by blast
    then show ?thesis using h by (intro exI [of _ "h # hs"]) simp
  next
    case True
    then obtain y d where one: "scan_one be c scans = (Inr y, d)"
      and rest: "queue_scans be fuel count target ls d y = Some (Inr r, b')"
      using Cons.prems(2) e by (cases x) (auto split: prod.splits sum.splits)
    from scan_one_Inr [OF c one] obtain g where
      g: "contents c = g # contents d" "y = scans @ [found g]" "inv d" by blast
    from Cons.IH [OF g(3) rest] obtain hs where
      hs: "list_all2 (\<lambda>x h. made (test_launch count target x) h) ls hs" "r = y @ map found (contents d @ hs)" by blast
    have "map found (contents b @ h # hs) = map found (contents c @ hs)" by (simp add: h(2))
    then show ?thesis using h(1) hs g by (intro exI [of _ "h # hs"]) simp
  qed
qed

lemma self_test_passed:
  assumes "inv b" and "contents b = []" and "self_test be batch pow fuel headers expected launches b = Some (Inr u, b')"
  shows "(\<exists>got c. batch b headers = (Inr got, c) \<and> (\<forall>j<min (length got) (length expected). got ! j = expected ! j)) \<and>
    (\<forall>x\<in>set launches. \<exists>h. made (test_launch TEST_COUNT test_target x) h \<and> found h = cpu_hits pow (fst x) (snd x))"
proof -
  obtain got c where batch: "batch b headers = (Inr got, c)"
    using assms(3) by (cases "batch b headers"; cases "fst (batch b headers)") (auto simp: self_test_def)
  have z: "zip_differs 0 got expected = None" using assms(3) batch by (auto simp: self_test_def split: option.splits)
  obtain scans d where q: "queue_scans be fuel TEST_COUNT test_target launches c [] = Some (Inr scans, d)"
    and l: "launch_differs pow 0 launches scans = None"
    using assms(3) batch z by (auto simp: self_test_def queued_scans_def split: option.splits sum.splits prod.splits)
  have c: "inv c" "contents c = []" using batch_keeps [OF assms(1)] batch_contents [OF assms(1)] assms(2) batch by (metis snd_conv)+
  from queue_scans_Inr [OF c(1) q] c(2) obtain hs where
    hs: "list_all2 (\<lambda>x h. made (test_launch TEST_COUNT test_target x) h) launches hs" "scans = map found hs" by auto
  have "\<exists>h. made (test_launch TEST_COUNT test_target x) h \<and> found h = cpu_hits pow (fst x) (snd x)"
    if x: "x \<in> set launches" for x
  proof -
    obtain j where j: "j < length launches" "launches ! j = x" using x by (auto simp: in_set_conv_nth)
    then have "j < length hs" using list_all2_lengthD [OF hs(1)] by simp
    then have "found (hs ! j) = cpu_hits pow (fst x) (snd x)" using l j hs(2) by (auto simp: launch_differs_None)
    moreover have "made (test_launch TEST_COUNT test_target x) (hs ! j)" using list_all2_nthD [OF hs(1) j(1)] j(2) by simp
    ultimately show ?thesis by blast
  qed
  then show ?thesis using batch z zip_differs_None by blast
qed

end

end
