(* ===== verification/Cuda.thy ===== *)
theory Cuda
  imports Device "HOL-Library.Signed_Division"
begin

text \<open>
  \<open>src/backend/cuda.rs\<close>: a CUDA card as a mining backend. The driver is an argument: which of its
  calls fail, what a failed copy leaves behind, what the kernels compute from the buffers they are
  given. Everything runs on one stream in order, so a buffer is described by what it holds once the
  stream has got there; the host reads only after it has waited. \<open>bc3hash\<close> and the inflater are
  arguments too. Sizes stay below \<open>2 ^ 64\<close>.
\<close>

section \<open>Definitions\<close>

subsection \<open>The driver\<close>

text \<open>A loaded module: machine code, or a PTX the driver has compiled.\<close>

datatype CudaModule = Cubin bytes | Jit string

text \<open>
  \<open>cu_fault n\<close> is the error of the \<open>n\<close>th driver call, if it fails; \<open>cu_left_*\<close> what a failed copy may
  leave. Queries answer by the number of the call.
\<close>

record CudaDriver =
  cu_fault :: "nat \<Rightarrow> string option"
  cu_left_bytes :: "nat \<Rightarrow> bytes"
  cu_left_limbs :: "nat \<Rightarrow> u64 list"
  cu_left_hits :: "nat \<Rightarrow> u32 list"
  cu_scan :: "CudaModule \<Rightarrow> nat \<times> nat \<Rightarrow> u64 list \<Rightarrow> bytes \<Rightarrow> u32 \<Rightarrow> u32 \<Rightarrow> u64 list \<Rightarrow> u32 list \<Rightarrow> u32 \<Rightarrow> u32 list"
  cu_batch :: "CudaModule \<Rightarrow> nat \<times> nat \<Rightarrow> u64 list \<Rightarrow> bytes \<Rightarrow> u32 \<Rightarrow> nat \<Rightarrow> bytes"
  cu_build_row :: "CudaModule \<Rightarrow> nat \<times> nat \<Rightarrow> u64 list \<Rightarrow> u64 list \<Rightarrow> u32 \<Rightarrow> u64 list"
  cu_mem_info :: "nat \<Rightarrow> (nat \<times> nat) option"
  cu_occupancy :: "nat \<Rightarrow> u32 option"
  cu_elapsed_ms :: "nat \<Rightarrow> f64 option"
  cu_clock :: "nat \<Rightarrow> instant"
  cu_sass :: "(string \<times> u32 \<times> bytes) list"
  cu_inflate :: "bytes \<Rightarrow> string + bytes"
  cu_ptx :: "u32 \<Rightarrow> string"
  cu_build_ptx :: string
  cu_power_tables :: "string + u64 list"
  cu_gpu_point :: "nat \<Rightarrow> u32 \<Rightarrow> u64 \<Rightarrow> string + u64 list"
  cu_vectors :: "(bytes \<times> bytes) list"
  cu_pow :: PowFn
  cu_nanos :: "nat \<Rightarrow> u64 option"
  cu_differs :: "self_test_error \<Rightarrow> string"
  cu_json :: bool
  cu_spawn_error :: "string option"

definition BC3HASH_WINDOWS :: "u32 list" where
  "BC3HASH_WINDOWS = [16, 18, 19, 20, 22, 24]"

definition BC3_BLOCK_DIM :: u32 where
  "BC3_BLOCK_DIM = 64"

definition BUILD_BLOCK_DIM :: u32 where
  "BUILD_BLOCK_DIM = 64"

definition BUILD_BLOCKS_PER_SM :: u32 where
  "BUILD_BLOCKS_PER_SM = 8"

definition BUILD_SPARE :: nat where
  "BUILD_SPARE = 256 * 2 ^ 20"

definition MIN_DRIVER_CUDA :: int where
  "MIN_DRIVER_CUDA = 12000"

subsection \<open>The backend\<close>

record Bc3Kernel =
  bk_window :: u32
  bk_module :: CudaModule
  bk_tables :: "u64 list"
  bk_wave :: u32

record Slot =
  cs_header :: bytes
  cs_target :: "u64 list"
  cs_hits :: "u32 list"
  cs_hits_host :: "u32 list"
  cs_header_of :: "bytes option"
  cs_target_of :: "u64 list option"

record CudaBackend =
  cb_index :: nat
  cb_name :: string
  cb_slots :: "Slot list"
  cb_queued :: "nat list"
  cb_next_slot :: nat
  cb_bc3 :: "Bc3Kernel option"
  cb_builder :: "CudaModule option"
  cb_sm :: u32
  cb_sms :: u32
  cb_told_jit :: bool
  cb_calls :: nat
  cb_out :: "out_line list"

type_synonym 'a cuda = "(CudaBackend, 'a) op"

definition forget :: "Slot \<Rightarrow> Slot" where
  "forget s = s\<lparr>cs_header_of := None, cs_target_of := None\<rparr>"

text \<open>One call of the driver, with what it does when it succeeds and when it fails.\<close>

definition driver :: "CudaDriver \<Rightarrow> string \<Rightarrow> (CudaBackend \<Rightarrow> CudaBackend) \<Rightarrow> (nat \<Rightarrow> CudaBackend \<Rightarrow> CudaBackend) \<Rightarrow> unit cuda" where
  "driver cu what good bad =
     (\<lambda>b. let n = cb_calls b; b = b\<lparr>cb_calls := n + 1\<rparr>
      in case cu_fault cu n of None \<Rightarrow> (Inr (), good b) | Some e \<Rightarrow> (Inl (what @ '': '' @ e), bad n b))"

definition call :: "CudaDriver \<Rightarrow> string \<Rightarrow> unit cuda" where
  "call cu what = driver cu what id (\<lambda>_. id)"

definition ask :: "(nat \<Rightarrow> 'a) \<Rightarrow> 'a cuda" where
  "ask reply = (\<lambda>b. (Inr (reply (cb_calls b)), b\<lparr>cb_calls := cb_calls b + 1\<rparr>))"

definition look :: "(CudaBackend \<Rightarrow> 'a) \<Rightarrow> 'a cuda" where
  "look f = (\<lambda>b. (Inr (f b), b))"

definition print :: "out_line list \<Rightarrow> CudaBackend \<Rightarrow> CudaBackend" where
  "print ls b = b\<lparr>cb_out := cb_out b @ ls\<rparr>"

definition on_slot :: "nat \<Rightarrow> (Slot \<Rightarrow> Slot) \<Rightarrow> CudaBackend \<Rightarrow> CudaBackend" where
  "on_slot i f b = b\<lparr>cb_slots := (cb_slots b)[i := f (cb_slots b ! i)]\<rparr>"

definition nth_slot :: "nat \<Rightarrow> CudaBackend \<Rightarrow> Slot" where
  "nth_slot i b = cb_slots b ! i"

subsection \<open>Opening a card\<close>

definition Slot_new :: "CudaDriver \<Rightarrow> Slot cuda" where
  "Slot_new cu =
     and_then (call cu ''alloc header'') (\<lambda>_. and_then (call cu ''alloc target'') (\<lambda>_.
     and_then (call cu ''alloc hits'') (\<lambda>_. and_then (call cu ''alloc pinned hits'') (\<lambda>_.
     and_then (call cu ''alloc event'') (\<lambda>_. and_then (call cu ''alloc event'') (\<lambda>_.
       give \<lparr>cs_header = replicate 76 0, cs_target = replicate 4 0, cs_hits = replicate (1 + MAX_HITS) 0,
             cs_hits_host = replicate (1 + MAX_HITS) 0, cs_header_of = None, cs_target_of = None\<rparr>))))))"

text \<open>\<open>count\<close>: what asking for the devices came to, None for an error or a panic of the loader.\<close>

definition cuda_list_devices :: "int option \<Rightarrow> (nat \<Rightarrow> bool) \<Rightarrow> (nat \<Rightarrow> string option) \<Rightarrow> GpuDevice list" where
  "cuda_list_devices count opens name =
     (case count of
        Some n \<Rightarrow>
          if 0 < n
          then List.map_filter
                 (\<lambda>i. if opens i
                      then Some (Cuda i (case name i of Some m \<Rightarrow> m | None \<Rightarrow> ''CUDA device '' @ dec i)) else None)
                 [0..<nat n]
          else []
      | None \<Rightarrow> [])"

definition check_driver :: "string + int \<Rightarrow> string + unit" where
  "check_driver version =
     (case version of
        Inl e \<Rightarrow> Inl (''cuDriverGetVersion: '' @ e)
      | Inr version \<Rightarrow>
          if version < MIN_DRIVER_CUDA
          then Inl (''the NVIDIA driver supports CUDA '' @ dec_int (version sdiv 1000) @ ''.'' @
                    dec_int (version smod 1000 sdiv 10) @ '', and the kernel needs 12.0 (driver R525) or '' @
                    ''newer - update the driver'')
          else Inr ())"

text \<open>\<open>context\<close>, \<open>version\<close>, \<open>name\<close>, \<open>major\<close>, \<open>minor\<close>, \<open>mps\<close>: what the driver answers about the card.\<close>

definition CudaBackend_new ::
  "CudaDriver \<Rightarrow> string option \<Rightarrow> string + int \<Rightarrow> string option \<Rightarrow> int option \<Rightarrow> int option \<Rightarrow> int option \<Rightarrow> nat \<Rightarrow>
   string + CudaBackend" where
  "CudaBackend_new cu ctx version name major minor mps idx =
     (case ctx of
        Some e \<Rightarrow> Inl (''CudaContext::new: '' @ e)
      | None \<Rightarrow>
          case check_driver version of
            Inl e \<Rightarrow> Inl e
          | Inr _ \<Rightarrow>
              let b = \<lparr>cb_index = idx, cb_name = (case name of Some m \<Rightarrow> m | None \<Rightarrow> ''CUDA device '' @ dec idx),
                       cb_slots = [], cb_queued = [], cb_next_slot = 0, cb_bc3 = None, cb_builder = None,
                       cb_sm = word_of_int (max 0 ((case major of Some m \<Rightarrow> m | None \<Rightarrow> 0) * 10 +
                                                   (case minor of Some m \<Rightarrow> m | None \<Rightarrow> 0))),
                       cb_sms = word_of_int (max 1 (case mps of Some m \<Rightarrow> m | None \<Rightarrow> 1)),
                       cb_told_jit = False, cb_calls = 0, cb_out = []\<rparr>
              in case collect_each [0..<QUEUE_DEPTH] (\<lambda>_. Slot_new cu) b of
                   (Inl e, _) \<Rightarrow> Inl e
                 | (Inr slots, b) \<Rightarrow> Inr (b\<lparr>cb_slots := slots\<rparr>))"

subsection \<open>Machine code\<close>

text \<open>\<open>max_by_key\<close> gives the last of several with the greatest key.\<close>

fun newest :: "(string \<times> u32 \<times> bytes) list \<Rightarrow> (u32 \<times> bytes) option" where
  "newest [] = None"
| "newest ((_, s, code) # rest) =
     (case newest rest of
        None \<Rightarrow> Some (s, code)
      | Some (t, c) \<Rightarrow> if t < s then Some (s, code) else Some (t, c))"

definition pick_sass :: "(string \<times> u32 \<times> bytes) list \<Rightarrow> string \<Rightarrow> u32 \<Rightarrow> (u32 \<times> bytes) option" where
  "pick_sass sass stem sm =
     newest (filter (\<lambda>(name, s, _). name = stem \<and> s div 10 = sm div 10 \<and> s \<le> sm) sass)"

definition bc3hash_ptx :: "CudaDriver \<Rightarrow> u32 \<Rightarrow> string + string" where
  "bc3hash_ptx cu window =
     (case find (\<lambda>(w, _). w = window) (map (\<lambda>w. (w, cu_ptx cu w)) BC3HASH_WINDOWS) of
        Some (_, ptx) \<Rightarrow> Inr ptx
      | None \<Rightarrow> Inl (''no BC3Hash kernel for a window of '' @ dec (unat window) @ '' bits''))"

definition bc3hash_stem :: "u32 \<Rightarrow> string" where
  "bc3hash_stem window = ''bc3hash_w'' @ dec (unat window)"

definition load_jit :: "CudaDriver \<Rightarrow> string \<Rightarrow> string \<Rightarrow> CudaModule cuda" where
  "load_jit cu stem ptx =
     and_then (change (\<lambda>b. b\<lparr>cb_told_jit := True\<rparr>)) (\<lambda>_.
     and_then (call cu (''could not load the BC3Hash kernel '' @ stem)) (\<lambda>_. give (Jit ptx)))"

definition load_module :: "CudaDriver \<Rightarrow> string \<Rightarrow> string \<Rightarrow> CudaModule cuda" where
  "load_module cu stem ptx b =
     (let gpu = ''[gpu] '' @ cb_name b
      in case pick_sass (cu_sass cu) stem (cb_sm b) of
           Some (sm, packed) \<Rightarrow>
             (case cu_inflate cu packed of
                Inr code \<Rightarrow>
                  (case call cu '''' b of
                     (Inr _, b) \<Rightarrow> (Inr (Cubin code), b)
                   | (Inl e, b) \<Rightarrow>
                       load_jit cu stem ptx
                         (print [Err (gpu @ '': the machine code for sm_'' @ dec (unat sm) @ '' would not load ('' @
                                      drop 2 e @ '') - the driver compiles the kernel instead'')] b))
              | Inl e \<Rightarrow>
                  load_jit cu stem ptx
                    (print [Err (gpu @ '': the machine code for sm_'' @ dec (unat sm) @ '' is damaged ('' @ e @ '')'')] b))
         | None \<Rightarrow>
             load_jit cu stem ptx
               (if \<not> cb_told_jit b
                then print (human (cu_json cu)
                       (gpu @ '': this build has no machine code for sm_'' @ dec (unat (cb_sm b)) @
                        '' - the driver compiles the kernel, which takes up to a minute where it has not cached it'')) b
                else b))"

subsection \<open>The tables\<close>

definition builder :: "CudaDriver \<Rightarrow> CudaModule cuda" where
  "builder cu b =
     (case cb_builder b of
        Some f \<Rightarrow> (Inr f, b)
      | None \<Rightarrow>
          and_then (load_module cu ''bc3hash_build'' (cu_build_ptx cu)) (\<lambda>f.
          and_then (call cu ''load_function bc3hash_build_row'') (\<lambda>_.
          and_then (change (\<lambda>b. b\<lparr>cb_builder := Some f\<rparr>)) (\<lambda>_. give f))) b)"

definition row_u64 :: "Row \<Rightarrow> nat" where
  "row_u64 row = unat (row_places row) * 8"

definition curve_u64 :: "Row list \<Rightarrow> nat" where
  "curve_u64 rs = sum_list (map row_u64 rs)"

text \<open>Every row of every curve, with its number, in the order of the buffer.\<close>

definition table_items :: "Row list \<Rightarrow> (nat \<times> nat \<times> Row) list" where
  "table_items rs = concat (map (\<lambda>curve. map (\<lambda>(i, row). (curve, i, row)) (enumerate 0 rs)) [0..<4])"

definition row_bases :: "CudaDriver \<Rightarrow> Row list \<Rightarrow> u64 list cuda" where
  "row_bases cu rs =
     and_then (collect_each (table_items rs) (\<lambda>(curve, i, row). lift_result (cu_gpu_point cu curve (row_pos row) 1)))
       (\<lambda>points. give (concat points))"

definition build_row ::
  "CudaDriver \<Rightarrow> CudaModule \<Rightarrow> u64 list \<Rightarrow> nat \<Rightarrow> u32 \<Rightarrow> nat \<times> nat \<times> Row \<Rightarrow> u64 list \<times> nat \<Rightarrow> (u64 list \<times> nat) cuda" where
  "build_row cu build bases n most = (\<lambda>(curve, i, row) (tables, ofs).
     let places = row_u64 row;
         count = ucast (row_points row) :: u32;
         base_at = (curve * n + i) * 8;
         out = take places (drop ofs tables);
         base = take 8 (drop base_at bases);
         blocks = clamp 1 (unat most) (div_ceil (unat count) (unat BUILD_BLOCK_DIM))
     in and_then (call cu ''bc3hash_build_row launch'') (\<lambda>_.
        give (copy_at ofs (cu_build_row cu build (blocks, unat BUILD_BLOCK_DIM) out base count) tables, ofs + places)))"

fun row_offsets :: "nat \<Rightarrow> Row list \<Rightarrow> nat list" where
  "row_offsets ofs [] = []"
| "row_offsets ofs (row # rs) = ofs # row_offsets (ofs + row_u64 row) rs"

text \<open>What \<open>check_tables\<close> reads back: curve, row, its position, the point, and where it is.\<close>

definition table_samples :: "nat \<Rightarrow> Row list \<Rightarrow> (nat \<times> nat \<times> u32 \<times> u64 \<times> nat) list" where
  "table_samples npow rs =
     concat (map (\<lambda>curve.
       concat (map (\<lambda>((i, row), ofs).
           map (\<lambda>b. (curve, i, row_pos row, b, ofs + (unat b - 1) * 8)) [1, row_points row div 2 + 1, row_points row])
         (zip (enumerate 0 rs) (row_offsets (npow + curve * curve_u64 rs) rs)))) [0..<4])"

definition check_tables :: "CudaDriver \<Rightarrow> u64 list \<Rightarrow> nat \<Rightarrow> Row list \<Rightarrow> unit cuda" where
  "check_tables cu tables npow rs =
     and_then (collect_each (table_samples npow rs) (\<lambda>(curve, i, pos, b, e).
                 and_then (call cu ''dtoh'') (\<lambda>_. give (curve, i, pos, b, take 8 (drop e tables))))) (\<lambda>samples.
     and_then (call cu ''synchronize'') (\<lambda>_.
     for_each samples (\<lambda>(curve, i, pos, b, got).
       and_then (lift_result (cu_gpu_point cu curve pos b)) (\<lambda>point.
       if got \<noteq> point
       then refuse (''the tables built on the card are wrong: curve '' @ dec curve @ '', row '' @ dec i @
                    '', point '' @ dec (unat b))
       else give ()))))"

definition check_room :: "CudaDriver \<Rightarrow> u32 \<Rightarrow> nat \<Rightarrow> unit cuda" where
  "check_room cu window need =
     and_then (ask (cu_mem_info cu)) (\<lambda>info.
     case info of
       Some (free, _) \<Rightarrow>
         if free < need + BUILD_SPARE
         then refuse (''window '' @ dec (unat window) @ '' needs '' @ dec (need div 2 ^ 20) @
                      '' MiB of tables, and the card has '' @ dec (free div 2 ^ 20) @ '' MiB free'')
         else give ()
     | None \<Rightarrow> give ())"

text \<open>The rows of the window, the kernel, the power tables in the zeroed buffer, and the rows' bases.\<close>

definition start_tables :: "CudaDriver \<Rightarrow> u32 \<Rightarrow> (Row list \<times> CudaModule \<times> nat \<times> u64 list \<times> u64 list) cuda" where
  "start_tables cu window =
     and_then (ok_or (rows window) (''no tables for a window of '' @ dec (unat window) @ '' bits'')) (\<lambda>rs.
     and_then (builder cu) (\<lambda>build.
     and_then (lift_result (cu_power_tables cu)) (\<lambda>pow.
     let total = length pow + 4 * curve_u64 rs in
     and_then (call cu ''synchronize'') (\<lambda>_.
     and_then (check_room cu window (total * 8)) (\<lambda>_.
     and_then (call cu (''could not allocate '' @ dec (total * 8 div 2 ^ 20) @ '' MiB for the BC3Hash tables'')) (\<lambda>_.
     and_then (call cu ''htod power tables'') (\<lambda>_.
     and_then (row_bases cu rs) (\<lambda>bases.
     and_then (call cu ''htod row bases'') (\<lambda>_.
     give (rs, build, length pow, copy_at 0 pow (replicate total 0), bases))))))))))"

definition build_tables :: "CudaDriver \<Rightarrow> u32 \<Rightarrow> u64 list cuda" where
  "build_tables cu window =
     and_then (start_tables cu window) (\<lambda>(rs, build, npow, tables, bases).
     and_then (look (\<lambda>b. cb_sms b * BUILD_BLOCKS_PER_SM)) (\<lambda>most.
     and_then (fold_each (build_row cu build bases (length rs) most) (table_items rs) (tables, npow)) (\<lambda>(tables, _).
     and_then (call cu ''building the BC3Hash tables'') (\<lambda>_.
     and_then (check_tables cu tables npow rs) (\<lambda>_.
     give tables)))))"

definition load_bc3 :: "CudaDriver \<Rightarrow> u32 \<Rightarrow> Bc3Kernel cuda" where
  "load_bc3 cu window =
     and_then (lift_result (bc3hash_ptx cu window)) (\<lambda>ptx.
     and_then (load_module cu (bc3hash_stem window) ptx) (\<lambda>m.
     and_then (call cu ''load_function bc3hash_scan'') (\<lambda>_.
     and_then (call cu ''load_function bc3hash_batch'') (\<lambda>_.
     and_then (build_tables cu window) (\<lambda>tables.
     and_then (ask (cu_occupancy cu)) (\<lambda>per_sm.
     and_then (look cb_sms) (\<lambda>sms.
     give \<lparr>bk_window = window, bk_module = m, bk_tables = tables,
           bk_wave = sms * max 1 (case per_sm of Some n \<Rightarrow> n | None \<Rightarrow> 1) * BC3_BLOCK_DIM\<rparr>)))))))"

subsection \<open>Launches\<close>

text \<open>Blocks, and threads a block.\<close>

definition launch_config :: "u32 \<Rightarrow> u32 \<Rightarrow> nat \<times> nat" where
  "launch_config count block = (div_ceil (unat count) (unat block), unat block)"

fun chunks :: "nat \<Rightarrow> nat \<Rightarrow> 'a list \<Rightarrow> 'a list list" where
  "chunks 0 n xs = []"
| "chunks (Suc k) n xs = take n xs # chunks k n (drop n xs)"

definition cuda_bc3_batch :: "CudaDriver \<Rightarrow> CudaBackend \<Rightarrow> bytes list \<Rightarrow> (string + bytes list) \<times> CudaBackend" where
  "cuda_bc3_batch cu b headers =
     and_then (ok_or (cb_bc3 b) ''BC3Hash kernel not loaded'') (\<lambda>k.
     and_then (call cu ''htod headers'') (\<lambda>_.
     and_then (call cu ''alloc digests'') (\<lambda>_.
     let count = word_of_nat (length headers) :: u32 in
     and_then (call cu ''bc3hash_batch launch'') (\<lambda>_.
     let out = cu_batch cu (bk_module k) (launch_config count BC3_BLOCK_DIM) (bk_tables k) (concat headers) count
                 (length headers * 32) in
     and_then (call cu ''dtoh digests'') (\<lambda>_.
     and_then (call cu ''synchronize'') (\<lambda>_.
     give (chunks (length out div 32) 32 out))))))) b"

definition copy_header :: "CudaDriver \<Rightarrow> nat \<Rightarrow> bytes \<Rightarrow> unit cuda" where
  "copy_header cu i h b =
     (if cs_header_of (nth_slot i b) = Some h then (Inr (), b)
      else and_then (change (on_slot i (\<lambda>s. s\<lparr>cs_header_of := None\<rparr>))) (\<lambda>_.
           and_then (driver cu ''htod header'' (on_slot i (\<lambda>s. s\<lparr>cs_header := h\<rparr>))
                       (\<lambda>n. on_slot i (\<lambda>s. s\<lparr>cs_header := cu_left_bytes cu n\<rparr>))) (\<lambda>_.
           change (on_slot i (\<lambda>s. s\<lparr>cs_header_of := Some h\<rparr>)))) b)"

definition copy_target :: "CudaDriver \<Rightarrow> nat \<Rightarrow> u64 list \<Rightarrow> unit cuda" where
  "copy_target cu i limbs b =
     (if cs_target_of (nth_slot i b) = Some limbs then (Inr (), b)
      else and_then (change (on_slot i (\<lambda>s. s\<lparr>cs_target_of := None\<rparr>))) (\<lambda>_.
           and_then (driver cu ''htod target'' (on_slot i (\<lambda>s. s\<lparr>cs_target := limbs\<rparr>))
                       (\<lambda>n. on_slot i (\<lambda>s. s\<lparr>cs_target := cu_left_limbs cu n\<rparr>))) (\<lambda>_.
           change (on_slot i (\<lambda>s. s\<lparr>cs_target_of := Some limbs\<rparr>)))) b)"

definition run_scan :: "CudaDriver \<Rightarrow> Bc3Kernel \<Rightarrow> u32 \<Rightarrow> u32 \<Rightarrow> Slot \<Rightarrow> Slot" where
  "run_scan cu k start count s =
     s\<lparr>cs_hits := cu_scan cu (bk_module k) (launch_config count BC3_BLOCK_DIM) (bk_tables k) (cs_header s) start count
                   (cs_target s) (cs_hits s) (word_of_nat MAX_HITS)\<rparr>"

definition queue_bc3 :: "CudaDriver \<Rightarrow> nat \<Rightarrow> Launch \<Rightarrow> unit cuda" where
  "queue_bc3 cu i l b =
     and_then (ok_or (cb_bc3 b) ''BC3Hash kernel not loaded'') (\<lambda>k.
     and_then (copy_header cu i (la_header76 l)) (\<lambda>_.
     and_then (copy_target cu i (target_limbs (la_target l))) (\<lambda>_.
     and_then (driver cu ''reset hits'' (on_slot i (\<lambda>s. s\<lparr>cs_hits := (cs_hits s)[0 := 0]\<rparr>))
                 (\<lambda>n. on_slot i (\<lambda>s. s\<lparr>cs_hits := cu_left_hits cu n\<rparr>))) (\<lambda>_.
     and_then (call cu ''record'') (\<lambda>_.
     driver cu ''bc3hash_scan launch'' (on_slot i (run_scan cu k (la_start l) (la_count l)))
       (\<lambda>n. on_slot i (\<lambda>s. s\<lparr>cs_hits := cu_left_hits cu n\<rparr>))))))) b"

definition queue_kernel :: "CudaDriver \<Rightarrow> nat \<Rightarrow> Launch \<Rightarrow> unit cuda" where
  "queue_kernel cu i l =
     (case la_algo l of
        Bc3Hash \<Rightarrow> queue_bc3 cu i l
      | algo \<Rightarrow> refuse (''no kernel for '' @ algo_name algo))"

definition cuda_enqueue :: "CudaDriver \<Rightarrow> CudaBackend \<Rightarrow> Launch \<Rightarrow> (string + unit) \<times> CudaBackend" where
  "cuda_enqueue cu b l =
     (if la_count l = 0 then (Inl ''a launch of 0 nonces'', b)
      else if QUEUE_DEPTH \<le> length (cb_queued b) then (Inl ''too many launches in flight'', b)
      else let i = cb_next_slot b
           in case queue_kernel cu i l b of
                (Inl e, b) \<Rightarrow> (Inl e, on_slot i forget b)
              | (Inr _, b) \<Rightarrow>
                  and_then (driver cu ''dtoh hits'' (on_slot i (\<lambda>s. s\<lparr>cs_hits_host := cs_hits s\<rparr>))
                              (\<lambda>n. on_slot i (\<lambda>s. s\<lparr>cs_hits_host := cu_left_hits cu n\<rparr>))) (\<lambda>_.
                  and_then (call cu ''record'') (\<lambda>_.
                  and_then (change (whatever (call cu ''query''))) (\<lambda>_.
                  change (\<lambda>b. b\<lparr>cb_queued := cb_queued b @ [i], cb_next_slot := (i + 1) mod QUEUE_DEPTH\<rparr>)))) b)"

text \<open>\<open>f64::from(ms) / 1e3\<close> seconds, to the nearest nanosecond.\<close>

definition duration_of_ms :: "f64 \<Rightarrow> duration" where
  "duration_of_ms ms =
     (case f64_div ms (F_Fin 1000) of F_Fin a \<Rightarrow> nat (round_half_even (a * 1000000000)) | _ \<Rightarrow> 0)"

definition device_time :: "f64 option \<Rightarrow> duration option" where
  "device_time ms =
     (case ms of
        Some ms \<Rightarrow> if f64_is_finite ms \<and> f64_le (F_Fin 0) ms then Some (duration_of_ms ms) else None
      | None \<Rightarrow> None)"

definition cuda_collect :: "CudaDriver \<Rightarrow> CudaBackend \<Rightarrow> (string + Scan) \<times> CudaBackend" where
  "cuda_collect cu b =
     (case cb_queued b of
        [] \<Rightarrow> (Inl ''no launch in flight'', b)
      | i # rest \<Rightarrow>
          and_then (change (\<lambda>b. b\<lparr>cb_queued := rest\<rparr>)) (\<lambda>_.
          and_then (call cu ''synchronize'') (\<lambda>_.
          and_then (ask (cu_elapsed_ms cu)) (\<lambda>ms.
          and_then (call cu ''read hits'') (\<lambda>_.
          and_then (look (\<lambda>b. cs_hits_host (nth_slot i b))) (\<lambda>hits.
          give (scan_of hits (device_time ms))))))) b)"

definition cuda_abandon :: "CudaDriver \<Rightarrow> CudaBackend \<Rightarrow> CudaBackend" where
  "cuda_abandon cu b =
     (let b = whatever (call cu ''synchronize'') b
      in b\<lparr>cb_queued := [], cb_slots := map forget (cb_slots b)\<rparr>)"

subsection \<open>The methods of the trait\<close>

text \<open>Everything but \<open>prepare_bc3hash\<close>, which the self-test does not call.\<close>

definition cuda_with ::
  "CudaDriver \<Rightarrow> (CudaBackend \<Rightarrow> u32 \<Rightarrow> (string + duration) \<times> CudaBackend) \<Rightarrow> CudaBackend MiningBackend" where
  "cuda_with cu prepare =
     \<lparr>be_name = \<lambda>b. ''CUDA: '' @ cb_name b,
      be_has_kernel = \<lambda>b algo. kernel_supports True algo,
      be_supports = \<lambda>b algo. (case algo of Bc3Hash \<Rightarrow> cb_bc3 b \<noteq> None | Sha256d \<Rightarrow> False | Sha3t \<Rightarrow> False),
      be_prepare_bc3hash = prepare,
      be_bc3hash_window = \<lambda>b. map_option bk_window (cb_bc3 b),
      be_memory = \<lambda>b. map_option (\<lambda>(free, total). (word_of_nat free, word_of_nat total)) (cu_mem_info cu (cb_calls b)),
      be_compile_ahead = \<lambda>b window. pick_sass (cu_sass cu) (bc3hash_stem window) (cb_sm b) = None \<and> cu_spawn_error cu = None,
      be_compiles_at_load = \<lambda>b. False,
      be_launch_granule = \<lambda>b algo.
        (case algo of Bc3Hash \<Rightarrow> (case cb_bc3 b of Some k \<Rightarrow> bk_wave k | None \<Rightarrow> 1) | Sha256d \<Rightarrow> 1 | Sha3t \<Rightarrow> 1),
      be_enqueue = cuda_enqueue cu,
      be_collect = cuda_collect cu,
      be_in_flight = \<lambda>b. length (cb_queued b),
      be_abandon = cuda_abandon cu\<rparr>"

definition cuda_self_test :: "CudaDriver \<Rightarrow> CudaBackend \<Rightarrow> ((self_test_error + unit) \<times> CudaBackend) option" where
  "cuda_self_test cu b =
     drawn_self_test (cuda_with cu (\<lambda>b w. (Inl '''', b))) (cuda_bc3_batch cu) (cu_pow cu) QUEUE_DEPTH (cu_vectors cu)
       (cu_nanos cu (cb_calls b)) b"

definition cuda_prepare :: "CudaDriver \<Rightarrow> CudaBackend \<Rightarrow> u32 \<Rightarrow> (string + duration) \<times> CudaBackend" where
  "cuda_prepare cu b window =
     (let t0 = cu_clock cu (cb_calls b);
          b = cuda_abandon cu b;
          b = b\<lparr>cb_bc3 := None\<rparr>
      in case load_bc3 cu window b of
           (Inl e, b) \<Rightarrow> (Inl e, b)
         | (Inr k, b) \<Rightarrow>
             (case cuda_self_test cu (b\<lparr>cb_bc3 := Some k\<rparr>) of
                Some (Inl e, b) \<Rightarrow> (Inl (''self-test failed: '' @ cu_differs cu e), b\<lparr>cb_bc3 := None\<rparr>)
              | Some (Inr _, b) \<Rightarrow> (Inr (duration_since (cu_clock cu (cb_calls b)) t0), b)
              | None \<Rightarrow> (Inl '''', b)))"

definition cuda_backend :: "CudaDriver \<Rightarrow> CudaBackend MiningBackend" where
  "cuda_backend cu = cuda_with cu (cuda_prepare cu)"

text \<open>
  Compiling ahead, on a context of its own: \<open>ctx\<close> and \<open>load\<close> are what the context and the load on it
  fail with. The trait's method: whether there is a compile to wait for, and what it prints.
\<close>

definition compile_bc3hash_ahead :: "CudaDriver \<Rightarrow> u32 \<Rightarrow> string option \<Rightarrow> string option \<Rightarrow> duration \<Rightarrow> string + duration" where
  "compile_bc3hash_ahead cu window ctx load took =
     (case bc3hash_ptx cu window of
        Inl e \<Rightarrow> Inl e
      | Inr _ \<Rightarrow>
          case ctx of
            Some e \<Rightarrow> Inl (''context: '' @ e)
          | None \<Rightarrow>
              case load of
                Some e \<Rightarrow> Inl (''could not load the BC3Hash kernel (window '' @ dec (unat window) @ ''): '' @ e)
              | None \<Rightarrow> Inr took)"

definition cuda_compile_ahead ::
  "CudaDriver \<Rightarrow> CudaBackend \<Rightarrow> u32 \<Rightarrow> string + duration \<Rightarrow> bool \<times> out_line list" where
  "cuda_compile_ahead cu b window res =
     (let gpu = ''[gpu] '' @ be_name (cuda_backend cu) b
      in if pick_sass (cu_sass cu) (bc3hash_stem window) (cb_sm b) \<noteq> None then (False, [])
         else case cu_spawn_error cu of
                Some e \<Rightarrow> (False, [Err (''[gpu] could not start the BC3Hash compile thread: '' @ e)])
              | None \<Rightarrow>
                  (True,
                   case res of
                     Inr took \<Rightarrow>
                       if from_secs 3 < took
                       then human (cu_json cu)
                              (gpu @ '': BC3Hash kernel (window '' @ dec (unat window) @ '') compiled ahead in '' @
                               fmt_fixed 0 (as_secs_f64 took) @ '' s'')
                       else []
                   | Inl e \<Rightarrow> [Err (gpu @ '': compiling the BC3Hash kernel ahead failed: '' @ e)]))"

section \<open>Lemmas\<close>

subsection \<open>The launch queue of a card\<close>

text \<open>What a slot notes about its buffers is what they hold.\<close>

definition coherent :: "Slot \<Rightarrow> bool" where
  "coherent s \<longleftrightarrow> (\<forall>h. cs_header_of s = Some h \<longrightarrow> cs_header s = h) \<and> (\<forall>t. cs_target_of s = Some t \<longrightarrow> cs_target s = t)"

lemma coherent_forget [simp]: "coherent (forget s)"
  by (simp add: coherent_def forget_def)

text \<open>A change of slot \<open>i\<close> only, to \<open>s\<close>, and of the calls made.\<close>

definition at_slot :: "nat \<Rightarrow> CudaBackend \<Rightarrow> Slot \<Rightarrow> nat \<Rightarrow> CudaBackend" where
  "at_slot i b s n = b\<lparr>cb_slots := (cb_slots b)[i := s], cb_calls := n\<rparr>"

lemma at_slot_self: "i < length (cb_slots b) \<Longrightarrow> b = at_slot i b (nth_slot i b) (cb_calls b)"
  by (simp add: at_slot_def nth_slot_def)

lemma at_slot_at_slot [simp]: "at_slot i (at_slot i b s n) t m = at_slot i b t m"
  by (simp add: at_slot_def)

lemma nth_slot_at_slot [simp]: "i < length (cb_slots b) \<Longrightarrow> nth_slot i (at_slot i b s n) = s"
  by (simp add: at_slot_def nth_slot_def)

lemma on_slot_at_slot [simp]:
  "i < length (cb_slots b) \<Longrightarrow> on_slot i f (at_slot i b s n) = at_slot i b (f s) n"
  by (simp add: at_slot_def on_slot_def)

lemma at_slot_fields [simp]:
  "cb_calls (at_slot i b s n) = n" "cb_queued (at_slot i b s n) = cb_queued b" "cb_bc3 (at_slot i b s n) = cb_bc3 b"
  "cb_next_slot (at_slot i b s n) = cb_next_slot b" "cb_slots (at_slot i b s n) = (cb_slots b)[i := s]"
  by (simp_all add: at_slot_def)

lemma calls_at_slot [simp]: "(at_slot i b s n)\<lparr>cb_calls := m\<rparr> = at_slot i b s m"
  by (simp add: at_slot_def)

lemma copy_header_at:
  assumes "i < length (cb_slots b)" and "coherent s"
  shows "\<exists>r t m. copy_header cu i h (at_slot i b s n) = (r, at_slot i b t m) \<and> coherent t \<and>
    (r = Inr () \<longrightarrow> cs_header t = h)"
  using assms
  by (cases "cu_fault cu n")
    (auto simp: copy_header_def and_then_def driver_def Let_def coherent_def)

lemma copy_target_at:
  assumes "i < length (cb_slots b)" and "coherent s"
  shows "\<exists>r t m. copy_target cu i limbs (at_slot i b s n) = (r, at_slot i b t m) \<and> coherent t \<and>
    cs_header t = cs_header s \<and> (r = Inr () \<longrightarrow> cs_target t = limbs)"
  using assms
  by (cases "cu_fault cu n")
    (auto simp: copy_target_def and_then_def driver_def Let_def coherent_def)

text \<open>What the kernel leaves in the hit buffer for a launch, with the buffer's older nonces \<open>hits\<close>.\<close>

definition kernel_hits :: "CudaDriver \<Rightarrow> Bc3Kernel \<Rightarrow> Launch \<Rightarrow> u32 list \<Rightarrow> u32 list" where
  "kernel_hits cu k l hits =
     cu_scan cu (bk_module k) (launch_config (la_count l) BC3_BLOCK_DIM) (bk_tables k) (la_header76 l) (la_start l)
       (la_count l) (target_limbs (la_target l)) (hits[0 := 0]) (word_of_nat MAX_HITS)"

lemma queue_bc3_at:
  assumes i: "i < length (cb_slots b)" and "coherent s"
  shows "\<exists>r t m. queue_bc3 cu i l (at_slot i b s n) = (r, at_slot i b t m) \<and> coherent t \<and>
    (r = Inr () \<longrightarrow> (\<exists>k hits. cb_bc3 b = Some k \<and> cs_hits t = kernel_hits cu k l hits))"
proof (cases "cb_bc3 b")
  case None
  then show ?thesis using assms by (auto simp: queue_bc3_def ok_or_def)
next
  case (Some k)
  obtain r t m where 1: "copy_header cu i (la_header76 l) (at_slot i b s n) = (r, at_slot i b t m)" "coherent t"
    "r = Inr () \<longrightarrow> cs_header t = la_header76 l" using copy_header_at [OF assms] by blast
  obtain r' t' m' where 2: "copy_target cu i (target_limbs (la_target l)) (at_slot i b t m) = (r', at_slot i b t' m')"
    "coherent t'" "cs_header t' = cs_header t" "r' = Inr () \<longrightarrow> cs_target t' = target_limbs (la_target l)"
    using copy_target_at [OF i 1(2)] by blast
  have hits: "cs_hits (run_scan cu k (la_start l) (la_count l) (t'\<lparr>cs_hits := (cs_hits t')[0 := 0]\<rparr>)) =
      kernel_hits cu k l (cs_hits t')" if "r = Inr ()" "r' = Inr ()"
    using that 1(3) 2(3,4) by (simp add: run_scan_def kernel_hits_def)
  have co: "coherent (run_scan cu k (la_start l) (la_count l) (t'\<lparr>cs_hits := h\<rparr>))" "coherent (t'\<lparr>cs_hits := h\<rparr>)" for h
    using 2(2) by (simp_all add: coherent_def run_scan_def)
  show ?thesis
  proof (cases r)
    case (Inl e)
    then show ?thesis using Some 1 by (simp add: queue_bc3_def ok_or_def and_then_def) blast
  next
    case Inr1: (Inr u)
    show ?thesis
    proof (cases r')
      case (Inl e)
      then show ?thesis using Some 1 2 Inr1 by (simp add: queue_bc3_def ok_or_def and_then_def) blast
    next
      case Inr2: (Inr v)
      have upd: "t'\<lparr>cs_hits := a, cs_hits := c\<rparr> = t'\<lparr>cs_hits := c\<rparr>" for a c by simp
      show ?thesis
        using Some 1 2 Inr1 Inr2 i co hits
        by (auto simp: queue_bc3_def ok_or_def and_then_def driver_def call_def Let_def split: option.splits)
    qed
  qed
qed

lemma queue_kernel_at:
  assumes "i < length (cb_slots b)" and "coherent s"
  shows "\<exists>r t m. queue_kernel cu i l (at_slot i b s n) = (r, at_slot i b t m) \<and> coherent t \<and>
    (r = Inr () \<longrightarrow> (\<exists>k hits. cb_bc3 b = Some k \<and> cs_hits t = kernel_hits cu k l hits))"
  using queue_bc3_at [OF assms, of cu l n] assms(2)
  by (cases "la_algo l") (auto simp: queue_kernel_def)

text \<open>Queueing a launch: it fails and nothing is queued, or the next slot gets what the kernel makes of this launch.\<close>

definition queued_on :: "nat \<Rightarrow> CudaBackend \<Rightarrow> CudaBackend" where
  "queued_on i b = b\<lparr>cb_queued := cb_queued b @ [i], cb_next_slot := (i + 1) mod QUEUE_DEPTH\<rparr>"

lemma cuda_enqueue_at:
  assumes "cb_next_slot b < length (cb_slots b)" and "coherent (nth_slot (cb_next_slot b) b)"
  shows "\<exists>t m. coherent t \<and>
    ((\<exists>e. cuda_enqueue cu b l = (Inl e, at_slot (cb_next_slot b) b t m)) \<and>
       (QUEUE_DEPTH \<le> length (cb_queued b) \<longrightarrow> t = nth_slot (cb_next_slot b) b) \<or>
     la_count l \<noteq> 0 \<and> length (cb_queued b) < QUEUE_DEPTH \<and>
     cuda_enqueue cu b l = (Inr (), queued_on (cb_next_slot b) (at_slot (cb_next_slot b) b t m)) \<and>
     (\<exists>k hits. cb_bc3 b = Some k \<and> cs_hits_host t = kernel_hits cu k l hits))"
proof -
  let ?i = "cb_next_slot b"
  note self = at_slot_self [OF assms(1)]
  consider "la_count l = 0 \<or> QUEUE_DEPTH \<le> length (cb_queued b)" | "la_count l \<noteq> 0" "length (cb_queued b) < QUEUE_DEPTH"
    by linarith
  then show ?thesis
  proof cases
    case 1
    then have "\<exists>e. cuda_enqueue cu b l = (Inl e, at_slot ?i b (nth_slot ?i b) (cb_calls b))"
      using self by (auto simp: cuda_enqueue_def)
    then show ?thesis using assms(2) by blast
  next
    case 2
    from queue_kernel_at [OF assms, of cu l "cb_calls b"] obtain r t m where
      q: "queue_kernel cu ?i l b = (r, at_slot ?i b t m)" "coherent t"
      "r = Inr () \<longrightarrow> (\<exists>k hits. cb_bc3 b = Some k \<and> cs_hits t = kernel_hits cu k l hits)"
      using self by metis
    show ?thesis
    proof (cases r)
      case (Inl e)
      then have "cuda_enqueue cu b l = (Inl e, at_slot ?i b (forget t) m)"
        using 2 q(1) assms(1) by (simp add: cuda_enqueue_def)
      then show ?thesis using coherent_forget 2 by (metis not_le)
    next
      case (Inr u)
      have co: "coherent (t\<lparr>cs_hits_host := h\<rparr>)" for h using q(2) by (simp add: coherent_def)
      let ?t = "t\<lparr>cs_hits_host := cs_hits t\<rparr>"
      have "\<exists>x m. (\<exists>e. cuda_enqueue cu b l = (Inl e, at_slot ?i b (t\<lparr>cs_hits_host := x\<rparr>) m)) \<or>
          cuda_enqueue cu b l = (Inr (), queued_on ?i (at_slot ?i b ?t m))"
        using 2 q(1) assms(1) Inr
        by (auto simp: cuda_enqueue_def and_then_def driver_def call_def whatever_def queued_on_def Let_def
            split: option.splits)
      then obtain x m' where "(\<exists>e. cuda_enqueue cu b l = (Inl e, at_slot ?i b (t\<lparr>cs_hits_host := x\<rparr>) m')) \<or>
          cuda_enqueue cu b l = (Inr (), queued_on ?i (at_slot ?i b ?t m'))" by blast
      then show ?thesis
      proof
        assume "\<exists>e. cuda_enqueue cu b l = (Inl e, at_slot ?i b (t\<lparr>cs_hits_host := x\<rparr>) m')"
        then show ?thesis using co 2 by (metis not_le)
      next
        assume "cuda_enqueue cu b l = (Inr (), queued_on ?i (at_slot ?i b ?t m'))"
        moreover have "\<exists>k hits. cb_bc3 b = Some k \<and> cs_hits_host ?t = kernel_hits cu k l hits" using q(3) Inr by simp
        ultimately show ?thesis using co 2 by blast
      qed
    qed
  qed
qed

text \<open>The queue of a card, as the ring of slots it is.\<close>

definition ring_of :: "CudaBackend \<Rightarrow> GpuQueue" where
  "ring_of b = \<lparr>gq_slots = map cs_hits_host (cb_slots b), gq_queued = cb_queued b, gq_next_slot = cb_next_slot b\<rparr>"

definition cuda_ok :: "CudaBackend \<Rightarrow> bool" where
  "cuda_ok b \<longleftrightarrow> queue_inv (ring_of b) \<and> (\<forall>s\<in>set (cb_slots b). coherent s)"

definition waiting :: "CudaBackend \<Rightarrow> u32 list list" where
  "waiting b = queue_contents (ring_of b)"

lemma ring_of_fields [simp]:
  "gq_slots (ring_of b) = map cs_hits_host (cb_slots b)" "gq_queued (ring_of b) = cb_queued b"
  "gq_next_slot (ring_of b) = cb_next_slot b"
  by (simp_all add: ring_of_def)

lemma length_waiting: "length (waiting b) = length (cb_queued b)"
  by (simp add: waiting_def queue_contents_def)

lemma cuda_ok_slot:
  assumes "cuda_ok b"
  shows "length (cb_slots b) = QUEUE_DEPTH" "cb_next_slot b < length (cb_slots b)" "coherent (nth_slot (cb_next_slot b) b)"
    "length (cb_queued b) \<le> QUEUE_DEPTH"
  using assms by (auto simp: cuda_ok_def queue_inv_def nth_slot_def)

lemma coherent_update: "\<forall>s\<in>set ss. coherent s \<Longrightarrow> coherent t \<Longrightarrow> \<forall>s\<in>set (ss[i := t]). coherent s"
  using set_update_subset_insert [of ss i t] by blast

lemma enqueue_cases [consumes 1, case_names fails queues]:
  assumes ok: "cuda_ok b"
  obtains e b' where "cuda_enqueue cu b l = (Inl e, b')" "cuda_ok b'" "waiting b' = waiting b" "cb_bc3 b' = cb_bc3 b"
  | k hits b' where "cuda_enqueue cu b l = (Inr (), b')" "cuda_ok b'" "waiting b' = waiting b @ [kernel_hits cu k l hits]"
      "cb_bc3 b = Some k" "cb_bc3 b' = Some k"
proof -
  let ?i = "cb_next_slot b"
  note inv = cuda_ok_slot [OF ok]
  have co: "\<forall>s\<in>set (cb_slots b). coherent s" and ring: "queue_inv (ring_of b)" using ok by (simp_all add: cuda_ok_def)
  obtain t m where t: "coherent t" and c:
    "(\<exists>e. cuda_enqueue cu b l = (Inl e, at_slot ?i b t m)) \<and> (QUEUE_DEPTH \<le> length (cb_queued b) \<longrightarrow> t = nth_slot ?i b) \<or>
     la_count l \<noteq> 0 \<and> length (cb_queued b) < QUEUE_DEPTH \<and>
     cuda_enqueue cu b l = (Inr (), queued_on ?i (at_slot ?i b t m)) \<and>
     (\<exists>k hits. cb_bc3 b = Some k \<and> cs_hits_host t = kernel_hits cu k l hits)"
    using cuda_enqueue_at [OF inv(2,3), of cu l] by blast
  note co' = coherent_update [OF co t, of ?i]
  from c show thesis
  proof (elim disjE conjE exE)
    fix e assume e: "cuda_enqueue cu b l = (Inl e, at_slot ?i b t m)"
      and full: "QUEUE_DEPTH \<le> length (cb_queued b) \<longrightarrow> t = nth_slot ?i b"
    have "queue_inv (ring_of (at_slot ?i b t m)) \<and> waiting (at_slot ?i b t m) = waiting b"
    proof (cases "QUEUE_DEPTH \<le> length (cb_queued b)")
      case True
      then have "(cb_slots b)[?i := t] = cb_slots b" using full by (simp add: nth_slot_def)
      then show ?thesis using ring by (simp add: waiting_def ring_of_def)
    next
      case False
      then have "?i \<notin> set (cb_queued b)" using ring by (simp add: queue_inv_def)
      then show ?thesis
        using ring by (auto simp: queue_inv_def waiting_def queue_contents_def map_update nth_list_update)
    qed
    with that(1) e co' show thesis by (simp add: cuda_ok_def)
  next
    fix k hits assume room: "la_count l \<noteq> 0" "length (cb_queued b) < QUEUE_DEPTH"
      and q: "cuda_enqueue cu b l = (Inr (), queued_on ?i (at_slot ?i b t m))"
      and k: "cb_bc3 b = Some k" and hits: "cs_hits_host t = kernel_hits cu k l hits"
    have "enqueue (\<lambda>_. kernel_hits cu k l hits) None (ring_of b) l = (Inr (), ring_of (queued_on ?i (at_slot ?i b t m)))"
      using room hits by (simp add: enqueue_def ring_of_def queued_on_def map_update Let_def)
    moreover have "length (queue_contents (ring_of b)) < QUEUE_DEPTH" using room by (simp add: queue_contents_def)
    ultimately have "queue_inv (ring_of (queued_on ?i (at_slot ?i b t m))) \<and>
        waiting (queued_on ?i (at_slot ?i b t m)) = waiting b @ [kernel_hits cu k l hits]"
      using enqueue_inv [OF ring room(1)] by (metis prod.inject waiting_def)
    with that(2) q k co' show thesis by (simp add: cuda_ok_def queued_on_def)
  qed
qed

lemma collect_cases [consumes 1, case_names none fails scans]:
  assumes ok: "cuda_ok b"
  obtains "waiting b = []" "cuda_collect cu b = (Inl ''no launch in flight'', b)"
  | h rest e b' where "waiting b = h # rest" "cuda_collect cu b = (Inl e, b')" "cuda_ok b'" "waiting b' = rest"
      "cb_bc3 b' = cb_bc3 b"
  | h rest busy b' where "waiting b = h # rest" "cuda_collect cu b = (Inr (scan_of h busy), b')" "cuda_ok b'"
      "waiting b' = rest" "cb_bc3 b' = cb_bc3 b"
proof (cases "cb_queued b")
  case Nil
  then show thesis using that(1) by (simp add: cuda_collect_def waiting_def queue_contents_def)
next
  case (Cons i rest)
  let ?b = "\<lambda>n. b\<lparr>cb_queued := rest, cb_calls := n\<rparr>"
  have i: "i < length (cb_slots b)" using ok Cons by (auto simp: cuda_ok_def queue_inv_def)
  then have w: "waiting b = cs_hits_host (cb_slots b ! i) # map (\<lambda>i. map cs_hits_host (cb_slots b) ! i) rest"
    using Cons by (simp add: waiting_def queue_contents_def)
  obtain busy where c: "collect None busy (ring_of b) = (Inr (scan_of (cs_hits_host (cb_slots b ! i)) None), ring_of (?b 0))"
    using Cons i by (auto simp: collect_def ring_of_def)
  have "queue_inv (ring_of (?b n))" "waiting (?b n) = map (\<lambda>i. map cs_hits_host (cb_slots b) ! i) rest" for n
  proof -
    have "ring_of (?b n) = ring_of (?b 0)" by (simp add: ring_of_def)
    moreover have "queue_inv (ring_of (?b 0))"
      using collect_inv [of "ring_of b" _ _ busy] ok w c by (auto simp: cuda_ok_def waiting_def)
    ultimately show "queue_inv (ring_of (?b n))" by (simp only:)
    show "waiting (?b n) = map (\<lambda>i. map cs_hits_host (cb_slots b) ! i) rest"
      by (simp add: waiting_def queue_contents_def)
  qed
  then have kept: "cuda_ok (?b n)" "waiting (?b n) = map (\<lambda>i. map cs_hits_host (cb_slots b) ! i) rest"
    "cb_bc3 (?b n) = cb_bc3 b" for n using ok by (simp_all add: cuda_ok_def)
  have "(\<exists>e n. cuda_collect cu b = (Inl e, ?b n)) \<or>
      (\<exists>busy n. cuda_collect cu b = (Inr (scan_of (cs_hits_host (cb_slots b ! i)) busy), ?b n))"
    using Cons
    by (auto simp: cuda_collect_def and_then_def call_def driver_def ask_def look_def nth_slot_def Let_def split: option.splits)
  then show thesis
  proof (elim disjE exE)
    fix e n assume "cuda_collect cu b = (Inl e, ?b n)"
    then show thesis by (rule that(2) [OF w _ kept])
  next
    fix busy n assume "cuda_collect cu b = (Inr (scan_of (cs_hits_host (cb_slots b ! i)) busy), ?b n)"
    then show thesis by (rule that(3) [OF w _ kept])
  qed
qed

lemma abandon_ok: "cuda_ok b \<Longrightarrow> cuda_ok (cuda_abandon cu b) \<and> waiting (cuda_abandon cu b) = []"
  by (auto simp: cuda_abandon_def cuda_ok_def queue_inv_def waiting_def queue_contents_def whatever_def call_def driver_def
      Let_def split: option.splits)

lemma waiting_Nil [simp]: "waiting b = [] \<longleftrightarrow> cb_queued b = []"
  using length_waiting [of b] by (metis length_0_conv)

text \<open>Operations that only make calls, print, or load kernels leave the queue as it is.\<close>

definition queue_of :: "CudaBackend \<Rightarrow> Slot list \<times> nat list \<times> nat \<times> Bc3Kernel option \<times> u32" where
  "queue_of b = (cb_slots b, cb_queued b, cb_next_slot b, cb_bc3 b, cb_sms b)"

lemma queue_of_ok: "queue_of b = queue_of c \<Longrightarrow> cuda_ok b \<longleftrightarrow> cuda_ok c"
  by (simp add: queue_of_def cuda_ok_def ring_of_def)

lemma keeps_driver: "(\<And>b. I b \<Longrightarrow> I (good (b\<lparr>cb_calls := cb_calls b + 1\<rparr>))) \<Longrightarrow>
    (\<And>n b. I b \<Longrightarrow> I (bad n (b\<lparr>cb_calls := cb_calls b + 1\<rparr>))) \<Longrightarrow> keeps I (driver cu what good bad)"
  by (simp add: keeps_def driver_def Let_def split: option.split)

lemma steady_call [keeps_intros]: "keeps (\<lambda>b. queue_of b = q) (call cu what)"
  unfolding call_def by (rule keeps_driver) (simp_all add: queue_of_def)

lemma steady_ask [keeps_intros]: "keeps (\<lambda>b. queue_of b = q) (ask f)"
  by (simp add: keeps_def ask_def queue_of_def)

lemma steady_look [keeps_intros]: "keeps I (look f)"
  by (simp add: keeps_def look_def)

lemma steady_load_jit: "keeps (\<lambda>b. queue_of b = q) (load_jit cu stem ptx)"
  unfolding load_jit_def by (intro keeps_intros keeps_change) (simp add: queue_of_def)

lemma queue_of_print [simp]: "queue_of (print ls b) = queue_of b"
  by (simp add: print_def queue_of_def)

lemma call_queue_of: "call cu what b = (r, c) \<Longrightarrow> queue_of c = queue_of b"
  using keepsD [OF steady_call, of b "queue_of b" cu what] by simp

lemma load_jit_queue_of: "queue_of (snd (load_jit cu stem ptx b)) = queue_of b"
  using keepsD [OF steady_load_jit, of b "queue_of b" cu stem ptx] by simp

lemma steady_load_module [keeps_intros]: "keeps (\<lambda>b. queue_of b = q) (load_module cu stem ptx)"
  by (auto simp: keeps_def load_module_def Let_def load_jit_queue_of call_queue_of split: option.split sum.split prod.split)

lemma steady_builder [keeps_intros]: "keeps (\<lambda>b. queue_of b = q) (builder cu)"
proof -
  have "keeps (\<lambda>b. queue_of b = q)
      (and_then (load_module cu ''bc3hash_build'' (cu_build_ptx cu)) (\<lambda>f.
       and_then (call cu ''load_function bc3hash_build_row'') (\<lambda>_.
       and_then (change (\<lambda>b. b\<lparr>cb_builder := Some f\<rparr>)) (\<lambda>_. give f))))"
    by (intro keeps_intros keeps_change) (simp add: queue_of_def)
  then show ?thesis by (simp add: keeps_def builder_def split: option.split)
qed

lemma steady_start_tables [keeps_intros]: "keeps (\<lambda>b. queue_of b = q) (start_tables cu window)"
  unfolding start_tables_def check_room_def row_bases_def Let_def
  by (auto intro!: keeps_intros split: option.split prod.split)

lemma steady_build_tables [keeps_intros]: "keeps (\<lambda>b. queue_of b = q) (build_tables cu window)"
  unfolding build_tables_def check_tables_def build_row_def Let_def
  by (auto intro!: keeps_intros split: option.split prod.split)

lemma steady_load_bc3: "keeps (\<lambda>b. queue_of b = q) (load_bc3 cu window)"
  unfolding load_bc3_def by (intro keeps_intros)

lemma steady_batch: "queue_of (snd (cuda_bc3_batch cu b headers)) = queue_of b"
proof -
  have "keeps (\<lambda>c. queue_of c = queue_of b) (\<lambda>b. cuda_bc3_batch cu b headers)" for b
    unfolding keeps_def cuda_bc3_batch_def Let_def
    by (intro allI impI, rule keepsD) (intro keeps_intros)
  then show ?thesis by (simp add: keeps_def)
qed

lemma abandon_bc3 [simp]: "cb_bc3 (cuda_abandon cu b) = cb_bc3 b"
  by (simp add: cuda_abandon_def whatever_def call_def driver_def Let_def split: option.split)

lemma queue_of_fields: "queue_of b = queue_of c \<Longrightarrow> cb_bc3 b = cb_bc3 c \<and> cb_queued b = cb_queued c \<and> waiting b = waiting c"
  by (simp add: queue_of_def waiting_def ring_of_def)

interpretation cuda_test: scanning_device "cuda_with cu prepare" "cuda_bc3_batch cu" "\<lambda>b. cuda_ok b \<and> cb_bc3 b = Some k"
  "\<lambda>b. cuda_ok b \<and> cb_bc3 b = Some k" waiting "\<lambda>l h. \<exists>hits. h = kernel_hits cu k l hits"
proof
  fix b l hs e u b' scan assume inv: "cuda_ok b \<and> cb_bc3 b = Some k"
  then have ok: "cuda_ok b" and k: "cb_bc3 b = Some k" by simp_all
  have enq: "cuda_ok (snd (cuda_enqueue cu b l)) \<and> cb_bc3 (snd (cuda_enqueue cu b l)) = Some k"
    using ok by (cases rule: enqueue_cases [where cu = cu and l = l]) (use k in simp_all)
  have col: "cuda_ok (snd (cuda_collect cu b)) \<and> cb_bc3 (snd (cuda_collect cu b)) = Some k"
    using ok by (cases rule: collect_cases [where cu = cu]) (use inv in simp_all)
  show "cuda_ok b' \<and> cb_bc3 b' = Some k" if "be_enqueue (cuda_with cu prepare) b l = (Inr u, b')"
    using enq that by (simp add: cuda_with_def)
  show "cuda_ok b' \<and> cb_bc3 b' = Some k" if "be_enqueue (cuda_with cu prepare) b l = (Inl e, b')"
    using enq that by (simp add: cuda_with_def)
  show "cuda_ok b' \<and> cb_bc3 b' = Some k" if "be_collect (cuda_with cu prepare) b = (Inr scan, b')"
    using col that by (simp add: cuda_with_def)
  show "cuda_ok b' \<and> cb_bc3 b' = Some k" if "be_collect (cuda_with cu prepare) b = (Inl e, b')"
    using col that by (simp add: cuda_with_def)
  show "cuda_ok (be_abandon (cuda_with cu prepare) b) \<and> cb_bc3 (be_abandon (cuda_with cu prepare) b) = Some k"
    using abandon_ok [OF ok] k by (simp add: cuda_with_def)
  show "cuda_ok (snd (cuda_bc3_batch cu b hs)) \<and> cb_bc3 (snd (cuda_bc3_batch cu b hs)) = Some k"
    using inv queue_of_ok queue_of_fields steady_batch by metis
  show "be_in_flight (cuda_with cu prepare) b \<le> QUEUE_DEPTH" using cuda_ok_slot(4) [OF ok] by (simp add: cuda_with_def)
  show "be_in_flight (cuda_with cu prepare) b' < be_in_flight (cuda_with cu prepare) b"
    if "be_in_flight (cuda_with cu prepare) b \<noteq> 0" "be_collect (cuda_with cu prepare) b = (Inr scan, b')"
    using ok by (cases rule: collect_cases [where cu = cu])
      (use that in \<open>simp_all add: cuda_with_def flip: length_waiting\<close>)
  show "be_in_flight (cuda_with cu prepare) (be_abandon (cuda_with cu prepare) b) = 0"
    using abandon_ok [OF ok] by (simp add: cuda_with_def)
  show "be_in_flight (cuda_with cu prepare) (snd (cuda_bc3_batch cu b hs)) = be_in_flight (cuda_with cu prepare) b"
    using steady_batch [of cu b hs] by (simp add: cuda_with_def queue_of_def)
  show "be_in_flight (cuda_with cu prepare) b = length (waiting b)" by (simp add: cuda_with_def length_waiting)
  show "waiting (snd (cuda_bc3_batch cu b hs)) = waiting b" using queue_of_fields steady_batch by metis
  show "\<exists>h. (\<exists>hits. h = kernel_hits cu k l hits) \<and> waiting b' = waiting b @ [h]"
    if "be_enqueue (cuda_with cu prepare) b l = (Inr u, b')"
    using ok by (cases rule: enqueue_cases [where cu = cu and l = l]) (use that k in \<open>auto simp: cuda_with_def\<close>)
  show "\<exists>h busy. waiting b = h # waiting b' \<and> scan = scan_of h busy"
    if "be_collect (cuda_with cu prepare) b = (Inr scan, b')"
    using ok by (cases rule: collect_cases [where cu = cu]) (use that in \<open>auto simp: cuda_with_def\<close>)
qed

lemma cuda_ok_bc3 [simp]: "cuda_ok (b\<lparr>cb_bc3 := k\<rparr>) \<longleftrightarrow> cuda_ok b"
  by (simp add: cuda_ok_def ring_of_def)

lemma load_bc3_window: "load_bc3 cu window b = (Inr k, b') \<Longrightarrow> bk_window k = window"
  by (auto simp: load_bc3_def elim!: and_then_InrE)

lemma load_bc3_ok:
  assumes "load_bc3 cu window b = (r, c)" and "cuda_ok b"
  shows "cuda_ok c \<and> cb_queued c = cb_queued b \<and> cb_bc3 c = cb_bc3 b"
proof -
  have "queue_of c = queue_of b" using keepsD [OF steady_load_bc3, of b "queue_of b" cu window] assms(1) by simp
  then show ?thesis using queue_of_ok queue_of_fields assms(2) by metis
qed

text \<open>Preparing a window: the queue is empty afterwards, and the kernel is there exactly if it has passed its test.\<close>

lemma prepare_cases [consumes 1, case_names fails passes]:
  assumes "cuda_ok b"
  obtains e b' where "cuda_prepare cu b window = (Inl e, b')" "cuda_ok b'" "cb_queued b' = []" "cb_bc3 b' = None"
  | k t c b' where "cuda_prepare cu b window = (Inr t, b')" "cuda_ok b'" "cb_queued b' = []" "cb_bc3 b' = Some k"
      "bk_window k = window" "cuda_self_test cu c = Some (Inr (), b')" "cuda_ok c" "cb_bc3 c = Some k" "cb_queued c = []"
proof -
  let ?b = "(cuda_abandon cu b)\<lparr>cb_bc3 := None\<rparr>"
  have b: "cuda_ok ?b" "cb_queued ?b = []"
    using abandon_ok [OF assms, of cu] by simp_all
  obtain r c where l: "load_bc3 cu window ?b = (r, c)" by (cases "load_bc3 cu window ?b")
  from load_bc3_ok [OF l b(1)] b(2) have c: "cuda_ok c" "cb_queued c = []" "cb_bc3 c = None" by simp_all
  show thesis
  proof (cases r)
    case (Inl e)
    then show thesis using that(1) l c by (simp add: cuda_prepare_def)
  next
    case (Inr k)
    let ?c = "c\<lparr>cb_bc3 := Some k\<rparr>"
    have ok: "cuda_ok ?c \<and> cb_bc3 ?c = Some k" "cb_queued ?c = []" using c by simp_all
    then have idle: "be_in_flight (cuda_with cu (\<lambda>b w. (Inl '''', b))) ?c = 0" by (simp add: cuda_with_def)
    from cuda_test.drawn_self_test_ends [OF ok(1) idle order_refl] obtain res d where
      t: "cuda_self_test cu ?c = Some (res, d)" "cuda_ok d" "cb_bc3 d = Some k" "cb_queued d = []"
      unfolding cuda_self_test_def by (fastforce simp: cuda_with_def)
    show thesis
    proof (cases res)
      case (Inl e)
      then show thesis using that(1) l \<open>r = Inr k\<close> t by (simp add: cuda_prepare_def)
    next
      case res: (Inr u)
      show thesis
        by (rule that(2) [of _ d k ?c]) (use l Inr res t ok load_bc3_window in \<open>auto simp: cuda_prepare_def\<close>)
    qed
  qed
qed

subsection \<open>Machine code\<close>

lemma newest_Some: "newest xs = Some (s, c) \<Longrightarrow> (\<exists>n. (n, s, c) \<in> set xs) \<and> (\<forall>(n, t, d)\<in>set xs. t \<le> s)"
proof (induction xs arbitrary: s c)
  case (Cons x xs)
  obtain n t d where x: "x = (n, t, d)" by (cases x)
  show ?case
  proof (cases "newest xs")
    case None
    then have "xs = []" by (cases xs) (auto split: option.splits if_splits)
    then show ?thesis using Cons.prems by (simp add: x)
  next
    case (Some y)
    obtain u e where y: "y = (u, e)" by (cases y)
    show ?thesis using Cons.IH [of u e] Cons.prems Some by (auto simp: x y split: if_splits)
  qed
qed simp

lemma newest_None: "newest xs = None \<longleftrightarrow> xs = []"
  by (cases xs) (auto split: option.splits)

subsection \<open>The tables a card builds\<close>

lemma digits_small: "digits window = Some ds \<Longrightarrow> w \<in> set ds \<Longrightarrow> unat w \<le> 24"
  by (auto simp: digits_def word_le_nat_alt split: if_splits)

lemma rows_from_small:
  "(\<And>w. w \<in> set ws \<Longrightarrow> unat w \<le> 24) \<Longrightarrow> r \<in> set (rows_from p ws) \<Longrightarrow> unat (row_places r) < 2 ^ 24"
proof (induction ws arbitrary: p)
  case (Cons w ws)
  have "unat (push_bit (unat w) 1 - 1 :: u64) < 2 ^ 24"
    using Cons.prems(1) [of w] power_increasing [of "unat w" 24 "2 :: nat"]
    by (simp add: unat_shifted_ones del: push_bit_of_1)
  with Cons show ?case by (auto simp: Let_def)
qed simp

lemma rows_small:
  assumes "rows window = Some rs" and "r \<in> set rs"
  shows "unat (row_points r) \<le> unat (row_places r)" "unat (row_places r) < 2 ^ 24"
    "unat (ucast (row_points r) :: u32) = unat (row_points r)"
proof -
  obtain ds where ds: "digits window = Some ds" "rs = rows_from 0 ds" using assms(1) by (auto simp: rows_def)
  note w = digits_small [OF ds(1)]
  show le: "unat (row_points r) \<le> unat (row_places r)"
    using rows_from_points [of ds r 0] w assms(2) ds(2) by (force simp: word_le_nat_alt)
  show lt: "unat (row_places r) < 2 ^ 24" using rows_from_small [of ds r 0] w assms(2) ds(2) by simp
  show "unat (ucast (row_points r) :: u32) = unat (row_points r)"
    using le lt by (simp add: unsigned_ucast_eq take_bit_nat_eq_self)
qed

lemma length_table_items [simp]: "length (table_items rs) = 4 * length rs"
  by (simp add: table_items_def length_concat sum_list_triv comp_def upt_rec)

lemma nth_concat_blocks:
  assumes "\<And>c. length (f c) = k" and "0 < k" and "j < m * k"
  shows "concat (map f [0..<m]) ! j = f (j div k) ! (j mod k)"
  using assms(3)
proof (induction m)
  case (Suc m)
  have len: "length (concat (map f [0..<m])) = m * k" using assms(1) by (simp add: length_concat comp_def sum_list_triv)
  show ?case
  proof (cases "j < m * k")
    case True
    then show ?thesis using Suc len by (simp add: nth_append)
  next
    case False
    then have "j div k = m" using Suc.prems assms(2) by (intro div_nat_eqI) (simp_all add: mult.commute)
    moreover from this have "j - m * k = j mod k" by (metis minus_div_mult_eq_mod)
    ultimately show ?thesis using False len by (simp add: nth_append)
  qed
qed simp

lemma nth_table_items:
  assumes "j < 4 * length rs"
  shows "table_items rs ! j = (j div length rs, j mod length rs, rs ! (j mod length rs))"
proof -
  have n: "0 < length rs" using assms by (cases rs) simp_all
  have "table_items rs ! j = map (\<lambda>(i, row). (j div length rs, i, row)) (enumerate 0 rs) ! (j mod length rs)"
    unfolding table_items_def by (rule nth_concat_blocks) (use assms n in simp_all)
  then show ?thesis using n by (simp add: nth_enumerate_eq)
qed

lemma set_table_items: "(c, i, row) \<in> set (table_items rs) \<Longrightarrow> row \<in> set rs"
  by (auto simp: table_items_def in_set_enumerate_eq)

lemma table_items_u64: "sum_list (map (\<lambda>(c, i, row). row_u64 row) (table_items rs)) = 4 * curve_u64 rs"
proof -
  have "sum_list (map (\<lambda>(c, i, row). row_u64 row) (map (\<lambda>(i, row). (d, i, row)) (enumerate 0 rs))) = curve_u64 rs" for d :: nat
    by (simp add: comp_def split_def curve_u64_def flip: map_map [of row_u64 snd, unfolded comp_def])
  then show ?thesis by (simp add: table_items_def upt_rec)
qed

text \<open>The host's own points, and a row of the tables as \<open>bc3hash::gpu_tables\<close> lays it out.\<close>

definition host_point :: "CudaDriver \<Rightarrow> nat \<Rightarrow> u32 \<Rightarrow> nat \<Rightarrow> u64 list" where
  "host_point cu curve pos b = (case cu_gpu_point cu curve pos (word_of_nat b) of Inr p \<Rightarrow> p | Inl _ \<Rightarrow> [])"

definition row_layout :: "CudaDriver \<Rightarrow> nat \<times> nat \<times> Row \<Rightarrow> u64 list" where
  "row_layout cu = (\<lambda>(curve, i, row).
     concat (map (host_point cu curve (row_pos row)) [1..<unat (row_points row) + 1]) @
     replicate (row_u64 row - 8 * unat (row_points row)) 0)"

definition host_layout :: "CudaDriver \<Rightarrow> u64 list \<Rightarrow> Row list \<Rightarrow> u64 list" where
  "host_layout cu pow rs = pow @ concat (map (row_layout cu) (table_items rs))"

text \<open>
  What the kernel that builds a row is for: from the row's first point it writes the row's points, in
  order, and touches nothing after them, however many blocks it runs on.
\<close>

definition builds_rows :: "CudaDriver \<Rightarrow> bool" where
  "builds_rows cu \<longleftrightarrow> (\<forall>build n out curve pos p count.
     cu_gpu_point cu curve pos 1 = Inr p \<longrightarrow> 1 \<le> n \<longrightarrow> 8 * unat count \<le> length out \<longrightarrow>
     cu_build_row cu build (n, unat BUILD_BLOCK_DIM) out p count =
       concat (map (host_point cu curve pos) [1..<unat count + 1]) @ drop (8 * unat count) out)"

definition points_have_8_limbs :: "CudaDriver \<Rightarrow> bool" where
  "points_have_8_limbs cu \<longleftrightarrow> (\<forall>curve pos b. curve < 4 \<longrightarrow> (\<exists>p. cu_gpu_point cu curve pos b = Inr p \<and> length p = 8))"

lemma length_row_layout:
  assumes "points_have_8_limbs cu" and "c < 4" and "unat (row_points row) \<le> unat (row_places row)"
  shows "length (row_layout cu (c, i, row)) = row_u64 row"
proof -
  have "length (host_point cu c (row_pos row) b) = 8" for b
    using assms(1,2) by (auto simp: points_have_8_limbs_def host_point_def split: sum.splits) (metis Inr_inject sum.distinct(1))+
  then show ?thesis using assms(3)
    by (cases "unat (row_points row) = 0") (simp_all add: row_layout_def length_concat comp_def sum_list_triv row_u64_def)
qed

lemma build_row_step:
  assumes rs: "rows window = Some rs" and items: "table_items rs = ys @ x # zs"
    and pts: "points_have_8_limbs cu" and kern: "builds_rows cu" and most: "1 \<le> unat most"
    and bases: "list_all2 (\<lambda>(curve, i, row) p. cu_gpu_point cu curve (row_pos row) 1 = Inr p) (table_items rs) points"
    and run: "build_row cu build (concat points) (length rs) most x (ts, ofs) s = (Inr (ts', ofs'), t)"
    and ofs: "ofs = length pow + sum_list (map (\<lambda>(c, i, row). row_u64 row) ys)"
    and ts: "ts = pow @ concat (map (row_layout cu) ys) @ replicate (4 * curve_u64 rs - sum_list (map (\<lambda>(c, i, row). row_u64 row) ys)) 0"
  shows "ofs' = length pow + sum_list (map (\<lambda>(c, i, row). row_u64 row) (ys @ [x])) \<and>
    ts' = pow @ concat (map (row_layout cu) (ys @ [x])) @
      replicate (4 * curve_u64 rs - sum_list (map (\<lambda>(c, i, row). row_u64 row) (ys @ [x]))) 0"
proof -
  obtain c i row where x: "x = (c, i, row)" by (cases x)
  let ?j = "length ys" and ?used = "sum_list (map (\<lambda>(c, i, row). row_u64 row) ys)"
  have j: "?j < 4 * length rs" "table_items rs ! ?j = x" using items by (metis length_append length_table_items
        less_add_same_cancel1 list.size(4) zero_less_Suc add_Suc_right, simp add: items)
  have small: "unat (row_points r) \<le> unat (row_places r) \<and> unat (ucast (row_points r) :: u32) = unat (row_points r)"
    if "r \<in> set rs" for r using rows_small [OF rs that] by simp
  have row: "row \<in> set rs" using set_table_items [of c i row rs] items x by simp
  have ci: "c * length rs + i = ?j" "c < 4"
    using nth_table_items [OF j(1)] j x by (auto simp: less_mult_imp_div_less)
  have lay: "length (row_layout cu y) = row_u64 (snd (snd y))" if y: "y \<in> set (table_items rs)" for y
  proof -
    obtain j' where "j' < length (table_items rs)" "table_items rs ! j' = y" using y unfolding in_set_conv_nth by blast
    then have "fst y < 4" using nth_table_items [of j' rs] by (auto simp: less_mult_imp_div_less)
    moreover have "snd (snd y) \<in> set rs" using y set_table_items [of "fst y" "fst (snd y)" "snd (snd y)"] by simp
    ultimately show ?thesis using length_row_layout [OF pts, of "fst y" "snd (snd y)" "fst (snd y)"] small by simp
  qed
  have used: "length (concat (map (row_layout cu) ys)) = ?used"
  proof -
    have "map (\<lambda>y. length (row_layout cu y)) ys = map (\<lambda>(c, i, row). row_u64 row) ys"
      unfolding split_def by (rule map_cong [OF refl]) (simp add: lay items)
    moreover have "length (concat (map (row_layout cu) ys)) = sum_list (map (\<lambda>y. length (row_layout cu y)) ys)"
      by (simp add: length_concat comp_def)
    ultimately show ?thesis by (simp only:)
  qed
  have all: "?used + row_u64 row \<le> 4 * curve_u64 rs" using table_items_u64 [of rs] by (simp add: items x)
  have p8: "\<forall>p\<in>set points. length p = 8"
  proof
    fix p assume "p \<in> set points"
    then obtain k where k: "k < length points" "p = points ! k" by (auto simp: in_set_conv_nth)
    then have k4: "k < 4 * length rs" using list_all2_lengthD [OF bases] by simp
    have "cu_gpu_point cu (k div length rs) (row_pos (rs ! (k mod length rs))) 1 = Inr p"
      using list_all2_nthD [OF bases, of k] k k4 by (simp add: nth_table_items)
    moreover have "k div length rs < 4" using k4 by (simp add: less_mult_imp_div_less)
    ultimately show "length p = 8" using pts by (metis Inr_inject points_have_8_limbs_def)
  qed
  have jp: "?j < length points" using j(1) list_all2_lengthD [OF bases] by simp
  have base: "cu_gpu_point cu c (row_pos row) 1 = Inr (points ! ?j)"
    using list_all2_nthD [OF bases, of ?j] j x by simp
  let ?count = "ucast (row_points row) :: u32"
  let ?out = "take (row_u64 row) (drop ofs ts)"
  have out: "?out = replicate (row_u64 row) 0" using all used by (simp add: ts ofs)
  have "cu_build_row cu build (clamp 1 (unat most) (div_ceil (unat ?count) (unat BUILD_BLOCK_DIM)), unat BUILD_BLOCK_DIM) ?out
      (points ! ?j) ?count = row_layout cu x"
  proof -
    have "1 \<le> clamp 1 (unat most) n" for n using most by (simp add: clamp_def)
    moreover have "8 * unat ?count \<le> length ?out" using small [OF row] out by (simp add: row_u64_def)
    ultimately show ?thesis
      using kern base small [OF row] out by (simp add: builds_rows_def row_layout_def x row_u64_def)
  qed
  note built = this
  have "take 8 (drop ((c * length rs + i) * 8) (concat points)) = points ! ?j"
    unfolding ci(1) by (rule take_drop_concat [OF p8 jp])
  note bs = this
  have "ts' = copy_at ofs (row_layout cu x) ts \<and> ofs' = ofs + row_u64 row"
    using run unfolding x build_row_def Let_def prod.case bs built [unfolded x]
    by (auto elim!: and_then_InrE)
  moreover have "length (row_layout cu x) = row_u64 row" using lay [of x] items x by simp
  ultimately show ?thesis using all used by (simp add: ts ofs copy_at_def x)
qed


lemma row_bases_points:
  assumes "row_bases cu rs b = (Inr bases, t)"
  obtains points where "bases = concat points"
    "list_all2 (\<lambda>(curve, i, row) p. cu_gpu_point cu curve (row_pos row) 1 = Inr p) (table_items rs) points"
proof -
  obtain points u where c: "collect_each (table_items rs) (\<lambda>(curve, i, row). lift_result (cu_gpu_point cu curve (row_pos row) 1)) b
      = (Inr points, u)" "bases = concat points"
    using assms unfolding row_bases_def by (auto elim!: and_then_InrE)
  have "list_all2 (\<lambda>(curve, i, row) p. cu_gpu_point cu curve (row_pos row) 1 = Inr p) (table_items rs) points"
    by (rule collect_each_all2 [OF _ c(1)]) auto
  with that c(2) show thesis by blast
qed

lemma start_tables_Inr:
  assumes "start_tables cu window b = (Inr (rs, build, npow, tables, bases), t)"
  shows "rows window = Some rs \<and> (\<exists>pow. cu_power_tables cu = Inr pow \<and> npow = length pow \<and>
      tables = pow @ replicate (4 * curve_u64 rs) 0) \<and> (\<exists>u v. row_bases cu rs u = (Inr bases, v)) \<and> queue_of t = queue_of b"
proof -
  have "rows window = Some rs \<and> (\<exists>pow. cu_power_tables cu = Inr pow \<and> npow = length pow \<and>
      tables = pow @ replicate (4 * curve_u64 rs) 0) \<and> (\<exists>u v. row_bases cu rs u = (Inr bases, v))"
    using assms unfolding start_tables_def Let_def
    by (auto elim!: and_then_InrE ok_or_InrE simp: copy_at_def) blast
  moreover have "queue_of t = queue_of b"
    using keepsD [OF steady_start_tables, of b "queue_of b" cu window] assms by simp
  ultimately show ?thesis by blast
qed

text \<open>What the host looks at when it checks the tables.\<close>

lemma check_tables_checks:
  assumes "check_tables cu tables npow rs b = (Inr u, t)"
  shows "\<forall>(curve, i, pos, b, e)\<in>set (table_samples npow rs). cu_gpu_point cu curve pos b = Inr (take 8 (drop e tables))"
proof -
  let ?read = "\<lambda>(curve, i, pos, b, e). (curve, i, pos, b, take 8 (drop e tables))"
  obtain samples c d where s: "collect_each (table_samples npow rs) (\<lambda>(curve, i, pos, b, e).
        and_then (call cu ''dtoh'') (\<lambda>_. give (?read (curve, i, pos, b, e)))) b = (Inr samples, c)"
    and f: "for_each samples (\<lambda>(curve, i, pos, b, got).
       and_then (lift_result (cu_gpu_point cu curve pos b)) (\<lambda>point.
       if got \<noteq> point
       then refuse (''the tables built on the card are wrong: curve '' @ dec curve @ '', row '' @ dec i @
                    '', point '' @ dec (unat b))
       else give ())) d = (Inr u, t)"
    using assms unfolding check_tables_def by (auto elim!: and_then_InrE)
  have "samples = map ?read (table_samples npow rs)"
    by (rule collect_each_map [OF _ s]) (auto elim!: and_then_InrE)
  moreover have "\<forall>(curve, i, pos, b, got)\<in>set samples. cu_gpu_point cu curve pos b = Inr got"
    by (rule for_each_all [OF _ f]) (auto elim!: and_then_InrE split: if_splits)
  ultimately show ?thesis by auto
qed

lemma set_row_offsets:
  "j < length rs \<Longrightarrow> length (row_offsets p rs) = length rs \<and> row_offsets p rs ! j = p + sum_list (map row_u64 (take j rs))"
proof (induction rs arbitrary: p j)
  case (Cons r rs)
  have len: "length (row_offsets q xs) = length xs" for q xs by (induction xs arbitrary: q) simp_all
  show ?case using Cons.IH [of "j - 1" "p + row_u64 r"] Cons.prems len by (cases j) simp_all
qed simp

text \<open>Where row \<open>i\<close> of a curve starts.\<close>

definition row_start :: "nat \<Rightarrow> Row list \<Rightarrow> nat \<Rightarrow> nat \<Rightarrow> nat" where
  "row_start npow rs curve i = npow + curve * curve_u64 rs + sum_list (map row_u64 (take i rs))"

lemma in_table_samples:
  assumes "curve < 4" and "i < length rs" and "b \<in> {1, row_points (rs ! i) div 2 + 1, row_points (rs ! i)}"
  shows "(curve, i, row_pos (rs ! i), b, row_start npow rs curve i + (unat b - 1) * 8) \<in> set (table_samples npow rs)"
proof -
  let ?z = "zip (enumerate 0 rs) (row_offsets (npow + curve * curve_u64 rs) rs)"
  have "length (row_offsets (npow + curve * curve_u64 rs) rs) = length rs" using set_row_offsets [OF assms(2)] by simp
  then have "?z ! i = ((i, rs ! i), row_start npow rs curve i)" "i < length ?z"
    using set_row_offsets [OF assms(2)] assms(2) by (simp_all add: nth_enumerate_eq row_start_def)
  then have "((i, rs ! i), row_start npow rs curve i) \<in> set ?z" by (metis nth_mem)
  moreover have "(curve, i, row_pos (rs ! i), b, row_start npow rs curve i + (unat b - 1) * 8) \<in>
      set (map (\<lambda>b. (curve, i, row_pos (rs ! i), b, row_start npow rs curve i + (unat b - 1) * 8))
        [1, row_points (rs ! i) div 2 + 1, row_points (rs ! i)])" using assms(3) by auto
  ultimately show ?thesis
    using assms(1) unfolding table_samples_def set_concat set_map image_image
    by (intro UN_I [of curve] UN_I [of "((i, rs ! i), row_start npow rs curve i)"]) simp_all
qed

lemma fold_layout:
  assumes st: "start_tables cu window b = (Inr (rs', build, npow, ts, bases), c)"
    and f: "fold_each (build_row cu build bases (length rs') (cb_sms c * BUILD_BLOCKS_PER_SM)) (table_items rs') (ts, npow) c
      = (Inr (tables, ofs), d)"
    and rs: "rows window = Some rs" and pow: "cu_power_tables cu = Inr pow"
    and pts: "points_have_8_limbs cu" and kern: "builds_rows cu" and most: "1 \<le> unat (cb_sms b * BUILD_BLOCKS_PER_SM)"
  shows "tables = host_layout cu pow rs"
proof -
  from start_tables_Inr [OF st] rs pow obtain u v where
    eq: "rs' = rs" "npow = length pow" "ts = pow @ replicate (4 * curve_u64 rs) 0" and
    rb: "row_bases cu rs u = (Inr bases, v)" and q: "queue_of c = queue_of b" by auto
  from row_bases_points [OF rb] obtain points where p: "bases = concat points"
    "list_all2 (\<lambda>(curve, i, row) p. cu_gpu_point cu curve (row_pos row) 1 = Inr p) (table_items rs) points" by blast
  have most': "1 \<le> unat (cb_sms c * BUILD_BLOCKS_PER_SM)" using most q by (simp add: queue_of_def)
  let ?used = "\<lambda>ys. sum_list (map (\<lambda>(c, i, row). row_u64 row) ys)"
  let ?P = "\<lambda>ys (x, q). q = length pow + ?used ys \<and>
      x = pow @ concat (map (row_layout cu) ys) @ replicate (4 * curve_u64 rs - ?used ys) 0"
  have "?P (table_items rs) (tables, ofs)"
  proof (rule fold_each_steps [OF f [unfolded eq p(1)]])
    show "?P [] (pow @ replicate (4 * curve_u64 rs) 0, length pow)" by simp
    fix ys x zs e s e' s' assume split: "table_items rs = ys @ x # zs" and P: "?P ys e"
      and step: "build_row cu build (concat points) (length rs) (cb_sms c * BUILD_BLOCKS_PER_SM) x e s = (Inr e', s')"
    obtain x1 q1 x2 q2 where e: "e = (x1, q1)" "e' = (x2, q2)" by (cases e; cases e')
    from build_row_step [OF rs split pts kern most' p(2) step [unfolded e]] P show "?P (ys @ [x]) e'" by (simp add: e)
  qed
  then show ?thesis by (simp add: host_layout_def table_items_u64)
qed

lemma build_tables_layout:
  assumes run: "build_tables cu window b = (Inr tables, t)" and rs: "rows window = Some rs"
    and pow: "cu_power_tables cu = Inr pow"
    and pts: "points_have_8_limbs cu" and kern: "builds_rows cu" and most: "1 \<le> unat (cb_sms b * BUILD_BLOCKS_PER_SM)"
  shows "tables = host_layout cu pow rs"
proof -
  obtain rs' build npow ts bases c d ofs where
    st: "start_tables cu window b = (Inr (rs', build, npow, ts, bases), c)"
    and f: "fold_each (build_row cu build bases (length rs') (cb_sms c * BUILD_BLOCKS_PER_SM)) (table_items rs') (ts, npow) c
      = (Inr (tables, ofs), d)"
    using run unfolding build_tables_def by (auto elim!: and_then_InrE simp: look_def)
  show ?thesis by (rule fold_layout [OF st f rs pow pts kern most])
qed

text \<open>The samples are where the layout has the host's points, so tables that are right pass the check.\<close>

lemma table_samplesE:
  assumes "(curve, i, pos, b, e) \<in> set (table_samples npow rs)"
  shows "curve < 4 \<and> i < length rs \<and> pos = row_pos (rs ! i) \<and>
    b \<in> {1, row_points (rs ! i) div 2 + 1, row_points (rs ! i)} \<and> e = row_start npow rs curve i + (unat b - 1) * 8"
proof -
  obtain row ofs where c: "curve < 4" "((i, row), ofs) \<in> set (zip (enumerate 0 rs) (row_offsets (npow + curve * curve_u64 rs) rs))"
    "pos = row_pos row" "b \<in> {1, row_points row div 2 + 1, row_points row}" "e = ofs + (unat b - 1) * 8"
    using assms unfolding table_samples_def by auto
  then obtain j where j: "j < length rs" "enumerate 0 rs ! j = (i, row)" "row_offsets (npow + curve * curve_u64 rs) rs ! j = ofs"
    by (auto simp: in_set_zip)
  then have "i = j" "row = rs ! j" by (auto simp: nth_enumerate_eq)
  then show ?thesis using c j set_row_offsets [OF j(1), of "npow + curve * curve_u64 rs"] by (simp add: row_start_def)
qed

lemma drop_concat_blocks:
  "j < length ps \<Longrightarrow> drop (length (concat (take j ps))) (concat ps) = ps ! j @ concat (drop (Suc j) ps)"
proof (induction ps arbitrary: j)
  case (Cons p ps)
  then show ?case by (cases j) simp_all
qed simp

lemma sum_list_concat: "sum_list (concat xs) = sum_list (map sum_list xs)"
  by (induction xs) simp_all

lemma sum_enumerate: "(\<Sum>(i, row)\<leftarrow>enumerate n rs. row_u64 row) = sum_list (map row_u64 rs)"
  by (induction rs arbitrary: n) simp_all

lemma table_items_before:
  assumes "curve < 4" and "i < length rs"
  shows "sum_list (map (\<lambda>(c, i, row). row_u64 row) (take (curve * length rs + i) (table_items rs))) =
    curve * curve_u64 rs + sum_list (map row_u64 (take i rs))"
proof -
  let ?f = "\<lambda>(c, i, row). row_u64 row" and ?block = "\<lambda>c. map (Pair c) (enumerate 0 rs)"
  have items: "table_items rs = concat (map ?block ([0..<curve] @ [curve..<4]))"
    using assms(1) upt_add_eq_append [of 0 curve "4 - curve"] by (simp add: table_items_def)
  have cons: "[curve..<4] = curve # [Suc curve..<4]" using assms(1) by (simp add: upt_rec)
  have len: "length (concat (map ?block [0..<curve])) = curve * length rs" by (simp add: length_concat comp_def sum_list_triv)
  have "take (curve * length rs + i) (table_items rs) = concat (map ?block [0..<curve]) @ take i (?block curve)"
    using assms(2) unfolding items cons by (simp add: len)
  moreover have one: "map ?f (map (Pair c) (enumerate n xs)) = map row_u64 xs" for c n :: nat and xs
    by (induction xs arbitrary: n) simp_all
  moreover have "map ?f (take i (?block curve)) = map row_u64 (take i rs)"
    unfolding take_map [symmetric] one ..
  moreover have "sum_list (map ?f (concat (map ?block [0..<curve]))) = curve * curve_u64 rs"
    unfolding map_concat sum_list_concat map_map comp_def by (simp add: curve_u64_def sum_list_triv sum_enumerate)
  ultimately show ?thesis by simp
qed

lemma layout_point:
  assumes rs: "rows window = Some rs" and pts: "points_have_8_limbs cu" and c: "curve < 4" and i: "i < length rs"
    and b: "1 \<le> unat b" "unat b \<le> unat (row_points (rs ! i))"
  shows "cu_gpu_point cu curve (row_pos (rs ! i)) b =
    Inr (take 8 (drop (row_start (length pow) rs curve i + (unat b - 1) * 8) (host_layout cu pow rs)))"
proof -
  let ?j = "curve * length rs + i" and ?row = "rs ! i"
  let ?ls = "map (row_layout cu) (table_items rs)"
  have j: "?j < 4 * length rs"
  proof -
    have "curve * length rs + i < Suc curve * length rs" using i by simp
    also have "\<dots> \<le> 4 * length rs" using c by (intro mult_le_mono1) simp
    finally show ?thesis .
  qed
  have lay: "length (row_layout cu y) = (case y of (c, i, row) \<Rightarrow> row_u64 row)" if y: "y \<in> set (table_items rs)" for y
  proof -
    obtain j' where "j' < length (table_items rs)" "table_items rs ! j' = y" using y unfolding in_set_conv_nth by blast
    then have "fst y < 4" using nth_table_items [of j' rs] by (auto simp: less_mult_imp_div_less)
    moreover have "snd (snd y) \<in> set rs" using y set_table_items [of "fst y" "fst (snd y)" "snd (snd y)"] by simp
    ultimately show ?thesis
      using length_row_layout [OF pts, of "fst y" "snd (snd y)" "fst (snd y)"] rows_small(1) [OF rs] by (simp add: split_def)
  qed
  have "?j div length rs = curve" by (rule div_nat_eqI) (use i in simp_all)
  then have item: "table_items rs ! ?j = (curve, i, ?row)" using nth_table_items [OF j] i by simp
  have "map length (take ?j ?ls) = map (\<lambda>(c, i, row). row_u64 row) (take ?j (table_items rs))"
    unfolding take_map map_map comp_def by (rule map_cong [OF refl], rule lay, erule in_set_takeD)
  then have before: "length (concat (take ?j ?ls)) = curve * curve_u64 rs + sum_list (map row_u64 (take i rs))"
    unfolding length_concat using table_items_before [OF c i] by simp
  let ?ps = "map (host_point cu curve (row_pos ?row)) [1..<unat (row_points ?row) + 1]"
  have "drop (length (concat (take ?j ?ls))) (concat ?ls) = row_layout cu (curve, i, ?row) @ concat (drop (Suc ?j) ?ls)"
    using drop_concat_blocks [of ?j ?ls] j item by simp
  note dl = this [unfolded before]
  have "drop (row_start (length pow) rs curve i) (host_layout cu pow rs) =
      drop (curve * curve_u64 rs + sum_list (map row_u64 (take i rs))) (concat ?ls)"
    by (simp add: row_start_def host_layout_def add.assoc)
  also note dl
  finally have "drop (row_start (length pow) rs curve i) (host_layout cu pow rs) =
      row_layout cu (curve, i, ?row) @ concat (drop (Suc ?j) ?ls)" .
  note dr = this
  have row: "row_layout cu (curve, i, ?row) = concat ?ps @ replicate (row_u64 ?row - 8 * unat (row_points ?row)) 0"
    unfolding row_layout_def prod.case ..
  have split: "drop (n + m) xs = drop m (drop n xs)" for n m and xs :: "u64 list" by (simp add: add.commute)
  have at: "drop (row_start (length pow) rs curve i + (unat b - 1) * 8) (host_layout cu pow rs) =
      drop ((unat b - 1) * 8) (concat ?ps @ replicate (row_u64 ?row - 8 * unat (row_points ?row)) 0 @ concat (drop (Suc ?j) ?ls))"
    unfolding split dr row append_assoc ..
  have hp: "length (host_point cu curve (row_pos ?row) n) = 8" for n
    using pts c by (auto simp: points_have_8_limbs_def host_point_def split: sum.splits) (metis Inr_inject sum.distinct(1))+
  then have p8: "\<forall>p\<in>set ?ps. length p = 8" by simp
  have "unat b - 1 < length ?ps" using b by simp
  note tk = take_drop_concat [OF p8 this]
  have len: "length (concat ?ps) = 8 * unat (row_points ?row)"
    using b by (simp add: length_concat comp_def sum_list_triv hp)
  have "(unat b - 1) * 8 + 8 \<le> length (concat ?ps)" using b len by simp
  then have front: "take 8 (drop ((unat b - 1) * 8) (concat ?ps @ zs)) = take 8 (drop ((unat b - 1) * 8) (concat ?ps))" for zs
    by simp
  have nth: "?ps ! (unat b - 1) = host_point cu curve (row_pos ?row) (unat b)"
    using b by (simp add: nth_map [OF \<open>unat b - 1 < length ?ps\<close>[unfolded length_map]] del: upt_Suc)
  have "take 8 (drop (row_start (length pow) rs curve i + (unat b - 1) * 8) (host_layout cu pow rs)) =
      host_point cu curve (row_pos ?row) (unat b)" unfolding at front tk by (rule nth)
  then show ?thesis using pts c by (auto simp: points_have_8_limbs_def host_point_def split: sum.splits) (metis sum.distinct(1))
qed

lemma rows_from_points_pos:
  "(\<And>w. w \<in> set ws \<Longrightarrow> 1 \<le> unat w \<and> unat w \<le> 24) \<Longrightarrow> unat p + sum_list (map unat (butlast ws)) < 256 \<Longrightarrow>
   r \<in> set (rows_from p ws) \<Longrightarrow> 1 \<le> unat (row_points r)"
proof (induction ws arbitrary: p)
  case (Cons w ws)
  let ?bits = "min w (256 - p)"
  have p: "unat p < 256" using Cons.prems(2) by linarith
  then have u: "unat (256 - p) = 256 - unat p" by (subst unat_sub) (simp_all add: word_le_nat_alt)
  then have bits: "unat ?bits = min (unat w) (256 - unat p)" by (simp add: unat_min)
  have w: "1 \<le> unat w" "unat w \<le> 24" using Cons.prems(1) [of w] by simp_all
  have nxt: "unat (p + ?bits) \<le> unat p + unat w" using bits p by (subst unat_add_no_overflow) (simp_all add: w)
  have "1 \<le> unat (push_bit (unat ?bits) 1 - 1 :: u64)"
  proof -
    have "unat ?bits < 64" "1 \<le> unat ?bits" using bits w p by simp_all
    then show ?thesis using power_increasing [of 1 "unat ?bits" "2 :: nat"] by (simp add: unat_shifted_ones del: push_bit_of_1)
  qed
  moreover have "1 \<le> unat (row_points r)" if r: "r \<in> set (rows_from (p + ?bits) ws)"
  proof (rule Cons.IH [OF _ _ r])
    have "ws \<noteq> []" using r by auto
    then show "unat (p + ?bits) + sum_list (map unat (butlast ws)) < 256" using Cons.prems(2) nxt by simp
  qed (use Cons.prems(1) in simp)
  ultimately show ?case using Cons.prems(3) by (auto simp: Let_def simp del: push_bit_of_1)
qed simp

lemma butlast_replicate [simp]: "butlast (replicate n x) = replicate (n - 1) x"
  by (simp add: butlast_conv_take)

lemma digits_before_last:
  assumes "digits window = Some ds"
  shows "sum_list (map unat (butlast ds)) < 256 \<and> (\<forall>w\<in>set ds. 1 \<le> unat w \<and> unat w \<le> 24)"
proof (cases "2 \<le> window \<and> window \<le> 20")
  case True
  then have w: "2 \<le> unat window" "unat window \<le> 20" by (simp_all add: word_le_nat_alt)
  have ds: "ds = replicate (div_ceil 256 (unat window)) window" using assms True by (simp add: digits_def)
  have "div_ceil 256 (unat window) - 1 = 255 div unat window" using w by (simp add: div_ceil_def le_div_geq)
  moreover have "255 div unat window * unat window < 256"
    by (rule le_less_trans [OF div_times_less_eq_dividend]) simp
  ultimately show ?thesis using w ds by (auto simp: butlast_replicate sum_list_replicate)
next
  case False
  then show ?thesis using assms by (auto simp: digits_def butlast_append butlast_replicate sum_list_replicate split: if_splits)
qed

lemma rows_points_pos:
  assumes "rows window = Some rs" and "r \<in> set rs"
  shows "1 \<le> unat (row_points r)"
proof -
  obtain ds where ds: "digits window = Some ds" "rs = rows_from 0 ds" using assms(1) by (auto simp: rows_def)
  note d = digits_before_last [OF ds(1)]
  show ?thesis by (rule rows_from_points_pos [of ds 0]) (use d assms(2) ds(2) in auto)
qed

definition no_faults :: "CudaDriver \<Rightarrow> bool" where
  "no_faults cu \<longleftrightarrow> (\<forall>n. cu_fault cu n = None)"

lemma no_faults_call: "no_faults cu \<Longrightarrow> call cu what b = (Inr (), b\<lparr>cb_calls := cb_calls b + 1\<rparr>)"
  by (simp add: no_faults_def call_def driver_def)

lemma no_faults_load: "no_faults cu \<Longrightarrow> \<exists>m t. load_module cu stem ptx b = (Inr m, t)"
  by (auto simp: load_module_def load_jit_def and_then_def no_faults_call Let_def split: option.split sum.split)

lemma no_faults_builder: "no_faults cu \<Longrightarrow> \<exists>m t. builder cu b = (Inr m, t)"
  using no_faults_load [of cu "''bc3hash_build''" "cu_build_ptx cu" b]
  by (auto simp: builder_def and_then_def no_faults_call split: option.split)

lemma and_then_exI: "\<exists>t. m s = (Inr x, t) \<Longrightarrow> (\<And>t. \<exists>u. f x t = (Inr y, u)) \<Longrightarrow> \<exists>u. and_then m f s = (Inr y, u)"
  by (auto simp: and_then_def)

text \<open>The card has room for the tables of \<open>need\<close> bytes, whenever it is asked.\<close>

definition has_room :: "CudaDriver \<Rightarrow> nat \<Rightarrow> bool" where
  "has_room cu need \<longleftrightarrow> (\<forall>n free total. cu_mem_info cu n = Some (free, total) \<longrightarrow> need + BUILD_SPARE \<le> free)"

lemma length_host_layout:
  assumes "rows window = Some rs" and "points_have_8_limbs cu"
  shows "length (host_layout cu pow rs) = length pow + 4 * curve_u64 rs"
proof -
  have "map (\<lambda>y. length (row_layout cu y)) (table_items rs) = map (\<lambda>(c, i, row). row_u64 row) (table_items rs)"
  proof (rule map_cong [OF refl])
    fix y assume y: "y \<in> set (table_items rs)"
    obtain j where "j < length (table_items rs)" "table_items rs ! j = y" using y unfolding in_set_conv_nth by blast
    then have "fst y < 4" using nth_table_items [of j rs] by (auto simp: less_mult_imp_div_less)
    then show "length (row_layout cu y) = (case y of (c, i, row) \<Rightarrow> row_u64 row)"
      using length_row_layout [OF assms(2), of "fst y" "snd (snd y)" "fst (snd y)"] rows_small(1) [OF assms(1)]
        y set_table_items [of "fst y" "fst (snd y)" "snd (snd y)"] by (simp add: split_def)
  qed
  then have "length (concat (map (row_layout cu) (table_items rs))) = sum_list (map (\<lambda>(c, i, row). row_u64 row) (table_items rs))"
    unfolding length_concat map_map comp_def by (rule arg_cong)
  then show ?thesis by (simp add: host_layout_def table_items_u64)
qed

lemma check_tables_accepts:
  assumes "no_faults cu" and "rows window = Some rs" and "points_have_8_limbs cu"
  shows "\<exists>t. check_tables cu (host_layout cu pow rs) (length pow) rs b = (Inr (), t)"
  unfolding check_tables_def
proof (rule and_then_exI [OF collect_each_total [where g = "\<lambda>(curve, i, pos, b, e). (curve, i, pos, b, take 8 (drop e (host_layout cu pow rs)))"]])
  fix x and s :: CudaBackend
  show "\<exists>t. (case x of (curve, i, pos, b, e) \<Rightarrow>
      and_then (call cu ''dtoh'') (\<lambda>_. give (curve, i, pos, b, take 8 (drop e (host_layout cu pow rs))))) s =
    (Inr (case x of (curve, i, pos, b, e) \<Rightarrow> (curve, i, pos, b, take 8 (drop e (host_layout cu pow rs)))), t)"
    by (auto simp: and_then_def no_faults_call [OF assms(1)] split: prod.split)
next
  fix s
  have point: "cu_gpu_point cu curve pos b = Inr (take 8 (drop e (host_layout cu pow rs)))"
    if "(curve, i, pos, b, e) \<in> set (table_samples (length pow) rs)" for curve i pos b e
  proof -
    from table_samplesE [OF that] have x: "curve < 4" "i < length rs" "pos = row_pos (rs ! i)"
      "b \<in> {1, row_points (rs ! i) div 2 + 1, row_points (rs ! i)}" "e = row_start (length pow) rs curve i + (unat b - 1) * 8"
      by simp_all
    have mem: "rs ! i \<in> set rs" using x(2) by simp
    have p: "1 \<le> unat (row_points (rs ! i))" "unat (row_points (rs ! i)) < 2 ^ 24"
      using rows_points_pos [OF assms(2) mem] rows_small [OF assms(2) mem] by simp_all
    have "unat (row_points (rs ! i) div 2 + 1) = unat (row_points (rs ! i)) div 2 + 1"
      using p(2) by (subst unat_add_no_overflow) (simp_all add: unat_div)
    then have "1 \<le> unat b" "unat b \<le> unat (row_points (rs ! i))" using x(4) p by auto
    from layout_point [OF assms(2,3) x(1,2) this] show ?thesis by (simp add: x(3,5))
  qed
  show "\<exists>u. and_then (call cu ''synchronize'') (\<lambda>_.
     for_each (map (\<lambda>(curve, i, pos, b, e). (curve, i, pos, b, take 8 (drop e (host_layout cu pow rs)))) (table_samples (length pow) rs))
      (\<lambda>(curve, i, pos, b, got).
       and_then (lift_result (cu_gpu_point cu curve pos b)) (\<lambda>point.
       if got \<noteq> point
       then refuse (''the tables built on the card are wrong: curve '' @ dec curve @ '', row '' @ dec i @
                    '', point '' @ dec (unat b))
       else give ()))) s = (Inr (), u)"
  proof (rule and_then_exI)
    show "\<exists>t. call cu ''synchronize'' s = (Inr (), t)" by (simp add: no_faults_call [OF assms(1)])
  next
    fix t
    show "\<exists>u. for_each (map (\<lambda>(curve, i, pos, b, e). (curve, i, pos, b, take 8 (drop e (host_layout cu pow rs)))) (table_samples (length pow) rs))
      (\<lambda>(curve, i, pos, b, got).
       and_then (lift_result (cu_gpu_point cu curve pos b)) (\<lambda>point.
       if got \<noteq> point
       then refuse (''the tables built on the card are wrong: curve '' @ dec curve @ '', row '' @ dec i @
                    '', point '' @ dec (unat b))
       else give ())) t = (Inr (), u)"
      by (rule for_each_total) (auto simp: and_then_def point)
  qed
qed

lemma start_tables_succeeds:
  assumes "no_faults cu" and "rows window = Some rs" and "cu_power_tables cu = Inr pow" and "points_have_8_limbs cu"
    and "has_room cu ((length pow + 4 * curve_u64 rs) * 8)"
  shows "\<exists>build ts bases t. start_tables cu window b = (Inr (rs, build, length pow, ts, bases), t)"
proof -
  obtain build b1 where bu: "builder cu b = (Inr build, b1)" using no_faults_builder [OF assms(1)] by blast
  have room: "check_room cu window ((length pow + 4 * curve_u64 rs) * 8) c = (Inr (), c\<lparr>cb_calls := cb_calls c + 1\<rparr>)" for c
  proof (cases "cu_mem_info cu (cb_calls c)")
    case (Some info)
    then have "\<not> fst info < (length pow + 4 * curve_u64 rs) * 8 + BUILD_SPARE"
      using assms(5) unfolding has_room_def by (metis not_less prod.collapse)
    then show ?thesis using Some by (simp add: check_room_def and_then_def ask_def split_def)
  qed (simp add: check_room_def and_then_def ask_def)
  have "\<exists>t. row_bases cu rs c = (Inr (concat (map (\<lambda>(curve, i, row). host_point cu curve (row_pos row) 1) (table_items rs))), t)" for c
    unfolding row_bases_def
  proof (rule and_then_exI [OF collect_each_total [where g = "\<lambda>(curve, i, row). host_point cu curve (row_pos row) 1"]])
    fix x and s :: CudaBackend assume x: "x \<in> set (table_items rs)"
    obtain j where "j < length (table_items rs)" "table_items rs ! j = x" using x unfolding in_set_conv_nth by blast
    then have "fst x < 4" using nth_table_items [of j rs] by (auto simp: less_mult_imp_div_less)
    then obtain p where "cu_gpu_point cu (fst x) (row_pos (snd (snd x))) 1 = Inr p"
      using assms(4) unfolding points_have_8_limbs_def by blast
    then show "\<exists>t. (case x of (curve, i, row) \<Rightarrow> lift_result (cu_gpu_point cu curve (row_pos row) 1)) s =
        (Inr (case x of (curve, i, row) \<Rightarrow> host_point cu curve (row_pos row) 1), t)"
      by (simp add: host_point_def split_def)
  qed simp
  then obtain bases where "\<forall>c. \<exists>t. row_bases cu rs c = (Inr bases, t)" by blast
  then obtain nxt where rb: "\<And>c. row_bases cu rs c = (Inr bases, nxt c)" by metis
  show ?thesis
    using bu by (simp add: start_tables_def assms(2,3) ok_or_def and_then_def no_faults_call [OF assms(1)] room [simplified] rb Let_def)
qed

lemma build_tables_succeeds:
  assumes ok: "no_faults cu" and rs: "rows window = Some rs" and pow: "cu_power_tables cu = Inr pow"
    and pts: "points_have_8_limbs cu" and kern: "builds_rows cu" and most: "1 \<le> unat (cb_sms b * BUILD_BLOCKS_PER_SM)"
    and room: "has_room cu ((length pow + 4 * curve_u64 rs) * 8)"
  shows "\<exists>t. build_tables cu window b = (Inr (host_layout cu pow rs), t)"
proof -
  obtain build ts bases c where st: "start_tables cu window b = (Inr (rs, build, length pow, ts, bases), c)"
    using start_tables_succeeds [OF ok rs pow pts room] by blast
  obtain tables ofs d where f: "fold_each (build_row cu build bases (length rs) (cb_sms c * BUILD_BLOCKS_PER_SM)) (table_items rs)
      (ts, length pow) c = (Inr (tables, ofs), d)"
    using fold_each_total [of "build_row cu build bases (length rs) (cb_sms c * BUILD_BLOCKS_PER_SM)" "table_items rs" "(ts, length pow)" c]
    by (auto simp: build_row_def and_then_def no_faults_call [OF ok] Let_def split_def)
  have "tables = host_layout cu pow rs"
    by (rule fold_layout [OF st f rs pow pts kern most])
  then show ?thesis
    using st f check_tables_accepts [OF ok rs pts, of pow "d\<lparr>cb_calls := cb_calls d + 1\<rparr>"]
    by (auto simp: build_tables_def and_then_def look_def no_faults_call [OF ok])
qed

subsection \<open>A card without faults\<close>

text \<open>
  The part of a hit buffer that counts: the number of hits and as many nonces. A kernel for the queue
  leaves there what follows from its launch, whatever nonces an older launch had left.
\<close>

definition counted :: "u32 list \<Rightarrow> u32 list" where
  "counted h = take (1 + min (unat (h ! 0)) MAX_HITS) h"

definition forgets_older_hits :: "CudaDriver \<Rightarrow> bool" where
  "forgets_older_hits cu \<longleftrightarrow>
     (\<forall>k l hits hits'. counted (kernel_hits cu k l hits) = counted (kernel_hits cu k l hits'))"

definition card_kern :: "CudaDriver \<Rightarrow> Bc3Kernel \<Rightarrow> Launch \<Rightarrow> u32 list" where
  "card_kern cu k l = counted (kernel_hits cu k l [])"

lemma scan_of_counted [simp]: "scan_of (counted h) busy = scan_of h busy"
  by (simp add: scan_of_def counted_def Let_def drop_take)

lemma no_faults_driver: "no_faults cu \<Longrightarrow> driver cu what good bad b = (Inr (), good (b\<lparr>cb_calls := cb_calls b + 1\<rparr>))"
  by (simp add: no_faults_def driver_def)

lemma no_faults_enqueue:
  assumes "no_faults cu" and "cb_bc3 b = Some k" and "la_algo l = Bc3Hash" and "la_count l \<noteq> 0"
    and "length (cb_queued b) < QUEUE_DEPTH"
  shows "\<exists>b'. cuda_enqueue cu b l = (Inr (), b')"
proof -
  have h: "\<exists>t. copy_header cu i h c = (Inr (), t) \<and> cb_bc3 t = cb_bc3 c" for i h c
    by (simp add: copy_header_def and_then_def no_faults_driver [OF assms(1)] on_slot_def)
  have t: "\<exists>t. copy_target cu i h c = (Inr (), t) \<and> cb_bc3 t = cb_bc3 c" for i h c
    by (simp add: copy_target_def and_then_def no_faults_driver [OF assms(1)] on_slot_def)
  let ?i = "cb_next_slot b"
  obtain c where c: "copy_header cu ?i (la_header76 l) b = (Inr (), c)" using h by blast
  obtain d where d: "copy_target cu ?i (target_limbs (la_target l)) c = (Inr (), d)" using t by blast
  have "\<exists>t. queue_kernel cu ?i l b = (Inr (), t)"
    by (simp add: queue_kernel_def queue_bc3_def ok_or_def assms(2,3) and_then_def c d no_faults_driver [OF assms(1)]
        no_faults_call [OF assms(1)])
  then obtain t where "queue_kernel cu (cb_next_slot b) l b = (Inr (), t)" by blast
  then show ?thesis
    using assms(4,5)
    by (simp add: cuda_enqueue_def and_then_def Let_def no_faults_driver [OF assms(1)] no_faults_call [OF assms(1)])
qed

lemma no_faults_collect: "no_faults cu \<Longrightarrow> cb_queued b = i # rest \<Longrightarrow> \<exists>scan b'. cuda_collect cu b = (Inr scan, b')"
  by (simp add: cuda_collect_def and_then_def no_faults_call ask_def look_def)

lemma card_is_fifo:
  assumes "no_faults cu" and "forgets_older_hits cu"
  shows "fifo_backend (cuda_with cu prepare) (\<lambda>b. cuda_ok b \<and> cb_bc3 b = Some k) (\<lambda>b. map counted (waiting b))
    (card_kern cu k) (\<lambda>algo. algo = Bc3Hash)"
proof
  fix b and l :: Launch assume inv: "cuda_ok b \<and> cb_bc3 b = Some k" and l: "la_algo l = Bc3Hash" "la_count l \<noteq> 0"
    and len: "length (map counted (waiting b)) < QUEUE_DEPTH"
  have "length (cb_queued b) < QUEUE_DEPTH" using len by (simp add: length_waiting)
  from no_faults_enqueue [OF assms(1) conjunct2 [OF inv] l this] obtain c where e: "cuda_enqueue cu b l = (Inr (), c)" by blast
  have kern: "counted (kernel_hits cu k l hits) = card_kern cu k l" for hits
    using assms(2) unfolding forgets_older_hits_def card_kern_def by blast
  show "\<exists>b'. be_enqueue (cuda_with cu prepare) b l = (Inr (), b') \<and> (cuda_ok b' \<and> cb_bc3 b' = Some k) \<and>
      map counted (waiting b') = map counted (waiting b) @ [card_kern cu k l]"
    using conjunct1 [OF inv]
    by (cases rule: enqueue_cases [where cu = cu and l = l]) (use e inv kern in \<open>simp_all add: cuda_with_def\<close>)
next
  fix b h t assume inv: "cuda_ok b \<and> cb_bc3 b = Some k" and w: "map counted (waiting b) = h # t"
  have "length (cb_queued b) \<noteq> 0" using arg_cong [OF w, of length] by (simp add: length_waiting)
  then obtain i rest where "cb_queued b = i # rest" by (cases "cb_queued b") simp_all
  from no_faults_collect [OF assms(1) this] obtain scan c where e: "cuda_collect cu b = (Inr scan, c)" by blast
  show "\<exists>b' busy. be_collect (cuda_with cu prepare) b = (Inr (scan_of h busy), b') \<and> (cuda_ok b' \<and> cb_bc3 b' = Some k) \<and>
      map counted (waiting b') = t"
    using conjunct1 [OF inv]
    by (cases rule: collect_cases [where cu = cu]) (use e inv w in \<open>auto simp: cuda_with_def\<close>)
next
  fix b show "be_in_flight (cuda_with cu prepare) b = length (map counted (waiting b))"
    by (simp add: cuda_with_def length_waiting)
qed

subsection \<open>What a card has done\<close>

lemma CudaBackend_new_ok:
  assumes "CudaBackend_new cu ctx version name major minor mps idx = Inr b"
  shows "cuda_ok b \<and> cb_queued b = [] \<and> cb_bc3 b = None"
proof -
  let ?fresh = "\<lparr>cs_header = replicate 76 0, cs_target = replicate 4 0, cs_hits = replicate (1 + MAX_HITS) 0,
             cs_hits_host = replicate (1 + MAX_HITS) 0, cs_header_of = None, cs_target_of = None\<rparr> :: Slot"
  obtain b0 slots c where new: "collect_each [0..<QUEUE_DEPTH] (\<lambda>_. Slot_new cu) b0 = (Inr slots, c)" "b = c\<lparr>cb_slots := slots\<rparr>"
    and b0: "cb_queued b0 = []" "cb_next_slot b0 = 0" "cb_bc3 b0 = None"
    using assms by (auto simp: CudaBackend_new_def Let_def split: option.splits sum.splits prod.splits)
  have "keeps (\<lambda>b. queue_of b = q) (Slot_new cu)" for q unfolding Slot_new_def by (intro keeps_intros)
  then have "keeps (\<lambda>b. queue_of b = queue_of b0) (collect_each [0..<QUEUE_DEPTH] (\<lambda>_. Slot_new cu))"
    by (intro keeps_intros)
  then have c: "queue_of c = queue_of b0" using new(1) by (auto dest: keeps_run)
  have "slots = map (\<lambda>_. ?fresh) [0..<QUEUE_DEPTH]"
    by (rule collect_each_map [OF _ new(1)]) (auto simp: Slot_new_def elim!: and_then_InrE)
  then have slots: "slots = replicate QUEUE_DEPTH ?fresh" by (simp add: map_replicate_const)
  show ?thesis
    using c b0 new(2) slots
    by (simp add: queue_of_def cuda_ok_def queue_inv_def coherent_def ring_of_def QUEUE_DEPTH_def)
qed

text \<open>
  What is asked of a card, in any order. For every scan collected the kernel and the launch it was
  queued for; \<open>pend\<close> are those of the launches in flight.
\<close>

datatype card_op = Op_enqueue Launch | Op_collect | Op_abandon | Op_prepare u32

fun card_run :: "CudaDriver \<Rightarrow> card_op list \<Rightarrow> CudaBackend \<Rightarrow> (Bc3Kernel \<times> Launch) list \<Rightarrow> ((Bc3Kernel \<times> Launch) \<times> Scan) list" where
  "card_run cu [] b pend = []"
| "card_run cu (Op_enqueue l # ops) b pend =
     (case cuda_enqueue cu b l of
        (Inl _, b') \<Rightarrow> card_run cu ops b' pend
      | (Inr _, b') \<Rightarrow> card_run cu ops b' (pend @ [(the (cb_bc3 b), l)]))"
| "card_run cu (Op_collect # ops) b pend =
     (case cuda_collect cu b of
        (Inl _, b') \<Rightarrow> card_run cu ops b' (tl pend)
      | (Inr scan, b') \<Rightarrow> (hd pend, scan) # card_run cu ops b' (tl pend))"
| "card_run cu (Op_abandon # ops) b pend = card_run cu ops (cuda_abandon cu b) []"
| "card_run cu (Op_prepare window # ops) b pend = card_run cu ops (snd (cuda_prepare cu b window)) []"

text \<open>A kernel that has been compared with the CPU: on headers, and on launches drawn for the test.\<close>

definition agrees_with_cpu :: "CudaDriver \<Rightarrow> Bc3Kernel \<Rightarrow> bool" where
  "agrees_with_cpu cu k \<longleftrightarrow>
     (\<exists>random seed. length random = 14 \<and>
       (\<exists>c c' got. cb_bc3 c = Some k \<and> cuda_bc3_batch cu c (map fst (cu_vectors cu) @ random) = (Inr got, c') \<and>
          (\<forall>j<min (length got) (length (cu_vectors cu) + 14).
             got ! j = (map snd (cu_vectors cu) @ map (cu_pow cu) random) ! j)) \<and>
       (\<forall>(h, s)\<in>set (draw_launches [0..<QUEUE_DEPTH + 1] seed).
          \<exists>hits. sort (buffer_hits (kernel_hits cu k \<lparr>la_algo = Bc3Hash, la_header76 = h, la_start = s,
              la_count = TEST_COUNT, la_target = test_target\<rparr> hits)) = cpu_hits (cu_pow cu) h s))"

lemma length_draw_headers: "length (fst (draw_headers n seed)) = n"
  by (induction n arbitrary: seed) (simp_all add: Let_def split_def)

lemma passed_agrees:
  assumes "cuda_self_test cu c = Some (Inr (), b')" and "cuda_ok c" and "cb_bc3 c = Some k" and "cb_queued c = []"
  shows "agrees_with_cpu cu k"
proof -
  define r where "r = draw_headers 14 (self_test_seed (cu_nanos cu (cb_calls c)))"
  have t: "self_test (cuda_with cu (\<lambda>b w. (Inl '''', b))) (cuda_bc3_batch cu) (cu_pow cu) QUEUE_DEPTH
      (map fst (cu_vectors cu) @ fst r) (map snd (cu_vectors cu) @ map (cu_pow cu) (fst r))
      (draw_launches [0..<QUEUE_DEPTH + 1] (snd r)) c = Some (Inr (), b')"
    using assms(1) by (simp add: cuda_self_test_def drawn_self_test_def r_def split_def Let_def)
  have "cuda_ok c \<and> cb_bc3 c = Some k" "waiting c = []" using assms by simp_all
  from cuda_test.self_test_passed [OF this t] obtain got c' where
    g: "cuda_bc3_batch cu c (map fst (cu_vectors cu) @ fst r) = (Inr got, c')"
      "\<forall>j<min (length got) (length (map snd (cu_vectors cu) @ map (cu_pow cu) (fst r))).
         got ! j = (map snd (cu_vectors cu) @ map (cu_pow cu) (fst r)) ! j"
    and l: "\<forall>x\<in>set (draw_launches [0..<QUEUE_DEPTH + 1] (snd r)).
       \<exists>h. (\<exists>hits. h = kernel_hits cu k \<lparr>la_algo = Bc3Hash, la_header76 = fst x, la_start = snd x, la_count = TEST_COUNT,
         la_target = test_target\<rparr> hits) \<and> sort (buffer_hits h) = cpu_hits (cu_pow cu) (fst x) (snd x)" by blast
  have "length (fst r) = 14" by (simp add: r_def length_draw_headers)
  moreover from this have "\<forall>j<min (length got) (length (cu_vectors cu) + 14).
      got ! j = (map snd (cu_vectors cu) @ map (cu_pow cu) (fst r)) ! j" using g(2) by simp
  moreover have "\<forall>x\<in>set (draw_launches [0..<QUEUE_DEPTH + 1] (snd r)). \<exists>hits. sort (buffer_hits (kernel_hits cu k
      \<lparr>la_algo = Bc3Hash, la_header76 = fst x, la_start = snd x, la_count = TEST_COUNT, la_target = test_target\<rparr> hits)) =
      cpu_hits (cu_pow cu) (fst x) (snd x)" using l by blast
  ultimately show ?thesis unfolding agrees_with_cpu_def split_def using g(1) assms(3) by blast
qed

lemma card_run_scans:
  assumes "cuda_ok b" and "list_all2 (\<lambda>(k, l) h. \<exists>hits. h = kernel_hits cu k l hits) pend (waiting b)"
    and "\<forall>(k, l)\<in>set pend. P k" and "\<forall>k. cb_bc3 b = Some k \<longrightarrow> P k" and "\<forall>k. agrees_with_cpu cu k \<longrightarrow> P k"
  shows "\<forall>((k, l), scan)\<in>set (card_run cu ops b pend). P k \<and> (\<exists>hits busy. scan = scan_of (kernel_hits cu k l hits) busy)"
  using assms(1-4)
proof (induction ops arbitrary: b pend)
  case (Cons op ops)
  show ?case
  proof (cases op)
    case (Op_enqueue l)
    from Cons.prems(1) show ?thesis
    proof (cases rule: enqueue_cases [where cu = cu and l = l])
      case (fails e b')
      then show ?thesis using Cons.IH [OF fails(2), of pend] Cons.prems by (simp add: Op_enqueue)
    next
      case (queues k hits b')
      have "list_all2 (\<lambda>(k, l) h. \<exists>hits. h = kernel_hits cu k l hits) (pend @ [(k, l)]) (waiting b')"
        unfolding queues(3) by (rule list_all2_appendI [OF Cons.prems(2)]) auto
      then show ?thesis using Cons.IH [OF queues(2)] Cons.prems(3,4) queues by (simp add: Op_enqueue)
    qed
  next
    case Op_collect
    from Cons.prems(1) show ?thesis
    proof (cases rule: collect_cases [where cu = cu])
      case none
      then have "pend = []" using list_all2_lengthD [OF Cons.prems(2)] by (simp add: length_waiting)
      then show ?thesis using Cons.IH [OF Cons.prems(1), of "[]"] Cons.prems none by (simp add: Op_collect del: waiting_Nil)
    next
      case (fails h rest e b')
      then obtain x xs where "pend = x # xs" using Cons.prems(2) by (auto simp: list_all2_Cons2)
      then show ?thesis using Cons.IH [OF fails(3), of xs] Cons.prems(2-4) fails by (simp add: Op_collect)
    next
      case (scans h rest busy b')
      then obtain k l xs where x: "pend = (k, l) # xs" using Cons.prems(2) by (auto simp: list_all2_Cons2)
      then have "P k \<and> (\<exists>hits. h = kernel_hits cu k l hits)" using Cons.prems(2,3) scans(1) by auto
      then show ?thesis using Cons.IH [OF scans(3), of xs] Cons.prems(2-4) scans x by (auto simp: Op_collect)
    qed
  next
    case Op_abandon
    have "waiting (cuda_abandon cu b) = []" "cuda_ok (cuda_abandon cu b)" using abandon_ok [OF Cons.prems(1)] by simp_all
    then show ?thesis using Cons.IH [of "cuda_abandon cu b" "[]"] Cons.prems(4) by (simp add: Op_abandon del: waiting_Nil)
  next
    case (Op_prepare window)
    from Cons.prems(1) show ?thesis
    proof (cases rule: prepare_cases [where cu = cu and window = window])
      case (fails e b')
      then have "waiting b' = []" by simp
      then show ?thesis using Cons.IH [OF fails(2), of "[]"] fails by (simp add: Op_prepare del: waiting_Nil)
    next
      case (passes k t c b')
      then have "waiting b' = []" by simp
      moreover have "P k" using passed_agrees [OF passes(6-9)] assms(5) by blast
      ultimately show ?thesis using Cons.IH [OF passes(2), of "[]"] passes by (simp add: Op_prepare del: waiting_Nil)
    qed
  qed
qed simp

section \<open>Properties\<close>

text \<open>
  C9. Whatever is asked of a card in whatever order, and whichever driver calls fail on the
  way, every scan it gives back is what the kernel that was loaded when the launch was queued makes of
  that launch's own header, range and target - a copy that was skipped because the buffer was thought
  to hold the header or target already did hold it - and that kernel is the one the card started with
  or one that has been compared with the CPU.
\<close>

theorem scans_belong_to_their_launches:
  assumes "cuda_ok b" and "cb_queued b = []"
  shows "\<forall>((k, l), scan)\<in>set (card_run cu ops b []).
    (cb_bc3 b = Some k \<or> agrees_with_cpu cu k) \<and> (\<exists>hits busy. scan = scan_of (kernel_hits cu k l hits) busy)"
proof -
  have "waiting b = []" using assms(2) by simp
  then show ?thesis
    using card_run_scans [OF assms(1), of cu "[]" "\<lambda>k. cb_bc3 b = Some k \<or> agrees_with_cpu cu k"] by (simp del: waiting_Nil)
qed

text \<open>A driver that always works; its kernel reports the first nonce of every launch as its one hit.\<close>

definition demo_cuda :: CudaDriver where
  "demo_cuda = \<lparr>cu_fault = \<lambda>_. None, cu_left_bytes = \<lambda>_. [], cu_left_limbs = \<lambda>_. [], cu_left_hits = \<lambda>_. [],
     cu_scan = \<lambda>_ _ _ _ start _ _ _ _. [1, start], cu_batch = \<lambda>_ _ _ _ _ n. replicate n 0xff,
     cu_build_row = \<lambda>_ _ out _ count. replicate (8 * unat count) 0 @ drop (8 * unat count) out,
     cu_mem_info = \<lambda>_. None, cu_occupancy = \<lambda>_. Some 4, cu_elapsed_ms = \<lambda>_. None, cu_clock = \<lambda>n. n, cu_sass = [],
     cu_inflate = \<lambda>_. Inr [], cu_ptx = \<lambda>_. ''ptx'', cu_build_ptx = ''ptx'', cu_power_tables = Inr [],
     cu_gpu_point = \<lambda>_ _ _. Inr (replicate 8 0), cu_vectors = [], cu_pow = \<lambda>_. replicate 32 0xff, cu_nanos = \<lambda>_. None,
     cu_differs = \<lambda>_. '''', cu_json = False, cu_spawn_error = None\<rparr>"

definition demo_kernel :: Bc3Kernel where
  "demo_kernel = \<lparr>bk_window = 16, bk_module = Jit ''ptx'', bk_tables = [], bk_wave = 5120\<rparr>"

definition demo_rtx :: CudaBackend where
  "demo_rtx = \<lparr>cb_index = 0, cb_name = ''RTX'',
     cb_slots = replicate QUEUE_DEPTH \<lparr>cs_header = [], cs_target = [], cs_hits = [0], cs_hits_host = [0], cs_header_of = None,
       cs_target_of = None\<rparr>, cb_queued = [], cb_next_slot = 0, cb_bc3 = Some demo_kernel, cb_builder = None, cb_sm = 86,
     cb_sms = 20, cb_told_jit = False, cb_calls = 0, cb_out = []\<rparr>"

lemma demo_rtx_ok: "cuda_ok demo_rtx \<and> cb_queued demo_rtx = [] \<and> cb_bc3 demo_rtx = Some demo_kernel"
  by (simp add: demo_rtx_def cuda_ok_def queue_inv_def coherent_def ring_of_def QUEUE_DEPTH_def)

abbreviation demo_launch :: "u32 \<Rightarrow> Launch" where
  "demo_launch n \<equiv> \<lparr>la_algo = Bc3Hash, la_header76 = [], la_start = n, la_count = 5, la_target = replicate 32 0\<rparr>"

theorem scans_belong_to_their_launches_witness:
  "map snd (card_run demo_cuda [Op_enqueue (demo_launch 7), Op_enqueue (demo_launch 9), Op_collect, Op_collect] demo_rtx []) =
     [\<lparr>sc_hits = [7], sc_reported = 1, sc_busy = None\<rparr>, \<lparr>sc_hits = [9], sc_reported = 1, sc_busy = None\<rparr>] \<and>
   (\<exists>k l hits busy. \<lparr>sc_hits = [7], sc_reported = 1, sc_busy = None\<rparr> = scan_of (kernel_hits demo_cuda k l hits) busy \<and>
     (cb_bc3 demo_rtx = Some k \<or> agrees_with_cpu demo_cuda k))"
proof -
  let ?run = "card_run demo_cuda [Op_enqueue (demo_launch 7), Op_enqueue (demo_launch 9), Op_collect, Op_collect] demo_rtx []"
  have r: "map snd ?run =
     [\<lparr>sc_hits = [7], sc_reported = 1, sc_busy = None\<rparr>, \<lparr>sc_hits = [9], sc_reported = 1, sc_busy = None\<rparr>]"
    by code_simp
  then have "\<lparr>sc_hits = [7], sc_reported = 1, sc_busy = None\<rparr> \<in> set (map snd ?run)" by (simp only: list.set_intros)
  then obtain k l where "((k, l), \<lparr>sc_hits = [7], sc_reported = 1, sc_busy = None\<rparr>) \<in> set ?run"
    unfolding set_map by (elim imageE) (metis prod.collapse)
  moreover have ok: "cuda_ok demo_rtx" "cb_queued demo_rtx = []" using demo_rtx_ok by simp_all
  note scans_belong_to_their_launches [OF ok, of demo_cuda
    "[Op_enqueue (demo_launch 7), Op_enqueue (demo_launch 9), Op_collect, Op_collect]"]
  ultimately have "(cb_bc3 demo_rtx = Some k \<or> agrees_with_cpu demo_cuda k) \<and>
      (\<exists>hits busy. \<lparr>sc_hits = [7], sc_reported = 1, sc_busy = None\<rparr> = scan_of (kernel_hits demo_cuda k l hits) busy)"
    unfolding split_def by (metis (no_types, lifting) fst_conv snd_conv)
  with r show ?thesis by blast
qed


lemma concat_zeros: "concat (map (\<lambda>_. replicate 8 0) xs) = replicate (8 * length xs) 0"
  by (induction xs) (simp_all add: replicate_add)

lemma zero_points_build:
  assumes "cu_gpu_point cu = (\<lambda>_ _ _. Inr (replicate 8 0))"
    and "cu_build_row cu = (\<lambda>_ _ out _ count. replicate (8 * unat count) 0 @ drop (8 * unat count) out)"
  shows "builds_rows cu"
proof -
  have "host_point cu curve pos = (\<lambda>_. replicate 8 0)" for curve pos by (simp add: host_point_def assms(1) fun_eq_iff)
  moreover have "concat (map (\<lambda>_. replicate 8 (0 :: u64)) [1..<unat (count :: u32) + 1]) = replicate (8 * unat count) 0" for count
    unfolding concat_zeros by simp
  ultimately show ?thesis unfolding builds_rows_def assms(2) by simp
qed

lemma demo_cuda_fields:
  "no_faults demo_cuda" "cu_power_tables demo_cuda = Inr []" "points_have_8_limbs demo_cuda" "builds_rows demo_cuda"
  "has_room demo_cuda n" "1 \<le> unat (cb_sms demo_rtx * BUILD_BLOCKS_PER_SM)"
  by (simp_all add: demo_cuda_def no_faults_def points_have_8_limbs_def zero_points_build has_room_def
      demo_rtx_def BUILD_BLOCKS_PER_SM_def)


text \<open>
  C27. Whatever the kernel that builds a row has written, tables are used only if in every row of every
  curve the first, the middle and the last point are the host's own, at their place.
\<close>

theorem wrong_tables_are_refused:
  assumes "build_tables cu window b = (Inr tables, t)"
  shows "\<exists>rs pow. rows window = Some rs \<and> cu_power_tables cu = Inr pow \<and>
    (\<forall>curve<4. \<forall>i<length rs. \<forall>p\<in>{1, row_points (rs ! i) div 2 + 1, row_points (rs ! i)}.
       cu_gpu_point cu curve (row_pos (rs ! i)) p =
         Inr (take 8 (drop (row_start (length pow) rs curve i + (unat p - 1) * 8) tables)))"
proof -
  obtain rs build npow ts bases c d u v where
    st: "start_tables cu window b = (Inr (rs, build, npow, ts, bases), c)"
    and chk: "check_tables cu tables npow rs d = (Inr u, v)"
    using assms unfolding build_tables_def by (auto elim!: and_then_InrE simp: look_def)
  from start_tables_Inr [OF st] obtain pow where "rows window = Some rs" "cu_power_tables cu = Inr pow" "npow = length pow"
    by blast
  moreover have "cu_gpu_point cu curve (row_pos (rs ! i)) p = Inr (take 8 (drop (row_start npow rs curve i + (unat p - 1) * 8) tables))"
    if "curve < 4" "i < length rs" "p \<in> {1, row_points (rs ! i) div 2 + 1, row_points (rs ! i)}" for curve i p
    using check_tables_checks [OF chk] in_table_samples [OF that, of npow] by fastforce
  ultimately show ?thesis by blast
qed

theorem wrong_tables_are_refused_witness:
  "\<exists>rs tables. rows 16 = Some rs \<and>
     cu_gpu_point demo_cuda 3 (row_pos (rs ! 0)) 1 = Inr (take 8 (drop (row_start 0 rs 3 0 + 0) tables))"
proof -
  obtain rs where rs: "rows 16 = Some rs" by (simp add: rows_def digits_def)
  obtain tables t where run: "build_tables demo_cuda 16 demo_rtx = (Inr tables, t)"
    using build_tables_succeeds [OF demo_cuda_fields(1) rs demo_cuda_fields(2,3,4,6,5)] by blast
  have "length (rows_from p ws) = length ws" for p ws by (induction ws arbitrary: p) (simp_all add: Let_def)
  moreover have "rs = rows_from 0 (replicate 16 16)" using rs by (simp add: rows_def digits_def div_ceil_def)
  ultimately have "0 < length rs" by (simp only: length_replicate zero_less_numeral)
  with wrong_tables_are_refused [OF run] rs demo_cuda_fields(2) show ?thesis by fastforce
qed

text \<open>The machine code of a kernel made for the card's major and no later minor, and the newest of it.\<close>

definition fitting_code :: "CudaDriver \<Rightarrow> string \<Rightarrow> u32 \<Rightarrow> (u32 \<times> bytes) set" where
  "fitting_code cu stem sm = {(s, packed). (stem, s, packed) \<in> set (cu_sass cu) \<and> s div 10 = sm div 10 \<and> s \<le> sm}"

definition newest_code :: "CudaDriver \<Rightarrow> string \<Rightarrow> u32 \<Rightarrow> u32 \<times> bytes \<Rightarrow> bool" where
  "newest_code cu stem sm x \<longleftrightarrow> x \<in> fitting_code cu stem sm \<and> (\<forall>y\<in>fitting_code cu stem sm. fst y \<le> fst x)"

lemma pick_sass_newest:
  "case pick_sass (cu_sass cu) stem sm of
     Some x \<Rightarrow> newest_code cu stem sm x
   | None \<Rightarrow> fitting_code cu stem sm = {}"
proof (cases "pick_sass (cu_sass cu) stem sm")
  case None
  then show ?thesis by (auto simp: pick_sass_def newest_None filter_empty_conv split_def fitting_code_def)
next
  case (Some x)
  obtain s code where x: "x = (s, code)" by (cases x)
  from newest_Some [OF Some [unfolded pick_sass_def x]] show ?thesis by (auto simp: Some x newest_code_def fitting_code_def)
qed

text \<open>No machine code fits, or the newest that does is damaged or would not load.\<close>

definition no_code_loads :: "CudaDriver \<Rightarrow> string \<Rightarrow> CudaBackend \<Rightarrow> bool" where
  "no_code_loads cu stem b \<longleftrightarrow> fitting_code cu stem (cb_sm b) = {} \<or>
     (\<exists>s packed. newest_code cu stem (cb_sm b) (s, packed) \<and>
        ((\<exists>e. cu_inflate cu packed = Inl e) \<or> cu_fault cu (cb_calls b) \<noteq> None))"

text \<open>
  C28. The module loaded for a kernel is machine code only if it is that kernel's, made for the card's own major
  and no later minor, the newest such there is, and it came out of the packing whole. Otherwise it is the PTX asked for,
  which the driver compiles, and that only when no machine code fits, or the newest that fits is damaged, or the driver
  would not load it. Loading fails only when compiling that PTX fails, and then for one of the same reasons.
\<close>

theorem machine_code_fits:
  "case load_module cu stem ptx b of
     (Inr (Cubin code), _) \<Rightarrow> \<exists>s packed. newest_code cu stem (cb_sm b) (s, packed) \<and> cu_inflate cu packed = Inr code
   | (Inr (Jit p), _) \<Rightarrow> p = ptx \<and> no_code_loads cu stem b
   | (Inl _, b') \<Rightarrow> cu_fault cu (cb_calls b' - 1) \<noteq> None \<and> no_code_loads cu stem b"
proof -
  have open_jit: "case load_jit cu stem ptx c of (Inr (Cubin code), _) \<Rightarrow> P code | (Inr (Jit p), _) \<Rightarrow> p = ptx \<and> Q
      | (Inl _, b') \<Rightarrow> cu_fault cu (cb_calls b' - 1) \<noteq> None \<and> Q" if Q for c P Q
    using that by (auto simp: load_jit_def and_then_def change_def give_def call_def driver_def Let_def split: option.split)
  note pick = pick_sass_newest [of cu stem "cb_sm b"]
  show ?thesis
  proof (cases "pick_sass (cu_sass cu) stem (cb_sm b)")
    case None
    then have l: "load_module cu stem ptx b = load_jit cu stem ptx c"
      if "c = (if \<not> cb_told_jit b then print (human (cu_json cu) (''[gpu] '' @ cb_name b @ '': this build has no machine code for sm_'' @
        dec (unat (cb_sm b)) @ '' - the driver compiles the kernel, which takes up to a minute where it has not cached it'')) b else b)" for c
      unfolding load_module_def that by (simp add: Let_def)
    show ?thesis unfolding l [OF refl] by (rule open_jit) (use pick None in \<open>simp add: no_code_loads_def\<close>)
  next
    case (Some x)
    obtain s packed where x: "x = (s, packed)" by (cases x)
    have n: "newest_code cu stem (cb_sm b) (s, packed)" using pick Some x by simp
    show ?thesis
    proof (cases "cu_inflate cu packed")
      case (Inl e)
      show ?thesis
        unfolding load_module_def Some x Inl Let_def option.case prod.case sum.case by (rule open_jit) (use n Inl in \<open>unfold no_code_loads_def, blast\<close>)
    next
      case (Inr code)
      show ?thesis
      proof (cases "cu_fault cu (cb_calls b)")
        case None
        then have "fst (load_module cu stem ptx b) = Inr (Cubin code)"
          by (simp add: load_module_def Some x Inr Let_def call_def driver_def)
        then obtain c where "load_module cu stem ptx b = (Inr (Cubin code), c)" by (metis prod.collapse)
        moreover have "\<exists>s packed. newest_code cu stem (cb_sm b) (s, packed) \<and> cu_inflate cu packed = Inr code" using n Inr by blast
        ultimately show ?thesis by simp
      next
        case (Some e)
        then obtain c where "load_module cu stem ptx b = load_jit cu stem ptx c"
          using \<open>pick_sass _ _ _ = _\<close> by (simp add: load_module_def x Inr Let_def call_def driver_def)
        then show ?thesis by (simp only:) (rule open_jit, use n Some in \<open>unfold no_code_loads_def, blast\<close>)
      qed
    qed
  qed
qed

definition demo_sass :: CudaDriver where
  "demo_sass = demo_cuda\<lparr>cu_sass := [(''w16'', 86, [1]), (''w16'', 89, [2])], cu_inflate := Inr\<rparr>"

theorem machine_code_fits_witness:
  "\<exists>c. load_module demo_sass ''w16'' ''ptx'' (demo_rtx\<lparr>cb_sm := 87\<rparr>) = (Inr (Cubin [1]), c) \<and>
     newest_code demo_sass ''w16'' 87 (86, [1])"
proof -
  have "pick_sass (cu_sass demo_sass) ''w16'' 87 = Some (86, [1])" unfolding demo_sass_def by (simp add: pick_sass_def)
  then obtain c where c: "load_module demo_sass ''w16'' ''ptx'' (demo_rtx\<lparr>cb_sm := 87\<rparr>) = (Inr (Cubin [1]), c)"
    by (simp add: load_module_def demo_sass_def call_def driver_def Let_def demo_cuda_def)
  from machine_code_fits [where cu = demo_sass and stem = "''w16''" and ptx = "''ptx''" and b = "demo_rtx\<lparr>cb_sm := 87\<rparr>", unfolded c]
  obtain s packed where "newest_code demo_sass ''w16'' 87 (s, packed)" "packed = [1]" by (auto simp: demo_sass_def)
  moreover from this have "s = 86" by (auto simp: newest_code_def fitting_code_def demo_sass_def)
  ultimately show ?thesis using c by simp
qed

text \<open>
  C25. Preparing a window leaves nothing in flight and the card hashing only what it has been tested
  for: with an error there is no kernel, without one it is the window's and has been compared with the
  CPU, on the header vectors and fourteen random headers and on launches that end at the top of the
  nonce space.
\<close>

theorem prepared_kernel_is_tested:
  assumes "cuda_ok b"
  shows "case cuda_prepare cu b window of
      (Inl e, b') \<Rightarrow> cb_bc3 b' = None \<and> cb_queued b' = [] \<and> cuda_ok b'
    | (Inr t, b') \<Rightarrow> \<exists>k. cb_bc3 b' = Some k \<and> bk_window k = window \<and> agrees_with_cpu cu k \<and> cb_queued b' = [] \<and> cuda_ok b'"
  using assms
proof (cases rule: prepare_cases [where cu = cu and window = window])
  case (passes k t c b')
  then show ?thesis using passed_agrees [OF passes(6-9)] by simp
qed simp

text \<open>A card whose kernel finds nothing, where the CPU finds nothing either.\<close>

definition demo_quiet :: CudaDriver where
  "demo_quiet = demo_cuda\<lparr>cu_scan := \<lambda>_ _ _ _ _ _ _ _ _. [0]\<rparr>"

lemma demo_quiet_fields:
  "no_faults demo_quiet" "cu_power_tables demo_quiet = Inr []" "points_have_8_limbs demo_quiet" "builds_rows demo_quiet"
  "has_room demo_quiet n" "forgets_older_hits demo_quiet" "kernel_hits demo_quiet k l hits = [0]"
  "cu_vectors demo_quiet = []" "cu_pow demo_quiet = (\<lambda>_. replicate 32 0xff)"
  by (simp_all add: demo_quiet_def demo_cuda_def no_faults_def points_have_8_limbs_def zero_points_build has_room_def
      forgets_older_hits_def kernel_hits_def)

lemma demo_quiet_loads: "\<exists>k t. load_bc3 demo_quiet 16 ((cuda_abandon demo_quiet demo_rtx)\<lparr>cb_bc3 := None\<rparr>) = (Inr k, t)"
proof -
  let ?b = "(cuda_abandon demo_quiet demo_rtx)\<lparr>cb_bc3 := None\<rparr>"
  obtain rs where rs: "rows 16 = Some rs" by (simp add: rows_def digits_def)
  have ptx: "\<exists>p. bc3hash_ptx demo_quiet 16 = Inr p" by (simp add: bc3hash_ptx_def BC3HASH_WINDOWS_def)
  then obtain p where p: "bc3hash_ptx demo_quiet 16 = Inr p" by blast
  obtain m b1 where m: "load_module demo_quiet (bc3hash_stem 16) p ?b = (Inr m, b1)"
    using no_faults_load [OF demo_quiet_fields(1)] by blast
  have "queue_of ?b = queue_of (demo_rtx\<lparr>cb_slots := map forget (cb_slots demo_rtx), cb_bc3 := None\<rparr>)"
    by (simp add: cuda_abandon_def whatever_def no_faults_call [OF demo_quiet_fields(1)] queue_of_def demo_rtx_def)
  moreover have "queue_of b1 = queue_of ?b"
    using keepsD [OF steady_load_module, of ?b "queue_of ?b" demo_quiet "bc3hash_stem 16" p] m by simp
  ultimately have "cb_sms b1 = cb_sms demo_rtx" by (simp add: queue_of_def)
  then have "1 \<le> unat (cb_sms (b1\<lparr>cb_calls := n\<rparr>) * BUILD_BLOCKS_PER_SM)" for n using demo_cuda_fields(6) by simp
  from build_tables_succeeds [OF demo_quiet_fields(1) rs demo_quiet_fields(2-4) this demo_quiet_fields(5)]
  have "\<exists>tables t. build_tables demo_quiet 16 (b1\<lparr>cb_calls := n\<rparr>) = (Inr tables, t)" for n by blast
  then obtain tables b2 where "build_tables demo_quiet 16 (b1\<lparr>cb_calls := cb_calls b1 + 1 + 1\<rparr>) = (Inr tables, b2)" by blast
  then show ?thesis
    using p m by (simp add: load_bc3_def and_then_def no_faults_call [OF demo_quiet_fields(1)] ask_def look_def)
qed

lemma demo_quiet_passes:
  assumes "cuda_ok c" and "cb_bc3 c = Some k" and "cb_queued c = []"
  shows "\<exists>b'. cuda_self_test demo_quiet c = Some (Inr (), b')"
proof -
  define r where "r = draw_headers 14 (self_test_seed (cu_nanos demo_quiet (cb_calls c)))"
  let ?be = "cuda_with demo_quiet (\<lambda>b w. (Inl '''', b))"
  have len: "length (fst r) = 14" by (simp add: r_def length_draw_headers)
  obtain c' where b: "cuda_bc3_batch demo_quiet c (fst r) = (Inr (replicate 14 (replicate 32 0xff)), c')"
  proof -
    have "chunks (448 div 32) 32 (replicate 448 (0xff :: u8)) = replicate 14 (replicate 32 0xff)" by code_simp
    then show thesis using that assms(2) len
      by (simp add: cuda_bc3_batch_def ok_or_def and_then_def no_faults_call [OF demo_quiet_fields(1)])
        (simp add: demo_quiet_def demo_cuda_def)
  qed
  have c': "cuda_ok c' \<and> cb_bc3 c' = Some k" "length (map counted (waiting c')) < QUEUE_DEPTH" "waiting c' = []"
  proof -
    have "queue_of c' = queue_of c" using steady_batch [of demo_quiet c "fst r"] b by simp
    with queue_of_ok queue_of_fields assms have "cuda_ok c'" "cb_bc3 c' = Some k" "cb_queued c' = []" by metis+
    then show "cuda_ok c' \<and> cb_bc3 c' = Some k" "length (map counted (waiting c')) < QUEUE_DEPTH" "waiting c' = []"
      by (simp_all add: length_waiting QUEUE_DEPTH_def)
  qed
  note fifo = card_is_fifo [OF demo_quiet_fields(1,6), of "\<lambda>b w. (Inl '''', b)" k]
  let ?ls = "draw_launches [0..<QUEUE_DEPTH + 1] (snd r)"
  have t0: "TEST_COUNT \<noteq> 0" by (simp add: TEST_COUNT_def)
  from fifo_backend.queue_scans_all [OF fifo t0 order_refl refl c'(1,2), of test_target ?ls "[]"] c'(3) obtain d where
    q: "queue_scans ?be QUEUE_DEPTH TEST_COUNT test_target ?ls c' [] = Some (Inr (map (\<lambda>_. []) ?ls), d)"
    by (auto simp: card_kern_def demo_quiet_fields(7) counted_def buffer_hits_def split_def comp_def)
  have no: "hash_meets_target (replicate 32 0xff) test_target = False" by code_simp
  have "cpu_hits (cu_pow demo_quiet) h s = []" for h s by (simp add: cpu_hits_def demo_quiet_fields no)
  then have "launch_differs (cu_pow demo_quiet) 0 ?ls (map (\<lambda>_. []) ?ls) = None" by (simp add: launch_differs_None)
  moreover have "zip_differs 0 (replicate 14 (replicate 32 0xff)) (map (cu_pow demo_quiet) (fst r)) = None"
    using len by (simp add: zip_differs_None demo_quiet_fields)
  ultimately show ?thesis
    using b q by (simp add: cuda_self_test_def drawn_self_test_def self_test_def queued_scans_def split_def Let_def
        demo_quiet_fields(8) flip: r_def)
qed

theorem prepared_kernel_is_tested_witness:
  "\<exists>t b' k. cuda_prepare demo_quiet demo_rtx 16 = (Inr t, b') \<and> cb_bc3 b' = Some k \<and> bk_window k = 16 \<and> agrees_with_cpu demo_quiet k"
proof -
  let ?b = "(cuda_abandon demo_quiet demo_rtx)\<lparr>cb_bc3 := None\<rparr>"
  have ok: "cuda_ok demo_rtx" using demo_rtx_ok by simp
  obtain k c where l: "load_bc3 demo_quiet 16 ?b = (Inr k, c)" using demo_quiet_loads by blast
  have "cuda_ok ?b" "cb_queued ?b = []" using abandon_ok [OF ok, of demo_quiet] by simp_all
  with load_bc3_ok [OF l] have "cuda_ok (c\<lparr>cb_bc3 := Some k\<rparr>)" "cb_queued (c\<lparr>cb_bc3 := Some k\<rparr>) = []" by simp_all
  from demo_quiet_passes [OF this(1) _ this(2)] obtain d where "cuda_self_test demo_quiet (c\<lparr>cb_bc3 := Some k\<rparr>) = Some (Inr (), d)"
    by auto
  then obtain t b' where p: "cuda_prepare demo_quiet demo_rtx 16 = (Inr t, b')" using l by (simp add: cuda_prepare_def)
  from prepared_kernel_is_tested [OF ok, where cu = demo_quiet and window = 16] show ?thesis by (auto simp: p)
qed

end
