(* ===== verification/Cl_Sys.thy ===== *)
theory Cl_Sys
  imports Backends
begin

text \<open>
  \<open>src/backend/cl_sys.rs\<close>: finding the OpenCL library at run time, its entry points, error codes and
  the two-step string queries. A library is a function from symbol names to what looking one up fails
  with; the dynamic loader is an argument.
\<close>

section \<open>Definitions\<close>

definition CL_SUCCESS :: int where
  "CL_SUCCESS = 0"

text \<open>The entry points, in the order the binding looks them up.\<close>

datatype ClCall =
  GetPlatformIDs | GetDeviceIDs | GetDeviceInfo | CreateContext | CreateCommandQueue
| CreateCommandQueueWithProperties | CreateProgramWithSource | BuildProgram | GetProgramBuildInfo | CreateKernel
| GetKernelWorkGroupInfo | CreateBuffer | SetKernelArg | EnqueueWriteBuffer | EnqueueReadBuffer
| EnqueueNDRangeKernel | Finish | Flush | WaitForEvents | GetEventProfilingInfo | ReleaseEvent | ReleaseMemObject
| ReleaseKernel | ReleaseProgram | ReleaseCommandQueue | ReleaseContext

fun symbol :: "ClCall \<Rightarrow> string" where
  "symbol GetPlatformIDs = ''clGetPlatformIDs''"
| "symbol GetDeviceIDs = ''clGetDeviceIDs''"
| "symbol GetDeviceInfo = ''clGetDeviceInfo''"
| "symbol CreateContext = ''clCreateContext''"
| "symbol CreateCommandQueue = ''clCreateCommandQueue''"
| "symbol CreateCommandQueueWithProperties = ''clCreateCommandQueueWithProperties''"
| "symbol CreateProgramWithSource = ''clCreateProgramWithSource''"
| "symbol BuildProgram = ''clBuildProgram''"
| "symbol GetProgramBuildInfo = ''clGetProgramBuildInfo''"
| "symbol CreateKernel = ''clCreateKernel''"
| "symbol GetKernelWorkGroupInfo = ''clGetKernelWorkGroupInfo''"
| "symbol CreateBuffer = ''clCreateBuffer''"
| "symbol SetKernelArg = ''clSetKernelArg''"
| "symbol EnqueueWriteBuffer = ''clEnqueueWriteBuffer''"
| "symbol EnqueueReadBuffer = ''clEnqueueReadBuffer''"
| "symbol EnqueueNDRangeKernel = ''clEnqueueNDRangeKernel''"
| "symbol Finish = ''clFinish''"
| "symbol Flush = ''clFlush''"
| "symbol WaitForEvents = ''clWaitForEvents''"
| "symbol GetEventProfilingInfo = ''clGetEventProfilingInfo''"
| "symbol ReleaseEvent = ''clReleaseEvent''"
| "symbol ReleaseMemObject = ''clReleaseMemObject''"
| "symbol ReleaseKernel = ''clReleaseKernel''"
| "symbol ReleaseProgram = ''clReleaseProgram''"
| "symbol ReleaseCommandQueue = ''clReleaseCommandQueue''"
| "symbol ReleaseContext = ''clReleaseContext''"

text \<open>Every entry point but the two that create a queue must be there.\<close>

definition MANDATORY :: "ClCall list" where
  "MANDATORY =
     [GetPlatformIDs, GetDeviceIDs, GetDeviceInfo, CreateContext, CreateProgramWithSource, BuildProgram,
      GetProgramBuildInfo, CreateKernel, GetKernelWorkGroupInfo, CreateBuffer, SetKernelArg, EnqueueWriteBuffer,
      EnqueueReadBuffer, EnqueueNDRangeKernel, Finish, Flush, WaitForEvents, GetEventProfilingInfo, ReleaseEvent,
      ReleaseMemObject, ReleaseKernel, ReleaseProgram, ReleaseCommandQueue, ReleaseContext]"

record Cl =
  cl_create_command_queue :: bool
  cl_create_command_queue_with_properties :: bool

type_synonym library = "string \<Rightarrow> string option"

text \<open>The name is looked up with its terminating NUL, which the message shows.\<close>

definition sym :: "library \<Rightarrow> ClCall \<Rightarrow> string + unit" where
  "sym lib c =
     (case lib (symbol c) of
        None \<Rightarrow> Inr ()
      | Some e \<Rightarrow> Inl (''OpenCL runtime is missing '' @ symbol c @ [CHR 0x00] @ '': '' @ e))"

definition sym_opt :: "library \<Rightarrow> ClCall \<Rightarrow> bool" where
  "sym_opt lib c \<longleftrightarrow> lib (symbol c) = None"

fun syms :: "library \<Rightarrow> ClCall list \<Rightarrow> string + unit" where
  "syms lib [] = Inr ()"
| "syms lib (c # cs) = (case sym lib c of Inl e \<Rightarrow> Inl e | Inr _ \<Rightarrow> syms lib cs)"

definition cl_build :: "library \<Rightarrow> string + Cl" where
  "cl_build lib =
     (case syms lib MANDATORY of
        Inl e \<Rightarrow> Inl e
      | Inr _ \<Rightarrow>
          let cl = \<lparr>cl_create_command_queue = sym_opt lib CreateCommandQueue,
                    cl_create_command_queue_with_properties = sym_opt lib CreateCommandQueueWithProperties\<rparr>
          in if \<not> cl_create_command_queue cl \<and> \<not> cl_create_command_queue_with_properties cl
             then Inl ''OpenCL runtime exports no way to create a command queue''
             else Inr cl)"

text \<open>On Linux.\<close>

definition CANDIDATES :: "string list" where
  "CANDIDATES = [''libOpenCL.so.1'', ''libOpenCL.so'', ''libOpenCL.so.1.0.0'']"

fun try_load :: "(string \<Rightarrow> string + library) \<Rightarrow> string list \<Rightarrow> string \<Rightarrow> string + Cl" where
  "try_load dl [] prev =
     Inl (''no OpenCL runtime found (tried '' @ join '', '' CANDIDATES @ '') - last error: '' @ prev)"
| "try_load dl (name # names) prev =
     (case dl name of
        Inr lib \<Rightarrow> cl_build lib
      | Inl e \<Rightarrow> try_load dl names (name @ '': '' @ e))"

definition cl_load :: "(string \<Rightarrow> string + library) \<Rightarrow> string + Cl" where
  "cl_load dl = try_load dl CANDIDATES ''''"

text \<open>The binding, from the cell it is kept in: loaded once, and what that came to ever after.\<close>

definition cl :: "(string \<Rightarrow> string + library) \<Rightarrow> (string + Cl) option \<Rightarrow> (string + Cl) \<times> (string + Cl) option" where
  "cl dl cell = (case cell of Some r \<Rightarrow> (r, Some r) | None \<Rightarrow> (let r = cl_load dl in (r, Some r)))"

subsection \<open>Error codes and strings\<close>

definition ERRORS :: "(int \<times> string) list" where
  "ERRORS =
     [(0, ''CL_SUCCESS''), (-1, ''CL_DEVICE_NOT_FOUND''), (-2, ''CL_DEVICE_NOT_AVAILABLE''),
      (-3, ''CL_COMPILER_NOT_AVAILABLE''), (-4, ''CL_MEM_OBJECT_ALLOCATION_FAILURE''), (-5, ''CL_OUT_OF_RESOURCES''),
      (-6, ''CL_OUT_OF_HOST_MEMORY''), (-11, ''CL_BUILD_PROGRAM_FAILURE''), (-30, ''CL_INVALID_VALUE''),
      (-33, ''CL_INVALID_DEVICE''), (-34, ''CL_INVALID_CONTEXT''), (-36, ''CL_INVALID_COMMAND_QUEUE''),
      (-38, ''CL_INVALID_MEM_OBJECT''), (-45, ''CL_INVALID_PROGRAM_EXECUTABLE''), (-48, ''CL_INVALID_KERNEL''),
      (-49, ''CL_INVALID_ARG_INDEX''), (-50, ''CL_INVALID_ARG_VALUE''), (-51, ''CL_INVALID_ARG_SIZE''),
      (-52, ''CL_INVALID_KERNEL_ARGS''), (-54, ''CL_INVALID_WORK_GROUP_SIZE''), (-55, ''CL_INVALID_WORK_ITEM_SIZE''),
      (-61, ''CL_INVALID_BUFFER_SIZE'')]"

definition err_str :: "int \<Rightarrow> string" where
  "err_str code =
     (case map_of ERRORS code of Some name \<Rightarrow> name | None \<Rightarrow> ''CL_ERROR'') @ '' ('' @ dec_int code @ '')''"

definition check :: "string \<Rightarrow> int \<Rightarrow> string + unit" where
  "check what code = (if code = CL_SUCCESS then Inr () else Inl (what @ '': '' @ err_str code))"

text \<open>
  \<open>sized\<close> is the query for the size with its code, \<open>valued n\<close> the query for the value with its code
  and what it writes into a buffer of \<open>n\<close> zeros; \<open>lossy\<close> is \<open>String::from_utf8_lossy\<close>.
\<close>

definition info_string :: "(bytes \<Rightarrow> string) \<Rightarrow> int \<times> nat \<Rightarrow> (nat \<Rightarrow> int \<times> bytes) \<Rightarrow> string + string" where
  "info_string lossy sized valued =
     (case sized of (code, n) \<Rightarrow>
        case check ''query size'' code of
          Inl e \<Rightarrow> Inl e
        | Inr _ \<Rightarrow>
            if n = 0 then Inr ''''
            else case valued n of (code, written) \<Rightarrow>
              case check ''query value'' code of
                Inl e \<Rightarrow> Inl e
              | Inr _ \<Rightarrow>
                  let buf = copy_at 0 (take n written) (replicate n 0)
                  in Inr (trim (lossy (takeWhile (\<lambda>b. b \<noteq> 0) buf))))"

definition cstr :: "string \<Rightarrow> string" where
  "cstr s = map (\<lambda>c. if c = CHR 0x00 then CHR '' '' else c) s"

section \<open>Lemmas\<close>

lemma syms_Inr: "syms lib cs = Inr u \<longleftrightarrow> (\<forall>c\<in>set cs. lib (symbol c) = None)"
  by (induction cs) (auto simp: sym_def split: option.splits)

lemma cl_build_Inr:
  "cl_build lib = Inr api \<Longrightarrow>
   (\<forall>c\<in>set MANDATORY. lib (symbol c) = None) \<and>
   (cl_create_command_queue api \<longleftrightarrow> lib (symbol CreateCommandQueue) = None) \<and>
   (cl_create_command_queue_with_properties api \<longleftrightarrow> lib (symbol CreateCommandQueueWithProperties) = None) \<and>
   (cl_create_command_queue api \<or> cl_create_command_queue_with_properties api)"
  by (auto simp: cl_build_def syms_Inr sym_opt_def Let_def split: sum.splits if_splits)

lemma try_load_Inr:
  "try_load dl names prev = Inr api \<Longrightarrow>
   \<exists>before name after lib. names = before @ name # after \<and> (\<forall>n\<in>set before. \<exists>e. dl n = Inl e) \<and>
     dl name = Inr lib \<and> cl_build lib = Inr api"
proof (induction names arbitrary: prev)
  case (Cons n ns)
  show ?case
  proof (cases "dl n")
    case (Inl e)
    then have "try_load dl ns (n @ '': '' @ e) = Inr api" using Cons.prems by simp
    from Cons.IH [OF this] obtain before name after lib where "ns = before @ name # after"
      "\<forall>n\<in>set before. \<exists>e. dl n = Inl e" "dl name = Inr lib" "cl_build lib = Inr api" by blast
    then show ?thesis using Inl by (intro exI [of _ "n # before"]) auto
  next
    case (Inr lib)
    then have "n # ns = [] @ n # ns \<and> (\<forall>m\<in>set []. \<exists>e. dl m = Inl e) \<and> dl n = Inr lib \<and> cl_build lib = Inr api"
      using Cons.prems by simp
    then show ?thesis by blast
  qed
qed simp

lemma symbols_complete: "c \<in> set MANDATORY \<or> c = CreateCommandQueue \<or> c = CreateCommandQueueWithProperties"
  by (cases c) (simp_all add: MANDATORY_def)

lemma cstr_no_nul [simp]: "CHR 0x00 \<notin> set (cstr s)"
  by (auto simp: cstr_def)

section \<open>Properties\<close>

text \<open>
  A binding the loader hands out comes from the first of the candidate libraries that
  opens at all, which exports every entry point the backend calls - of the two ways to create a queue
  at least the one it will take - so no call goes to a missing function and the \<open>unwrap\<close> in
  \<open>create_queue\<close> never panics; asked again, the cell gives the same answer.
\<close>

theorem opencl_runtime_complete:
  assumes "fst (cl dl None) = Inr api"
  shows "(\<exists>before name after lib. CANDIDATES = before @ name # after \<and> (\<forall>n\<in>set before. \<exists>e. dl n = Inl e) \<and> dl name = Inr lib \<and>
      (\<forall>c. lib (symbol c) = None \<or>
         c = CreateCommandQueue \<and> cl_create_command_queue_with_properties api \<and> \<not> cl_create_command_queue api \<or>
         c = CreateCommandQueueWithProperties \<and> \<not> cl_create_command_queue_with_properties api \<and> cl_create_command_queue api)) \<and>
    cl dl' (snd (cl dl None)) = (Inr api, snd (cl dl None))"
proof -
  have "try_load dl CANDIDATES '''' = Inr api" using assms by (simp add: cl_def cl_load_def Let_def)
  from try_load_Inr [OF this] obtain before name after lib where
    l: "CANDIDATES = before @ name # after" "\<forall>n\<in>set before. \<exists>e. dl n = Inl e" "dl name = Inr lib" "cl_build lib = Inr api"
    by blast
  have "lib (symbol c) = None \<or>
      c = CreateCommandQueue \<and> cl_create_command_queue_with_properties api \<and> \<not> cl_create_command_queue api \<or>
      c = CreateCommandQueueWithProperties \<and> \<not> cl_create_command_queue_with_properties api \<and> cl_create_command_queue api" for c
    using cl_build_Inr [OF l(4)] symbols_complete [of c] by blast
  then show ?thesis using l(1-3) assms by (auto simp: cl_def Let_def)
qed

definition demo_library :: library where
  "demo_library name = (if name = ''clCreateCommandQueue'' then Some ''undefined symbol'' else None)"

theorem opencl_runtime_complete_witness:
  "fst (cl (\<lambda>n. if n = ''libOpenCL.so.1'' then Inl ''not found'' else Inr demo_library) None) =
     Inr \<lparr>cl_create_command_queue = False, cl_create_command_queue_with_properties = True\<rparr> \<and>
   (\<exists>before name after. CANDIDATES = before @ name # after)"
proof -
  let ?dl = "\<lambda>n. if n = ''libOpenCL.so.1'' then Inl ''not found'' else Inr demo_library"
  have "fst (cl ?dl None) = Inr \<lparr>cl_create_command_queue = False, cl_create_command_queue_with_properties = True\<rparr>"
    by code_simp
  with opencl_runtime_complete [OF this] show ?thesis by blast
qed

end
