(* ===== verification/Opencl.thy ===== *)
theory Opencl
  imports Device Cl_Sys
begin

text \<open>
  \<open>src/backend/opencl.rs\<close>: a GPU driven through OpenCL, and the cache of the host's tables in
  \<open>backend/bc3.rs\<close>. The runtime is an argument: which of its calls fail, which give a null handle, how
  far the device has got with the queued commands at every call, what the kernels compute. Commands
  run in order but late: the non-blocking copies read and write the host memory of their slot when
  they run, not when they are queued. Handles are numbers, 0 the null handle, and the runtime keeps a
  list of those handed out and not yet released.
\<close>

section \<open>Definitions\<close>

subsection \<open>The runtime\<close>

type_synonym handle = nat

datatype ClKind = K_Context | K_Queue | K_Mem | K_Program | K_Kernel | K_Event

datatype ClBuf = Bytes bytes | Limbs "u64 list" | Words "u32 list"

datatype Arg = Mem handle | U32 u32

text \<open>
  The queued commands; the slot whose host memory a copy reads or writes. A launch has the arguments
  the kernel had when it was queued.
\<close>

datatype ClCmd =
  Write_header handle nat
| Write_target handle nat
| Write_count handle nat
| Run_kernel handle "nat \<Rightarrow> Arg option" "nat \<times> nat"
| Read_hits handle nat

type_synonym ids_query = "(int \<times> nat) \<times> (nat \<Rightarrow> int \<times> handle list)"
type_synonym info_query = "(int \<times> nat) \<times> (nat \<Rightarrow> int \<times> bytes)"

text \<open>
  \<open>cd_code f n\<close> is what the \<open>n\<close>th call returns, a call of \<open>f\<close>; \<open>cd_null n\<close> says that it creates nothing;
  \<open>cd_progress n\<close> is how many more commands the device has run by then.
\<close>

record ClDriver =
  cd_load :: "string + Cl"
  cd_platform_ids :: ids_query
  cd_device_ids :: "handle \<Rightarrow> nat \<Rightarrow> ids_query"
  cd_device_name :: "handle \<Rightarrow> info_query"
  cd_device_vendor :: "handle \<Rightarrow> info_query"
  cd_build_log :: "nat \<Rightarrow> info_query"
  cd_lossy :: "bytes \<Rightarrow> string"
  cd_code :: "ClCall \<Rightarrow> nat \<Rightarrow> int"
  cd_null :: "nat \<Rightarrow> bool"
  cd_progress :: "nat \<Rightarrow> nat"
  cd_group_size :: "nat \<Rightarrow> nat"
  cd_ns :: "nat \<Rightarrow> u64"
  cd_fresh :: "nat \<Rightarrow> ClBuf"
  cd_scan :: "handle \<Rightarrow> nat \<times> nat \<Rightarrow> u64 list \<Rightarrow> bytes \<Rightarrow> u32 \<Rightarrow> u32 \<Rightarrow> u64 list \<Rightarrow> u32 list \<Rightarrow> u32 \<Rightarrow> u32 list"
  cd_batch :: "handle \<Rightarrow> nat \<times> nat \<Rightarrow> u64 list \<Rightarrow> bytes \<Rightarrow> u32 \<Rightarrow> bytes"
  cd_gpu_tables :: "u32 \<Rightarrow> string + u64 list"
  cd_cache :: "nat \<Rightarrow> (u32 \<times> u64 list option) option"
  cd_vectors :: "(bytes \<times> bytes) list"
  cd_pow :: PowFn
  cd_nanos :: "nat \<Rightarrow> u64 option"
  cd_clock :: "nat \<Rightarrow> instant"
  cd_differs :: "self_test_error \<Rightarrow> string"

record ClWorld =
  wd_calls :: nat
  wd_live :: "(ClKind \<times> handle) list"
  wd_wrong :: bool
  wd_mem :: "handle \<Rightarrow> ClBuf"
  wd_args :: "handle \<Rightarrow> nat \<Rightarrow> Arg option"
  wd_pending :: "ClCmd list"

subsection \<open>The backend\<close>

definition LOCAL_SIZE :: nat where
  "LOCAL_SIZE = 64"

definition CL_DEVICE_TYPE_GPU :: nat where
  "CL_DEVICE_TYPE_GPU = 4"

record ClHost =
  ch_header :: bytes
  ch_target :: "u64 list"
  ch_zero :: u32
  ch_hits :: "u32 list"

record ClSlot =
  sl_header :: handle
  sl_target :: handle
  sl_hits :: handle
  sl_host :: ClHost
  sl_kernel_done :: handle
  sl_read_done :: handle
  sl_header_of :: "bytes option"
  sl_target_of :: "u64 list option"

record Bc3Program =
  bp_window :: u32
  bp_program :: handle
  bp_scan :: handle
  bp_batch :: handle
  bp_tables :: handle
  bp_local :: nat

record OpenClBackend =
  oc_context :: handle
  oc_queue :: handle
  oc_name :: string
  oc_slots :: "ClSlot list"
  oc_queued :: "nat list"
  oc_next_slot :: nat
  oc_device :: handle
  oc_bc3 :: "Bc3Program option"
  oc_world :: ClWorld

type_synonym 'a cl = "(OpenClBackend, 'a) op"

definition world :: "(ClWorld \<Rightarrow> ClWorld) \<Rightarrow> OpenClBackend \<Rightarrow> OpenClBackend" where
  "world f b = b\<lparr>oc_world := f (oc_world b)\<rparr>"

definition cl_slot :: "nat \<Rightarrow> (ClSlot \<Rightarrow> ClSlot) \<Rightarrow> OpenClBackend \<Rightarrow> OpenClBackend" where
  "cl_slot i f b = b\<lparr>oc_slots := (oc_slots b)[i := f (oc_slots b ! i)]\<rparr>"

definition host :: "(ClHost \<Rightarrow> ClHost) \<Rightarrow> ClSlot \<Rightarrow> ClSlot" where
  "host f s = s\<lparr>sl_host := f (sl_host s)\<rparr>"

definition set_mem :: "handle \<Rightarrow> ClBuf \<Rightarrow> OpenClBackend \<Rightarrow> OpenClBackend" where
  "set_mem h x = world (\<lambda>w. w\<lparr>wd_mem := (wd_mem w)(h := x)\<rparr>)"

definition mem :: "OpenClBackend \<Rightarrow> handle \<Rightarrow> ClBuf" where
  "mem b = wd_mem (oc_world b)"

fun as_bytes :: "ClBuf \<Rightarrow> bytes" where "as_bytes (Bytes x) = x" | "as_bytes _ = []"
fun as_limbs :: "ClBuf \<Rightarrow> u64 list" where "as_limbs (Limbs x) = x" | "as_limbs _ = []"
fun as_words :: "ClBuf \<Rightarrow> u32 list" where "as_words (Words x) = x" | "as_words _ = []"

definition mem_arg :: "Arg option \<Rightarrow> handle" where
  "mem_arg a = (case a of Some (Mem h) \<Rightarrow> h | _ \<Rightarrow> 0)"

definition u32_arg :: "Arg option \<Rightarrow> u32" where
  "u32_arg a = (case a of Some (U32 x) \<Rightarrow> x | _ \<Rightarrow> 0)"

text \<open>
  What a command does when the device gets to it. \<open>bc3hash_scan\<close> has seven arguments: the tables,
  header, start, count, target, hits and the most hits; \<open>bc3hash_batch\<close> the tables, input, count and
  output.
\<close>

fun exec :: "ClDriver \<Rightarrow> ClCmd \<Rightarrow> OpenClBackend \<Rightarrow> OpenClBackend" where
  "exec cd (Write_header h i) b = set_mem h (Bytes (ch_header (sl_host (oc_slots b ! i)))) b"
| "exec cd (Write_target h i) b = set_mem h (Limbs (ch_target (sl_host (oc_slots b ! i)))) b"
| "exec cd (Write_count h i) b = set_mem h (Words ((as_words (mem b h))[0 := ch_zero (sl_host (oc_slots b ! i))])) b"
| "exec cd (Run_kernel k args dims) b =
     (if args 6 \<noteq> None
      then set_mem (mem_arg (args 5))
             (Words (cd_scan cd k dims (as_limbs (mem b (mem_arg (args 0)))) (as_bytes (mem b (mem_arg (args 1))))
                (u32_arg (args 2)) (u32_arg (args 3)) (as_limbs (mem b (mem_arg (args 4)))) (as_words (mem b (mem_arg (args 5))))
                (u32_arg (args 6)))) b
      else set_mem (mem_arg (args 3))
             (Bytes (cd_batch cd k dims (as_limbs (mem b (mem_arg (args 0)))) (as_bytes (mem b (mem_arg (args 1))))
                (u32_arg (args 2)))) b)"
| "exec cd (Read_hits h i) b = cl_slot i (host (\<lambda>x. x\<lparr>ch_hits := as_words (mem b h)\<rparr>)) b"

definition pending :: "OpenClBackend \<Rightarrow> ClCmd list" where
  "pending b = wd_pending (oc_world b)"

definition run_some :: "ClDriver \<Rightarrow> nat \<Rightarrow> OpenClBackend \<Rightarrow> OpenClBackend" where
  "run_some cd n b =
     fold (exec cd) (take n (pending b)) (world (\<lambda>w. w\<lparr>wd_pending := drop n (wd_pending w)\<rparr>) b)"

definition run_all :: "ClDriver \<Rightarrow> OpenClBackend \<Rightarrow> OpenClBackend" where
  "run_all cd b = run_some cd (length (pending b)) b"

definition queue_cmd :: "ClCmd \<Rightarrow> OpenClBackend \<Rightarrow> OpenClBackend" where
  "queue_cmd c = world (\<lambda>w. w\<lparr>wd_pending := wd_pending w @ [c]\<rparr>)"

text \<open>Every call: its number, and the backend once the device has got as far as it has by then.\<close>

definition enter :: "ClDriver \<Rightarrow> OpenClBackend \<Rightarrow> nat \<times> OpenClBackend" where
  "enter cd b =
     (let n = wd_calls (oc_world b)
      in (n, run_some cd (cd_progress cd n) (world (\<lambda>w. w\<lparr>wd_calls := n + 1\<rparr>) b)))"

text \<open>\<open>check(what, call)\<close>, with what the call does when it succeeds.\<close>

definition cl_call :: "ClDriver \<Rightarrow> ClCall \<Rightarrow> string \<Rightarrow> (nat \<Rightarrow> OpenClBackend \<Rightarrow> OpenClBackend) \<Rightarrow> unit cl" where
  "cl_call cd f what good b =
     (let (n, b) = enter cd b
      in case check what (cd_code cd f n) of Inl e \<Rightarrow> (Inl e, b) | Inr _ \<Rightarrow> (Inr (), good n b))"

text \<open>
  A call that hands out a handle, with its code; one that takes a handle back. A new kernel has no
  arguments.
\<close>

definition made :: "ClKind \<Rightarrow> handle \<Rightarrow> OpenClBackend \<Rightarrow> OpenClBackend" where
  "made kind h = world (\<lambda>w. w\<lparr>wd_live := (kind, h) # wd_live w, wd_args := (wd_args w)(h := \<lambda>_. None)\<rparr>)"

definition create :: "ClDriver \<Rightarrow> ClCall \<Rightarrow> ClKind \<Rightarrow> OpenClBackend \<Rightarrow> int \<times> handle \<times> OpenClBackend" where
  "create cd f kind b =
     (let (n, b) = enter cd b
      in if cd_null cd n then (cd_code cd f n, 0, b) else (cd_code cd f n, n + 1, made kind (n + 1) b))"

definition release :: "ClDriver \<Rightarrow> ClCall \<Rightarrow> ClKind \<Rightarrow> handle \<Rightarrow> OpenClBackend \<Rightarrow> OpenClBackend" where
  "release cd f kind h b =
     world (\<lambda>w. w\<lparr>wd_live := remove1 (kind, h) (wd_live w),
                  wd_wrong := (wd_wrong w \<or> (kind, h) \<notin> set (wd_live w))\<rparr>) (snd (enter cd b))"

definition release_unless_null :: "ClDriver \<Rightarrow> ClCall \<Rightarrow> ClKind \<Rightarrow> handle \<Rightarrow> OpenClBackend \<Rightarrow> OpenClBackend" where
  "release_unless_null cd f kind h b = (if h = 0 then b else release cd f kind h b)"

subsection \<open>Finding a device\<close>

definition ids_of :: "ids_query \<Rightarrow> handle list" where
  "ids_of q =
     (case q of ((code, n), ids) \<Rightarrow>
        if code \<noteq> CL_SUCCESS \<or> n = 0 then []
        else case ids n of (code, hs) \<Rightarrow> if code \<noteq> CL_SUCCESS then [] else copy_at 0 (take n hs) (replicate n 0))"

definition devices_of :: "ClDriver \<Rightarrow> handle \<Rightarrow> nat \<Rightarrow> handle list" where
  "devices_of cd platform dtype = (case cd_load cd of Inl _ \<Rightarrow> [] | Inr _ \<Rightarrow> ids_of (cd_device_ids cd platform dtype))"

definition platforms :: "ClDriver \<Rightarrow> handle list" where
  "platforms cd = (case cd_load cd of Inl _ \<Rightarrow> [] | Inr _ \<Rightarrow> ids_of (cd_platform_ids cd))"

definition device_string :: "ClDriver \<Rightarrow> info_query \<Rightarrow> string option" where
  "device_string cd q =
     (case cd_load cd of
        Inl _ \<Rightarrow> None
      | Inr _ \<Rightarrow> (case info_string (cd_lossy cd) (fst q) (snd q) of Inr s \<Rightarrow> if s = '''' then None else Some s | Inl _ \<Rightarrow> None))"

definition device_name :: "ClDriver \<Rightarrow> handle \<Rightarrow> string option" where
  "device_name cd device = device_string cd (cd_device_name cd device)"

definition device_label :: "nat \<Rightarrow> nat \<Rightarrow> string" where
  "device_label px dx = ''OpenCL device '' @ dec px @ ''.'' @ dec dx"

definition cl_list_devices :: "ClDriver \<Rightarrow> GpuDevice list" where
  "cl_list_devices cd =
     concat (map (\<lambda>(px, platform).
       map (\<lambda>(dx, device).
           Opencl px dx (case device_name cd device of Some name \<Rightarrow> name | None \<Rightarrow> device_label px dx)
             (case device_string cd (cd_device_vendor cd device) of Some vendor \<Rightarrow> vendor | None \<Rightarrow> ''''))
         (enumerate 0 (devices_of cd platform CL_DEVICE_TYPE_GPU))) (enumerate 0 (platforms cd)))"

subsection \<open>Slots and programs\<close>

text \<open>The highest power of two that is at most \<open>n\<close>, by its exponent.\<close>

fun ilog2 :: "nat \<Rightarrow> nat" where
  "ilog2 n = (if n \<le> 1 then 0 else Suc (ilog2 (n div 2)))"

declare ilog2.simps [simp del]

definition clamp_local_size :: "nat \<Rightarrow> nat" where
  "clamp_local_size device_max = (let n = min device_max LOCAL_SIZE in if n \<le> 1 then 1 else 2 ^ ilog2 n)"

definition create_buffer :: "ClDriver \<Rightarrow> string \<Rightarrow> handle cl" where
  "create_buffer cd what b =
     (let (code, h, b) = create cd CreateBuffer K_Mem b;
          b = (if h = 0 then b else set_mem h (cd_fresh cd h) b)
      in case check (''clCreateBuffer('' @ what @ '')'') code of
           Inl e \<Rightarrow> (Inl e, b)
         | Inr _ \<Rightarrow> if h = 0 then (Inl (''clCreateBuffer('' @ what @ '') returned null''), b) else (Inr h, b))"

definition empty_slot :: ClSlot where
  "empty_slot = \<lparr>sl_header = 0, sl_target = 0, sl_hits = 0,
     sl_host = \<lparr>ch_header = replicate 76 0, ch_target = replicate 4 0, ch_zero = 0, ch_hits = replicate (1 + MAX_HITS) 0\<rparr>,
     sl_kernel_done = 0, sl_read_done = 0, sl_header_of = None, sl_target_of = None\<rparr>"

definition sl_forget :: "ClSlot \<Rightarrow> ClSlot" where
  "sl_forget s = s\<lparr>sl_header_of := None, sl_target_of := None\<rparr>"

text \<open>\<open>release_events\<close> of slot \<open>i\<close>, and the \<open>Drop\<close> of a slot.\<close>

definition release_events :: "ClDriver \<Rightarrow> nat \<Rightarrow> OpenClBackend \<Rightarrow> OpenClBackend" where
  "release_events cd i b =
     (let b = cl_slot i (\<lambda>s. s\<lparr>sl_kernel_done := 0\<rparr>)
                (release_unless_null cd ReleaseEvent K_Event (sl_kernel_done (oc_slots b ! i)) b)
      in cl_slot i (\<lambda>s. s\<lparr>sl_read_done := 0\<rparr>)
           (release_unless_null cd ReleaseEvent K_Event (sl_read_done (oc_slots b ! i)) b))"

definition drop_slot :: "ClDriver \<Rightarrow> ClSlot \<Rightarrow> OpenClBackend \<Rightarrow> OpenClBackend" where
  "drop_slot cd s b =
     fold (\<lambda>(f, kind, h). release_unless_null cd f kind h)
       [(ReleaseEvent, K_Event, sl_kernel_done s), (ReleaseEvent, K_Event, sl_read_done s),
        (ReleaseMemObject, K_Mem, sl_header s), (ReleaseMemObject, K_Mem, sl_target s), (ReleaseMemObject, K_Mem, sl_hits s)] b"

text \<open>A buffer of a slot that is being made; the slot is dropped if a later one fails.\<close>

definition fill_buffer :: "ClDriver \<Rightarrow> string \<Rightarrow> (handle \<Rightarrow> ClSlot \<Rightarrow> ClSlot) \<Rightarrow> (ClSlot \<times> OpenClBackend, unit) op" where
  "fill_buffer cd what put = (\<lambda>(s, b).
     case create_buffer cd what b of (Inl e, b) \<Rightarrow> (Inl e, s, b) | (Inr h, b) \<Rightarrow> (Inr (), put h s, b))"

definition ClSlot_new :: "ClDriver \<Rightarrow> ClSlot cl" where
  "ClSlot_new cd =
     owning (drop_slot cd)
       (and_then (fill_buffer cd ''header'' (\<lambda>h s. s\<lparr>sl_header := h\<rparr>)) (\<lambda>_.
        and_then (fill_buffer cd ''target'' (\<lambda>h s. s\<lparr>sl_target := h\<rparr>)) (\<lambda>_.
        fill_buffer cd ''hits'' (\<lambda>h s. s\<lparr>sl_hits := h\<rparr>)))) empty_slot"

definition drop_program :: "ClDriver \<Rightarrow> Bc3Program \<Rightarrow> OpenClBackend \<Rightarrow> OpenClBackend" where
  "drop_program cd k b =
     fold (\<lambda>(f, kind, h). release_unless_null cd f kind h)
       [(ReleaseMemObject, K_Mem, bp_tables k), (ReleaseKernel, K_Kernel, bp_batch k), (ReleaseKernel, K_Kernel, bp_scan k),
        (ReleaseProgram, K_Program, bp_program k)] b"

text \<open>\<open>self.bc3 = None\<close>.\<close>

definition drop_bc3 :: "ClDriver \<Rightarrow> OpenClBackend \<Rightarrow> OpenClBackend" where
  "drop_bc3 cd b = (case oc_bc3 b of None \<Rightarrow> b | Some k \<Rightarrow> drop_program cd k (b\<lparr>oc_bc3 := None\<rparr>))"

subsection \<open>Opening and dropping a backend\<close>

text \<open>Without either entry point the \<open>unwrap\<close> panics.\<close>

definition queue_entry :: "Cl \<Rightarrow> ClCall option" where
  "queue_entry lib =
     (if cl_create_command_queue lib then Some CreateCommandQueue
      else if cl_create_command_queue_with_properties lib then Some CreateCommandQueueWithProperties
      else None)"

definition create_queue :: "ClDriver \<Rightarrow> Cl \<Rightarrow> handle cl" where
  "create_queue cd lib b =
     (case queue_entry lib of
        None \<Rightarrow> (Inl ''called Option::unwrap() on a None value'', b)
      | Some f \<Rightarrow>
          let (code, q, b) = create cd f K_Queue b
          in if code \<noteq> CL_SUCCESS \<or> q = 0
             then (Inl (''clCreateCommandQueue: '' @ err_str code), release_unless_null cd ReleaseCommandQueue K_Queue q b)
             else (Inr q, b))"

definition open_context :: "ClDriver \<Rightarrow> unit cl" where
  "open_context cd b =
     (let (code, h, b) = create cd CreateContext K_Context b;
          b = b\<lparr>oc_context := h\<rparr>
      in case check ''clCreateContext'' code of
           Inl e \<Rightarrow> (Inl e, b)
         | Inr _ \<Rightarrow> if h = 0 then (Inl ''clCreateContext returned null'', b) else (Inr (), b))"

text \<open>With profiling, and without where the runtime refuses it.\<close>

definition open_queue :: "ClDriver \<Rightarrow> Cl \<Rightarrow> unit cl" where
  "open_queue cd lib b =
     (case create_queue cd lib b of
        (Inr q, b) \<Rightarrow> (Inr (), b\<lparr>oc_queue := q\<rparr>)
      | (Inl _, b) \<Rightarrow>
          (case create_queue cd lib b of (Inr q, b) \<Rightarrow> (Inr (), b\<lparr>oc_queue := q\<rparr>) | (Inl e, b) \<Rightarrow> (Inl e, b)))"

definition open_slots :: "ClDriver \<Rightarrow> unit cl" where
  "open_slots cd =
     for_each [0..<QUEUE_DEPTH]
       (\<lambda>_. and_then (ClSlot_new cd) (\<lambda>s. change (\<lambda>b. b\<lparr>oc_slots := oc_slots b @ [s]\<rparr>)))"

definition drop_slots :: "ClDriver \<Rightarrow> OpenClBackend \<Rightarrow> OpenClBackend" where
  "drop_slots cd b = (let ss = oc_slots b in fold (drop_slot cd) ss (b\<lparr>oc_slots := []\<rparr>))"

definition cl_finish :: "ClDriver \<Rightarrow> OpenClBackend \<Rightarrow> OpenClBackend" where
  "cl_finish cd b = (let (n, b) = enter cd b in if cd_code cd Finish n = CL_SUCCESS then run_all cd b else b)"

text \<open>The \<open>Drop\<close> of a backend, however much of it there is.\<close>

definition drop_backend :: "ClDriver \<Rightarrow> OpenClBackend \<Rightarrow> ClWorld" where
  "drop_backend cd b =
     (let b = (if oc_queue b = 0 then b else cl_finish cd b);
          b = drop_slots cd b;
          b = drop_bc3 cd b;
          b = release_unless_null cd ReleaseCommandQueue K_Queue (oc_queue b) b;
          b = release_unless_null cd ReleaseContext K_Context (oc_context b) b
      in oc_world b)"

definition new_typed :: "ClDriver \<Rightarrow> nat \<Rightarrow> nat \<Rightarrow> nat \<Rightarrow> ClWorld \<Rightarrow> (string + OpenClBackend) \<times> ClWorld" where
  "new_typed cd px dx dtype w =
     (case cd_load cd of
        Inl e \<Rightarrow> (Inl e, w)
      | Inr lib \<Rightarrow>
          (case list_get (platforms cd) px of
             None \<Rightarrow> (Inl (''OpenCL platform '' @ dec px @ '' not found''), w)
           | Some platform \<Rightarrow>
               (case list_get (devices_of cd platform dtype) dx of
                  None \<Rightarrow> (Inl (device_label px dx @ '' not found''), w)
                | Some device \<Rightarrow>
                    let me = \<lparr>oc_context = 0, oc_queue = 0,
                              oc_name = (case device_name cd device of Some name \<Rightarrow> name | None \<Rightarrow> device_label px dx),
                              oc_slots = [], oc_queued = [], oc_next_slot = 0, oc_device = device, oc_bc3 = None, oc_world = w\<rparr>
                    in case and_then (open_context cd) (\<lambda>_. and_then (open_queue cd lib) (\<lambda>_. open_slots cd)) me of
                         (Inl e, b) \<Rightarrow> (Inl e, drop_backend cd b)
                       | (Inr _, b) \<Rightarrow> (Inr b, oc_world b))))"

definition OpenClBackend_new :: "ClDriver \<Rightarrow> nat \<Rightarrow> nat \<Rightarrow> ClWorld \<Rightarrow> (string + OpenClBackend) \<times> ClWorld" where
  "OpenClBackend_new cd px dx = new_typed cd px dx CL_DEVICE_TYPE_GPU"

subsection \<open>Launches\<close>

definition write_async :: "ClDriver \<Rightarrow> string \<Rightarrow> ClCmd \<Rightarrow> unit cl" where
  "write_async cd what c = cl_call cd EnqueueWriteBuffer (''write '' @ what) (\<lambda>_. queue_cmd c)"

text \<open>\<open>device_time\<close>: the two queries of an event, the second only if the first succeeds.\<close>

definition profile :: "ClDriver \<Rightarrow> OpenClBackend \<Rightarrow> u64 option \<times> OpenClBackend" where
  "profile cd b =
     (let (n, b) = enter cd b
      in (if cd_code cd GetEventProfilingInfo n = CL_SUCCESS then Some (cd_ns cd n) else None, b))"

definition cl_device_time :: "ClDriver \<Rightarrow> OpenClBackend \<Rightarrow> duration option \<times> OpenClBackend" where
  "cl_device_time cd b =
     (case profile cd b of
        (None, b) \<Rightarrow> (None, b)
      | (Some start, b) \<Rightarrow>
          (case profile cd b of
             (None, b) \<Rightarrow> (None, b)
           | (Some fin, b) \<Rightarrow> (if 0 < start \<and> start \<le> fin then Some (unat (fin - start)) else None, b)))"

definition set_args :: "ClDriver \<Rightarrow> handle \<Rightarrow> Arg list \<Rightarrow> unit cl" where
  "set_args cd k args =
     for_each (enumerate 0 args) (\<lambda>(i, arg).
       cl_call cd SetKernelArg (''set arg '' @ dec i)
         (\<lambda>_. world (\<lambda>w. w\<lparr>wd_args := (wd_args w)(k := (wd_args w k)(i := Some arg))\<rparr>)))"

text \<open>Work items in all, and in a group.\<close>

definition launch_size :: "u32 \<Rightarrow> nat \<Rightarrow> nat \<times> nat" where
  "launch_size items local = (div_ceil (unat items) local * local, local)"

definition cl_launch :: "ClDriver \<Rightarrow> handle \<Rightarrow> u32 \<Rightarrow> nat \<Rightarrow> (nat \<Rightarrow> OpenClBackend \<Rightarrow> OpenClBackend) \<Rightarrow> unit cl" where
  "cl_launch cd k items local event =
     cl_call cd EnqueueNDRangeKernel ''clEnqueueNDRangeKernel''
       (\<lambda>n b. event n (queue_cmd (Run_kernel k (wd_args (oc_world b) k) (launch_size items local)) b))"

text \<open>The header and the target into slot \<open>i\<close>, and the kernel with its arguments.\<close>

definition put_header :: "ClDriver \<Rightarrow> nat \<Rightarrow> bytes \<Rightarrow> unit cl" where
  "put_header cd i h b =
     (if sl_header_of (oc_slots b ! i) = Some h then (Inr (), b)
      else and_then (change (cl_slot i (\<lambda>s. host (\<lambda>x. x\<lparr>ch_header := h\<rparr>) (s\<lparr>sl_header_of := None\<rparr>)))) (\<lambda>_.
           and_then (write_async cd ''header'' (Write_header (sl_header (oc_slots b ! i)) i)) (\<lambda>_.
           change (cl_slot i (\<lambda>s. s\<lparr>sl_header_of := Some h\<rparr>)))) b)"

definition put_target :: "ClDriver \<Rightarrow> nat \<Rightarrow> u64 list \<Rightarrow> unit cl" where
  "put_target cd i limbs b =
     (if sl_target_of (oc_slots b ! i) = Some limbs then (Inr (), b)
      else and_then (change (cl_slot i (\<lambda>s. host (\<lambda>x. x\<lparr>ch_target := limbs\<rparr>) (s\<lparr>sl_target_of := None\<rparr>)))) (\<lambda>_.
           and_then (write_async cd ''target'' (Write_target (sl_target (oc_slots b ! i)) i)) (\<lambda>_.
           change (cl_slot i (\<lambda>s. s\<lparr>sl_target_of := Some limbs\<rparr>)))) b)"

definition bc3_inputs :: "ClDriver \<Rightarrow> nat \<Rightarrow> Launch \<Rightarrow> (handle \<times> nat \<times> Arg list) cl" where
  "bc3_inputs cd i l b =
     and_then (ok_or (oc_bc3 b) ''BC3Hash program not built'') (\<lambda>k.
     and_then (put_header cd i (la_header76 l)) (\<lambda>_.
     and_then (put_target cd i (target_limbs (la_target l))) (\<lambda>_.
     give (bp_scan k, bp_local k,
           [Mem (bp_tables k), Mem (sl_header (oc_slots b ! i)), U32 (la_start l), U32 (la_count l),
            Mem (sl_target (oc_slots b ! i)), Mem (sl_hits (oc_slots b ! i)), U32 (word_of_nat MAX_HITS)])))) b"

text \<open>The kernel's event, and the readback with its own.\<close>

definition queue_run :: "ClDriver \<Rightarrow> nat \<Rightarrow> handle \<Rightarrow> u32 \<Rightarrow> nat \<Rightarrow> unit cl" where
  "queue_run cd i k count local =
     cl_launch cd k count local (\<lambda>n b. made K_Event (n + 1) (cl_slot i (\<lambda>s. s\<lparr>sl_kernel_done := n + 1\<rparr>) b))"

definition queue_read :: "ClDriver \<Rightarrow> nat \<Rightarrow> unit cl" where
  "queue_read cd i =
     cl_call cd EnqueueReadBuffer ''read hits''
       (\<lambda>n b. made K_Event (n + 1) (cl_slot i (\<lambda>s. s\<lparr>sl_read_done := n + 1\<rparr>)
                (queue_cmd (Read_hits (sl_hits (oc_slots b ! i)) i) b)))"

definition queue_launch :: "ClDriver \<Rightarrow> nat \<Rightarrow> Launch \<Rightarrow> unit cl" where
  "queue_launch cd i l b =
     and_then (case la_algo l of Bc3Hash \<Rightarrow> bc3_inputs cd i l | algo \<Rightarrow> refuse (''no kernel for '' @ algo_name algo)) (\<lambda>(k, local, args).
     and_then (change (cl_slot i (host (\<lambda>x. x\<lparr>ch_zero := 0\<rparr>)))) (\<lambda>_.
     and_then (write_async cd ''hit count'' (Write_count (sl_hits (oc_slots b ! i)) i)) (\<lambda>_.
     and_then (set_args cd k args) (\<lambda>_.
     and_then (queue_run cd i k (la_count l) local) (\<lambda>_.
     and_then (queue_read cd i) (\<lambda>_.
     cl_call cd Flush ''clFlush'' (\<lambda>_. id))))))) b"

definition cl_enqueue :: "ClDriver \<Rightarrow> OpenClBackend \<Rightarrow> Launch \<Rightarrow> (string + unit) \<times> OpenClBackend" where
  "cl_enqueue cd b l =
     (if la_count l = 0 then (Inl ''a launch of 0 nonces'', b)
      else if QUEUE_DEPTH \<le> length (oc_queued b) then (Inl ''too many launches in flight'', b)
      else let i = oc_next_slot b
           in case queue_launch cd i l b of
                (Inl e, b) \<Rightarrow> (Inl e, cl_slot i sl_forget (release_events cd i b))
              | (Inr _, b) \<Rightarrow> (Inr (), b\<lparr>oc_queued := oc_queued b @ [i], oc_next_slot := (i + 1) mod QUEUE_DEPTH\<rparr>))"

text \<open>Waiting for the readback of slot \<open>i\<close>: everything queued up to it has run when the wait succeeds.\<close>

fun until_read :: "nat \<Rightarrow> ClCmd list \<Rightarrow> nat" where
  "until_read i [] = 0"
| "until_read i (c # cs) = (case c of Read_hits _ j \<Rightarrow> if j = i then 1 else Suc (until_read i cs) | _ \<Rightarrow> Suc (until_read i cs))"

definition wait_read :: "ClDriver \<Rightarrow> nat \<Rightarrow> OpenClBackend \<Rightarrow> int \<times> OpenClBackend" where
  "wait_read cd i b =
     (let (n, b) = enter cd b; code = cd_code cd WaitForEvents n
      in (code, if code = CL_SUCCESS \<and> (\<exists>h. Read_hits h i \<in> set (pending b))
                then run_some cd (until_read i (pending b)) b else b))"

definition cl_collect :: "ClDriver \<Rightarrow> OpenClBackend \<Rightarrow> (string + Scan) \<times> OpenClBackend" where
  "cl_collect cd b =
     (case oc_queued b of
        [] \<Rightarrow> (Inl ''no launch in flight'', b)
      | i # rest \<Rightarrow>
          let (waited, b) = wait_read cd i (b\<lparr>oc_queued := rest\<rparr>);
              (busy, b) = (if waited = CL_SUCCESS then cl_device_time cd b else (None, b));
              b = release_events cd i b
          in case check ''clWaitForEvents'' waited of
               Inl e \<Rightarrow> (Inl e, b)
             | Inr _ \<Rightarrow> (Inr (scan_of (ch_hits (sl_host (oc_slots b ! i))) busy), b))"

definition cl_abandon :: "ClDriver \<Rightarrow> OpenClBackend \<Rightarrow> OpenClBackend" where
  "cl_abandon cd b =
     (let b = cl_finish cd b;
          b = fold (\<lambda>i b. cl_slot i sl_forget (release_events cd i b)) [0..<length (oc_slots b)] b
      in b\<lparr>oc_queued := []\<rparr>)"

subsection \<open>The program and its tables\<close>

text \<open>
  \<open>host_tables\<close>: the cache holds the window and what its weak reference still leads to, if anything.
\<close>

definition host_tables ::
  "(u32 \<Rightarrow> string + u64 list) \<Rightarrow> (u32 \<times> u64 list option) option \<Rightarrow> u32 \<Rightarrow>
   (string + u64 list) \<times> (u32 \<times> u64 list option) option" where
  "host_tables gpu_tables cache window =
     (case cache of
        Some (w, Some tables) \<Rightarrow>
          if w = window then (Inr tables, cache)
          else (case gpu_tables window of Inl e \<Rightarrow> (Inl e, None) | Inr t \<Rightarrow> (Inr t, Some (window, Some t)))
      | _ \<Rightarrow> (case gpu_tables window of Inl e \<Rightarrow> (Inl e, None) | Inr t \<Rightarrow> (Inr t, Some (window, Some t))))"

definition write_blocking :: "ClDriver \<Rightarrow> string \<Rightarrow> handle \<Rightarrow> ClBuf \<Rightarrow> unit cl" where
  "write_blocking cd what h x =
     cl_call cd EnqueueWriteBuffer (''write '' @ what) (\<lambda>_ b. set_mem h x (run_all cd b))"

text \<open>The steps of \<open>build_bc3\<close>, on the program as far as it has got.\<close>

type_synonym 'a making = "(Bc3Program \<times> OpenClBackend, 'a) op"

definition on_backend :: "'a cl \<Rightarrow> 'a making" where
  "on_backend m = (\<lambda>(k, b). case m b of (r, b) \<Rightarrow> (r, k, b))"

definition make_program :: "ClDriver \<Rightarrow> unit making" where
  "make_program cd = (\<lambda>(k, b).
     let (code, h, b) = create cd CreateProgramWithSource K_Program b; k = k\<lparr>bp_program := h\<rparr>
     in if code \<noteq> CL_SUCCESS \<or> h = 0
        then (Inl (''clCreateProgramWithSource (BC3Hash): '' @ err_str code), k, b) else (Inr (), k, b))"

definition compile_program :: "ClDriver \<Rightarrow> u32 \<Rightarrow> unit making" where
  "compile_program cd window = (\<lambda>(k, b).
     let (n, b) = enter cd b; code = cd_code cd BuildProgram n
     in if code \<noteq> CL_SUCCESS
        then let log = (case info_string (cd_lossy cd) (fst (cd_build_log cd n)) (snd (cd_build_log cd n)) of
                          Inr s \<Rightarrow> s | Inl e \<Rightarrow> ''(build log unavailable: '' @ e @ '')'')
             in (Inl (''building bc3hash.cl (window '' @ dec (unat window) @ '') failed: '' @ err_str code @ [CHR 0x0A] @ log), k, b)
        else (Inr (), k, b))"

definition make_kernel :: "ClDriver \<Rightarrow> string \<Rightarrow> (handle \<Rightarrow> Bc3Program \<Rightarrow> Bc3Program) \<Rightarrow> unit making" where
  "make_kernel cd name put = (\<lambda>(k, b).
     let (code, h, b) = create cd CreateKernel K_Kernel b; k = put h k
     in if code \<noteq> CL_SUCCESS \<or> h = 0 then (Inl (''clCreateKernel '' @ name @ '': '' @ err_str code), k, b) else (Inr (), k, b))"

definition ask_local :: "ClDriver \<Rightarrow> unit making" where
  "ask_local cd = (\<lambda>(k, b).
     let (n, b) = enter cd b
     in (Inr (), if cd_code cd GetKernelWorkGroupInfo n = CL_SUCCESS
                 then k\<lparr>bp_local := clamp_local_size (cd_group_size cd n)\<rparr> else k, b))"

definition make_tables :: "ClDriver \<Rightarrow> unit making" where
  "make_tables cd = (\<lambda>(k, b).
     case create_buffer cd ''tables'' b of (Inl e, b) \<Rightarrow> (Inl e, k, b) | (Inr h, b) \<Rightarrow> (Inr (), k\<lparr>bp_tables := h\<rparr>, b))"

definition fill_tables :: "ClDriver \<Rightarrow> u64 list \<Rightarrow> unit making" where
  "fill_tables cd tables = (\<lambda>(k, b). on_backend (write_blocking cd ''tables'' (bp_tables k) (Limbs tables)) (k, b))"

definition build_bc3 :: "ClDriver \<Rightarrow> u32 \<Rightarrow> Bc3Program cl" where
  "build_bc3 cd window b =
     (if \<not> (2 \<le> window \<and> window \<le> 20) then (Inl (''window '' @ dec (unat window) @ '' is for CUDA cards only''), b)
      else owning (drop_program cd)
        (and_then (make_program cd) (\<lambda>_.
         and_then (compile_program cd window) (\<lambda>_.
         and_then (make_kernel cd ''bc3hash_scan'' (\<lambda>h k. k\<lparr>bp_scan := h\<rparr>)) (\<lambda>_.
         and_then (make_kernel cd ''bc3hash_batch'' (\<lambda>h k. k\<lparr>bp_batch := h\<rparr>)) (\<lambda>_.
         and_then (ask_local cd) (\<lambda>_.
         and_then (\<lambda>s. (fst (host_tables (cd_gpu_tables cd) (cd_cache cd (wd_calls (oc_world (snd s)))) window), s)) (\<lambda>tables.
         and_then (make_tables cd) (\<lambda>_.
         fill_tables cd tables))))))))
        \<lparr>bp_window = window, bp_program = 0, bp_scan = 0, bp_batch = 0, bp_tables = 0, bp_local = LOCAL_SIZE\<rparr> b)"

subsection \<open>The batch entry point\<close>

text \<open>\<open>with_temp\<close>: a buffer that is released on every way out.\<close>

definition with_temp :: "ClDriver \<Rightarrow> string \<Rightarrow> (handle \<Rightarrow> 'a cl) \<Rightarrow> 'a cl" where
  "with_temp cd what body b =
     (case create_buffer cd what b of
        (Inl e, b) \<Rightarrow> (Inl e, b)
      | (Inr h, b) \<Rightarrow> (case body h b of (r, b) \<Rightarrow> (r, release_unless_null cd ReleaseMemObject K_Mem h b)))"

definition cl_bc3_batch :: "ClDriver \<Rightarrow> OpenClBackend \<Rightarrow> bytes list \<Rightarrow> (string + bytes list) \<times> OpenClBackend" where
  "cl_bc3_batch cd b headers =
     and_then (ok_or (oc_bc3 b) ''BC3Hash program not built'') (\<lambda>k.
       let count = word_of_nat (length headers) :: u32
       in with_temp cd ''headers'' (\<lambda>d_in. with_temp cd ''digests'' (\<lambda>d_out.
            and_then (write_blocking cd ''headers'' d_in (Bytes (concat headers))) (\<lambda>_.
            and_then (set_args cd (bp_batch k) [Mem (bp_tables k), Mem d_in, U32 count, Mem d_out]) (\<lambda>_.
            and_then (cl_launch cd (bp_batch k) count (bp_local k) (\<lambda>_. id)) (\<lambda>_.
            and_then (cl_call cd EnqueueReadBuffer ''read digests'' (\<lambda>_. run_all cd)) (\<lambda>_.
            and_then (\<lambda>b. (Inr (as_bytes (mem b d_out)), b)) (\<lambda>out.
            and_then (cl_call cd Finish ''clFinish'' (\<lambda>_. run_all cd)) (\<lambda>_.
            give (map (\<lambda>j. take 32 (drop (32 * j) out)) [0..<length headers])))))))))) b"

subsection \<open>The methods of the trait\<close>

definition cl_with ::
  "ClDriver \<Rightarrow> (OpenClBackend \<Rightarrow> u32 \<Rightarrow> (string + duration) \<times> OpenClBackend) \<Rightarrow> OpenClBackend MiningBackend" where
  "cl_with cd prepare =
     \<lparr>be_name = \<lambda>b. ''OpenCL: '' @ oc_name b,
      be_has_kernel = \<lambda>b algo. kernel_supports True algo,
      be_supports = \<lambda>b algo. (case algo of Bc3Hash \<Rightarrow> oc_bc3 b \<noteq> None | Sha256d \<Rightarrow> False | Sha3t \<Rightarrow> False),
      be_prepare_bc3hash = prepare,
      be_bc3hash_window = \<lambda>b. map_option bp_window (oc_bc3 b),
      be_memory = \<lambda>b. None,
      be_compile_ahead = \<lambda>b window. False,
      be_compiles_at_load = \<lambda>b. True,
      be_launch_granule = \<lambda>b algo. 1,
      be_enqueue = cl_enqueue cd,
      be_collect = cl_collect cd,
      be_in_flight = \<lambda>b. length (oc_queued b),
      be_abandon = cl_abandon cd\<rparr>"

definition cl_self_test :: "ClDriver \<Rightarrow> OpenClBackend \<Rightarrow> ((self_test_error + unit) \<times> OpenClBackend) option" where
  "cl_self_test cd b =
     drawn_self_test (cl_with cd (\<lambda>b w. (Inl '''', b))) (cl_bc3_batch cd) (cd_pow cd) QUEUE_DEPTH (cd_vectors cd)
       (cd_nanos cd (wd_calls (oc_world b))) b"

definition cl_prepare :: "ClDriver \<Rightarrow> OpenClBackend \<Rightarrow> u32 \<Rightarrow> (string + duration) \<times> OpenClBackend" where
  "cl_prepare cd b window =
     (let t0 = cd_clock cd (wd_calls (oc_world b));
          b = cl_abandon cd b;
          b = drop_bc3 cd b
      in case build_bc3 cd window b of
           (Inl e, b) \<Rightarrow> (Inl e, b)
         | (Inr k, b) \<Rightarrow>
             (case cl_self_test cd (b\<lparr>oc_bc3 := Some k\<rparr>) of
                Some (Inl e, b) \<Rightarrow> (Inl (''self-test failed: '' @ cd_differs cd e), drop_bc3 cd b)
              | Some (Inr _, b) \<Rightarrow> (Inr (duration_since (cd_clock cd (wd_calls (oc_world b))) t0), b)
              | None \<Rightarrow> (Inl '''', b)))"

definition opencl_backend :: "ClDriver \<Rightarrow> OpenClBackend MiningBackend" where
  "opencl_backend cd = cl_with cd (cl_prepare cd)"

end
