(* ===== verification/Opencl_Handles.thy ===== *)
theory Opencl_Handles
  imports Opencl "HOL-Library.Multiset"
begin

text \<open>
  Who owns the handles of the OpenCL runtime: whatever fails, a backend owns exactly the handles it
  has been given and not released, and when it is gone none of them is left.
\<close>

section \<open>Definitions\<close>

type_synonym handles = "(ClKind \<times> handle) multiset"

definition held :: "ClKind \<Rightarrow> handle \<Rightarrow> handles" where
  "held kind h = (if h = 0 then {#} else {#(kind, h)#})"

definition slot_handles :: "ClSlot \<Rightarrow> handles" where
  "slot_handles s = held K_Mem (sl_header s) + held K_Mem (sl_target s) + held K_Mem (sl_hits s) +
     held K_Event (sl_kernel_done s) + held K_Event (sl_read_done s)"

definition program_handles :: "Bc3Program \<Rightarrow> handles" where
  "program_handles k = held K_Program (bp_program k) + held K_Kernel (bp_scan k) + held K_Kernel (bp_batch k) +
     held K_Mem (bp_tables k)"

definition bc3_handles :: "OpenClBackend \<Rightarrow> handles" where
  "bc3_handles b = (case oc_bc3 b of None \<Rightarrow> {#} | Some k \<Rightarrow> program_handles k)"

definition slots_handles :: "ClSlot list \<Rightarrow> handles" where
  "slots_handles ss = sum_list (map slot_handles ss)"

definition owned :: "OpenClBackend \<Rightarrow> handles" where
  "owned b = held K_Context (oc_context b) + held K_Queue (oc_queue b) + slots_handles (oc_slots b) + bc3_handles b"

text \<open>Every handle out there is the backend's or one of \<open>L\<close>, the others', and none was released that was not.\<close>

definition accounted :: "handles \<Rightarrow> OpenClBackend \<Rightarrow> bool" where
  "accounted L b \<longleftrightarrow> mset (wd_live (oc_world b)) = L + owned b \<and> \<not> wd_wrong (oc_world b)"

text \<open>The runtime gives no buffer with an error, as its specification has it.\<close>

definition null_on_error :: "ClDriver \<Rightarrow> bool" where
  "null_on_error cd \<longleftrightarrow> (\<forall>n. cd_code cd CreateBuffer n \<noteq> CL_SUCCESS \<longrightarrow> cd_null cd n)"

definition slot_book :: "ClSlot \<Rightarrow> handle \<times> handle \<times> handle \<times> handle \<times> handle" where
  "slot_book s = (sl_header s, sl_target s, sl_hits s, sl_kernel_done s, sl_read_done s)"

text \<open>What the device does not touch.\<close>

definition book ::
  "OpenClBackend \<Rightarrow> (handle \<times> handle \<times> (handle \<times> handle \<times> handle \<times> handle \<times> handle) list) \<times> nat list \<times> nat \<times> Bc3Program option \<times>
     (ClKind \<times> handle) list \<times> bool" where
  "book b = ((oc_context b, oc_queue b, map slot_book (oc_slots b)), oc_queued b, oc_next_slot b, oc_bc3 b,
     wd_live (oc_world b), wd_wrong (oc_world b))"

section \<open>Lemmas\<close>

subsection \<open>What calls leave alone\<close>

lemma world_fields [simp]:
  "oc_context (world f b) = oc_context b" "oc_queue (world f b) = oc_queue b" "oc_slots (world f b) = oc_slots b"
  "oc_queued (world f b) = oc_queued b" "oc_next_slot (world f b) = oc_next_slot b" "oc_bc3 (world f b) = oc_bc3 b"
  "oc_world (world f b) = f (oc_world b)"
  by (simp_all add: world_def)

lemma set_mem_fields [simp]:
  "oc_slots (set_mem h x b) = oc_slots b" "oc_queued (set_mem h x b) = oc_queued b" "oc_next_slot (set_mem h x b) = oc_next_slot b"
  "oc_bc3 (set_mem h x b) = oc_bc3 b" "oc_context (set_mem h x b) = oc_context b" "oc_queue (set_mem h x b) = oc_queue b"
  "wd_live (oc_world (set_mem h x b)) = wd_live (oc_world b)" "wd_wrong (oc_world (set_mem h x b)) = wd_wrong (oc_world b)"
  "pending (set_mem h x b) = pending b"
  by (simp_all add: set_mem_def pending_def)

lemma cl_slot_fields [simp]:
  "oc_context (cl_slot i f b) = oc_context b" "oc_queue (cl_slot i f b) = oc_queue b" "oc_queued (cl_slot i f b) = oc_queued b"
  "oc_next_slot (cl_slot i f b) = oc_next_slot b" "oc_bc3 (cl_slot i f b) = oc_bc3 b" "oc_world (cl_slot i f b) = oc_world b"
  "oc_slots (cl_slot i f b) = (oc_slots b)[i := f (oc_slots b ! i)]" "pending (cl_slot i f b) = pending b"
  by (simp_all add: cl_slot_def pending_def)

lemma map_update_id: "g (f (xs ! i)) = g (xs ! i) \<Longrightarrow> map g (xs[i := f (xs ! i)]) = map g xs"
  by (metis list_update_id map_update)

lemma slot_book_host [simp]: "slot_book (host f s) = slot_book s"
  by (simp add: slot_book_def host_def)

lemma book_world:
  "wd_live (f (oc_world b)) = wd_live (oc_world b) \<Longrightarrow> wd_wrong (f (oc_world b)) = wd_wrong (oc_world b) \<Longrightarrow> book (world f b) = book b"
  by (simp add: book_def)

lemma book_set_mem [simp]: "book (set_mem h x b) = book b"
  by (simp add: book_def)

lemma book_cl_slot: "slot_book (f (oc_slots b ! i)) = slot_book (oc_slots b ! i) \<Longrightarrow> book (cl_slot i f b) = book b"
  by (simp add: book_def map_update_id)

lemma book_queue_cmd [simp]: "book (queue_cmd c b) = book b"
  by (simp add: queue_cmd_def book_world)

lemma book_exec [simp]: "book (exec cd c b) = book b"
  by (cases c) (simp_all add: book_cl_slot)

lemma book_run_some [simp]: "book (run_some cd n b) = book b"
proof -
  have "book (fold (exec cd) cs c) = book c" for cs c by (induction cs arbitrary: c) simp_all
  then show ?thesis by (simp add: run_some_def book_world)
qed

lemma book_run_all [simp]: "book (run_all cd b) = book b"
  by (simp add: run_all_def)

lemma book_enter [simp]: "book (snd (enter cd b)) = book b"
  by (simp add: enter_def book_world Let_def)

lemma enter_book: "enter cd b = (n, c) \<Longrightarrow> book c = book b"
  using book_enter [of cd b] by simp

lemma keeps_cl_call: "(\<And>n b. I b \<Longrightarrow> I (good n b)) \<Longrightarrow> (\<And>b. I b \<Longrightarrow> I (snd (enter cd b))) \<Longrightarrow> keeps I (cl_call cd f what good)"
  by (auto simp: keeps_def cl_call_def split: prod.splits sum.splits) (metis snd_conv)+

lemma steady_cl_call: "(\<And>n b. book (good n b) = book b) \<Longrightarrow> keeps (\<lambda>b. book b = q) (cl_call cd f what good)"
  by (rule keeps_cl_call) simp_all

lemma steady_write_async [keeps_intros]: "keeps (\<lambda>b. book b = q) (write_async cd what c)"
  unfolding write_async_def by (rule steady_cl_call) simp

lemma steady_set_args [keeps_intros]: "keeps (\<lambda>b. book b = q) (set_args cd k args)"
  unfolding set_args_def by (auto intro!: keeps_intros steady_cl_call book_world split: prod.split)

lemma steady_write_blocking [keeps_intros]: "keeps (\<lambda>b. book b = q) (write_blocking cd what h x)"
  unfolding write_blocking_def by (rule steady_cl_call) simp

lemma steady_slot_change:
  "(\<And>s. slot_book (f s) = slot_book s) \<Longrightarrow> keeps (\<lambda>b. book b = q) (change (cl_slot i f))"
  by (rule keeps_change) (simp add: book_cl_slot)

lemma steady_put_header [keeps_intros]: "keeps (\<lambda>b. book b = q) (put_header cd i h)"
proof -
  have "keeps (\<lambda>b. book b = q)
      (and_then (change (cl_slot i (\<lambda>s. host (\<lambda>x. x\<lparr>ch_header := h\<rparr>) (s\<lparr>sl_header_of := None\<rparr>)))) (\<lambda>_.
       and_then (write_async cd ''header'' c) (\<lambda>_. change (cl_slot i (\<lambda>s. s\<lparr>sl_header_of := Some h\<rparr>)))))" for c
    by (intro keeps_intros steady_slot_change) (simp_all add: slot_book_def host_def)
  then show ?thesis by (auto simp: keeps_def put_header_def)
qed

lemma steady_put_target [keeps_intros]: "keeps (\<lambda>b. book b = q) (put_target cd i limbs)"
proof -
  have "keeps (\<lambda>b. book b = q)
      (and_then (change (cl_slot i (\<lambda>s. host (\<lambda>x. x\<lparr>ch_target := limbs\<rparr>) (s\<lparr>sl_target_of := None\<rparr>)))) (\<lambda>_.
       and_then (write_async cd ''target'' c) (\<lambda>_. change (cl_slot i (\<lambda>s. s\<lparr>sl_target_of := Some limbs\<rparr>)))))" for c
    by (intro keeps_intros steady_slot_change) (simp_all add: slot_book_def host_def)
  then show ?thesis by (auto simp: keeps_def put_target_def)
qed

lemma steady_bc3_inputs [keeps_intros]: "keeps (\<lambda>b. book b = q) (bc3_inputs cd i l)"
proof -
  have "keeps (\<lambda>b. book b = q) (\<lambda>b. and_then (ok_or x e) (\<lambda>k. and_then (put_header cd i h) (\<lambda>_.
      and_then (put_target cd i t) (\<lambda>_. give (g k)))) b)" for x e h t and g :: "Bc3Program \<Rightarrow> handle \<times> nat \<times> Arg list"
    by (intro keeps_intros)
  then show ?thesis by (simp add: keeps_def bc3_inputs_def)
qed

subsection \<open>Handing out and taking back\<close>

lemma owned_book: "owned b = (case book b of ((ctx, q, ss), _, _, k, _, _) \<Rightarrow>
    held K_Context ctx + held K_Queue q +
      sum_list (map (\<lambda>(a, b, c, d, e). held K_Mem a + held K_Mem b + held K_Mem c + held K_Event d + held K_Event e) ss) +
      (case k of None \<Rightarrow> {#} | Some k \<Rightarrow> program_handles k))"
  by (simp add: owned_def book_def slots_handles_def slot_handles_def [abs_def] slot_book_def bc3_handles_def comp_def)

lemma accounted_book: "book b = book c \<Longrightarrow> accounted L b \<longleftrightarrow> accounted L c"
  unfolding accounted_def owned_book by (simp add: book_def)

lemma owned_fields:
  "oc_context b = oc_context c \<Longrightarrow> oc_queue b = oc_queue c \<Longrightarrow> oc_slots b = oc_slots c \<Longrightarrow> oc_bc3 b = oc_bc3 c \<Longrightarrow> owned b = owned c"
  by (simp add: owned_def bc3_handles_def)

lemma accounted_release:
  assumes "accounted (L + {#(kind, h)#}) b"
  shows "accounted L (release cd f kind h b)"
proof -
  have a: "accounted (L + {#(kind, h)#}) (snd (enter cd b))" using assms accounted_book book_enter by blast
  then have "(kind, h) \<in># mset (wd_live (oc_world (snd (enter cd b))))" by (simp add: accounted_def)
  then have "(kind, h) \<in> set (wd_live (oc_world (snd (enter cd b))))" by simp
  moreover have "owned (release cd f kind h b) = owned (snd (enter cd b))"
    by (rule owned_fields) (simp_all add: release_def)
  ultimately show ?thesis using a by (simp add: accounted_def release_def)
qed

lemma accounted_release_unless_null:
  "accounted (L + held kind h) b \<Longrightarrow> accounted L (release_unless_null cd f kind h b)"
  by (cases "h = 0") (simp_all add: release_unless_null_def held_def accounted_release)

lemma accounted_releases:
  "accounted (L + sum_list (map (\<lambda>(f, kind, h). held kind h) rs)) b \<Longrightarrow>
   accounted L (fold (\<lambda>(f, kind, h). release_unless_null cd f kind h) rs b)"
proof (induction rs arbitrary: b)
  case (Cons r rs)
  obtain f kind h where r: "r = (f, kind, h)" by (cases r)
  have "accounted ((L + sum_list (map (\<lambda>(f, kind, h). held kind h) rs)) + held kind h) b"
    using Cons.prems by (simp add: r ac_simps)
  from Cons.IH [OF accounted_release_unless_null [OF this]] show ?case by (simp add: r)
qed simp

lemma accounted_drop_slot: "accounted (L + slot_handles s) b \<Longrightarrow> accounted L (drop_slot cd s b)"
  unfolding drop_slot_def by (rule accounted_releases) (simp add: slot_handles_def ac_simps)

lemma accounted_drop_program: "accounted (L + program_handles k) b \<Longrightarrow> accounted L (drop_program cd k b)"
  unfolding drop_program_def by (rule accounted_releases) (simp add: program_handles_def ac_simps)

lemma accounted_create:
  assumes "create cd f kind b = (code, h, c)" and "accounted L b"
  shows "accounted (L + held kind h) c"
proof -
  obtain n d where e: "enter cd b = (n, d)" by (cases "enter cd b")
  have d: "accounted L d" using assms(2) enter_book [OF e] accounted_book by blast
  show ?thesis
  proof (cases "cd_null cd n")
    case True
    then show ?thesis using assms(1) e d by (simp add: create_def held_def)
  next
    case False
    then have "c = made kind (n + 1) d" "h = n + 1" using assms(1) e by (auto simp: create_def)
    moreover have "owned (made kind (n + 1) d) = owned d" by (rule owned_fields) (simp_all add: made_def)
    ultimately show ?thesis using d by (simp add: accounted_def held_def made_def)
  qed
qed

lemma book_create: "create cd f kind b = (code, h, c) \<Longrightarrow>
    oc_slots c = oc_slots (snd (enter cd b)) \<and> oc_queued c = oc_queued b \<and> oc_next_slot c = oc_next_slot b \<and> oc_bc3 c = oc_bc3 b"
  using book_enter [of cd b] by (auto simp: create_def made_def book_def split: prod.splits if_splits)

lemma accounted_create_buffer:
  assumes "create_buffer cd what b = (r, c)" and "accounted L b" and "null_on_error cd"
  shows "case r of Inl e \<Rightarrow> accounted L c | Inr h \<Rightarrow> accounted (L + held K_Mem h) c"
proof -
  obtain code h d where m: "create cd CreateBuffer K_Mem b = (code, h, d)" by (cases "create cd CreateBuffer K_Mem b") auto
  have d: "accounted (L + held K_Mem h) (if h = 0 then d else set_mem h (cd_fresh cd h) d)"
    using accounted_create [OF m assms(2)] accounted_book [OF book_set_mem] by auto
  have "h = 0" if "code \<noteq> CL_SUCCESS"
    using m that assms(3) by (auto simp: create_def null_on_error_def split: prod.splits if_splits)
  then show ?thesis using assms(1) m d by (auto simp: create_buffer_def check_def Let_def held_def split: if_splits)
qed

lemma sum_list_update_add: "i < length xs \<Longrightarrow> sum_list (xs[i := y]) + xs ! i = sum_list xs + (y :: 'a :: comm_monoid_add)"
proof (induction xs arbitrary: i)
  case (Cons x xs)
  then show ?case by (cases i) (auto simp: ac_simps)
qed simp

lemma slots_handles_update:
  "i < length ss \<Longrightarrow> slots_handles (ss[i := t]) + slot_handles (ss ! i) = slots_handles ss + slot_handles t"
  using sum_list_update_add [of i "map slot_handles ss" "slot_handles t"] by (simp add: slots_handles_def map_update)

lemma accounted_slot:
  assumes "accounted (L + X) b" and "i < length (oc_slots b)"
    and "slot_handles (f (oc_slots b ! i)) = slot_handles (oc_slots b ! i) + X"
  shows "accounted L (cl_slot i f b)"
proof -
  have "slots_handles ((oc_slots b)[i := f (oc_slots b ! i)]) + slot_handles (oc_slots b ! i) =
      (slots_handles (oc_slots b) + X) + slot_handles (oc_slots b ! i)"
    unfolding slots_handles_update [OF assms(2)] assms(3) by (simp only: ac_simps)
  then have "slots_handles ((oc_slots b)[i := f (oc_slots b ! i)]) = slots_handles (oc_slots b) + X" by (rule add_right_imp_eq)
  then show ?thesis using assms(1) by (simp add: accounted_def owned_def bc3_handles_def ac_simps)
qed

text \<open>The events of slot \<open>i\<close>, and everything of the book but them and the list of handles.\<close>

definition events :: "nat \<Rightarrow> OpenClBackend \<Rightarrow> handle \<times> handle" where
  "events i b = (sl_kernel_done (oc_slots b ! i), sl_read_done (oc_slots b ! i))"

definition mute :: "ClSlot \<Rightarrow> ClSlot" where
  "mute s = s\<lparr>sl_kernel_done := 0, sl_read_done := 0\<rparr>"

definition shape ::
  "nat \<Rightarrow> OpenClBackend \<Rightarrow> handle \<times> handle \<times> (handle \<times> handle \<times> handle \<times> handle \<times> handle) list \<times> nat list \<times> nat \<times> Bc3Program option" where
  "shape i b = (oc_context b, oc_queue b, map slot_book ((oc_slots b)[i := mute (oc_slots b ! i)]), oc_queued b, oc_next_slot b, oc_bc3 b)"

lemma book_slots: "book b = book c \<Longrightarrow> map slot_book (oc_slots b) = map slot_book (oc_slots c)"
  by (simp add: book_def)

lemma book_slot:
  assumes "book b = book c" and "i < length (oc_slots b)"
  shows "slot_book (oc_slots b ! i) = slot_book (oc_slots c ! i)" "i < length (oc_slots c)"
proof -
  have "map slot_book (oc_slots b) ! i = map slot_book (oc_slots c) ! i" by (simp only: book_slots [OF assms(1)])
  moreover have "length (oc_slots b) = length (oc_slots c)" using book_slots [OF assms(1)] by (rule map_eq_imp_length_eq)
  ultimately show "slot_book (oc_slots b ! i) = slot_book (oc_slots c ! i)" "i < length (oc_slots c)" using assms(2) by simp_all
qed

lemma book_length: "book b = book c \<Longrightarrow> length (oc_slots b) = length (oc_slots c)"
  using book_slots map_eq_imp_length_eq by blast

lemma book_events: "book b = book c \<Longrightarrow> i < length (oc_slots b) \<Longrightarrow> events i b = events i c"
  using book_slot [of b c i] by (simp add: events_def slot_book_def)

lemma slot_book_mute: "slot_book s = slot_book t \<Longrightarrow> slot_book (mute s) = slot_book (mute t)"
  by (simp add: slot_book_def mute_def)

lemma book_shape:
  assumes "book b = book c"
  shows "shape i b = shape i c"
proof (cases "i < length (oc_slots b)")
  case True
  then show ?thesis
    using assms slot_book_mute [OF book_slot(1) [OF assms True]] by (simp add: shape_def book_def map_update)
next
  case False
  then show ?thesis using assms book_length [OF assms] by (simp add: shape_def book_def list_update_beyond)
qed

lemma shape_cl_slot: "i < length (oc_slots b) \<Longrightarrow> slot_book (mute (f (oc_slots b ! i))) = slot_book (mute (oc_slots b ! i)) \<Longrightarrow>
    shape i (cl_slot i f b) = shape i b"
  by (simp add: shape_def map_update)

lemma shape_made [simp]: "shape i (made kind h b) = shape i b" "oc_slots (made kind h b) = oc_slots b"
  by (simp_all add: shape_def made_def)

lemma shape_length: "shape i b = shape i c \<Longrightarrow> length (oc_slots b) = length (oc_slots c)"
  unfolding shape_def by (metis Pair_inject length_list_update length_map)

lemma shape_queue: "shape i b = shape i c \<Longrightarrow> oc_queued b = oc_queued c \<and> oc_next_slot b = oc_next_slot c \<and> oc_bc3 b = oc_bc3 c"
  by (simp add: shape_def)

lemma shape_events:
  assumes "shape i b = shape i c" and "j < length (oc_slots b)" and "j \<noteq> i"
  shows "events j b = events j c"
proof -
  have "map slot_book ((oc_slots b)[i := mute (oc_slots b ! i)]) ! j = map slot_book ((oc_slots c)[i := mute (oc_slots c ! i)]) ! j"
    using assms(1) by (simp add: shape_def)
  then show ?thesis using assms(2,3) shape_length [OF assms(1)] by (simp add: events_def slot_book_def)
qed

text \<open>Clearing a field of a slot and releasing what it held, in either order.\<close>

lemma book_cl_slot_cong:
  assumes "book b = book c" and "i < length (oc_slots b)" and "\<And>s t. slot_book s = slot_book t \<Longrightarrow> slot_book (f s) = slot_book (f t)"
  shows "book (cl_slot i f b) = book (cl_slot i f c)"
  using assms(1) assms(3) [OF book_slot(1) [OF assms(1,2)]] by (simp add: book_def map_update)

lemma book_release:
  assumes "i < length (oc_slots b)" and "\<And>s t. slot_book s = slot_book t \<Longrightarrow> slot_book (f s) = slot_book (f t)"
  shows "book (cl_slot i f (release_unless_null cd c kind h b)) = book (release_unless_null cd c kind h (cl_slot i f b))"
proof (cases "h = 0")
  case False
  let ?e = "snd (enter cd b)" and ?e' = "snd (enter cd (cl_slot i f b))"
  have "i < length (oc_slots ?e)" using book_length [OF book_enter, of cd b] assms(1) by simp
  from book_cl_slot_cong [OF book_enter this assms(2)] have "book (cl_slot i f ?e) = book (cl_slot i f b)" .
  then have "book (cl_slot i f ?e) = book ?e'" by simp
  then show ?thesis using False by (simp add: release_unless_null_def release_def book_def)
qed (simp add: release_unless_null_def)

lemma accounted_slot_less:
  assumes "accounted L b" and "i < length (oc_slots b)"
    and "slot_handles (oc_slots b ! i) = slot_handles (f (oc_slots b ! i)) + X"
  shows "accounted (L + X) (cl_slot i f b)"
proof -
  have "(slots_handles ((oc_slots b)[i := f (oc_slots b ! i)]) + X) + slot_handles (f (oc_slots b ! i)) =
      slots_handles (oc_slots b) + slot_handles (f (oc_slots b ! i))"
    unfolding slots_handles_update [OF assms(2), symmetric] assms(3) by (simp only: ac_simps)
  then have "slots_handles ((oc_slots b)[i := f (oc_slots b ! i)]) + X = slots_handles (oc_slots b)" by (rule add_right_imp_eq)
  then have "L + X + owned (cl_slot i f b) = L + owned b" by (simp add: owned_def bc3_handles_def ac_simps)
  then show ?thesis using assms(1) by (simp add: accounted_def)
qed

lemma clear_and_release:
  assumes "accounted L b" and i: "i < length (oc_slots b)"
    and "slot_handles (oc_slots b ! i) = slot_handles (f (oc_slots b ! i)) + held K_Event h"
    and f: "\<And>s t. slot_book s = slot_book t \<Longrightarrow> slot_book (f s) = slot_book (f t)"
    and m: "\<And>s. slot_book (mute (f s)) = slot_book (mute s)"
  shows "accounted L (cl_slot i f (release_unless_null cd c K_Event h b))"
    "shape i (cl_slot i f (release_unless_null cd c K_Event h b)) = shape i b"
    "events i (cl_slot i f (release_unless_null cd c K_Event h b)) = events i (cl_slot i f b)"
    "i < length (oc_slots (cl_slot i f (release_unless_null cd c K_Event h b)))"
proof -
  let ?r = "release_unless_null cd c K_Event h (cl_slot i f b)"
  note bk = book_release [where f = f, OF i f, where cd = cd and c = c and kind = K_Event and h = h]
  have "accounted L ?r" by (rule accounted_release_unless_null [OF accounted_slot_less [where f = f, OF assms(1-3)]])
  then show "accounted L (cl_slot i f (release_unless_null cd c K_Event h b))" using accounted_book [OF bk] by simp
  have r: "shape i ?r = shape i (cl_slot i f b)" "map slot_book (oc_slots ?r) = map slot_book (oc_slots (cl_slot i f b))"
  proof -
    let ?e = "snd (enter cd (cl_slot i f b))"
    have "shape i ?e = shape i (cl_slot i f b)" by (rule book_shape) simp
    then show "shape i ?r = shape i (cl_slot i f b)" by (simp add: release_unless_null_def release_def shape_def)
    have "map slot_book (oc_slots ?e) = map slot_book (oc_slots (cl_slot i f b))" by (rule book_slots) simp
    then show "map slot_book (oc_slots ?r) = map slot_book (oc_slots (cl_slot i f b))"
      by (simp add: release_unless_null_def release_def)
  qed
  show "shape i (cl_slot i f (release_unless_null cd c K_Event h b)) = shape i b"
    using book_shape [OF bk, of i] r(1) shape_cl_slot [where f = f, OF i m] by simp
  have len: "length (oc_slots ?r) = length (oc_slots b)" using map_eq_imp_length_eq [OF r(2)] by simp
  show l: "i < length (oc_slots (cl_slot i f (release_unless_null cd c K_Event h b)))"
    using book_length [OF bk] len i by simp
  have "map slot_book (oc_slots ?r) ! i = map slot_book (oc_slots (cl_slot i f b)) ! i" using r(2) by simp
  then have "events i ?r = events i (cl_slot i f b)" using len i by (simp add: events_def slot_book_def)
  then show "events i (cl_slot i f (release_unless_null cd c K_Event h b)) = events i (cl_slot i f b)"
    using book_events [OF bk l] by simp
qed

lemma release_events_accounted:
  assumes "accounted L b" and i: "i < length (oc_slots b)"
  shows "accounted L (release_events cd i b)" "events i (release_events cd i b) = (0, 0)" "shape i (release_events cd i b) = shape i b"
proof -
  let ?k = "\<lambda>s :: ClSlot. s\<lparr>sl_kernel_done := 0\<rparr>" and ?r = "\<lambda>s :: ClSlot. s\<lparr>sl_read_done := 0\<rparr>"
  let ?c = "cl_slot i ?k (release_unless_null cd ReleaseEvent K_Event (sl_kernel_done (oc_slots b ! i)) b)"
  let ?d = "cl_slot i ?r (release_unless_null cd ReleaseEvent K_Event (sl_read_done (oc_slots ?c ! i)) ?c)"
  note c = clear_and_release [where f = ?k and h = "sl_kernel_done (oc_slots b ! i)" and cd = cd and c = ReleaseEvent, OF assms]
  have c': "accounted L ?c" "shape i ?c = shape i b" "i < length (oc_slots ?c)" "events i ?c = (0, snd (events i b))"
    using c i by (simp_all add: slot_handles_def held_def slot_book_def mute_def events_def)
  note d = clear_and_release [where f = ?r and h = "sl_read_done (oc_slots ?c ! i)" and cd = cd and c = ReleaseEvent, OF c'(1,3)]
  have "accounted L ?d" "shape i ?d = shape i ?c" "events i ?d = (fst (events i ?c), 0)"
    using d c'(3) by (simp_all add: slot_handles_def held_def slot_book_def mute_def events_def)
  moreover have "release_events cd i b = ?d" by (simp add: release_events_def Let_def)
  ultimately show "accounted L (release_events cd i b)" "events i (release_events cd i b) = (0, 0)"
    "shape i (release_events cd i b) = shape i b" using c' by simp_all
qed

subsection \<open>Launches\<close>

lemma keeps_book: "(\<And>q. keeps (\<lambda>b. book b = q) m) \<Longrightarrow> (\<And>b c. book b = book c \<Longrightarrow> I b \<longleftrightarrow> I c) \<Longrightarrow> keeps I m"
  unfolding keeps_def by metis

lemma accounted_made:
  assumes "accounted L b"
  shows "accounted (L + {#(kind, h)#}) (made kind h b)"
proof -
  have "owned (made kind h b) = owned b" by (rule owned_fields) (simp_all add: made_def)
  then show ?thesis using assms by (simp add: accounted_def made_def)
qed

lemma accounted_event:
  assumes "accounted L b" and "i < length (oc_slots b)" and "slot_handles (f (oc_slots b ! i)) = slot_handles (oc_slots b ! i) + {#(kind, h)#}"
  shows "accounted L (made kind h (cl_slot i f b))"
proof -
  have "made kind h (cl_slot i f b) = cl_slot i f (made kind h b)" by (simp add: made_def cl_slot_def world_def)
  then show ?thesis using accounted_slot [where f = f, OF accounted_made [OF assms(1), of kind h], of i] assms(2,3) by simp
qed

text \<open>A backend in the middle of queueing a launch on slot \<open>i\<close>: which of its events are still null.\<close>

definition queueing ::
  "handles \<Rightarrow> nat \<Rightarrow> handle \<times> handle \<times> (handle \<times> handle \<times> handle \<times> handle \<times> handle) list \<times> nat list \<times> nat \<times> Bc3Program option \<Rightarrow>
   bool \<Rightarrow> bool \<Rightarrow> OpenClBackend \<Rightarrow> bool" where
  "queueing L i q kd rd b \<longleftrightarrow> accounted L b \<and> shape i b = q \<and> i < length (oc_slots b) \<and>
     (kd \<longrightarrow> fst (events i b) = 0) \<and> (rd \<longrightarrow> snd (events i b) = 0)"

lemma queueing_book:
  assumes "book b = book c"
  shows "queueing L i q kd rd b \<longleftrightarrow> queueing L i q kd rd c"
proof (cases "i < length (oc_slots b)")
  case True
  show ?thesis
    unfolding queueing_def
    by (simp only: accounted_book [OF assms] book_shape [OF assms] book_length [OF assms] book_events [OF assms True])
qed (simp add: queueing_def book_length [OF assms])

lemma events_made [simp]: "events i (made kind h b) = events i b"
  by (simp add: events_def)

lemma queueing_less: "queueing L i q kd rd b \<Longrightarrow> (kd' \<longrightarrow> kd) \<Longrightarrow> (rd' \<longrightarrow> rd) \<Longrightarrow> queueing L i q kd' rd' b"
  by (auto simp: queueing_def)

lemma queueing_steady:
  "(\<And>q. keeps (\<lambda>b. book b = q) m) \<Longrightarrow> triple (queueing L i q kd rd) m (\<lambda>_. queueing L i q kd rd) (queueing L i q False False)"
  by (rule triple_keeps [OF keeps_book]) (assumption, erule queueing_book, erule queueing_less, simp_all)

lemma queueing_enter: "queueing L i q kd rd b \<Longrightarrow> enter cd b = (n, c) \<Longrightarrow> queueing L i q kd rd c"
  using queueing_book enter_book by blast

lemma queue_run_queueing:
  "triple (queueing L i q True True) (queue_run cd i k cnt local) (\<lambda>_. queueing L i q False True) (queueing L i q False False)"
  unfolding triple_def
proof (intro allI impI)
  fix b assume b: "queueing L i q True True b"
  obtain n c where e: "enter cd b = (n, c)" by (cases "enter cd b")
  let ?f = "\<lambda>s :: ClSlot. s\<lparr>sl_kernel_done := n + 1\<rparr>"
  let ?c = "queue_cmd (Run_kernel k (wd_args (oc_world c) k) (launch_size cnt local)) c"
  have c: "queueing L i q True True c" using queueing_enter [OF b e] .
  then have c': "queueing L i q True True ?c" using queueing_book [OF book_queue_cmd] by simp
  have i: "i < length (oc_slots ?c)" and a: "accounted L ?c" and "fst (events i ?c) = 0" using c' by (simp_all add: queueing_def)
  then have ev: "slot_handles (?f (oc_slots ?c ! i)) = slot_handles (oc_slots ?c ! i) + {#(K_Event, n + 1)#}"
    by (simp add: events_def slot_handles_def held_def)
  have sh: "shape i (cl_slot i ?f ?c) = shape i ?c" by (rule shape_cl_slot [OF i]) (simp add: slot_book_def mute_def)
  have "queueing L i q False True (made K_Event (n + 1) (cl_slot i ?f ?c))"
    using accounted_event [where f = ?f, OF a i ev] c' i sh by (simp add: queueing_def events_def)
  then show "case queue_run cd i k cnt local b of (Inr x, t) \<Rightarrow> queueing L i q False True t | (Inl e, t) \<Rightarrow> queueing L i q False False t"
    using e c queueing_less [OF c] by (auto simp: queue_run_def cl_launch_def cl_call_def split: sum.split)
qed

lemma queue_read_queueing:
  "triple (queueing L i q False True) (queue_read cd i) (\<lambda>_. queueing L i q False False) (queueing L i q False False)"
  unfolding triple_def
proof (intro allI impI)
  fix b assume b: "queueing L i q False True b"
  obtain n c where e: "enter cd b = (n, c)" by (cases "enter cd b")
  let ?f = "\<lambda>s :: ClSlot. s\<lparr>sl_read_done := n + 1\<rparr>"
  let ?c = "queue_cmd (Read_hits (sl_hits (oc_slots c ! i)) i) c"
  have c: "queueing L i q False True c" using queueing_enter [OF b e] .
  then have c': "queueing L i q False True ?c" using queueing_book [OF book_queue_cmd] by simp
  have i: "i < length (oc_slots ?c)" and a: "accounted L ?c" and "snd (events i ?c) = 0" using c' by (simp_all add: queueing_def)
  then have ev: "slot_handles (?f (oc_slots ?c ! i)) = slot_handles (oc_slots ?c ! i) + {#(K_Event, n + 1)#}"
    by (simp add: events_def slot_handles_def held_def)
  have sh: "shape i (cl_slot i ?f ?c) = shape i ?c" by (rule shape_cl_slot [OF i]) (simp add: slot_book_def mute_def)
  have "queueing L i q False False (made K_Event (n + 1) (cl_slot i ?f ?c))"
    using accounted_event [where f = ?f, OF a i ev] c' i sh by (simp add: queueing_def events_def)
  then show "case queue_read cd i b of (Inr x, t) \<Rightarrow> queueing L i q False False t | (Inl e, t) \<Rightarrow> queueing L i q False False t"
    using e c queueing_less [OF c] by (auto simp: queue_read_def cl_call_def split: sum.split)
qed

lemma queue_launch_queueing:
  "triple (queueing L i q True True) (queue_launch cd i l) (\<lambda>_. queueing L i q False False) (queueing L i q False False)"
proof -
  note s = queueing_steady [where L = L and i = i and q = q]
  have 1: "keeps (\<lambda>b. book b = r) (case la_algo l of Bc3Hash \<Rightarrow> bc3_inputs cd i l | algo \<Rightarrow> refuse (''no kernel for '' @ algo_name algo))" for r
    by (cases "la_algo l") (auto intro: keeps_intros)
  have "triple (queueing L i q True True)
      (and_then (case la_algo l of Bc3Hash \<Rightarrow> bc3_inputs cd i l | algo \<Rightarrow> refuse (''no kernel for '' @ algo_name algo)) (\<lambda>(k, local, args).
       and_then (change (cl_slot i (host (\<lambda>x. x\<lparr>ch_zero := 0\<rparr>)))) (\<lambda>_.
       and_then (write_async cd ''hit count'' c) (\<lambda>_. and_then (set_args cd k args) (\<lambda>_.
       and_then (queue_run cd i k (la_count l) local) (\<lambda>_. and_then (queue_read cd i) (\<lambda>_.
       cl_call cd Flush ''clFlush'' (\<lambda>_. id))))))))
      (\<lambda>_. queueing L i q False False) (queueing L i q False False)" for c
    unfolding split_def
    by (rule triple_and_then, rule s, rule 1, rule triple_and_then, rule s, rule steady_slot_change, simp,
        rule triple_and_then, rule s, rule steady_write_async, rule triple_and_then, rule s, rule steady_set_args,
        rule triple_and_then, rule queue_run_queueing, rule triple_and_then, rule queue_read_queueing, rule s, rule steady_cl_call, simp)
  then show ?thesis by (simp add: triple_def queue_launch_def)
qed

subsection \<open>A backend between calls\<close>

definition cl_ring :: "OpenClBackend \<Rightarrow> GpuQueue" where
  "cl_ring b = \<lparr>gq_slots = map (\<lambda>s. ch_hits (sl_host s)) (oc_slots b), gq_queued = oc_queued b, gq_next_slot = oc_next_slot b\<rparr>"

text \<open>Everything accounted for, the slots a ring, and no events but of the launches in flight.\<close>

definition tidy :: "handles \<Rightarrow> OpenClBackend \<Rightarrow> bool" where
  "tidy L b \<longleftrightarrow> accounted L b \<and> queue_inv (cl_ring b) \<and> (\<forall>i<length (oc_slots b). i \<notin> set (oc_queued b) \<longrightarrow> events i b = (0, 0))"

lemma cl_ring_inv:
  "queue_inv (cl_ring b) \<longleftrightarrow> length (oc_slots b) = QUEUE_DEPTH \<and> oc_next_slot b < QUEUE_DEPTH \<and>
     length (oc_queued b) \<le> QUEUE_DEPTH \<and> set (oc_queued b) \<subseteq> {..<QUEUE_DEPTH} \<and>
     (length (oc_queued b) < QUEUE_DEPTH \<longrightarrow> oc_next_slot b \<notin> set (oc_queued b)) \<and>
     (oc_queued b \<noteq> [] \<longrightarrow> length (oc_queued b) = QUEUE_DEPTH \<longrightarrow> oc_next_slot b = hd (oc_queued b)) \<and>
     distinct (oc_queued b)"
  by (simp add: cl_ring_def queue_inv_def)

lemma cl_ring_cong:
  "length (oc_slots b) = length (oc_slots c) \<Longrightarrow> oc_queued b = oc_queued c \<Longrightarrow> oc_next_slot b = oc_next_slot c \<Longrightarrow>
   queue_inv (cl_ring b) \<longleftrightarrow> queue_inv (cl_ring c)"
  by (simp add: cl_ring_inv)

lemma cl_ring_queue:
  assumes "queue_inv (cl_ring b)" and "length (oc_queued b) < QUEUE_DEPTH"
  shows "queue_inv (cl_ring (b\<lparr>oc_queued := oc_queued b @ [oc_next_slot b], oc_next_slot := (oc_next_slot b + 1) mod QUEUE_DEPTH\<rparr>))"
  using assms unfolding cl_ring_inv by (cases "oc_queued b") (auto simp: QUEUE_DEPTH_def less_2_cases_iff)

lemma cl_ring_take:
  assumes "queue_inv (cl_ring b)" and "oc_queued b = i # rest"
  shows "queue_inv (cl_ring (b\<lparr>oc_queued := rest\<rparr>))" "i < length (oc_slots b)" "i \<notin> set rest"
  using assms unfolding cl_ring_inv by (cases rest; cases "tl rest"; auto simp: QUEUE_DEPTH_def)+

lemma tidy_book:
  assumes "book b = book c"
  shows "tidy L b \<longleftrightarrow> tidy L c"
proof -
  have "oc_queued b = oc_queued c" "oc_next_slot b = oc_next_slot c" using assms by (simp_all add: book_def)
  then show ?thesis
    unfolding tidy_def accounted_book [OF assms]
    using cl_ring_cong [of b c] book_length [OF assms] book_events [OF assms] by metis
qed

lemma tidy_enqueue:
  assumes "tidy L b" and e: "cl_enqueue cd b l = (r, b')"
  shows "tidy L b' \<and> oc_bc3 b' = oc_bc3 b"
proof (cases "la_count l = 0 \<or> QUEUE_DEPTH \<le> length (oc_queued b)")
  case True
  then show ?thesis using assms by (auto simp: cl_enqueue_def split: if_splits)
next
  case False
  let ?i = "oc_next_slot b"
  have ring: "queue_inv (cl_ring b)" and room: "length (oc_queued b) < QUEUE_DEPTH" using assms(1) False by (simp_all add: tidy_def)
  then have i: "?i < length (oc_slots b)" "?i \<notin> set (oc_queued b)" by (simp_all add: cl_ring_inv)
  have ev: "\<forall>j<length (oc_slots b). j \<notin> set (oc_queued b) \<longrightarrow> events j b = (0, 0)" using assms(1) by (simp add: tidy_def)
  have "queueing L ?i (shape ?i b) True True b" using assms(1) i by (simp add: queueing_def tidy_def)
  moreover obtain r' c where q: "queue_launch cd ?i l b = (r', c)" by (cases "queue_launch cd ?i l b")
  ultimately have c: "queueing L ?i (shape ?i b) False False c"
    using tripleD [OF queue_launch_queueing _ q] by (cases r') auto
  then have sh: "shape ?i c = shape ?i b" and ic: "?i < length (oc_slots c)" and ac: "accounted L c" by (simp_all add: queueing_def)
  note len = shape_length [OF sh] and qu = shape_queue [OF sh]
  have evc: "events j c = (0, 0)" if "j < length (oc_slots c)" "j \<notin> set (oc_queued b)" "j \<noteq> ?i" for j
    using shape_events [OF sh that(1,3)] ev len that by simp
  show ?thesis
  proof (cases r')
    case (Inl err)
    let ?d = "release_events cd ?i c"
    note d = release_events_accounted [OF ac ic, of cd]
    have sd: "shape ?i ?d = shape ?i b" using d(3) sh by simp
    have ld: "length (oc_slots ?d) = length (oc_slots b)" using shape_length [OF sd] .
    have evd: "events j ?d = (0, 0)" if "j < length (oc_slots ?d)" "j \<notin> set (oc_queued b)" for j
      using shape_events [OF sd that(1)] ev ld that d(2) by (cases "j = ?i") auto
    have b': "b' = cl_slot ?i sl_forget ?d" using e False q Inl by (simp add: cl_enqueue_def Let_def)
    have bk: "book b' = book ?d" unfolding b' by (rule book_cl_slot) (simp add: slot_book_def sl_forget_def)
    have "tidy L ?d" using d(1) evd ring cl_ring_cong [OF ld] shape_queue [OF sd] by (simp add: tidy_def)
    then show ?thesis using tidy_book [OF bk] shape_queue [OF sd] by (simp add: b')
  next
    case (Inr u)
    then have b': "b' = c\<lparr>oc_queued := oc_queued b @ [?i], oc_next_slot := (?i + 1) mod QUEUE_DEPTH\<rparr>"
      using e False q qu Inr by (simp add: cl_enqueue_def Let_def)
    have "accounted L b'" using ac by (simp add: b' accounted_def owned_def bc3_handles_def)
    moreover have "queue_inv (cl_ring b')"
      using cl_ring_queue [OF ring room] cl_ring_cong [of b' "b\<lparr>oc_queued := oc_queued b @ [?i], oc_next_slot := (?i + 1) mod QUEUE_DEPTH\<rparr>"]
      by (simp add: b' len)
    moreover have "events j b' = events j c" for j by (simp add: b' events_def)
    ultimately show ?thesis using evc qu by (simp add: tidy_def b')
  qed
qed

lemma steady_wait_read: "book (snd (wait_read cd i b)) = book b"
  by (auto simp: wait_read_def Let_def dest: enter_book split: prod.split)

lemma steady_profile: "book (snd (profile cd b)) = book b"
  by (auto simp: profile_def dest: enter_book split: prod.split)

lemma steady_device_time: "book (snd (cl_device_time cd b)) = book b"
proof -
  have "profile cd b = (x, c) \<Longrightarrow> book c = book b" for x b c using steady_profile [of cd b] by simp
  then show ?thesis by (auto simp: cl_device_time_def split: prod.split option.split)
qed

lemma book_finish: "book (cl_finish cd b) = book b"
  by (auto simp: cl_finish_def dest: enter_book split: prod.split)

text \<open>Before the events of a launch that is off the queue are released.\<close>

lemma tidy_release:
  assumes "accounted L b" and "queue_inv (cl_ring b)" and "i < length (oc_slots b)"
    and "\<forall>j<length (oc_slots b). j \<notin> set (oc_queued b) \<longrightarrow> j \<noteq> i \<longrightarrow> events j b = (0, 0)"
  shows "tidy L (release_events cd i b) \<and> oc_queued (release_events cd i b) = oc_queued b \<and> oc_bc3 (release_events cd i b) = oc_bc3 b"
proof -
  let ?d = "release_events cd i b"
  note d = release_events_accounted [OF assms(1,3), of cd]
  note l = shape_length [OF d(3)] and q = shape_queue [OF d(3)]
  have "events j ?d = (0, 0)" if "j < length (oc_slots ?d)" "j \<notin> set (oc_queued b)" for j
    using shape_events [OF d(3) that(1)] assms(4) l that d(2) by (cases "j = i") auto
  then show ?thesis using d(1) assms(2) cl_ring_cong [OF l] q by (simp add: tidy_def)
qed

lemma tidy_collect:
  assumes "tidy L b" and "cl_collect cd b = (r, b')"
  shows "tidy L b' \<and> oc_bc3 b' = oc_bc3 b \<and> (oc_queued b \<noteq> [] \<longrightarrow> oc_queued b' = tl (oc_queued b)) \<and> (oc_queued b = [] \<longrightarrow> b' = b)"
proof (cases "oc_queued b")
  case Nil
  then show ?thesis using assms by (simp add: cl_collect_def)
next
  case (Cons i rest)
  let ?b = "b\<lparr>oc_queued := rest\<rparr>"
  have a: "accounted L b" and ring: "queue_inv (cl_ring b)" using assms(1) by (simp_all add: tidy_def)
  note t = cl_ring_take [OF ring Cons]
  obtain w c where w: "wait_read cd i ?b = (w, c)" by (cases "wait_read cd i ?b")
  obtain busy d where d: "(if w = CL_SUCCESS then cl_device_time cd c else (None, c)) = (busy, d)"
    by (cases "if w = CL_SUCCESS then cl_device_time cd c else (None, c)")
  have bk: "book d = book ?b"
    using steady_wait_read [of cd i ?b] steady_device_time [of cd c] w d by (auto split: if_splits)
  have b': "b' = release_events cd i d"
    using assms(2) Cons w d by (auto simp: cl_collect_def Let_def split: sum.splits)
  have "accounted L ?b" using a by (simp add: accounted_def owned_def bc3_handles_def)
  then have ad: "accounted L d" using accounted_book [OF bk] by simp
  have ld: "length (oc_slots d) = length (oc_slots b)" using book_length [OF bk] by simp
  have qd: "oc_queued d = rest" "oc_bc3 d = oc_bc3 b" "oc_next_slot d = oc_next_slot b" using bk by (simp_all add: book_def)
  have rd: "queue_inv (cl_ring d)" using t(1) cl_ring_cong [of d ?b] ld qd by simp
  have "events j d = (0, 0)" if "j < length (oc_slots d)" "j \<notin> set (oc_queued d)" "j \<noteq> i" for j
  proof -
    have "events j d = events j ?b" by (rule book_events [OF bk that(1)])
    then show ?thesis using assms(1) that ld qd Cons by (simp add: tidy_def events_def)
  qed
  with tidy_release [OF ad rd, of i cd] t(2) ld have "tidy L b' \<and> oc_queued b' = rest \<and> oc_bc3 b' = oc_bc3 b" using qd by (simp add: b')
  then show ?thesis by (simp add: Cons)
qed

lemma release_all_events:
  assumes "accounted L b" and "m \<le> length (oc_slots b)"
  shows "accounted L (fold (\<lambda>i b. cl_slot i sl_forget (release_events cd i b)) [0..<m] b) \<and>
    length (oc_slots (fold (\<lambda>i b. cl_slot i sl_forget (release_events cd i b)) [0..<m] b)) = length (oc_slots b) \<and>
    oc_next_slot (fold (\<lambda>i b. cl_slot i sl_forget (release_events cd i b)) [0..<m] b) = oc_next_slot b \<and>
    oc_bc3 (fold (\<lambda>i b. cl_slot i sl_forget (release_events cd i b)) [0..<m] b) = oc_bc3 b \<and>
    (\<forall>j<m. events j (fold (\<lambda>i b. cl_slot i sl_forget (release_events cd i b)) [0..<m] b) = (0, 0))"
  using assms(2)
proof (induction m)
  case 0
  then show ?case using assms(1) by simp
next
  case (Suc m)
  let ?c = "fold (\<lambda>i b. cl_slot i sl_forget (release_events cd i b)) [0..<m] b"
  let ?d = "release_events cd m ?c"
  have c: "accounted L ?c" "m < length (oc_slots ?c)" using Suc by simp_all
  note d = release_events_accounted [OF c, of cd]
  have bk: "book (cl_slot m sl_forget ?d) = book ?d" by (rule book_cl_slot) (simp add: slot_book_def sl_forget_def)
  have len: "length (oc_slots ?d) = length (oc_slots ?c)" using shape_length [OF d(3)] .
  have ev: "events j (cl_slot m sl_forget ?d) = (0, 0)" if j: "j < Suc m" for j
  proof -
    have l: "j < length (oc_slots ?d)" using j len c(2) by simp
    have "events j (cl_slot m sl_forget ?d) = events j ?d" by (rule book_events [OF bk]) (use l in simp)
    moreover have "events j ?d = (0, 0)"
      using d(2) shape_events [OF d(3) l] Suc j by (cases "j = m") (auto simp: less_Suc_eq)
    ultimately show ?thesis by simp
  qed
  show ?case
    using ev accounted_book [OF bk] d(1) len shape_queue [OF d(3)] Suc by simp
qed

lemma tidy_abandon:
  assumes "tidy L b"
  shows "tidy L (cl_abandon cd b) \<and> oc_queued (cl_abandon cd b) = [] \<and> oc_bc3 (cl_abandon cd b) = oc_bc3 b"
proof -
  let ?c = "cl_finish cd b"
  have bk: "book ?c = book b" by (rule book_finish)
  have "tidy L ?c" using assms tidy_book [OF bk] by simp
  then have c: "accounted L ?c" "queue_inv (cl_ring ?c)" by (simp_all add: tidy_def)
  note r = release_all_events [OF c(1) order_refl, of cd]
  let ?d = "fold (\<lambda>i b. cl_slot i sl_forget (release_events cd i b)) [0..<length (oc_slots ?c)] ?c"
  have a: "cl_abandon cd b = ?d\<lparr>oc_queued := []\<rparr>" by (simp add: cl_abandon_def Let_def)
  have k: "oc_bc3 ?c = oc_bc3 b" using bk by (simp add: book_def)
  have "queue_inv (cl_ring (cl_abandon cd b))" using r c(2) by (simp add: a cl_ring_inv)
  then show ?thesis using r k by (simp add: a tidy_def accounted_def owned_def bc3_handles_def events_def)
qed

subsection \<open>What only hands out or takes back handles\<close>

definition outline ::
  "OpenClBackend \<Rightarrow> handle \<times> handle \<times> (handle \<times> handle \<times> handle \<times> handle \<times> handle) list \<times> nat list \<times> nat \<times> Bc3Program option" where
  "outline b = (oc_context b, oc_queue b, map slot_book (oc_slots b), oc_queued b, oc_next_slot b, oc_bc3 b)"

lemma book_outline: "book b = book c \<Longrightarrow> outline b = outline c"
  by (simp add: book_def outline_def)

lemma outline_world [simp]: "outline (world f b) = outline b"
  by (simp add: outline_def)

lemma outline_enter: "enter cd b = (n, c) \<Longrightarrow> outline c = outline b"
  using book_outline enter_book by blast

lemma outline_release [simp]: "outline (release_unless_null cd f kind h b) = outline b"
  using book_outline [OF book_enter, of cd b] by (simp add: release_unless_null_def release_def)

lemma outline_releases [simp]: "outline (fold (\<lambda>(f, kind, h). release_unless_null cd f kind h) rs b) = outline b"
  by (induction rs arbitrary: b) auto

lemma outline_drop_slot [simp]: "outline (drop_slot cd s b) = outline b"
  unfolding drop_slot_def by (rule outline_releases)

lemma outline_drop_program [simp]: "outline (drop_program cd k b) = outline b"
  unfolding drop_program_def by (rule outline_releases)

lemma outline_create: "create cd f kind b = (code, h, c) \<Longrightarrow> outline c = outline b"
  by (auto simp: create_def made_def dest: outline_enter split: prod.splits if_splits)

lemma outline_create_buffer: "create_buffer cd what b = (r, c) \<Longrightarrow> outline c = outline b"
  by (auto simp: create_buffer_def Let_def dest: outline_create intro: book_outline split: prod.splits sum.splits if_splits)
    (metis book_outline book_set_mem outline_create)+

lemma outline_slots: "outline b = outline c \<Longrightarrow> map slot_book (oc_slots b) = map slot_book (oc_slots c)"
  by (simp add: outline_def)

lemma outline_events:
  assumes "outline b = outline c"
  shows "length (oc_slots b) = length (oc_slots c)" "i < length (oc_slots b) \<Longrightarrow> events i b = events i c"
proof -
  show l: "length (oc_slots b) = length (oc_slots c)" using outline_slots [OF assms] by (rule map_eq_imp_length_eq)
  assume i: "i < length (oc_slots b)"
  have "map slot_book (oc_slots b) ! i = map slot_book (oc_slots c) ! i" by (simp only: outline_slots [OF assms])
  then show "events i b = events i c" using i l by (simp add: events_def slot_book_def)
qed

lemma outline_queue: "outline b = outline c \<Longrightarrow> oc_queued b = oc_queued c \<and> oc_next_slot b = oc_next_slot c \<and> oc_bc3 b = oc_bc3 c"
  by (simp add: outline_def)

lemma tidy_outline:
  assumes "tidy M b" and "outline c = outline b" and "accounted L c"
  shows "tidy L c"
proof -
  note e = outline_events [OF assms(2)] and q = outline_queue [OF assms(2)]
  have "queue_inv (cl_ring c)" using assms(1) cl_ring_cong [of c b] e(1) q by (simp add: tidy_def)
  moreover have "events i c = (0, 0)" if "i < length (oc_slots c)" "i \<notin> set (oc_queued c)" for i
    using e(2) [OF that(1)] that e(1) q assms(1) by (simp add: tidy_def)
  ultimately show ?thesis using assms(3) by (simp add: tidy_def)
qed

text \<open>An operation that leaves the outline and accounts for what it uses.\<close>

definition temporary :: "'a cl \<Rightarrow> bool" where
  "temporary m \<longleftrightarrow> (\<forall>L q. keeps (\<lambda>b. accounted L b \<and> outline b = q) m)"

lemma temporary_steady: "(\<And>q. keeps (\<lambda>b. book b = q) m) \<Longrightarrow> temporary m"
  unfolding temporary_def
proof (intro allI)
  fix L q assume "\<And>q. keeps (\<lambda>b. book b = q) m"
  then show "keeps (\<lambda>b. accounted L b \<and> outline b = q) m"
  proof (rule keeps_book)
    fix b c assume bk: "book b = book c"
    from accounted_book [OF bk] book_outline [OF bk]
    show "accounted L b \<and> outline b = q \<longleftrightarrow> accounted L c \<and> outline c = q" by simp
  qed
qed

lemma temporary_and_then: "temporary m \<Longrightarrow> (\<And>x. temporary (f x)) \<Longrightarrow> temporary (and_then m f)"
  unfolding temporary_def by (intro allI keeps_and_then) blast+

lemma temporary_run:
  "temporary m \<Longrightarrow> accounted L b \<Longrightarrow> accounted L (snd (m b)) \<and> outline (snd (m b)) = outline b"
  unfolding temporary_def keeps_def by blast

lemma temporary_ok_or: "(\<And>x. temporary (f x)) \<Longrightarrow> temporary (and_then (ok_or a e) f)"
  by (rule temporary_and_then [OF temporary_steady [OF keeps_ok_or]])

lemma temporary_with_temp:
  assumes "null_on_error cd" and "\<And>h. temporary (body h)"
  shows "temporary (with_temp cd what body)"
  unfolding temporary_def keeps_def
proof (intro allI impI)
  fix L q b assume b: "accounted L b \<and> outline b = q"
  obtain r c where c: "create_buffer cd what b = (r, c)" by (cases "create_buffer cd what b")
  have o: "outline c = q" using outline_create_buffer [OF c] b by simp
  note a = accounted_create_buffer [OF c conjunct1 [OF b] assms(1)]
  show "accounted L (snd (with_temp cd what body b)) \<and> outline (snd (with_temp cd what body b)) = q"
  proof (cases r)
    case (Inl e)
    then show ?thesis using a o c by (simp add: with_temp_def)
  next
    case (Inr h)
    then have h: "accounted (L + held K_Mem h) c" using a by simp
    obtain x d where d: "body h c = (x, d)" by (cases "body h c")
    have "accounted (L + held K_Mem h) d" "outline d = outline c" using temporary_run [OF assms(2) h, of h] d by simp_all
    then show ?thesis using accounted_release_unless_null [of L K_Mem h d cd ReleaseMemObject] o c d Inr by (simp add: with_temp_def)
  qed
qed

lemma temporary_batch:
  assumes "null_on_error cd"
  shows "temporary (\<lambda>b. cl_bc3_batch cd b headers)"
proof -
  have read: "keeps (\<lambda>b. book b = q) (\<lambda>b. (Inr (g b), b))" for q and g :: "OpenClBackend \<Rightarrow> 'x" by (simp add: keeps_def)
  have body: "keeps (\<lambda>b. book b = q)
      (and_then (write_blocking cd ''headers'' i x) (\<lambda>_. and_then (set_args cd k args) (\<lambda>_.
       and_then (cl_launch cd k cnt loc (\<lambda>_. id)) (\<lambda>_.
       and_then (cl_call cd EnqueueReadBuffer ''read digests'' (\<lambda>_. run_all cd)) (\<lambda>_.
       and_then (\<lambda>b. (Inr (as_bytes (mem b out)), b)) (\<lambda>bytes.
       and_then (cl_call cd Finish ''clFinish'' (\<lambda>_. run_all cd)) (\<lambda>_. give (g bytes))))))))" for q i x k args cnt loc out
      and g :: "bytes \<Rightarrow> bytes list"
    unfolding cl_launch_def by (intro keeps_intros steady_cl_call read) simp_all
  have "temporary (\<lambda>b. and_then (ok_or (oc_bc3 c) ''BC3Hash program not built'') (\<lambda>k.
       let count = word_of_nat (length headers) :: u32
       in with_temp cd ''headers'' (\<lambda>d_in. with_temp cd ''digests'' (\<lambda>d_out.
            and_then (write_blocking cd ''headers'' d_in (Bytes (concat headers))) (\<lambda>_.
            and_then (set_args cd (bp_batch k) [Mem (bp_tables k), Mem d_in, U32 count, Mem d_out]) (\<lambda>_.
            and_then (cl_launch cd (bp_batch k) count (bp_local k) (\<lambda>_. id)) (\<lambda>_.
            and_then (cl_call cd EnqueueReadBuffer ''read digests'' (\<lambda>_. run_all cd)) (\<lambda>_.
            and_then (\<lambda>b. (Inr (as_bytes (mem b d_out)), b)) (\<lambda>out.
            and_then (cl_call cd Finish ''clFinish'' (\<lambda>_. run_all cd)) (\<lambda>_.
            give (map (\<lambda>j. take 32 (drop (32 * j) out)) [0..<length headers])))))))))) b)" for c
    unfolding Let_def
    by (intro temporary_ok_or temporary_with_temp assms temporary_steady body)
  then show ?thesis unfolding temporary_def keeps_def cl_bc3_batch_def by blast
qed

lemma tidy_batch:
  assumes "null_on_error cd" and "tidy L b"
  shows "tidy L (snd (cl_bc3_batch cd b hs)) \<and> oc_queued (snd (cl_bc3_batch cd b hs)) = oc_queued b \<and>
    oc_bc3 (snd (cl_bc3_batch cd b hs)) = oc_bc3 b"
proof -
  have "accounted L b" using assms(2) by (simp add: tidy_def)
  from temporary_run [OF temporary_batch [OF assms(1)] this, of hs]
  have a: "accounted L (snd (cl_bc3_batch cd b hs))" "outline (snd (cl_bc3_batch cd b hs)) = outline b" by simp_all
  then show ?thesis using tidy_outline [OF assms(2) a(2,1)] outline_queue [OF a(2)] by simp
qed

lemma tidy_idle: "tidy L b \<Longrightarrow> length (oc_queued b) \<le> QUEUE_DEPTH"
  by (simp add: tidy_def cl_ring_inv)

text \<open>The self-test of a backend of which everything is accounted for.\<close>

interpretation cl_kept: self_testable "cl_with cd prepare" "cl_bc3_batch cd" "\<lambda>b. null_on_error cd \<and> tidy L b \<and> oc_bc3 b = k"
  "\<lambda>b. null_on_error cd \<and> tidy L b \<and> oc_bc3 b = k" for cd prepare L k
proof
  let ?inv = "\<lambda>b. null_on_error cd \<and> tidy L b \<and> oc_bc3 b = k"
  fix b l u b' e scan hs assume b: "?inv b"
  show "?inv b'" if "be_enqueue (cl_with cd prepare) b l = (Inr u, b')" using tidy_enqueue b that by (auto simp: cl_with_def)
  show "?inv b'" if "be_enqueue (cl_with cd prepare) b l = (Inl e, b')" using tidy_enqueue b that by (auto simp: cl_with_def)
  show "?inv b'" if "be_collect (cl_with cd prepare) b = (Inr scan, b')" using tidy_collect b that by (auto simp: cl_with_def)
  show "?inv b'" if "be_collect (cl_with cd prepare) b = (Inl e, b')" using tidy_collect b that by (auto simp: cl_with_def)
  show "?inv (be_abandon (cl_with cd prepare) b)" using tidy_abandon [of L b cd] b by (simp add: cl_with_def)
  show "?inv (snd (cl_bc3_batch cd b hs))" using tidy_batch [of cd L b hs] b by simp
  show "be_in_flight (cl_with cd prepare) b \<le> QUEUE_DEPTH" using tidy_idle [of L b] b by (simp add: cl_with_def)
  show "be_in_flight (cl_with cd prepare) b' < be_in_flight (cl_with cd prepare) b"
    if "be_in_flight (cl_with cd prepare) b \<noteq> 0" "be_collect (cl_with cd prepare) b = (Inr scan, b')"
    using tidy_collect [of L b cd "Inr scan" b'] b that by (auto simp: cl_with_def)
  show "be_in_flight (cl_with cd prepare) (be_abandon (cl_with cd prepare) b) = 0"
    using tidy_abandon [of L b cd] b by (simp add: cl_with_def)
  show "be_in_flight (cl_with cd prepare) (snd (cl_bc3_batch cd b hs)) = be_in_flight (cl_with cd prepare) b"
    using tidy_batch [of cd L b hs] b by (simp add: cl_with_def)
qed

subsection \<open>What is being made\<close>

text \<open>
  A slot or a program as far as it has got, with the handles \<open>hs\<close> of it; the backend around it is as it
  was.
\<close>

definition crafting :: "('x \<Rightarrow> handles) \<Rightarrow> handles \<Rightarrow> _ \<Rightarrow> ('x \<Rightarrow> bool) \<Rightarrow> 'x \<times> OpenClBackend \<Rightarrow> bool" where
  "crafting hs L q P = (\<lambda>(x, b). accounted (L + hs x) b \<and> outline b = q \<and> P x)"

abbreviation crafted where "crafted hs L q \<equiv> crafting hs L q (\<lambda>_. True)"

lemma crafting_crafted: "crafting hs L q P s \<Longrightarrow> crafted hs L q s"
  by (auto simp: crafting_def)

lemma crafting_create:
  assumes "create cd f kind b = (code, h, c)" and "crafting hs L q P (x, b)" and "hs y = hs x + held kind h" and "Q y"
  shows "crafting hs L q Q (y, c)"
  using accounted_create [OF assms(1), of "L + hs x"] outline_create [OF assms(1)] assms(2-4) by (auto simp: crafting_def add.assoc)

lemma crafting_enter: "crafting hs L q P (x, b) \<Longrightarrow> enter cd b = (n, c) \<Longrightarrow> crafting hs L q P (x, c)"
  using accounted_book [OF enter_book] outline_enter by (auto simp: crafting_def)

lemma crafting_on_backend:
  assumes "\<And>q. keeps (\<lambda>b. book b = q) m"
  shows "triple (crafting hs L q P) (on_backend m) (\<lambda>_. crafting hs L q P) (crafted hs L q)"
proof (rule triple_keeps [OF _ crafting_crafted])
  have "accounted M (snd (m b)) \<and> outline (snd (m b)) = outline b" if "accounted M b" for M b
    using temporary_run [OF temporary_steady [OF assms] that] .
  then show "keeps (crafting hs L q P) (on_backend m)" by (fastforce simp: keeps_def on_backend_def crafting_def split: prod.splits)
qed

text \<open>A buffer for it, which is not there if there is an error.\<close>

lemma crafting_buffer:
  assumes "null_on_error cd" and "create_buffer cd what b = (r, c)" and "crafting hs L q P (x, b)"
  shows "case r of Inl e \<Rightarrow> crafting hs L q P (x, c) | Inr h \<Rightarrow> (\<forall>y Q. hs y = hs x + held K_Mem h \<longrightarrow> Q y \<longrightarrow> crafting hs L q Q (y, c))"
proof -
  have a: "accounted (L + hs x) b" and o: "outline c = q" and p: "P x"
    using assms(3) outline_create_buffer [OF assms(2)] by (simp_all add: crafting_def)
  from accounted_create_buffer [OF assms(2) a assms(1)] show ?thesis
    using o p by (auto simp: crafting_def ac_simps split: sum.split)
qed

text \<open>It owns all of it when it is made; otherwise what there was of it is released.\<close>

lemma crafting_owning:
  assumes "triple (crafting hs L q P) m (\<lambda>_. crafting hs L q Q) (crafted hs L q)"
    and "\<And>x b. accounted (L + hs x) b \<Longrightarrow> accounted L (dropped x b) \<and> outline (dropped x b) = outline b"
    and "P x" and "hs x = {#}"
  shows "triple (\<lambda>b. accounted L b \<and> outline b = q) (owning dropped m x)
    (\<lambda>x b. accounted (L + hs x) b \<and> outline b = q \<and> Q x) (\<lambda>b. accounted L b \<and> outline b = q)"
  unfolding triple_def
proof (intro allI impI)
  fix b assume b: "accounted L b \<and> outline b = q"
  obtain r y c where m: "m (x, b) = (r, y, c)" by (cases "m (x, b)") auto
  have "crafting hs L q P (x, b)" using assms(3,4) b by (simp add: crafting_def)
  from tripleD [OF assms(1) this m]
  show "case owning dropped m x b of (Inr x, t) \<Rightarrow> accounted (L + hs x) t \<and> outline t = q \<and> Q x
    | (Inl e, t) \<Rightarrow> accounted L t \<and> outline t = q"
    using assms(2) [of y c] by (cases r) (auto simp: owning_def m crafting_def)
qed

text \<open>A slot: its buffers are made in the order of its fields.\<close>

definition slot_empty :: "nat \<Rightarrow> ClSlot \<Rightarrow> bool" where
  "slot_empty n s \<longleftrightarrow> (\<forall>f\<in>set (drop n [sl_header, sl_target, sl_hits]). f s = 0) \<and> sl_kernel_done s = 0 \<and> sl_read_done s = 0"

lemma fill_buffer_crafting:
  assumes "null_on_error cd" and "\<And>s h. P s \<Longrightarrow> slot_handles (put h s) = slot_handles s + held K_Mem h \<and> Q (put h s)"
  shows "triple (crafting slot_handles L q P) (fill_buffer cd what put) (\<lambda>_. crafting slot_handles L q Q) (crafted slot_handles L q)"
  unfolding triple_def
proof (intro allI impI)
  fix t assume t: "crafting slot_handles L q P t"
  obtain s b where sb: "t = (s, b)" by (cases t)
  then have p: "P s" using t by (simp add: crafting_def)
  obtain r c where c: "create_buffer cd what b = (r, c)" by (cases "create_buffer cd what b")
  from crafting_buffer [OF assms(1) c t [unfolded sb]] show "case fill_buffer cd what put t of
      (Inr x, t) \<Rightarrow> crafting slot_handles L q Q t | (Inl e, t) \<Rightarrow> crafted slot_handles L q t"
    using assms(2) [OF p] by (cases r) (auto simp: fill_buffer_def sb c intro: crafting_crafted)
qed

lemma ClSlot_new_owns:
  assumes "null_on_error cd"
  shows "triple (\<lambda>b. accounted L b \<and> outline b = q) (ClSlot_new cd)
    (\<lambda>s b. accounted (L + slot_handles s) b \<and> outline b = q \<and> slot_empty 3 s) (\<lambda>b. accounted L b \<and> outline b = q)"
  unfolding ClSlot_new_def
proof (rule crafting_owning [where P = "slot_empty 0"])
  show "triple (crafting slot_handles L q (slot_empty 0))
      (and_then (fill_buffer cd ''header'' (\<lambda>h s. s\<lparr>sl_header := h\<rparr>)) (\<lambda>_.
       and_then (fill_buffer cd ''target'' (\<lambda>h s. s\<lparr>sl_target := h\<rparr>)) (\<lambda>_.
       fill_buffer cd ''hits'' (\<lambda>h s. s\<lparr>sl_hits := h\<rparr>))))
      (\<lambda>_. crafting slot_handles L q (slot_empty 3)) (crafted slot_handles L q)"
    by (rule triple_and_then, rule fill_buffer_crafting [where Q = "slot_empty 1", OF assms],
        simp add: slot_empty_def slot_handles_def held_def, rule triple_and_then,
        rule fill_buffer_crafting [where Q = "slot_empty 2", OF assms], simp add: slot_empty_def slot_handles_def held_def,
        rule fill_buffer_crafting [OF assms], simp add: slot_empty_def slot_handles_def held_def)
qed (simp_all add: accounted_drop_slot empty_slot_def slot_empty_def slot_handles_def held_def)

text \<open>The program, its kernels and its tables.\<close>

definition program_empty :: "u32 \<Rightarrow> nat \<Rightarrow> Bc3Program \<Rightarrow> bool" where
  "program_empty w n k \<longleftrightarrow> bp_window k = w \<and> (\<forall>f\<in>set (drop n [bp_program, bp_scan, bp_batch, bp_tables]). f k = 0)"

abbreviation programming where "programming L q w n \<equiv> crafting program_handles L q (program_empty w n)"

lemma make_program_crafting:
  "triple (programming L q w 0) (make_program cd) (\<lambda>_. programming L q w 1) (crafted program_handles L q)"
  unfolding triple_def
proof (intro allI impI)
  fix t assume t: "programming L q w 0 t"
  obtain k b where kb: "t = (k, b)" by (cases t)
  obtain code h c where c: "create cd CreateProgramWithSource K_Program b = (code, h, c)"
    by (cases "create cd CreateProgramWithSource K_Program b") auto
  have "programming L q w 1 (k\<lparr>bp_program := h\<rparr>, c)"
    by (rule crafting_create [OF c t [unfolded kb]])
      (use t in \<open>auto simp: kb crafting_def program_empty_def program_handles_def held_def\<close>)
  then show "case make_program cd t of (Inr x, t) \<Rightarrow> programming L q w 1 t | (Inl e, t) \<Rightarrow> crafted program_handles L q t"
    using crafting_crafted [of program_handles L q] by (simp add: make_program_def Let_def kb c)
qed

lemma make_kernel_crafting:
  assumes "\<And>k h. program_empty w n k \<Longrightarrow> program_handles (put h k) = program_handles k + held K_Kernel h \<and> program_empty w m (put h k)"
  shows "triple (programming L q w n) (make_kernel cd name put) (\<lambda>_. programming L q w m) (crafted program_handles L q)"
  unfolding triple_def
proof (intro allI impI)
  fix t assume t: "programming L q w n t"
  obtain k b where kb: "t = (k, b)" by (cases t)
  then have p: "program_empty w n k" using t by (simp add: crafting_def)
  obtain code h c where c: "create cd CreateKernel K_Kernel b = (code, h, c)"
    by (cases "create cd CreateKernel K_Kernel b") auto
  have "programming L q w m (put h k, c)"
    by (rule crafting_create [OF c t [unfolded kb]]) (use assms [OF p] in auto)
  then show "case make_kernel cd name put t of (Inr x, t) \<Rightarrow> programming L q w m t | (Inl e, t) \<Rightarrow> crafted program_handles L q t"
    using crafting_crafted [of program_handles L q] by (simp add: make_kernel_def Let_def kb c)
qed

lemma compile_program_crafting:
  "triple (programming L q w n) (compile_program cd window) (\<lambda>_. programming L q w n) (crafted program_handles L q)"
proof (rule triple_keeps [OF _ crafting_crafted])
  show "keeps (programming L q w n) (compile_program cd window)"
    by (auto simp: keeps_def compile_program_def Let_def dest: crafting_enter split: prod.splits)
qed

lemma ask_local_crafting:
  "triple (programming L q w 3) (ask_local cd) (\<lambda>_. programming L q w 3) (crafted program_handles L q)"
proof (rule triple_keeps [OF _ crafting_crafted])
  have "programming L q w 3 (k\<lparr>bp_local := x\<rparr>, b)" if "programming L q w 3 (k, b)" for k x b
  proof -
    have "program_handles (k\<lparr>bp_local := x\<rparr>) = program_handles k" "program_empty w 3 (k\<lparr>bp_local := x\<rparr>) = program_empty w 3 k"
      by (simp_all add: program_handles_def program_empty_def)
    then show ?thesis using that by (simp add: crafting_def)
  qed
  then show "keeps (programming L q w 3) (ask_local cd)"
    by (auto simp: keeps_def ask_local_def Let_def dest: crafting_enter split: prod.splits)
qed

lemma make_tables_crafting:
  assumes "null_on_error cd"
  shows "triple (programming L q w 3) (make_tables cd) (\<lambda>_. programming L q w 4) (crafted program_handles L q)"
  unfolding triple_def
proof (intro allI impI)
  fix t assume t: "programming L q w 3 t"
  obtain k b where kb: "t = (k, b)" by (cases t)
  obtain r c where c: "create_buffer cd ''tables'' b = (r, c)" by (cases "create_buffer cd ''tables'' b")
  have "program_handles (k\<lparr>bp_tables := h\<rparr>) = program_handles k + held K_Mem h \<and> program_empty w 4 (k\<lparr>bp_tables := h\<rparr>)" for h
    using t by (auto simp: kb crafting_def program_empty_def program_handles_def held_def)
  with crafting_buffer [OF assms c t [unfolded kb]]
  show "case make_tables cd t of (Inr x, t) \<Rightarrow> programming L q w 4 t | (Inl e, t) \<Rightarrow> crafted program_handles L q t"
    by (cases r) (auto simp: make_tables_def kb c intro: crafting_crafted)
qed

lemma fill_tables_crafting:
  "triple (programming L q w n) (fill_tables cd tables) (\<lambda>_. programming L q w n) (crafted program_handles L q)"
  using crafting_on_backend [OF steady_write_blocking] by (fastforce simp: triple_def fill_tables_def split: prod.splits)

lemma build_bc3_owns:
  assumes "null_on_error cd"
  shows "triple (\<lambda>b. accounted L b \<and> outline b = q) (build_bc3 cd window)
    (\<lambda>k b. accounted (L + program_handles k) b \<and> outline b = q \<and> program_empty window 4 k) (\<lambda>b. accounted L b \<and> outline b = q)"
proof -
  let ?start = "\<lparr>bp_window = window, bp_program = 0, bp_scan = 0, bp_batch = 0, bp_tables = 0, bp_local = LOCAL_SIZE\<rparr>"
  have "triple (programming L q window 0)
      (and_then (make_program cd) (\<lambda>_. and_then (compile_program cd window) (\<lambda>_.
       and_then (make_kernel cd ''bc3hash_scan'' (\<lambda>h k. k\<lparr>bp_scan := h\<rparr>)) (\<lambda>_.
       and_then (make_kernel cd ''bc3hash_batch'' (\<lambda>h k. k\<lparr>bp_batch := h\<rparr>)) (\<lambda>_.
       and_then (ask_local cd) (\<lambda>_.
       and_then (\<lambda>s. (fst (host_tables (cd_gpu_tables cd) (cd_cache cd (wd_calls (oc_world (snd s)))) window), s)) (\<lambda>tables.
       and_then (make_tables cd) (\<lambda>_. fill_tables cd tables))))))))
      (\<lambda>_. programming L q window 4) (crafted program_handles L q)" (is "triple _ ?m _ _")
  proof (rule triple_and_then [OF make_program_crafting], rule triple_and_then [OF compile_program_crafting], rule triple_and_then)
    show "triple (programming L q window 1) (make_kernel cd ''bc3hash_scan'' (\<lambda>h k. k\<lparr>bp_scan := h\<rparr>)) (\<lambda>_. programming L q window 2)
        (crafted program_handles L q)"
      by (rule make_kernel_crafting) (simp add: program_empty_def program_handles_def held_def)
    show "triple (programming L q window 2) (and_then (make_kernel cd ''bc3hash_batch'' (\<lambda>h k. k\<lparr>bp_batch := h\<rparr>)) (\<lambda>_.
       and_then (ask_local cd) (\<lambda>_.
       and_then (\<lambda>s. (fst (host_tables (cd_gpu_tables cd) (cd_cache cd (wd_calls (oc_world (snd s)))) window), s)) (\<lambda>tables.
       and_then (make_tables cd) (\<lambda>_. fill_tables cd tables))))) (\<lambda>_. programming L q window 4) (crafted program_handles L q)"
    proof (rule triple_and_then, rule make_kernel_crafting [where m = 3], simp add: program_empty_def program_handles_def held_def,
        rule triple_and_then [OF ask_local_crafting], rule triple_and_then)
      show "triple (programming L q window 3)
          (\<lambda>s. (fst (host_tables (cd_gpu_tables cd) (cd_cache cd (wd_calls (oc_world (snd s)))) window), s))
          (\<lambda>_. programming L q window 3) (crafted program_handles L q)"
        by (auto simp: triple_def intro: crafting_crafted split: sum.split)
      show "triple (programming L q window 3) (and_then (make_tables cd) (\<lambda>_. fill_tables cd t)) (\<lambda>_. programming L q window 4)
          (crafted program_handles L q)" for t
        by (rule triple_and_then [OF make_tables_crafting [OF assms] fill_tables_crafting])
    qed
  qed
  from crafting_owning [where x = ?start, OF this]
  have "triple (\<lambda>b. accounted L b \<and> outline b = q) (owning (drop_program cd) ?m ?start)
    (\<lambda>k b. accounted (L + program_handles k) b \<and> outline b = q \<and> program_empty window 4 k) (\<lambda>b. accounted L b \<and> outline b = q)"
    by (simp add: accounted_drop_program program_empty_def program_handles_def held_def)
  then show ?thesis by (auto simp: triple_def build_bc3_def split: prod.splits sum.splits)
qed

subsection \<open>Preparing, opening and dropping\<close>

lemma tidy_drop_bc3:
  assumes "tidy L b"
  shows "tidy L (drop_bc3 cd b) \<and> oc_bc3 (drop_bc3 cd b) = None \<and> oc_queued (drop_bc3 cd b) = oc_queued b"
proof (cases "oc_bc3 b")
  case None
  then show ?thesis using assms by (simp add: drop_bc3_def)
next
  case (Some k)
  let ?c = "b\<lparr>oc_bc3 := None\<rparr>"
  have "accounted (L + program_handles k) ?c"
    using assms Some by (simp add: tidy_def accounted_def owned_def bc3_handles_def ac_simps)
  moreover have "tidy (L + program_handles k) ?c"
    using assms calculation cl_ring_cong [of ?c b] by (simp add: tidy_def events_def)
  moreover note o = outline_drop_program [of cd k ?c]
  ultimately have "tidy L (drop_program cd k ?c)" using tidy_outline accounted_drop_program by blast
  then show ?thesis using outline_queue [OF o] Some by (simp add: drop_bc3_def)
qed

lemma tidy_build:
  assumes "null_on_error cd" and "tidy L b" and "oc_bc3 b = None" and "build_bc3 cd window b = (r, c)"
  shows "case r of Inl e \<Rightarrow> tidy L c \<and> oc_queued c = oc_queued b \<and> oc_bc3 c = None
    | Inr k \<Rightarrow> tidy L (c\<lparr>oc_bc3 := Some k\<rparr>) \<and> oc_queued c = oc_queued b \<and> bp_window k = window"
proof -
  have b: "accounted L b \<and> outline b = outline b" using assms(2) by (simp add: tidy_def)
  note o = tripleD [OF build_bc3_owns [OF assms(1)] b assms(4)]
  show ?thesis
  proof (cases r)
    case (Inl e)
    then have "accounted L c" "outline c = outline b" using o by simp_all
    then show ?thesis using Inl tidy_outline [OF assms(2)] outline_queue [of c b] assms(3) by simp
  next
    case (Inr k)
    then have k: "accounted (L + program_handles k) c" "outline c = outline b" "bp_window k = window"
      using o by (simp_all add: program_empty_def)
    note q = outline_queue [OF k(2)] and e = outline_events [OF k(2)]
    have "tidy (L + program_handles k) c"
      using k(1) assms(2) q e cl_ring_cong [of c b] by (simp add: tidy_def)
    then have "tidy L (c\<lparr>oc_bc3 := Some k\<rparr>)"
      using assms(3) q cl_ring_cong [of "c\<lparr>oc_bc3 := Some k\<rparr>" c]
      by (simp add: tidy_def accounted_def owned_def bc3_handles_def events_def ac_simps)
    then show ?thesis using Inr q k(3) by simp
  qed
qed

text \<open>The two ways \<open>prepare_bc3hash\<close> ends.\<close>

lemma cl_prepare_cases [consumes 2, case_names fails passes]:
  assumes "null_on_error cd" and "tidy L b"
  obtains e b' where "cl_prepare cd b window = (Inl e, b')" "tidy L b'" "oc_queued b' = []" "oc_bc3 b' = None"
  | k t c b' where "cl_prepare cd b window = (Inr t, b')" "tidy L b'" "oc_queued b' = []" "oc_bc3 b' = Some k"
      "bp_window k = window" "tidy L c" "oc_bc3 c = Some k" "oc_queued c = []" "cl_self_test cd c = Some (Inr (), b')"
proof -
  let ?a = "drop_bc3 cd (cl_abandon cd b)"
  have a: "tidy L ?a" "oc_bc3 ?a = None" "oc_queued ?a = []"
    using tidy_drop_bc3 tidy_abandon [OF assms(2), of cd] by auto
  obtain r c where l: "build_bc3 cd window ?a = (r, c)" by (cases "build_bc3 cd window ?a")
  note built = tidy_build [OF assms(1) a(1,2) l]
  show thesis
  proof (cases r)
    case (Inl e)
    then show thesis using that(1) l built a by (simp add: cl_prepare_def Let_def)
  next
    case (Inr k)
    let ?c = "c\<lparr>oc_bc3 := Some k\<rparr>"
    have c: "null_on_error cd \<and> tidy L ?c \<and> oc_bc3 ?c = Some k" "oc_queued ?c = []" "bp_window k = window"
      using built Inr a assms(1) by simp_all
    have flight: "be_in_flight (cl_with cd prepare) x = length (oc_queued x)" for prepare x by (simp add: cl_with_def)
    then have idle: "be_in_flight (cl_with cd prepare) ?c = 0" for prepare using c by simp
    obtain res d where t: "cl_self_test cd ?c = Some (res, d)" and d: "tidy L d" "oc_bc3 d = Some k" "oc_queued d = []"
      unfolding cl_self_test_def
      using cl_kept.drawn_self_test_ends [OF c(1) idle order_refl, of "\<lambda>b w. (Inl '''', b)"]
      by (metis flight length_0_conv)
    show thesis
    proof (cases res)
      case (Inl e)
      then show thesis using that(1) l Inr t tidy_drop_bc3 [OF d(1), of cd] d(3) by (simp add: cl_prepare_def Let_def)
    next
      case res: (Inr u)
      show thesis by (rule that(2) [of _ d k ?c]) (use l Inr res t d c in \<open>auto simp: cl_prepare_def Let_def\<close>)
    qed
  qed
qed

text \<open>The list of handles after a release, whoever owns them.\<close>

definition live :: "OpenClBackend \<Rightarrow> handles" where
  "live b = mset (wd_live (oc_world b))"

lemma live_release:
  assumes "live b = M + held kind h" and "\<not> wd_wrong (oc_world b)"
  shows "live (release_unless_null cd f kind h b) = M \<and> \<not> wd_wrong (oc_world (release_unless_null cd f kind h b)) \<and>
    oc_context (release_unless_null cd f kind h b) = oc_context b"
proof (cases "h = 0")
  case True
  then show ?thesis using assms by (simp add: release_unless_null_def held_def)
next
  case False
  have e: "wd_live (oc_world (snd (enter cd b))) = wd_live (oc_world b)" "\<not> wd_wrong (oc_world (snd (enter cd b)))"
    "oc_context (snd (enter cd b)) = oc_context b"
    using book_enter [of cd b] assms(2) by (simp_all add: book_def)
  have "(kind, h) \<in># live b" using False assms(1) by (simp add: held_def)
  then have "(kind, h) \<in> set (wd_live (oc_world b))" by (simp add: live_def)
  then show ?thesis using False assms(1) e by (simp add: release_unless_null_def release_def live_def held_def)
qed

lemma drop_slots_accounted:
  assumes "accounted L b"
  shows "accounted L (drop_slots cd b) \<and> oc_bc3 (drop_slots cd b) = oc_bc3 b \<and> oc_slots (drop_slots cd b) = []"
proof -
  have "accounted (M + slots_handles ss) c \<Longrightarrow> accounted M (fold (drop_slot cd) ss c) \<and> outline (fold (drop_slot cd) ss c) = outline c"
    for M ss c
  proof (induction ss arbitrary: c)
    case (Cons s ss)
    then have "accounted (M + slots_handles ss) (drop_slot cd s c)"
      by (intro accounted_drop_slot) (simp add: slots_handles_def ac_simps)
    from Cons.IH [OF this] show ?case by simp
  qed (simp add: slots_handles_def)
  moreover have "accounted (L + slots_handles (oc_slots b)) (b\<lparr>oc_slots := []\<rparr>)"
    using assms by (simp add: accounted_def owned_def bc3_handles_def slots_handles_def ac_simps)
  ultimately have "accounted L (drop_slots cd b) \<and> outline (drop_slots cd b) = outline (b\<lparr>oc_slots := []\<rparr>)"
    by (simp add: drop_slots_def Let_def)
  then show ?thesis by (simp add: outline_def)
qed

lemma drop_bc3_accounted:
  assumes "accounted L b"
  shows "accounted L (drop_bc3 cd b) \<and> oc_bc3 (drop_bc3 cd b) = None \<and> (oc_slots b = [] \<longrightarrow> oc_slots (drop_bc3 cd b) = [])"
proof (cases "oc_bc3 b")
  case (Some k)
  have "accounted (L + program_handles k) (b\<lparr>oc_bc3 := None\<rparr>)"
    using assms Some by (simp add: accounted_def owned_def bc3_handles_def ac_simps)
  then have "accounted L (drop_bc3 cd b)" using Some by (simp add: drop_bc3_def accounted_drop_program)
  moreover have "outline (drop_bc3 cd b) = outline (b\<lparr>oc_bc3 := None\<rparr>)" using Some by (simp add: drop_bc3_def)
  then have "map slot_book (oc_slots (drop_bc3 cd b)) = map slot_book (oc_slots b)" "oc_bc3 (drop_bc3 cd b) = None"
    by (simp_all add: outline_def)
  ultimately show ?thesis by auto
qed (use assms in \<open>simp add: drop_bc3_def\<close>)

lemma drop_backend_releases:
  assumes "accounted L b"
  shows "mset (wd_live (drop_backend cd b)) = L \<and> \<not> wd_wrong (drop_backend cd b)"
proof -
  let ?b = "if oc_queue b = 0 then b else cl_finish cd b"
  have "accounted L ?b" using assms accounted_book [OF book_finish [of cd b]] by simp
  then have s: "accounted L (drop_slots cd ?b)" "oc_slots (drop_slots cd ?b) = []" using drop_slots_accounted by blast+
  let ?c = "drop_bc3 cd (drop_slots cd ?b)"
  have c: "accounted L ?c" "oc_bc3 ?c = None" "oc_slots ?c = []" using drop_bc3_accounted [OF s(1), of cd] s(2) by auto
  let ?d = "release_unless_null cd ReleaseCommandQueue K_Queue (oc_queue ?c) ?c"
  have lc: "live ?c = (L + held K_Context (oc_context ?c)) + held K_Queue (oc_queue ?c)" "\<not> wd_wrong (oc_world ?c)"
    using c by (simp_all add: accounted_def live_def owned_def bc3_handles_def slots_handles_def ac_simps)
  note d = live_release [OF this, of cd ReleaseCommandQueue]
  then have ld: "live ?d = L + held K_Context (oc_context ?d)" "\<not> wd_wrong (oc_world ?d)" by simp_all
  note e = live_release [OF this, of cd ReleaseContext]
  then show ?thesis by (simp add: drop_backend_def Let_def live_def)
qed

subsection \<open>Opening a backend\<close>

lemma slot_empty_events: "slot_empty n s \<Longrightarrow> sl_kernel_done s = 0 \<and> sl_read_done s = 0"
  by (simp add: slot_empty_def)

text \<open>With the first \<open>n\<close> slots made.\<close>

definition opened :: "handles \<Rightarrow> nat \<Rightarrow> OpenClBackend \<Rightarrow> bool" where
  "opened L n b \<longleftrightarrow> accounted L b \<and> length (oc_slots b) = n \<and> (\<forall>i<n. events i b = (0, 0)) \<and> oc_queued b = [] \<and>
     oc_next_slot b = 0 \<and> oc_bc3 b = None"

lemma opened_accounted: "opened L n b \<Longrightarrow> accounted L b"
  by (simp add: opened_def)

lemma opened_book:
  assumes "book b = book c"
  shows "opened L n b \<longleftrightarrow> opened L n c"
proof -
  have "length (oc_slots b) = length (oc_slots c)" using book_length [OF assms] .
  moreover have "events i b = events i c" if "i < length (oc_slots b)" for i using book_events [OF assms that] .
  ultimately show ?thesis using accounted_book [OF assms] assms by (auto simp: opened_def book_def)
qed

lemma open_slot_opened:
  assumes "null_on_error cd"
  shows "triple (opened L n) (and_then (ClSlot_new cd) (\<lambda>s. change (\<lambda>b. b\<lparr>oc_slots := oc_slots b @ [s]\<rparr>)))
    (\<lambda>_. opened L (Suc n)) (accounted L)"
  unfolding triple_def
proof (intro allI impI)
  fix b assume b: "opened L n b"
  obtain r c where c: "ClSlot_new cd b = (r, c)" by (cases "ClSlot_new cd b")
  have "accounted L b \<and> outline b = outline b" using b by (simp add: opened_def)
  note o = tripleD [OF ClSlot_new_owns [OF assms] this c]
  show "case and_then (ClSlot_new cd) (\<lambda>s. change (\<lambda>b. b\<lparr>oc_slots := oc_slots b @ [s]\<rparr>)) b of
      (Inr x, t) \<Rightarrow> opened L (Suc n) t | (Inl e, t) \<Rightarrow> accounted L t"
  proof (cases r)
    case (Inl e)
    then show ?thesis using o by (simp add: and_then_def c)
  next
    case (Inr s)
    then have s: "accounted (L + slot_handles s) c" "outline c = outline b" "slot_empty 3 s" using o by simp_all
    have "length (oc_slots c) = n" "\<forall>i<n. events i c = (0, 0)" "oc_queued c = [] \<and> oc_next_slot c = 0 \<and> oc_bc3 c = None"
      using b outline_events [OF s(2)] outline_queue [OF s(2)] by (simp_all add: opened_def)
    then have "opened L (Suc n) (c\<lparr>oc_slots := oc_slots c @ [s]\<rparr>)"
      using s(1) slot_empty_events [OF s(3)]
      by (simp add: opened_def accounted_def owned_def bc3_handles_def slots_handles_def events_def nth_append less_Suc_eq ac_simps)
    then show ?thesis using Inr by (simp add: and_then_def c change_def)
  qed
qed

lemma open_slots_opened:
  assumes "null_on_error cd"
  shows "triple (opened L n) (for_each xs (\<lambda>_. and_then (ClSlot_new cd) (\<lambda>s. change (\<lambda>b. b\<lparr>oc_slots := oc_slots b @ [s]\<rparr>))))
    (\<lambda>_. opened L (n + length xs)) (accounted L)"
proof (induction xs arbitrary: n)
  case Nil
  show ?case by (simp add: triple_def give_def)
next
  case (Cons x xs)
  have "triple (opened L (Suc n)) (for_each xs (\<lambda>_. and_then (ClSlot_new cd) (\<lambda>s. change (\<lambda>b. b\<lparr>oc_slots := oc_slots b @ [s]\<rparr>))))
    (\<lambda>_. opened L (n + length (x # xs))) (accounted L)" using Cons.IH [of "Suc n"] by (simp only: list.size add_Suc_right add_Suc add_0_right)
  from triple_and_then [OF open_slot_opened [OF assms] this] show ?case by (simp only: for_each.simps)
qed

lemma accounted_context:
  "accounted (L + held K_Context h) b \<Longrightarrow> oc_context b = 0 \<Longrightarrow> accounted L (b\<lparr>oc_context := h\<rparr>)"
  by (simp add: accounted_def owned_def bc3_handles_def held_def ac_simps)

lemma accounted_queue:
  "accounted (L + held K_Queue h) b \<Longrightarrow> oc_queue b = 0 \<Longrightarrow> accounted L (b\<lparr>oc_queue := h\<rparr>)"
  by (simp add: accounted_def owned_def bc3_handles_def held_def ac_simps)

lemma opened_outline:
  assumes "opened M n b" and "outline c = outline b" and "accounted L c"
  shows "opened L n c"
  using assms outline_events [OF assms(2)] outline_queue [OF assms(2)] by (simp add: opened_def)

lemma open_context_opened:
  "triple (\<lambda>b. opened L 0 b \<and> oc_context b = 0 \<and> oc_queue b = 0) (open_context cd)
    (\<lambda>_ b. opened L 0 b \<and> oc_queue b = 0) (accounted L)"
  unfolding triple_def
proof (intro allI impI)
  fix b assume b: "opened L 0 b \<and> oc_context b = 0 \<and> oc_queue b = 0"
  obtain code h c where c: "create cd CreateContext K_Context b = (code, h, c)" by (cases "create cd CreateContext K_Context b") auto
  note o = outline_create [OF c]
  have "accounted (L + held K_Context h) c" "oc_context c = 0" "oc_queue c = 0"
    using accounted_create [OF c] b o by (simp_all add: opened_def outline_def)
  then have "accounted L (c\<lparr>oc_context := h\<rparr>)" "oc_queue (c\<lparr>oc_context := h\<rparr>) = 0" by (simp_all add: accounted_context)
  moreover have "oc_slots c = []" "oc_queued c = []" "oc_next_slot c = 0" "oc_bc3 c = None"
    using b o by (simp_all add: opened_def outline_def)
  ultimately show "case open_context cd b of (Inr x, t) \<Rightarrow> opened L 0 t \<and> oc_queue t = 0 | (Inl e, t) \<Rightarrow> accounted L t"
    by (auto simp: open_context_def c opened_def Let_def split: sum.split)
qed

lemma create_queue_owns:
  assumes "create_queue cd lib b = (r, c)" and "accounted L b"
  shows "outline c = outline b \<and> (case r of Inl e \<Rightarrow> accounted L c | Inr q \<Rightarrow> accounted (L + held K_Queue q) c)"
proof (cases "queue_entry lib")
  case None
  then show ?thesis using assms by (auto simp: create_queue_def)
next
  case (Some f)
  obtain code h d where d: "create cd f K_Queue b = (code, h, d)" by (cases "create cd f K_Queue b") auto
  have a: "accounted (L + held K_Queue h) d" by (rule accounted_create [OF d assms(2)])
  show ?thesis
    using assms(1) Some d a outline_create [OF d] accounted_release_unless_null [OF a, of cd ReleaseCommandQueue]
    by (auto simp: create_queue_def split: if_splits)
qed

lemma open_queue_opened:
  "triple (\<lambda>b. opened L 0 b \<and> oc_queue b = 0) (open_queue cd lib) (\<lambda>_. opened L 0) (accounted L)"
  unfolding triple_def
proof (intro allI impI)
  fix b assume b: "opened L 0 b \<and> oc_queue b = 0"
  have made: "opened L 0 (c\<lparr>oc_queue := q\<rparr>)" if "accounted (L + held K_Queue q) c" "outline c = outline b" for c q
  proof -
    have "accounted L (c\<lparr>oc_queue := q\<rparr>)" using accounted_queue [OF that(1)] b that(2) by (simp add: outline_def)
    then show ?thesis using b that(2) by (simp add: opened_def outline_def)
  qed
  obtain r c where c: "create_queue cd lib b = (r, c)" by (cases "create_queue cd lib b")
  have "accounted L b" using b by (simp add: opened_def)
  note o = create_queue_owns [OF c this]
  show "case open_queue cd lib b of (Inr x, t) \<Rightarrow> opened L 0 t | (Inl e, t) \<Rightarrow> accounted L t"
  proof (cases r)
    case (Inr q)
    then show ?thesis using o made by (simp add: open_queue_def c)
  next
    case (Inl e)
    obtain r' d where d: "create_queue cd lib c = (r', d)" by (cases "create_queue cd lib c")
    have "accounted L c" using o Inl by simp
    note o' = create_queue_owns [OF d this]
    show ?thesis using o o' Inl made by (cases r') (simp_all add: open_queue_def c d)
  qed
qed

lemma new_typed_tidy:
  assumes "null_on_error cd" and "\<not> wd_wrong w" and "new_typed cd px dx dtype w = (r, w')"
  shows "case r of Inl e \<Rightarrow> mset (wd_live w') = mset (wd_live w) \<and> \<not> wd_wrong w' | Inr b \<Rightarrow> tidy (mset (wd_live w)) b \<and> oc_world b = w'"
proof -
  let ?L = "mset (wd_live w)"
  have run: "triple (\<lambda>b. opened ?L 0 b \<and> oc_context b = 0 \<and> oc_queue b = 0)
      (and_then (open_context cd) (\<lambda>_. and_then (open_queue cd lib) (\<lambda>_. open_slots cd)))
      (\<lambda>_. opened ?L QUEUE_DEPTH) (accounted ?L)" for lib
    unfolding open_slots_def
    by (rule triple_and_then [OF open_context_opened], rule triple_and_then [OF open_queue_opened],
        rule triple_conseq [OF open_slots_opened [OF assms(1), where n = 0]]) simp_all
  show ?thesis
  proof (cases "\<exists>lib platform device. cd_load cd = Inr lib \<and> list_get (platforms cd) px = Some platform \<and>
      list_get (devices_of cd platform dtype) dx = Some device")
    case False
    then show ?thesis using assms by (auto simp: new_typed_def split: sum.splits option.splits)
  next
    case True
    then obtain lib platform device where l: "cd_load cd = Inr lib" "list_get (platforms cd) px = Some platform"
      "list_get (devices_of cd platform dtype) dx = Some device" by blast
    let ?me = "\<lparr>oc_context = 0, oc_queue = 0,
      oc_name = (case device_name cd device of Some name \<Rightarrow> name | None \<Rightarrow> device_label px dx),
      oc_slots = [], oc_queued = [], oc_next_slot = 0, oc_device = device, oc_bc3 = None, oc_world = w\<rparr>"
    have me: "opened ?L 0 ?me \<and> oc_context ?me = 0 \<and> oc_queue ?me = 0"
      using assms(2) by (simp add: opened_def accounted_def owned_def bc3_handles_def slots_handles_def held_def)
    obtain x b where x: "and_then (open_context cd) (\<lambda>_. and_then (open_queue cd lib) (\<lambda>_. open_slots cd)) ?me = (x, b)"
      by (cases "and_then (open_context cd) (\<lambda>_. and_then (open_queue cd lib) (\<lambda>_. open_slots cd)) ?me")
    note o = tripleD [OF run me x]
    show ?thesis
    proof (cases x)
      case (Inl e)
      then show ?thesis using assms(3) l x o drop_backend_releases [of ?L b cd] by (auto simp: new_typed_def Let_def)
    next
      case (Inr u)
      then have "opened ?L QUEUE_DEPTH b" "r = Inr b" "w' = oc_world b" using o assms(3) l x by (simp_all add: new_typed_def Let_def)
      then show ?thesis by (simp add: opened_def tidy_def cl_ring_inv QUEUE_DEPTH_def)
    qed
  qed
qed

subsection \<open>Whatever it is used for\<close>

text \<open>The backends a backend becomes, one method after another, whatever each returns.\<close>

inductive cl_uses :: "ClDriver \<Rightarrow> OpenClBackend \<Rightarrow> OpenClBackend \<Rightarrow> bool" for cd b where
  unused: "cl_uses cd b b"
| enqueued: "cl_uses cd b c \<Longrightarrow> cl_uses cd b (snd (cl_enqueue cd c l))"
| collected: "cl_uses cd b c \<Longrightarrow> cl_uses cd b (snd (cl_collect cd c))"
| abandoned: "cl_uses cd b c \<Longrightarrow> cl_uses cd b (cl_abandon cd c)"
| prepared: "cl_uses cd b c \<Longrightarrow> cl_uses cd b (snd (cl_prepare cd c window))"

lemma tidy_uses:
  assumes "cl_uses cd b c" and "null_on_error cd" and "tidy L b"
  shows "tidy L c"
  using assms
proof induction
  case (enqueued c l)
  then show ?case using tidy_enqueue [of L c cd l] by (cases "cl_enqueue cd c l") auto
next
  case (collected c)
  then show ?case using tidy_collect [of L c cd] by (cases "cl_collect cd c") auto
next
  case (abandoned c)
  then show ?case using tidy_abandon by blast
next
  case (prepared c window)
  then have "null_on_error cd" "tidy L c" by simp_all
  then show ?case by (cases rule: cl_prepare_cases [where window = window]) simp_all
qed

text \<open>A runtime that hands out what it is asked for opens the card.\<close>

definition hands_out :: "ClDriver \<Rightarrow> bool" where
  "hands_out cd \<longleftrightarrow> (\<forall>n. \<not> cd_null cd n) \<and>
     (\<forall>f n. f \<in> {CreateContext, CreateCommandQueue, CreateCommandQueueWithProperties, CreateBuffer} \<longrightarrow> cd_code cd f n = CL_SUCCESS)"

lemma create_handed_out:
  assumes "hands_out cd" and "f \<in> {CreateContext, CreateCommandQueue, CreateCommandQueueWithProperties, CreateBuffer}"
  shows "\<exists>h c. create cd f kind b = (CL_SUCCESS, Suc h, c)"
  using assms by (auto simp: create_def hands_out_def split: prod.split)

lemma create_buffer_handed_out: "hands_out cd \<Longrightarrow> \<exists>h c. create_buffer cd what b = (Inr h, c)"
  using create_handed_out [of cd CreateBuffer K_Mem b] by (auto simp: create_buffer_def check_def)

lemma ClSlot_new_handed_out: "hands_out cd \<Longrightarrow> \<exists>s c. ClSlot_new cd b = (Inr s, c)"
proof -
  assume cd: "hands_out cd"
  have fill: "\<exists>y d. fill_buffer cd what put (x, c) = (Inr (), y, d)" for what put x c
    using create_buffer_handed_out [OF cd, of what c] by (auto simp: fill_buffer_def)
  obtain s c where 1: "fill_buffer cd ''header'' (\<lambda>h s. s\<lparr>sl_header := h\<rparr>) (empty_slot, b) = (Inr (), s, c)" using fill by blast
  obtain t d where 2: "fill_buffer cd ''target'' (\<lambda>h s. s\<lparr>sl_target := h\<rparr>) (s, c) = (Inr (), t, d)" using fill by blast
  obtain u e where 3: "fill_buffer cd ''hits'' (\<lambda>h s. s\<lparr>sl_hits := h\<rparr>) (t, d) = (Inr (), u, e)" using fill by blast
  show ?thesis by (simp add: ClSlot_new_def owning_def and_then_def 1 2 3)
qed

lemma opened_handed_out:
  assumes "hands_out cd" and "cd_load cd = Inr lib" and "queue_entry lib = Some f" and "list_get (platforms cd) px = Some platform"
    and "list_get (devices_of cd platform CL_DEVICE_TYPE_GPU) dx = Some device"
  shows "\<exists>b w'. OpenClBackend_new cd px dx w = (Inr b, w')"
proof -
  have f: "f = CreateCommandQueue \<or> f = CreateCommandQueueWithProperties" using assms(3) by (auto simp: queue_entry_def split: if_splits)
  have ctx: "\<exists>t. open_context cd b = (Inr (), t)" for b
    using create_handed_out [OF assms(1), of CreateContext K_Context b] by (auto simp: open_context_def check_def)
  have q: "\<exists>t. open_queue cd lib b = (Inr (), t)" for b
    using create_handed_out [OF assms(1), of f K_Queue b] f by (auto simp: open_queue_def create_queue_def assms(3))
  have s: "\<exists>t. open_slots cd b = (Inr (), t)" for b
    unfolding open_slots_def
  proof (rule for_each_total)
    fix x s
    obtain y c where "ClSlot_new cd s = (Inr y, c)" using ClSlot_new_handed_out [OF assms(1), of s] by blast
    then show "\<exists>t. and_then (ClSlot_new cd) (\<lambda>s. change (\<lambda>b. b\<lparr>oc_slots := oc_slots b @ [s]\<rparr>)) s = (Inr (), t)"
      by (simp add: and_then_def)
  qed
  have "\<exists>t. and_then (open_context cd) (\<lambda>_. and_then (open_queue cd lib) (\<lambda>_. open_slots cd)) b = (Inr (), t)" for b
  proof -
    obtain t where t: "open_context cd b = (Inr (), t)" using ctx by blast
    obtain t' where t': "open_queue cd lib t = (Inr (), t')" using q by blast
    obtain t'' where "open_slots cd t' = (Inr (), t'')" using s by blast
    then show ?thesis using t t' by (simp add: and_then_def)
  qed
  from this [where b = "\<lparr>oc_context = 0, oc_queue = 0,
      oc_name = (case device_name cd device of Some name \<Rightarrow> name | None \<Rightarrow> device_label px dx),
      oc_slots = [], oc_queued = [], oc_next_slot = 0, oc_device = device, oc_bc3 = None, oc_world = w\<rparr>"]
  show ?thesis using assms(2,4,5) by (auto simp: OpenClBackend_new_def new_typed_def Let_def)
qed

section \<open>Properties\<close>

text \<open>
  C16. Opening an OpenCL card that fails, at whichever call, leaves no handle behind and
  releases none twice; a card that opens can then be used in any way - launches that fail halfway
  through their commands, waits that fail, programs that do not build, self-tests that do not pass -
  and when it is dropped every handle it was ever given has been released, once.
\<close>

theorem opencl_handles_released_once:
  assumes "null_on_error cd" and "\<not> wd_wrong w" and "OpenClBackend_new cd px dx w = (r, w')"
  shows "case r of
      Inl e \<Rightarrow> mset (wd_live w') = mset (wd_live w) \<and> \<not> wd_wrong w'
    | Inr b \<Rightarrow> oc_world b = w' \<and>
        (\<forall>c. cl_uses cd b c \<longrightarrow> mset (wd_live (drop_backend cd c)) = mset (wd_live w) \<and> \<not> wd_wrong (drop_backend cd c))"
proof (cases r)
  case (Inl e)
  then show ?thesis using new_typed_tidy [OF assms(1,2) assms(3) [unfolded OpenClBackend_new_def]] by simp
next
  case (Inr b)
  then have b: "tidy (mset (wd_live w)) b" "oc_world b = w'"
    using new_typed_tidy [OF assms(1,2) assms(3) [unfolded OpenClBackend_new_def]] by simp_all
  have "mset (wd_live (drop_backend cd c)) = mset (wd_live w) \<and> \<not> wd_wrong (drop_backend cd c)" if "cl_uses cd b c" for c
    using drop_backend_releases [of "mset (wd_live w)" c cd] tidy_uses [OF that assms(1) b(1)] by (simp add: tidy_def)
  then show ?thesis using Inr b(2) by simp
qed

text \<open>A driver of one device, where the flush of the second launch fails.\<close>

definition demo_cl :: ClDriver where
  "demo_cl = \<lparr>cd_load = Inr \<lparr>cl_create_command_queue = True, cl_create_command_queue_with_properties = False\<rparr>,
     cd_platform_ids = ((0, 1), \<lambda>_. (0, [7])), cd_device_ids = \<lambda>_ _. ((0, 1), \<lambda>_. (0, [9])),
     cd_device_name = \<lambda>_. ((0, 4), \<lambda>_. (0, [65, 49, 0, 0])), cd_device_vendor = \<lambda>_. ((0, 0), \<lambda>_. (0, [])),
     cd_build_log = \<lambda>_. ((0, 0), \<lambda>_. (0, [])), cd_lossy = \<lambda>_. ''A1'',
     cd_code = \<lambda>f n. if f = Flush \<and> 12 < n then - 5 else 0, cd_null = \<lambda>_. False, cd_progress = \<lambda>n. n mod 3,
     cd_group_size = \<lambda>_. 256, cd_ns = \<lambda>_. 0, cd_fresh = \<lambda>_. Words [0, 0],
     cd_scan = \<lambda>_ _ _ _ start cnt _ hits _. hits[0 := 1, 1 := start], cd_batch = \<lambda>_ _ _ _ _. [],
     cd_gpu_tables = \<lambda>_. Inr [], cd_cache = \<lambda>_. None, cd_vectors = [], cd_pow = \<lambda>_. replicate 32 0,
     cd_nanos = \<lambda>_. None, cd_clock = \<lambda>n. n, cd_differs = \<lambda>_. ''differs''\<rparr>"

definition demo_world :: ClWorld where
  "demo_world = \<lparr>wd_calls = 0, wd_live = [], wd_wrong = False, wd_mem = \<lambda>_. Bytes [], wd_args = \<lambda>_ _. None, wd_pending = []\<rparr>"

definition demo_cl_launch :: "u32 \<Rightarrow> Launch" where
  "demo_cl_launch n = \<lparr>la_algo = Bc3Hash, la_header76 = replicate 76 0, la_start = n, la_count = 5, la_target = replicate 32 0\<rparr>"

lemma demo_cl_opens: "\<exists>b w. OpenClBackend_new demo_cl 0 0 demo_world = (Inr b, w)"
proof (rule opened_handed_out [where f = CreateCommandQueue and platform = 7 and device = 9 and
      lib = "\<lparr>cl_create_command_queue = True, cl_create_command_queue_with_properties = False\<rparr>"])
  show "hands_out demo_cl" by (simp add: hands_out_def demo_cl_def CL_SUCCESS_def)
qed (simp_all add: demo_cl_def queue_entry_def platforms_def devices_of_def ids_of_def CL_SUCCESS_def copy_at_def list_get_def)

theorem opencl_handles_released_once_witness:
  "\<exists>b w. OpenClBackend_new demo_cl 0 0 demo_world = (Inr b, w) \<and>
     wd_live (drop_backend demo_cl (snd (cl_prepare demo_cl (snd (cl_enqueue demo_cl b (demo_cl_launch 7))) 16))) = []"
proof -
  have n: "null_on_error demo_cl" by (simp add: null_on_error_def demo_cl_def CL_SUCCESS_def)
  obtain b w where o: "OpenClBackend_new demo_cl 0 0 demo_world = (Inr b, w)" using demo_cl_opens by blast
  have "cl_uses demo_cl b (snd (cl_prepare demo_cl (snd (cl_enqueue demo_cl b (demo_cl_launch 7))) 16))"
    by (intro cl_uses.intros)
  moreover note opencl_handles_released_once [OF n _ o]
  ultimately show ?thesis using o by (simp add: demo_world_def)
qed

end
