(* ===== verification/Opencl_Queue.thy ===== *)
theory Opencl_Queue
  imports Opencl_Handles
begin

text \<open>
  What a scan of an OpenCL card is the scan of. The device runs the queued commands late, and the copies
  among them read and write the host memory of the slots when they run. \<open>settled\<close> is the backend as it
  will be once everything queued has run: the invariants speak of it, and every call leaves them
  whatever the device does in the meantime.
\<close>

section \<open>Definitions\<close>

definition settled :: "ClDriver \<Rightarrow> OpenClBackend \<Rightarrow> OpenClBackend" where
  "settled cd b = fold (exec cd) (pending b) b"

text \<open>The slot whose host memory a command uses, in the order of the commands of a launch, and the slots read back into.\<close>

fun host_of :: "ClCmd \<Rightarrow> nat option" where
  "host_of (Write_header h i) = Some i"
| "host_of (Write_target h i) = Some i"
| "host_of (Write_count h i) = Some i"
| "host_of (Read_hits h i) = Some i"
| "host_of (Run_kernel k args dims) = None"

fun rank :: "ClCmd \<Rightarrow> nat" where
  "rank (Write_header h i) = 0"
| "rank (Write_target h i) = 1"
| "rank (Write_count h i) = 2"
| "rank (Run_kernel k args dims) = 3"
| "rank (Read_hits h i) = 3"

fun reads :: "ClCmd list \<Rightarrow> nat list" where
  "reads [] = []"
| "reads (c # cs) = (case c of Read_hits h i \<Rightarrow> i # reads cs | _ \<Rightarrow> reads cs)"

text \<open>Of a slot's commands the readback is the last.\<close>

definition ends_in_read :: "ClCmd list \<Rightarrow> nat \<Rightarrow> bool" where
  "ends_in_read cs i \<longleftrightarrow> (let own = filter (\<lambda>c. host_of c = Some i) cs in own = [] \<or> (\<exists>h. last own = Read_hits h i))"

text \<open>What a change of slot \<open>i\<close> must leave alone for a command to be as before.\<close>

fun blind :: "ClCmd \<Rightarrow> (ClSlot \<Rightarrow> ClSlot) \<Rightarrow> bool" where
  "blind (Write_header h i) f \<longleftrightarrow> (\<forall>s. ch_header (sl_host (f s)) = ch_header (sl_host s))"
| "blind (Write_target h i) f \<longleftrightarrow> (\<forall>s. ch_target (sl_host (f s)) = ch_target (sl_host s))"
| "blind (Write_count h i) f \<longleftrightarrow> (\<forall>s. ch_zero (sl_host (f s)) = ch_zero (sl_host s))"
| "blind (Read_hits h i) f \<longleftrightarrow> (\<forall>g s. f (host g s) = host g (f s))"
| "blind (Run_kernel k args dims) f \<longleftrightarrow> True"

section \<open>Lemmas\<close>

subsection \<open>Commands and changes of the backend\<close>

lemma exec_fields [simp]:
  "oc_context (exec cd c b) = oc_context b" "oc_queue (exec cd c b) = oc_queue b" "oc_queued (exec cd c b) = oc_queued b"
  "oc_next_slot (exec cd c b) = oc_next_slot b" "oc_bc3 (exec cd c b) = oc_bc3 b"
  "length (oc_slots (exec cd c b)) = length (oc_slots b)" "pending (exec cd c b) = pending b"
  "wd_calls (oc_world (exec cd c b)) = wd_calls (oc_world b)" "wd_args (oc_world (exec cd c b)) = wd_args (oc_world b)"
  by (cases c; simp add: set_mem_def pending_def)+

lemma fold_exec_fields [simp]:
  "oc_queued (fold (exec cd) cs b) = oc_queued b" "oc_next_slot (fold (exec cd) cs b) = oc_next_slot b"
  "oc_bc3 (fold (exec cd) cs b) = oc_bc3 b" "length (oc_slots (fold (exec cd) cs b)) = length (oc_slots b)"
  "pending (fold (exec cd) cs b) = pending b" "wd_calls (oc_world (fold (exec cd) cs b)) = wd_calls (oc_world b)"
  "wd_args (oc_world (fold (exec cd) cs b)) = wd_args (oc_world b)"
  by (induction cs arbitrary: b) simp_all

lemma settled_fields [simp]:
  "oc_queued (settled cd b) = oc_queued b" "oc_next_slot (settled cd b) = oc_next_slot b" "oc_bc3 (settled cd b) = oc_bc3 b"
  "length (oc_slots (settled cd b)) = length (oc_slots b)" "pending (settled cd b) = pending b"
  "wd_calls (oc_world (settled cd b)) = wd_calls (oc_world b)" "wd_args (oc_world (settled cd b)) = wd_args (oc_world b)"
  by (simp_all add: settled_def)

text \<open>A command writes a slot only as far as its hits.\<close>

definition slot_frame where
  "slot_frame s = (sl_header s, sl_target s, sl_hits s, sl_header_of s, sl_target_of s, sl_kernel_done s, sl_read_done s,
     ch_header (sl_host s), ch_target (sl_host s), ch_zero (sl_host s))"

lemma exec_frame: "map slot_frame (oc_slots (exec cd c b)) = map slot_frame (oc_slots b)"
  by (cases c) (simp_all add: map_update_id slot_frame_def host_def)

lemma settled_frame: "map slot_frame (oc_slots (settled cd b)) = map slot_frame (oc_slots b)"
proof -
  have "map slot_frame (oc_slots (fold (exec cd) cs b)) = map slot_frame (oc_slots b)" for cs
    by (induction cs arbitrary: b) (simp_all add: exec_frame)
  then show ?thesis by (simp add: settled_def)
qed

lemma settled_slot:
  assumes "i < length (oc_slots b)"
  shows "slot_frame (oc_slots (settled cd b) ! i) = slot_frame (oc_slots b ! i)"
proof -
  have "map slot_frame (oc_slots (settled cd b)) ! i = map slot_frame (oc_slots b) ! i" by (simp only: settled_frame)
  then show ?thesis using assms by simp
qed

lemma mem_cl_slot [simp]: "mem (cl_slot i f b) = mem b"
  by (simp add: mem_def)

lemma set_mem_cl_slot: "set_mem h x (cl_slot i f b) = cl_slot i f (set_mem h x b)"
  by (simp add: set_mem_def world_def cl_slot_def)

lemma cl_slot_swap: "i \<noteq> j \<Longrightarrow> cl_slot i f (cl_slot j g b) = cl_slot j g (cl_slot i f b)"
  by (simp add: cl_slot_def list_update_swap)

lemma cl_slot_twice: "(\<And>s. f (g s) = g (f s)) \<Longrightarrow> cl_slot i f (cl_slot i g b) = cl_slot i g (cl_slot i f b)"
  by (cases "i < length (oc_slots b)") (simp_all add: cl_slot_def list_update_beyond)

lemma nth_update_same: "(i = j \<Longrightarrow> p (f (xs ! i)) = p (xs ! i)) \<Longrightarrow> p (xs[i := f (xs ! i)] ! j) = p (xs ! j)"
  by (cases "i < length xs") (auto simp: nth_list_update list_update_beyond)

lemma exec_cl_slot:
  assumes "host_of c = Some i \<Longrightarrow> blind c f"
  shows "exec cd c (cl_slot i f b) = cl_slot i f (exec cd c b)"
proof (cases c)
  case (Write_header h j)
  have "ch_header (sl_host ((oc_slots b)[i := f (oc_slots b ! i)] ! j)) = ch_header (sl_host (oc_slots b ! j))"
    by (rule nth_update_same) (use assms Write_header in simp)
  then show ?thesis by (simp add: Write_header set_mem_cl_slot)
next
  case (Write_target h j)
  have "ch_target (sl_host ((oc_slots b)[i := f (oc_slots b ! i)] ! j)) = ch_target (sl_host (oc_slots b ! j))"
    by (rule nth_update_same) (use assms Write_target in simp)
  then show ?thesis by (simp add: Write_target set_mem_cl_slot)
next
  case (Write_count h j)
  have "ch_zero (sl_host ((oc_slots b)[i := f (oc_slots b ! i)] ! j)) = ch_zero (sl_host (oc_slots b ! j))"
    by (rule nth_update_same) (use assms Write_count in simp)
  then show ?thesis by (simp add: Write_count set_mem_cl_slot)
next
  case (Read_hits h j)
  show ?thesis
  proof (cases "i = j")
    case True
    then show ?thesis using assms Read_hits cl_slot_twice [of f, where i = j] by simp
  next
    case False
    then show ?thesis using cl_slot_swap by (simp add: Read_hits)
  qed
qed (simp add: set_mem_cl_slot)

lemma settled_cl_slot:
  assumes "\<And>c. c \<in> set (pending b) \<Longrightarrow> host_of c = Some i \<Longrightarrow> blind c f"
  shows "settled cd (cl_slot i f b) = cl_slot i f (settled cd b)"
proof -
  have "(\<And>c. c \<in> set cs \<Longrightarrow> host_of c = Some i \<Longrightarrow> blind c f) \<Longrightarrow> fold (exec cd) cs (cl_slot i f b) = cl_slot i f (fold (exec cd) cs b)" for cs
    by (induction cs arbitrary: b) (simp_all add: exec_cl_slot)
  then show ?thesis using assms by (simp add: settled_def)
qed

text \<open>Changes of the world beside its memory.\<close>

definition keeps_mem :: "(ClWorld \<Rightarrow> ClWorld) \<Rightarrow> bool" where
  "keeps_mem f \<longleftrightarrow> (\<forall>w m. f (w\<lparr>wd_mem := m\<rparr>) = (f w)\<lparr>wd_mem := m\<rparr>)"

lemma keeps_mem_mem: "keeps_mem f \<Longrightarrow> wd_mem (f w) = wd_mem w"
  unfolding keeps_mem_def by (metis ClWorld.select_convs(4) ClWorld.surjective ClWorld.update_convs(4))

lemma world_set_mem: "keeps_mem f \<Longrightarrow> set_mem h x (world f b) = world f (set_mem h x b)"
  by (simp add: set_mem_def world_def keeps_mem_mem) (simp add: keeps_mem_def)

lemma world_cl_slot: "cl_slot i g (world f b) = world f (cl_slot i g b)"
  by (simp add: cl_slot_def world_def)

lemma mem_world: "keeps_mem f \<Longrightarrow> mem (world f b) = mem b"
  by (simp add: mem_def keeps_mem_mem)

lemma exec_world: "keeps_mem f \<Longrightarrow> exec cd c (world f b) = world f (exec cd c b)"
  by (cases c) (simp_all add: world_set_mem mem_world world_cl_slot)

lemma fold_exec_world: "keeps_mem f \<Longrightarrow> fold (exec cd) cs (world f b) = world f (fold (exec cd) cs b)"
  by (induction cs arbitrary: b) (simp_all add: exec_world)

lemma settled_world:
  assumes "keeps_mem f" and "\<And>w. wd_pending (f w) = wd_pending w"
  shows "settled cd (world f b) = world f (settled cd b)"
  using assms by (simp add: settled_def pending_def fold_exec_world)

lemma settled_queue_cmd: "settled cd (queue_cmd c b) = queue_cmd c (exec cd c (settled cd b))"
proof -
  have k: "keeps_mem (\<lambda>w. w\<lparr>wd_pending := wd_pending w @ [c]\<rparr>)" by (simp add: keeps_mem_def)
  have "settled cd (queue_cmd c b) = fold (exec cd) (pending b @ [c]) (queue_cmd c b)"
    by (simp add: settled_def queue_cmd_def pending_def)
  then show ?thesis by (simp add: settled_def queue_cmd_def fold_exec_world [OF k] exec_world [OF k])
qed

text \<open>A call, as far as the backend that will be is concerned: some of the queue is no longer pending.\<close>

definition later :: "nat \<Rightarrow> nat \<Rightarrow> OpenClBackend \<Rightarrow> OpenClBackend" where
  "later n m = world (\<lambda>w. w\<lparr>wd_calls := n, wd_pending := drop m (wd_pending w)\<rparr>)"

lemma pending_run_some [simp]: "pending (run_some cd n b) = drop n (pending b)"
  by (simp add: run_some_def) (simp add: pending_def)

lemma settled_run_some: "settled cd (run_some cd n b) = world (\<lambda>w. w\<lparr>wd_pending := drop n (wd_pending w)\<rparr>) (settled cd b)"
proof -
  have k: "keeps_mem (\<lambda>w. w\<lparr>wd_pending := drop n (wd_pending w)\<rparr>)" by (simp add: keeps_mem_def)
  have "settled cd (run_some cd n b) = fold (exec cd) (drop n (pending b)) (run_some cd n b)" by (simp add: settled_def)
  also have "\<dots> = fold (exec cd) (take n (pending b) @ drop n (pending b)) (world (\<lambda>w. w\<lparr>wd_pending := drop n (wd_pending w)\<rparr>) b)"
    by (simp only: run_some_def fold_append comp_apply)
  finally show ?thesis by (simp add: fold_exec_world [OF k] settled_def)
qed

lemma settled_enter:
  assumes "enter cd b = (n, c)"
  shows "settled cd c = later (Suc n) (cd_progress cd n) (settled cd b)" "n = wd_calls (oc_world b)"
    "pending c = drop (cd_progress cd n) (pending b)"
proof -
  have n: "n = wd_calls (oc_world b)" and c: "c = run_some cd (cd_progress cd n) (world (\<lambda>w. w\<lparr>wd_calls := n + 1\<rparr>) b)"
    using assms by (auto simp: enter_def Let_def)
  have s: "settled cd (world (\<lambda>w. w\<lparr>wd_calls := n + 1\<rparr>) b) = world (\<lambda>w. w\<lparr>wd_calls := n + 1\<rparr>) (settled cd b)"
    by (rule settled_world) (simp_all add: keeps_mem_def)
  show "settled cd c = later (Suc n) (cd_progress cd n) (settled cd b)"
    unfolding c settled_run_some s by (simp add: later_def world_def)
  show "n = wd_calls (oc_world b)" by (rule n)
  show "pending c = drop (cd_progress cd n) (pending b)" by (simp add: c) (simp add: pending_def)
qed

text \<open>What will be true once everything queued has run, and stays true whatever has run by the next call.\<close>

definition once :: "ClDriver \<Rightarrow> (OpenClBackend \<Rightarrow> bool) \<Rightarrow> OpenClBackend \<Rightarrow> bool" where
  "once cd Q b \<longleftrightarrow> Q (settled cd b)"

definition restless :: "(OpenClBackend \<Rightarrow> bool) \<Rightarrow> bool" where
  "restless Q \<longleftrightarrow> (\<forall>s n m. Q s \<longrightarrow> wd_calls (oc_world s) \<le> n \<longrightarrow> Q (later n m s))"

lemma once_enter: "restless Q \<Longrightarrow> once cd Q b \<Longrightarrow> enter cd b = (n, c) \<Longrightarrow> once cd Q c"
  using settled_enter [of cd b n c] by (simp add: once_def restless_def)

lemma enter_calls: "enter cd b = (n, c) \<Longrightarrow> wd_calls (oc_world c) = Suc n \<and> n = wd_calls (oc_world b)"
  using settled_enter(1) [of cd b n c] settled_enter(2) [of cd b n c] settled_fields(6) [of cd c] by (simp add: later_def)

lemma once_call:
  assumes "restless Q" and "\<And>s. Q s \<Longrightarrow> E s"
    and "\<And>n b. once cd Q b \<Longrightarrow> wd_calls (oc_world b) = Suc n \<Longrightarrow> once cd R (good n b)"
  shows "triple (once cd Q) (cl_call cd f what good) (\<lambda>_. once cd R) (once cd E)"
  unfolding triple_def
proof (intro allI impI)
  fix b assume b: "once cd Q b"
  obtain n c where e: "enter cd b = (n, c)" by (cases "enter cd b")
  have c: "once cd Q c" by (rule once_enter [OF assms(1) b e])
  then have "once cd E c" using assms(2) by (simp add: once_def)
  then show "case cl_call cd f what good b of (Inr x, t) \<Rightarrow> once cd R t | (Inl e, t) \<Rightarrow> once cd E t"
    using assms(3) [OF c] enter_calls [OF e] by (simp add: cl_call_def e split: sum.split)
qed

subsection \<open>The invariants\<close>

text \<open>
  Where the kernel program \<open>k\<close> and the slots keep what the launches read and write: no handle stands for two
  of these buffers.
\<close>

definition slot_homes :: "OpenClBackend \<Rightarrow> handle set" where
  "slot_homes s = {h. \<exists>i<length (oc_slots s). h \<in> {sl_header (oc_slots s ! i), sl_target (oc_slots s ! i), sl_hits (oc_slots s ! i)}}"

definition slots_apart :: "OpenClBackend \<Rightarrow> bool" where
  "slots_apart s \<longleftrightarrow> (\<forall>i<length (oc_slots s). \<forall>j<length (oc_slots s).
     sl_header (oc_slots s ! i) \<noteq> sl_target (oc_slots s ! j) \<and> sl_header (oc_slots s ! i) \<noteq> sl_hits (oc_slots s ! j) \<and>
     sl_target (oc_slots s ! i) \<noteq> sl_hits (oc_slots s ! j) \<and>
     (i \<noteq> j \<longrightarrow> sl_header (oc_slots s ! i) \<noteq> sl_header (oc_slots s ! j) \<and> sl_target (oc_slots s ! i) \<noteq> sl_target (oc_slots s ! j) \<and>
        sl_hits (oc_slots s ! i) \<noteq> sl_hits (oc_slots s ! j)))"

lemma slots_apartD:
  assumes "slots_apart s" and "i < length (oc_slots s)" and "j < length (oc_slots s)"
  shows "sl_header (oc_slots s ! i) \<noteq> sl_target (oc_slots s ! j)" "sl_header (oc_slots s ! i) \<noteq> sl_hits (oc_slots s ! j)"
    "sl_target (oc_slots s ! i) \<noteq> sl_hits (oc_slots s ! j)"
    "i \<noteq> j \<Longrightarrow> sl_header (oc_slots s ! i) \<noteq> sl_header (oc_slots s ! j)"
    "i \<noteq> j \<Longrightarrow> sl_target (oc_slots s ! i) \<noteq> sl_target (oc_slots s ! j)"
    "i \<noteq> j \<Longrightarrow> sl_hits (oc_slots s ! i) \<noteq> sl_hits (oc_slots s ! j)"
  using assms unfolding slots_apart_def by blast+

definition homes :: "Bc3Program \<Rightarrow> OpenClBackend \<Rightarrow> handle set" where
  "homes k s = insert (bp_tables k) (slot_homes s)"

text \<open>A command of a launch on one of the slots, or of a batch with an output of its own.\<close>

fun fits :: "Bc3Program \<Rightarrow> OpenClBackend \<Rightarrow> ClCmd \<Rightarrow> bool" where
  "fits k s (Write_header h i) \<longleftrightarrow> i < length (oc_slots s) \<and> h = sl_header (oc_slots s ! i)"
| "fits k s (Write_target h i) \<longleftrightarrow> i < length (oc_slots s) \<and> h = sl_target (oc_slots s ! i)"
| "fits k s (Write_count h i) \<longleftrightarrow> i < length (oc_slots s) \<and> h = sl_hits (oc_slots s ! i)"
| "fits k s (Read_hits h i) \<longleftrightarrow> i < length (oc_slots s) \<and> h = sl_hits (oc_slots s ! i)"
| "fits k s (Run_kernel p args dims) \<longleftrightarrow>
     (if args 6 \<noteq> None
      then {mem_arg (args 0), mem_arg (args 1), mem_arg (args 4), mem_arg (args 5)} \<subseteq> homes k s \<and> mem_arg (args 5) \<noteq> bp_tables k
      else mem_arg (args 3) \<notin> homes k s)"

definition queue_ok :: "Bc3Program \<Rightarrow> u64 list \<Rightarrow> OpenClBackend \<Rightarrow> bool" where
  "queue_ok k tables s \<longleftrightarrow> oc_bc3 s = Some k \<and> queue_inv (cl_ring s) \<and> slots_apart s \<and> bp_tables k \<notin> slot_homes s \<and>
     (\<forall>h\<in>homes k s. h \<le> wd_calls (oc_world s)) \<and> bp_scan k \<noteq> bp_batch k \<and> wd_args (oc_world s) (bp_batch k) 6 = None \<and>
     (\<forall>c\<in>set (pending s). fits k s c) \<and> mem s (bp_tables k) = Limbs tables"

text \<open>What a slot is noted to hold it does hold.\<close>

definition coherent_slot :: "nat \<Rightarrow> OpenClBackend \<Rightarrow> bool" where
  "coherent_slot i s \<longleftrightarrow>
     (\<forall>h. sl_header_of (oc_slots s ! i) = Some h \<longrightarrow> mem s (sl_header (oc_slots s ! i)) = Bytes h) \<and>
     (\<forall>t. sl_target_of (oc_slots s ! i) = Some t \<longrightarrow> mem s (sl_target (oc_slots s ! i)) = Limbs t)"

definition hits_of :: "OpenClBackend \<Rightarrow> nat \<Rightarrow> u32 list" where
  "hits_of s i = ch_hits (sl_host (oc_slots s ! i))"

text \<open>Between calls, as long as none has failed since the last \<open>abandon\<close>.\<close>

definition ready :: "Bc3Program \<Rightarrow> u64 list \<Rightarrow> OpenClBackend \<Rightarrow> bool" where
  "ready k tables s \<longleftrightarrow> queue_ok k tables s \<and> (\<forall>c\<in>set (pending s). \<forall>i. host_of c = Some i \<longrightarrow> i \<in> set (oc_queued s)) \<and>
     distinct (reads (pending s)) \<and> (\<forall>i. ends_in_read (pending s) i) \<and> (\<forall>i<length (oc_slots s). coherent_slot i s)"

text \<open>
  While a launch is being queued on slot \<open>i\<close> behind those of \<open>q\<close>, whose hits will be \<open>hs\<close>: of the slot's
  own commands those of a rank below \<open>n\<close> may be pending.
\<close>

definition midway :: "Bc3Program \<Rightarrow> u64 list \<Rightarrow> nat \<Rightarrow> nat list \<Rightarrow> u32 list list \<Rightarrow> nat \<Rightarrow> OpenClBackend \<Rightarrow> bool" where
  "midway k tables i q hs n s \<longleftrightarrow> queue_ok k tables s \<and> oc_queued s = q \<and> oc_next_slot s = i \<and> i < length (oc_slots s) \<and> i \<notin> set q \<and>
     map (hits_of s) q = hs \<and> (\<forall>j<length (oc_slots s). j \<noteq> i \<longrightarrow> coherent_slot j s) \<and>
     (\<forall>c\<in>set (pending s). \<forall>j. host_of c = Some j \<longrightarrow> j \<in> set q \<or> j = i \<and> rank c < n) \<and> distinct (reads (pending s)) \<and>
     (\<forall>j. j \<noteq> i \<longrightarrow> ends_in_read (pending s) j)"

text \<open>What the slot's buffers will hold by then.\<close>

definition loaded :: "nat \<Rightarrow> Launch \<Rightarrow> nat \<Rightarrow> OpenClBackend \<Rightarrow> bool" where
  "loaded i l n s \<longleftrightarrow> coherent_slot i s \<and>
     (1 \<le> n \<longrightarrow> mem s (sl_header (oc_slots s ! i)) = Bytes (la_header76 l)) \<and>
     (2 \<le> n \<longrightarrow> mem s (sl_target (oc_slots s ! i)) = Limbs (target_limbs (la_target l))) \<and>
     (3 \<le> n \<longrightarrow> (\<exists>ws. mem s (sl_hits (oc_slots s ! i)) = Words (ws[0 := 0])))"

text \<open>The hits the kernel leaves for a launch, over what the buffer held beside the count.\<close>

definition cl_hits :: "ClDriver \<Rightarrow> Bc3Program \<Rightarrow> u64 list \<Rightarrow> Launch \<Rightarrow> u32 list \<Rightarrow> u32 list" where
  "cl_hits cd k tables l ws =
     cd_scan cd (bp_scan k) (launch_size (la_count l) (bp_local k)) tables (la_header76 l) (la_start l) (la_count l)
       (target_limbs (la_target l)) (ws[0 := 0]) (word_of_nat MAX_HITS)"

lemma reads_append [simp]: "reads (xs @ ys) = reads xs @ reads ys"
  by (induction xs) (simp_all split: ClCmd.split)

lemma reads_host: "i \<in> set (reads cs) \<longleftrightarrow> (\<exists>h. Read_hits h i \<in> set cs)"
  by (induction cs) (auto split: ClCmd.split)

lemma reads_drop: "distinct (reads cs) \<Longrightarrow> distinct (reads (drop m cs))"
  by (metis append_take_drop_id distinct_append reads_append)

lemma ends_in_read_drop: "ends_in_read cs i \<Longrightarrow> ends_in_read (drop m cs) i"
proof -
  assume a: "ends_in_read cs i"
  let ?P = "\<lambda>c. host_of c = Some i"
  have "filter ?P cs = filter ?P (take m cs) @ filter ?P (drop m cs)" by (metis append_take_drop_id filter_append)
  then show ?thesis using a by (auto simp: ends_in_read_def Let_def)
qed

lemma ends_in_read_other: "host_of c \<noteq> Some i \<Longrightarrow> ends_in_read (cs @ [c]) i = ends_in_read cs i"
  by (simp add: ends_in_read_def)

lemma ends_in_read_read [simp]: "ends_in_read (cs @ [Read_hits h i]) i"
  by (simp add: ends_in_read_def)

lemma later_fields [simp]:
  "oc_slots (later n m s) = oc_slots s" "oc_queued (later n m s) = oc_queued s" "oc_next_slot (later n m s) = oc_next_slot s"
  "oc_bc3 (later n m s) = oc_bc3 s" "mem (later n m s) = mem s" "pending (later n m s) = drop m (pending s)"
  "wd_calls (oc_world (later n m s)) = n" "wd_args (oc_world (later n m s)) = wd_args (oc_world s)"
  by (simp_all add: later_def mem_def pending_def)

lemma slots_only:
  assumes "oc_slots s = oc_slots t"
  shows "slot_homes s = slot_homes t" "slots_apart s = slots_apart t" "homes k s = homes k t" "fits k s c = fits k t c" "hits_of s = hits_of t"
proof -
  show "slot_homes s = slot_homes t" "slots_apart s = slots_apart t" "hits_of s = hits_of t"
    using assms by (simp_all add: slot_homes_def slots_apart_def hits_of_def fun_eq_iff)
  then show h: "homes k s = homes k t" by (simp add: homes_def)
  show "fits k s c = fits k t c" using assms h by (cases c) simp_all
qed

lemma coherent_only: "oc_slots s = oc_slots t \<Longrightarrow> mem s = mem t \<Longrightarrow> coherent_slot i s = coherent_slot i t"
  by (simp add: coherent_slot_def)

lemma queue_ok_later: "queue_ok k tables s \<Longrightarrow> wd_calls (oc_world s) \<le> n \<Longrightarrow> queue_ok k tables (later n m s)"
  using slots_only [of "later n m s" s] cl_ring_cong [of "later n m s" s]
  by (auto simp: queue_ok_def dest: in_set_dropD intro: order_trans)

lemma restless_queue_ok: "restless (queue_ok k tables)"
  by (simp add: restless_def queue_ok_later)

lemma restless_ready: "restless (ready k tables)"
  unfolding restless_def ready_def
  using coherent_only [of "later n m s" s for n m s] by (auto simp: queue_ok_later reads_drop ends_in_read_drop dest: in_set_dropD)

lemma restless_midway: "restless (midway k tables i q hs n)"
  unfolding restless_def midway_def
  using coherent_only [of "later n m s" s for n m s] slots_only(5) [of "later n m s" s for n m s]
  by (auto simp: queue_ok_later reads_drop ends_in_read_drop dest: in_set_dropD)

lemma restless_loaded: "restless (loaded i l n)"
  unfolding restless_def loaded_def using coherent_only [of "later n m s" s for n m s] by simp

lemma restless_conj: "restless P \<Longrightarrow> restless Q \<Longrightarrow> restless (\<lambda>s. P s \<and> Q s)"
  by (simp add: restless_def)

subsection \<open>Steps of a launch\<close>

lemma apart_homes:
  assumes "queue_ok k tables s" and "i < length (oc_slots s)"
  shows "sl_header (oc_slots s ! i) \<in> homes k s" "sl_target (oc_slots s ! i) \<in> homes k s" "sl_hits (oc_slots s ! i) \<in> homes k s"
    "sl_header (oc_slots s ! i) \<noteq> bp_tables k" "sl_target (oc_slots s ! i) \<noteq> bp_tables k" "sl_hits (oc_slots s ! i) \<noteq> bp_tables k"
    "bp_tables k \<in> homes k s"
proof -
  have "sl_header (oc_slots s ! i) \<in> slot_homes s" "sl_target (oc_slots s ! i) \<in> slot_homes s" "sl_hits (oc_slots s ! i) \<in> slot_homes s"
    using assms(2) by (auto simp: slot_homes_def)
  then show "sl_header (oc_slots s ! i) \<in> homes k s" "sl_target (oc_slots s ! i) \<in> homes k s" "sl_hits (oc_slots s ! i) \<in> homes k s"
    "sl_header (oc_slots s ! i) \<noteq> bp_tables k" "sl_target (oc_slots s ! i) \<noteq> bp_tables k" "sl_hits (oc_slots s ! i) \<noteq> bp_tables k"
    "bp_tables k \<in> homes k s"
    using assms(1) by (auto simp: queue_ok_def homes_def)
qed

lemma mem_set_mem: "mem (set_mem h x s) = (mem s)(h := x)"
  by (simp add: mem_def set_mem_def)

lemma set_mem_calls [simp]: "wd_calls (oc_world (set_mem h x s)) = wd_calls (oc_world s)" "wd_args (oc_world (set_mem h x s)) = wd_args (oc_world s)"
  by (simp_all add: set_mem_def)

lemma queue_ok_set_mem:
  "queue_ok k tables s \<Longrightarrow> h \<noteq> bp_tables k \<Longrightarrow> queue_ok k tables (set_mem h x s)"
  using slots_only [of "set_mem h x s" s] cl_ring_cong [of "set_mem h x s" s] by (simp add: queue_ok_def mem_set_mem)

text \<open>A buffer of slot \<open>i\<close> being written.\<close>

lemma midway_set_mem:
  assumes "midway k tables i q hs n s" and "h \<in> {sl_header (oc_slots s ! i), sl_target (oc_slots s ! i), sl_hits (oc_slots s ! i)}"
  shows "midway k tables i q hs n (set_mem h x s)"
proof -
  have i: "i < length (oc_slots s)" and ok: "queue_ok k tables s" and ap: "slots_apart s"
    using assms(1) by (auto simp: midway_def queue_ok_def)
  have "h \<noteq> bp_tables k" using apart_homes(4-6) [OF ok i] assms(2) by auto
  then have "queue_ok k tables (set_mem h x s)" using ok queue_ok_set_mem by blast
  moreover have "coherent_slot j (set_mem h x s) = coherent_slot j s" if "j < length (oc_slots s)" "j \<noteq> i" for j
  proof -
    have "h \<noteq> sl_header (oc_slots s ! j)" "h \<noteq> sl_target (oc_slots s ! j)"
      using slots_apartD [OF ap i that(1)] slots_apartD [OF ap that(1) i] that(2) assms(2) by auto
    then show ?thesis by (simp add: coherent_slot_def mem_set_mem)
  qed
  moreover have "hits_of (set_mem h x s) = hits_of s" by (simp add: hits_of_def fun_eq_iff)
  ultimately show ?thesis using assms(1) by (simp add: midway_def)
qed

lemma queue_cmd_fields [simp]:
  "oc_slots (queue_cmd c s) = oc_slots s" "oc_queued (queue_cmd c s) = oc_queued s" "oc_next_slot (queue_cmd c s) = oc_next_slot s"
  "oc_bc3 (queue_cmd c s) = oc_bc3 s" "mem (queue_cmd c s) = mem s" "pending (queue_cmd c s) = pending s @ [c]"
  "wd_calls (oc_world (queue_cmd c s)) = wd_calls (oc_world s)" "wd_args (oc_world (queue_cmd c s)) = wd_args (oc_world s)"
  by (simp_all add: queue_cmd_def mem_def pending_def)

lemma queue_ok_queue_cmd: "queue_ok k tables s \<Longrightarrow> fits k s c \<Longrightarrow> queue_ok k tables (queue_cmd c s)"
  using slots_only [of "queue_cmd c s" s] cl_ring_cong [of "queue_cmd c s" s] by (auto simp: queue_ok_def)

lemma midway_queue_cmd:
  assumes "midway k tables i q hs n s" and "fits k s c" and "\<And>j. host_of c = Some j \<Longrightarrow> j = i \<and> rank c < n"
    and "reads [c] = [] \<or> reads [c] = [i] \<and> i \<notin> set (reads (pending s))"
  shows "midway k tables i q hs n (queue_cmd c s)"
proof -
  have "coherent_slot j (queue_cmd c s) = coherent_slot j s" for j by (rule coherent_only) simp_all
  moreover have "hits_of (queue_cmd c s) = hits_of s" by (rule slots_only) simp
  moreover have "distinct (reads (pending s @ [c]))" using assms(1,4) by (auto simp: midway_def)
  moreover have "ends_in_read (pending s @ [c]) j" if "j \<noteq> i" for j
    using assms(1,3) that ends_in_read_other [of c j "pending s"] by (auto simp: midway_def)
  ultimately show ?thesis
    using assms(1,3) queue_ok_queue_cmd [OF _ assms(2)] by (auto simp: midway_def)
qed

lemma midway_more: "midway k tables i q hs n s \<Longrightarrow> n \<le> m \<Longrightarrow> midway k tables i q hs m s"
  by (fastforce simp: midway_def)

text \<open>A change of slot \<open>i\<close> that leaves its buffers where they are.\<close>

lemma cl_slot_homes:
  assumes "\<And>s. sl_header (f s) = sl_header s \<and> sl_target (f s) = sl_target s \<and> sl_hits (f s) = sl_hits s"
  shows "slot_homes (cl_slot i f s) = slot_homes s" "slots_apart (cl_slot i f s) = slots_apart s" "homes k (cl_slot i f s) = homes k s"
    "fits k (cl_slot i f s) c = fits k s c"
    "sl_header (oc_slots (cl_slot i f s) ! j) = sl_header (oc_slots s ! j)"
    "sl_target (oc_slots (cl_slot i f s) ! j) = sl_target (oc_slots s ! j)"
    "sl_hits (oc_slots (cl_slot i f s) ! j) = sl_hits (oc_slots s ! j)"
proof -
  have e: "sl_header (oc_slots (cl_slot i f s) ! j) = sl_header (oc_slots s ! j)"
    "sl_target (oc_slots (cl_slot i f s) ! j) = sl_target (oc_slots s ! j)"
    "sl_hits (oc_slots (cl_slot i f s) ! j) = sl_hits (oc_slots s ! j)" for j
    by (simp_all add: nth_update_same assms)
  then show h: "slot_homes (cl_slot i f s) = slot_homes s" "slots_apart (cl_slot i f s) = slots_apart s"
    "sl_header (oc_slots (cl_slot i f s) ! j) = sl_header (oc_slots s ! j)"
    "sl_target (oc_slots (cl_slot i f s) ! j) = sl_target (oc_slots s ! j)"
    "sl_hits (oc_slots (cl_slot i f s) ! j) = sl_hits (oc_slots s ! j)"
    by (simp_all add: slot_homes_def slots_apart_def del: cl_slot_fields(7)) simp_all
  then show g: "homes k (cl_slot i f s) = homes k s" by (simp add: homes_def)
  show "fits k (cl_slot i f s) c = fits k s c"
    using e g by (cases c) (simp_all del: cl_slot_fields(7), simp_all)
qed

lemma queue_ok_cl_slot:
  assumes "\<And>s. sl_header (f s) = sl_header s \<and> sl_target (f s) = sl_target s \<and> sl_hits (f s) = sl_hits s"
    and "queue_ok k tables s"
  shows "queue_ok k tables (cl_slot i f s)"
  using assms(2) cl_slot_homes [where f = f, OF assms(1)] cl_ring_cong [of "cl_slot i f s" s] by (simp add: queue_ok_def)

lemma midway_cl_slot:
  assumes "\<And>s. sl_header (f s) = sl_header s \<and> sl_target (f s) = sl_target s \<and> sl_hits (f s) = sl_hits s"
    and "midway k tables i q hs n s"
  shows "midway k tables i q hs n (cl_slot i f s)"
proof -
  have "coherent_slot j (cl_slot i f s) = coherent_slot j s" "hits_of (cl_slot i f s) j = hits_of s j" if "j \<noteq> i" for j
    using that by (simp_all add: coherent_slot_def hits_of_def)
  moreover have "x \<noteq> i" if "x \<in> set q" for x using that assms(2) by (auto simp: midway_def)
  ultimately have "map (hits_of (cl_slot i f s)) q = map (hits_of s) q" "\<forall>j<length (oc_slots s). j \<noteq> i \<longrightarrow> coherent_slot j (cl_slot i f s) = coherent_slot j s"
    by (simp_all cong: map_cong)
  moreover have "queue_ok k tables (cl_slot i f s)"
    using assms(2) queue_ok_cl_slot [where f = f, OF assms(1)] by (simp add: midway_def)
  ultimately show ?thesis using assms(2) by (simp add: midway_def cong: map_cong)
qed

text \<open>Queueing a command that writes a buffer of the slot.\<close>

lemma once_write_async:
  assumes "restless P" and "\<And>s. P s \<Longrightarrow> queue_ok k tables s" and "\<And>s. P s \<Longrightarrow> R (queue_cmd c (exec cd c s))"
  shows "triple (once cd P) (write_async cd what c) (\<lambda>_. once cd R) (once cd (queue_ok k tables))"
  unfolding write_async_def
  by (rule once_call [OF assms(1)]) (simp_all add: assms(2,3) once_def settled_queue_cmd)

lemma once_change:
  assumes "\<And>b. once cd P b \<Longrightarrow> settled cd (f b) = f (settled cd b)" and "\<And>s. P s \<Longrightarrow> R (f s)"
  shows "triple (once cd P) (change f) (\<lambda>_. once cd R) E"
  using assms by (simp add: triple_def once_def)

lemma midway_blind:
  assumes "once cd (midway k tables i q hs n) b" and "\<And>c. rank c < n \<Longrightarrow> blind c f"
  shows "settled cd (cl_slot i f b) = cl_slot i f (settled cd b)"
proof (rule settled_cl_slot)
  fix c assume c: "c \<in> set (pending b)" "host_of c = Some i"
  then have "c \<in> set (pending (settled cd b))" by simp
  then show "blind c f" using assms c(2) unfolding once_def midway_def by blast
qed

lemma triple_run: "triple P m Q E \<Longrightarrow> P s \<Longrightarrow> case m s of (Inr x, t) \<Rightarrow> Q x t | (Inl e, t) \<Rightarrow> E t"
  by (simp add: triple_def)

lemma put_header_once:
  "triple (once cd (\<lambda>s. midway k tables i q hs 0 s \<and> loaded i l 0 s)) (put_header cd i (la_header76 l))
     (\<lambda>_. once cd (\<lambda>s. midway k tables i q hs 1 s \<and> loaded i l 1 s)) (once cd (queue_ok k tables))"
  unfolding triple_def
proof (intro allI impI)
  fix b assume b: "once cd (\<lambda>s. midway k tables i q hs 0 s \<and> loaded i l 0 s) b"
  then have m: "once cd (midway k tables i q hs 0) b" by (simp add: once_def)
  have i: "i < length (oc_slots b)" using b by (simp add: once_def midway_def)
  note frame = settled_slot [OF i, of cd]
  let ?h = "la_header76 l" and ?hd = "sl_header (oc_slots b ! i)"
  show "case put_header cd i (la_header76 l) b of
      (Inr x, t) \<Rightarrow> once cd (\<lambda>s. midway k tables i q hs 1 s \<and> loaded i l 1 s) t | (Inl e, t) \<Rightarrow> once cd (queue_ok k tables) t"
  proof (cases "sl_header_of (oc_slots b ! i) = Some ?h")
    case True
    then have "mem (settled cd b) (sl_header (oc_slots (settled cd b) ! i)) = Bytes ?h"
      using b frame by (auto simp: once_def loaded_def coherent_slot_def slot_frame_def)
    then show ?thesis using True b midway_more [of k tables i q hs 0 "settled cd b" 1] by (simp add: put_header_def once_def loaded_def)
  next
    case False
    let ?f = "\<lambda>s. host (\<lambda>x. x\<lparr>ch_header := ?h\<rparr>) (s\<lparr>sl_header_of := None\<rparr>)"
    let ?A = "\<lambda>s. midway k tables i q hs 1 s \<and> coherent_slot i s \<and> sl_header_of (oc_slots s ! i) = None \<and>
      ch_header (sl_host (oc_slots s ! i)) = ?h \<and> sl_header (oc_slots s ! i) = ?hd"
    let ?B = "\<lambda>s. midway k tables i q hs 1 s \<and> coherent_slot i s \<and> mem s (sl_header (oc_slots s ! i)) = Bytes ?h"
    have start: "once cd ?A (cl_slot i ?f b)"
    proof -
      have e: "settled cd (cl_slot i ?f b) = cl_slot i ?f (settled cd b)" by (rule midway_blind [where f = ?f, OF m]) simp
      have "midway k tables i q hs 1 (cl_slot i ?f (settled cd b))"
        by (rule midway_cl_slot) (use m in \<open>auto simp: host_def once_def intro: midway_more\<close>)
      then show ?thesis
        using e b i frame by (simp add: once_def loaded_def coherent_slot_def host_def slot_frame_def)
    qed
    have queued: "triple (once cd ?A) (write_async cd ''header'' (Write_header ?hd i)) (\<lambda>_. once cd ?B) (once cd (queue_ok k tables))"
    proof (rule once_write_async)
      show "restless ?A" using restless_midway coherent_only [of "later n m s" s for n m s] by (simp add: restless_def)
      show "queue_ok k tables s" if "?A s" for s using that by (simp add: midway_def)
      fix s assume a: "?A s"
      let ?s = "set_mem ?hd (Bytes ?h) s"
      have i: "i < length (oc_slots s)" and ok: "queue_ok k tables s" using a by (simp_all add: midway_def)
      have "midway k tables i q hs 1 ?s" by (rule midway_set_mem) (use a in auto)
      then have "midway k tables i q hs 1 (queue_cmd (Write_header ?hd i) ?s)"
        by (rule midway_queue_cmd) (use a i in auto)
      moreover have "coherent_slot i (queue_cmd (Write_header ?hd i) ?s)"
      proof -
        have "?hd \<noteq> sl_target (oc_slots s ! i)" using slots_apartD(1) [OF _ i i] ok a by (simp add: queue_ok_def)
        then show ?thesis using a by (auto simp: coherent_slot_def mem_set_mem)
      qed
      ultimately show "?B (queue_cmd (Write_header ?hd i) (exec cd (Write_header ?hd i) s))" using a by (simp add: mem_set_mem)
    qed
    have noted: "triple (once cd ?B) (change (cl_slot i (\<lambda>s. s\<lparr>sl_header_of := Some ?h\<rparr>)))
        (\<lambda>_. once cd (\<lambda>s. midway k tables i q hs 1 s \<and> loaded i l 1 s)) (once cd (queue_ok k tables))"
    proof (rule once_change)
      have blind: "blind c (\<lambda>s. s\<lparr>sl_header_of := Some ?h\<rparr>)" if "rank c < 1" for c using that by (cases c) simp_all
      show "settled cd (cl_slot i (\<lambda>s. s\<lparr>sl_header_of := Some ?h\<rparr>) b) = cl_slot i (\<lambda>s. s\<lparr>sl_header_of := Some ?h\<rparr>) (settled cd b)"
        if "once cd ?B b" for b
        by (rule midway_blind [OF _ blind, of cd k tables i q hs 1]) (use that in \<open>simp_all add: once_def\<close>)
      fix s assume a: "?B s"
      then have i: "i < length (oc_slots s)" by (simp add: midway_def)
      have "midway k tables i q hs 1 (cl_slot i (\<lambda>s. s\<lparr>sl_header_of := Some ?h\<rparr>) s)" by (rule midway_cl_slot) (use a in simp_all)
      then show "midway k tables i q hs 1 (cl_slot i (\<lambda>s. s\<lparr>sl_header_of := Some ?h\<rparr>) s) \<and>
          loaded i l 1 (cl_slot i (\<lambda>s. s\<lparr>sl_header_of := Some ?h\<rparr>) s)"
        using a i by (simp add: loaded_def coherent_slot_def)
    qed
    from triple_run [OF triple_and_then [OF queued noted] start]
    show ?thesis using False by (simp add: put_header_def and_then_def)
  qed
qed

lemma put_target_once:
  "triple (once cd (\<lambda>s. midway k tables i q hs 1 s \<and> loaded i l 1 s)) (put_target cd i (target_limbs (la_target l)))
     (\<lambda>_. once cd (\<lambda>s. midway k tables i q hs 2 s \<and> loaded i l 2 s)) (once cd (queue_ok k tables))"
  unfolding triple_def
proof (intro allI impI)
  fix b assume b: "once cd (\<lambda>s. midway k tables i q hs 1 s \<and> loaded i l 1 s) b"
  then have m: "once cd (midway k tables i q hs 1) b" by (simp add: once_def)
  have i: "i < length (oc_slots b)" using b by (simp add: once_def midway_def)
  note frame = settled_slot [OF i, of cd]
  let ?h = "target_limbs (la_target l)" and ?tl = "sl_target (oc_slots b ! i)"
  show "case put_target cd i (target_limbs (la_target l)) b of
      (Inr x, t) \<Rightarrow> once cd (\<lambda>s. midway k tables i q hs 2 s \<and> loaded i l 2 s) t | (Inl e, t) \<Rightarrow> once cd (queue_ok k tables) t"
  proof (cases "sl_target_of (oc_slots b ! i) = Some ?h")
    case True
    then have "mem (settled cd b) (sl_target (oc_slots (settled cd b) ! i)) = Limbs ?h"
      using b frame by (auto simp: once_def loaded_def coherent_slot_def slot_frame_def)
    then show ?thesis using True b midway_more [of k tables i q hs 1 "settled cd b" 2] by (simp add: put_target_def once_def loaded_def)
  next
    case False
    let ?f = "\<lambda>s. host (\<lambda>x. x\<lparr>ch_target := ?h\<rparr>) (s\<lparr>sl_target_of := None\<rparr>)"
    let ?A = "\<lambda>s. midway k tables i q hs 2 s \<and> coherent_slot i s \<and> mem s (sl_header (oc_slots s ! i)) = Bytes (la_header76 l) \<and> sl_target_of (oc_slots s ! i) = None \<and>
      ch_target (sl_host (oc_slots s ! i)) = ?h \<and> sl_target (oc_slots s ! i) = ?tl"
    let ?B = "\<lambda>s. midway k tables i q hs 2 s \<and> coherent_slot i s \<and> mem s (sl_header (oc_slots s ! i)) = Bytes (la_header76 l) \<and> mem s (sl_target (oc_slots s ! i)) = Limbs ?h"
    have start: "once cd ?A (cl_slot i ?f b)"
    proof -
      have "blind c ?f" if "rank c < 1" for c using that by (cases c) (simp_all add: host_def)
      then have e: "settled cd (cl_slot i ?f b) = cl_slot i ?f (settled cd b)" by (rule midway_blind [where f = ?f, OF m])
      have "midway k tables i q hs 2 (cl_slot i ?f (settled cd b))"
        by (rule midway_cl_slot) (use m in \<open>auto simp: host_def once_def intro: midway_more\<close>)
      then show ?thesis
        using e b i frame by (auto simp: once_def loaded_def coherent_slot_def host_def slot_frame_def)
    qed
    have queued: "triple (once cd ?A) (write_async cd ''target'' (Write_target ?tl i)) (\<lambda>_. once cd ?B) (once cd (queue_ok k tables))"
    proof (rule once_write_async)
      show "restless ?A" using restless_midway coherent_only [of "later n m s" s for n m s] by (simp add: restless_def)
      show "queue_ok k tables s" if "?A s" for s using that by (simp add: midway_def)
      fix s assume a: "?A s"
      let ?s = "set_mem ?tl (Limbs ?h) s"
      have i: "i < length (oc_slots s)" and ok: "queue_ok k tables s" using a by (simp_all add: midway_def)
      have "midway k tables i q hs 2 ?s" by (rule midway_set_mem) (use a in auto)
      then have "midway k tables i q hs 2 (queue_cmd (Write_target ?tl i) ?s)"
        by (rule midway_queue_cmd) (use a i in auto)
      moreover have "sl_header (oc_slots s ! i) \<noteq> ?tl" using slots_apartD(1) [OF _ i i] ok a by (simp add: queue_ok_def)
      then have "coherent_slot i (queue_cmd (Write_target ?tl i) ?s)"
        "mem (queue_cmd (Write_target ?tl i) ?s) (sl_header (oc_slots s ! i)) = Bytes (la_header76 l)"
        using a by (auto simp: coherent_slot_def mem_set_mem)
      ultimately show "?B (queue_cmd (Write_target ?tl i) (exec cd (Write_target ?tl i) s))" using a by (simp add: mem_set_mem)
    qed
    have noted: "triple (once cd ?B) (change (cl_slot i (\<lambda>s. s\<lparr>sl_target_of := Some ?h\<rparr>)))
        (\<lambda>_. once cd (\<lambda>s. midway k tables i q hs 2 s \<and> loaded i l 2 s)) (once cd (queue_ok k tables))"
    proof (rule once_change)
      have blind: "blind c (\<lambda>s. s\<lparr>sl_target_of := Some ?h\<rparr>)" if "rank c < 2" for c using that by (cases c) simp_all
      show "settled cd (cl_slot i (\<lambda>s. s\<lparr>sl_target_of := Some ?h\<rparr>) b) = cl_slot i (\<lambda>s. s\<lparr>sl_target_of := Some ?h\<rparr>) (settled cd b)"
        if "once cd ?B b" for b
        by (rule midway_blind [OF _ blind, of cd k tables i q hs 2]) (use that in \<open>simp_all add: once_def\<close>)
      fix s assume a: "?B s"
      then have i: "i < length (oc_slots s)" by (simp add: midway_def)
      have "midway k tables i q hs 2 (cl_slot i (\<lambda>s. s\<lparr>sl_target_of := Some ?h\<rparr>) s)" by (rule midway_cl_slot) (use a in simp_all)
      then show "midway k tables i q hs 2 (cl_slot i (\<lambda>s. s\<lparr>sl_target_of := Some ?h\<rparr>) s) \<and>
          loaded i l 2 (cl_slot i (\<lambda>s. s\<lparr>sl_target_of := Some ?h\<rparr>) s)"
        using a i by (auto simp: loaded_def coherent_slot_def)
    qed
    from triple_run [OF triple_and_then [OF queued noted] start]
    show ?thesis using False by (simp add: put_target_def and_then_def)
  qed
qed

text \<open>The arguments of a kernel, one call each.\<close>

lemma set_args_once:
  assumes "restless P" and "\<And>s. P s \<Longrightarrow> E s"
    and "\<And>s j a. P s \<Longrightarrow> j < length args \<Longrightarrow> P (world (\<lambda>w. w\<lparr>wd_args := (wd_args w)(p := (wd_args w p)(j := Some a))\<rparr>) s)"
  shows "triple (once cd P) (set_args cd p args) (\<lambda>_. once cd (\<lambda>s. P s \<and> (\<forall>j<length args. wd_args (oc_world s) p j = Some (args ! j)))) (once cd E)"
proof -
  let ?R = "\<lambda>m s. P s \<and> (\<forall>j<m. wd_args (oc_world s) p j = Some (args ! j))"
  have "triple (once cd (?R m)) (for_each (enumerate m (drop m args)) (\<lambda>(i, arg).
       cl_call cd SetKernelArg (''set arg '' @ dec i)
         (\<lambda>_. world (\<lambda>w. w\<lparr>wd_args := (wd_args w)(p := (wd_args w p)(i := Some arg))\<rparr>))))
      (\<lambda>_. once cd (?R (length args))) (once cd E)" if "m \<le> length args" for m
    using that
  proof (induction "length args - m" arbitrary: m)
    case 0
    then show ?case by (simp add: triple_def give_def)
  next
    case (Suc n)
    then have m: "m < length args" by simp
    let ?a = "args ! m"
    have step: "triple (once cd (?R m)) (cl_call cd SetKernelArg (''set arg '' @ dec m)
         (\<lambda>_. world (\<lambda>w. w\<lparr>wd_args := (wd_args w)(p := (wd_args w p)(m := Some ?a))\<rparr>)))
        (\<lambda>_. once cd (?R (Suc m))) (once cd E)"
    proof (rule once_call)
      show "restless (?R m)" using assms(1) by (simp add: restless_def)
      show "E s" if "?R m s" for s using that assms(2) by blast
      fix b assume b: "once cd (?R m) b"
      have "settled cd (world (\<lambda>w. w\<lparr>wd_args := (wd_args w)(p := (wd_args w p)(m := Some ?a))\<rparr>) b) =
          world (\<lambda>w. w\<lparr>wd_args := (wd_args w)(p := (wd_args w p)(m := Some ?a))\<rparr>) (settled cd b)"
        by (rule settled_world) (simp_all add: keeps_mem_def)
      then show "once cd (?R (Suc m)) (world (\<lambda>w. w\<lparr>wd_args := (wd_args w)(p := (wd_args w p)(m := Some ?a))\<rparr>) b)"
        using b assms(3) [OF _ m] by (simp add: once_def less_Suc_eq)
    qed
    have "drop m args = ?a # drop (Suc m) args" using m by (simp add: Cons_nth_drop_Suc)
    moreover have "triple (once cd (?R (Suc m))) (for_each (enumerate (Suc m) (drop (Suc m) args)) (\<lambda>(i, arg).
       cl_call cd SetKernelArg (''set arg '' @ dec i)
         (\<lambda>_. world (\<lambda>w. w\<lparr>wd_args := (wd_args w)(p := (wd_args w p)(i := Some arg))\<rparr>))))
      (\<lambda>_. once cd (?R (length args))) (once cd E)" by (rule Suc.hyps(1)) (use Suc m in simp_all)
    ultimately show ?case using triple_and_then [OF step] by simp
  qed
  from this [of 0] show ?thesis by (simp add: set_args_def)
qed

lemma queue_ok_args:
  assumes "queue_ok k tables s" and "wd_args (f (oc_world s)) (bp_batch k) 6 = None" and "keeps_mem f"
    and "\<And>w. wd_calls (f w) = wd_calls w" and "\<And>w. wd_pending (f w) = wd_pending w"
  shows "queue_ok k tables (world f s)"
  using assms slots_only [of "world f s" s] cl_ring_cong [of "world f s" s]
  by (simp add: queue_ok_def mem_world) (simp add: pending_def)

lemma midway_world:
  assumes "midway k tables i q hs n s" and "wd_args (f (oc_world s)) (bp_batch k) 6 = None" and "keeps_mem f"
    and "\<And>w. wd_calls (f w) = wd_calls w" and "\<And>w. wd_pending (f w) = wd_pending w"
  shows "midway k tables i q hs n (world f s)"
proof -
  have "queue_ok k tables (world f s)" by (rule queue_ok_args) (use assms in \<open>simp_all add: midway_def\<close>)
  moreover have "coherent_slot j (world f s) = coherent_slot j s" for j by (rule coherent_only) (simp_all add: mem_world assms(3))
  moreover have "hits_of (world f s) = hits_of s" by (rule slots_only) simp
  moreover have "pending (world f s) = pending s" by (simp add: pending_def assms(5))
  ultimately show ?thesis using assms(1) by (simp add: midway_def)
qed

lemma loaded_world: "keeps_mem f \<Longrightarrow> loaded i l n (world f s) = loaded i l n s"
  using coherent_only [of "world f s" s] by (simp add: loaded_def mem_world)

definition scan_args :: "Bc3Program \<Rightarrow> nat \<Rightarrow> Launch \<Rightarrow> OpenClBackend \<Rightarrow> Arg list" where
  "scan_args k i l s = [Mem (bp_tables k), Mem (sl_header (oc_slots s ! i)), U32 (la_start l), U32 (la_count l),
     Mem (sl_target (oc_slots s ! i)), Mem (sl_hits (oc_slots s ! i)), U32 (word_of_nat MAX_HITS)]"

lemma put_inputs_once:
  "triple (once cd (\<lambda>s. midway k tables i q hs 0 s \<and> loaded i l 0 s \<and> sl_hits (oc_slots s ! i) = h)) (bc3_inputs cd i l)
     (\<lambda>x. once cd (\<lambda>s. midway k tables i q hs 2 s \<and> loaded i l 2 s \<and> sl_hits (oc_slots s ! i) = h \<and> x = (bp_scan k, bp_local k, scan_args k i l s)))
     (once cd (queue_ok k tables))"
  unfolding triple_def
proof (intro allI impI)
  fix b assume b: "once cd (\<lambda>s. midway k tables i q hs 0 s \<and> loaded i l 0 s \<and> sl_hits (oc_slots s ! i) = h) b"
  have k: "oc_bc3 b = Some k" and i: "i < length (oc_slots b)" using b by (simp_all add: once_def midway_def queue_ok_def)
  obtain r c where c: "and_then (put_header cd i (la_header76 l)) (\<lambda>_. put_target cd i (target_limbs (la_target l))) b = (r, c)"
    by (cases "and_then (put_header cd i (la_header76 l)) (\<lambda>_. put_target cd i (target_limbs (la_target l))) b")
  have b': "once cd (\<lambda>s. midway k tables i q hs 0 s \<and> loaded i l 0 s) b" "sl_hits (oc_slots b ! i) = h"
    using b settled_slot [OF i, of cd] by (simp_all add: once_def slot_frame_def)
  note o = tripleD [OF triple_and_then [OF put_header_once put_target_once] b'(1) c]
  have "keeps (\<lambda>x. book x = book b) (and_then (put_header cd i (la_header76 l)) (\<lambda>_. put_target cd i (target_limbs (la_target l))))"
    by (intro keeps_intros)
  from keepsD [OF this, of b] have bk: "book c = book b" by (simp add: c)
  have ic: "i < length (oc_slots c)" using book_length [OF bk] i by simp
  have "slot_book (oc_slots c ! i) = slot_book (oc_slots b ! i)" by (rule book_slot(1) [OF bk ic])
  moreover from ic have "slot_frame (oc_slots (settled cd c) ! i) = slot_frame (oc_slots c ! i)" by (intro settled_slot)
  ultimately have "sl_header (oc_slots (settled cd c) ! i) = sl_header (oc_slots b ! i)"
    "sl_target (oc_slots (settled cd c) ! i) = sl_target (oc_slots b ! i)" "sl_hits (oc_slots (settled cd c) ! i) = sl_hits (oc_slots b ! i)"
    by (simp_all add: slot_frame_def slot_book_def)
  moreover have "bc3_inputs cd i l b = (case (r, c) of (Inl e, c) \<Rightarrow> (Inl e, c) | (Inr _, c) \<Rightarrow>
      (Inr (bp_scan k, bp_local k,
           [Mem (bp_tables k), Mem (sl_header (oc_slots b ! i)), U32 (la_start l), U32 (la_count l),
            Mem (sl_target (oc_slots b ! i)), Mem (sl_hits (oc_slots b ! i)), U32 (word_of_nat MAX_HITS)]), c))"
    unfolding c [symmetric] by (simp add: bc3_inputs_def k ok_or_def and_then_def give_def split: prod.split sum.split)
  ultimately show "case bc3_inputs cd i l b of
      (Inr x, t) \<Rightarrow> once cd (\<lambda>s. midway k tables i q hs 2 s \<and> loaded i l 2 s \<and> sl_hits (oc_slots s ! i) = h \<and> x = (bp_scan k, bp_local k, scan_args k i l s)) t
    | (Inl e, t) \<Rightarrow> once cd (queue_ok k tables) t"
    using o b'(2) by (cases r) (simp_all add: once_def scan_args_def)
qed

text \<open>The kernel and the readback.\<close>

lemma event_blind:
  "blind c (\<lambda>s. s\<lparr>sl_kernel_done := h\<rparr>)" "blind c (\<lambda>s. s\<lparr>sl_read_done := h\<rparr>)"
  by (cases c; simp add: host_def)+

lemma settled_event:
  assumes "\<And>c. blind c f"
  shows "settled cd (made K_Event h (cl_slot i f b)) = made K_Event h (cl_slot i f (settled cd b))"
proof -
  have "keeps_mem (\<lambda>w. w\<lparr>wd_live := (K_Event, h) # wd_live w, wd_args := (wd_args w)(h := \<lambda>_. None)\<rparr>)" by (simp add: keeps_mem_def)
  then show ?thesis by (simp add: made_def settled_world settled_cl_slot assms)
qed

lemma midway_made: "midway k tables i q hs n s \<Longrightarrow> midway k tables i q hs n (made kind h s)"
  unfolding made_def by (rule midway_world) (auto simp: keeps_mem_def midway_def queue_ok_def)

lemma pending_made [simp]: "pending (made kind h s) = pending s"
  by (simp add: made_def pending_def)

lemma mem_made [simp]: "mem (made kind h s) = mem s"
  by (simp add: made_def mem_world keeps_mem_def)

lemma coherent_event:
  assumes "\<And>s. sl_header (f s) = sl_header s \<and> sl_target (f s) = sl_target s \<and> sl_header_of (f s) = sl_header_of s \<and> sl_target_of (f s) = sl_target_of s"
  shows "coherent_slot j (cl_slot i f s) = coherent_slot j s"
proof -
  have "sl_header (oc_slots (cl_slot i f s) ! j) = sl_header (oc_slots s ! j)" "sl_target (oc_slots (cl_slot i f s) ! j) = sl_target (oc_slots s ! j)"
    "sl_header_of (oc_slots (cl_slot i f s) ! j) = sl_header_of (oc_slots s ! j)" "sl_target_of (oc_slots (cl_slot i f s) ! j) = sl_target_of (oc_slots s ! j)"
    by (simp_all add: nth_update_same assms)
  then show ?thesis by (simp add: coherent_slot_def)
qed

definition armed :: "Bc3Program \<Rightarrow> u64 list \<Rightarrow> nat \<Rightarrow> nat list \<Rightarrow> u32 list list \<Rightarrow> Launch \<Rightarrow> OpenClBackend \<Rightarrow> bool" where
  "armed k tables i q hs l s \<longleftrightarrow> midway k tables i q hs 3 s \<and> loaded i l 3 s \<and>
     (\<forall>j<7. wd_args (oc_world s) (bp_scan k) j = Some (scan_args k i l s ! j))"

definition ran :: "ClDriver \<Rightarrow> Bc3Program \<Rightarrow> u64 list \<Rightarrow> nat \<Rightarrow> nat list \<Rightarrow> u32 list list \<Rightarrow> Launch \<Rightarrow> OpenClBackend \<Rightarrow> bool" where
  "ran cd k tables i q hs l s \<longleftrightarrow> midway k tables i q hs 3 s \<and> coherent_slot i s \<and>
     (\<exists>ws. mem s (sl_hits (oc_slots s ! i)) = Words (cl_hits cd k tables l ws))"

definition launched :: "ClDriver \<Rightarrow> Bc3Program \<Rightarrow> u64 list \<Rightarrow> nat \<Rightarrow> nat list \<Rightarrow> u32 list list \<Rightarrow> Launch \<Rightarrow> OpenClBackend \<Rightarrow> bool" where
  "launched cd k tables i q hs l s \<longleftrightarrow> midway k tables i q hs 4 s \<and> coherent_slot i s \<and> ends_in_read (pending s) i \<and>
     (\<exists>ws. hits_of s i = cl_hits cd k tables l ws)"

lemma queue_run_once:
  "triple (once cd (armed k tables i q hs l)) (queue_run cd i (bp_scan k) (la_count l) (bp_local k))
     (\<lambda>_. once cd (ran cd k tables i q hs l)) (once cd (queue_ok k tables))"
  unfolding queue_run_def cl_launch_def
proof (rule once_call)
  show "restless (armed k tables i q hs l)"
    using restless_midway restless_loaded by (simp add: restless_def armed_def scan_args_def)
  show "queue_ok k tables s" if "armed k tables i q hs l s" for s using that by (simp add: armed_def midway_def)
  fix n b assume b: "once cd (armed k tables i q hs l) b"
  let ?s = "settled cd b" and ?f = "\<lambda>s :: ClSlot. s\<lparr>sl_kernel_done := n + 1\<rparr>"
  let ?c = "Run_kernel (bp_scan k) (wd_args (oc_world b) (bp_scan k)) (launch_size (la_count l) (bp_local k))"
  have m: "midway k tables i q hs 3 ?s" and lo: "loaded i l 3 ?s" and i: "i < length (oc_slots ?s)" and ok: "queue_ok k tables ?s"
    using b by (simp_all add: once_def armed_def midway_def)
  obtain ws where ws: "mem ?s (sl_hits (oc_slots ?s ! i)) = Words (ws[0 := 0])" using lo by (auto simp: loaded_def)
  have "\<forall>j<7. wd_args (oc_world b) (bp_scan k) j = Some (scan_args k i l ?s ! j)" using b by (simp add: once_def armed_def)
  then have args: "wd_args (oc_world b) (bp_scan k) 0 = Some (Mem (bp_tables k))"
    "wd_args (oc_world b) (bp_scan k) 1 = Some (Mem (sl_header (oc_slots ?s ! i)))"
    "wd_args (oc_world b) (bp_scan k) 2 = Some (U32 (la_start l))" "wd_args (oc_world b) (bp_scan k) 3 = Some (U32 (la_count l))"
    "wd_args (oc_world b) (bp_scan k) 4 = Some (Mem (sl_target (oc_slots ?s ! i)))"
    "wd_args (oc_world b) (bp_scan k) 5 = Some (Mem (sl_hits (oc_slots ?s ! i)))"
    "wd_args (oc_world b) (bp_scan k) 6 = Some (U32 (word_of_nat MAX_HITS))"
    by (simp_all add: scan_args_def)
  have run: "exec cd ?c ?s = set_mem (sl_hits (oc_slots ?s ! i)) (Words (cl_hits cd k tables l ws)) ?s"
    using ok lo ws args by (simp add: mem_arg_def u32_arg_def cl_hits_def queue_ok_def loaded_def)
  let ?u = "set_mem (sl_hits (oc_slots ?s ! i)) (Words (cl_hits cd k tables l ws)) ?s"
  let ?t = "queue_cmd ?c ?u"
  have fit: "fits k ?u ?c"
  proof -
    have "fits k ?s ?c" using args apart_homes [OF ok i] by (simp add: mem_arg_def)
    then show ?thesis using slots_only(4) [of ?u ?s k ?c] by (simp only: set_mem_fields)
  qed
  have "midway k tables i q hs 3 ?u" by (rule midway_set_mem [OF m]) simp
  then have t: "midway k tables i q hs 3 ?t" by (rule midway_queue_cmd [OF _ fit]) simp_all
  have co: "coherent_slot i ?t"
  proof -
    have "sl_hits (oc_slots ?s ! i) \<noteq> sl_header (oc_slots ?s ! i)" "sl_hits (oc_slots ?s ! i) \<noteq> sl_target (oc_slots ?s ! i)"
      using slots_apartD(2,3) [OF _ i i] ok by (simp_all add: queue_ok_def)
    then show ?thesis using lo by (auto simp: coherent_slot_def mem_set_mem loaded_def)
  qed
  have "settled cd (made K_Event (n + 1) (cl_slot i ?f (queue_cmd ?c b))) = made K_Event (n + 1) (cl_slot i ?f ?t)"
    using settled_event [where f = ?f, OF event_blind(1)] run by (simp only: settled_queue_cmd)
  moreover have "midway k tables i q hs 3 (made K_Event (n + 1) (cl_slot i ?f ?t))"
    by (intro midway_made midway_cl_slot t) simp
  moreover have "coherent_slot i (made K_Event (n + 1) (cl_slot i ?f ?t))"
    using co coherent_event [of ?f i i ?t] coherent_only [of "made K_Event (n + 1) (cl_slot i ?f ?t)" "cl_slot i ?f ?t" i] by simp
  moreover have "mem (made K_Event (n + 1) (cl_slot i ?f ?t)) (sl_hits (oc_slots (made K_Event (n + 1) (cl_slot i ?f ?t)) ! i)) =
      Words (cl_hits cd k tables l ws)"
    using i by (simp add: mem_set_mem)
  ultimately show "once cd (ran cd k tables i q hs l) (made K_Event (n + 1) (cl_slot i ?f (queue_cmd ?c b)))"
    unfolding once_def ran_def by (simp only:) blast
qed

lemma queue_read_once:
  "triple (once cd (ran cd k tables i q hs l)) (queue_read cd i) (\<lambda>_. once cd (launched cd k tables i q hs l)) (once cd (queue_ok k tables))"
  unfolding queue_read_def
proof (rule once_call)
  show "restless (ran cd k tables i q hs l)"
    using restless_midway coherent_only [of "later n m s" s for n m s] by (simp add: restless_def ran_def)
  show "queue_ok k tables s" if "ran cd k tables i q hs l s" for s using that by (simp add: ran_def midway_def)
  fix n b assume b: "once cd (ran cd k tables i q hs l) b"
  let ?s = "settled cd b" and ?f = "\<lambda>s :: ClSlot. s\<lparr>sl_read_done := n + 1\<rparr>" and ?h = "sl_hits (oc_slots b ! i)"
  let ?c = "Read_hits ?h i"
  have m: "midway k tables i q hs 3 ?s" and i: "i < length (oc_slots ?s)" and co: "coherent_slot i ?s"
    using b by (simp_all add: once_def ran_def midway_def)
  have h: "sl_hits (oc_slots ?s ! i) = ?h" using settled_slot [of i b cd] i by (simp add: slot_frame_def)
  obtain ws where ws: "mem ?s ?h = Words (cl_hits cd k tables l ws)" using b by (auto simp: once_def ran_def h)
  let ?g = "host (\<lambda>x. x\<lparr>ch_hits := cl_hits cd k tables l ws\<rparr>)"
  have run: "exec cd ?c ?s = cl_slot i ?g ?s" by (simp add: ws)
  have g: "sl_header (?g s) = sl_header s \<and> sl_target (?g s) = sl_target s \<and> sl_hits (?g s) = sl_hits s" for s by (simp add: host_def)
  have fresh: "i \<notin> set (reads (pending ?s))"
  proof
    assume "i \<in> set (reads (pending ?s))"
    then obtain h where "Read_hits h i \<in> set (pending ?s)" by (auto simp: reads_host)
    then show False using m by (fastforce simp: midway_def)
  qed
  have "midway k tables i q hs 4 (cl_slot i ?g ?s)" by (rule midway_cl_slot [where f = ?g, OF g midway_more [OF m]]) simp
  then have t: "midway k tables i q hs 4 (queue_cmd ?c (cl_slot i ?g ?s))" (is "midway _ _ _ _ _ _ ?t")
    by (rule midway_queue_cmd) (use i h fresh in \<open>simp_all add: host_def\<close>)
  have "settled cd (made K_Event (n + 1) (cl_slot i ?f (queue_cmd ?c b))) = made K_Event (n + 1) (cl_slot i ?f ?t)"
    using settled_event [where f = ?f, OF event_blind(2)] run by (simp only: settled_queue_cmd)
  moreover have "midway k tables i q hs 4 (made K_Event (n + 1) (cl_slot i ?f ?t))"
    by (intro midway_made midway_cl_slot t) simp
  moreover have "coherent_slot i (made K_Event (n + 1) (cl_slot i ?f ?t))"
  proof -
    have "coherent_slot i ?t" using co coherent_event [of ?g i i ?s] coherent_only [of ?t "cl_slot i ?g ?s" i] by (simp add: host_def)
    then show ?thesis
      using coherent_event [of ?f i i ?t] coherent_only [of "made K_Event (n + 1) (cl_slot i ?f ?t)" "cl_slot i ?f ?t" i] by simp
  qed
  moreover have "hits_of (made K_Event (n + 1) (cl_slot i ?f ?t)) i = cl_hits cd k tables l ws"
    using i by (simp add: hits_of_def host_def)
  moreover have "ends_in_read (pending (made K_Event (n + 1) (cl_slot i ?f ?t))) i" by simp
  ultimately show "once cd (launched cd k tables i q hs l) (made K_Event (n + 1) (cl_slot i ?f (queue_cmd ?c b)))"
    unfolding once_def launched_def by (simp only:) blast
qed

text \<open>All of it.\<close>

lemma once_pure: "(C \<Longrightarrow> triple (once cd P) m Q E) \<Longrightarrow> triple (once cd (\<lambda>s. P s \<and> C)) m Q E"
  by (cases C) (simp_all add: triple_def once_def)

lemma set_args_armed:
  "triple (once cd (\<lambda>s. midway k tables i q hs 3 s \<and> loaded i l 3 s \<and> args = scan_args k i l s))
     (set_args cd (bp_scan k) args) (\<lambda>_. once cd (armed k tables i q hs l)) (once cd (queue_ok k tables))"
proof -
  let ?P = "\<lambda>s. midway k tables i q hs 3 s \<and> loaded i l 3 s \<and> args = scan_args k i l s"
  have "triple (once cd ?P) (set_args cd (bp_scan k) args)
      (\<lambda>_. once cd (\<lambda>s. ?P s \<and> (\<forall>j<length args. wd_args (oc_world s) (bp_scan k) j = Some (args ! j)))) (once cd (queue_ok k tables))"
  proof (rule set_args_once)
    show "restless ?P" using restless_midway restless_loaded by (simp add: restless_def scan_args_def)
    show "queue_ok k tables s" if "?P s" for s using that by (simp add: midway_def)
    fix s j a assume p: "?P s"
    let ?f = "\<lambda>w :: ClWorld. w\<lparr>wd_args := (wd_args w)(bp_scan k := (wd_args w (bp_scan k))(j := Some a))\<rparr>"
    have f: "keeps_mem ?f" by (simp add: keeps_mem_def)
    have "midway k tables i q hs 3 (world ?f s)"
      by (rule midway_world [where f = ?f]) (use p f in \<open>auto simp: midway_def queue_ok_def\<close>)
    then show "?P (world ?f s)" using p by (simp add: loaded_world [OF f] scan_args_def)
  qed
  then show ?thesis
    by (rule triple_conseq) (auto simp: once_def armed_def scan_args_def)
qed

lemma write_count_once:
  "triple (once cd (\<lambda>s. midway k tables i q hs 2 s \<and> loaded i l 2 s \<and> sl_hits (oc_slots s ! i) = h \<and> ch_zero (sl_host (oc_slots s ! i)) = 0 \<and>
       args = scan_args k i l s))
     (write_async cd ''hit count'' (Write_count h i))
     (\<lambda>_. once cd (\<lambda>s. midway k tables i q hs 3 s \<and> loaded i l 3 s \<and> args = scan_args k i l s)) (once cd (queue_ok k tables))"
proof (rule once_write_async)
  let ?P = "\<lambda>s. midway k tables i q hs 2 s \<and> loaded i l 2 s \<and> sl_hits (oc_slots s ! i) = h \<and> ch_zero (sl_host (oc_slots s ! i)) = 0 \<and>
       args = scan_args k i l s"
  show "restless ?P" using restless_midway restless_loaded by (simp add: restless_def scan_args_def)
  show "queue_ok k tables s" if "?P s" for s using that by (simp add: midway_def)
  fix s assume p: "?P s"
  let ?ws = "as_words (mem s h)"
  let ?u = "set_mem h (Words (?ws[0 := 0])) s"
  let ?t = "queue_cmd (Write_count h i) ?u"
  have i: "i < length (oc_slots s)" and ok: "queue_ok k tables s" using p by (simp_all add: midway_def)
  have "midway k tables i q hs 3 ?u" by (rule midway_set_mem) (use p in \<open>auto intro: midway_more\<close>)
  then have t: "midway k tables i q hs 3 ?t" by (rule midway_queue_cmd) (use i p in auto)
  have "h \<noteq> sl_header (oc_slots s ! i)" "h \<noteq> sl_target (oc_slots s ! i)"
    using slots_apartD(2,3) [OF _ i i] ok p by (auto simp: queue_ok_def)
  then have "loaded i l 3 ?t" using p by (auto simp: loaded_def coherent_slot_def mem_set_mem)
  then show "midway k tables i q hs 3 (queue_cmd (Write_count h i) (exec cd (Write_count h i) s)) \<and>
      loaded i l 3 (queue_cmd (Write_count h i) (exec cd (Write_count h i) s)) \<and>
      args = scan_args k i l (queue_cmd (Write_count h i) (exec cd (Write_count h i) s))"
    using t p by (simp add: scan_args_def)
qed

lemma zero_once:
  "triple (once cd (\<lambda>s. midway k tables i q hs 2 s \<and> loaded i l 2 s \<and> sl_hits (oc_slots s ! i) = h \<and> args = scan_args k i l s))
     (change (cl_slot i (host (\<lambda>x. x\<lparr>ch_zero := 0\<rparr>))))
     (\<lambda>_. once cd (\<lambda>s. midway k tables i q hs 2 s \<and> loaded i l 2 s \<and> sl_hits (oc_slots s ! i) = h \<and> ch_zero (sl_host (oc_slots s ! i)) = 0 \<and>
        args = scan_args k i l s)) E"
proof (rule once_change)
  let ?f = "host (\<lambda>x. x\<lparr>ch_zero := 0\<rparr>)"
  let ?P = "\<lambda>s. midway k tables i q hs 2 s \<and> loaded i l 2 s \<and> sl_hits (oc_slots s ! i) = h \<and> args = scan_args k i l s"
  have blind: "blind c ?f" if "rank c < 2" for c using that by (cases c) (simp_all add: host_def)
  show "settled cd (cl_slot i ?f b) = cl_slot i ?f (settled cd b)" if "once cd ?P b" for b
    by (rule midway_blind [OF _ blind, of cd k tables i q hs 2]) (use that in \<open>simp_all add: once_def\<close>)
  fix s assume p: "?P s"
  have f: "sl_header (?f s) = sl_header s \<and> sl_target (?f s) = sl_target s \<and> sl_hits (?f s) = sl_hits s" for s by (simp add: host_def)
  have i: "i < length (oc_slots s)" using p by (simp add: midway_def)
  have "midway k tables i q hs 2 (cl_slot i ?f s)" by (rule midway_cl_slot [where f = ?f, OF f]) (use p in simp)
  moreover have "loaded i l 2 (cl_slot i ?f s)"
    using p i coherent_event [of ?f i i s] by (simp add: loaded_def host_def)
  ultimately show "midway k tables i q hs 2 (cl_slot i ?f s) \<and> loaded i l 2 (cl_slot i ?f s) \<and> sl_hits (oc_slots (cl_slot i ?f s) ! i) = h \<and>
      ch_zero (sl_host (oc_slots (cl_slot i ?f s) ! i)) = 0 \<and> args = scan_args k i l (cl_slot i ?f s)"
    using p i by (simp add: host_def scan_args_def)
qed

lemma queue_launch_once:
  assumes "la_algo l = Bc3Hash" and b: "once cd (\<lambda>s. midway k tables i q hs 0 s \<and> loaded i l 0 s) b" and r: "queue_launch cd i l b = (r, c)"
  shows "case r of Inl e \<Rightarrow> once cd (queue_ok k tables) c | Inr _ \<Rightarrow> once cd (launched cd k tables i q hs l) c"
proof -
  let ?h = "sl_hits (oc_slots b ! i)"
  have i: "i < length (oc_slots b)" using b by (simp add: once_def midway_def)
  have start: "once cd (\<lambda>s. midway k tables i q hs 0 s \<and> loaded i l 0 s \<and> sl_hits (oc_slots s ! i) = ?h) b"
    using b settled_slot [OF i, of cd] by (simp add: once_def slot_frame_def)
  have rest: "triple (once cd (\<lambda>s. (midway k tables i q hs 2 s \<and> loaded i l 2 s \<and> sl_hits (oc_slots s ! i) = ?h \<and> args = scan_args k i l s) \<and>
        (p = bp_scan k \<and> local = bp_local k)))
      (and_then (change (cl_slot i (host (\<lambda>x. x\<lparr>ch_zero := 0\<rparr>)))) (\<lambda>_.
       and_then (write_async cd ''hit count'' (Write_count ?h i)) (\<lambda>_. and_then (set_args cd p args) (\<lambda>_.
       and_then (queue_run cd i p (la_count l) local) (\<lambda>_. and_then (queue_read cd i) (\<lambda>_.
       cl_call cd Flush ''clFlush'' (\<lambda>_. id)))))))
      (\<lambda>_. once cd (launched cd k tables i q hs l)) (once cd (queue_ok k tables))" for p local args
  proof (rule once_pure)
    assume "p = bp_scan k \<and> local = bp_local k"
    moreover have "triple (once cd (launched cd k tables i q hs l)) (cl_call cd Flush ''clFlush'' (\<lambda>_. id))
        (\<lambda>_. once cd (launched cd k tables i q hs l)) (once cd (queue_ok k tables))"
    proof (rule once_call)
      show "restless (launched cd k tables i q hs l)"
        using restless_midway coherent_only [of "later n m s" s for n m s] slots_only(5) [of "later n m s" s for n m s]
        by (simp add: restless_def launched_def ends_in_read_drop)
    qed (simp_all add: launched_def midway_def)
    ultimately show "triple (once cd (\<lambda>s. midway k tables i q hs 2 s \<and> loaded i l 2 s \<and> sl_hits (oc_slots s ! i) = ?h \<and> args = scan_args k i l s))
      (and_then (change (cl_slot i (host (\<lambda>x. x\<lparr>ch_zero := 0\<rparr>)))) (\<lambda>_.
       and_then (write_async cd ''hit count'' (Write_count ?h i)) (\<lambda>_. and_then (set_args cd p args) (\<lambda>_.
       and_then (queue_run cd i p (la_count l) local) (\<lambda>_. and_then (queue_read cd i) (\<lambda>_.
       cl_call cd Flush ''clFlush'' (\<lambda>_. id)))))))
      (\<lambda>_. once cd (launched cd k tables i q hs l)) (once cd (queue_ok k tables))"
      by (auto intro!: triple_and_then [OF zero_once] triple_and_then [OF write_count_once] triple_and_then [OF set_args_armed]
          triple_and_then [OF queue_run_once] triple_and_then [OF queue_read_once])
  qed
  have "triple (once cd (\<lambda>s. midway k tables i q hs 0 s \<and> loaded i l 0 s \<and> sl_hits (oc_slots s ! i) = ?h))
      (and_then (bc3_inputs cd i l) (\<lambda>(p, local, args).
       and_then (change (cl_slot i (host (\<lambda>x. x\<lparr>ch_zero := 0\<rparr>)))) (\<lambda>_.
       and_then (write_async cd ''hit count'' (Write_count ?h i)) (\<lambda>_. and_then (set_args cd p args) (\<lambda>_.
       and_then (queue_run cd i p (la_count l) local) (\<lambda>_. and_then (queue_read cd i) (\<lambda>_.
       cl_call cd Flush ''clFlush'' (\<lambda>_. id))))))))
      (\<lambda>_. once cd (launched cd k tables i q hs l)) (once cd (queue_ok k tables))"
  proof (rule triple_and_then [OF put_inputs_once])
    fix x :: "handle \<times> nat \<times> Arg list"
    obtain p local args where x: "x = (p, local, args)" by (cases x)
    show "triple (once cd (\<lambda>s. midway k tables i q hs 2 s \<and> loaded i l 2 s \<and> sl_hits (oc_slots s ! i) = ?h \<and> x = (bp_scan k, bp_local k, scan_args k i l s)))
      (case x of (p, local, args) \<Rightarrow> and_then (change (cl_slot i (host (\<lambda>x. x\<lparr>ch_zero := 0\<rparr>)))) (\<lambda>_.
       and_then (write_async cd ''hit count'' (Write_count ?h i)) (\<lambda>_. and_then (set_args cd p args) (\<lambda>_.
       and_then (queue_run cd i p (la_count l) local) (\<lambda>_. and_then (queue_read cd i) (\<lambda>_.
       cl_call cd Flush ''clFlush'' (\<lambda>_. id)))))))
      (\<lambda>_. once cd (launched cd k tables i q hs l)) (once cd (queue_ok k tables))"
      unfolding x prod.case by (rule triple_conseq [OF rest]) (auto simp: once_def)
  qed
  from tripleD [OF this start] show ?thesis using r assms(1) by (simp add: queue_launch_def)
qed

end
