(* ===== verification/Opencl_Scans.thy ===== *)
theory Opencl_Scans
  imports Opencl_Queue
begin

text \<open>
  What a scan of an OpenCL card is the scan of, whatever is asked of the card: collecting, giving up, the
  batch, preparing a program, and a card from its opening on.
\<close>

section \<open>Lemmas\<close>

subsection \<open>Giving handles back\<close>

text \<open>Changes of the world that touch neither memory, queue nor arguments, and changes of events.\<close>

definition inert :: "(ClWorld \<Rightarrow> ClWorld) \<Rightarrow> bool" where
  "inert f \<longleftrightarrow> keeps_mem f \<and> (\<forall>w. wd_pending (f w) = wd_pending w \<and> wd_calls (f w) = wd_calls w \<and>
     (\<forall>p. wd_args w p 6 = None \<longrightarrow> wd_args (f w) p 6 = None))"

definition lasting :: "(OpenClBackend \<Rightarrow> bool) \<Rightarrow> bool" where
  "lasting Q \<longleftrightarrow> restless Q \<and> (\<forall>f s. inert f \<longrightarrow> Q s \<longrightarrow> Q (world f s)) \<and>
     (\<forall>i s. Q s \<longrightarrow> Q (cl_slot i (\<lambda>s. s\<lparr>sl_kernel_done := 0\<rparr>) s)) \<and> (\<forall>i s. Q s \<longrightarrow> Q (cl_slot i (\<lambda>s. s\<lparr>sl_read_done := 0\<rparr>) s))"

lemma once_world: "inert f \<Longrightarrow> lasting Q \<Longrightarrow> once cd Q b \<Longrightarrow> once cd Q (world f b)"
  by (simp add: once_def lasting_def settled_world inert_def)

lemma once_release:
  assumes "lasting Q" and "once cd Q b"
  shows "once cd Q (release_unless_null cd f kind h b)"
proof (cases "h = 0")
  case False
  obtain n c where e: "enter cd b = (n, c)" by (cases "enter cd b")
  have "once cd Q c" using once_enter [OF _ assms(2) e] assms(1) by (simp add: lasting_def)
  then show ?thesis
    using False e once_world [OF _ assms(1), of "\<lambda>w. w\<lparr>wd_live := remove1 (kind, h) (wd_live w), wd_wrong := (wd_wrong w \<or> (kind, h) \<notin> set (wd_live w))\<rparr>" cd c]
    by (simp add: release_unless_null_def release_def inert_def keeps_mem_def)
qed (simp add: release_unless_null_def assms)

lemma once_releases: "lasting Q \<Longrightarrow> once cd Q b \<Longrightarrow> once cd Q (fold (\<lambda>(f, kind, h). release_unless_null cd f kind h) rs b)"
  by (induction rs arbitrary: b) (auto intro: once_release)

lemma once_release_events:
  assumes "lasting Q" and "once cd Q b"
  shows "once cd Q (release_events cd i b)"
proof -
  have k: "once cd Q (cl_slot i (\<lambda>s. s\<lparr>sl_kernel_done := 0\<rparr>) c)" if "once cd Q c" for c
    using that assms(1) settled_cl_slot [of c i "\<lambda>s. s\<lparr>sl_kernel_done := 0\<rparr>" cd] event_blind(1) by (simp add: once_def lasting_def)
  have r: "once cd Q (cl_slot i (\<lambda>s. s\<lparr>sl_read_done := 0\<rparr>) c)" if "once cd Q c" for c
    using that assms(1) settled_cl_slot [of c i "\<lambda>s. s\<lparr>sl_read_done := 0\<rparr>" cd] event_blind(2) by (simp add: once_def lasting_def)
  show ?thesis unfolding release_events_def Let_def
    by (intro r k once_release assms)
qed

lemma queue_ok_inert: "inert f \<Longrightarrow> queue_ok k tables s \<Longrightarrow> queue_ok k tables (world f s)"
  by (rule queue_ok_args) (auto simp: inert_def queue_ok_def)

lemma pending_inert: "inert f \<Longrightarrow> pending (world f s) = pending s"
  by (simp add: pending_def inert_def)

lemma lasting_queue_ok: "lasting (queue_ok k tables)"
  unfolding lasting_def
  by (intro conjI restless_queue_ok allI impI queue_ok_inert queue_ok_cl_slot) simp_all

lemma coherent_world: "inert f \<Longrightarrow> coherent_slot i (world f s) = coherent_slot i s"
  by (rule coherent_only) (simp_all add: inert_def mem_world)

lemma ready_event:
  assumes "ready k tables s"
    and "\<And>s. sl_header (f s) = sl_header s \<and> sl_target (f s) = sl_target s \<and> sl_hits (f s) = sl_hits s \<and>
      sl_header_of (f s) = sl_header_of s \<and> sl_target_of (f s) = sl_target_of s"
  shows "ready k tables (cl_slot i f s)"
proof -
  have "queue_ok k tables (cl_slot i f s)" by (rule queue_ok_cl_slot) (use assms in \<open>simp_all add: ready_def\<close>)
  moreover have "coherent_slot j (cl_slot i f s) = coherent_slot j s" for j by (rule coherent_event) (use assms(2) in simp)
  ultimately show ?thesis using assms(1) by (simp add: ready_def)
qed

lemma lasting_ready: "lasting (ready k tables)"
  unfolding lasting_def
proof (intro conjI restless_ready allI impI)
  show "ready k tables (world f s)" if "inert f" "ready k tables s" for f s
    using that coherent_world [OF that(1)] queue_ok_inert [OF that(1)] pending_inert [OF that(1)] by (simp add: ready_def)
qed (simp_all add: ready_event)

text \<open>The hits the launches in flight will come back with.\<close>

definition scans :: "ClDriver \<Rightarrow> OpenClBackend \<Rightarrow> u32 list list" where
  "scans cd b = map (hits_of (settled cd b)) (oc_queued b)"

lemma scans_once: "scans cd b = hs \<longleftrightarrow> once cd (\<lambda>s. map (hits_of s) (oc_queued s) = hs) b"
  by (simp add: scans_def once_def)

lemma hits_event: "(\<And>s. sl_host (f s) = sl_host s) \<Longrightarrow> hits_of (cl_slot i f s) = hits_of s"
  by (rule ext) (simp add: hits_of_def nth_update_same)

lemma lasting_scans: "lasting (\<lambda>s. map (hits_of s) (oc_queued s) = hs)"
proof -
  have "hits_of (later n m s) = hits_of s" "hits_of (world f s) = hits_of s" for n m f s by (rule slots_only, simp)+
  then show ?thesis by (simp add: lasting_def restless_def hits_event)
qed

lemma lasting_conj: "lasting P \<Longrightarrow> lasting Q \<Longrightarrow> lasting (\<lambda>s. P s \<and> Q s)"
  by (simp add: lasting_def restless_def)

subsection \<open>Queueing a launch\<close>

lemma ready_midway:
  assumes "once cd (ready k tables) b" and "length (oc_queued b) < QUEUE_DEPTH"
  shows "once cd (\<lambda>s. midway k tables (oc_next_slot b) (oc_queued b) (scans cd b) 0 s \<and> loaded (oc_next_slot b) l 0 s) b"
  using assms by (fastforce simp: once_def ready_def midway_def loaded_def queue_ok_def cl_ring_inv scans_def)

lemma queued_fields [simp]:
  "oc_slots (b\<lparr>oc_queued := q, oc_next_slot := n\<rparr>) = oc_slots b" "pending (b\<lparr>oc_queued := q, oc_next_slot := n\<rparr>) = pending b"
  "mem (b\<lparr>oc_queued := q, oc_next_slot := n\<rparr>) = mem b" "pending (b\<lparr>oc_queued := q\<rparr>) = pending b" "mem (b\<lparr>oc_queued := q\<rparr>) = mem b"
  by (simp_all add: pending_def mem_def)

lemma exec_queued: "exec cd c (b\<lparr>oc_queued := q\<rparr>) = (exec cd c b)\<lparr>oc_queued := q\<rparr>"
  by (cases c) (simp_all add: set_mem_def world_def cl_slot_def)

lemma exec_next: "exec cd c (b\<lparr>oc_next_slot := n\<rparr>) = (exec cd c b)\<lparr>oc_next_slot := n\<rparr>"
  by (cases c) (simp_all add: set_mem_def world_def cl_slot_def mem_def)

lemma settled_queued: "settled cd (b\<lparr>oc_queued := q\<rparr>) = (settled cd b)\<lparr>oc_queued := q\<rparr>"
proof -
  have "fold (exec cd) cs (b\<lparr>oc_queued := q\<rparr>) = (fold (exec cd) cs b)\<lparr>oc_queued := q\<rparr>" for cs
    by (induction cs arbitrary: b) (simp_all add: exec_queued)
  then show ?thesis by (simp add: settled_def)
qed

lemma settled_next: "settled cd (b\<lparr>oc_next_slot := n\<rparr>) = (settled cd b)\<lparr>oc_next_slot := n\<rparr>"
proof -
  have "fold (exec cd) cs (b\<lparr>oc_next_slot := n\<rparr>) = (fold (exec cd) cs b)\<lparr>oc_next_slot := n\<rparr>" for cs
    by (induction cs arbitrary: b) (simp_all add: exec_next)
  then show ?thesis by (simp add: settled_def pending_def)
qed

lemma queue_ok_ring:
  assumes "queue_ok k tables s" and "queue_inv (cl_ring (s\<lparr>oc_queued := q, oc_next_slot := n\<rparr>))"
  shows "queue_ok k tables (s\<lparr>oc_queued := q, oc_next_slot := n\<rparr>)"
  using assms slots_only [of "s\<lparr>oc_queued := q, oc_next_slot := n\<rparr>" s] by (simp add: queue_ok_def)

lemma launched_ready:
  assumes "launched cd k tables i q hs l s" and "length q < QUEUE_DEPTH"
  shows "ready k tables (s\<lparr>oc_queued := q @ [i], oc_next_slot := (i + 1) mod QUEUE_DEPTH\<rparr>)"
    "\<exists>ws. map (hits_of (s\<lparr>oc_queued := q @ [i], oc_next_slot := (i + 1) mod QUEUE_DEPTH\<rparr>)) (q @ [i]) = hs @ [cl_hits cd k tables l ws]"
proof -
  let ?t = "s\<lparr>oc_queued := q @ [i], oc_next_slot := (i + 1) mod QUEUE_DEPTH\<rparr>"
  have m: "midway k tables i q hs 4 s" and c: "coherent_slot i s" "ends_in_read (pending s) i" using assms(1) by (simp_all add: launched_def)
  then have ok: "queue_ok k tables s" "oc_queued s = q" "oc_next_slot s = i" by (simp_all add: midway_def)
  have "queue_inv (cl_ring ?t)" using cl_ring_queue [of s] ok assms(2) by (simp add: queue_ok_def)
  then have "queue_ok k tables ?t" by (rule queue_ok_ring [OF ok(1)])
  moreover have "coherent_slot j ?t = coherent_slot j s" for j by (rule coherent_only) simp_all
  moreover have "\<forall>j<length (oc_slots s). coherent_slot j s" using m c(1) by (auto simp: midway_def)
  moreover have "ends_in_read (pending s) j" for j using m c(2) by (cases "j = i") (simp_all add: midway_def)
  moreover have "\<forall>c\<in>set (pending s). \<forall>j. host_of c = Some j \<longrightarrow> j \<in> set (q @ [i])" using m by (auto simp: midway_def)
  ultimately show "ready k tables ?t" using m by (simp add: ready_def midway_def)
  have "hits_of ?t = hits_of s" by (rule slots_only) simp
  then show "\<exists>ws. map (hits_of ?t) (q @ [i]) = hs @ [cl_hits cd k tables l ws]"
    using assms(1) m by (auto simp: launched_def midway_def)
qed

lemma once_forget:
  assumes "once cd (queue_ok k tables) b"
  shows "once cd (queue_ok k tables) (cl_slot i sl_forget b)"
proof -
  have "blind c sl_forget" for c by (cases c) (simp_all add: sl_forget_def host_def)
  then show ?thesis
    using assms queue_ok_cl_slot [of sl_forget k tables "settled cd b" i] by (simp add: once_def settled_cl_slot sl_forget_def)
qed

lemma enqueue_once:
  assumes b: "once cd (ready k tables) b" and r: "cl_enqueue cd b l = (r, c)"
  shows "case r of Inl e \<Rightarrow> once cd (queue_ok k tables) c
    | Inr _ \<Rightarrow> once cd (ready k tables) c \<and> (\<exists>ws. scans cd c = scans cd b @ [cl_hits cd k tables l ws])"
proof (cases "la_count l = 0 \<or> QUEUE_DEPTH \<le> length (oc_queued b)")
  case True
  then have "c = b" "\<exists>e. r = Inl e" using r by (auto simp: cl_enqueue_def split: if_splits)
  then show ?thesis using b by (auto simp: once_def ready_def)
next
  case False
  let ?i = "oc_next_slot b"
  obtain r' d where q: "queue_launch cd ?i l b = (r', d)" by (cases "queue_launch cd ?i l b")
  have room: "length (oc_queued b) < QUEUE_DEPTH" using False by simp
  note mid = ready_midway [OF b room, of l]
  show ?thesis
  proof (cases r')
    case (Inl e)
    have "once cd (queue_ok k tables) d"
    proof (cases "la_algo l = Bc3Hash")
      case True
      then show ?thesis using queue_launch_once [OF True mid q] Inl by simp
    next
      case algo: False
      then have "d = b" using q by (cases "la_algo l") (simp_all add: queue_launch_def and_then_def)
      then show ?thesis using b by (simp add: once_def ready_def)
    qed
    then have "once cd (queue_ok k tables) (cl_slot ?i sl_forget (release_events cd ?i d))"
      by (intro once_forget once_release_events lasting_queue_ok)
    then show ?thesis using r False q Inl by (auto simp: cl_enqueue_def Let_def)
  next
    case (Inr u)
    have algo: "la_algo l = Bc3Hash" using q Inr by (cases "la_algo l") (simp_all add: queue_launch_def and_then_def)
    have "once cd (launched cd k tables ?i (oc_queued b) (scans cd b) l) d" using queue_launch_once [OF algo mid q] Inr by simp
    then have la: "launched cd k tables ?i (oc_queued b) (scans cd b) l (settled cd d)" by (simp add: once_def)
    then have dq: "oc_queued d = oc_queued b" by (simp add: launched_def midway_def)
    have c: "c = d\<lparr>oc_queued := oc_queued b @ [?i], oc_next_slot := (?i + 1) mod QUEUE_DEPTH\<rparr>" "r = Inr ()"
      using r False q Inr dq by (simp_all add: cl_enqueue_def Let_def)
    have "settled cd c = (settled cd d)\<lparr>oc_queued := oc_queued b @ [?i], oc_next_slot := (?i + 1) mod QUEUE_DEPTH\<rparr>"
      unfolding c(1) by (simp only: settled_next settled_queued)
    then show ?thesis using launched_ready [OF la room] c by (simp add: once_def scans_def)
  qed
qed

subsection \<open>Collecting\<close>

lemma exec_other_slot:
  assumes "host_of c \<noteq> Some i"
  shows "oc_slots (exec cd c b) ! i = oc_slots b ! i"
  using assms by (cases c) (auto simp: nth_list_update)

lemma settled_own_slot:
  assumes "\<And>c. c \<in> set (pending b) \<Longrightarrow> host_of c \<noteq> Some i"
  shows "oc_slots (settled cd b) ! i = oc_slots b ! i"
proof -
  have "(\<And>c. c \<in> set cs \<Longrightarrow> host_of c \<noteq> Some i) \<Longrightarrow> oc_slots (fold (exec cd) cs b) ! i = oc_slots b ! i" for cs
    by (induction cs arbitrary: b) (simp_all add: exec_other_slot)
  then show ?thesis using assms by (simp add: settled_def)
qed

text \<open>Once the readback of a slot has run, all of its launch has.\<close>

lemma until_read_split:
  "Read_hits h i \<in> set cs \<Longrightarrow> \<exists>xs g. cs = xs @ Read_hits g i # drop (until_read i cs) cs \<and> length xs + 1 = until_read i cs"
proof (induction cs)
  case (Cons c cs)
  show ?case
  proof (cases "\<exists>g. c = Read_hits g i")
    case True
    then show ?thesis by (auto intro: exI [of _ "[]"])
  next
    case False
    then have u: "until_read i (c # cs) = Suc (until_read i cs)" by (auto split: ClCmd.split)
    have "Read_hits h i \<in> set cs" using Cons.prems False by auto
    from Cons.IH [OF this] obtain xs g where "cs = xs @ Read_hits g i # drop (until_read i cs) cs" "length xs + 1 = until_read i cs" by blast
    then show ?thesis unfolding u by (intro exI [of _ "c # xs"] exI [of _ g]) simp
  qed
qed simp

lemma after_read:
  assumes "ends_in_read cs i" and "distinct (reads cs)" and "\<And>h. Read_hits h i \<in> set cs \<Longrightarrow> until_read i cs \<le> n"
    and "c \<in> set (drop n cs)"
  shows "host_of c \<noteq> Some i"
proof
  assume h: "host_of c = Some i"
  let ?own = "filter (\<lambda>c. host_of c = Some i)"
  have c: "c \<in> set (?own (drop n cs))" using assms(4) h by simp
  then have "c \<in> set (?own cs)" by (auto dest: in_set_dropD)
  then obtain g where g: "last (?own cs) = Read_hits g i" using assms(1) h by (auto simp: ends_in_read_def Let_def filter_empty_conv)
  have "?own cs = ?own (take n cs) @ ?own (drop n cs)" by (metis append_take_drop_id filter_append)
  moreover have ne: "?own (drop n cs) \<noteq> []" using c by (metis length_greater_0_conv length_pos_if_in_set)
  ultimately have "last (?own (drop n cs)) = Read_hits g i" using g by (simp only: last_append if_False)
  then have r: "Read_hits g i \<in> set (drop n cs)" using ne by (metis filter_is_subset last_in_set subsetD)
  then have rc: "Read_hits g i \<in> set cs" by (rule in_set_dropD)
  from until_read_split [OF rc] obtain xs f where x: "cs = xs @ Read_hits f i # drop (until_read i cs) cs" by blast
  have "drop n cs = drop (n - until_read i cs) (drop (until_read i cs) cs)" using assms(3) [OF rc] by simp
  then have "Read_hits g i \<in> set (drop (until_read i cs) cs)" using r by (metis in_set_dropD)
  then have "i \<in> set (reads (drop (until_read i cs) cs))" using reads_host by blast
  moreover have "distinct (reads (xs @ Read_hits f i # drop (until_read i cs) cs))" using assms(2) x by metis
  ultimately show False by simp
qed

text \<open>As far as what is asked of it lasts, a call is one that runs some of the queue.\<close>

lemma once_run_some:
  assumes "restless Q" and "once cd Q b"
  shows "once cd Q (run_some cd n b)"
proof -
  have "settled cd (run_some cd n b) = later (wd_calls (oc_world (settled cd b))) n (settled cd b)"
    by (simp add: settled_run_some later_def) (simp add: world_def)
  then show ?thesis using assms by (simp add: once_def restless_def)
qed

lemma once_wait:
  assumes "restless Q" and "once cd Q b" and "wait_read cd i b = (w, c)"
  shows "once cd Q c"
proof -
  obtain n d where e: "enter cd b = (n, d)" by (cases "enter cd b")
  have d: "once cd Q d" by (rule once_enter [OF assms(1,2) e])
  then have "once cd Q (run_some cd (until_read i (pending d)) d)" by (rule once_run_some [OF assms(1)])
  then show ?thesis using assms(3) e d by (auto simp: wait_read_def Let_def split: if_splits)
qed

lemma once_time:
  assumes "restless Q" and "once cd Q b" and "cl_device_time cd b = (x, c)"
  shows "once cd Q c"
proof -
  have p: "once cd Q d" if "profile cd b = (x, d)" "once cd Q b" for b d x
  proof -
    obtain n e where "enter cd b = (n, e)" by (cases "enter cd b")
    with once_enter [OF assms(1) that(2) this] that(1) show ?thesis by (simp add: profile_def)
  qed
  obtain y d where d: "profile cd b = (y, d)" by (cases "profile cd b")
  obtain z e where e: "profile cd d = (z, e)" by (cases "profile cd d")
  have "once cd Q d" by (rule p [OF d assms(2)])
  moreover have "once cd Q e" by (rule p [OF e calculation])
  ultimately show ?thesis using assms(3) d e by (auto simp: cl_device_time_def split: option.splits)
qed

text \<open>A slot of which nothing is pending any more.\<close>

definition done_with :: "nat \<Rightarrow> OpenClBackend \<Rightarrow> bool" where
  "done_with i s \<longleftrightarrow> (\<forall>c\<in>set (pending s). host_of c \<noteq> Some i)"

lemma lasting_done_with: "lasting (done_with i)"
  unfolding lasting_def by (auto simp: restless_def done_with_def pending_inert dest: in_set_dropD)

lemma wait_done:
  assumes "once cd (\<lambda>s. distinct (reads (pending s)) \<and> ends_in_read (pending s) i) b" and "wait_read cd i b = (CL_SUCCESS, c)"
  shows "once cd (done_with i) c"
proof -
  obtain n d where e: "enter cd b = (n, d)" by (cases "enter cd b")
  have pd: "pending d = drop (cd_progress cd n) (pending b)" by (rule settled_enter(3) [OF e])
  have a: "ends_in_read (pending d) i" "distinct (reads (pending d))"
    using assms(1) by (simp_all add: once_def pd ends_in_read_drop reads_drop)
  show ?thesis
  proof (cases "\<exists>h. Read_hits h i \<in> set (pending d)")
    case True
    then have c: "c = run_some cd (until_read i (pending d)) d" using assms(2) e by (auto simp: wait_read_def Let_def split: if_splits)
    have "host_of x \<noteq> Some i" if "x \<in> set (drop (until_read i (pending d)) (pending d))" for x
      by (rule after_read [OF a order_refl that])
    then show ?thesis by (simp add: c once_def done_with_def)
  next
    case False
    then have c: "c = d" using assms(2) e by (auto simp: wait_read_def Let_def split: if_splits)
    have "host_of x \<noteq> Some i" if "x \<in> set (drop 0 (pending d))" for x
      by (rule after_read [OF a _ that]) (use False in blast)
    then show ?thesis by (simp add: c once_def done_with_def)
  qed
qed

lemma queue_ok_take:
  assumes "queue_ok k tables s" and "oc_queued s = i # rest"
  shows "queue_ok k tables (s\<lparr>oc_queued := rest\<rparr>)"
  using assms cl_ring_take(1) [OF _ assms(2)] slots_only [of "s\<lparr>oc_queued := rest\<rparr>" s] by (simp add: queue_ok_def)

lemma collect_once:
  assumes b: "once cd (ready k tables) b" and r: "cl_collect cd b = (r, c)"
  shows "case r of Inl e \<Rightarrow> once cd (queue_ok k tables) c
    | Inr scan \<Rightarrow> once cd (ready k tables) c \<and> (\<exists>h busy. scans cd b = h # scans cd c \<and> scan = scan_of h busy)"
proof (cases "oc_queued b")
  case Nil
  then show ?thesis using b r by (auto simp: cl_collect_def once_def ready_def)
next
  case (Cons i rest)
  let ?b = "b\<lparr>oc_queued := rest\<rparr>"
  have s: "settled cd ?b = (settled cd b)\<lparr>oc_queued := rest\<rparr>" by (rule settled_queued)
  have i: "i < length (oc_slots b)" "i \<notin> set rest" and rd: "ready k tables (settled cd b)"
    using b Cons cl_ring_take(2,3) [of "settled cd b" i rest] by (simp_all add: once_def ready_def queue_ok_def)
  have ok: "once cd (queue_ok k tables) ?b" using rd queue_ok_take [of k tables "settled cd b" i rest] Cons by (simp add: once_def s ready_def)
  \<comment> \<open>ready but for the commands of slot \<open>i\<close>\<close>
  let ?Q = "\<lambda>s. queue_ok k tables s \<and> (\<forall>c\<in>set (pending s). \<forall>j. host_of c = Some j \<longrightarrow> j = i \<or> j \<in> set (oc_queued s)) \<and>
     distinct (reads (pending s)) \<and> (\<forall>i. ends_in_read (pending s) i) \<and> (\<forall>i<length (oc_slots s). coherent_slot i s) \<and>
     hits_of s i # map (hits_of s) (oc_queued s) = scans cd b"
  have Q: "once cd ?Q ?b"
  proof -
    have "coherent_slot j (settled cd ?b) = coherent_slot j (settled cd b)" for j by (rule coherent_only) (simp_all add: s)
    moreover have "hits_of (settled cd ?b) = hits_of (settled cd b)" by (rule slots_only) (simp add: s)
    ultimately show ?thesis using ok rd Cons by (auto simp: once_def ready_def s scans_def)
  qed
  have lasts: "restless ?Q"
    using coherent_only [of "later n m s" s for n m s] slots_only(5) [of "later n m s" s for n m s]
    by (auto simp: restless_def queue_ok_later reads_drop ends_in_read_drop dest: in_set_dropD)
  obtain w d where w: "wait_read cd i ?b = (w, d)" by (cases "wait_read cd i ?b")
  have d: "once cd ?Q d" by (rule once_wait [OF lasts Q w])
  obtain busy e where t: "(if w = CL_SUCCESS then cl_device_time cd d else (None, d)) = (busy, e)"
    by (cases "if w = CL_SUCCESS then cl_device_time cd d else (None, d)")
  have e: "once cd ?Q e" using t d once_time [OF lasts d] by (auto split: if_splits)
  let ?c = "release_events cd i e"
  have c: "c = ?c" using r Cons w t by (auto simp: cl_collect_def Let_def split: sum.splits)
  show ?thesis
  proof (cases "w = CL_SUCCESS")
    case False
    then obtain x where "r = Inl x" using r Cons w t by (auto simp: cl_collect_def Let_def check_def)
    moreover have "once cd (queue_ok k tables) ?c" by (rule once_release_events [OF lasting_queue_ok]) (use e in \<open>simp add: once_def\<close>)
    ultimately show ?thesis by (simp add: c)
  next
    case True
    have "once cd (done_with i) d"
      by (rule wait_done [OF _ w [unfolded True]]) (use Q in \<open>simp add: once_def\<close>)
    then have de: "once cd (done_with i) e"
      using t True once_time [of "done_with i" cd d] lasting_done_with [of i] by (auto simp: lasting_def)
    then have "once cd (ready k tables) e"
      using e by (auto simp: once_def ready_def done_with_def)
    then have rc: "once cd (ready k tables) ?c" by (rule once_release_events [OF lasting_ready])
    have dc: "once cd (done_with i) ?c" by (rule once_release_events [OF lasting_done_with de])
    have sc: "once cd (\<lambda>s. hits_of s i # map (hits_of s) (oc_queued s) = scans cd b) ?c"
    proof (rule once_release_events)
      have "hits_of (later n m s) = hits_of s" "hits_of (world f s) = hits_of s" for n m f s by (rule slots_only, simp)+
      then show "lasting (\<lambda>s. hits_of s i # map (hits_of s) (oc_queued s) = scans cd b)" by (simp add: lasting_def restless_def hits_event)
      show "once cd (\<lambda>s. hits_of s i # map (hits_of s) (oc_queued s) = scans cd b) e" using e by (simp add: once_def)
    qed
    have "oc_slots (settled cd ?c) ! i = oc_slots ?c ! i" by (rule settled_own_slot) (use dc in \<open>auto simp: once_def done_with_def\<close>)
    then have "scans cd b = ch_hits (sl_host (oc_slots ?c ! i)) # scans cd ?c" using sc by (simp add: once_def hits_of_def scans_def)
    moreover have "r = Inr (scan_of (ch_hits (sl_host (oc_slots ?c ! i))) busy)"
      using r Cons w t True by (auto simp: cl_collect_def Let_def check_def)
    ultimately show ?thesis using rc c by auto
  qed
qed

subsection \<open>Giving up\<close>

text \<open>What holds of the slots with or without a program, and once everything has been given up.\<close>

definition slots_fit :: "OpenClBackend \<Rightarrow> bool" where
  "slots_fit s \<longleftrightarrow> queue_inv (cl_ring s) \<and> slots_apart s \<and> (\<forall>h\<in>slot_homes s. h \<le> wd_calls (oc_world s))"

definition forgotten :: "OpenClBackend \<Rightarrow> bool" where
  "forgotten s \<longleftrightarrow> pending s = [] \<and> oc_queued s = [] \<and> (\<forall>i<length (oc_slots s). sl_header_of (oc_slots s ! i) = None \<and> sl_target_of (oc_slots s ! i) = None)"

text \<open>The runtime finishes what it has been given.\<close>

definition finishes :: "ClDriver \<Rightarrow> bool" where
  "finishes cd \<longleftrightarrow> (\<forall>n. cd_code cd Finish n = CL_SUCCESS)"

lemma settled_none [simp]: "pending b = [] \<Longrightarrow> settled cd b = b"
  by (simp add: settled_def)

lemma pending_enter: "enter cd b = (n, c) \<Longrightarrow> pending b = [] \<Longrightarrow> pending c = []"
  using settled_enter(3) by simp

lemma pending_release: "pending b = [] \<Longrightarrow> pending (release_unless_null cd f kind h b) = []"
  using pending_enter [of cd b] by (cases "enter cd b") (auto simp: release_unless_null_def release_def pending_def)

lemma pending_release_events: "pending b = [] \<Longrightarrow> pending (release_events cd i b) = []"
  by (simp add: release_events_def Let_def pending_release)

lemma pending_finish: "finishes cd \<Longrightarrow> pending (cl_finish cd b) = []"
  by (simp add: cl_finish_def finishes_def run_all_def split: prod.split)

lemma once_finish: "restless Q \<Longrightarrow> once cd Q b \<Longrightarrow> once cd Q (cl_finish cd b)"
  using once_enter [of Q cd b] once_run_some [of Q cd] by (cases "enter cd b") (auto simp: cl_finish_def run_all_def)

text \<open>A frame that releasing the events of a slot leaves.\<close>

lemma release_caches:
  assumes "pending b = []"
  shows "map (\<lambda>s. (sl_header_of s, sl_target_of s)) (oc_slots (release_events cd i b)) = map (\<lambda>s. (sl_header_of s, sl_target_of s)) (oc_slots b)"
proof -
  have e: "oc_slots (release_unless_null cd f kind h c) = oc_slots c" if "pending c = []" for f kind h c
  proof (cases "h = 0")
    case False
    obtain n d where d: "enter cd c = (n, d)" by (cases "enter cd c")
    then have "settled cd d = later (Suc n) (cd_progress cd n) (settled cd c)" by (rule settled_enter)
    then have "oc_slots d = oc_slots c" using that pending_enter [OF d that] by simp
    then show ?thesis using False d by (simp add: release_unless_null_def release_def)
  qed (simp add: release_unless_null_def)
  have m: "map g (oc_slots (cl_slot i f c)) = map g (oc_slots c)" if "\<And>s. g (f s) = g s" for g :: "ClSlot \<Rightarrow> 'x" and f c
    using that by (simp add: map_update_id)
  let ?g = "\<lambda>s. (sl_header_of s, sl_target_of s)"
  let ?c = "cl_slot i (\<lambda>s. s\<lparr>sl_kernel_done := 0\<rparr>) (release_unless_null cd ReleaseEvent K_Event (sl_kernel_done (oc_slots b ! i)) b)"
  have "pending ?c = []" using pending_release [OF assms] by simp
  then have "map ?g (oc_slots (release_events cd i b)) = map ?g (oc_slots ?c)"
    unfolding release_events_def Let_def by (subst m) (simp_all only: e, simp)
  also have "\<dots> = map ?g (oc_slots b)" by (subst m) (simp_all only: e [OF assms], simp)
  finally show ?thesis .
qed

lemma forget_all:
  assumes "pending b = []" and "m \<le> length (oc_slots b)"
  shows "pending (fold (\<lambda>i b. cl_slot i sl_forget (release_events cd i b)) [0..<m] b) = [] \<and>
    length (oc_slots (fold (\<lambda>i b. cl_slot i sl_forget (release_events cd i b)) [0..<m] b)) = length (oc_slots b) \<and>
    (\<forall>j<m. sl_header_of (oc_slots (fold (\<lambda>i b. cl_slot i sl_forget (release_events cd i b)) [0..<m] b) ! j) = None \<and>
      sl_target_of (oc_slots (fold (\<lambda>i b. cl_slot i sl_forget (release_events cd i b)) [0..<m] b) ! j) = None)"
  using assms(2)
proof (induction m)
  case (Suc m)
  have forgets: "sl_header_of (sl_forget s) = None" "sl_target_of (sl_forget s) = None" for s by (simp_all add: sl_forget_def)
  let ?c = "fold (\<lambda>i b. cl_slot i sl_forget (release_events cd i b)) [0..<m] b"
  have c: "pending ?c = []" "length (oc_slots ?c) = length (oc_slots b)" using Suc by simp_all
  let ?d = "release_events cd m ?c"
  have m: "map (\<lambda>s. (sl_header_of s, sl_target_of s)) (oc_slots ?d) = map (\<lambda>s. (sl_header_of s, sl_target_of s)) (oc_slots ?c)"
    by (rule release_caches [OF c(1)])
  have l: "length (oc_slots ?d) = length (oc_slots b)" using map_eq_imp_length_eq [OF m] c(2) by simp
  have "sl_header_of (oc_slots ?d ! j) = sl_header_of (oc_slots ?c ! j) \<and> sl_target_of (oc_slots ?d ! j) = sl_target_of (oc_slots ?c ! j)"
    if "j < length (oc_slots b)" for j
    using arg_cong [OF m, of "\<lambda>xs. xs ! j"] that l c(2) by simp
  then have "sl_header_of (oc_slots (cl_slot m sl_forget ?d) ! j) = None \<and> sl_target_of (oc_slots (cl_slot m sl_forget ?d) ! j) = None"
    if "j < Suc m" for j
    using that Suc l forgets by (cases "j = m") (auto simp: less_Suc_eq)
  then show ?case using pending_release_events [OF c(1), of cd m] l Suc.prems by simp
qed (use assms in simp)

lemma abandon_once:
  assumes "lasting Q" and "\<And>i s. Q s \<Longrightarrow> Q (cl_slot i sl_forget s)" and "\<And>s. Q s \<Longrightarrow> Q (s\<lparr>oc_queued := []\<rparr>)" and "once cd Q b"
  shows "once cd Q (cl_abandon cd b)"
proof -
  have "once cd Q (cl_slot i sl_forget c)" if "once cd Q c" for i c
  proof -
    have "blind c sl_forget" for c by (cases c) (simp_all add: sl_forget_def host_def)
    then show ?thesis using that assms(2) by (simp add: once_def settled_cl_slot)
  qed
  then have "once cd Q (fold (\<lambda>i b. cl_slot i sl_forget (release_events cd i b)) xs c)" if "once cd Q c" for xs c
    using that by (induction xs arbitrary: c) (simp_all add: once_release_events [OF assms(1)])
  moreover have "once cd Q (cl_finish cd b)" using once_finish assms(1,4) by (simp add: lasting_def)
  ultimately show ?thesis using assms(3) by (simp add: cl_abandon_def Let_def once_def settled_queued)
qed

lemma abandon_forgotten:
  assumes "finishes cd"
  shows "forgotten (cl_abandon cd b)"
proof -
  have "pending (cl_finish cd b) = []" by (rule pending_finish [OF assms])
  note f = forget_all [OF this order_refl, of cd]
  show ?thesis using f by (simp add: cl_abandon_def Let_def forgotten_def)
qed

lemma slots_fit_same:
  assumes "oc_slots s = oc_slots t" and "queue_inv (cl_ring s)" and "wd_calls (oc_world t) \<le> wd_calls (oc_world s)" and "slots_fit t"
  shows "slots_fit s"
  using assms(2-) slots_only [OF assms(1)] by (auto simp: slots_fit_def intro: order_trans)

lemma slots_fit_cl_slot:
  assumes "\<And>s. sl_header (f s) = sl_header s \<and> sl_target (f s) = sl_target s \<and> sl_hits (f s) = sl_hits s" and "slots_fit s"
  shows "slots_fit (cl_slot i f s)"
  using assms(2) cl_slot_homes [where f = f, OF assms(1)] cl_ring_cong [of "cl_slot i f s" s] by (simp add: slots_fit_def)

lemma lasting_slots_fit: "lasting slots_fit"
  unfolding lasting_def
proof (intro conjI allI impI)
  have "slots_fit (later n m s)" if "slots_fit s" "wd_calls (oc_world s) \<le> n" for s n m
    using slots_fit_same [of "later n m s" s] that cl_ring_cong [of "later n m s" s] by (simp add: slots_fit_def)
  then show "restless slots_fit" by (simp add: restless_def)
  show "slots_fit (world f s)" if "inert f" "slots_fit s" for f s
    using slots_fit_same [of "world f s" s] that cl_ring_cong [of "world f s" s] by (simp add: slots_fit_def inert_def)
qed (simp_all add: slots_fit_cl_slot)

lemma ring_nothing: "queue_inv (cl_ring s) \<Longrightarrow> queue_inv (cl_ring (s\<lparr>oc_queued := []\<rparr>))"
  by (simp add: cl_ring_inv)

lemma slots_fit_nothing: "slots_fit s \<Longrightarrow> slots_fit (s\<lparr>oc_queued := []\<rparr>)"
  using slots_fit_same [of "s\<lparr>oc_queued := []\<rparr>" s] ring_nothing by (simp add: slots_fit_def)

lemma queue_ok_nothing: "queue_ok k tables s \<Longrightarrow> queue_ok k tables (s\<lparr>oc_queued := []\<rparr>)"
  using ring_nothing [of s] slots_only [of "s\<lparr>oc_queued := []\<rparr>" s] by (simp add: queue_ok_def)

lemma queue_ok_fit: "queue_ok k tables s \<Longrightarrow> slots_fit s"
  by (simp add: queue_ok_def slots_fit_def homes_def)

lemma settled_homes: "slot_homes (settled cd b) = slot_homes b" "slots_apart (settled cd b) = slots_apart b"
proof -
  have "sl_header (oc_slots (settled cd b) ! i) = sl_header (oc_slots b ! i) \<and> sl_target (oc_slots (settled cd b) ! i) = sl_target (oc_slots b ! i) \<and>
      sl_hits (oc_slots (settled cd b) ! i) = sl_hits (oc_slots b ! i)" if "i < length (oc_slots b)" for i
    using settled_slot [OF that, of cd] by (simp add: slot_frame_def)
  then show "slot_homes (settled cd b) = slot_homes b" "slots_apart (settled cd b) = slots_apart b"
    by (auto simp: slot_homes_def slots_apart_def)
qed

lemma slots_fit_settled: "once cd slots_fit b = slots_fit b"
  using cl_ring_cong [of "settled cd b" b] settled_homes [of cd b] by (simp add: once_def slots_fit_def)

lemma abandon_fit: "slots_fit b \<Longrightarrow> slots_fit (cl_abandon cd b)"
  using abandon_once [OF lasting_slots_fit, of cd b] slots_fit_nothing slots_fit_cl_slot [of sl_forget]
  by (simp add: slots_fit_settled sl_forget_def)

lemma abandon_queue_ok: "once cd (queue_ok k tables) b \<Longrightarrow> once cd (queue_ok k tables) (cl_abandon cd b)"
  using abandon_once [OF lasting_queue_ok, of k tables cd b] queue_ok_nothing queue_ok_cl_slot [of sl_forget]
  by (simp add: sl_forget_def)

lemma forgotten_ready: "queue_ok k tables b \<Longrightarrow> forgotten b \<Longrightarrow> once cd (ready k tables) b \<and> scans cd b = []"
  by (simp add: once_def ready_def forgotten_def scans_def coherent_slot_def ends_in_read_def)

lemma abandon_ready: "finishes cd \<Longrightarrow> once cd (queue_ok k tables) b \<Longrightarrow> once cd (ready k tables) (cl_abandon cd b) \<and> scans cd (cl_abandon cd b) = []"
  using abandon_queue_ok [of cd k tables b] abandon_forgotten [of cd b] forgotten_ready [of k tables "cl_abandon cd b" cd]
  by (simp add: once_def forgotten_def)

subsection \<open>The batch\<close>

text \<open>Memory outside the homes of the launches.\<close>

definition with_mem :: "(handle \<Rightarrow> ClBuf) \<Rightarrow> OpenClBackend \<Rightarrow> OpenClBackend" where
  "with_mem m = world (\<lambda>w. w\<lparr>wd_mem := m\<rparr>)"

lemma with_mem_fields [simp]:
  "oc_slots (with_mem m s) = oc_slots s" "oc_queued (with_mem m s) = oc_queued s" "oc_next_slot (with_mem m s) = oc_next_slot s"
  "oc_bc3 (with_mem m s) = oc_bc3 s" "mem (with_mem m s) = m" "pending (with_mem m s) = pending s"
  "wd_calls (oc_world (with_mem m s)) = wd_calls (oc_world s)" "wd_args (oc_world (with_mem m s)) = wd_args (oc_world s)"
  by (simp_all add: with_mem_def mem_def pending_def)

lemma set_mem_with [simp]: "set_mem h x (with_mem m s) = with_mem (m(h := x)) s"
  by (simp add: with_mem_def set_mem_def world_def)

lemma set_mem_as_with: "set_mem h x s = with_mem ((mem s)(h := x)) s"
  by (simp add: with_mem_def set_mem_def world_def mem_def)

lemma cl_slot_with: "cl_slot i f (with_mem m s) = with_mem m (cl_slot i f s)"
  by (simp add: with_mem_def world_cl_slot)

lemma exec_homes: "homes k (exec cd c s) = homes k s" "fits k (exec cd c s) d = fits k s d"
proof -
  have e: "sl_header (oc_slots (exec cd c s) ! i) = sl_header (oc_slots s ! i) \<and> sl_target (oc_slots (exec cd c s) ! i) = sl_target (oc_slots s ! i) \<and>
      sl_hits (oc_slots (exec cd c s) ! i) = sl_hits (oc_slots s ! i)" if "i < length (oc_slots s)" for i
  proof -
    have "map slot_frame (oc_slots (exec cd c s)) ! i = map slot_frame (oc_slots s) ! i" by (simp only: exec_frame)
    then show ?thesis using that by (simp add: slot_frame_def)
  qed
  then show h: "homes k (exec cd c s) = homes k s" by (auto simp: homes_def slot_homes_def)
  show "fits k (exec cd c s) d = fits k s d" using e h by (cases d) auto
qed

lemma exec_outside:
  assumes "fits k s c" and "\<forall>h\<in>homes k s. m h = mem s h"
  shows "\<exists>m'. exec cd c (with_mem m s) = with_mem m' (exec cd c s) \<and> (\<forall>h\<in>homes k s. m' h = mem (exec cd c s) h)"
proof (cases c)
  case (Write_header h i)
  then show ?thesis using assms(2) by (intro exI) (auto simp: set_mem_as_with [of h _ s] with_mem_def mem_def set_mem_def world_def)
next
  case (Write_target h i)
  then show ?thesis using assms(2) by (intro exI) (auto simp: set_mem_as_with [of h _ s] with_mem_def mem_def set_mem_def world_def)
next
  case (Write_count h i)
  have "h \<in> homes k s" using assms(1) Write_count by (auto simp: homes_def slot_homes_def)
  then have "m h = mem s h" using assms(2) by blast
  then show ?thesis using assms(2) Write_count
    by (intro exI) (auto simp: set_mem_as_with [of h _ s] with_mem_def mem_def set_mem_def world_def)
next
  case (Read_hits h i)
  have "h \<in> homes k s" using assms(1) Read_hits by (auto simp: homes_def slot_homes_def)
  then have "m h = mem s h" using assms(2) by blast
  then show ?thesis using assms(2) Read_hits by (intro exI [of _ m]) (simp add: cl_slot_with)
next
  case (Run_kernel p args dims)
  show ?thesis
  proof (cases "args 6 = None")
    case True
    then have out: "mem_arg (args 3) \<notin> homes k s" using assms(1) Run_kernel by simp
    let ?x = "Bytes (cd_batch cd p dims (as_limbs (m (mem_arg (args 0)))) (as_bytes (m (mem_arg (args 1)))) (u32_arg (args 2)))"
    have "exec cd c (with_mem m s) = with_mem (m(mem_arg (args 3) := ?x)) (exec cd c s)"
      using True Run_kernel by (simp add: with_mem_def mem_def set_mem_def world_def)
    moreover have "\<forall>h\<in>homes k s. (m(mem_arg (args 3) := ?x)) h = mem (exec cd c s) h"
      using True Run_kernel out assms(2) by (auto simp: mem_set_mem)
    ultimately show ?thesis by blast
  next
    case False
    then have h: "mem_arg (args 0) \<in> homes k s" "mem_arg (args 1) \<in> homes k s" "mem_arg (args 4) \<in> homes k s" "mem_arg (args 5) \<in> homes k s"
      using assms(1) Run_kernel by auto
    let ?x = "Words (cd_scan cd p dims (as_limbs (mem s (mem_arg (args 0)))) (as_bytes (mem s (mem_arg (args 1))))
                (u32_arg (args 2)) (u32_arg (args 3)) (as_limbs (mem s (mem_arg (args 4)))) (as_words (mem s (mem_arg (args 5))))
                (u32_arg (args 6)))"
    have "m (mem_arg (args 0)) = mem s (mem_arg (args 0))" "m (mem_arg (args 1)) = mem s (mem_arg (args 1))"
      "m (mem_arg (args 4)) = mem s (mem_arg (args 4))" "m (mem_arg (args 5)) = mem s (mem_arg (args 5))" using h assms(2) by blast+
    then have "exec cd c (with_mem m s) = with_mem (m(mem_arg (args 5) := ?x)) s" using False Run_kernel by simp
    moreover have "exec cd c s = set_mem (mem_arg (args 5)) ?x s" using False Run_kernel by simp
    ultimately have "exec cd c (with_mem m s) = with_mem (m(mem_arg (args 5) := ?x)) (exec cd c s)"
      "\<forall>h\<in>homes k s. (m(mem_arg (args 5) := ?x)) h = mem (exec cd c s) h"
      using assms(2) by (simp_all add: mem_set_mem) (simp add: with_mem_def set_mem_def world_def)
    then show ?thesis by blast
  qed
qed

lemma settled_outside:
  assumes "\<And>c. c \<in> set (pending b) \<Longrightarrow> fits k b c" and "\<forall>h\<in>homes k b. m h = mem b h"
  shows "\<exists>m'. settled cd (with_mem m b) = with_mem m' (settled cd b) \<and> (\<forall>h\<in>homes k (settled cd b). m' h = mem (settled cd b) h)"
proof -
  have "(\<And>c. c \<in> set cs \<Longrightarrow> fits k b c) \<Longrightarrow> \<forall>h\<in>homes k b. m h = mem b h \<Longrightarrow>
      \<exists>m'. fold (exec cd) cs (with_mem m b) = with_mem m' (fold (exec cd) cs b) \<and>
        (\<forall>h\<in>homes k (fold (exec cd) cs b). m' h = mem (fold (exec cd) cs b) h)" for cs
  proof (induction cs arbitrary: b m)
    case (Cons c cs)
    from exec_outside [of k b c m cd] Cons.prems obtain m' where
      m: "exec cd c (with_mem m b) = with_mem m' (exec cd c b)" "\<forall>h\<in>homes k b. m' h = mem (exec cd c b) h" by auto
    have "\<exists>m''. fold (exec cd) cs (with_mem m' (exec cd c b)) = with_mem m'' (fold (exec cd) cs (exec cd c b)) \<and>
        (\<forall>h\<in>homes k (fold (exec cd) cs (exec cd c b)). m'' h = mem (fold (exec cd) cs (exec cd c b)) h)"
      by (rule Cons.IH) (use Cons.prems m(2) in \<open>simp_all add: exec_homes\<close>)
    then show ?case by (simp add: m(1))
  qed auto
  from this [OF assms] show ?thesis by (simp add: settled_def)
qed

text \<open>What a batch leaves: it has a memory of its own, arguments of its own, and no slot.\<close>

definition aside :: "Bc3Program \<Rightarrow> u64 list \<Rightarrow> (OpenClBackend \<Rightarrow> bool) \<Rightarrow> bool" where
  "aside k tables Q \<longleftrightarrow> lasting Q \<and> (\<forall>s. Q s \<longrightarrow> queue_ok k tables s) \<and>
     (\<forall>s m. Q s \<longrightarrow> (\<forall>h\<in>homes k s. m h = mem s h) \<longrightarrow> Q (with_mem m s)) \<and>
     (\<forall>s p args dims. Q s \<longrightarrow> args 6 = None \<longrightarrow> mem_arg (args 3) \<notin> homes k s \<longrightarrow> Q (queue_cmd (Run_kernel p args dims) s))"

lemma queue_ok_with_mem: "queue_ok k tables s \<Longrightarrow> \<forall>h\<in>homes k s. m h = mem s h \<Longrightarrow> queue_ok k tables (with_mem m s)"
  using slots_only [of "with_mem m s" s] cl_ring_cong [of "with_mem m s" s] by (simp add: queue_ok_def homes_def)

lemma coherent_with_mem:
  assumes "\<forall>h\<in>homes k s. m h = mem s h" and "i < length (oc_slots s)"
  shows "coherent_slot i (with_mem m s) = coherent_slot i s"
proof -
  have "sl_header (oc_slots s ! i) \<in> homes k s" "sl_target (oc_slots s ! i) \<in> homes k s" using assms(2) by (auto simp: homes_def slot_homes_def)
  then have "m (sl_header (oc_slots s ! i)) = mem s (sl_header (oc_slots s ! i))" "m (sl_target (oc_slots s ! i)) = mem s (sl_target (oc_slots s ! i))"
    using assms(1) by blast+
  then show ?thesis by (simp add: coherent_slot_def)
qed

definition waiting_for :: "Bc3Program \<Rightarrow> u64 list \<Rightarrow> nat list \<Rightarrow> u32 list list \<Rightarrow> OpenClBackend \<Rightarrow> bool" where
  "waiting_for k tables q hs s \<longleftrightarrow> ready k tables s \<and> oc_queued s = q \<and> map (hits_of s) (oc_queued s) = hs"

lemma aside_waiting: "aside k tables (waiting_for k tables q hs)"
  unfolding aside_def
proof (intro conjI allI impI)
  show "lasting (waiting_for k tables q hs)"
    unfolding waiting_for_def by (intro lasting_conj lasting_ready lasting_scans) (simp add: lasting_def restless_def)
  show "queue_ok k tables s" if "waiting_for k tables q hs s" for s using that by (simp add: waiting_for_def ready_def)
  show "waiting_for k tables q hs (with_mem m s)" if "waiting_for k tables q hs s" "\<forall>h\<in>homes k s. m h = mem s h" for s m
  proof -
    have "hits_of (with_mem m s) = hits_of s" by (rule slots_only) simp
    then show ?thesis using that queue_ok_with_mem [of k tables s m] coherent_with_mem [OF that(2)] by (auto simp: waiting_for_def ready_def)
  qed
  show "waiting_for k tables q hs (queue_cmd (Run_kernel p args dims) s)"
    if "waiting_for k tables q hs s" "args 6 = None" "mem_arg (args 3) \<notin> homes k s" for s p args dims
  proof -
    let ?c = "Run_kernel p args dims"
    have "fits k s ?c" using that(2,3) by simp
    then have "queue_ok k tables (queue_cmd ?c s)" using that(1) queue_ok_queue_cmd by (simp add: waiting_for_def ready_def)
    moreover have "coherent_slot j (queue_cmd ?c s) = coherent_slot j s" for j by (rule coherent_only) simp_all
    moreover have "hits_of (queue_cmd ?c s) = hits_of s" by (rule slots_only) simp
    ultimately show ?thesis using that(1) ends_in_read_other [of ?c _ "pending s"] by (auto simp: waiting_for_def ready_def)
  qed
qed

lemma once_with_mem:
  assumes "aside k tables Q" and "once cd Q b" and "h \<notin> homes k (settled cd b)"
  shows "once cd Q (set_mem h x b)"
proof -
  have hb: "homes k (settled cd b) = homes k b" by (simp add: homes_def settled_homes)
  have fit: "fits k b c" if "c \<in> set (pending b)" for c
  proof -
    have "fits k (settled cd b) c" using assms(1,2) that by (auto simp: aside_def once_def queue_ok_def)
    moreover have "fits k (fold (exec cd) cs b) c = fits k b c" for cs by (induction cs arbitrary: b) (simp_all add: exec_homes)
    ultimately show ?thesis by (simp add: settled_def)
  qed
  have "\<forall>g\<in>homes k b. ((mem b)(h := x)) g = mem b g" using assms(3) hb by auto
  from settled_outside [of b k, OF fit this] obtain m' where
    "settled cd (with_mem ((mem b)(h := x)) b) = with_mem m' (settled cd b)" "\<forall>g\<in>homes k (settled cd b). m' g = mem (settled cd b) g" by blast
  then show ?thesis using assms(1,2) by (simp add: once_def aside_def set_mem_as_with)
qed

lemma homes_same [simp]:
  "homes k (later n m s) = homes k s" "homes k (world f s) = homes k s" "homes k (with_mem m' s) = homes k s" "homes k (queue_cmd c s) = homes k s"
  "homes k (set_mem h x s) = homes k s"
  by (rule slots_only, simp)+

lemma homes_settled [simp]: "homes k (settled cd b) = homes k b"
  by (simp add: homes_def settled_homes)

lemma aside_spare: "aside k tables Q \<Longrightarrow> aside k tables (\<lambda>s. Q s \<and> h \<notin> homes k s)"
  using cl_slot_homes(3) [of "\<lambda>s. s\<lparr>sl_kernel_done := 0\<rparr>"] cl_slot_homes(3) [of "\<lambda>s. s\<lparr>sl_read_done := 0\<rparr>"]
  by (simp add: aside_def lasting_def restless_def)

lemma aside_lasting: "aside k tables Q \<Longrightarrow> lasting Q"
  by (simp add: aside_def)

lemma aside_ok: "aside k tables Q \<Longrightarrow> once cd Q b \<Longrightarrow> queue_ok k tables (settled cd b)"
  by (simp add: aside_def once_def)

text \<open>A buffer made for the batch is at home with no launch.\<close>

lemma once_buffer:
  assumes "aside k tables Q" and b: "once cd Q b" and c: "create_buffer cd what b = (r, c)"
  shows "once cd Q c \<and> (\<forall>h. r = Inr h \<longrightarrow> h \<notin> homes k c)"
proof -
  obtain n d where e: "enter cd b = (n, d)" by (cases "enter cd b")
  have d: "once cd Q d" using once_enter [OF _ b e] aside_lasting [OF assms(1)] by (simp add: lasting_def)
  have n: "n = wd_calls (oc_world b)" by (rule settled_enter(2) [OF e])
  have "homes k (settled cd d) = homes k (settled cd b)" by (simp only: settled_enter(1) [OF e] homes_same)
  then have hd: "homes k d = homes k b" by simp
  have small: "\<forall>h\<in>homes k b. h \<le> wd_calls (oc_world b)"
    using aside_ok [OF assms(1) b] by (simp add: queue_ok_def)
  then have fresh: "Suc n \<notin> homes k d" by (auto simp: hd n)
  show ?thesis
  proof (cases "cd_null cd n")
    case True
    then show ?thesis using c e d by (auto simp: create_buffer_def create_def Let_def check_def split: if_splits)
  next
    case False
    let ?m = "made K_Mem (Suc n) d"
    have "once cd Q ?m" unfolding made_def
      by (rule once_world [OF _ aside_lasting [OF assms(1)] d]) (simp add: inert_def keeps_mem_def)
    moreover have "homes k ?m = homes k d" by (simp add: made_def)
    ultimately have "once cd Q (set_mem (Suc n) (cd_fresh cd (Suc n)) ?m)" "homes k (set_mem (Suc n) (cd_fresh cd (Suc n)) ?m) = homes k d"
      using once_with_mem [OF assms(1), of cd ?m "Suc n"] fresh by simp_all
    then show ?thesis using False c e fresh by (auto simp: create_buffer_def create_def Let_def check_def split: if_splits)
  qed
qed

lemma once_with_temp:
  assumes a: "aside k tables Q"
    and "\<And>h. triple (once cd (\<lambda>s. Q s \<and> h \<notin> homes k s)) (body h) (\<lambda>_. once cd (\<lambda>s. Q s \<and> h \<notin> homes k s)) (once cd (\<lambda>s. Q s \<and> h \<notin> homes k s))"
  shows "triple (once cd Q) (with_temp cd what body) (\<lambda>_. once cd Q) (once cd Q)"
  unfolding triple_def
proof (intro allI impI)
  fix b assume b: "once cd Q b"
  obtain r c where c: "create_buffer cd what b = (r, c)" by (cases "create_buffer cd what b")
  note o = once_buffer [OF a b c]
  show "case with_temp cd what body b of (Inr x, t) \<Rightarrow> once cd Q t | (Inl e, t) \<Rightarrow> once cd Q t"
  proof (cases r)
    case (Inl e)
    then show ?thesis using o c by (simp add: with_temp_def)
  next
    case (Inr h)
    obtain x d where d: "body h c = (x, d)" by (cases "body h c")
    have "once cd (\<lambda>s. Q s \<and> h \<notin> homes k s) c" using o Inr by (simp add: once_def)
    from tripleD [OF assms(2) this d] have "once cd Q d" by (auto simp: once_def split: sum.splits)
    then have "once cd Q (release_unless_null cd ReleaseMemObject K_Mem h d)" by (rule once_release [OF aside_lasting [OF a]])
    then show ?thesis using c d Inr by (simp add: with_temp_def split: sum.split)
  qed
qed

lemma once_run_all: "restless Q \<Longrightarrow> once cd Q b \<Longrightarrow> once cd Q (run_all cd b)"
  unfolding run_all_def by (rule once_run_some)

lemma batch_body_once:
  fixes g :: "bytes \<Rightarrow> bytes list"
  assumes "aside k tables R" and Q: "Q = (\<lambda>s. (R s \<and> i \<notin> homes k s) \<and> out \<notin> homes k s)"
  shows "triple (once cd Q) (and_then (write_blocking cd ''headers'' i x) (\<lambda>_.
      and_then (set_args cd (bp_batch k) [Mem (bp_tables k), Mem i, U32 cnt, Mem out]) (\<lambda>_.
      and_then (cl_launch cd (bp_batch k) cnt loc (\<lambda>_. id)) (\<lambda>_.
      and_then (cl_call cd EnqueueReadBuffer ''read digests'' (\<lambda>_. run_all cd)) (\<lambda>_.
      and_then (\<lambda>b. (Inr (as_bytes (mem b out)), b)) (\<lambda>bytes.
      and_then (cl_call cd Finish ''clFinish'' (\<lambda>_. run_all cd)) (\<lambda>_. give (g bytes)))))))) (\<lambda>_. once cd Q) (once cd Q)"
proof -
  have a: "aside k tables Q" unfolding Q by (intro aside_spare assms(1))
  have l: "lasting Q" and rl: "restless Q" using aside_lasting [OF a] by (simp_all add: lasting_def)
  let ?args = "[Mem (bp_tables k), Mem i, U32 cnt, Mem out]"
  let ?A = "\<lambda>s. Q s \<and> (\<forall>j<length ?args. wd_args (oc_world s) (bp_batch k) j = Some (?args ! j))"
  have sync: "triple (once cd Q) (cl_call cd f what (\<lambda>_. run_all cd)) (\<lambda>_. once cd Q) (once cd Q)" for f what
    by (rule once_call [OF rl]) (simp_all add: once_run_all [OF rl])
  have 1: "triple (once cd Q) (write_blocking cd ''headers'' i x) (\<lambda>_. once cd Q) (once cd Q)"
    unfolding write_blocking_def
  proof (rule once_call [OF rl])
    fix n b assume "once cd Q b"
    then have "once cd Q (run_all cd b)" by (rule once_run_all [OF rl])
    moreover from this have "i \<notin> homes k (settled cd (run_all cd b))" by (simp add: Q once_def)
    ultimately show "once cd Q (set_mem i x (run_all cd b))" by (rule once_with_mem [OF a])
  qed
  have 2: "triple (once cd Q) (set_args cd (bp_batch k) ?args) (\<lambda>_. once cd ?A) (once cd Q)"
  proof (rule set_args_once [OF rl])
    fix s j y assume s: "Q s" and j: "j < length ?args"
    have "inert (\<lambda>w. w\<lparr>wd_args := (wd_args w)(bp_batch k := (wd_args w (bp_batch k))(j := Some y))\<rparr>)"
      using j by (simp add: inert_def keeps_mem_def)
    then show "Q (world (\<lambda>w. w\<lparr>wd_args := (wd_args w)(bp_batch k := (wd_args w (bp_batch k))(j := Some y))\<rparr>) s)"
      using l s unfolding lasting_def by blast
  qed
  have 3: "triple (once cd ?A) (cl_launch cd (bp_batch k) cnt loc (\<lambda>_. id)) (\<lambda>_. once cd Q) (once cd Q)"
    unfolding cl_launch_def
  proof (rule once_call)
    show "restless ?A" using rl by (simp add: restless_def)
    fix n b assume b: "once cd ?A b"
    let ?w = "wd_args (oc_world b) (bp_batch k)" and ?s = "settled cd b"
    let ?c = "Run_kernel (bp_batch k) ?w (launch_size cnt loc)"
    have s: "Q ?s" and w: "?w 6 = None" and w3: "mem_arg (?w 3) = out" and o: "out \<notin> homes k ?s"
      using b a Q by (auto simp: once_def aside_def queue_ok_def mem_arg_def)
    have "Q (with_mem m ?s)" if "\<forall>h\<in>homes k ?s. m h = mem ?s h" for m using a s that by (auto simp: aside_def)
    moreover have "exec cd ?c ?s = with_mem ((mem ?s)(out := Bytes (cd_batch cd (bp_batch k) (launch_size cnt loc)
        (as_limbs (mem ?s (mem_arg (?w 0)))) (as_bytes (mem ?s (mem_arg (?w 1)))) (u32_arg (?w 2))))) ?s"
      using w w3 by (simp add: set_mem_as_with)
    ultimately have "Q (exec cd ?c ?s)" using o by auto
    moreover have "Q t \<Longrightarrow> mem_arg (?w 3) \<notin> homes k t \<Longrightarrow> Q (queue_cmd ?c t)" for t using a w unfolding aside_def by blast
    ultimately have "Q (queue_cmd ?c (exec cd ?c ?s))" using w3 o by (simp add: exec_homes del: exec.simps)
    then show "once cd Q (id (queue_cmd ?c b))" by (simp add: once_def settled_queue_cmd)
  qed simp
  have 4: "triple (once cd Q) (\<lambda>b. (Inr (as_bytes (mem b out)), b)) (\<lambda>_. once cd Q) (once cd Q)" by (simp add: triple_def)
  have 5: "triple (once cd Q) (give (g y)) (\<lambda>_. once cd Q) (once cd Q)" for y by (simp add: triple_def give_def)
  show ?thesis
    by (rule triple_and_then [OF 1], rule triple_and_then [OF 2], rule triple_and_then [OF 3], rule triple_and_then [OF sync],
        rule triple_and_then [OF 4], rule triple_and_then [OF sync], rule 5)
qed

lemma batch_once:
  assumes "once cd (waiting_for k tables q hs) b"
  shows "once cd (waiting_for k tables q hs) (snd (cl_bc3_batch cd b headers))"
proof -
  have k: "oc_bc3 b = Some k" using assms by (simp add: once_def waiting_for_def ready_def queue_ok_def)
  obtain r c where c: "cl_bc3_batch cd b headers = (r, c)" by (cases "cl_bc3_batch cd b headers")
  let ?Q = "waiting_for k tables q hs"
  have "triple (once cd ?Q) (with_temp cd ''headers'' (\<lambda>d_in. with_temp cd ''digests'' (\<lambda>d_out.
            and_then (write_blocking cd ''headers'' d_in (Bytes (concat headers))) (\<lambda>_.
            and_then (set_args cd (bp_batch k) [Mem (bp_tables k), Mem d_in, U32 (word_of_nat (length headers)), Mem d_out]) (\<lambda>_.
            and_then (cl_launch cd (bp_batch k) (word_of_nat (length headers)) (bp_local k) (\<lambda>_. id)) (\<lambda>_.
            and_then (cl_call cd EnqueueReadBuffer ''read digests'' (\<lambda>_. run_all cd)) (\<lambda>_.
            and_then (\<lambda>b. (Inr (as_bytes (mem b d_out)), b)) (\<lambda>out.
            and_then (cl_call cd Finish ''clFinish'' (\<lambda>_. run_all cd)) (\<lambda>_.
            give (map (\<lambda>j. take 32 (drop (32 * j) out)) [0..<length headers]))))))))))
      (\<lambda>_. once cd ?Q) (once cd ?Q)"
    by (intro once_with_temp [OF aside_waiting] once_with_temp [OF aside_spare [OF aside_waiting]]
        batch_body_once [OF aside_waiting refl])
  from tripleD [OF this assms, of r c] c show ?thesis
    by (cases r) (simp_all add: cl_bc3_batch_def k ok_or_def and_then_def [of "give k"] give_def Let_def and_then_def [of "\<lambda>s. (Inr k, s)"])
qed

text \<open>An OpenCL card whose calls may fail is a device whose scans belong to its launches.\<close>

lemma ready_depth: "once cd (ready k tables) b \<Longrightarrow> length (oc_queued b) \<le> QUEUE_DEPTH"
  by (simp add: once_def ready_def queue_ok_def cl_ring_inv)

lemma length_scans: "length (scans cd b) = length (oc_queued b)"
  by (simp add: scans_def)

lemma waiting_once: "once cd (waiting_for k tables (oc_queued b) (scans cd b)) b = once cd (ready k tables) b"
  by (auto simp: once_def waiting_for_def scans_def)

lemma batch_waits:
  assumes "once cd (ready k tables) b"
  shows "once cd (ready k tables) (snd (cl_bc3_batch cd b hs))" "oc_queued (snd (cl_bc3_batch cd b hs)) = oc_queued b"
    "scans cd (snd (cl_bc3_batch cd b hs)) = scans cd b"
  using batch_once [of cd k tables "oc_queued b" "scans cd b" b hs] assms waiting_once [of cd k tables b]
  by (auto simp: once_def waiting_for_def scans_def)

interpretation cl_scanning: scanning_device "cl_with cd prepare" "cl_bc3_batch cd" "\<lambda>b. finishes cd \<and> once cd (ready k tables) b"
  "\<lambda>b. finishes cd \<and> once cd (queue_ok k tables) b" "scans cd" "\<lambda>l h. \<exists>ws. h = cl_hits cd k tables l ws" for cd prepare k tables
proof
  fix b l hs e u b' scan assume inv: "finishes cd \<and> once cd (ready k tables) b"
  then have r: "once cd (ready k tables) b" and f: "finishes cd" by simp_all
  show "finishes cd \<and> once cd (ready k tables) b'" if "be_enqueue (cl_with cd prepare) b l = (Inr u, b')"
    using enqueue_once [OF r] that f by (fastforce simp: cl_with_def)
  show "finishes cd \<and> once cd (queue_ok k tables) b'" if "be_enqueue (cl_with cd prepare) b l = (Inl e, b')"
    using enqueue_once [OF r] that f by (fastforce simp: cl_with_def)
  show "finishes cd \<and> once cd (ready k tables) b'" if "be_collect (cl_with cd prepare) b = (Inr scan, b')"
    using collect_once [OF r] that f by (fastforce simp: cl_with_def)
  show "finishes cd \<and> once cd (queue_ok k tables) b'" if "be_collect (cl_with cd prepare) b = (Inl e, b')"
    using collect_once [OF r] that f by (fastforce simp: cl_with_def)
  show "finishes cd \<and> once cd (ready k tables) (snd (cl_bc3_batch cd b hs))" using batch_waits(1) [OF r] f by simp
  show "be_in_flight (cl_with cd prepare) b \<le> QUEUE_DEPTH" using ready_depth [OF r] by (simp add: cl_with_def)
  show "be_in_flight (cl_with cd prepare) b' < be_in_flight (cl_with cd prepare) b"
    if "be_in_flight (cl_with cd prepare) b \<noteq> 0" "be_collect (cl_with cd prepare) b = (Inr scan, b')"
  proof -
    have "cl_collect cd b = (Inr scan, b')" using that(2) by (simp add: cl_with_def)
    from collect_once [OF r this] obtain h where "scans cd b = h # scans cd b'" by auto
    then have "length (oc_queued b) = Suc (length (oc_queued b'))" by (metis length_Cons length_scans)
    then show ?thesis by (simp add: cl_with_def)
  qed
  show "be_in_flight (cl_with cd prepare) (snd (cl_bc3_batch cd b hs)) = be_in_flight (cl_with cd prepare) b"
    using batch_waits(2) [OF r] by (simp add: cl_with_def)
  show "\<exists>h. (\<exists>ws. h = cl_hits cd k tables l ws) \<and> scans cd b' = scans cd b @ [h]" if "be_enqueue (cl_with cd prepare) b l = (Inr u, b')"
    using enqueue_once [OF r] that by (fastforce simp: cl_with_def)
  show "\<exists>h busy. scans cd b = h # scans cd b' \<and> scan = scan_of h busy" if "be_collect (cl_with cd prepare) b = (Inr scan, b')"
    using collect_once [OF r] that by (fastforce simp: cl_with_def)
  show "be_in_flight (cl_with cd prepare) b = length (scans cd b)" by (simp add: cl_with_def length_scans)
  show "scans cd (snd (cl_bc3_batch cd b hs)) = scans cd b" by (rule batch_waits(3) [OF r])
next
  fix b assume inv: "finishes cd \<and> once cd (queue_ok k tables) b"
  then have a: "once cd (ready k tables) (cl_abandon cd b) \<and> scans cd (cl_abandon cd b) = []" using abandon_ready by blast
  then show "finishes cd \<and> once cd (ready k tables) (be_abandon (cl_with cd prepare) b)" using inv by (simp add: cl_with_def)
  show "be_in_flight (cl_with cd prepare) (be_abandon (cl_with cd prepare) b) = 0"
    using a length_scans [of cd "cl_abandon cd b"] by (simp add: cl_with_def)
qed

end
