(* ===== verification/Opencl_Card.thy ===== *)
theory Opencl_Card
  imports Opencl_Scans
begin

text \<open>
  An OpenCL card from its opening on: making the slots and the program, the self-test, and whatever is asked
  of it in whatever order.
\<close>

section \<open>Lemmas\<close>

subsection \<open>An idle card\<close>

text \<open>Nothing queued and no program; what calls do to such a card.\<close>

definition blank :: "OpenClBackend \<Rightarrow> bool" where
  "blank b \<longleftrightarrow> forgotten b \<and> slots_fit b \<and> oc_bc3 b = None"

definition quietly :: "OpenClBackend \<Rightarrow> OpenClBackend \<Rightarrow> bool" where
  "quietly b c \<longleftrightarrow> oc_slots c = oc_slots b \<and> oc_queued c = oc_queued b \<and> oc_next_slot c = oc_next_slot b \<and> oc_bc3 c = oc_bc3 b \<and>
     pending c = [] \<and> wd_calls (oc_world b) \<le> wd_calls (oc_world c) \<and>
     (\<forall>p. wd_args (oc_world b) p 6 = None \<longrightarrow> wd_args (oc_world c) p 6 = None)"

lemma quietly_trans: "quietly b c \<Longrightarrow> quietly c d \<Longrightarrow> quietly b d"
  by (auto simp: quietly_def)

lemma quietly_refl: "pending b = [] \<Longrightarrow> quietly b b"
  by (simp add: quietly_def)

lemma quietly_pending: "quietly b c \<Longrightarrow> pending c = []"
  by (simp add: quietly_def)

lemma quietly_fit: "quietly b c \<Longrightarrow> slots_fit b \<Longrightarrow> slots_fit c"
  using slots_fit_same [of c b] cl_ring_cong [of c b] by (simp add: quietly_def slots_fit_def)

lemma quietly_blank: "quietly b c \<Longrightarrow> blank b \<Longrightarrow> blank c"
  using quietly_fit [of b c] by (simp add: blank_def forgotten_def quietly_def)

lemma quietly_world: "inert f \<Longrightarrow> pending b = [] \<Longrightarrow> quietly b (world f b)"
  by (simp add: quietly_def pending_inert inert_def)

lemma quietly_set_mem: "pending b = [] \<Longrightarrow> quietly b (set_mem h x b)"
  by (simp add: quietly_def)

lemma quietly_enter:
  assumes "pending b = []" and "enter cd b = (n, c)"
  shows "quietly b c" "n = wd_calls (oc_world b)" "wd_calls (oc_world c) = Suc n" "mem c = mem b"
proof -
  have s: "settled cd c = later (Suc n) (cd_progress cd n) (settled cd b)" "n = wd_calls (oc_world b)" by (rule settled_enter [OF assms(2)])+
  have p: "pending c = []" using settled_enter(3) [OF assms(2)] assms(1) by simp
  then have c: "c = later (Suc n) (cd_progress cd n) b" using s(1) assms(1) by simp
  show "n = wd_calls (oc_world b)" by (rule s(2))
  show "quietly b c" "wd_calls (oc_world c) = Suc n" "mem c = mem b" using p s(2) by (simp_all add: quietly_def c)
qed

lemma quietly_create:
  assumes "pending b = []" and "create cd f kind b = (code, h, c)"
  shows "quietly b c" "h \<noteq> 0 \<Longrightarrow> wd_calls (oc_world b) < h \<and> h \<le> wd_calls (oc_world c) \<and> wd_args (oc_world c) h 6 = None"
proof -
  obtain n d where e: "enter cd b = (n, d)" by (cases "enter cd b")
  note q = quietly_enter [OF assms(1) e]
  have "inert (\<lambda>w. w\<lparr>wd_live := (kind, Suc n) # wd_live w, wd_args := (wd_args w)(Suc n := \<lambda>_. None)\<rparr>)" by (simp add: inert_def keeps_mem_def)
  then have m: "quietly d (made kind (Suc n) d)" unfolding made_def by (rule quietly_world [OF _ quietly_pending [OF q(1)]])
  show "quietly b c" using assms(2) e q(1) quietly_trans [OF q(1) m] by (auto simp: create_def split: if_splits)
  show "wd_calls (oc_world b) < h \<and> h \<le> wd_calls (oc_world c) \<and> wd_args (oc_world c) h 6 = None" if "h \<noteq> 0"
    using assms(2) e q(2,3) that by (auto simp: create_def made_def split: if_splits)
qed

lemma quietly_buffer:
  assumes "pending b = []" and "create_buffer cd what b = (r, c)"
  shows "quietly b c" "r = Inr h \<Longrightarrow> wd_calls (oc_world b) < h \<and> h \<le> wd_calls (oc_world c)"
proof -
  obtain code h' d where m: "create cd CreateBuffer K_Mem b = (code, h', d)" by (cases "create cd CreateBuffer K_Mem b") auto
  note q = quietly_create [OF assms(1) m]
  have s: "quietly d (set_mem h' (cd_fresh cd h') d)" by (rule quietly_set_mem [OF quietly_pending [OF q(1)]])
  show "quietly b c" using assms(2) m q(1) quietly_trans [OF q(1) s] by (auto simp: create_buffer_def Let_def check_def split: if_splits)
  show "wd_calls (oc_world b) < h \<and> h \<le> wd_calls (oc_world c)" if "r = Inr h"
    using assms(2) m q(2) that by (auto simp: create_buffer_def Let_def check_def split: if_splits)
qed

lemma quietly_release: "pending b = [] \<Longrightarrow> quietly b (release_unless_null cd f kind h b)"
proof (cases "h = 0")
  case False
  assume b: "pending b = []"
  obtain n c where e: "enter cd b = (n, c)" by (cases "enter cd b")
  note q = quietly_enter [OF b e]
  have "quietly c (world (\<lambda>w. w\<lparr>wd_live := remove1 (kind, h) (wd_live w), wd_wrong := (wd_wrong w \<or> (kind, h) \<notin> set (wd_live w))\<rparr>) c)"
    by (rule quietly_world [OF _ quietly_pending [OF q(1)]]) (simp add: inert_def keeps_mem_def)
  then show ?thesis using quietly_trans [OF q(1)] False e by (simp add: release_unless_null_def release_def)
qed (simp add: release_unless_null_def quietly_refl)

lemma quietly_releases: "pending b = [] \<Longrightarrow> quietly b (fold (\<lambda>(f, kind, h). release_unless_null cd f kind h) rs b)"
proof (induction rs arbitrary: b)
  case (Cons r rs)
  obtain f kind h where r: "r = (f, kind, h)" by (cases r)
  have q: "quietly b (release_unless_null cd f kind h b)" by (rule quietly_release [OF Cons.prems])
  show ?case using quietly_trans [OF q Cons.IH [OF quietly_pending [OF q]]] by (simp add: r)
qed (simp add: quietly_refl)

lemma quietly_run_all: "pending b = [] \<Longrightarrow> quietly b (run_all cd b) \<and> mem (run_all cd b) = mem b"
  by (simp add: run_all_def run_some_def quietly_def) (simp add: pending_def mem_def)

lemma blank_pending: "blank b \<Longrightarrow> pending b = []"
  by (simp add: blank_def forgotten_def)

subsection \<open>The program\<close>

text \<open>The program as far as it has got; the tables it will have.\<close>

definition progress :: "u64 list \<Rightarrow> u32 \<Rightarrow> nat \<Rightarrow> Bc3Program \<times> OpenClBackend \<Rightarrow> bool" where
  "progress tables w n = (\<lambda>(k, b). blank b \<and> bp_window k = w \<and>
     (1 \<le> n \<longrightarrow> bp_scan k \<le> wd_calls (oc_world b)) \<and>
     (2 \<le> n \<longrightarrow> bp_batch k \<le> wd_calls (oc_world b) \<and> bp_scan k \<noteq> bp_batch k \<and> wd_args (oc_world b) (bp_batch k) 6 = None) \<and>
     (3 \<le> n \<longrightarrow> bp_tables k \<notin> slot_homes b \<and> bp_tables k \<le> wd_calls (oc_world b)) \<and>
     (4 \<le> n \<longrightarrow> mem b (bp_tables k) = Limbs tables))"

abbreviation unfinished where "unfinished \<equiv> \<lambda>(k :: Bc3Program, b). blank b"

lemma progress_quietly:
  "progress tables w n (k, b) \<Longrightarrow> n \<le> 3 \<Longrightarrow> quietly b c \<Longrightarrow> progress tables w n (k, c)"
  using quietly_blank [of b c] slots_only(1) [of c b] by (auto simp: progress_def quietly_def)

lemma progress_unfinished: "progress tables w n s \<Longrightarrow> unfinished s"
  by (cases s) (simp add: progress_def)

lemma program_progress: "triple (progress tables w 0) (make_program cd) (\<lambda>_. progress tables w 0) unfinished"
  unfolding triple_def
proof (intro allI impI)
  fix s assume s: "progress tables w 0 s"
  obtain k b where kb: "s = (k, b)" by (cases s)
  have p: "pending b = []" using s by (simp add: kb progress_def blank_pending)
  obtain code h c where c: "create cd CreateProgramWithSource K_Program b = (code, h, c)"
    by (cases "create cd CreateProgramWithSource K_Program b") auto
  have "blank c" using quietly_blank [OF quietly_create(1) [OF p c]] s by (simp add: kb progress_def)
  then show "case make_program cd s of (Inr x, t) \<Rightarrow> progress tables w 0 t | (Inl e, t) \<Rightarrow> unfinished t"
    using s by (simp add: make_program_def Let_def kb c progress_def)
qed

lemma compile_progress: "triple (progress tables w n) (compile_program cd window) (\<lambda>_. progress tables w n) unfinished" if "n \<le> 3" for n
  unfolding triple_def
proof (intro allI impI)
  fix s assume s: "progress tables w n s"
  obtain k b where kb: "s = (k, b)" by (cases s)
  have p: "pending b = []" using s by (simp add: kb progress_def blank_pending)
  obtain i c where c: "enter cd b = (i, c)" by (cases "enter cd b")
  have "progress tables w n (k, c)" by (rule progress_quietly [OF s [unfolded kb] that quietly_enter(1) [OF p c]])
  then show "case compile_program cd window s of (Inr x, t) \<Rightarrow> progress tables w n t | (Inl e, t) \<Rightarrow> unfinished t"
    using progress_unfinished [of tables w n "(k, c)"] by (simp add: compile_program_def Let_def kb c)
qed

lemma kernel_progress:
  assumes "\<And>k b c h. progress tables w n (k, b) \<Longrightarrow> quietly b c \<Longrightarrow> wd_calls (oc_world b) < h \<Longrightarrow> h \<le> wd_calls (oc_world c) \<Longrightarrow>
      wd_args (oc_world c) h 6 = None \<Longrightarrow> progress tables w m (put h k, c)"
  shows "triple (progress tables w n) (make_kernel cd name put) (\<lambda>_. progress tables w m) unfinished"
  unfolding triple_def
proof (intro allI impI)
  fix s assume s: "progress tables w n s"
  obtain k b where kb: "s = (k, b)" by (cases s)
  have p: "pending b = []" and bl: "blank b" using s by (simp_all add: kb progress_def blank_pending)
  obtain code h c where c: "create cd CreateKernel K_Kernel b = (code, h, c)" by (cases "create cd CreateKernel K_Kernel b") auto
  note q = quietly_create [OF p c]
  have "blank c" by (rule quietly_blank [OF q(1) bl])
  moreover have "progress tables w m (put h k, c)" if "h \<noteq> 0" using assms [OF s [unfolded kb] q(1)] q(2) [OF that] by blast
  ultimately show "case make_kernel cd name put s of (Inr x, t) \<Rightarrow> progress tables w m t | (Inl e, t) \<Rightarrow> unfinished t"
    by (simp add: make_kernel_def Let_def kb c)
qed

lemma local_progress: "triple (progress tables w 2) (ask_local cd) (\<lambda>_. progress tables w 2) unfinished"
  unfolding triple_def
proof (intro allI impI)
  fix s assume s: "progress tables w 2 s"
  obtain k b where kb: "s = (k, b)" by (cases s)
  have p: "pending b = []" using s by (simp add: kb progress_def blank_pending)
  obtain i c where c: "enter cd b = (i, c)" by (cases "enter cd b")
  have "progress tables w 2 (k, c)" by (rule progress_quietly [OF s [unfolded kb] _ quietly_enter(1) [OF p c]]) simp
  then show "case ask_local cd s of (Inr x, t) \<Rightarrow> progress tables w 2 t | (Inl e, t) \<Rightarrow> unfinished t"
    by (simp add: ask_local_def Let_def kb c progress_def)
qed

lemma slot_homes_small: "slots_fit b \<Longrightarrow> h \<in> slot_homes b \<Longrightarrow> h \<le> wd_calls (oc_world b)"
  by (simp add: slots_fit_def)

lemma tables_progress: "triple (progress tables w 2) (make_tables cd) (\<lambda>_. progress tables w 3) unfinished"
  unfolding triple_def
proof (intro allI impI)
  fix s assume s: "progress tables w 2 s"
  obtain k b where kb: "s = (k, b)" by (cases s)
  have p: "pending b = []" and bl: "blank b" using s by (simp_all add: kb progress_def blank_pending)
  obtain r c where c: "create_buffer cd ''tables'' b = (r, c)" by (cases "create_buffer cd ''tables'' b")
  note q = quietly_buffer [OF p c]
  have cb: "blank c" by (rule quietly_blank [OF q(1) bl])
  have k: "progress tables w 2 (k, c)" by (rule progress_quietly [OF s [unfolded kb] _ q(1)]) simp
  have "progress tables w 3 (k\<lparr>bp_tables := h\<rparr>, c)" if "r = Inr h" for h
  proof -
    have "slot_homes c = slot_homes b" using q(1) by (intro slots_only) (simp add: quietly_def)
    moreover have "h \<notin> slot_homes b" using q(2) [OF that] slot_homes_small [of b h] bl by (auto simp: blank_def)
    ultimately show ?thesis using k q(2) [OF that] by (simp add: progress_def)
  qed
  then show "case make_tables cd s of (Inr x, t) \<Rightarrow> progress tables w 3 t | (Inl e, t) \<Rightarrow> unfinished t"
    using cb by (cases r) (simp_all add: make_tables_def kb c)
qed

lemma fill_progress: "triple (progress tables w 3) (fill_tables cd tables) (\<lambda>_. progress tables w 4) unfinished"
  unfolding triple_def
proof (intro allI impI)
  fix s assume s: "progress tables w 3 s"
  obtain k b where kb: "s = (k, b)" by (cases s)
  have p: "pending b = []" and bl: "blank b" using s by (simp_all add: kb progress_def blank_pending)
  obtain n c where c: "enter cd b = (n, c)" by (cases "enter cd b")
  note q = quietly_enter [OF p c]
  have r: "quietly c (run_all cd c)" using quietly_run_all [OF quietly_pending [OF q(1)]] by blast
  let ?d = "set_mem (bp_tables k) (Limbs tables) (run_all cd c)"
  have d: "quietly b ?d"
    by (rule quietly_trans [OF quietly_trans [OF q(1) r] quietly_set_mem]) (rule quietly_pending [OF r])
  have "progress tables w 3 (k, ?d)" by (rule progress_quietly [OF s [unfolded kb] _ d]) simp
  then have "progress tables w 4 (k, ?d)" by (simp add: progress_def mem_set_mem)
  then show "case fill_tables cd tables s of (Inr x, t) \<Rightarrow> progress tables w 4 t | (Inl e, t) \<Rightarrow> unfinished t"
    using quietly_blank [OF q(1) bl] by (simp add: fill_tables_def on_backend_def write_blocking_def cl_call_def kb c split: sum.split)
qed

text \<open>A cache of the host's tables that holds them.\<close>

definition cache_sound :: "(u32 \<Rightarrow> string + u64 list) \<Rightarrow> (u32 \<times> u64 list option) option \<Rightarrow> bool" where
  "cache_sound gpu_tables cache \<longleftrightarrow> (case cache of Some (w, Some t) \<Rightarrow> gpu_tables w = Inr t | _ \<Rightarrow> True)"

lemma host_tables_right:
  "cache_sound f cache \<Longrightarrow> fst (host_tables f cache w) = f w \<and> cache_sound f (snd (host_tables f cache w))"
  by (auto simp: host_tables_def cache_sound_def split: option.splits sum.splits)

lemma build_progress:
  assumes "\<And>n. cache_sound (cd_gpu_tables cd) (cd_cache cd n)" and b: "blank b" and r: "build_bc3 cd window b = (r, c)"
  shows "blank c \<and> (\<forall>k. r = Inr k \<longrightarrow> (\<exists>tables. cd_gpu_tables cd window = Inr tables \<and> progress tables window 4 (k, c)))"
proof (cases "2 \<le> window \<and> window \<le> 20")
  case False
  then show ?thesis using b r by (auto simp: build_bc3_def)
next
  case True
  let ?k = "\<lparr>bp_window = window, bp_program = 0, bp_scan = 0, bp_batch = 0, bp_tables = 0, bp_local = LOCAL_SIZE\<rparr>"
  let ?host = "\<lambda>s :: Bc3Program \<times> OpenClBackend. (fst (host_tables (cd_gpu_tables cd) (cd_cache cd (wd_calls (oc_world (snd s)))) window), s)"
  let ?done = "\<lambda>s. \<exists>tables. cd_gpu_tables cd window = Inr tables \<and> progress tables window 4 s"
  have start: "progress [] window 0 (?k, b)" using b by (simp add: progress_def)
  have scan: "triple (progress [] window 0) (make_kernel cd ''bc3hash_scan'' (\<lambda>h k. k\<lparr>bp_scan := h\<rparr>)) (\<lambda>_. progress [] window 1) unfinished"
    by (rule kernel_progress) (use quietly_blank in \<open>auto simp: progress_def\<close>)
  have batch: "triple (progress [] window 1) (make_kernel cd ''bc3hash_batch'' (\<lambda>h k. k\<lparr>bp_batch := h\<rparr>)) (\<lambda>_. progress [] window 2) unfinished"
  proof (rule kernel_progress)
    fix k b c h assume a: "progress [] window 1 (k, b)" "quietly b c" "wd_calls (oc_world b) < h" "h \<le> wd_calls (oc_world c)"
      "wd_args (oc_world c) h 6 = None"
    have "progress [] window 1 (k, c)" by (rule progress_quietly [OF a(1) _ a(2)]) simp
    then show "progress [] window 2 (k\<lparr>bp_batch := h\<rparr>, c)" using a(1,3-5) by (simp add: progress_def)
  qed
  have host: "triple (progress [] window 2) ?host
      (\<lambda>tables s. cd_gpu_tables cd window = Inr tables \<and> progress tables window 2 s) unfinished"
    using host_tables_right [OF assms(1)] by (auto simp: triple_def progress_def split: sum.split prod.splits)
  have fill: "triple (\<lambda>s. cd_gpu_tables cd window = Inr tables \<and> progress tables window 2 s)
      (and_then (make_tables cd) (\<lambda>_. fill_tables cd tables)) (\<lambda>_. ?done) unfinished" for tables
  proof -
    have "triple (progress tables window 2) (and_then (make_tables cd) (\<lambda>_. fill_tables cd tables)) (\<lambda>_. progress tables window 4) unfinished"
      by (rule triple_and_then [OF tables_progress fill_progress])
    then show ?thesis by (fastforce simp: triple_def split: prod.splits sum.splits)
  qed
  have run: "triple (progress [] window 0)
      (and_then (make_program cd) (\<lambda>_. and_then (compile_program cd window) (\<lambda>_.
       and_then (make_kernel cd ''bc3hash_scan'' (\<lambda>h k. k\<lparr>bp_scan := h\<rparr>)) (\<lambda>_.
       and_then (make_kernel cd ''bc3hash_batch'' (\<lambda>h k. k\<lparr>bp_batch := h\<rparr>)) (\<lambda>_.
       and_then (ask_local cd) (\<lambda>_. and_then ?host (\<lambda>tables.
       and_then (make_tables cd) (\<lambda>_. fill_tables cd tables)))))))) (\<lambda>_. ?done) unfinished" (is "triple _ ?m _ _")
    by (rule triple_and_then [OF program_progress], rule triple_and_then [OF compile_progress], simp, rule triple_and_then [OF scan],
        rule triple_and_then [OF batch], rule triple_and_then [OF local_progress], rule triple_and_then [OF host], rule fill)
  obtain x k c' where m: "?m (?k, b) = (x, k, c')" by (cases "?m (?k, b)") auto
  note o = tripleD [OF run start m]
  have rc: "(r, c) = (case x of Inl e \<Rightarrow> (Inl e, drop_program cd k c') | Inr u \<Rightarrow> (Inr k, c'))"
    using r True m by (simp add: build_bc3_def owning_def split: sum.splits)
  show ?thesis
  proof (cases x)
    case (Inl e)
    then have "blank c'" using o by simp
    then have "blank (drop_program cd k c')"
      unfolding drop_program_def using quietly_blank [OF quietly_releases [OF blank_pending]] by blast
    then show ?thesis using rc Inl by simp
  next
    case (Inr u)
    then show ?thesis using o rc by (auto simp: progress_def)
  qed
qed

text \<open>In place, it has the card ready.\<close>

lemma program_ready:
  assumes "progress tables window 4 (k, c)"
  shows "queue_ok k tables (c\<lparr>oc_bc3 := Some k\<rparr>)" "forgotten (c\<lparr>oc_bc3 := Some k\<rparr>)" "bp_window k = window"
proof -
  let ?c = "c\<lparr>oc_bc3 := Some k\<rparr>"
  note s = slots_only [of ?c c]
  have f: "slots_fit c" "pending c = []" "forgotten c" using assms by (simp_all add: progress_def blank_def forgotten_def)
  then have "queue_inv (cl_ring ?c)" "slots_apart ?c" "\<forall>h\<in>slot_homes c. h \<le> wd_calls (oc_world c)"
    using cl_ring_cong [of ?c c] s(2) by (simp_all add: slots_fit_def)
  moreover have "pending ?c = pending c" "mem ?c = mem c" by (simp_all add: pending_def mem_def)
  ultimately show "queue_ok k tables ?c" using assms f(2) s(1,3) by (simp add: queue_ok_def progress_def homes_def)
  show "forgotten ?c" using f(3) \<open>pending ?c = pending c\<close> by (simp add: forgotten_def)
  show "bp_window k = window" using assms by (simp add: progress_def)
qed

lemma forgotten_drop: "forgotten b \<Longrightarrow> slots_fit b \<Longrightarrow> blank (drop_bc3 cd b)"
proof -
  assume b: "forgotten b" "slots_fit b"
  have n: "blank (b\<lparr>oc_bc3 := None\<rparr>)"
    using b slots_fit_same [of "b\<lparr>oc_bc3 := None\<rparr>" b] cl_ring_cong [of "b\<lparr>oc_bc3 := None\<rparr>" b]
    by (simp add: blank_def forgotten_def pending_def slots_fit_def)
  show ?thesis
  proof (cases "oc_bc3 b")
    case None
    then show ?thesis using b by (simp add: drop_bc3_def blank_def)
  next
    case (Some k)
    have "blank (drop_program cd k (b\<lparr>oc_bc3 := None\<rparr>))"
      unfolding drop_program_def by (rule quietly_blank [OF quietly_releases [OF blank_pending [OF n]] n])
    then show ?thesis using Some by (simp add: drop_bc3_def)
  qed
qed

text \<open>A card without a program: nothing in flight, whatever may still be pending.\<close>

definition unready :: "OpenClBackend \<Rightarrow> bool" where
  "unready b \<longleftrightarrow> slots_fit b \<and> oc_bc3 b = None \<and> oc_queued b = []"

lemma lasting_unready: "lasting (\<lambda>s. oc_bc3 s = None \<and> oc_queued s = [])"
  by (simp add: lasting_def restless_def)

lemma settled_unready: "once cd (\<lambda>s. oc_bc3 s = None \<and> oc_queued s = []) b = (oc_bc3 b = None \<and> oc_queued b = [])"
  by (simp add: once_def)

lemma blank_unready: "blank b \<Longrightarrow> unready b"
  by (simp add: blank_def unready_def forgotten_def)

lemma drop_unready:
  assumes "slots_fit b" and "oc_queued b = []"
  shows "unready (drop_bc3 cd b)"
proof (cases "oc_bc3 b")
  case None
  then show ?thesis using assms by (simp add: drop_bc3_def unready_def)
next
  case (Some k)
  let ?b = "b\<lparr>oc_bc3 := None\<rparr>"
  have "slots_fit ?b"
    using assms(1) slots_fit_same [of ?b b] cl_ring_cong [of ?b b] by (simp add: slots_fit_def)
  then have f: "slots_fit (drop_program cd k ?b)"
    unfolding drop_program_def using once_releases [OF lasting_slots_fit, of cd ?b] by (simp only: slots_fit_settled)
  have n: "once cd (\<lambda>s. oc_bc3 s = None \<and> oc_queued s = []) ?b" using assms(2) by (simp add: settled_unready)
  have "oc_bc3 (drop_program cd k ?b) = None \<and> oc_queued (drop_program cd k ?b) = []"
    unfolding drop_program_def by (rule once_releases [OF lasting_unready n, unfolded settled_unready])
  then show ?thesis using f Some by (simp add: drop_bc3_def unready_def)
qed

subsection \<open>Opening\<close>

definition opening_slots :: "nat \<Rightarrow> OpenClBackend \<Rightarrow> bool" where
  "opening_slots n b \<longleftrightarrow> pending b = [] \<and> length (oc_slots b) = n \<and> slots_apart b \<and> (\<forall>h\<in>slot_homes b. h \<le> wd_calls (oc_world b)) \<and>
     (\<forall>i<n. sl_header_of (oc_slots b ! i) = None \<and> sl_target_of (oc_slots b ! i) = None) \<and>
     oc_queued b = [] \<and> oc_next_slot b = 0 \<and> oc_bc3 b = None"

lemma opening_quietly: "opening_slots n b \<Longrightarrow> quietly b c \<Longrightarrow> opening_slots n c"
  using slots_only [of c b] by (auto simp: opening_slots_def quietly_def)

text \<open>The buffers of a slot being made: newer than the call numbered \<open>n\<close>, older than the next, and apart.\<close>

definition fresh_slot :: "nat \<Rightarrow> nat \<Rightarrow> ClSlot \<Rightarrow> bool" where
  "fresh_slot n m s \<longleftrightarrow> n < sl_header s \<and> sl_header s < sl_target s \<and> sl_target s < sl_hits s \<and> sl_hits s \<le> m \<and>
     sl_header_of s = None \<and> sl_target_of s = None"

lemma filled:
  assumes "pending b = []" and "fill_buffer cd what put (s, b) = (r, t, c)"
  shows "quietly b c" "r = Inr u \<Longrightarrow> \<exists>h. t = put h s \<and> wd_calls (oc_world b) < h \<and> h \<le> wd_calls (oc_world c)"
proof -
  obtain x d where x: "create_buffer cd what b = (x, d)" by (cases "create_buffer cd what b")
  note q = quietly_buffer [OF assms(1) x]
  show "quietly b c" using q(1) assms(2) x by (cases x) (simp_all add: fill_buffer_def)
  show "\<exists>h. t = put h s \<and> wd_calls (oc_world b) < h \<and> h \<le> wd_calls (oc_world c)" if "r = Inr u"
    using q(2) assms(2) x that by (cases x) (auto simp: fill_buffer_def)
qed

lemma new_slot_fresh:
  assumes "pending b = []" and "ClSlot_new cd b = (Inr s, c)"
  shows "quietly b c \<and> fresh_slot (wd_calls (oc_world b)) (wd_calls (oc_world c)) s"
proof -
  obtain x t d where 1: "fill_buffer cd ''header'' (\<lambda>h s. s\<lparr>sl_header := h\<rparr>) (empty_slot, b) = (x, t, d)"
    by (cases "fill_buffer cd ''header'' (\<lambda>h s. s\<lparr>sl_header := h\<rparr>) (empty_slot, b)") auto
  obtain y u e where 2: "fill_buffer cd ''target'' (\<lambda>h s. s\<lparr>sl_target := h\<rparr>) (t, d) = (y, u, e)"
    by (cases "fill_buffer cd ''target'' (\<lambda>h s. s\<lparr>sl_target := h\<rparr>) (t, d)") auto
  obtain z v f where 3: "fill_buffer cd ''hits'' (\<lambda>h s. s\<lparr>sl_hits := h\<rparr>) (u, e) = (z, v, f)"
    by (cases "fill_buffer cd ''hits'' (\<lambda>h s. s\<lparr>sl_hits := h\<rparr>) (u, e)") auto
  have r: "x = Inr ()" "y = Inr ()" "z = Inr ()" "s = v" "c = f"
    using assms(2) 1 2 3 by (auto simp: ClSlot_new_def owning_def and_then_def split: sum.splits)
  note a = filled [OF assms(1) 1]
  note b = filled [OF quietly_pending [OF a(1)] 2]
  note c = filled [OF quietly_pending [OF b(1)] 3]
  have "quietly b c" using quietly_trans [OF quietly_trans [OF a(1) b(1)] c(1)] r by simp
  moreover have "wd_calls (oc_world b) \<le> wd_calls (oc_world d)" "wd_calls (oc_world d) \<le> wd_calls (oc_world e)"
    "wd_calls (oc_world e) \<le> wd_calls (oc_world f)" using a(1) b(1) c(1) by (simp_all add: quietly_def)
  ultimately show ?thesis using a(2) b(2) c(2) r by (auto simp: fresh_slot_def empty_slot_def)
qed

lemma slot_homesI:
  "i < length (oc_slots b) \<Longrightarrow> sl_header (oc_slots b ! i) \<in> slot_homes b \<and> sl_target (oc_slots b ! i) \<in> slot_homes b \<and> sl_hits (oc_slots b ! i) \<in> slot_homes b"
  by (auto simp: slot_homes_def)

lemma opening_one_more:
  assumes "opening_slots n b" and "quietly b c" and "fresh_slot (wd_calls (oc_world b)) (wd_calls (oc_world c)) s"
  shows "opening_slots (Suc n) (c\<lparr>oc_slots := oc_slots c @ [s]\<rparr>)"
proof -
  let ?c = "c\<lparr>oc_slots := oc_slots c @ [s]\<rparr>"
  have o: "opening_slots n c" by (rule opening_quietly [OF assms(1,2)])
  have l: "length (oc_slots c) = n" and cb: "oc_slots c = oc_slots b" using o assms(2) by (simp_all add: opening_slots_def quietly_def)
  have small: "sl_header (oc_slots c ! i) \<le> wd_calls (oc_world b) \<and> sl_target (oc_slots c ! i) \<le> wd_calls (oc_world b) \<and>
      sl_hits (oc_slots c ! i) \<le> wd_calls (oc_world b)" if "i < n" for i
    using slot_homesI [of i b] that assms(1) l cb by (simp add: opening_slots_def)
  have "slots_apart ?c"
    unfolding slots_apart_def
  proof (intro allI impI)
    fix i j assume "i < length (oc_slots ?c)" "j < length (oc_slots ?c)"
    then have "i < n \<or> i = n" "j < n \<or> j = n" using l by auto
    then show "sl_header (oc_slots ?c ! i) \<noteq> sl_target (oc_slots ?c ! j) \<and> sl_header (oc_slots ?c ! i) \<noteq> sl_hits (oc_slots ?c ! j) \<and>
        sl_target (oc_slots ?c ! i) \<noteq> sl_hits (oc_slots ?c ! j) \<and>
        (i \<noteq> j \<longrightarrow> sl_header (oc_slots ?c ! i) \<noteq> sl_header (oc_slots ?c ! j) \<and> sl_target (oc_slots ?c ! i) \<noteq> sl_target (oc_slots ?c ! j) \<and>
          sl_hits (oc_slots ?c ! i) \<noteq> sl_hits (oc_slots ?c ! j))"
      using small [of i] small [of j] slots_apartD [of c i j] o l assms(3)
      by (elim disjE) (simp_all add: nth_append opening_slots_def fresh_slot_def)
  qed
  moreover have "h \<le> wd_calls (oc_world ?c)" if "h \<in> slot_homes ?c" for h
  proof -
    have "wd_calls (oc_world b) \<le> wd_calls (oc_world c)" using assms(2) by (simp add: quietly_def)
    moreover obtain i where "i < n \<or> i = n" "h \<in> {sl_header (oc_slots ?c ! i), sl_target (oc_slots ?c ! i), sl_hits (oc_slots ?c ! i)}"
      using \<open>h \<in> slot_homes ?c\<close> l by (auto simp: slot_homes_def less_Suc_eq)
    ultimately show ?thesis using small [of i] assms(3) l by (elim disjE) (auto simp: nth_append fresh_slot_def)
  qed
  moreover have "sl_header_of (oc_slots ?c ! i) = None \<and> sl_target_of (oc_slots ?c ! i) = None" if "i < Suc n" for i
    using that o l assms(3) by (auto simp: nth_append less_Suc_eq opening_slots_def fresh_slot_def)
  moreover have "pending ?c = []" using o by (simp add: opening_slots_def pending_def)
  ultimately show ?thesis using o by (simp add: opening_slots_def)
qed

lemma open_slots_apart:
  "triple (opening_slots n) (for_each xs (\<lambda>_. and_then (ClSlot_new cd) (\<lambda>s. change (\<lambda>b. b\<lparr>oc_slots := oc_slots b @ [s]\<rparr>))))
    (\<lambda>_. opening_slots (n + length xs)) (\<lambda>_. True)"
proof (induction xs arbitrary: n)
  case Nil
  show ?case by (simp add: triple_def give_def)
next
  case (Cons x xs)
  have one: "triple (opening_slots n) (and_then (ClSlot_new cd) (\<lambda>s. change (\<lambda>b. b\<lparr>oc_slots := oc_slots b @ [s]\<rparr>)))
      (\<lambda>_. opening_slots (Suc n)) (\<lambda>_. True)"
    unfolding triple_def
  proof (intro allI impI)
    fix b assume b: "opening_slots n b"
    then have p: "pending b = []" by (simp add: opening_slots_def)
    obtain r c where c: "ClSlot_new cd b = (r, c)" by (cases "ClSlot_new cd b")
    show "case and_then (ClSlot_new cd) (\<lambda>s. change (\<lambda>b. b\<lparr>oc_slots := oc_slots b @ [s]\<rparr>)) b of
        (Inr x, t) \<Rightarrow> opening_slots (Suc n) t | (Inl e, t) \<Rightarrow> True"
    proof (cases r)
      case (Inr s)
      then have "quietly b c" "fresh_slot (wd_calls (oc_world b)) (wd_calls (oc_world c)) s" using new_slot_fresh [OF p] c by blast+
      from opening_one_more [OF b this] show ?thesis using c Inr by (simp add: and_then_def change_def)
    qed (simp add: and_then_def c)
  qed
  have "triple (opening_slots (Suc n)) (for_each xs (\<lambda>_. and_then (ClSlot_new cd) (\<lambda>s. change (\<lambda>b. b\<lparr>oc_slots := oc_slots b @ [s]\<rparr>))))
    (\<lambda>_. opening_slots (n + length (x # xs))) (\<lambda>_. True)" using Cons.IH [of "Suc n"] by (simp only: list.size add_Suc_right add_Suc add_0_right)
  from triple_and_then [OF one this] show ?case by (simp only: for_each.simps)
qed

lemma opening_context: "triple (opening_slots n) (open_context cd) (\<lambda>_. opening_slots n) (\<lambda>_. True)"
  unfolding triple_def
proof (intro allI impI)
  fix b assume b: "opening_slots n b"
  obtain code h c where c: "create cd CreateContext K_Context b = (code, h, c)" by (cases "create cd CreateContext K_Context b") auto
  have "pending b = []" using b by (simp add: opening_slots_def)
  then have "opening_slots n c" using opening_quietly [OF b quietly_create(1)] c by blast
  then have "opening_slots n (c\<lparr>oc_context := h\<rparr>)"
    using slots_only [of "c\<lparr>oc_context := h\<rparr>" c] by (simp add: opening_slots_def pending_def)
  then show "case open_context cd b of (Inr x, t) \<Rightarrow> opening_slots n t | (Inl e, t) \<Rightarrow> True"
    by (simp add: open_context_def c Let_def split: sum.split)
qed

lemma quietly_queue:
  assumes "pending b = []" and "create_queue cd lib b = (r, c)"
  shows "quietly b c"
proof (cases "queue_entry lib")
  case None
  then show ?thesis using assms by (simp add: create_queue_def quietly_refl)
next
  case (Some f)
  obtain code h d where d: "create cd f K_Queue b = (code, h, d)" by (cases "create cd f K_Queue b") auto
  note q = quietly_create(1) [OF assms(1) d]
  show ?thesis using assms(2) Some d q quietly_trans [OF q quietly_release [OF quietly_pending [OF q]]]
    by (auto simp: create_queue_def split: if_splits)
qed

lemma opening_queue: "triple (opening_slots n) (open_queue cd lib) (\<lambda>_. opening_slots n) (\<lambda>_. True)"
  unfolding triple_def
proof (intro allI impI)
  fix b assume b: "opening_slots n b"
  have p: "pending b = []" using b by (simp add: opening_slots_def)
  have set: "opening_slots n (c\<lparr>oc_queue := q\<rparr>)" if "opening_slots n c" for c q
    using that slots_only [of "c\<lparr>oc_queue := q\<rparr>" c] by (simp add: opening_slots_def pending_def)
  obtain r c where c: "create_queue cd lib b = (r, c)" by (cases "create_queue cd lib b")
  note q = quietly_queue [OF p c]
  obtain r' d where d: "create_queue cd lib c = (r', d)" by (cases "create_queue cd lib c")
  note q' = quietly_queue [OF quietly_pending [OF q] d]
  show "case open_queue cd lib b of (Inr x, t) \<Rightarrow> opening_slots n t | (Inl e, t) \<Rightarrow> True"
    using set opening_quietly [OF b q] opening_quietly [OF opening_quietly [OF b q] q'] c d
    by (cases r; cases r') (simp_all add: open_queue_def)
qed

lemma opened_blank:
  assumes "OpenClBackend_new cd px dx w = (Inr b, w')" and "wd_pending w = []"
  shows "blank b"
proof -
  have run: "triple (opening_slots 0) (and_then (open_context cd) (\<lambda>_. and_then (open_queue cd lib) (\<lambda>_. open_slots cd)))
      (\<lambda>_. opening_slots (0 + length [0..<QUEUE_DEPTH])) (\<lambda>_. True)" for lib
    unfolding open_slots_def
    by (rule triple_and_then [OF opening_context], rule triple_and_then [OF opening_queue], rule open_slots_apart)
  obtain lib platform device where l: "cd_load cd = Inr lib" "list_get (platforms cd) px = Some platform"
      "list_get (devices_of cd platform CL_DEVICE_TYPE_GPU) dx = Some device"
    using assms(1) by (auto simp: OpenClBackend_new_def new_typed_def split: sum.splits option.splits)
  let ?me = "\<lparr>oc_context = 0, oc_queue = 0,
      oc_name = (case device_name cd device of Some name \<Rightarrow> name | None \<Rightarrow> device_label px dx),
      oc_slots = [], oc_queued = [], oc_next_slot = 0, oc_device = device, oc_bc3 = None, oc_world = w\<rparr>"
  have me: "opening_slots 0 ?me" using assms(2) by (simp add: opening_slots_def pending_def slots_apart_def slot_homes_def)
  obtain x c where x: "and_then (open_context cd) (\<lambda>_. and_then (open_queue cd lib) (\<lambda>_. open_slots cd)) ?me = (x, c)"
    by (cases "and_then (open_context cd) (\<lambda>_. and_then (open_queue cd lib) (\<lambda>_. open_slots cd)) ?me")
  have "\<exists>u. x = Inr u \<and> b = c"
    using assms(1) l x by (cases x) (simp_all add: OpenClBackend_new_def new_typed_def Let_def)
  then have "opening_slots QUEUE_DEPTH b" using tripleD [OF run me x] by auto
  then show ?thesis
    by (auto simp: opening_slots_def blank_def forgotten_def slots_fit_def cl_ring_inv QUEUE_DEPTH_def)
qed

subsection \<open>Preparing a window\<close>

text \<open>A program that has been compared with the CPU, with \<open>tables\<close> in its buffer.\<close>

definition cl_agrees_with_cpu :: "ClDriver \<Rightarrow> Bc3Program \<Rightarrow> u64 list \<Rightarrow> bool" where
  "cl_agrees_with_cpu cd k tables \<longleftrightarrow>
     (\<exists>random seed. length random = 14 \<and>
       (\<exists>c c' got. oc_bc3 c = Some k \<and> cl_bc3_batch cd c (map fst (cd_vectors cd) @ random) = (Inr got, c') \<and>
          (\<forall>j<min (length got) (length (cd_vectors cd) + 14).
             got ! j = (map snd (cd_vectors cd) @ map (cd_pow cd) random) ! j)) \<and>
       (\<forall>(h, s)\<in>set (draw_launches [0..<QUEUE_DEPTH + 1] seed).
          \<exists>ws. sort (buffer_hits (cl_hits cd k tables \<lparr>la_algo = Bc3Hash, la_header76 = h, la_start = s,
              la_count = TEST_COUNT, la_target = test_target\<rparr> ws)) = cpu_hits (cd_pow cd) h s))"

lemma length_drawn: "length (fst (draw_headers n seed)) = n"
  by (induction n arbitrary: seed) (simp_all add: Let_def split_def)

lemma cl_test_ends:
  assumes "finishes cd" and "once cd (ready k tables) c" and "oc_queued c = []"
  shows "\<exists>r b'. cl_self_test cd c = Some (r, b') \<and> once cd (ready k tables) b' \<and> oc_queued b' = []"
proof -
  let ?be = "cl_with cd (\<lambda>b w. (Inl '''', b))"
  have "be_in_flight ?be c = 0" using assms(3) by (simp add: cl_with_def)
  from cl_scanning.drawn_self_test_ends [OF _ this order_refl, of k tables "cd_pow cd" "cd_vectors cd" "cd_nanos cd (wd_calls (oc_world c))"] assms
  obtain r b' where "cl_self_test cd c = Some (r, b')" "finishes cd \<and> once cd (ready k tables) b'" "be_in_flight ?be b' = 0"
    unfolding cl_self_test_def by blast
  then show ?thesis by (simp add: cl_with_def)
qed

lemma cl_passed_agrees:
  assumes t: "cl_self_test cd c = Some (Inr (), b')" and "finishes cd" and "once cd (ready k tables) c" and "oc_queued c = []"
  shows "cl_agrees_with_cpu cd k tables"
proof -
  define r where "r = draw_headers 14 (self_test_seed (cd_nanos cd (wd_calls (oc_world c))))"
  have t: "self_test (cl_with cd (\<lambda>b w. (Inl '''', b))) (cl_bc3_batch cd) (cd_pow cd) QUEUE_DEPTH
      (map fst (cd_vectors cd) @ fst r) (map snd (cd_vectors cd) @ map (cd_pow cd) (fst r))
      (draw_launches [0..<QUEUE_DEPTH + 1] (snd r)) c = Some (Inr (), b')"
    using t by (simp add: cl_self_test_def drawn_self_test_def r_def split_def Let_def)
  have c: "finishes cd \<and> once cd (ready k tables) c" "scans cd c = []" using assms by (simp_all add: scans_def)
  from cl_scanning.self_test_passed [OF c t] obtain got c' where
    g: "cl_bc3_batch cd c (map fst (cd_vectors cd) @ fst r) = (Inr got, c')"
      "\<forall>j<min (length got) (length (map snd (cd_vectors cd) @ map (cd_pow cd) (fst r))).
         got ! j = (map snd (cd_vectors cd) @ map (cd_pow cd) (fst r)) ! j"
    and l: "\<forall>x\<in>set (draw_launches [0..<QUEUE_DEPTH + 1] (snd r)).
       \<exists>h. (\<exists>ws. h = cl_hits cd k tables \<lparr>la_algo = Bc3Hash, la_header76 = fst x, la_start = snd x, la_count = TEST_COUNT,
         la_target = test_target\<rparr> ws) \<and> sort (buffer_hits h) = cpu_hits (cd_pow cd) (fst x) (snd x)" by blast
  have "length (fst r) = 14" by (simp add: r_def length_drawn)
  moreover from this have "\<forall>j<min (length got) (length (cd_vectors cd) + 14).
      got ! j = (map snd (cd_vectors cd) @ map (cd_pow cd) (fst r)) ! j" using g(2) by simp
  moreover have "\<forall>x\<in>set (draw_launches [0..<QUEUE_DEPTH + 1] (snd r)). \<exists>ws. sort (buffer_hits (cl_hits cd k tables
      \<lparr>la_algo = Bc3Hash, la_header76 = fst x, la_start = snd x, la_count = TEST_COUNT, la_target = test_target\<rparr> ws)) =
      cpu_hits (cd_pow cd) (fst x) (snd x)" using l by blast
  moreover have "oc_bc3 c = Some k" using assms(3) by (simp add: once_def ready_def queue_ok_def)
  ultimately show ?thesis unfolding cl_agrees_with_cpu_def split_def using g(1) by blast
qed

lemma cl_prepared:
  assumes "finishes cd" and cache: "\<And>n. cache_sound (cd_gpu_tables cd) (cd_cache cd n)" and fit: "slots_fit b"
    and r: "cl_prepare cd b window = (r, c)"
  shows "case r of
      Inl e \<Rightarrow> unready c
    | Inr t \<Rightarrow> \<exists>k tables. bp_window k = window \<and> cd_gpu_tables cd window = Inr tables \<and> cl_agrees_with_cpu cd k tables \<and>
        once cd (ready k tables) c \<and> oc_queued c = []"
proof -
  have "blank (drop_bc3 cd (cl_abandon cd b))" by (rule forgotten_drop [OF abandon_forgotten [OF assms(1)] abandon_fit [OF fit]])
  moreover obtain x d where x: "build_bc3 cd window (drop_bc3 cd (cl_abandon cd b)) = (x, d)"
    by (cases "build_bc3 cd window (drop_bc3 cd (cl_abandon cd b))")
  ultimately have d: "blank d" "\<forall>k. x = Inr k \<longrightarrow> (\<exists>tables. cd_gpu_tables cd window = Inr tables \<and> progress tables window 4 (k, d))"
    using build_progress [OF cache _ x] by blast+
  show ?thesis
  proof (cases x)
    case (Inl e)
    then show ?thesis using r x blank_unready [OF d(1)] by (auto simp: cl_prepare_def Let_def)
  next
    case (Inr k)
    then obtain tables where tables: "cd_gpu_tables cd window = Inr tables" and p: "progress tables window 4 (k, d)" using d(2) by blast
    let ?d = "d\<lparr>oc_bc3 := Some k\<rparr>"
    note q = program_ready [OF p]
    have rd: "once cd (ready k tables) ?d" "oc_queued ?d = []" using forgotten_ready [OF q(1,2)] q(2) by (simp_all add: forgotten_def)
    obtain s e where s: "cl_self_test cd ?d = Some (s, e)" and e: "once cd (ready k tables) e" "oc_queued e = []"
      using cl_test_ends [OF assms(1) rd] by blast
    show ?thesis
    proof (cases s)
      case (Inl err)
      have "slots_fit e" using e(1) slots_fit_settled [of cd e] queue_ok_fit [of k tables] by (simp add: once_def ready_def)
      then have "unready (drop_bc3 cd e)" by (rule drop_unready [OF _ e(2)])
      then show ?thesis using r x Inr s Inl by (auto simp: cl_prepare_def Let_def)
    next
      case test: (Inr u)
      then have "cl_agrees_with_cpu cd k tables" using cl_passed_agrees [OF _ assms(1) rd] s by simp
      then show ?thesis using r x Inr s test e q(3) tables by (auto simp: cl_prepare_def Let_def)
    qed
  qed
qed

subsection \<open>Whatever is asked of a card\<close>

text \<open>
  What is asked of a card, in any order. For every scan collected the program, its tables and the launch it
  was queued for; \<open>pend\<close> are those of the launches in flight. Whoever is told of an error gives the
  launches in flight up, as the GPU worker and the self-test do.
\<close>

datatype cl_op = Cl_enqueue Launch | Cl_collect | Cl_abandon | Cl_prepare u32

fun cl_run :: "ClDriver \<Rightarrow> cl_op list \<Rightarrow> OpenClBackend \<Rightarrow> (Bc3Program \<times> Launch) list \<Rightarrow> ((Bc3Program \<times> Launch) \<times> Scan) list" where
  "cl_run cd [] b pend = []"
| "cl_run cd (Cl_enqueue l # ops) b pend =
     (case cl_enqueue cd b l of
        (Inl _, b') \<Rightarrow> cl_run cd ops (cl_abandon cd b') []
      | (Inr _, b') \<Rightarrow> cl_run cd ops b' (pend @ [(the (oc_bc3 b), l)]))"
| "cl_run cd (Cl_collect # ops) b pend =
     (case cl_collect cd b of
        (Inl _, b') \<Rightarrow> cl_run cd ops (cl_abandon cd b') []
      | (Inr scan, b') \<Rightarrow> (hd pend, scan) # cl_run cd ops b' (tl pend))"
| "cl_run cd (Cl_abandon # ops) b pend = cl_run cd ops (cl_abandon cd b) []"
| "cl_run cd (Cl_prepare window # ops) b pend = cl_run cd ops (snd (cl_prepare cd b window)) []"

text \<open>A program of a window that has been compared with the CPU over the window's tables.\<close>

definition tested :: "ClDriver \<Rightarrow> Bc3Program \<Rightarrow> u64 list \<Rightarrow> bool" where
  "tested cd k tables \<longleftrightarrow> cd_gpu_tables cd (bp_window k) = Inr tables \<and> cl_agrees_with_cpu cd k tables"

definition working :: "ClDriver \<Rightarrow> OpenClBackend \<Rightarrow> (Bc3Program \<times> Launch) list \<Rightarrow> bool" where
  "working cd b pend \<longleftrightarrow> unready b \<and> pend = [] \<or>
     (\<exists>k tables. tested cd k tables \<and> once cd (ready k tables) b \<and>
       list_all2 (\<lambda>(k', l) h. k' = k \<and> (\<exists>ws. h = cl_hits cd k tables l ws)) pend (scans cd b))"

lemma abandon_unready: "unready b \<Longrightarrow> unready (cl_abandon cd b)"
proof -
  assume b: "unready b"
  have "once cd (\<lambda>s. oc_bc3 s = None \<and> oc_queued s = []) (cl_abandon cd b)"
    by (rule abandon_once [OF lasting_unready]) (use b in \<open>simp_all add: settled_unready unready_def\<close>)
  then show ?thesis using abandon_fit b by (simp add: settled_unready unready_def)
qed

lemma working_again: "tested cd k tables \<Longrightarrow> finishes cd \<Longrightarrow> once cd (queue_ok k tables) b \<Longrightarrow> working cd (cl_abandon cd b) []"
  using abandon_ready [of cd k tables b] by (auto simp: working_def)

lemma unready_enqueue: "unready b \<Longrightarrow> cl_enqueue cd b l = (r, c) \<Longrightarrow> (\<exists>e. r = Inl e) \<and> unready c"
proof -
  assume b: "unready b" and r: "cl_enqueue cd b l = (r, c)"
  show ?thesis
  proof (cases "la_count l = 0 \<or> QUEUE_DEPTH \<le> length (oc_queued b)")
    case True
    then show ?thesis using b r by (auto simp: cl_enqueue_def split: if_splits)
  next
    case False
    obtain e where e: "queue_launch cd (oc_next_slot b) l b = (Inl e, b)"
      using b by (cases "la_algo l") (simp_all add: unready_def queue_launch_def and_then_def bc3_inputs_def ok_or_def)
    have "once cd slots_fit (release_events cd (oc_next_slot b) b)"
      by (rule once_release_events [OF lasting_slots_fit]) (use b in \<open>simp add: slots_fit_settled unready_def\<close>)
    then have "slots_fit (cl_slot (oc_next_slot b) sl_forget (release_events cd (oc_next_slot b) b))"
      using slots_fit_cl_slot [of sl_forget] by (simp add: slots_fit_settled sl_forget_def)
    moreover have "once cd (\<lambda>s. oc_bc3 s = None \<and> oc_queued s = []) (release_events cd (oc_next_slot b) b)"
      by (rule once_release_events [OF lasting_unready]) (use b in \<open>simp add: settled_unready unready_def\<close>)
    moreover have "r = Inl e \<and> c = cl_slot (oc_next_slot b) sl_forget (release_events cd (oc_next_slot b) b)"
      using r False e by (auto simp: cl_enqueue_def Let_def)
    ultimately show ?thesis by (simp add: unready_def settled_unready)
  qed
qed

lemma working_fit: "working cd b pend \<Longrightarrow> slots_fit b"
  using slots_fit_settled [of cd b] queue_ok_fit by (auto simp: working_def unready_def once_def ready_def)

lemma working_abandon: "finishes cd \<Longrightarrow> working cd b pend \<Longrightarrow> working cd (cl_abandon cd b) []"
proof -
  assume f: "finishes cd" and "working cd b pend"
  then consider "unready b" | k tables where "tested cd k tables" "once cd (ready k tables) b" by (auto simp: working_def)
  then show ?thesis
  proof cases
    case 1
    then show ?thesis by (simp add: working_def abandon_unready)
  next
    case 2
    then show ?thesis using working_again [OF 2(1) f, of b] by (simp add: once_def ready_def)
  qed
qed

lemma working_prepare:
  assumes "finishes cd" and "\<And>n. cache_sound (cd_gpu_tables cd) (cd_cache cd n)" and "working cd b pend"
  shows "working cd (snd (cl_prepare cd b window)) []"
proof -
  obtain r c where r: "cl_prepare cd b window = (r, c)" by (cases "cl_prepare cd b window")
  from cl_prepared [OF assms(1,2) working_fit [OF assms(3)] r] show ?thesis
    using r by (cases r) (auto simp: working_def tested_def scans_def)
qed

lemma working_enqueue:
  assumes "finishes cd" and "working cd b pend" and r: "cl_enqueue cd b l = (r, c)"
  shows "case r of Inl e \<Rightarrow> working cd (cl_abandon cd c) [] | Inr _ \<Rightarrow> working cd c (pend @ [(the (oc_bc3 b), l)])"
  using assms(2) unfolding working_def [of cd b]
proof (elim disjE exE conjE)
  assume "unready b"
  then have "(\<exists>e. r = Inl e) \<and> unready c" by (rule unready_enqueue [OF _ r])
  then show ?thesis using abandon_unready by (auto simp: working_def)
next
  fix k tables assume k: "tested cd k tables" "once cd (ready k tables) b"
    "list_all2 (\<lambda>(k', l) h. k' = k \<and> (\<exists>ws. h = cl_hits cd k tables l ws)) pend (scans cd b)"
  note e = enqueue_once [OF k(2) r]
  show ?thesis
  proof (cases r)
    case (Inl x)
    then show ?thesis using working_again [OF k(1) assms(1)] e by simp
  next
    case (Inr u)
    then obtain ws where c: "once cd (ready k tables) c" "scans cd c = scans cd b @ [cl_hits cd k tables l ws]" using e by auto
    have "oc_bc3 b = Some k" using k(2) by (simp add: once_def ready_def queue_ok_def)
    then have "list_all2 (\<lambda>(k', l) h. k' = k \<and> (\<exists>ws. h = cl_hits cd k tables l ws)) (pend @ [(the (oc_bc3 b), l)]) (scans cd c)"
      unfolding c(2) by (intro list_all2_appendI k(3)) auto
    then show ?thesis using Inr k(1) c(1) by (auto simp: working_def)
  qed
qed

lemma working_collect:
  assumes "finishes cd" and "working cd b pend" and r: "cl_collect cd b = (r, c)"
  shows "case r of Inl e \<Rightarrow> working cd (cl_abandon cd c) []
    | Inr scan \<Rightarrow> working cd c (tl pend) \<and>
        (\<exists>k l tables ws busy. hd pend = (k, l) \<and> tested cd k tables \<and> scan = scan_of (cl_hits cd k tables l ws) busy)"
  using assms(2) unfolding working_def [of cd b]
proof (elim disjE exE conjE)
  assume "unready b"
  then have "r = Inl ''no launch in flight'' \<and> c = b" using r by (simp add: cl_collect_def unready_def)
  then show ?thesis using abandon_unready \<open>unready b\<close> by (simp add: working_def)
next
  fix k tables assume k: "tested cd k tables" "once cd (ready k tables) b"
    "list_all2 (\<lambda>(k', l) h. k' = k \<and> (\<exists>ws. h = cl_hits cd k tables l ws)) pend (scans cd b)"
  note e = collect_once [OF k(2) r]
  show ?thesis
  proof (cases r)
    case (Inl x)
    then show ?thesis using working_again [OF k(1) assms(1)] e by simp
  next
    case (Inr scan)
    then obtain h busy where c: "once cd (ready k tables) c" "scans cd b = h # scans cd c" "scan = scan_of h busy" using e by auto
    then obtain l ps ws where "pend = (k, l) # ps" "h = cl_hits cd k tables l ws"
      "list_all2 (\<lambda>(k', l) h. k' = k \<and> (\<exists>ws. h = cl_hits cd k tables l ws)) ps (scans cd c)"
      using k(3) by (auto simp: list_all2_Cons2)
    then show ?thesis using Inr k(1) c(1,3) by (auto simp: working_def)
  qed
qed

lemma cl_run_scans:
  assumes "finishes cd" and "\<And>n. cache_sound (cd_gpu_tables cd) (cd_cache cd n)" and "working cd b pend"
  shows "\<forall>((k, l), scan)\<in>set (cl_run cd ops b pend). \<exists>tables ws busy. tested cd k tables \<and> scan = scan_of (cl_hits cd k tables l ws) busy"
  using assms(3)
proof (induction ops arbitrary: b pend)
  case (Cons op ops)
  show ?case
  proof (cases op)
    case (Cl_enqueue l)
    obtain r c where r: "cl_enqueue cd b l = (r, c)" by (cases "cl_enqueue cd b l")
    from working_enqueue [OF assms(1) Cons.prems r] show ?thesis using Cons.IH r by (cases r) (simp_all add: Cl_enqueue)
  next
    case Cl_collect
    obtain r c where r: "cl_collect cd b = (r, c)" by (cases "cl_collect cd b")
    note w = working_collect [OF assms(1) Cons.prems r]
    show ?thesis
    proof (cases r)
      case (Inl e)
      then show ?thesis using w Cons.IH [of "cl_abandon cd c" "[]"] r by (simp add: Cl_collect)
    next
      case (Inr scan)
      then obtain k l tables ws busy where h: "hd pend = (k, l)" "tested cd k tables" "scan = scan_of (cl_hits cd k tables l ws) busy"
        and c: "working cd c (tl pend)" using w by auto
      from h(2,3) have "\<exists>tables ws busy. tested cd k tables \<and> scan = scan_of (cl_hits cd k tables l ws) busy" by blast
      then show ?thesis using Cons.IH [OF c] r h(1) Inr by (simp add: Cl_collect)
    qed
  next
    case Cl_abandon
    then show ?thesis using Cons.IH [OF working_abandon [OF assms(1) Cons.prems]] by simp
  next
    case (Cl_prepare window)
    then show ?thesis using Cons.IH [OF working_prepare [OF assms(1,2) Cons.prems]] by simp
  qed
qed simp

end
