(* ===== verification/Opencl_Use.thy ===== *)
theory Opencl_Use
  imports Opencl_Card
begin

text \<open>
  What use of an OpenCL card comes to: its scans belong to their launches, its programs are tested, and a
  card that works passes the test.
\<close>

section \<open>Lemmas\<close>

subsection \<open>A runtime that does what it is asked\<close>

definition no_cl_faults :: "ClDriver \<Rightarrow> bool" where
  "no_cl_faults cd \<longleftrightarrow> (\<forall>n. \<not> cd_null cd n) \<and> (\<forall>f n. cd_code cd f n = CL_SUCCESS)"

lemma no_cl_faults_finishes: "no_cl_faults cd \<Longrightarrow> finishes cd"
  by (simp add: no_cl_faults_def finishes_def)

lemma no_cl_faults_hands_out: "no_cl_faults cd \<Longrightarrow> hands_out cd"
  by (simp add: no_cl_faults_def hands_out_def)

lemma create_works: "no_cl_faults cd \<Longrightarrow> \<exists>h c. create cd f kind b = (CL_SUCCESS, Suc h, c)"
  by (auto simp: no_cl_faults_def create_def split: prod.split)

text \<open>An operation that never fails.\<close>

definition works :: "('s, 'a) op \<Rightarrow> bool" where
  "works m \<longleftrightarrow> (\<forall>s. \<exists>x t. m s = (Inr x, t))"

lemma worksD: "works m \<Longrightarrow> \<exists>x t. m s = (Inr x, t)"
  by (simp add: works_def)

lemma works_and_then: "works m \<Longrightarrow> (\<And>x. works (f x)) \<Longrightarrow> works (and_then m f)"
  unfolding works_def and_then_def by (metis (no_types, lifting) case_prod_conv sum.case(2))

lemma works_simple: "works (change g)" "works (give x)" "works (ok_or (Some y) e)"
  by (simp_all add: works_def change_def give_def ok_or_def)

lemma works_call: "no_cl_faults cd \<Longrightarrow> works (cl_call cd f what good)"
  by (simp add: works_def no_cl_faults_def cl_call_def check_def split: prod.split)

lemma works_set_args:
  assumes "no_cl_faults cd"
  shows "works (set_args cd p args)"
proof -
  have "\<exists>t. cl_call cd f what good s = (Inr (), t)" for f what good s using works_call [OF assms] by (auto simp: works_def)
  then have "\<exists>t. set_args cd p args s = (Inr (), t)" for s unfolding set_args_def by (intro for_each_total) (auto split: prod.split)
  then show ?thesis by (auto simp: works_def)
qed

lemma triple_works: "triple P m Q E \<Longrightarrow> works m \<Longrightarrow> triple P m Q (\<lambda>_. False)"
  unfolding triple_def works_def by (metis (no_types, lifting) case_prod_conv sum.case(2))

lemma works_puts:
  assumes "no_cl_faults cd"
  shows "works (put_header cd i h)" "works (put_target cd i limbs)"
proof -
  have w: "works (and_then (change f) (\<lambda>_. and_then (write_async cd what c) (\<lambda>_. change g)))" for f what c g
    unfolding write_async_def by (intro works_and_then works_simple works_call assms)
  show "works (put_header cd i h)" "works (put_target cd i limbs)"
    unfolding works_def put_header_def put_target_def using worksD [OF w] by simp_all
qed

lemma enqueue_works:
  assumes cd: "no_cl_faults cd" and "oc_bc3 b = Some k" and "la_algo l = Bc3Hash" and "la_count l \<noteq> 0"
    and "length (oc_queued b) < QUEUE_DEPTH"
  shows "\<exists>b'. cl_enqueue cd b l = (Inr (), b')"
proof -
  let ?i = "oc_next_slot b"
  have "works (and_then (ok_or (Some k) ''BC3Hash program not built'') (\<lambda>k.
     and_then (put_header cd ?i (la_header76 l)) (\<lambda>_. and_then (put_target cd ?i (target_limbs (la_target l))) (\<lambda>_. give (x k)))))"
    for x :: "Bc3Program \<Rightarrow> handle \<times> nat \<times> Arg list"
    by (intro works_and_then works_simple works_puts [OF cd])
  then have i: "\<exists>x t. bc3_inputs cd ?i l b = (Inr x, t)"
    unfolding bc3_inputs_def assms(2) by (rule worksD)
  have "works (case x of (k, local, args) \<Rightarrow>
     and_then (change (cl_slot ?i (host (\<lambda>x. x\<lparr>ch_zero := 0\<rparr>)))) (\<lambda>_.
     and_then (write_async cd ''hit count'' (Write_count (sl_hits (oc_slots b ! ?i)) ?i)) (\<lambda>_.
     and_then (set_args cd k args) (\<lambda>_.
     and_then (queue_run cd ?i k (la_count l) local) (\<lambda>_.
     and_then (queue_read cd ?i) (\<lambda>_.
     cl_call cd Flush ''clFlush'' (\<lambda>_. id)))))))" for x
    by (cases x) (simp only: prod.case write_async_def queue_run_def cl_launch_def queue_read_def,
      intro works_and_then works_simple works_call [OF cd] works_set_args [OF cd])
  then have "\<exists>x t. queue_launch cd ?i l b = (Inr x, t)"
    using i worksD unfolding queue_launch_def assms(3) PowAlgo.case and_then_def [of "bc3_inputs cd ?i l"] by fastforce
  then show ?thesis using assms(4,5) by (auto simp: cl_enqueue_def Let_def)
qed

lemma collect_works:
  assumes "no_cl_faults cd" and "oc_queued b \<noteq> []"
  shows "\<exists>scan b'. cl_collect cd b = (Inr scan, b')"
proof -
  obtain i rest where q: "oc_queued b = i # rest" using assms(2) by (cases "oc_queued b") auto
  obtain w c where w: "wait_read cd i (b\<lparr>oc_queued := rest\<rparr>) = (w, c)" by (cases "wait_read cd i (b\<lparr>oc_queued := rest\<rparr>)")
  have "w = CL_SUCCESS" using w assms(1) by (auto simp: wait_read_def Let_def no_cl_faults_def split: prod.splits)
  then show ?thesis by (simp add: cl_collect_def q w check_def Let_def split: prod.split)
qed

subsection \<open>The card as a queue\<close>

text \<open>The counted part of a hit buffer, and a kernel that leaves nothing of older hits in it.\<close>

definition counted_hits :: "u32 list \<Rightarrow> u32 list" where
  "counted_hits h = take (1 + min (unat (h ! 0)) MAX_HITS) h"

lemma scan_of_counted_hits [simp]: "scan_of (counted_hits h) busy = scan_of h busy"
  by (simp add: scan_of_def counted_hits_def Let_def drop_take)

definition overwrites_hits :: "ClDriver \<Rightarrow> bool" where
  "overwrites_hits cd \<longleftrightarrow> (\<forall>k tables l ws ws'. counted_hits (cl_hits cd k tables l ws) = counted_hits (cl_hits cd k tables l ws'))"

definition cl_kern :: "ClDriver \<Rightarrow> Bc3Program \<Rightarrow> u64 list \<Rightarrow> Launch \<Rightarrow> u32 list" where
  "cl_kern cd k tables l = counted_hits (cl_hits cd k tables l [])"

lemma cl_card_is_fifo:
  assumes cd: "no_cl_faults cd" and "overwrites_hits cd"
  shows "fifo_backend (cl_with cd prepare) (once cd (ready k tables)) (\<lambda>b. map counted_hits (scans cd b))
    (cl_kern cd k tables) (\<lambda>algo. algo = Bc3Hash)"
proof
  fix b and l :: Launch assume b: "once cd (ready k tables) b" and l: "la_algo l = Bc3Hash" "la_count l \<noteq> 0"
    and len: "length (map counted_hits (scans cd b)) < QUEUE_DEPTH"
  have "oc_bc3 b = Some k" "length (oc_queued b) < QUEUE_DEPTH"
    using b len by (simp_all add: once_def ready_def queue_ok_def length_scans)
  from enqueue_works [OF cd this(1) l this(2)] obtain c where c: "cl_enqueue cd b l = (Inr (), c)" by blast
  have kern: "counted_hits (cl_hits cd k tables l ws) = cl_kern cd k tables l" for ws
    using assms(2) unfolding overwrites_hits_def cl_kern_def by blast
  show "\<exists>b'. be_enqueue (cl_with cd prepare) b l = (Inr (), b') \<and> once cd (ready k tables) b' \<and>
      map counted_hits (scans cd b') = map counted_hits (scans cd b) @ [cl_kern cd k tables l]"
    using enqueue_once [OF b c] c kern by (auto simp: cl_with_def)
next
  fix b h t assume b: "once cd (ready k tables) b" and w: "map counted_hits (scans cd b) = h # t"
  have "oc_queued b \<noteq> []" using arg_cong [OF w, of length] by (auto simp: length_scans)
  from collect_works [OF cd this] obtain scan c where c: "cl_collect cd b = (Inr scan, c)" by blast
  from collect_once [OF b c] obtain g busy where g: "once cd (ready k tables) c" "scans cd b = g # scans cd c" "scan = scan_of g busy" by auto
  then have "h = counted_hits g" "t = map counted_hits (scans cd c)" using w by simp_all
  then show "\<exists>b' busy. be_collect (cl_with cd prepare) b = (Inr (scan_of h busy), b') \<and> once cd (ready k tables) b' \<and>
      map counted_hits (scans cd b') = t"
    using c g by (auto simp: cl_with_def)
next
  fix b show "be_in_flight (cl_with cd prepare) b = length (map counted_hits (scans cd b))"
    by (simp add: cl_with_def length_scans)
qed

subsection \<open>What the batch returns\<close>

text \<open>Nothing pending, the tables in place, the output of the batch not among its inputs.\<close>

definition idle :: "Bc3Program \<Rightarrow> u64 list \<Rightarrow> OpenClBackend \<Rightarrow> bool" where
  "idle k tables s \<longleftrightarrow> pending s = [] \<and> mem s (bp_tables k) = Limbs tables \<and> bp_tables k \<le> wd_calls (oc_world s) \<and>
     wd_args (oc_world s) (bp_batch k) 6 = None"

lemma restless_idle: "restless (idle k tables)"
  by (simp add: restless_def idle_def)

lemma once_idle: "once cd (\<lambda>s. idle k tables s \<and> Q s) b = (idle k tables b \<and> Q b)"
proof (cases "pending b = []")
  case False
  then show ?thesis by (simp add: once_def idle_def)
qed (simp add: once_def)

lemma set_mem_world:
  "wd_args (oc_world (set_mem h x s)) = wd_args (oc_world s)" "wd_calls (oc_world (set_mem h x s)) = wd_calls (oc_world s)"
  by (simp_all add: set_mem_def)

lemma buffer_works:
  assumes cd: "no_cl_faults cd" and b: "idle k tables b"
  shows "\<exists>h c. create_buffer cd what b = (Inr h, c) \<and> idle k tables c \<and> wd_calls (oc_world b) < h \<and> h \<le> wd_calls (oc_world c)"
proof -
  have p: "pending b = []" using b by (simp add: idle_def)
  obtain n d where e: "enter cd b = (n, d)" by (cases "enter cd b")
  note q = quietly_enter [OF p e]
  have d: "idle k tables d" using b q by (simp add: idle_def quietly_def)
  let ?c = "set_mem (Suc n) (cd_fresh cd (Suc n)) (made K_Mem (Suc n) d)"
  have "create_buffer cd what b = (Inr (Suc n), ?c)" using cd e by (simp add: create_buffer_def create_def no_cl_faults_def check_def)
  moreover have "pending ?c = []" "wd_calls (oc_world ?c) = Suc n" "mem ?c (bp_tables k) = Limbs tables" "wd_args (oc_world ?c) (bp_batch k) 6 = None"
    using d q b by (simp_all add: idle_def made_def mem_set_mem mem_def pending_def set_mem_def world_def)
  ultimately show ?thesis using d q b by (intro exI [of _ "Suc n"] exI [of _ ?c]) (simp add: idle_def)
qed

lemma batch_body_works:
  assumes cd: "no_cl_faults cd" and "i \<noteq> bp_tables k" "out \<noteq> bp_tables k" "out \<noteq> i"
  shows "triple (idle k tables) (and_then (write_blocking cd ''headers'' i (Bytes x)) (\<lambda>_.
      and_then (set_args cd (bp_batch k) [Mem (bp_tables k), Mem i, U32 cnt, Mem out]) (\<lambda>_.
      and_then (cl_launch cd (bp_batch k) cnt loc (\<lambda>_. id)) (\<lambda>_.
      and_then (cl_call cd EnqueueReadBuffer ''read digests'' (\<lambda>_. run_all cd)) (\<lambda>_.
      and_then (\<lambda>b. (Inr (as_bytes (mem b out)), b)) (\<lambda>bytes.
      and_then (cl_call cd Finish ''clFinish'' (\<lambda>_. run_all cd)) (\<lambda>_. give (g bytes))))))))
    (\<lambda>r _. r = g (cd_batch cd (bp_batch k) (launch_size cnt loc) tables x cnt)) (\<lambda>_. False)"
proof -
  let ?P = "\<lambda>s. idle k tables s \<and> True"
  let ?Q = "\<lambda>s. idle k tables s \<and> mem s i = Bytes x"
  let ?args = "[Mem (bp_tables k), Mem i, U32 cnt, Mem out]"
  let ?A = "\<lambda>s. ?Q s \<and> (\<forall>j<length ?args. wd_args (oc_world s) (bp_batch k) j = Some (?args ! j))"
  let ?X = "cd_batch cd (bp_batch k) (launch_size cnt loc) tables x cnt"
  let ?R = "\<lambda>s. mem s out = Bytes ?X"
  have 1: "triple (once cd ?P) (write_blocking cd ''headers'' i (Bytes x)) (\<lambda>_. once cd ?Q) (\<lambda>_. False)"
    unfolding write_blocking_def
  proof (rule triple_works [OF once_call works_call [OF cd]])
    show "restless ?P" using restless_idle by simp
    show "once cd ?Q (set_mem i (Bytes x) (run_all cd b))" if "once cd ?P b" for b
    proof -
      have b: "idle k tables b" using that by (simp only: once_idle)
      then have "quietly b (run_all cd b) \<and> mem (run_all cd b) = mem b" by (intro quietly_run_all) (simp add: idle_def)
      then have "idle k tables (set_mem i (Bytes x) (run_all cd b))"
        using b assms(2) set_mem_world [of i "Bytes x" "run_all cd b"] by (auto simp: idle_def quietly_def mem_set_mem)
      then show ?thesis by (simp add: once_idle mem_set_mem)
    qed
  qed
  have rQ: "restless ?Q" by (rule restless_conj [OF restless_idle]) (simp add: restless_def)
  have 2: "triple (once cd ?Q) (set_args cd (bp_batch k) ?args) (\<lambda>_. once cd ?A) (\<lambda>_. False)"
  proof (rule triple_works [OF set_args_once [where E = "\<lambda>_. True"]])
    show "restless ?Q" by (rule rQ)
    show "works (set_args cd (bp_batch k) ?args)" by (rule works_set_args [OF cd])
  qed (auto simp: idle_def pending_def mem_world keeps_mem_def)
  have 3: "triple (once cd ?A) (cl_launch cd (bp_batch k) cnt loc (\<lambda>_. id)) (\<lambda>_. once cd ?R) (\<lambda>_. False)"
    unfolding cl_launch_def
  proof (rule triple_works [OF once_call [where E = "\<lambda>_. True"] works_call [OF cd]])
    show "restless ?A" using rQ by (simp add: restless_def)
    fix b assume b: "once cd ?A b"
    then have s: "settled cd b = b" using once_idle [of cd k tables "\<lambda>s. True" b] by (simp add: once_def idle_def)
    let ?w = "wd_args (oc_world b) (bp_batch k)"
    let ?c = "Run_kernel (bp_batch k) ?w (launch_size cnt loc)"
    have m: "?w 6 = None" "mem b (bp_tables k) = Limbs tables" "mem b i = Bytes x" and a: "\<forall>j<length ?args. ?w j = Some (?args ! j)"
      using b by (simp_all add: once_def s idle_def)
    have w: "?w 0 = Some (Mem (bp_tables k))" "?w 1 = Some (Mem i)" "?w 2 = Some (U32 cnt)" "?w 3 = Some (Mem out)"
      using a [rule_format, of 0] a [rule_format, of 1] a [rule_format, of 2] a [rule_format, of 3] by simp_all
    have "mem (queue_cmd ?c (exec cd ?c b)) out = Bytes ?X"
      using w m by (simp add: mem_arg_def u32_arg_def queue_cmd_def mem_world keeps_mem_def mem_set_mem)
    then show "once cd ?R (id (queue_cmd ?c b))" by (simp add: once_def settled_queue_cmd s)
  qed simp
  let ?F = "\<lambda>s. pending s = [] \<and> ?R s"
  have 4: "triple (once cd ?R) (cl_call cd EnqueueReadBuffer ''read digests'' (\<lambda>_. run_all cd)) (\<lambda>_. once cd ?F) (\<lambda>_. False)"
  proof (rule triple_works [OF once_call [where E = "\<lambda>_. True"] works_call [OF cd]])
    show r: "restless ?R" by (simp add: restless_def)
    fix b assume "once cd ?R b"
    then show "once cd ?F (run_all cd b)" using once_run_all [OF r] by (simp add: once_def run_all_def)
  qed simp
  have 5: "triple (once cd ?F) (\<lambda>b. (Inr (as_bytes (mem b out)), b)) (\<lambda>bytes s. bytes = ?X) (\<lambda>_. False)"
    by (auto simp: triple_def once_def)
  have 6: "triple (\<lambda>s. bytes = ?X) (and_then (cl_call cd Finish ''clFinish'' (\<lambda>_. run_all cd)) (\<lambda>_. give (g bytes))) (\<lambda>r _. r = g ?X) (\<lambda>_. False)" for bytes
  proof -
    have "works (and_then (cl_call cd Finish ''clFinish'' (\<lambda>_. run_all cd)) (\<lambda>_. give (g bytes)))"
      by (intro works_and_then works_call [OF cd] works_simple)
    moreover have "triple (\<lambda>s. bytes = ?X) (and_then (cl_call cd Finish ''clFinish'' (\<lambda>_. run_all cd)) (\<lambda>_. give (g bytes))) (\<lambda>r _. r = g ?X) (\<lambda>_. True)"
      by (auto simp: triple_def and_then_def give_def split: prod.split sum.split)
    ultimately show ?thesis using triple_works by blast
  qed
  have "triple (once cd ?P) (and_then (write_blocking cd ''headers'' i (Bytes x)) (\<lambda>_.
      and_then (set_args cd (bp_batch k) ?args) (\<lambda>_.
      and_then (cl_launch cd (bp_batch k) cnt loc (\<lambda>_. id)) (\<lambda>_.
      and_then (cl_call cd EnqueueReadBuffer ''read digests'' (\<lambda>_. run_all cd)) (\<lambda>_.
      and_then (\<lambda>b. (Inr (as_bytes (mem b out)), b)) (\<lambda>bytes.
      and_then (cl_call cd Finish ''clFinish'' (\<lambda>_. run_all cd)) (\<lambda>_. give (g bytes))))))))
    (\<lambda>r _. r = g ?X) (\<lambda>_. False)"
    by (rule triple_and_then [OF 1], rule triple_and_then [OF 2], rule triple_and_then [OF 3], rule triple_and_then [OF 4],
        rule triple_and_then [OF 5], rule 6)
  moreover have "once cd (idle k tables) = idle k tables"
    using once_idle [of cd k tables "\<lambda>s. True"] by (intro ext) (simp only: simp_thms)
  ultimately show ?thesis by (simp only: simp_thms)
qed

lemma batch_works:
  assumes cd: "no_cl_faults cd" and b: "idle k tables b" and k: "oc_bc3 b = Some k"
  shows "\<exists>c. cl_bc3_batch cd b headers =
    (Inr (map (\<lambda>j. take 32 (drop (32 * j) (cd_batch cd (bp_batch k) (launch_size (word_of_nat (length headers)) (bp_local k)) tables
       (concat headers) (word_of_nat (length headers))))) [0..<length headers]), c)"
proof -
  let ?n = "word_of_nat (length headers) :: u32"
  let ?g = "\<lambda>out. map (\<lambda>j. take 32 (drop (32 * j) out)) [0..<length headers]"
  obtain i c where c: "create_buffer cd ''headers'' b = (Inr i, c)" "idle k tables c" "wd_calls (oc_world b) < i" "i \<le> wd_calls (oc_world c)"
    using buffer_works [OF cd b] by blast
  obtain out d where d: "create_buffer cd ''digests'' c = (Inr out, d)" "idle k tables d" "wd_calls (oc_world c) < out"
    using buffer_works [OF cd c(2)] by blast
  have "bp_tables k \<le> wd_calls (oc_world b)" using b by (simp add: idle_def)
  then have "i \<noteq> bp_tables k" "out \<noteq> bp_tables k" "out \<noteq> i" using c(3,4) d(3) by simp_all
  note run = batch_body_works [OF cd this, of tables "concat headers" ?n "bp_local k" ?g]
  define M where "M = and_then (write_blocking cd ''headers'' i (Bytes (concat headers))) (\<lambda>_.
      and_then (set_args cd (bp_batch k) [Mem (bp_tables k), Mem i, U32 ?n, Mem out]) (\<lambda>_.
      and_then (cl_launch cd (bp_batch k) ?n (bp_local k) (\<lambda>_. id)) (\<lambda>_.
      and_then (cl_call cd EnqueueReadBuffer ''read digests'' (\<lambda>_. run_all cd)) (\<lambda>_.
      and_then (\<lambda>b. (Inr (as_bytes (mem b out)), b)) (\<lambda>bytes.
      and_then (cl_call cd Finish ''clFinish'' (\<lambda>_. run_all cd)) (\<lambda>_. give (?g bytes)))))))"
  obtain r e where m: "M d = (r, e)" by (cases "M d")
  have "r = Inr (?g (cd_batch cd (bp_batch k) (launch_size ?n (bp_local k)) tables (concat headers) ?n))"
    using tripleD [OF run [folded M_def] d(2) m] by (cases r) (simp_all only: sum.case)
  then have "\<exists>e. with_temp cd ''headers'' (\<lambda>d_in. with_temp cd ''digests'' (\<lambda>d_out.
            and_then (write_blocking cd ''headers'' d_in (Bytes (concat headers))) (\<lambda>_.
            and_then (set_args cd (bp_batch k) [Mem (bp_tables k), Mem d_in, U32 ?n, Mem d_out]) (\<lambda>_.
            and_then (cl_launch cd (bp_batch k) ?n (bp_local k) (\<lambda>_. id)) (\<lambda>_.
            and_then (cl_call cd EnqueueReadBuffer ''read digests'' (\<lambda>_. run_all cd)) (\<lambda>_.
            and_then (\<lambda>b. (Inr (as_bytes (mem b d_out)), b)) (\<lambda>out.
            and_then (cl_call cd Finish ''clFinish'' (\<lambda>_. run_all cd)) (\<lambda>_. give (?g out)))))))))  b =
      (Inr (?g (cd_batch cd (bp_batch k) (launch_size ?n (bp_local k)) tables (concat headers) ?n)), e)"
    unfolding with_temp_def c(1) prod.case sum.case d(1) M_def [symmetric] m by simp
  then show ?thesis
    unfolding cl_bc3_batch_def k ok_or_def option.case and_then_give Let_def .
qed

subsection \<open>A card that computes what the CPU does\<close>

text \<open>
  The kernels compute what the CPU does: the digests of a batch of 80-byte headers, the hits of a test
  launch, whatever was in the hit buffer. The vectors are ones the CPU agrees with.
\<close>

definition computes_right :: "ClDriver \<Rightarrow> u64 list \<Rightarrow> bool" where
  "computes_right cd tables \<longleftrightarrow> overwrites_hits cd \<and>
     (\<forall>p dims hs. (\<forall>h\<in>set hs. length h = 80) \<longrightarrow> length hs < 2 ^ 32 \<longrightarrow>
        (\<forall>j<length hs. take 32 (drop (32 * j) (cd_batch cd p dims tables (concat hs) (word_of_nat (length hs)))) = cd_pow cd (hs ! j))) \<and>
     (\<forall>k h s. sort (buffer_hits (cl_hits cd k tables \<lparr>la_algo = Bc3Hash, la_header76 = h, la_start = s,
        la_count = TEST_COUNT, la_target = test_target\<rparr> [])) = cpu_hits (cd_pow cd) h s) \<and>
     (\<forall>(h, d)\<in>set (cd_vectors cd). length h = 80 \<and> d = cd_pow cd h) \<and> length (cd_vectors cd) + 14 < 2 ^ 32"

lemma drawn_headers_80: "h \<in> set (fst (draw_headers n seed)) \<Longrightarrow> length h = 80"
  by (induction n arbitrary: seed) (auto simp: Let_def split_def length_draw_header)

lemma buffer_counted: "buffer_hits (counted_hits h) = buffer_hits h"
  by (simp add: buffer_hits_def counted_hits_def Let_def drop_take)

lemma right_card_passes:
  assumes cd: "no_cl_faults cd" and right: "computes_right cd tables" and c: "idle k tables c" "once cd (ready k tables) c" "oc_queued c = []"
  shows "\<exists>b'. cl_self_test cd c = Some (Inr (), b')"
proof -
  define r where "r = draw_headers 14 (self_test_seed (cd_nanos cd (wd_calls (oc_world c))))"
  let ?be = "cl_with cd (\<lambda>b w. (Inl '''', b))"
  let ?hs = "map fst (cd_vectors cd) @ fst r" and ?ds = "map snd (cd_vectors cd) @ map (cd_pow cd) (fst r)"
  let ?ls = "draw_launches [0..<QUEUE_DEPTH + 1] (snd r)"
  have ow: "overwrites_hits cd" using right by (simp add: computes_right_def)
  have h80: "\<forall>h\<in>set ?hs. length h = 80"
    using right drawn_headers_80 [of _ 14 "self_test_seed (cd_nanos cd (wd_calls (oc_world c)))"]
    by (auto simp: computes_right_def r_def)
  have ds: "?ds = map (cd_pow cd) ?hs" using right by (auto simp: computes_right_def split_def)
  have digests: "map (\<lambda>j. take 32 (drop (32 * j) (cd_batch cd p dims tables (concat hs) (word_of_nat (length hs))))) [0..<length hs] = map (cd_pow cd) hs"
    if "\<forall>h\<in>set hs. length h = 80" "length hs < 2 ^ 32" for p dims hs
  proof (rule nth_equalityI)
    fix j assume "j < length (map (\<lambda>j. take 32 (drop (32 * j) (cd_batch cd p dims tables (concat hs) (word_of_nat (length hs))))) [0..<length hs])"
    then have j: "j < length hs" by (simp only: length_map length_upt minus_nat.diff_0)
    have "\<forall>j<length hs. take 32 (drop (32 * j) (cd_batch cd p dims tables (concat hs) (word_of_nat (length hs)))) = cd_pow cd (hs ! j)"
      using right that unfolding computes_right_def by blast
    then show "map (\<lambda>j. take 32 (drop (32 * j) (cd_batch cd p dims tables (concat hs) (word_of_nat (length hs))))) [0..<length hs] ! j =
        map (cd_pow cd) hs ! j" using j by simp
  qed simp
  have k: "oc_bc3 c = Some k" using c(2) by (simp add: once_def ready_def queue_ok_def)
  obtain c' where "cl_bc3_batch cd c ?hs =
    (Inr (map (\<lambda>j. take 32 (drop (32 * j) (cd_batch cd (bp_batch k) (launch_size (word_of_nat (length ?hs)) (bp_local k)) tables
       (concat ?hs) (word_of_nat (length ?hs))))) [0..<length ?hs]), c')" using batch_works [OF cd c(1) k, of ?hs] by blast
  moreover have "map (\<lambda>j. take 32 (drop (32 * j) (cd_batch cd (bp_batch k) (launch_size (word_of_nat (length ?hs)) (bp_local k)) tables
       (concat ?hs) (word_of_nat (length ?hs))))) [0..<length ?hs] = ?ds"
    unfolding ds
  proof (rule digests)
    show "\<forall>h\<in>set ?hs. length h = 80" by (rule h80)
    show "length ?hs < 2 ^ 32" using right by (simp add: computes_right_def r_def length_drawn)
  qed
  ultimately have b: "cl_bc3_batch cd c ?hs = (Inr ?ds, c')" by simp
  have c': "once cd (ready k tables) c'" "oc_queued c' = []" using batch_waits [OF c(2), of ?hs] b c(3) by simp_all
  then have s: "length (map counted_hits (scans cd c')) < QUEUE_DEPTH" "scans cd c' = []" by (simp_all add: scans_def QUEUE_DEPTH_def)
  note fifo = cl_card_is_fifo [OF cd ow, of "\<lambda>b w. (Inl '''', b)" k tables]
  have t0: "TEST_COUNT \<noteq> 0" by (simp add: TEST_COUNT_def)
  have hits: "sort (buffer_hits (cl_kern cd k tables \<lparr>la_algo = Bc3Hash, la_header76 = h, la_start = s, la_count = TEST_COUNT,
      la_target = test_target\<rparr>)) = cpu_hits (cd_pow cd) h s" for h s
    using right by (simp add: computes_right_def cl_kern_def buffer_counted)
  from fifo_backend.queue_scans_all [OF fifo t0 order_refl refl c'(1) s(1), of test_target ?ls "[]"] s(2) obtain d where
    q: "queue_scans ?be QUEUE_DEPTH TEST_COUNT test_target ?ls c' [] = Some (Inr (map (\<lambda>(h, s). cpu_hits (cd_pow cd) h s) ?ls), d)"
    by (auto simp: hits split_def comp_def)
  have "launch_differs (cd_pow cd) 0 ?ls (map (\<lambda>(h, s). cpu_hits (cd_pow cd) h s) ?ls) = None"
    by (simp add: launch_differs_None split_def)
  moreover have "zip_differs 0 ?ds ?ds = None" by (simp add: zip_differs_None)
  ultimately show ?thesis
    using b q by (simp add: cl_self_test_def drawn_self_test_def self_test_def queued_scans_def split_def Let_def flip: r_def)
qed

lemma buffer_always: "no_cl_faults cd \<Longrightarrow> \<exists>h c. create_buffer cd what b = (Inr h, c)"
  by (rule create_buffer_handed_out [OF no_cl_faults_hands_out])

lemma build_works:
  assumes cd: "no_cl_faults cd" and cache: "\<And>n. cache_sound (cd_gpu_tables cd) (cd_cache cd n)"
    and w: "2 \<le> window" "window \<le> 20" and t: "cd_gpu_tables cd window = Inr tables"
  shows "\<exists>k c. build_bc3 cd window b = (Inr k, c)"
proof -
  have program: "works (make_program cd)" "works (compile_program cd window)" "works (ask_local cd)"
    using cd by (auto simp: works_def make_program_def compile_program_def ask_local_def Let_def create_def no_cl_faults_def split: prod.split)
  have kernels: "works (make_kernel cd name put)" for name put
    using cd by (auto simp: works_def make_kernel_def Let_def create_def no_cl_faults_def split: prod.split)
  have buffer: "works (make_tables cd)"
    unfolding works_def make_tables_def using buffer_always [OF cd] by (auto split: prod.split sum.split) (metis Pair_inject sum.distinct(1))
  have fill: "works (fill_tables cd x)" for x
    using works_call [OF cd] by (auto simp: works_def fill_tables_def on_backend_def write_blocking_def split: prod.split) (metis Pair_inject)
  have host: "works (\<lambda>s :: Bc3Program \<times> OpenClBackend. (fst (host_tables (cd_gpu_tables cd) (cd_cache cd (wd_calls (oc_world (snd s)))) window), s))"
    using host_tables_right [OF cache] t by (simp add: works_def)
  have "works (and_then (make_program cd) (\<lambda>_. and_then (compile_program cd window) (\<lambda>_.
       and_then (make_kernel cd ''bc3hash_scan'' (\<lambda>h k. k\<lparr>bp_scan := h\<rparr>)) (\<lambda>_.
       and_then (make_kernel cd ''bc3hash_batch'' (\<lambda>h k. k\<lparr>bp_batch := h\<rparr>)) (\<lambda>_.
       and_then (ask_local cd) (\<lambda>_.
       and_then (\<lambda>s. (fst (host_tables (cd_gpu_tables cd) (cd_cache cd (wd_calls (oc_world (snd s)))) window), s)) (\<lambda>tables.
       and_then (make_tables cd) (\<lambda>_. fill_tables cd tables))))))))" (is "works ?m")
    by (intro works_and_then program kernels buffer fill host)
  from worksD [OF this, of "(\<lparr>bp_window = window, bp_program = 0, bp_scan = 0, bp_batch = 0, bp_tables = 0, bp_local = LOCAL_SIZE\<rparr>, b)"]
  obtain x k c where "?m (\<lparr>bp_window = window, bp_program = 0, bp_scan = 0, bp_batch = 0, bp_tables = 0, bp_local = LOCAL_SIZE\<rparr>, b) = (Inr x, k, c)"
    by (metis surj_pair)
  then show ?thesis using w by (simp add: build_bc3_def owning_def)
qed

lemma right_card_prepares:
  assumes cd: "no_cl_faults cd" and cache: "\<And>n. cache_sound (cd_gpu_tables cd) (cd_cache cd n)"
    and w: "2 \<le> window" "window \<le> 20" and t: "cd_gpu_tables cd window = Inr tables" "computes_right cd tables" and fit: "slots_fit b"
  shows "\<exists>t c. cl_prepare cd b window = (Inr t, c)"
proof -
  have "blank (drop_bc3 cd (cl_abandon cd b))"
    by (rule forgotten_drop [OF abandon_forgotten [OF no_cl_faults_finishes [OF cd]] abandon_fit [OF fit]])
  moreover obtain k d where d: "build_bc3 cd window (drop_bc3 cd (cl_abandon cd b)) = (Inr k, d)"
    using build_works [OF cd cache w t(1)] by blast
  ultimately have p: "progress tables window 4 (k, d)" using build_progress [OF cache _ d] t(1) by auto
  let ?d = "d\<lparr>oc_bc3 := Some k\<rparr>"
  note q = program_ready [OF p]
  have "pending ?d = []" using q(2) by (simp add: forgotten_def)
  then have "idle k tables ?d" using q(1) by (simp add: idle_def queue_ok_def homes_def)
  moreover have "once cd (ready k tables) ?d" "oc_queued ?d = []" using forgotten_ready [OF q(1,2)] q(2) by (simp_all add: forgotten_def)
  ultimately obtain e where "cl_self_test cd ?d = Some (Inr (), e)" using right_card_passes [OF cd t(2)] by blast
  then show ?thesis using d by (simp add: cl_prepare_def Let_def)
qed

section \<open>Properties\<close>


text \<open>A runtime that never fails, though it runs only every third command at once; its kernels find nothing, as the CPU does.\<close>

definition demo_right :: ClDriver where
  "demo_right = demo_cl\<lparr>cd_code := \<lambda>_ _. 0, cd_scan := \<lambda>_ _ _ _ _ _ _ _ _. [0],
     cd_batch := \<lambda>_ _ _ _ n. replicate (32 * unat n) 0xff, cd_pow := \<lambda>_. replicate 32 0xff\<rparr>"

lemma demo_right_fields:
  "no_cl_faults demo_right" "cache_sound (cd_gpu_tables demo_right) (cd_cache demo_right n)" "cd_gpu_tables demo_right window = Inr []"
  "cl_hits demo_right k tables l ws = [0]"
  by (simp_all add: demo_right_def demo_cl_def no_cl_faults_def CL_SUCCESS_def cache_sound_def cl_hits_def)

lemma demo_right_computes: "computes_right demo_right []"
  unfolding computes_right_def
proof (intro conjI allI impI)
  show "overwrites_hits demo_right" by (simp add: overwrites_hits_def demo_right_fields)
  show "take 32 (drop (32 * j) (cd_batch demo_right p dims [] (concat hs) (word_of_nat (length hs)))) = cd_pow demo_right (hs ! j)"
    if "length hs < 2 ^ 32" "j < length hs" for p dims hs j
  proof -
    have "unat (word_of_nat (length hs) :: u32) = length hs" using that(1) by (simp add: unsigned_of_nat take_bit_eq_mod)
    then show ?thesis using that(2) by (simp add: demo_right_def demo_cl_def)
  qed
  have no: "hash_meets_target (replicate 32 0xff) test_target = False" by code_simp
  show "sort (buffer_hits (cl_hits demo_right k [] \<lparr>la_algo = Bc3Hash, la_header76 = h, la_start = s,
        la_count = TEST_COUNT, la_target = test_target\<rparr> [])) = cpu_hits (cd_pow demo_right) h s" for k h s
    unfolding demo_right_fields by (simp add: buffer_hits_def cpu_hits_def demo_right_def no)
qed (simp_all add: demo_right_def demo_cl_def)

lemma demo_right_opens: "\<exists>b w. OpenClBackend_new demo_right 0 0 demo_world = (Inr b, w)"
proof (rule opened_handed_out [where f = CreateCommandQueue and platform = 7 and device = 9 and
      lib = "\<lparr>cl_create_command_queue = True, cl_create_command_queue_with_properties = False\<rparr>"])
  show "hands_out demo_right" by (rule no_cl_faults_hands_out [OF demo_right_fields(1)])
qed (simp_all add: demo_right_def demo_cl_def queue_entry_def platforms_def devices_of_def ids_of_def CL_SUCCESS_def copy_at_def list_get_def)

lemma demo_right_prepares:
  "blank b \<Longrightarrow> \<exists>t c k. cl_prepare demo_right b 16 = (Inr t, c) \<and> oc_bc3 c = Some k \<and> bp_window k = 16 \<and> oc_queued c = []"
proof -
  assume "blank b"
  then have fit: "slots_fit b" by (simp add: blank_def)
  obtain t c where p: "cl_prepare demo_right b 16 = (Inr t, c)"
    using right_card_prepares [OF demo_right_fields(1,2) _ _ demo_right_fields(3) demo_right_computes fit, of 16] by auto
  from cl_prepared [OF no_cl_faults_finishes [OF demo_right_fields(1)] demo_right_fields(2) fit p]
  obtain k tables where "bp_window k = 16" "once demo_right (ready k tables) c" "oc_queued c = []" by auto
  then show ?thesis using p by (auto simp: once_def ready_def queue_ok_def)
qed






end
