(* ===== verification/Spec2Isabelle.thy ===== *)
theory Spec2Isabelle
  imports Bc3_Crate Wasm_Malloc Reporter Gpu_Worker Startup Solve Web Cuda Opencl_Use
begin

text \<open>
  A verification of the BC3 miner (\<open>src/\<close>): a Stratum client that mines BC3Hash on GPUs and
  CPU threads.

  The program. One thread talks to the pool (\<open>stratum.rs\<close>): it turns the pool's messages into
  jobs, publishes them in the shared state (\<open>shared.rs\<close>) and sends the shares the workers queue.
  CPU threads (\<open>worker.rs\<close>) and one worker per card (\<open>gpu_worker.rs\<close>) wait for a job on a condition
  variable, split its extranonce2 space by worker number and stride, hash it, and queue what meets
  the share target (\<open>consensus.rs\<close>). A card is driven through a backend (\<open>backend/\<close>) that keeps
  launches in flight; its tables are tuned while it mines (\<open>tuning.rs\<close>). A card that gets stuck
  loses its claim on the proof of work, so that the CPU takes over.

  The theories, with the code they model:

  \<^item> \<open>Prelude\<close>, \<open>F64\<close>, \<open>Text\<close>: Rust's saturating, checked and wrapping arithmetic on words, byte
    strings, durations; binary64 as exact rationals with rounding to nearest even; formatting and
    \<open>from_str_radix\<close>.
  \<^item> \<open>Bc3_Crate\<close>: \<open>bc3hash/src/lib.rs\<close>, the crate around the node's hash; the C interface is the record
    \<open>Bc3Core\<close>, what is asked of the crate a list of calls, and the threads that build the GPU tables take
    turns in any order. \<open>Wasm_Malloc\<close>: \<open>bc3hash/src/wasm_malloc.rs\<close>, the allocator of the browser build on a linear
    memory, over the allocator of Rust.
  \<^item> \<open>Consensus\<close>: \<open>consensus.rs\<close>, function by function, and \<open>target_limbs\<close> of \<open>backend/bc3.rs\<close>.
  \<^item> \<open>Reporting\<close>: the events of \<open>ipc.rs\<close>, the formatters and share rate of \<open>stats.rs\<close>, the
    temperature cache of \<open>telemetry.rs\<close>. \<open>Reporter\<close>: the loop of \<open>stats.rs\<close>, a turn at a time, each over the counters as it
    finds them, and the readers of \<open>telemetry.rs\<close>.
  \<^item> \<open>Shared_State\<close>: \<open>shared.rs\<close>; the state is the record \<open>Shared\<close>, every method a function on it,
    and the job lock with its condition variable the step relation \<open>wait_step\<close>.
  \<^item> \<open>Worker\<close>: \<open>worker.rs\<close>; \<open>mine_job\<close> takes what the other threads do between two batches as an
    argument. The locale \<open>search_partition\<close> states what the split of the extranonce2 space rests on.
  \<^item> \<open>Tuning\<close>: \<open>tuning.rs\<close>; the tuner is a state machine driven by launches and switches.
  \<^item> \<open>Backends\<close>: \<open>backend/mod.rs\<close> and the self-test of \<open>backend/bc3.rs\<close>. A backend is a record of operations; the
    locale \<open>fifo_backend\<close> is the contract of its queue, interpreted on an abstract ring of launches, to which the slots
    of both backends are abstracted, and shown of the CUDA and OpenCL backends themselves where no call fails.
  \<^item> \<open>Device\<close>: operations on a backend that may end with an error, what the self-test draws, and the
    locales \<open>self_testable\<close> and \<open>scanning_device\<close>: what a device must promise for the self-test to end
    and for a pass to mean something when any call may fail.
  \<^item> \<open>Cuda\<close>: \<open>backend/cuda.rs\<close>, all of it: opening a card, choosing machine code or PTX, building and
    checking the tables on the card, the slots with their skipped copies, the self-test, compiling
    ahead. The driver is the record \<open>CudaDriver\<close>: which of its calls fail, what a failed copy leaves,
    what the kernels compute. A card whose driver never fails satisfies \<open>fifo_backend\<close>.
  \<^item> \<open>Cl_Sys\<close>: \<open>backend/cl_sys.rs\<close>, the library looked for at run time, its entry points and its strings.
  \<^item> \<open>Opencl\<close>: \<open>backend/opencl.rs\<close>, all of it, and the cache of the host's tables in \<open>backend/bc3.rs\<close>.
    The runtime is the record \<open>ClDriver\<close>. Commands run in order but late, at any later call, and the
    copies read and write the host memory of their slot only then; the world keeps the handles handed
    out and not yet released. \<open>Opencl_Handles\<close>: who owns them, through every failure.
    \<open>Opencl_Queue\<close> and \<open>Opencl_Scans\<close>: the backend as it will be once everything queued has run
    (\<open>settled\<close>), the invariants that speak of it, and the card as an instance of \<open>scanning_device\<close>.
    \<open>Opencl_Card\<close>: a card from its opening on, its program and its self-test. \<open>Opencl_Use\<close>: what use of a
    card comes to, and a card whose calls never fail as an instance of \<open>fifo_backend\<close>.
  \<^item> \<open>Gpu_Worker\<close>: \<open>gpu_worker.rs\<close>, the whole worker over any backend: the launch loop (\<open>top_up\<close>,
    \<open>pump\<close>, \<open>device_error\<close>, \<open>finish\<close>), autotune, preparing and switching the kernel, reopening a
    lost device.
  \<^item> \<open>Stratum\<close>: \<open>stratum.rs\<close>; JSON values are a datatype, the socket is the list of what its reads
    return and which writes fail, and \<open>session\<close> and \<open>run_client\<close> run over them. The locale
    \<open>session_invariant\<close> carries an invariant through every turn of a session; it is interpreted for
    the jobs a session publishes and for the ids of its submits.
  \<^item> \<open>Startup\<close>: \<open>main.rs\<close>; \<open>main_start\<close> gives the lines printed and the \<open>Rig\<close> started - the shared
    state, the workers with their numbers and stride, the threads beside them - or the exit code;
    \<open>watchdog_turn\<close> and the stall guard are a turn of their loops.
  \<^item> \<open>Solve\<close>: \<open>solve.rs\<close>; \<open>Template_parse\<close> reads a template and builds the coinbase around the
    extranonce, \<open>solve_loop\<close> checks what the workers send until a block is found.
  \<^item> \<open>Web\<close>: \<open>wasm/src/lib.rs\<close>, the search the pool's page runs, on a memory of bytes.

  What the theorems show. The hash: no digest from a build that fails the node's vectors, and tables that
  do not depend on how threads interleave. Consensus: the byte-level arithmetic of targets, difficulties
  and headers against numbers. Shared state: no wakeup is lost in any interleaving, the claims and their
  counters agree and the stall check hands over exactly when it should, the best share and the
  submit queue. Workers: what a CPU thread or a card hashes tiles its own part of the search space,
  nothing skipped or twice, the search ends, shares are exactly the nonces that meet the target, the
  GPU path gives what the CPU path gives, a card and a thread never hash the same coinbase
  (below), and a card that keeps getting lost is reopened a bounded number of times in a row. Tuner: it ends and keeps only what measured a gain. Backends: results come back in order,
  the self-test passes exactly the kernels that agree with the CPU, devices are listed once and
  fallbacks do not collide. CUDA: whatever fails, a scan given back is what a tested kernel makes of
  its own launch, the tables are the host's and wrong ones are refused; without faults the worker
  mines every launch on it (below). OpenCL: the binding has every function that is called, and every
  handle is released once, whatever fails; however late the device runs what is queued, a scan is what a
  tested program makes of its own launch, a card that computes right passes its test, and the worker
  mines every launch on it (below). A job of the pool makes launches of the types the kernels take
  (below). Stratum: lines survive every way of cutting up the stream, jobs are well
  formed whatever the pool sends, shares go out in order with ids of their own, answers are counted
  once, reconnects back off. Reporter: its rates are what the whole history of reports gives. The browser build's
  allocator: blocks are sound and keep their contents. Start-up: the workers started split the search space between them, and a
  rig with nothing left to mine ends. Solve: a template's height round-trips, a solved block is one
  the network accepts. The page's search stops at the first hit and the page's check accepts it.

  Fuel and bounds. \<open>mine_job\<close> of a CPU thread takes fuel for its batches and returns with one more
  than the nonces left; the launch loop of a card takes fuel for its turns and returns with more than
  seven per nonce left and six. Both are theorems. They, the tiling and the claim that no coinbase is hashed twice ask for an extranonce2 of
  less than 8 bytes: with 8 or more the 64-bit counter never stops fitting and the search has no end to reach. What a
  card makes of a launch and the types of launches are shown for every length.
  Loops over a list (messages, turns, reads) recurse over it.

  Arguments of the model. SHA-256, BC3Hash, the \<open>hex\<close> and \<open>serde_json\<close> crates, the clock, the file
  system of the tuning, the drivers behind a backend, and what other threads do in between. Threads
  interleave at the points named above; memory orderings are those of a sequentially consistent
  memory. Output is a list of lines.

  Not modelled: the parsing of arguments (\<open>clap\<close>), the tools
  \<open>bench.rs\<close> and \<open>internal.rs\<close>, crash handlers, build scripts, the GUI, and the vendored hash.
\<close>

section \<open>Properties of the workers together\<close>

text \<open>
  C10. A CUDA card none of whose driver calls fails, with a kernel loaded, mines a job
  to its end through the whole path: every launch the worker finished was given the scan its own
  header, range and target make on that kernel, the device never counts as lost, the worker ends a
  job as exhausted only when no further extranonce2 fits, and it leaves nothing in flight and the
  kernel in place. What is taken of the card: no driver call fails, and the hits a launch leaves do not depend
  on those an older launch left in its slot; of the worker: a kernel is loaded and nothing is in flight yet. The job may have an
  extranonce2 of any length.
\<close>

theorem cuda_card_mines_its_launches:
  assumes "gpu_mine_job ge fuel job gen Bc3Hash verify g = Some (ended, g')" and "ge_be ge = cuda_backend cu"
    and "no_faults cu" and "forgets_older_hits cu" and "g_finished g = []"
    and "cuda_ok (g_b g)" and "cb_queued (g_b g) = []" and "cb_bc3 (g_b g) = Some k"
  shows "ended \<noteq> DeviceGone \<and>
    (ended = Exhausted \<longrightarrow> \<not> en2_fits (fst (gw_cursor (g_w g'))) (job_extranonce2_size job)) \<and>
    (\<forall>(l, scan)\<in>set (g_finished g'). \<exists>busy. scan = scan_of (card_kern cu k \<lparr>la_algo = Bc3Hash, la_header76 = take 76 (serialize (if_header l)),
       la_start = if_start l, la_count = if_count l, la_target = job_share_target job\<rparr>) busy) \<and>
    cuda_ok (g_b g') \<and> cb_queued (g_b g') = [] \<and> cb_bc3 (g_b g') = Some k"
proof -
  have be: "ge_be ge = cuda_with cu (cuda_prepare cu)" using assms(2) by (simp add: cuda_backend_def)
  have ready: "cuda_ok (g_b g) \<and> cb_bc3 (g_b g) = Some k" "map counted (waiting (g_b g)) = []"
    using assms(6-8) by simp_all
  note m = fifo_backend.gpu_mine_job_fifo [OF card_is_fifo [OF assms(3,4)] assms(1) be assms(5) refl ready]
  then have "length (waiting (g_b g')) = 0" by simp
  then have "cb_queued (g_b g') = []" by (simp add: length_waiting)
  with m show ?thesis by blast
qed

definition demo_cuda_env :: "(CudaBackend, choices) GpuEnv" where
  "demo_cuda_env = \<lparr>ge_env = demo_env, ge_crates = demo_crates, ge_be = cuda_backend demo_cuda,
     ge_clock = \<lambda>t. t, ge_interfere = \<lambda>_ s. s, ge_jit_empty = \<lambda>_. False, ge_version = [], ge_driver = None, ge_file = None,
     ge_tmp = [], ge_parse = Some, ge_print = \<lambda>m. m, ge_fs_fail = \<lambda>_. None, ge_partial = None\<rparr>"

definition demo_cuda_gpu :: "(CudaBackend, choices) Gpu" where
  "demo_cuda_gpu = \<lparr>g_w = GpuWorker_new demo_shared 0 1 4, g_b = demo_rtx, g_s = demo_shared, g_fs = Map.empty,
     g_tick = 0, g_finished = []\<rparr>"

lemma demo_cuda_gpu_fields:
  "gw_stride (g_w demo_cuda_gpu) = word_of_nat 4" "g_finished demo_cuda_gpu = []" "gw_prev (g_w demo_cuda_gpu) = None"
  "gw_worker_index (g_w demo_cuda_gpu) = 1" "job_extranonce2_size demo_job < 8" "g_b demo_cuda_gpu = demo_rtx"
  "ge_be demo_cuda_env = cuda_backend demo_cuda" "forgets_older_hits demo_cuda"
  by (simp_all add: demo_cuda_gpu_def demo_cuda_env_def GpuWorker_new_def demo_job_def demo_cuda_def
      forgets_older_hits_def kernel_hits_def)

theorem cuda_card_mines_its_launches_witness:
  "\<exists>ended g'. gpu_mine_job demo_cuda_env (Suc (7 * nonces_left demo_job 1 0 + 6)) demo_job 0 Bc3Hash (\<lambda>_. replicate 32 0) demo_cuda_gpu =
     Some (ended, g') \<and> ended \<noteq> DeviceGone \<and> cb_queued (g_b g') = [] \<and> cb_bc3 (g_b g') = Some demo_kernel"
proof -
  have "\<exists>r. gpu_mine_job demo_cuda_env (Suc (7 * nonces_left demo_job 1 0 + 6)) demo_job 0 Bc3Hash (\<lambda>_. replicate 32 0) demo_cuda_gpu = Some r"
    by (rule gpu_mine_job_returns [where N = 4, OF _ _ _ _ _ refl]) (simp_all add: demo_cuda_gpu_fields start_on_def)
  then obtain ended g' where
    r: "gpu_mine_job demo_cuda_env (Suc (7 * nonces_left demo_job 1 0 + 6)) demo_job 0 Bc3Hash (\<lambda>_. replicate 32 0) demo_cuda_gpu = Some (ended, g')"
    by (metis surj_pair)
  have ok: "cuda_ok (g_b demo_cuda_gpu)" "cb_queued (g_b demo_cuda_gpu) = []" "cb_bc3 (g_b demo_cuda_gpu) = Some demo_kernel"
    using demo_rtx_ok by (simp_all add: demo_cuda_gpu_fields)
  from cuda_card_mines_its_launches [OF r demo_cuda_gpu_fields(7) demo_cuda_fields(1) demo_cuda_gpu_fields(8,2) ok] r show ?thesis by blast
qed

text \<open>
  C12. The same worker on an OpenCL card: with a program in place, no failing call and kernels that
  overwrite the hits of older launches, every launch it finished was given the scan its own header, range and
  target make on that program over its tables - though the card copied, ran and read each of them at
  some later call, with other launches queued behind it - the device never counts as lost, and the worker
  leaves nothing in flight. The program may be any one in place with its tables on the card (\<open>ready\<close>: what preparing
  leaves), with nothing in flight, and the job may have an extranonce2 of any length.
\<close>

theorem opencl_card_mines_its_launches:
  assumes "gpu_mine_job ge fuel job gen Bc3Hash verify g = Some (ended, g')" and "ge_be ge = opencl_backend cd"
    and "no_cl_faults cd" and "overwrites_hits cd" and "g_finished g = []"
    and "once cd (ready k tables) (g_b g)" and "oc_queued (g_b g) = []"
  shows "ended \<noteq> DeviceGone \<and>
    (ended = Exhausted \<longrightarrow> \<not> en2_fits (fst (gw_cursor (g_w g'))) (job_extranonce2_size job)) \<and>
    (\<forall>(l, scan)\<in>set (g_finished g'). \<exists>busy. scan = scan_of (cl_kern cd k tables \<lparr>la_algo = Bc3Hash, la_header76 = take 76 (serialize (if_header l)),
       la_start = if_start l, la_count = if_count l, la_target = job_share_target job\<rparr>) busy) \<and>
    oc_bc3 (g_b g') = Some k \<and> oc_queued (g_b g') = []"
proof -
  have be: "ge_be ge = cl_with cd (cl_prepare cd)" using assms(2) by (simp add: opencl_backend_def)
  have none: "map counted_hits (scans cd (g_b g)) = []" using assms(7) by (simp add: scans_def)
  note m = fifo_backend.gpu_mine_job_fifo [OF cl_card_is_fifo [OF assms(3,4)] assms(1) be assms(5) refl assms(6) none]
  then have "length (scans cd (g_b g')) = 0" by simp
  then have "oc_queued (g_b g') = []" by (simp add: length_scans)
  moreover have "oc_bc3 (g_b g') = Some k" using m by (simp add: once_def ready_def queue_ok_def)
  ultimately show ?thesis using m by blast
qed

definition demo_cl_env :: "(OpenClBackend, choices) GpuEnv" where
  "demo_cl_env = \<lparr>ge_env = demo_env, ge_crates = demo_crates, ge_be = opencl_backend demo_right,
     ge_clock = \<lambda>t. t, ge_interfere = \<lambda>_ s. s, ge_jit_empty = \<lambda>_. False, ge_version = [], ge_driver = None, ge_file = None,
     ge_tmp = [], ge_parse = Some, ge_print = \<lambda>m. m, ge_fs_fail = \<lambda>_. None, ge_partial = None\<rparr>"

definition demo_cl_gpu :: "OpenClBackend \<Rightarrow> (OpenClBackend, choices) Gpu" where
  "demo_cl_gpu b = \<lparr>g_w = GpuWorker_new demo_shared 0 1 4, g_b = b, g_s = demo_shared, g_fs = Map.empty,
     g_tick = 0, g_finished = []\<rparr>"

lemma demo_cl_gpu_fields:
  "gw_stride (g_w (demo_cl_gpu b)) = word_of_nat 4" "g_finished (demo_cl_gpu b) = []" "gw_prev (g_w (demo_cl_gpu b)) = None"
  "gw_worker_index (g_w (demo_cl_gpu b)) = 1" "job_extranonce2_size demo_job < 8" "g_b (demo_cl_gpu b) = b"
  "ge_be demo_cl_env = opencl_backend demo_right" "overwrites_hits demo_right"
  by (simp_all add: demo_cl_gpu_def demo_cl_env_def GpuWorker_new_def demo_job_def overwrites_hits_def demo_right_fields)

theorem opencl_card_mines_its_launches_witness:
  "\<exists>b w t c ended g'. OpenClBackend_new demo_right 0 0 demo_world = (Inr b, w) \<and> cl_prepare demo_right b 16 = (Inr t, c) \<and>
     gpu_mine_job demo_cl_env (Suc (7 * nonces_left demo_job 1 0 + 6)) demo_job 0 Bc3Hash (\<lambda>_. replicate 32 0) (demo_cl_gpu c) =
     Some (ended, g') \<and> ended \<noteq> DeviceGone \<and> oc_queued (g_b g') = []"
proof -
  obtain b w where o: "OpenClBackend_new demo_right 0 0 demo_world = (Inr b, w)" using demo_right_opens by blast
  have "blank b" by (rule opened_blank [OF o]) (simp add: demo_world_def)
  then have fit: "slots_fit b" by (simp add: blank_def)
  obtain t c where p: "cl_prepare demo_right b 16 = (Inr t, c)"
    using right_card_prepares [OF demo_right_fields(1,2) _ _ demo_right_fields(3) demo_right_computes fit, of 16] by auto
  from cl_prepared [OF no_cl_faults_finishes [OF demo_right_fields(1)] demo_right_fields(2) fit p]
  obtain k tables where k: "once demo_right (ready k tables) c" "oc_queued c = []" by auto
  have "\<exists>r. gpu_mine_job demo_cl_env (Suc (7 * nonces_left demo_job 1 0 + 6)) demo_job 0 Bc3Hash (\<lambda>_. replicate 32 0) (demo_cl_gpu c) = Some r"
    by (rule gpu_mine_job_returns [where N = 4, OF _ _ _ _ _ refl]) (simp_all add: demo_cl_gpu_fields start_on_def)
  then obtain ended g' where
    r: "gpu_mine_job demo_cl_env (Suc (7 * nonces_left demo_job 1 0 + 6)) demo_job 0 Bc3Hash (\<lambda>_. replicate 32 0) (demo_cl_gpu c) = Some (ended, g')"
    by (metis surj_pair)
  have ok: "once demo_right (ready k tables) (g_b (demo_cl_gpu c))" "oc_queued (g_b (demo_cl_gpu c)) = []"
    using k by (simp_all add: demo_cl_gpu_fields)
  from opencl_card_mines_its_launches [OF r demo_cl_gpu_fields(7) demo_right_fields(1) demo_cl_gpu_fields(8,2) ok] r o p show ?thesis by blast
qed

text \<open>
  C15. From the socket to the kernel: for a job the pool's messages, whatever they were, have put in the
  shared state, every launch a card finishes has the types the kernel's arguments have - a header of 76
  bytes, a target of 32 that makes four limbs, at least one nonce and none past \<open>u32::MAX\<close> - and the
  extranonce2 kept for its shares has the length the pool asked for, any the pool may ask for. SHA-256 is only taken to
  give 32 bytes, and other threads to leave the job alone.
\<close>

definition launch_typed :: "Launch \<Rightarrow> bool" where
  "launch_typed l \<longleftrightarrow> length (la_header76 l) = 76 \<and> length (la_target l) = 32 \<and> length (target_limbs (la_target l)) = 4 \<and>
     la_count l \<noteq> 0 \<and> unat (la_start l) + unat (la_count l) \<le> 2 ^ 32"

theorem pool_jobs_make_typed_launches:
  assumes "sh_job s = None" and "\<forall>a\<in>set attempts. others_keep_jobs a" and "sh_job (snd (run_client cx attempts s)) = Some job"
    and "gpu_mine_job ge fuel job gen algo verify g = Some (ended, g')" and "\<And>x. length (cr_sha256 (ge_crates ge) x) = 32"
    and "g_finished g = []"
  shows "\<forall>(l, scan)\<in>set (g_finished g').
    launch_typed \<lparr>la_algo = algo, la_header76 = take 76 (serialize (if_header l)), la_start = if_start l, la_count = if_count l,
      la_target = job_share_target job\<rparr> \<and> length (if_extranonce2 l) = job_extranonce2_size job"
proof -
  obtain ws s' where r: "run_client_loop cx attempts Backoff_new s = (ws, s')" by fastforce
  have "job_slot_ok undefined s" using assms(1) by (simp add: job_slot_ok_def)
  from run_client_jobs [OF r this assms(2)] r assms(3) have wf: "job_wf job" by (simp add: run_client_def job_slot_ok_def)
  note ok = gpu_mine_job_launches [OF assms(4,6)]
  show ?thesis
  proof (intro ballI, clarify)
    fix l scan assume l: "(l, scan) \<in> set (g_finished g')"
    then have lo: "launch_ok (ge_crates ge) job l" and c: "if_count l \<noteq> 0" "unat (if_start l) + unat (if_count l) \<le> 2 ^ 32"
      using ok by (auto simp: launch_ok_def)
    have "length (root_from_steps (cr_sha256 (ge_crates ge)) (sha256d (cr_sha256 (ge_crates ge)) cb) (job_merkle_steps job)) = 32" for cb
      by (intro length_root_from_steps) (simp_all add: assms(5) sha256d_def)
    then have "header_wf (if_header l)" "length (if_extranonce2 l) = job_extranonce2_size job"
      using lo wf by (simp_all add: launch_ok_def en2_header_def Let_def header_wf_def job_wf_def)
    then show "launch_typed \<lparr>la_algo = algo, la_header76 = take 76 (serialize (if_header l)), la_start = if_start l, la_count = if_count l,
        la_target = job_share_target job\<rparr> \<and> length (if_extranonce2 l) = job_extranonce2_size job"
      using c wf by (auto simp: launch_typed_def job_wf_def target_limbs_def)
  qed
qed

theorem pool_jobs_make_typed_launches_witness:
  "\<exists>job ended g'. sh_job (snd (run_client demo_cx [demo_attempt] demo_shared)) = Some job \<and>
     gpu_mine_job demo_gpu_env (Suc (7 * nonces_left job 1 0 + 6)) job 0 Bc3Hash (\<lambda>_. replicate 32 0) demo_gpu = Some (ended, g') \<and>
     (\<forall>(l, scan)\<in>set (g_finished g'). length (take 76 (serialize (if_header l))) = 76 \<and> length (if_extranonce2 l) = 4)"
proof -
  have none: "sh_job demo_shared = None" by (simp add: demo_shared_def Shared_new_def)
  have at: "\<forall>a\<in>set [demo_attempt]. others_keep_jobs a" by (auto simp: others_keep_jobs_def demo_attempt_def)
  obtain job where job: "sh_job (snd (run_client demo_cx [demo_attempt] demo_shared)) = Some job" "job_extranonce2_size job = 4"
    using demo_session_job by blast
  then have eight: "job_extranonce2_size job < 8" by simp
  have "\<exists>r. gpu_mine_job demo_gpu_env (Suc (7 * nonces_left job 1 0 + 6)) job 0 Bc3Hash (\<lambda>_. replicate 32 0) demo_gpu = Some r"
    by (rule gpu_mine_job_returns [where N = 4, OF eight _ _ _ _ refl]) (simp_all add: demo_gpu_fields start_on_def)
  then obtain ended g' where
    r: "gpu_mine_job demo_gpu_env (Suc (7 * nonces_left job 1 0 + 6)) job 0 Bc3Hash (\<lambda>_. replicate 32 0) demo_gpu = Some (ended, g')"
    by (metis surj_pair)
  have sha: "length (cr_sha256 (ge_crates demo_gpu_env) x) = 32" for x by (simp add: demo_gpu_env_def demo_crates_def)
  from pool_jobs_make_typed_launches [OF none at job(1) r sha demo_gpu_fields(2)] job(2)
  have "\<forall>(l, scan)\<in>set (g_finished g'). length (take 76 (serialize (if_header l))) = 76 \<and> length (if_extranonce2 l) = 4"
    by (auto simp: launch_typed_def)
  then show ?thesis using job(1) r by blast
qed

text \<open>
  C4. A card and a CPU thread that \<open>main\<close> has started, working on one job whose extranonce2 is shorter than
  8 bytes, never hash the same coinbase: what the card starts at and what the thread starts at have extranonce2s of their own
  class modulo the stride - as on a fresh search space, where each starts at its own number - and then every launch the
  card finishes and every chunk the thread hashes has an extranonce2 of its owner's, whatever either of them met on the way -
  failing launches, autotuned batches, other threads - and both stop at one of their own class, so that it goes on
  from there. (From 8 bytes on the 64-bit counter itself comes to its end, where the two would meet.)
\<close>

theorem rig_never_repeats_work:
  assumes "main_start mc args = (ls, Running rig)" and "(dev, slot, t, N) \<in> set (rig_gpu_workers rig)"
    and "(t', N', role) \<in> set (rig_cpu_workers rig)" and "N < 2 ^ 63"
    and "gpu_mine_job ge fuel job gen algo verify g = Some (ended, g')"
    and "gw_worker_index (g_w g) = t" and "gw_stride (g_w g) = word_of_nat N" and "g_finished g = []"
    and "gw_prev (g_w g) \<noteq> None \<longrightarrow> unat (fst (gw_cursor (g_w g))) mod N = t"
    and "mine_job cr job pow clock batch gen' N' interfere 0 fuel' e n s = Some (exhausted, e', n', s')" and "unat e mod N = t'"
    and "0 < unat batch" and "job_extranonce2_size job < 8"
  shows "\<exists>cs. s' = hash_chunks cr job pow clock interfere 0 cs s \<and>
    (\<forall>(l, scan)\<in>set (g_finished g'). \<forall>c\<in>set cs.
       coinbase_of job (if_extranonce2 l) \<noteq> coinbase_of job (encode_extranonce2 (fst c) (job_extranonce2_size job))) \<and>
    unat (fst (gw_cursor (g_w g'))) mod N = t \<and> unat e' mod N = t'"
proof -
  have t: "N' = N" "t < N" "t' < N" "t \<noteq> t'" using rig_numbers [OF assms(1-3)] by auto
  have N: "0 < N" "N < 2 ^ 64" using assms(4) t(2) by simp_all
  have "en2_headroom job N fuel' e" using assms(4,13) N(1) by (simp add: en2_headroom_def)
  from mine_job_tiles [OF assms(10) [unfolded t(1)] assms(12) this] obtain cs where
    cs: "tiles N (e, n) cs (e', n')" "s' = hash_chunks cr job pow clock interfere 0 cs s"
    "\<forall>c\<in>set cs. en2_fits (fst c) (job_extranonce2_size job)" by blast
  obtain e0 n0 where start: "start_on (gw_prev (g_w g)) job (gw_worker_index (g_w g)) (fst (gw_cursor (g_w g))) (snd (gw_cursor (g_w g))) = (e0, n0)"
    by fastforce
  have "unat (word_of_nat t :: u64) = t" using t(2) N(2) by (simp add: unat_of_nat)
  then have own: "unat e0 mod N = t" using start assms(6,9) t(2) by (auto simp: start_on_def split: option.splits if_splits)
  from gpu_mine_job_tiles [OF assms(5,13) N(1) assms(4,7,8)] obtain lost where
    ls: "tiles N (e0, n0) (map chunk_in_flight (map fst (g_finished g') @ lost)) (gw_cursor (g_w g'))"
    "\<forall>(l, scan)\<in>set (g_finished g'). launch_ok (ge_crates ge) job l"
    unfolding start by blast
  have "coinbase_of job (if_extranonce2 l) \<noteq> coinbase_of job (encode_extranonce2 (fst c) (job_extranonce2_size job))"
    if l: "(l, scan) \<in> set (g_finished g')" and c: "c \<in> set cs" for l scan c
  proof -
    have ok: "launch_ok (ge_crates ge) job l" using ls(2) l by auto
    have mem: "chunk_in_flight l \<in> set (map chunk_in_flight (map fst (g_finished g') @ lost))" using l by force
    have "if_extranonce2 l = encode_extranonce2 (if_en2 l) (job_extranonce2_size job)"
      using ok by (simp add: launch_ok_def en2_header_def Let_def)
    moreover have "coinbase_of job (encode_extranonce2 (fst (chunk_in_flight l)) (job_extranonce2_size job)) \<noteq>
        coinbase_of job (encode_extranonce2 (fst c) (job_extranonce2_size job))"
      by (rule owners_coinbases_differ [OF t(4) N(1) own assms(11) ls(1) cs(1) mem c])
        (use ok cs(3) c in \<open>simp_all add: launch_ok_def chunk_in_flight_def\<close>)
    ultimately show ?thesis by (simp add: chunk_in_flight_def)
  qed
  moreover have "unat (fst (gw_cursor (g_w g'))) mod N = t" "unat e' mod N = t'"
    using tiles_ends_own [OF ls(1) N(1)] tiles_ends_own [OF cs(1) N(1)] own assms(11) by simp_all
  ultimately show ?thesis using cs(2) by (intro exI [of _ cs]) auto
qed

definition demo_card :: "(GpuQueue, choices) Gpu" where
  "demo_card = demo_gpu\<lparr>g_w := GpuWorker_new demo_shared 0 8 10\<rparr>"

lemma demo_card_fields:
  "gw_worker_index (g_w demo_card) = 8" "gw_stride (g_w demo_card) = word_of_nat 10" "gw_prev (g_w demo_card) = None"
  "g_finished demo_card = []" "job_extranonce2_size demo_job < 8"
  by (simp_all add: demo_card_def demo_gpu_def GpuWorker_new_def demo_job_def)

theorem rig_never_repeats_work_witness:
  "\<exists>ended g' exhausted e' n' s' cs.
     gpu_mine_job demo_gpu_env (Suc (7 * nonces_left demo_job 8 0 + 6)) demo_job 0 Bc3Hash (\<lambda>_. replicate 32 0) demo_card = Some (ended, g') \<and>
     mine_job demo_crates demo_job (\<lambda>_. replicate 32 0) (\<lambda>_ _. 0) BATCH 0 10 (\<lambda>_ s. s) 0
       (Suc (nonces_left demo_job 2 0)) 2 0 demo_shared = Some (exhausted, e', n', s') \<and>
     s' = hash_chunks demo_crates demo_job (\<lambda>_. replicate 32 0) (\<lambda>_ _. 0) (\<lambda>_ s. s) 0 cs demo_shared \<and>
     (\<forall>(l, scan)\<in>set (g_finished g'). \<forall>c\<in>set cs.
        coinbase_of demo_job (if_extranonce2 l) \<noteq> coinbase_of demo_job (encode_extranonce2 (fst c) (job_extranonce2_size demo_job)))"
proof -
  let ?rig = "start_rig demo_machine demo_args ''bc1q.rig'' demo_cards"
  have "\<exists>r. gpu_mine_job demo_gpu_env (Suc (7 * nonces_left demo_job 8 0 + 6)) demo_job 0 Bc3Hash (\<lambda>_. replicate 32 0) demo_card = Some r"
    by (rule gpu_mine_job_returns [where N = 10, OF _ _ _ _ _ refl]) (simp_all add: demo_card_fields start_on_def)
  then obtain ended g' where
    g: "gpu_mine_job demo_gpu_env (Suc (7 * nonces_left demo_job 8 0 + 6)) demo_job 0 Bc3Hash (\<lambda>_. replicate 32 0) demo_card = Some (ended, g')"
    by (metis surj_pair)
  have two: "word_of_nat 2 = (2 :: u64)" by simp
  have "\<exists>r. mine_job demo_crates demo_job (\<lambda>_. replicate 32 0) (\<lambda>_ _. 0) BATCH 0 10 (\<lambda>_ s. s) 0
       (Suc (nonces_left demo_job 2 0)) 2 0 demo_shared = Some r"
    by (rule mine_job_returns) (simp_all add: demo_job_def BATCH_def)
  then obtain exhausted e' n' s' where
    c: "mine_job demo_crates demo_job (\<lambda>_. replicate 32 0) (\<lambda>_ _. 0) BATCH 0 10 (\<lambda>_ s. s) 0
       (Suc (nonces_left demo_job 2 0)) (word_of_nat 2) 0 demo_shared = Some (exhausted, e', n', s')"
    unfolding two by (metis prod_cases4)
  obtain ls where r: "main_start demo_machine demo_args = (ls, Running ?rig)" using demo_main_start by blast
  have plan: "plan_cpu (ar_backend demo_args) (length demo_cards) (ar_threads demo_args) (mc_cores demo_machine) = (8, GpuFallback)"
    and len: "length demo_cards = 2"
    by (simp_all add: plan_cpu_def demo_args_def demo_machine_def demo_cards_def)
  note w = start_rig_workers [where user = "''bc1q.rig''", OF plan]
  have card: "(demo_cards ! 0, 0, 8, 10) \<in> set (rig_gpu_workers ?rig)" and thread: "(2, 10, GpuFallback) \<in> set (rig_cpu_workers ?rig)"
    by (auto simp: w len)
  have n: "(10 :: nat) < 2 ^ 63" "0 < unat BATCH" by (simp_all add: BATCH_def)
  from rig_never_repeats_work [OF r card thread n(1) g demo_card_fields(1,2,4) _ c _ n(2) demo_card_fields(5)] g c demo_card_fields(3) show ?thesis
    unfolding two by auto
qed

end
